(* ===== verification/Prelude.thy ===== *)
theory Prelude
  imports Main "HOL-Library.Word" "HOL-Library.AList"
begin

text \<open>
  The vocabulary every component shares: bytes and text, results, the arithmetic of the
  machine integers the code saturates, and the list lemmas the proofs have in common.

  A Rust \<open>String\<close> is a list of Unicode scalar values (\<open>ustr\<close>), because the code classifies
  characters far outside ASCII; a literal of the source is written \<open>lit ''event''\<close>.  A buffer of
  bytes (\<open>Vec<u8>\<close>, \<open>Bytes\<close>, \<open>BytesMut\<close>) is a list of 8-bit words.  \<open>usize\<close> is 64 bits wide.
\<close>

unbundle bit_operations_syntax

named_theorems frame_simps \<open>unfolding equations of the framers\<close>
named_theorems tree_simps \<open>accessors and updates of the detail tree\<close>
named_theorems hub_simps \<open>unfolding equations of the connection registry\<close>

section \<open>Bytes, text and results\<close>

type_synonym byte = "8 word"
type_synonym bytes = "byte list"
type_synonym uchar = nat
type_synonym ustr = "uchar list"

text \<open>The text of a string literal of the source.\<close>

definition lit :: "string \<Rightarrow> ustr" where
  "lit s = map of_char s"

lemma of_char_nat_inject [simp]: "(of_char c :: nat) = of_char d \<longleftrightarrow> c = d"
  by (fact of_char_eq_iff)

lemma lit_inject [simp]: "lit s = lit t \<longleftrightarrow> s = t"
  unfolding lit_def by (rule inj_map_eq_map) (simp add: inj_def)

lemma lit_Nil_iff [simp]: "lit s = [] \<longleftrightarrow> s = []"
  by (simp add: lit_def)

lemma lit_Nil_iff' [simp]: "[] = lit s \<longleftrightarrow> s = []"
  by (auto simp: lit_def)

lemma lit_Nil [simp]: "lit [] = []"
  by (simp add: lit_def)

lemma length_lit [simp]: "length (lit s) = length s"
  by (simp add: lit_def)

lemma lit_append: "lit (s @ t) = lit s @ lit t"
  by (simp add: lit_def)

lemma take_lit: "take n (lit s) = lit (take n s)"
  by (simp add: lit_def take_map)

lemma drop_lit: "drop n (lit s) = lit (drop n s)"
  by (simp add: lit_def drop_map)

text \<open>The bytes of a byte-string literal.\<close>

definition raw :: "string \<Rightarrow> bytes" where
  "raw s = map of_char s"

lemma length_raw [simp]: "length (raw s) = length s"
  by (simp add: raw_def)

lemma raw_Nil_iff [simp]: "raw s = [] \<longleftrightarrow> s = []"
  by (simp add: raw_def)

text \<open>\<open>str::starts_with\<close> and \<open>str::strip_prefix\<close>.\<close>

definition starts_with :: "'a list \<Rightarrow> 'a list \<Rightarrow> bool" where
  "starts_with s p \<longleftrightarrow> take (length p) s = p"

lemma starts_with_append [simp]: "starts_with (p @ s) p"
  by (simp add: starts_with_def)

lemma starts_with_iff: "starts_with s p \<longleftrightarrow> (\<exists>t. s = p @ t)"
  by (metis append_take_drop_id starts_with_append starts_with_def)

lemma starts_with_lit [simp]: "starts_with (lit s) (lit p) \<longleftrightarrow> take (length p) s = p"
  by (simp add: starts_with_def take_lit)

definition strip_prefix :: "'a list \<Rightarrow> 'a list \<Rightarrow> 'a list option" where
  "strip_prefix p s = (if starts_with s p then Some (drop (length p) s) else None)"

text \<open>\<open>char::to_ascii_lowercase\<close> and \<open>str::eq_ignore_ascii_case\<close>.\<close>

definition ascii_lower :: "uchar \<Rightarrow> uchar" where
  "ascii_lower c = (if 65 \<le> c \<and> c \<le> 90 then c + 32 else c)"

definition eq_ignore_ascii_case :: "ustr \<Rightarrow> ustr \<Rightarrow> bool" where
  "eq_ignore_ascii_case a b \<longleftrightarrow> map ascii_lower a = map ascii_lower b"

lemma eq_ignore_ascii_case_refl [simp]: "eq_ignore_ascii_case a a"
  by (simp add: eq_ignore_ascii_case_def)

text \<open>The characters \<open>char::is_whitespace\<close> accepts, and \<open>str::trim\<close>.\<close>

definition is_whitespace :: "uchar \<Rightarrow> bool" where
  "is_whitespace c \<longleftrightarrow> (9 \<le> c \<and> c \<le> 13) \<or> c = 32 \<or> c = 0x85 \<or> c = 0xA0 \<or> c = 0x1680 \<or>
     (0x2000 \<le> c \<and> c \<le> 0x200A) \<or> c = 0x2028 \<or> c = 0x2029 \<or> c = 0x202F \<or> c = 0x205F \<or> c = 0x3000"

definition trim :: "ustr \<Rightarrow> ustr" where
  "trim s = rev (dropWhile is_whitespace (rev (dropWhile is_whitespace s)))"

lemma trim_Nil [simp]: "trim [] = []"
  by (simp add: trim_def)

lemma trim_eq_Nil: "trim s = [] \<longleftrightarrow> list_all is_whitespace s"
proof
  assume "trim s = []"
  then have all: "\<forall>x\<in>set (dropWhile is_whitespace s). is_whitespace x"
    by (simp add: trim_def dropWhile_eq_Nil_conv)
  show "list_all is_whitespace s"
  proof (cases "dropWhile is_whitespace s")
    case Nil
    then show ?thesis by (simp add: dropWhile_eq_Nil_conv list_all_iff)
  next
    case (Cons c t)
    then have "\<not> is_whitespace c"
      using hd_dropWhile [of is_whitespace s] by simp
    with all Cons show ?thesis by simp
  qed
next
  assume "list_all is_whitespace s"
  then have d: "dropWhile is_whitespace s = []"
    by (simp add: dropWhile_eq_Nil_conv list_all_iff)
  show "trim s = []" unfolding trim_def d by simp
qed

lemma trim_id: "\<not> is_whitespace (hd s) \<Longrightarrow> \<not> is_whitespace (last s) \<Longrightarrow> trim s = s"
proof -
  assume a: "\<not> is_whitespace (hd s)" "\<not> is_whitespace (last s)"
  then have "dropWhile is_whitespace s = s" by (cases s) auto
  moreover have "dropWhile is_whitespace (rev s) = rev s"
  proof (cases s rule: rev_cases)
    case (snoc t c)
    with a(2) show ?thesis by simp
  qed simp
  ultimately show ?thesis by (simp add: trim_def)
qed

section \<open>Machine arithmetic\<close>

text \<open>\<open>i64::saturating_add\<close>, \<open>i64::saturating_sub\<close> and \<open>u64::saturating_add\<close>, on the value.\<close>

definition i64_max :: int where "i64_max = 2 ^ 63 - 1"
definition i64_min :: int where "i64_min = - (2 ^ 63)"
definition u64_max :: nat where "u64_max = 2 ^ 64 - 1"

definition sat_i64 :: "int \<Rightarrow> int" where
  "sat_i64 x = max i64_min (min i64_max x)"

definition is_i64 :: "int \<Rightarrow> bool" where
  "is_i64 x \<longleftrightarrow> i64_min \<le> x \<and> x \<le> i64_max"

lemma is_i64_sat [simp]: "is_i64 (sat_i64 x)"
  by (simp add: is_i64_def sat_i64_def i64_min_def i64_max_def)

lemma sat_i64_id [simp]: "is_i64 x \<Longrightarrow> sat_i64 x = x"
  by (simp add: is_i64_def sat_i64_def)

lemma sat_i64_mono: "x \<le> y \<Longrightarrow> sat_i64 x \<le> sat_i64 y"
  by (simp add: sat_i64_def)

definition sat_add_u64 :: "nat \<Rightarrow> nat \<Rightarrow> nat" where
  "sat_add_u64 a b = min u64_max (a + b)"

lemma sat_add_u64_0 [simp]: "a \<le> u64_max \<Longrightarrow> sat_add_u64 a 0 = a"
  by (simp add: sat_add_u64_def)

lemma sat_add_u64_le [simp]: "sat_add_u64 a b \<le> u64_max"
  by (simp add: sat_add_u64_def)

lemma sat_add_u64_assoc: "sat_add_u64 (sat_add_u64 a b) c = sat_add_u64 a (b + c)"
  by (simp add: sat_add_u64_def min_def)

lemma sat_add_u64_exact: "a + b \<le> u64_max \<Longrightarrow> sat_add_u64 a b = a + b"
  by (simp add: sat_add_u64_def)

lemma sat_add_u64_ge: "a \<le> u64_max \<Longrightarrow> a \<le> sat_add_u64 a b"
  by (simp add: sat_add_u64_def)

section \<open>Decimal numbers\<close>

text \<open>\<open>to_string\<close> of an unsigned integer, and \<open>str::parse\<close> of one: an optional plus sign, at
  least one digit, nothing else, and a value that fits.\<close>

fun dec_of_nat :: "nat \<Rightarrow> ustr" where
  "dec_of_nat n = (if n < 10 then [48 + n] else dec_of_nat (n div 10) @ [48 + n mod 10])"

declare dec_of_nat.simps [simp del]

definition is_digit :: "uchar \<Rightarrow> bool" where
  "is_digit c \<longleftrightarrow> 48 \<le> c \<and> c \<le> 57"

definition digits_value :: "ustr \<Rightarrow> nat" where
  "digits_value s = foldl (\<lambda>v c. 10 * v + (c - 48)) 0 s"

definition parse_uint :: "nat \<Rightarrow> ustr \<Rightarrow> nat option" where
  "parse_uint bound s =
     (let ds = (case s of [] \<Rightarrow> [] | c # t \<Rightarrow> if c = 43 then t else s)
      in if ds \<noteq> [] \<and> list_all is_digit ds \<and> digits_value ds \<le> bound
         then Some (digits_value ds) else None)"

lemma dec_of_nat_digits: "list_all is_digit (dec_of_nat n) \<and> dec_of_nat n \<noteq> []"
proof (induction n rule: dec_of_nat.induct)
  case (1 n)
  moreover have "n mod 10 \<le> 9" by presburger
  ultimately show ?case
    by (simp add: dec_of_nat.simps [of n] is_digit_def)
qed

lemma digits_value_dec_of_nat [simp]: "digits_value (dec_of_nat n) = n"
proof (induction n rule: dec_of_nat.induct)
  case (1 n)
  then show ?case
    by (subst dec_of_nat.simps) (auto simp: digits_value_def)
qed

lemma hd_dec_of_nat: "dec_of_nat n = c # t \<Longrightarrow> c \<noteq> 43"
  using dec_of_nat_digits [of n] by (auto simp: is_digit_def)

lemma parse_uint_dec_of_nat [simp]: "n \<le> bound \<Longrightarrow> parse_uint bound (dec_of_nat n) = Some n"
proof -
  assume le: "n \<le> bound"
  obtain c t where ct: "dec_of_nat n = c # t" "c \<noteq> 43"
    using dec_of_nat_digits [of n] hd_dec_of_nat by (cases "dec_of_nat n") auto
  have "digits_value (c # t) = n" using digits_value_dec_of_nat [of n] ct by simp
  moreover have "list_all is_digit (c # t)" using dec_of_nat_digits [of n] ct by simp
  ultimately show ?thesis using ct le by (simp add: parse_uint_def)
qed

lemma parse_uint_le: "parse_uint bound s = Some n \<Longrightarrow> n \<le> bound"
  by (auto simp: parse_uint_def Let_def split: if_splits)

text \<open>\<open>bool::to_string\<close>.\<close>

definition bool_text :: "bool \<Rightarrow> ustr" where
  "bool_text b = (if b then lit ''true'' else lit ''false'')"

lemma eq_ignore_bool_text [simp]: "eq_ignore_ascii_case (bool_text b) (lit ''true'') = b"
  by (simp add: bool_text_def eq_ignore_ascii_case_def lit_def ascii_lower_def)

section \<open>Association lists that keep their order\<close>

text \<open>
  An attribute list is read with \<open>map_of\<close> (the first entry of a name) and written with
  \<open>AList.update\<close> (replace the first entry of a name, else append).  \<open>present\<close> is the list a chain
  of optional setters builds.
\<close>

definition present :: "('k \<times> 'v option) list \<Rightarrow> ('k \<times> 'v) list" where
  "present kvs = concat (map (\<lambda>(k, v). case v of None \<Rightarrow> [] | Some x \<Rightarrow> [(k, x)]) kvs)"

lemma present_Nil [simp]: "present [] = []"
  by (simp add: present_def)

lemma present_None [simp]: "present ((k, None) # kvs) = present kvs"
  by (simp add: present_def)

lemma present_Some [simp]: "present ((k, Some v) # kvs) = (k, v) # present kvs"
  by (simp add: present_def)

lemma present_append: "present (xs @ ys) = present xs @ present ys"
  by (simp add: present_def)

lemma fst_present: "fst ` set (present kvs) \<subseteq> fst ` set kvs"
proof (induction kvs)
  case (Cons kv kvs)
  then show ?case by (cases kv; cases "snd kv") auto
qed simp

lemma update_notin: "k \<notin> fst ` set xs \<Longrightarrow> AList.update k v xs = xs @ [(k, v)]"
  by (induction xs) auto

lemma foldl_update_fresh:
  "distinct (map fst ys) \<Longrightarrow> fst ` set xs \<inter> fst ` set ys = {} \<Longrightarrow>
   foldl (\<lambda>as (k, v). AList.update k v as) xs ys = xs @ ys"
proof (induction ys arbitrary: xs)
  case Nil
  then show ?case by simp
next
  case (Cons y ys)
  obtain k v where y: "y = (k, v)" by force
  from Cons.prems have "k \<notin> fst ` set xs" by (auto simp: y)
  moreover from Cons.prems have "fst ` set (xs @ [(k, v)]) \<inter> fst ` set ys = {}"
    by (auto simp: y)
  ultimately show ?case using Cons by (simp add: y update_notin)
qed

lemma map_of_append_other: "k \<notin> fst ` set ys \<Longrightarrow> map_of (xs @ ys) k = map_of xs k"
  by (simp add: map_add_def map_of_eq_None_iff [THEN iffD2] split: option.splits)

lemma map_of_present_notin: "k \<notin> fst ` set kvs \<Longrightarrow> map_of (present kvs) k = None"
  using fst_present [of kvs] by (auto simp: map_of_eq_None_iff)

lemma filter_notin_present:
  "fst ` set kvs \<subseteq> K \<Longrightarrow> filter (\<lambda>(k, v). k \<notin> K) (present kvs) = []"
  using fst_present [of kvs] by (force simp: filter_empty_conv)

lemma filter_notin_extra:
  "fst ` set ex \<inter> K = {} \<Longrightarrow> filter (\<lambda>(k, v). k \<notin> K) ex = ex"
  by (auto simp: filter_id_conv)

section \<open>Searching and updating lists\<close>

text \<open>Replace the first element a predicate accepts (\<open>iter_mut().find(..)\<close> and a write).\<close>

fun update_first :: "('a \<Rightarrow> bool) \<Rightarrow> ('a \<Rightarrow> 'a) \<Rightarrow> 'a list \<Rightarrow> 'a list" where
  "update_first P f [] = []"
| "update_first P f (x # xs) = (if P x then f x # xs else x # update_first P f xs)"

lemma length_update_first [simp]: "length (update_first P f xs) = length xs"
  by (induction xs) auto

lemma update_first_none: "\<forall>x\<in>set xs. \<not> P x \<Longrightarrow> update_first P f xs = xs"
  by (induction xs) auto

lemma find_update_first:
  "(\<And>x. P x \<Longrightarrow> P (f x)) \<Longrightarrow> List.find P (update_first P f xs) = map_option f (List.find P xs)"
  by (induction xs) auto

lemma find_append: "List.find P (xs @ ys) = (case List.find P xs of None \<Rightarrow> List.find P ys | Some x \<Rightarrow> Some x)"
  by (induction xs) auto

lemma find_SomeD: "List.find P xs = Some x \<Longrightarrow> x \<in> set xs \<and> P x"
  by (induction xs) (auto split: if_splits)

lemma find_None_filter: "List.find P xs = None \<longleftrightarrow> filter P xs = []"
  by (auto simp: find_None_iff filter_empty_conv)

lemma find_filter_hd: "List.find P xs = (case filter P xs of [] \<Rightarrow> None | x # _ \<Rightarrow> Some x)"
  by (induction xs) auto

lemma filter_update_first_other:
  "(\<And>x. P x \<Longrightarrow> \<not> Q x) \<Longrightarrow> (\<And>x. P x \<Longrightarrow> \<not> Q (f x)) \<Longrightarrow>
   filter Q (update_first P f xs) = filter Q xs"
  by (induction xs) auto

end
