(* ===== verification/Detail_Tree.thy ===== *)
theory Detail_Tree
  imports Prelude
begin

text \<open>
  The \<open><detail>\<close> tree (\<open>rustak-cot/src/detail/mod.rs\<close>): an ordered node tree that keeps whatever it
  does not understand, its accessors and updates, and the contract of the typed views over it as
  locales: a view that reads back what it writes (\<open>typed_detail\<close>), and one that reads strictly only
  what it can reproduce (\<open>strict_detail\<close>, \<open>lossless_detail\<close>).
\<close>

section \<open>Model\<close>

type_synonym attrs = "(ustr \<times> ustr) list"

datatype node = Elem element | Text ustr | CData ustr | Comment ustr
  and element = Element (el_name: ustr) (el_attrs: attrs) (el_children: "node list")

definition el_new :: "ustr \<Rightarrow> element" where
  "el_new name = Element name [] []"

fun el_set :: "ustr \<Rightarrow> ustr \<Rightarrow> element \<Rightarrow> element" where
  "el_set key v (Element name as cs) = Element name (AList.update key v as) cs"

definition el_attr :: "ustr \<Rightarrow> ustr \<Rightarrow> element \<Rightarrow> element" where
  "el_attr key v e = el_set key v e"

definition el_attr_opt :: "ustr \<Rightarrow> ustr option \<Rightarrow> element \<Rightarrow> element" where
  "el_attr_opt key v e = (case v of Some x \<Rightarrow> el_attr key x e | None \<Rightarrow> e)"

definition el_get :: "ustr \<Rightarrow> element \<Rightarrow> ustr option" where
  "el_get key e = map_of (el_attrs e) key"

fun el_remove_attr :: "ustr \<Rightarrow> element \<Rightarrow> ustr option \<times> element" where
  "el_remove_attr key (Element name as cs) =
     (map_of as key, Element name (filter (\<lambda>(n, _). n \<noteq> key) as) cs)"

fun elements_of :: "node list \<Rightarrow> element list" where
  "elements_of [] = []"
| "elements_of (Elem e # ns) = e # elements_of ns"
| "elements_of (_ # ns) = elements_of ns"

definition el_elements :: "element \<Rightarrow> element list" where
  "el_elements e = elements_of (el_children e)"

definition el_child :: "ustr \<Rightarrow> element \<Rightarrow> element option" where
  "el_child name e = List.find (\<lambda>c. el_name c = name) (el_elements e)"

fun el_push :: "node \<Rightarrow> element \<Rightarrow> element" where
  "el_push n (Element name as cs) = Element name as (cs @ [n])"

fun text_of :: "node list \<Rightarrow> ustr" where
  "text_of [] = []"
| "text_of (Text t # ns) = t @ text_of ns"
| "text_of (CData t # ns) = t @ text_of ns"
| "text_of (_ # ns) = text_of ns"

definition el_text :: "element \<Rightarrow> ustr" where
  "el_text e = text_of (el_children e)"

definition el_is_empty :: "element \<Rightarrow> bool" where
  "el_is_empty e \<longleftrightarrow> el_attrs e = [] \<and> el_children e = []"

definition has_exactly :: "ustr list \<Rightarrow> element \<Rightarrow> bool" where
  "has_exactly expected e \<longleftrightarrow>
     length (el_attrs e) = length expected \<and> list_all (\<lambda>(n, _). n \<in> set expected) (el_attrs e)"

record detail =
  nodes :: "node list"

definition detail_new :: detail where
  "detail_new = \<lparr>nodes = []\<rparr>"

definition d_is_empty :: "detail \<Rightarrow> bool" where
  "d_is_empty d \<longleftrightarrow> nodes d = []"

definition d_elements :: "detail \<Rightarrow> element list" where
  "d_elements d = elements_of (nodes d)"

definition d_find :: "ustr \<Rightarrow> detail \<Rightarrow> element option" where
  "d_find name d = List.find (\<lambda>e. el_name e = name) (d_elements d)"

definition d_find_all :: "ustr \<Rightarrow> detail \<Rightarrow> element list" where
  "d_find_all name d = filter (\<lambda>e. el_name e = name) (d_elements d)"

definition d_count :: "ustr \<Rightarrow> detail \<Rightarrow> nat" where
  "d_count name d = length (filter (\<lambda>e. el_name e = name) (d_elements d))"

text \<open>A node that is an element of this name.\<close>

fun named :: "ustr \<Rightarrow> node \<Rightarrow> bool" where
  "named name (Elem e) \<longleftrightarrow> el_name e = name"
| "named name _ \<longleftrightarrow> False"

fun map_elem :: "(element \<Rightarrow> element) \<Rightarrow> node \<Rightarrow> node" where
  "map_elem f (Elem e) = Elem (f e)"
| "map_elem f n = n"

text \<open>A write through \<open>find_mut\<close>, and through every element of a name.\<close>

definition d_update :: "ustr \<Rightarrow> (element \<Rightarrow> element) \<Rightarrow> detail \<Rightarrow> detail" where
  "d_update name f d = d\<lparr>nodes := update_first (named name) (map_elem f) (nodes d)\<rparr>"

definition d_update_all :: "ustr \<Rightarrow> (element \<Rightarrow> element) \<Rightarrow> detail \<Rightarrow> detail" where
  "d_update_all name f d =
     d\<lparr>nodes := map (\<lambda>n. if named name n then map_elem f n else n) (nodes d)\<rparr>"

definition d_remove_all :: "ustr \<Rightarrow> detail \<Rightarrow> element list \<times> detail" where
  "d_remove_all name d =
     (elements_of (filter (named name) (nodes d)), d\<lparr>nodes := filter (\<lambda>n. \<not> named name n) (nodes d)\<rparr>)"

definition d_push :: "element \<Rightarrow> detail \<Rightarrow> detail" where
  "d_push e d = d\<lparr>nodes := nodes d @ [Elem e]\<rparr>"

definition d_push_node :: "node \<Rightarrow> detail \<Rightarrow> detail" where
  "d_push_node n d = d\<lparr>nodes := nodes d @ [n]\<rparr>"

definition d_from_iter :: "element list \<Rightarrow> detail" where
  "d_from_iter es = \<lparr>nodes = map Elem es\<rparr>"

definition d_get :: "ustr \<Rightarrow> (element \<Rightarrow> 'a option) \<Rightarrow> detail \<Rightarrow> 'a option" where
  "d_get name from_element d = Option.bind (d_find name d) from_element"

definition d_set :: "ustr \<Rightarrow> ('a \<Rightarrow> element) \<Rightarrow> 'a \<Rightarrow> detail \<Rightarrow> detail" where
  "d_set name to_element v d =
     (let e = to_element v
      in if d_find name d \<noteq> None then d_update name (\<lambda>_. e) d else d_push e d)"

definition extra_attrs :: "ustr list \<Rightarrow> element \<Rightarrow> attrs" where
  "extra_attrs known e = filter (\<lambda>(n, _). n \<notin> set known) (el_attrs e)"

definition apply_extras :: "attrs \<Rightarrow> element \<Rightarrow> element" where
  "apply_extras extras e = foldl (\<lambda>e (n, v). el_set n v e) e extras"

section \<open>Attributes\<close>

lemma el_name_set [simp]: "el_name (el_set k v e) = el_name e"
  by (cases e) simp

lemma el_children_set [simp]: "el_children (el_set k v e) = el_children e"
  by (cases e) simp

lemma el_attrs_set [simp]: "el_attrs (el_set k v e) = AList.update k v (el_attrs e)"
  by (cases e) simp

lemma el_get_Element: "el_get k (Element n as cs) = map_of as k"
  by (simp add: el_get_def)

lemma el_get_set [simp]: "el_get k (el_set k' v e) = (if k = k' then Some v else el_get k e)"
  by (simp add: el_get_def update_conv')

lemma map_of_filter_key: "map_of (filter (\<lambda>(n, _). n \<noteq> k') xs) k = (if k = k' then None else map_of xs k)"
  by (induction xs) auto

lemma el_get_remove [simp]:
  "el_get k (snd (el_remove_attr k' e)) = (if k = k' then None else el_get k e)"
  by (cases e) (simp add: el_get_def map_of_filter_key)

lemma apply_extras_other [simp]:
  "el_name (apply_extras ex e) = el_name e" "el_children (apply_extras ex e) = el_children e"
  by (induction ex arbitrary: e) (auto simp: apply_extras_def)

lemma el_get_name [simp]: "el_name (el_attr k v e) = el_name e" "el_name (el_attr_opt k w e) = el_name e"
  "el_name (el_new n) = n" "el_name (el_push x e) = el_name e"
  by (cases e, auto simp: el_attr_def el_attr_opt_def el_new_def split: option.splits)+

text \<open>A chain of setters on a fresh element writes exactly the attributes that are present.\<close>

definition built :: "ustr \<Rightarrow> (ustr \<times> ustr option) list \<Rightarrow> element" where
  "built name kvs = Element name (present kvs) []"

lemma chain_new: "el_new name = built name []"
  by (simp add: el_new_def built_def)

lemma chain_attr_opt:
  "k \<notin> fst ` set kvs \<Longrightarrow> el_attr_opt k v (built name kvs) = built name (kvs @ [(k, v)])"
proof -
  assume "k \<notin> fst ` set kvs"
  then have "k \<notin> fst ` set (present kvs)" using fst_present [of kvs] by auto
  then show ?thesis
    by (cases v) (simp_all add: el_attr_opt_def el_attr_def built_def present_append update_notin)
qed

lemma chain_attr:
  "k \<notin> fst ` set kvs \<Longrightarrow> el_attr k v (built name kvs) = built name (kvs @ [(k, Some v)])"
  using chain_attr_opt [of k kvs "Some v" name] by (simp add: el_attr_opt_def)

definition extras_ok :: "ustr list \<Rightarrow> attrs \<Rightarrow> bool" where
  "extras_ok known ex \<longleftrightarrow> distinct (map fst ex) \<and> fst ` set ex \<inter> set known = {}"

lemma extras_ok_Nil [simp]: "extras_ok known []"
  by (simp add: extras_ok_def)

lemma chain_extras:
  assumes "extras_ok known ex" and "fst ` set kvs \<subseteq> set known"
  shows "apply_extras ex (built name kvs) = Element name (present kvs @ ex) []"
proof -
  have "apply_extras ex (Element name as cs) =
      Element name (foldl (\<lambda>as (k, v). AList.update k v as) as ex) cs" for as cs
    by (induction ex arbitrary: as) (auto simp: apply_extras_def)
  moreover have "fst ` set (present kvs) \<inter> fst ` set ex = {}"
    using assms fst_present [of kvs] unfolding extras_ok_def by blast
  ultimately show ?thesis
    using assms(1) by (simp add: built_def extras_ok_def foldl_update_fresh)
qed

lemma map_of_present: "distinct (map fst kvs) \<Longrightarrow> map_of (present kvs) k = Option.bind (map_of kvs k) id"
proof (induction kvs)
  case (Cons kv kvs)
  obtain k' v where kv: "kv = (k', v)" by force
  show ?case
  proof (cases "k = k'")
    case True
    with Cons.prems kv show ?thesis by (cases v) (auto simp: map_of_present_notin)
  next
    case False
    with Cons kv show ?thesis by (cases v) auto
  qed
qed simp

lemma get_chain:
  assumes "extras_ok known ex" and "k \<in> set known" and "distinct (map fst kvs)"
  shows "el_get k (Element name (present kvs @ ex) cs) = Option.bind (map_of kvs k) id"
proof -
  have "k \<notin> fst ` set ex" using assms(1,2) by (auto simp: extras_ok_def)
  with assms(3) show ?thesis
    by (simp add: el_get_def map_of_append_other map_of_present del: map_of_append)
qed

lemma extra_chain:
  assumes "extras_ok known ex" and "fst ` set kvs \<subseteq> set known"
  shows "extra_attrs known (Element name (present kvs @ ex) cs) = ex"
  using filter_notin_present [OF assms(2)] filter_notin_extra [of ex "set known"] assms(1)
  by (simp add: extra_attrs_def extras_ok_def)

section \<open>The node list\<close>

lemma elements_of_append [simp]: "elements_of (xs @ ys) = elements_of xs @ elements_of ys"
  by (induction xs rule: elements_of.induct) auto

lemma elements_of_map_Elem [simp]: "elements_of (map Elem es) = es"
  by (induction es) auto

lemma elements_of_filter_not_named:
  "elements_of (filter (\<lambda>n. \<not> named name n) ns) = filter (\<lambda>e. el_name e \<noteq> name) (elements_of ns)"
  by (induction ns rule: elements_of.induct) auto

lemma elements_of_filter_named:
  "elements_of (filter (named name) ns) = filter (\<lambda>e. el_name e = name) (elements_of ns)"
  by (induction ns rule: elements_of.induct) auto

lemma elements_of_update_first:
  "elements_of (update_first (named name) (map_elem f) ns) =
     update_first (\<lambda>e. el_name e = name) f (elements_of ns)"
  by (induction ns rule: elements_of.induct) auto

lemma elements_of_update_all:
  "elements_of (map (\<lambda>n. if named name n then map_elem f n else n) ns) =
     map (\<lambda>e. if el_name e = name then f e else e) (elements_of ns)"
  by (induction ns rule: elements_of.induct) auto

lemma d_elements_push [tree_simps]: "d_elements (d_push e d) = d_elements d @ [e]"
  by (simp add: d_elements_def d_push_def)

lemma d_elements_push_node_Text [tree_simps]: "d_elements (d_push_node (Text t) d) = d_elements d"
  by (simp add: d_elements_def d_push_node_def)

lemma d_elements_update [tree_simps]:
  "d_elements (d_update name f d) = update_first (\<lambda>e. el_name e = name) f (d_elements d)"
  by (simp add: d_elements_def d_update_def elements_of_update_first)

lemma d_elements_update_all [tree_simps]:
  "d_elements (d_update_all name f d) = map (\<lambda>e. if el_name e = name then f e else e) (d_elements d)"
  by (simp add: d_elements_def d_update_all_def elements_of_update_all)

lemma d_elements_remove [tree_simps]:
  "d_elements (snd (d_remove_all name d)) = filter (\<lambda>e. el_name e \<noteq> name) (d_elements d)"
  by (simp add: d_elements_def d_remove_all_def elements_of_filter_not_named)

lemma d_removed [tree_simps]: "fst (d_remove_all name d) = d_find_all name d"
  by (simp add: d_find_all_def d_elements_def d_remove_all_def elements_of_filter_named)

lemma d_find_all_remove: "d_find_all name (snd (d_remove_all name d)) = []"
  by (simp add: d_find_all_def tree_simps)

lemma d_find_all_remove_other: "n \<noteq> name \<Longrightarrow> d_find_all n (snd (d_remove_all name d)) = d_find_all n d"
  by (simp add: d_find_all_def tree_simps) (metis (mono_tags, lifting) filter_cong)

lemma d_find_hd: "d_find name d = (case d_find_all name d of [] \<Rightarrow> None | e # _ \<Rightarrow> Some e)"
  by (simp add: d_find_def d_find_all_def find_filter_hd)

lemma d_find_name: "d_find name d = Some e \<Longrightarrow> el_name e = name"
  by (auto simp: d_find_def find_Some_iff)

lemma d_find_push: "d_find n (d_push e d) =
    (case d_find n d of None \<Rightarrow> if el_name e = n then Some e else None | Some x \<Rightarrow> Some x)"
  by (simp add: d_find_def tree_simps find_append split: option.split)

lemma d_find_all_push: "d_find_all n (d_push e d) = d_find_all n d @ (if el_name e = n then [e] else [])"
  by (simp add: d_find_all_def tree_simps)

lemma d_find_update_same:
  "(\<And>e. el_name e = name \<Longrightarrow> el_name (f e) = name) \<Longrightarrow>
   d_find name (d_update name f d) = map_option f (d_find name d)"
  by (simp add: d_find_def tree_simps find_update_first)

lemma d_find_all_update_other:
  "n \<noteq> name \<Longrightarrow> (\<And>e. el_name e = name \<Longrightarrow> el_name (f e) = name) \<Longrightarrow>
   d_find_all n (d_update name f d) = d_find_all n d"
  unfolding d_find_all_def d_elements_update by (rule filter_update_first_other) auto

lemma d_count_find_all: "d_count name d = length (d_find_all name d)"
  by (simp add: d_count_def d_find_all_def)

lemma length_filter_update_first:
  "(\<And>x. P x \<Longrightarrow> P (f x)) \<Longrightarrow> length (filter P (update_first P f xs)) = length (filter P xs)"
  by (induction xs) auto

lemma update_first_twice:
  "(\<And>x. P x \<Longrightarrow> P (g x)) \<Longrightarrow> update_first P f (update_first P g xs) = update_first P (f \<circ> g) xs"
  by (induction xs) auto

lemma update_first_append_none:
  "\<forall>x\<in>set xs. \<not> P x \<Longrightarrow> update_first P f (xs @ ys) = xs @ update_first P f ys"
  by (induction xs) auto

lemma named_elements: "(\<exists>n\<in>set ns. named name n) \<longleftrightarrow> (\<exists>e\<in>set (elements_of ns). el_name e = name)"
  by (induction ns rule: elements_of.induct) auto

lemma d_find_None_named: "d_find name d = None \<longleftrightarrow> (\<forall>n\<in>set (nodes d). \<not> named name n)"
  using named_elements [of "nodes d" name] by (auto simp: d_find_def d_elements_def find_None_iff)

section \<open>Typed views\<close>

locale typed_detail =
  fixes name :: ustr
    and from_element :: "element \<Rightarrow> 'a option"
    and to_element :: "'a \<Rightarrow> element"
    and ok :: "'a \<Rightarrow> bool"
  assumes to_name: "el_name (to_element v) = name"
    and from_to: "ok v \<Longrightarrow> from_element (to_element v) = Some v"
begin

text \<open>A view read after it was written is the value that was written.\<close>

lemma get_set: "ok v \<Longrightarrow> d_get name from_element (d_set name to_element v d) = Some v"
proof (cases "d_find name d = None")
  case True
  assume "ok v"
  with True show ?thesis by (simp add: d_get_def d_set_def d_find_push to_name from_to)
next
  case False
  assume "ok v"
  with False show ?thesis
    by (auto simp: d_get_def d_set_def d_find_update_same to_name from_to)
qed

text \<open>Writing a view touches no element of another name, and leaves one of its own if there was at most one.\<close>

lemma set_others: "n \<noteq> name \<Longrightarrow> d_find_all n (d_set name to_element v d) = d_find_all n d"
  by (simp add: d_set_def Let_def d_find_all_push d_find_all_update_other to_name)

lemma set_count: "d_count name (d_set name to_element v d) = max 1 (d_count name d)"
proof (cases "d_find name d = None")
  case True
  then have "d_find_all name d = []" by (simp add: d_find_hd split: list.splits)
  with True show ?thesis by (simp add: d_set_def d_count_find_all d_find_all_push to_name)
next
  case False
  then have "d_find_all name d \<noteq> []" by (auto simp: d_find_hd)
  then have "1 \<le> d_count name d" by (cases "d_find_all name d") (simp_all add: d_count_find_all)
  moreover have "d_count name (d_set name to_element v d) = d_count name d"
    using False by (simp add: d_set_def d_count_def tree_simps length_filter_update_first to_name)
  ultimately show ?thesis by simp
qed

lemma set_set: "d_set name to_element v (d_set name to_element w d) = d_set name to_element v d"
proof (cases "d_find name d = None")
  case True
  then have "\<forall>n\<in>set (nodes d). \<not> named name n" by (simp add: d_find_None_named)
  then have "d_update name (\<lambda>_. to_element v) (d_push (to_element w) d) = d_push (to_element v) d"
    by (simp add: d_update_def d_push_def update_first_append_none to_name)
  with True show ?thesis
    by (simp add: d_set_def Let_def d_find_push to_name)
next
  case False
  have "named name (map_elem (\<lambda>_. to_element w) n)" if "named name n" for n
    using that by (cases n) (simp_all add: to_name)
  moreover have "map_elem (\<lambda>_. to_element v) \<circ> map_elem (\<lambda>_. to_element w) = map_elem (\<lambda>_. to_element v)"
  proof
    fix n show "(map_elem (\<lambda>_. to_element v) \<circ> map_elem (\<lambda>_. to_element w)) n = map_elem (\<lambda>_. to_element v) n"
      by (cases n) simp_all
  qed
  ultimately have "d_update name (\<lambda>_. to_element v) (d_update name (\<lambda>_. to_element w) d) =
      d_update name (\<lambda>_. to_element v) d"
    by (simp add: d_update_def update_first_twice)
  with False show ?thesis by (auto simp: d_set_def Let_def d_find_update_same to_name)
qed

end

text \<open>A strict view accepts only elements the ordinary view reads, and reads them the same way.\<close>

locale strict_detail = typed_detail +
  fixes strict :: "element \<Rightarrow> 'a option"
  assumes strict_from: "strict e = Some v \<Longrightarrow> from_element e = Some v"
    and strict_leaf: "strict e = Some v \<Longrightarrow> el_children e = []"
begin

lemma strict_get: "d_find name d = Some e \<Longrightarrow> strict e = Some v \<Longrightarrow> d_get name from_element d = Some v"
  by (simp add: d_get_def strict_from)

end

text \<open>
  A lossless one, in addition, gives back every attribute of the element it accepted, as long as
  no attribute name repeats: dropping the element and keeping the value loses nothing.
\<close>

locale lossless_detail = strict_detail +
  assumes strict_reproduces: "strict e = Some v \<Longrightarrow> distinct (map fst (el_attrs e)) \<Longrightarrow> el_name e = name \<Longrightarrow>
    el_get k (to_element v) = el_get k e"

end
