(* ===== verification/Cot_Types.thy ===== *)
theory Cot_Types
  imports Prelude
begin

text \<open>
  CoT vocabulary (\<open>rustak-cot/src/types.rs\<close>) and timestamps (\<open>rustak-cot/src/time.rs\<close>).  A
  timestamp is its millisecond count; \<open>chrono\<close>'s parsers and formatter are a parameter, with the
  documented round trip as \<open>clock_ok\<close>.
\<close>

section \<open>Event types\<close>

definition PING :: ustr where "PING = lit ''t-x-c-t''"
definition PONG :: ustr where "PONG = lit ''t-x-c-t-r''"
definition TAKP_V :: ustr where "TAKP_V = lit ''t-x-takp-v''"
definition TAKP_Q :: ustr where "TAKP_Q = lit ''t-x-takp-q''"
definition TAKP_R :: ustr where "TAKP_R = lit ''t-x-takp-r''"
definition DISCONNECT :: ustr where "DISCONNECT = lit ''t-x-d-d''"
definition GROUP_CHANGE :: ustr where "GROUP_CHANGE = lit ''t-x-g-c''"
definition SUBSCRIBE :: ustr where "SUBSCRIBE = lit ''t-b''"
definition FILTER :: ustr where "FILTER = lit ''t-x-c-f''"
definition METRICS :: ustr where "METRICS = lit ''t-x-c-m''"
definition INCOGNITO_ON :: ustr where "INCOGNITO_ON = lit ''t-x-c-i-e''"
definition INCOGNITO_OFF :: ustr where "INCOGNITO_OFF = lit ''t-x-c-i-d''"
definition FILESHARE_TYPE :: ustr where "FILESHARE_TYPE = lit ''b-f-t-r''"
definition CHAT :: ustr where "CHAT = lit ''b-t-f''"
definition CHAT_FAILED :: ustr where "CHAT_FAILED = lit ''b-t-f-s''"

definition HOW_M_G :: ustr where "HOW_M_G = lit ''m-g''"
definition HOW_H_E :: ustr where "HOW_H_E = lit ''h-e''"
definition HOW_H_G_I_G_O :: ustr where "HOW_H_G_I_G_O = lit ''h-g-i-g-o''"

definition CONTROL_TYPES :: "ustr list" where
  "CONTROL_TYPES =
     [lit ''t-b'', lit ''t-b-a'', lit ''t-b-c'', lit ''t-b-q'', FILTER, PING, PONG, TAKP_Q, METRICS,
      INCOGNITO_ON, INCOGNITO_OFF]"

definition is_control_type :: "ustr \<Rightarrow> bool" where
  "is_control_type t \<longleftrightarrow> list_ex (\<lambda>known. eq_ignore_ascii_case known t) CONTROL_TYPES"

definition is_atom :: "ustr \<Rightarrow> bool" where
  "is_atom t \<longleftrightarrow> t = lit ''a'' \<or> starts_with t (lit ''a-'')"

definition is_chat :: "ustr \<Rightarrow> bool" where
  "is_chat t \<longleftrightarrow> starts_with t CHAT"

definition is_mission_notice :: "ustr \<Rightarrow> bool" where
  "is_mission_notice t \<longleftrightarrow> starts_with t (lit ''t-x-m-'')"

lemmas cot_type_defs = PING_def PONG_def TAKP_V_def TAKP_Q_def TAKP_R_def DISCONNECT_def GROUP_CHANGE_def
  FILTER_def METRICS_def INCOGNITO_ON_def INCOGNITO_OFF_def FILESHARE_TYPE_def CHAT_def CHAT_FAILED_def

text \<open>The control set is matched without regard to ASCII case, and is disjoint from what is relayed as
  chat, map objects or mission notices.\<close>

lemma ascii_lower_idem [simp]: "ascii_lower (ascii_lower c) = ascii_lower c"
  by (simp add: ascii_lower_def)

lemma is_control_type_lower [simp]: "is_control_type (map ascii_lower t) = is_control_type t"
  by (simp add: is_control_type_def eq_ignore_ascii_case_def comp_def)

lemma is_control_type_PING [simp]: "is_control_type PING" "is_control_type TAKP_Q"
  "is_control_type INCOGNITO_ON" "is_control_type INCOGNITO_OFF" "is_control_type PONG"
  by (simp_all add: is_control_type_def CONTROL_TYPES_def)

lemma control_not_chat: "is_control_type t \<Longrightarrow> \<not> is_chat t"
proof
  assume "is_control_type t" "is_chat t"
  then obtain k rest where "k \<in> set CONTROL_TYPES" "map ascii_lower k = map ascii_lower t" "t = CHAT @ rest"
    by (auto simp: is_control_type_def list_ex_iff eq_ignore_ascii_case_def is_chat_def starts_with_iff)
  then have "hd (map ascii_lower k) = ascii_lower (of_char (CHR ''b''))" "k \<in> set CONTROL_TYPES"
    by (simp_all add: CHAT_def lit_def)
  then show False
    by (auto simp: CONTROL_TYPES_def cot_type_defs lit_def ascii_lower_def)
qed

section \<open>Time\<close>

type_synonym cot_time = int

record clock_lib =
  rfc3339 :: "ustr \<Rightarrow> cot_time option"
  naive_utc :: "ustr \<Rightarrow> cot_time option"
  calendar :: "cot_time \<Rightarrow> ustr option"

text \<open>
  \<open>rfc3339\<close> and \<open>naive_utc\<close> read an instant as whole milliseconds (later digits truncated);
  \<open>calendar\<close> is \<open>to_rfc3339_opts(Millis, true)\<close>, undefined outside chrono's range, which goes far beyond
  the years 0 to 9999 of RFC 3339: chrono prints any other year with a sign, and does not read that
  back.  So only the text of an instant of a four-digit year is relied on.
\<close>

definition four_digit_year :: "cot_time \<Rightarrow> bool" where
  "four_digit_year t \<longleftrightarrow> -62167219200000 \<le> t \<and> t \<le> 253402300799999"

declare four_digit_year_def [simp]

definition clock_ok :: "clock_lib \<Rightarrow> bool" where
  "clock_ok K \<longleftrightarrow> (\<forall>t s. four_digit_year t \<and> calendar K t = Some s \<longrightarrow> rfc3339 K s = Some t \<and> trim s = s)"

text \<open>A clock library that reads and prints nothing keeps the promise; witnesses use it.\<close>

definition no_clock :: clock_lib where
  "no_clock = \<lparr>rfc3339 = (\<lambda>_. None), naive_utc = (\<lambda>_. None), calendar = (\<lambda>_. None)\<rparr>"

lemma clock_ok_none: "clock_ok no_clock"
  by (simp add: clock_ok_def no_clock_def)

definition time_parse :: "clock_lib \<Rightarrow> ustr \<Rightarrow> ustr + cot_time" where
  "time_parse K value =
     (let text = trim value
      in case rfc3339 K text of
           Some t \<Rightarrow> Inr t
         | None \<Rightarrow> (case naive_utc K text of Some t \<Rightarrow> Inr t | None \<Rightarrow> Inl value))"

definition dec_of_int :: "int \<Rightarrow> ustr" where
  "dec_of_int i = (if i < 0 then 45 # dec_of_nat (nat (- i)) else dec_of_nat (nat i))"

definition time_string :: "clock_lib \<Rightarrow> cot_time \<Rightarrow> ustr" where
  "time_string K t = (case calendar K t of Some s \<Rightarrow> s | None \<Rightarrow> dec_of_int t)"

text \<open>A \<open>Duration\<close> is its whole milliseconds.\<close>

definition millis_of :: "nat \<Rightarrow> int" where
  "millis_of ms = (if int ms \<le> i64_max then int ms else i64_max)"

definition stale_after :: "nat \<Rightarrow> cot_time \<Rightarrow> cot_time" where
  "stale_after ms t = sat_i64 (t + millis_of ms)"

definition time_sub :: "cot_time \<Rightarrow> cot_time \<Rightarrow> int" where
  "time_sub a b = sat_i64 (a - b)"

lemma time_parse_string:
  assumes "clock_ok K" and "four_digit_year t" and "calendar K t = Some s"
  shows "time_parse K (time_string K t) = Inr t"
proof -
  have "rfc3339 K s = Some t" "trim s = s" using assms unfolding clock_ok_def by blast+
  then show ?thesis by (simp add: time_parse_def time_string_def Let_def assms(3))
qed

lemma stale_after_i64 [simp]: "is_i64 (stale_after ms t)"
  by (simp add: stale_after_def)

lemma stale_after_ge: "is_i64 t \<Longrightarrow> t \<le> stale_after ms t"
  using sat_i64_mono [of t "t + millis_of ms"]
  by (simp add: stale_after_def millis_of_def i64_max_def)

lemma stale_after_mono: "t \<le> u \<Longrightarrow> stale_after ms t \<le> stale_after ms u"
  by (simp add: stale_after_def sat_i64_mono)

end
