(* ===== verification/Cot_Event.thy ===== *)
theory Cot_Event
  imports Detail_Tree Cot_Types
begin

text \<open>
  The CoT event and its builder (\<open>rustak-cot/src/event.rs\<close>).  A coordinate is an \<open>f64\<close>, kept as its
  64-bit pattern: the program reads, stores and prints coordinates but never computes with them.
\<close>

type_synonym f64 = "64 word"

definition VERSION :: ustr where
  "VERSION = lit ''2.0''"

record point =
  lat :: f64
  lon :: f64
  hae :: f64
  ce :: f64
  le :: f64

text \<open>The pattern of \<open>9_999_999.0\<close>.\<close>

definition UNKNOWN :: f64 where
  "UNKNOWN = 0x416312CFE0000000"

definition point_new :: "f64 \<Rightarrow> f64 \<Rightarrow> point" where
  "point_new la lo = \<lparr>lat = la, lon = lo, hae = UNKNOWN, ce = UNKNOWN, le = UNKNOWN\<rparr>"

definition point_zero :: point where
  "point_zero = \<lparr>lat = 0, lon = 0, hae = 0, ce = UNKNOWN, le = UNKNOWN\<rparr>"

record event =
  ev_version :: ustr
  ev_uid :: ustr
  ev_type :: ustr
  ev_how :: "ustr option"
  ev_time :: cot_time
  ev_start :: cot_time
  ev_stale :: cot_time
  ev_access :: "ustr option"
  ev_qos :: "ustr option"
  ev_opex :: "ustr option"
  ev_caveat :: "ustr option"
  ev_releasable_to :: "ustr option"
  ev_extra_attrs :: attrs
  ev_point :: point
  ev_detail :: detail
  ev_proto_ext :: "(nat \<times> bytes) list"

text \<open>The wall clock of \<open>Event::default\<close> is an argument.\<close>

definition event_default :: "cot_time \<Rightarrow> event" where
  "event_default now =
     \<lparr>ev_version = VERSION, ev_uid = [], ev_type = [], ev_how = None, ev_time = now, ev_start = now,
      ev_stale = now, ev_access = None, ev_qos = None, ev_opex = None, ev_caveat = None,
      ev_releasable_to = None, ev_extra_attrs = [], ev_point = point_zero, ev_detail = detail_new,
      ev_proto_ext = []\<rparr>"

definition CONTACT :: ustr where
  "CONTACT = lit ''contact''"

definition contact_attr :: "ustr \<Rightarrow> event \<Rightarrow> ustr option" where
  "contact_attr name e =
     (case Option.bind (d_find CONTACT (ev_detail e)) (el_get name) of
        Some v \<Rightarrow> if v = [] then None else Some v
      | None \<Rightarrow> None)"

definition ev_callsign :: "event \<Rightarrow> ustr option" where
  "ev_callsign e = contact_attr (lit ''callsign'') e"

definition ev_endpoint :: "event \<Rightarrow> ustr option" where
  "ev_endpoint e = contact_attr (lit ''endpoint'') e"

definition is_sa :: "event \<Rightarrow> bool" where
  "is_sa e \<longleftrightarrow> ev_uid e \<noteq> [] \<and> ev_callsign e \<noteq> None \<and> ev_endpoint e \<noteq> None"

definition ev_is_control :: "event \<Rightarrow> bool" where
  "ev_is_control e \<longleftrightarrow> is_control_type (ev_type e)"

definition is_stale_at :: "cot_time \<Rightarrow> event \<Rightarrow> bool" where
  "is_stale_at now e \<longleftrightarrow> ev_stale e \<le> now"

text \<open>The builder holds the event it builds.\<close>

definition event_builder :: "cot_time \<Rightarrow> ustr \<Rightarrow> ustr \<Rightarrow> event" where
  "event_builder now ty uid = (event_default now)\<lparr>ev_type := ty, ev_uid := uid\<rparr>"

definition b_how :: "ustr \<Rightarrow> event \<Rightarrow> event" where
  "b_how h e = e\<lparr>ev_how := Some h\<rparr>"

definition b_point :: "f64 \<Rightarrow> f64 \<Rightarrow> event \<Rightarrow> event" where
  "b_point la lo e = e\<lparr>ev_point := point_new la lo\<rparr>"

definition b_point_full :: "point \<Rightarrow> event \<Rightarrow> event" where
  "b_point_full p e = e\<lparr>ev_point := p\<rparr>"

definition b_time :: "cot_time \<Rightarrow> event \<Rightarrow> event" where
  "b_time t e =
     (let validity = time_sub (ev_stale e) (ev_time e)
      in e\<lparr>ev_time := t, ev_start := t, ev_stale := sat_i64 (t + validity)\<rparr>)"

definition b_start :: "cot_time \<Rightarrow> event \<Rightarrow> event" where
  "b_start t e = e\<lparr>ev_start := t\<rparr>"

definition b_stale :: "cot_time \<Rightarrow> event \<Rightarrow> event" where
  "b_stale t e = e\<lparr>ev_stale := t\<rparr>"

definition b_stale_after :: "nat \<Rightarrow> event \<Rightarrow> event" where
  "b_stale_after ms e = e\<lparr>ev_stale := stale_after ms (ev_start e)\<rparr>"

definition b_access :: "ustr \<Rightarrow> event \<Rightarrow> event" where
  "b_access v e = e\<lparr>ev_access := Some v\<rparr>"

definition b_qos :: "ustr \<Rightarrow> event \<Rightarrow> event" where
  "b_qos v e = e\<lparr>ev_qos := Some v\<rparr>"

definition b_opex :: "ustr \<Rightarrow> event \<Rightarrow> event" where
  "b_opex v e = e\<lparr>ev_opex := Some v\<rparr>"

definition b_caveat :: "ustr \<Rightarrow> event \<Rightarrow> event" where
  "b_caveat v e = e\<lparr>ev_caveat := Some v\<rparr>"

definition b_releasable_to :: "ustr \<Rightarrow> event \<Rightarrow> event" where
  "b_releasable_to v e = e\<lparr>ev_releasable_to := Some v\<rparr>"

definition b_detail :: "detail \<Rightarrow> event \<Rightarrow> event" where
  "b_detail d e = e\<lparr>ev_detail := d\<rparr>"

definition b_push :: "element \<Rightarrow> event \<Rightarrow> event" where
  "b_push el e = e\<lparr>ev_detail := d_push el (ev_detail e)\<rparr>"

definition b_typed :: "('a \<Rightarrow> element) \<Rightarrow> 'a \<Rightarrow> event \<Rightarrow> event" where
  "b_typed to_element v e = b_push (to_element v) e"

lemmas builder_defs = b_how_def b_point_def b_point_full_def b_time_def b_start_def b_stale_def
  b_stale_after_def b_access_def b_qos_def b_opex_def b_caveat_def b_releasable_to_def b_detail_def
  b_push_def b_typed_def

lemma detail_new_find [simp]: "d_find n detail_new = None" "d_find_all n detail_new = []"
  by (simp_all add: detail_new_def d_find_def d_find_all_def d_elements_def)

text \<open>Setting the time keeps how long the event is valid.\<close>

lemma b_time_validity:
  "is_i64 (ev_stale e - ev_time e) \<Longrightarrow> is_i64 (t + (ev_stale e - ev_time e)) \<Longrightarrow>
   ev_stale (b_time t e) - ev_time (b_time t e) = ev_stale e - ev_time e"
  by (simp add: b_time_def time_sub_def Let_def)

section \<open>Numbers as text\<close>

text \<open>
  The standard library's shortest round-trip printer and its parser are a parameter; \<open>f64_ok\<close> is
  what its documentation promises for finite values.  \<open>format_f64\<close> is the printer of
  \<open>rustak-cot/src/xml/write.rs\<close>.
\<close>

record f64_lib =
  show_f64 :: "f64 \<Rightarrow> ustr"
  parse_f64 :: "ustr \<Rightarrow> f64 option"

definition is_finite :: "f64 \<Rightarrow> bool" where
  "is_finite v \<longleftrightarrow> v AND 0x7FF0000000000000 \<noteq> 0x7FF0000000000000"

definition f64_ok :: "f64_lib \<Rightarrow> bool" where
  "f64_ok F \<longleftrightarrow> (\<forall>v. is_finite v \<longrightarrow> parse_f64 F (show_f64 F v) = Some v)"

definition format_f64 :: "f64_lib \<Rightarrow> f64 \<Rightarrow> ustr" where
  "format_f64 F v = (if is_finite v then show_f64 F v else lit ''0.0'')"

lemma parse_format [simp]: "f64_ok F \<Longrightarrow> is_finite v \<Longrightarrow> parse_f64 F (format_f64 F v) = Some v"
  by (simp add: f64_ok_def format_f64_def)

end
