(* ===== verification/Typed_Details.thy ===== *)
theory Typed_Details
  imports Cot_Event
begin

text \<open>
  The typed views over the detail tree (\<open>rustak-cot/src/detail/{contact,group,takv,track,status,
  precision,link,chat,fileshare}.rs\<close>): each is a record, its lenient reader, its writer and, where
  the protobuf encoding carries it, its strict reader; each is an interpretation of the views'
  contract.
\<close>

abbreviation get_or_empty :: "ustr \<Rightarrow> element \<Rightarrow> ustr" where
  "get_or_empty k e \<equiv> (case el_get k e of Some v \<Rightarrow> v | None \<Rightarrow> [])"

abbreviation is_true :: "ustr \<Rightarrow> bool" where
  "is_true v \<equiv> eq_ignore_ascii_case v (lit ''true'')"

text \<open>The facts that compute a chain of setters and read it back.\<close>

lemma chain_extras':
  "extras_ok known ex \<Longrightarrow> list_all (\<lambda>(k, v). k \<in> set known) kvs \<Longrightarrow>
   apply_extras ex (built name kvs) = Element name (present kvs @ ex) []"
  by (rule chain_extras) (auto simp: list_all_iff)

lemma extra_chain':
  "extras_ok known ex \<Longrightarrow> list_all (\<lambda>(k, v). k \<in> set known) kvs \<Longrightarrow>
   extra_attrs known (Element name (present kvs @ ex) cs) = ex"
  by (rule extra_chain) (auto simp: list_all_iff)

lemmas chain_simps = chain_new chain_attr chain_attr_opt

text \<open>What the strict readers' shape test establishes.\<close>

lemma has_exactly_keys:
  "has_exactly known e \<Longrightarrow> distinct known \<Longrightarrow> distinct (map fst (el_attrs e)) \<Longrightarrow>
   fst ` set (el_attrs e) = set known"
proof -
  assume a: "has_exactly known e" "distinct known" "distinct (map fst (el_attrs e))"
  then have "fst ` set (el_attrs e) \<subseteq> set known" by (auto simp: has_exactly_def list_all_iff)
  moreover have "card (fst ` set (el_attrs e)) = card (set known)"
    using a distinct_card [OF a(2)] distinct_card [OF a(3)] by (simp add: has_exactly_def)
  ultimately show ?thesis by (simp add: card_subset_eq)
qed

lemma has_exactly_get:
  "has_exactly known e \<Longrightarrow> distinct known \<Longrightarrow> distinct (map fst (el_attrs e)) \<Longrightarrow>
   el_get k e \<noteq> None \<longleftrightarrow> k \<in> set known"
  using has_exactly_keys [of known e] by (auto simp: el_get_def map_of_eq_None_iff)

lemma has_exactly_extra: "has_exactly known e \<Longrightarrow> set known \<subseteq> set all \<Longrightarrow> extra_attrs all e = []"
  by (auto simp: has_exactly_def extra_attrs_def list_all_iff filter_empty_conv)

lemma shape_get:
  "has_exactly known e \<Longrightarrow> distinct known \<Longrightarrow> distinct (map fst (el_attrs e)) \<Longrightarrow> k \<in> set known \<Longrightarrow>
   Some (get_or_empty k e) = el_get k e"
  using has_exactly_get [of known e k] by auto

lemma shape_reproduced:
  assumes "has_exactly known e" and "distinct known" and "distinct (map fst (el_attrs e))"
    and "map fst kvs = known" and "list_all (\<lambda>(k, v). v = el_get k e) kvs"
  shows "el_get k (Element name (present kvs) cs) = el_get k e"
proof -
  have m: "el_get k (Element name (present kvs) cs) = Option.bind (map_of kvs k) id"
    using assms(2,4) by (simp add: el_get_def map_of_present)
  show ?thesis
  proof (cases "k \<in> set known")
    case True
    then obtain v where "map_of kvs k = Some v"
      using assms(4) by (metis map_of_eq_None_iff not_None_eq set_map)
    moreover from this have "v = el_get k e"
      using assms(5) by (auto simp: list_all_iff dest: map_of_SomeD)
    ultimately show ?thesis using m by simp
  next
    case False
    then have "map_of kvs k = None" using assms(4) by (metis map_of_eq_None_iff set_map)
    then show ?thesis using m False has_exactly_get [OF assms(1-3), of k] by simp
  qed
qed

section \<open>Contact\<close>

record contact =
  ct_callsign :: ustr
  ct_endpoint :: "ustr option"
  ct_extra :: attrs

definition contact_known :: "ustr list" where
  "contact_known = [lit ''callsign'', lit ''endpoint'']"

definition contact_new :: "ustr \<Rightarrow> contact" where
  "contact_new cs = \<lparr>ct_callsign = cs, ct_endpoint = None, ct_extra = []\<rparr>"

definition with_endpoint :: "ustr \<Rightarrow> contact \<Rightarrow> contact" where
  "with_endpoint ep c = c\<lparr>ct_endpoint := Some ep\<rparr>"

definition contact_from :: "element \<Rightarrow> contact option" where
  "contact_from e = Some
     \<lparr>ct_callsign = get_or_empty (lit ''callsign'') e, ct_endpoint = el_get (lit ''endpoint'') e,
      ct_extra = extra_attrs contact_known e\<rparr>"

definition contact_to :: "contact \<Rightarrow> element" where
  "contact_to c =
     apply_extras (ct_extra c)
       (el_attr_opt (lit ''endpoint'') (ct_endpoint c)
         (el_attr (lit ''callsign'') (ct_callsign c) (el_new CONTACT)))"

definition contact_strict :: "element \<Rightarrow> contact option" where
  "contact_strict e =
     (let matches_shape = has_exactly [lit ''callsign''] e \<or> has_exactly contact_known e
      in if \<not> matches_shape \<or> el_children e \<noteq> [] then None else contact_from e)"

definition contact_ok :: "contact \<Rightarrow> bool" where
  "contact_ok c \<longleftrightarrow> extras_ok contact_known (ct_extra c)"

lemma contact_to_eq:
  "contact_ok c \<Longrightarrow> contact_to c = Element CONTACT
     (present [(lit ''callsign'', Some (ct_callsign c)), (lit ''endpoint'', ct_endpoint c)] @ ct_extra c) []"
  by (simp add: contact_to_def contact_ok_def chain_simps chain_extras' contact_known_def
      del: present_Some present_None present_Nil)

interpretation contact: typed_detail CONTACT contact_from contact_to contact_ok
proof
  show "el_name (contact_to c) = CONTACT" for c by (simp add: contact_to_def)
next
  fix c assume "contact_ok c"
  then show "contact_from (contact_to c) = Some c"
    by (simp add: contact_from_def contact_to_eq get_chain [where known = contact_known]
        extra_chain' contact_ok_def contact_known_def del: present_Some present_None present_Nil)
qed

lemma contact_strict_cases:
  "contact_strict e = Some c \<longleftrightarrow>
     (has_exactly [lit ''callsign''] e \<or> has_exactly contact_known e) \<and> el_children e = [] \<and>
     contact_from e = Some c"
  by (auto simp: contact_strict_def Let_def)

interpretation contact: lossless_detail CONTACT contact_from contact_to contact_ok contact_strict
proof
  fix e c k
  assume s: "contact_strict e = Some c" and d: "distinct (map fst (el_attrs e))"
  then obtain expected where x: "has_exactly expected e" "distinct expected"
    "expected = [lit ''callsign''] \<or> expected = contact_known"
    and c: "c = \<lparr>ct_callsign = get_or_empty (lit ''callsign'') e, ct_endpoint = el_get (lit ''endpoint'') e,
      ct_extra = extra_attrs contact_known e\<rparr>"
    by (fastforce simp: contact_strict_cases contact_from_def contact_known_def)
  have none: "extra_attrs contact_known e = []"
    using x by (intro has_exactly_extra [of expected]) (auto simp: contact_known_def)
  show "el_get k (contact_to c) = el_get k e"
    using has_exactly_get [OF x(1,2) d, of k] has_exactly_get [OF x(1,2) d, of "lit ''callsign''"] x(3)
      contact_to_eq [of c] none
    by (auto simp: c contact_ok_def el_get_def contact_known_def present_def split: option.splits if_splits)
qed (auto simp: contact_strict_cases)

section \<open>Group\<close>

record tak_group =
  tg_name :: ustr
  tg_role :: ustr
  tg_extra :: attrs

definition GROUP :: ustr where
  "GROUP = lit ''__group''"

definition tak_group_known :: "ustr list" where
  "tak_group_known = [lit ''name'', lit ''role'']"

definition tak_group_new :: "ustr \<Rightarrow> ustr \<Rightarrow> tak_group" where
  "tak_group_new n r = \<lparr>tg_name = n, tg_role = r, tg_extra = []\<rparr>"

definition tak_group_from :: "element \<Rightarrow> tak_group option" where
  "tak_group_from e = Some
     \<lparr>tg_name = get_or_empty (lit ''name'') e,
      tg_role = get_or_empty (lit ''role'') e,
      tg_extra = extra_attrs tak_group_known e\<rparr>"

definition tak_group_to :: "tak_group \<Rightarrow> element" where
  "tak_group_to v =
     apply_extras (tg_extra v)
       (el_attr (lit ''role'') (tg_role v) (el_attr (lit ''name'') (tg_name v) (el_new GROUP)))"

definition tak_group_strict :: "element \<Rightarrow> tak_group option" where
  "tak_group_strict e =
     (if \<not> has_exactly tak_group_known e \<or> el_children e \<noteq> [] then None else tak_group_from e)"

definition tak_group_ok :: "tak_group \<Rightarrow> bool" where
  "tak_group_ok v \<longleftrightarrow> extras_ok tak_group_known (tg_extra v)"

lemma tak_group_to_eq:
  "tak_group_ok v \<Longrightarrow> tak_group_to v = Element GROUP
     (present [(lit ''name'', Some (tg_name v)), (lit ''role'', Some (tg_role v))] @ tg_extra v) []"
  by (simp add: tak_group_to_def tak_group_ok_def chain_simps chain_extras' tak_group_known_def
      del: present_Some present_None present_Nil)

interpretation tak_group: lossless_detail GROUP tak_group_from tak_group_to tak_group_ok tak_group_strict
proof
  show "el_name (tak_group_to v) = GROUP" for v by (simp add: tak_group_to_def)
next
  fix v assume "tak_group_ok v"
  then show "tak_group_from (tak_group_to v) = Some v"
    by (simp add: tak_group_from_def tak_group_to_eq get_chain [where known = tak_group_known]
        extra_chain' tak_group_ok_def tak_group_known_def del: present_Some present_None present_Nil)
next
  fix e v k
  assume s: "tak_group_strict e = Some v" and d: "distinct (map fst (el_attrs e))"
  from s have x: "has_exactly tak_group_known e" "tak_group_from e = Some v"
    by (auto simp: tak_group_strict_def split: if_splits)
  have ds: "distinct tak_group_known" by (simp add: tak_group_known_def)
  have none: "tg_extra v = []"
    using x has_exactly_extra [OF x(1) subset_refl] by (auto simp: tak_group_from_def)
  show "el_get k (tak_group_to v) = el_get k e"
    unfolding tak_group_to_eq [of v, unfolded tak_group_ok_def none, OF extras_ok_Nil] none append_Nil2
    using x(2)
    by (intro shape_reproduced [OF x(1) ds d])
       (auto simp: tak_group_from_def shape_get [OF x(1) ds d] tak_group_known_def)
qed (auto simp: tak_group_strict_def split: if_splits)

section \<open>Takv\<close>

record takv =
  tv_device :: ustr
  tv_platform :: ustr
  tv_os :: ustr
  tv_version :: ustr
  tv_extra :: attrs

definition TAKV :: ustr where
  "TAKV = lit ''takv''"

definition takv_known :: "ustr list" where
  "takv_known = [lit ''device'', lit ''platform'', lit ''os'', lit ''version'']"

definition takv_summary :: "takv \<Rightarrow> ustr" where
  "takv_summary v = tv_platform v @ lit '':'' @ tv_version v"

definition takv_from :: "element \<Rightarrow> takv option" where
  "takv_from e = Some
     \<lparr>tv_device = get_or_empty (lit ''device'') e,
      tv_platform = get_or_empty (lit ''platform'') e,
      tv_os = get_or_empty (lit ''os'') e,
      tv_version = get_or_empty (lit ''version'') e,
      tv_extra = extra_attrs takv_known e\<rparr>"

definition takv_to :: "takv \<Rightarrow> element" where
  "takv_to v =
     apply_extras (tv_extra v)
       (el_attr (lit ''version'') (tv_version v) (el_attr (lit ''os'') (tv_os v) (el_attr (lit ''platform'') (tv_platform v) (el_attr (lit ''device'') (tv_device v) (el_new TAKV)))))"

definition takv_strict :: "element \<Rightarrow> takv option" where
  "takv_strict e =
     (if \<not> has_exactly takv_known e \<or> el_children e \<noteq> [] then None else takv_from e)"

definition takv_ok :: "takv \<Rightarrow> bool" where
  "takv_ok v \<longleftrightarrow> extras_ok takv_known (tv_extra v)"

lemma takv_to_eq:
  "takv_ok v \<Longrightarrow> takv_to v = Element TAKV
     (present [(lit ''device'', Some (tv_device v)), (lit ''platform'', Some (tv_platform v)), (lit ''os'', Some (tv_os v)), (lit ''version'', Some (tv_version v))] @ tv_extra v) []"
  by (simp add: takv_to_def takv_ok_def chain_simps chain_extras' takv_known_def
      del: present_Some present_None present_Nil)

interpretation takv: lossless_detail TAKV takv_from takv_to takv_ok takv_strict
proof
  show "el_name (takv_to v) = TAKV" for v by (simp add: takv_to_def)
next
  fix v assume "takv_ok v"
  then show "takv_from (takv_to v) = Some v"
    by (simp add: takv_from_def takv_to_eq get_chain [where known = takv_known]
        extra_chain' takv_ok_def takv_known_def del: present_Some present_None present_Nil)
next
  fix e v k
  assume s: "takv_strict e = Some v" and d: "distinct (map fst (el_attrs e))"
  from s have x: "has_exactly takv_known e" "takv_from e = Some v"
    by (auto simp: takv_strict_def split: if_splits)
  have ds: "distinct takv_known" by (simp add: takv_known_def)
  have none: "tv_extra v = []"
    using x has_exactly_extra [OF x(1) subset_refl] by (auto simp: takv_from_def)
  show "el_get k (takv_to v) = el_get k e"
    unfolding takv_to_eq [of v, unfolded takv_ok_def none, OF extras_ok_Nil] none append_Nil2
    using x(2)
    by (intro shape_reproduced [OF x(1) ds d])
       (auto simp: takv_from_def shape_get [OF x(1) ds d] takv_known_def)
qed (auto simp: takv_strict_def split: if_splits)

section \<open>Precision location\<close>

record precision_location =
  pl_geopointsrc :: ustr
  pl_altsrc :: ustr
  pl_extra :: attrs

definition PRECISION :: ustr where
  "PRECISION = lit ''precisionlocation''"

definition precision_location_known :: "ustr list" where
  "precision_location_known = [lit ''geopointsrc'', lit ''altsrc'']"

definition precision_new :: "ustr \<Rightarrow> ustr \<Rightarrow> precision_location" where
  "precision_new g a = \<lparr>pl_geopointsrc = g, pl_altsrc = a, pl_extra = []\<rparr>"

definition precision_location_from :: "element \<Rightarrow> precision_location option" where
  "precision_location_from e = Some
     \<lparr>pl_geopointsrc = get_or_empty (lit ''geopointsrc'') e,
      pl_altsrc = get_or_empty (lit ''altsrc'') e,
      pl_extra = extra_attrs precision_location_known e\<rparr>"

definition precision_location_to :: "precision_location \<Rightarrow> element" where
  "precision_location_to v =
     apply_extras (pl_extra v)
       (el_attr (lit ''altsrc'') (pl_altsrc v) (el_attr (lit ''geopointsrc'') (pl_geopointsrc v) (el_new PRECISION)))"

definition precision_location_strict :: "element \<Rightarrow> precision_location option" where
  "precision_location_strict e =
     (if \<not> has_exactly precision_location_known e \<or> el_children e \<noteq> [] then None else precision_location_from e)"

definition precision_location_ok :: "precision_location \<Rightarrow> bool" where
  "precision_location_ok v \<longleftrightarrow> extras_ok precision_location_known (pl_extra v)"

lemma precision_location_to_eq:
  "precision_location_ok v \<Longrightarrow> precision_location_to v = Element PRECISION
     (present [(lit ''geopointsrc'', Some (pl_geopointsrc v)), (lit ''altsrc'', Some (pl_altsrc v))] @ pl_extra v) []"
  by (simp add: precision_location_to_def precision_location_ok_def chain_simps chain_extras' precision_location_known_def
      del: present_Some present_None present_Nil)

interpretation precision_location: lossless_detail PRECISION precision_location_from precision_location_to precision_location_ok precision_location_strict
proof
  show "el_name (precision_location_to v) = PRECISION" for v by (simp add: precision_location_to_def)
next
  fix v assume "precision_location_ok v"
  then show "precision_location_from (precision_location_to v) = Some v"
    by (simp add: precision_location_from_def precision_location_to_eq get_chain [where known = precision_location_known]
        extra_chain' precision_location_ok_def precision_location_known_def del: present_Some present_None present_Nil)
next
  fix e v k
  assume s: "precision_location_strict e = Some v" and d: "distinct (map fst (el_attrs e))"
  from s have x: "has_exactly precision_location_known e" "precision_location_from e = Some v"
    by (auto simp: precision_location_strict_def split: if_splits)
  have ds: "distinct precision_location_known" by (simp add: precision_location_known_def)
  have none: "pl_extra v = []"
    using x has_exactly_extra [OF x(1) subset_refl] by (auto simp: precision_location_from_def)
  show "el_get k (precision_location_to v) = el_get k e"
    unfolding precision_location_to_eq [of v, unfolded precision_location_ok_def none, OF extras_ok_Nil] none append_Nil2
    using x(2)
    by (intro shape_reproduced [OF x(1) ds d])
       (auto simp: precision_location_from_def shape_get [OF x(1) ds d] precision_location_known_def)
qed (auto simp: precision_location_strict_def split: if_splits)

end
