(* ===== verification/Typed_Messages.thy ===== *)
theory Typed_Messages
  imports Typed_Details
begin

text \<open>
  The typed views with numbers, flags and children (\<open>rustak-cot/src/detail/{track,status,link,chat,
  fileshare}.rs\<close>), each an interpretation of the views' contract.  Unsigned numbers are read with
  the bound of their width.
\<close>

abbreviation u16_max :: nat where "u16_max \<equiv> 65535"
abbreviation u32_max :: nat where "u32_max \<equiv> 4294967295"

abbreviation get_parsed :: "(ustr \<Rightarrow> 'a option) \<Rightarrow> ustr \<Rightarrow> element \<Rightarrow> 'a option" where
  "get_parsed parse k e \<equiv> Option.bind (el_get k e) parse"

abbreviation or_else :: "'a \<Rightarrow> 'a option \<Rightarrow> 'a" where
  "or_else d v \<equiv> (case v of Some x \<Rightarrow> x | None \<Rightarrow> d)"

abbreviation flag :: "ustr \<Rightarrow> element \<Rightarrow> bool" where
  "flag k e \<equiv> (case el_get k e of Some v \<Rightarrow> is_true v | None \<Rightarrow> False)"

section \<open>Track\<close>

record track =
  tr_speed :: f64
  tr_course :: f64
  tr_extra :: attrs

definition TRACK :: ustr where
  "TRACK = lit ''track''"

definition track_known :: "ustr list" where
  "track_known = [lit ''speed'', lit ''course'']"

definition track_new :: "f64 \<Rightarrow> f64 \<Rightarrow> track" where
  "track_new s c = \<lparr>tr_speed = s, tr_course = c, tr_extra = []\<rparr>"

definition track_from :: "f64_lib \<Rightarrow> element \<Rightarrow> track option" where
  "track_from F e = Some
     \<lparr>tr_speed = or_else 0 (get_parsed (parse_f64 F) (lit ''speed'') e),
      tr_course = or_else 0 (get_parsed (parse_f64 F) (lit ''course'') e),
      tr_extra = extra_attrs track_known e\<rparr>"

definition track_to :: "f64_lib \<Rightarrow> track \<Rightarrow> element" where
  "track_to F v =
     apply_extras (tr_extra v)
       (el_attr (lit ''course'') (format_f64 F (tr_course v))
         (el_attr (lit ''speed'') (format_f64 F (tr_speed v)) (el_new TRACK)))"

definition track_strict :: "f64_lib \<Rightarrow> element \<Rightarrow> track option" where
  "track_strict F e =
     (if \<not> has_exactly track_known e \<or> el_children e \<noteq> [] then None
      else Option.bind (get_parsed (parse_f64 F) (lit ''speed'') e) (\<lambda>s.
           Option.bind (get_parsed (parse_f64 F) (lit ''course'') e) (\<lambda>c.
           Some \<lparr>tr_speed = s, tr_course = c, tr_extra = []\<rparr>)))"

definition track_ok :: "f64_lib \<Rightarrow> track \<Rightarrow> bool" where
  "track_ok F v \<longleftrightarrow> f64_ok F \<and> is_finite (tr_speed v) \<and> is_finite (tr_course v) \<and>
     extras_ok track_known (tr_extra v)"

lemma track_to_eq:
  "extras_ok track_known (tr_extra v) \<Longrightarrow> track_to F v = Element TRACK
     (present [(lit ''speed'', Some (format_f64 F (tr_speed v))),
       (lit ''course'', Some (format_f64 F (tr_course v)))] @ tr_extra v) []"
  by (simp add: track_to_def chain_simps chain_extras' track_known_def
      del: present_Some present_None present_Nil)

interpretation track: strict_detail TRACK "track_from F" "track_to F" "track_ok F" "track_strict F" for F
proof
  show "el_name (track_to F v) = TRACK" for v by (simp add: track_to_def)
next
  fix v assume ok: "track_ok F v"
  then have "extras_ok track_known (tr_extra v)" by (simp add: track_ok_def)
  then show "track_from F (track_to F v) = Some v"
    using ok by (simp add: track_from_def track_to_eq get_chain [where known = track_known]
        extra_chain' track_ok_def track_known_def del: present_Some present_None present_Nil)
next
  fix e v assume s: "track_strict F e = Some v"
  then have "extra_attrs track_known e = []"
    by (intro has_exactly_extra [of track_known]) (auto simp: track_strict_def split: if_splits)
  with s show "track_from F e = Some v"
    by (auto simp: track_strict_def track_from_def bind_eq_Some_conv split: if_splits)
next
  show "track_strict F e = Some v \<Longrightarrow> el_children e = []" for e v
    by (simp add: track_strict_def split: if_splits)
qed

section \<open>Status\<close>

record status =
  st_battery :: nat
  st_extra :: attrs

definition STATUS :: ustr where
  "STATUS = lit ''status''"

definition status_known :: "ustr list" where
  "status_known = [lit ''battery'']"

definition status_new :: "nat \<Rightarrow> status" where
  "status_new b = \<lparr>st_battery = b, st_extra = []\<rparr>"

definition status_from :: "element \<Rightarrow> status option" where
  "status_from e = Some
     \<lparr>st_battery = or_else 0 (get_parsed (parse_uint u32_max) (lit ''battery'') e),
      st_extra = extra_attrs status_known e\<rparr>"

definition status_to :: "status \<Rightarrow> element" where
  "status_to v = apply_extras (st_extra v) (el_attr (lit ''battery'') (dec_of_nat (st_battery v)) (el_new STATUS))"

definition status_strict :: "element \<Rightarrow> status option" where
  "status_strict e =
     (if \<not> has_exactly status_known e \<or> el_children e \<noteq> [] then None
      else Option.bind (get_parsed (parse_uint u32_max) (lit ''battery'') e) (\<lambda>b.
           Some \<lparr>st_battery = b, st_extra = []\<rparr>))"

definition status_ok :: "status \<Rightarrow> bool" where
  "status_ok v \<longleftrightarrow> st_battery v \<le> u32_max \<and> extras_ok status_known (st_extra v)"

lemma status_to_eq:
  "extras_ok status_known (st_extra v) \<Longrightarrow> status_to v = Element STATUS
     (present [(lit ''battery'', Some (dec_of_nat (st_battery v)))] @ st_extra v) []"
  by (simp add: status_to_def chain_simps chain_extras' status_known_def
      del: present_Some present_None present_Nil)

interpretation status: strict_detail STATUS status_from status_to status_ok status_strict
proof
  show "el_name (status_to v) = STATUS" for v by (simp add: status_to_def)
next
  fix v assume ok: "status_ok v"
  then have "extras_ok status_known (st_extra v)" by (simp add: status_ok_def)
  then show "status_from (status_to v) = Some v"
    using ok by (simp add: status_from_def status_to_eq get_chain [where known = status_known]
        extra_chain' status_ok_def status_known_def del: present_Some present_None present_Nil)
next
  fix e v assume s: "status_strict e = Some v"
  then have "extra_attrs status_known e = []"
    by (intro has_exactly_extra [of status_known]) (auto simp: status_strict_def split: if_splits)
  with s show "status_from e = Some v"
    by (auto simp: status_strict_def status_from_def bind_eq_Some_conv split: if_splits)
next
  show "status_strict e = Some v \<Longrightarrow> el_children e = []" for e v
    by (simp add: status_strict_def split: if_splits)
qed

section \<open>Link\<close>

definition RELATION_P_P :: ustr where
  "RELATION_P_P = lit ''p-p''"

record link =
  lk_relation :: "ustr option"
  lk_uid :: "ustr option"
  lk_type :: "ustr option"
  lk_parent_callsign :: "ustr option"
  lk_production_time :: "ustr option"
  lk_extra :: attrs

definition LINK :: ustr where
  "LINK = lit ''link''"

definition link_known :: "ustr list" where
  "link_known = [lit ''relation'', lit ''uid'', lit ''type'', lit ''parent_callsign'', lit ''production_time'']"

definition link_default :: link where
  "link_default = \<lparr>lk_relation = None, lk_uid = None, lk_type = None, lk_parent_callsign = None,
     lk_production_time = None, lk_extra = []\<rparr>"

definition link_peer :: "ustr \<Rightarrow> ustr \<Rightarrow> link" where
  "link_peer uid ty = link_default\<lparr>lk_relation := Some RELATION_P_P, lk_uid := Some uid, lk_type := Some ty\<rparr>"

definition bare_peer :: link where
  "bare_peer = link_default\<lparr>lk_relation := Some RELATION_P_P\<rparr>"

definition link_from :: "element \<Rightarrow> link option" where
  "link_from e = Some
     \<lparr>lk_relation = el_get (lit ''relation'') e, lk_uid = el_get (lit ''uid'') e,
      lk_type = el_get (lit ''type'') e, lk_parent_callsign = el_get (lit ''parent_callsign'') e,
      lk_production_time = el_get (lit ''production_time'') e, lk_extra = extra_attrs link_known e\<rparr>"

definition link_to :: "link \<Rightarrow> element" where
  "link_to v =
     apply_extras (lk_extra v)
       (el_attr_opt (lit ''production_time'') (lk_production_time v)
         (el_attr_opt (lit ''relation'') (lk_relation v)
           (el_attr_opt (lit ''parent_callsign'') (lk_parent_callsign v)
             (el_attr_opt (lit ''type'') (lk_type v)
               (el_attr_opt (lit ''uid'') (lk_uid v) (el_new LINK))))))"

definition links :: "detail \<Rightarrow> link list" where
  "links d = List.map_filter link_from (d_find_all LINK d)"

definition link_ok :: "link \<Rightarrow> bool" where
  "link_ok v \<longleftrightarrow> extras_ok link_known (lk_extra v)"

lemma link_to_eq:
  "link_ok v \<Longrightarrow> link_to v = Element LINK
     (present [(lit ''uid'', lk_uid v), (lit ''type'', lk_type v), (lit ''parent_callsign'', lk_parent_callsign v),
       (lit ''relation'', lk_relation v), (lit ''production_time'', lk_production_time v)] @ lk_extra v) []"
  by (simp add: link_to_def link_ok_def chain_simps chain_extras' link_known_def
      del: present_Some present_None present_Nil)

interpretation link: typed_detail LINK link_from link_to link_ok
proof
  show "el_name (link_to v) = LINK" for v by (simp add: link_to_def)
next
  fix v assume "link_ok v"
  then show "link_from (link_to v) = Some v"
    by (simp add: link_from_def link_to_eq get_chain [where known = link_known]
        extra_chain' link_ok_def link_known_def del: present_Some present_None present_Nil)
qed

section \<open>Chat\<close>

definition DEFAULT_CHATROOM :: ustr where
  "DEFAULT_CHATROOM = lit ''All Chat Rooms''"

definition LEGACY_CHATROOM :: ustr where
  "LEGACY_CHATROOM = lit ''All Streaming''"

record chat =
  ch_id :: "ustr option"
  ch_chatroom :: "ustr option"
  ch_sender_callsign :: "ustr option"
  ch_group_owner :: bool
  ch_message_id :: "ustr option"
  ch_parent :: "ustr option"
  ch_chatgrp :: attrs
  ch_extra :: attrs

definition CHAT_NAME :: ustr where
  "CHAT_NAME = lit ''__chat''"

definition chat_known :: "ustr list" where
  "chat_known = [lit ''id'', lit ''chatroom'', lit ''senderCallsign'', lit ''groupOwner'', lit ''messageId'', lit ''parent'']"

definition participants :: "chat \<Rightarrow> ustr list" where
  "participants c =
     foldl (\<lambda>seen (name, v). if starts_with name (lit ''uid'') \<and> v \<notin> set seen then seen @ [v] else seen)
       [] (ch_chatgrp c)"

definition room :: "chat \<Rightarrow> ustr" where
  "room c =
     (case ch_chatroom c of
        Some r \<Rightarrow> if r = LEGACY_CHATROOM then DEFAULT_CHATROOM else r
      | None \<Rightarrow> DEFAULT_CHATROOM)"

definition chat_from :: "element \<Rightarrow> chat option" where
  "chat_from e = Some
     \<lparr>ch_id = el_get (lit ''id'') e, ch_chatroom = el_get (lit ''chatroom'') e,
      ch_sender_callsign = el_get (lit ''senderCallsign'') e, ch_group_owner = flag (lit ''groupOwner'') e,
      ch_message_id = el_get (lit ''messageId'') e, ch_parent = el_get (lit ''parent'') e,
      ch_chatgrp = (case el_child (lit ''chatgrp'') e of Some c \<Rightarrow> el_attrs c | None \<Rightarrow> []),
      ch_extra = extra_attrs chat_known e\<rparr>"

definition chat_to :: "chat \<Rightarrow> element" where
  "chat_to v =
     (let e = apply_extras (ch_extra v)
        (el_attr_opt (lit ''parent'') (ch_parent v)
          (el_attr_opt (lit ''messageId'') (ch_message_id v)
            (el_attr (lit ''groupOwner'') (bool_text (ch_group_owner v))
              (el_attr_opt (lit ''senderCallsign'') (ch_sender_callsign v)
                (el_attr_opt (lit ''chatroom'') (ch_chatroom v)
                  (el_attr_opt (lit ''id'') (ch_id v) (el_new CHAT_NAME)))))))
      in if ch_chatgrp v \<noteq> [] then el_push (Elem (Element (lit ''chatgrp'') (ch_chatgrp v) [])) e else e)"

definition chat_ok :: "chat \<Rightarrow> bool" where
  "chat_ok v \<longleftrightarrow> extras_ok chat_known (ch_extra v)"

lemma chat_to_eq:
  "chat_ok v \<Longrightarrow> chat_to v = Element CHAT_NAME
     (present [(lit ''id'', ch_id v), (lit ''chatroom'', ch_chatroom v), (lit ''senderCallsign'', ch_sender_callsign v),
       (lit ''groupOwner'', Some (bool_text (ch_group_owner v))), (lit ''messageId'', ch_message_id v),
       (lit ''parent'', ch_parent v)] @ ch_extra v)
     (if ch_chatgrp v \<noteq> [] then [Elem (Element (lit ''chatgrp'') (ch_chatgrp v) [])] else [])"
  by (simp add: chat_to_def chat_ok_def chain_simps chain_extras' chat_known_def Let_def
      del: present_Some present_None present_Nil)

interpretation chat: typed_detail CHAT_NAME chat_from chat_to chat_ok
proof
  show "el_name (chat_to v) = CHAT_NAME" for v by (simp add: chat_to_def Let_def)
next
  fix v assume "chat_ok v"
  then show "chat_from (chat_to v) = Some v"
    by (simp add: chat_from_def chat_to_eq get_chain [where known = chat_known]
        extra_chain' chat_ok_def chat_known_def el_child_def el_elements_def
        del: present_Some present_None present_Nil)
qed

text \<open>The participants are the distinct \<open>uid...\<close> values.\<close>

lemma participants_fold:
  "distinct seen \<Longrightarrow>
   distinct (foldl (\<lambda>seen (name, v). if starts_with name (lit ''uid'') \<and> v \<notin> set seen then seen @ [v] else seen) seen xs) \<and>
   set (foldl (\<lambda>seen (name, v). if starts_with name (lit ''uid'') \<and> v \<notin> set seen then seen @ [v] else seen) seen xs) =
     set seen \<union> {v. \<exists>name. (name, v) \<in> set xs \<and> starts_with name (lit ''uid'')}"
proof (induction xs arbitrary: seen)
  case (Cons x xs)
  obtain name v where x: "x = (name, v)" by force
  show ?case
  proof (cases "starts_with name (lit ''uid'') \<and> v \<notin> set seen")
    case True
    with Cons.prems have "distinct (seen @ [v])" by simp
    from Cons.IH [OF this] True show ?thesis by (auto simp: x)
  next
    case False
    with Cons.IH [OF Cons.prems] show ?thesis by (auto simp: x)
  qed
qed simp

lemma participants_distinct: "distinct (participants c)"
  and participants_set: "set (participants c) = {v. \<exists>name. (name, v) \<in> set (ch_chatgrp c) \<and> starts_with name (lit ''uid'')}"
  using participants_fold [of "[]" "ch_chatgrp c"] by (simp_all add: participants_def)

record remarks =
  rm_source :: "ustr option"
  rm_to :: "ustr option"
  rm_time :: "ustr option"
  rm_text :: ustr

definition REMARKS :: ustr where
  "REMARKS = lit ''remarks''"

definition remarks_from :: "element \<Rightarrow> remarks option" where
  "remarks_from e = Some
     \<lparr>rm_source = el_get (lit ''source'') e, rm_to = el_get (lit ''to'') e,
      rm_time = el_get (lit ''time'') e, rm_text = el_text e\<rparr>"

definition remarks_to :: "remarks \<Rightarrow> element" where
  "remarks_to v =
     (let e = el_attr_opt (lit ''time'') (rm_time v)
        (el_attr_opt (lit ''to'') (rm_to v)
          (el_attr_opt (lit ''source'') (rm_source v) (el_new REMARKS)))
      in if rm_text v \<noteq> [] then el_push (Text (rm_text v)) e else e)"

definition chat_remarks :: "detail \<Rightarrow> remarks option" where
  "chat_remarks d = d_get REMARKS remarks_from d"

interpretation remarks: typed_detail REMARKS remarks_from remarks_to "\<lambda>_. True"
proof
  show "el_name (remarks_to v) = REMARKS" for v by (simp add: remarks_to_def Let_def)
next
  fix v show "remarks_from (remarks_to v) = Some v"
    by (cases v; cases "rm_source v"; cases "rm_to v"; cases "rm_time v")
       (simp_all add: remarks_to_def remarks_from_def el_attr_opt_def el_attr_def el_new_def Let_def
         el_get_def el_text_def)
qed

definition chat_uid :: "ustr \<Rightarrow> ustr \<Rightarrow> ustr \<Rightarrow> ustr" where
  "chat_uid sender conversation message =
     lit ''GeoChat.'' @ sender @ lit ''.'' @ conversation @ lit ''.'' @ message"

section \<open>File shares and acknowledgements\<close>

definition FILESHARE_VALIDITY :: nat where
  "FILESHARE_VALIDITY = 10000"

record file_share =
  fs_filename :: ustr
  fs_sender_url :: ustr
  fs_size_in_bytes :: nat
  fs_sha256 :: ustr
  fs_sender_uid :: ustr
  fs_sender_callsign :: ustr
  fs_name :: ustr
  fs_peer_hosted :: "bool option"
  fs_https_port :: "nat option"
  fs_extra :: attrs

definition FILESHARE :: ustr where
  "FILESHARE = lit ''fileshare''"

definition fileshare_known :: "ustr list" where
  "fileshare_known =
     [lit ''filename'', lit ''senderUrl'', lit ''sizeInBytes'', lit ''sha256'', lit ''senderUid'',
      lit ''senderCallsign'', lit ''name'', lit ''peerHosted'', lit ''httpsPort'']"

definition fileshare_from :: "element \<Rightarrow> file_share option" where
  "fileshare_from e = Some
     \<lparr>fs_filename = get_or_empty (lit ''filename'') e, fs_sender_url = get_or_empty (lit ''senderUrl'') e,
      fs_size_in_bytes = or_else 0 (get_parsed (parse_uint u64_max) (lit ''sizeInBytes'') e),
      fs_sha256 = get_or_empty (lit ''sha256'') e, fs_sender_uid = get_or_empty (lit ''senderUid'') e,
      fs_sender_callsign = get_or_empty (lit ''senderCallsign'') e, fs_name = get_or_empty (lit ''name'') e,
      fs_peer_hosted = map_option is_true (el_get (lit ''peerHosted'') e),
      fs_https_port = get_parsed (parse_uint u16_max) (lit ''httpsPort'') e,
      fs_extra = extra_attrs fileshare_known e\<rparr>"

definition fileshare_to :: "file_share \<Rightarrow> element" where
  "fileshare_to v =
     apply_extras (fs_extra v)
       (el_attr_opt (lit ''httpsPort'') (map_option dec_of_nat (fs_https_port v))
         (el_attr_opt (lit ''peerHosted'') (map_option bool_text (fs_peer_hosted v))
           (el_attr (lit ''name'') (fs_name v)
             (el_attr (lit ''senderCallsign'') (fs_sender_callsign v)
               (el_attr (lit ''senderUid'') (fs_sender_uid v)
                 (el_attr (lit ''sha256'') (fs_sha256 v)
                   (el_attr (lit ''sizeInBytes'') (dec_of_nat (fs_size_in_bytes v))
                     (el_attr (lit ''senderUrl'') (fs_sender_url v)
                       (el_attr (lit ''filename'') (fs_filename v) (el_new FILESHARE))))))))))"

definition fileshare_ok :: "file_share \<Rightarrow> bool" where
  "fileshare_ok v \<longleftrightarrow> fs_size_in_bytes v \<le> u64_max \<and> (\<forall>p. fs_https_port v = Some p \<longrightarrow> p \<le> u16_max) \<and>
     extras_ok fileshare_known (fs_extra v)"

lemma fileshare_to_eq:
  "extras_ok fileshare_known (fs_extra v) \<Longrightarrow> fileshare_to v = Element FILESHARE
     (present [(lit ''filename'', Some (fs_filename v)), (lit ''senderUrl'', Some (fs_sender_url v)),
       (lit ''sizeInBytes'', Some (dec_of_nat (fs_size_in_bytes v))), (lit ''sha256'', Some (fs_sha256 v)),
       (lit ''senderUid'', Some (fs_sender_uid v)), (lit ''senderCallsign'', Some (fs_sender_callsign v)),
       (lit ''name'', Some (fs_name v)), (lit ''peerHosted'', map_option bool_text (fs_peer_hosted v)),
       (lit ''httpsPort'', map_option dec_of_nat (fs_https_port v))] @ fs_extra v) []"
  by (simp add: fileshare_to_def chain_simps chain_extras' fileshare_known_def
      del: present_Some present_None present_Nil)

interpretation fileshare: typed_detail FILESHARE fileshare_from fileshare_to fileshare_ok
proof
  show "el_name (fileshare_to v) = FILESHARE" for v by (simp add: fileshare_to_def)
next
  fix v assume ok: "fileshare_ok v"
  then have ex: "extras_ok fileshare_known (fs_extra v)" by (simp add: fileshare_ok_def)
  then have *: "fileshare_from (fileshare_to v) = Some (v\<lparr>
      fs_size_in_bytes := or_else 0 (parse_uint u64_max (dec_of_nat (fs_size_in_bytes v))),
      fs_peer_hosted := map_option is_true (map_option bool_text (fs_peer_hosted v)),
      fs_https_port := Option.bind (map_option dec_of_nat (fs_https_port v)) (parse_uint u16_max)\<rparr>)"
    by (simp add: fileshare_from_def fileshare_to_eq get_chain [where known = fileshare_known]
        extra_chain' fileshare_known_def del: present_Some present_None present_Nil parse_uint_dec_of_nat)
  show "fileshare_from (fileshare_to v) = Some v"
    using ok unfolding * by (cases v; cases "fs_peer_hosted v"; cases "fs_https_port v")
      (simp_all add: fileshare_ok_def)
qed

record ack_request =
  aq_uid :: ustr
  aq_requested :: bool
  aq_tag :: ustr

definition ACKREQUEST :: ustr where
  "ACKREQUEST = lit ''ackrequest''"

definition ackrequest_from :: "element \<Rightarrow> ack_request option" where
  "ackrequest_from e = Some
     \<lparr>aq_uid = get_or_empty (lit ''uid'') e, aq_requested = flag (lit ''ackrequested'') e,
      aq_tag = get_or_empty (lit ''tag'') e\<rparr>"

definition ackrequest_to :: "ack_request \<Rightarrow> element" where
  "ackrequest_to v =
     el_attr (lit ''tag'') (aq_tag v)
       (el_attr (lit ''ackrequested'') (bool_text (aq_requested v))
         (el_attr (lit ''uid'') (aq_uid v) (el_new ACKREQUEST)))"

interpretation ackrequest: typed_detail ACKREQUEST ackrequest_from ackrequest_to "\<lambda>_. True"
proof
  show "el_name (ackrequest_to v) = ACKREQUEST" for v by (simp add: ackrequest_to_def)
  show "ackrequest_from (ackrequest_to v) = Some v" for v
    by (cases v) (simp add: ackrequest_to_def ackrequest_from_def el_attr_def)
qed

record ack_response =
  ar_uid :: ustr
  ar_sender_uid :: ustr
  ar_success :: bool
  ar_tag :: ustr
  ar_reason :: ustr
  ar_sha256 :: ustr
  ar_size_in_bytes :: nat

definition ACKRESPONSE :: ustr where
  "ACKRESPONSE = lit ''ackresponse''"

definition ackresponse_from :: "element \<Rightarrow> ack_response option" where
  "ackresponse_from e = Some
     \<lparr>ar_uid = get_or_empty (lit ''uid'') e, ar_sender_uid = get_or_empty (lit ''senderUid'') e,
      ar_success = flag (lit ''success'') e, ar_tag = get_or_empty (lit ''tag'') e,
      ar_reason = get_or_empty (lit ''reason'') e, ar_sha256 = get_or_empty (lit ''sha256'') e,
      ar_size_in_bytes = or_else 0 (get_parsed (parse_uint u64_max) (lit ''sizeInBytes'') e)\<rparr>"

definition ackresponse_to :: "ack_response \<Rightarrow> element" where
  "ackresponse_to v =
     el_attr (lit ''sizeInBytes'') (dec_of_nat (ar_size_in_bytes v))
       (el_attr (lit ''sha256'') (ar_sha256 v)
         (el_attr (lit ''reason'') (ar_reason v)
           (el_attr (lit ''tag'') (ar_tag v)
             (el_attr (lit ''success'') (bool_text (ar_success v))
               (el_attr (lit ''senderUid'') (ar_sender_uid v)
                 (el_attr (lit ''uid'') (ar_uid v) (el_new ACKRESPONSE)))))))"

interpretation ackresponse: typed_detail ACKRESPONSE ackresponse_from ackresponse_to
  "\<lambda>v. ar_size_in_bytes v \<le> u64_max"
proof
  show "el_name (ackresponse_to v) = ACKRESPONSE" for v by (simp add: ackresponse_to_def)
  show "ackresponse_from (ackresponse_to v) = Some v" if "ar_size_in_bytes v \<le> u64_max" for v
    using that by (cases v) (simp add: ackresponse_to_def ackresponse_from_def el_attr_def)
qed

definition fileshare_pointer :: "ustr \<Rightarrow> file_share \<Rightarrow> cot_time \<Rightarrow> cot_time \<Rightarrow> event" where
  "fileshare_pointer uid share now clock =
     b_typed ackrequest_to \<lparr>aq_uid = uid, aq_requested = True, aq_tag = fs_name share\<rparr>
       (b_typed fileshare_to share
         (b_stale_after FILESHARE_VALIDITY
           (b_time now
             (b_point_full point_zero
               (b_how HOW_H_E (event_builder clock FILESHARE_TYPE uid))))))"

section \<open>Protocol negotiation\<close>

record tak_control =
  tc_supported :: "nat list"
  tc_server_version :: "ustr option"
  tc_api_version :: "nat option"
  tc_request :: "nat option"
  tc_response :: "bool option"

definition TAKCONTROL :: ustr where
  "TAKCONTROL = lit ''TakControl''"

definition takcontrol_default :: tak_control where
  "takcontrol_default = \<lparr>tc_supported = [], tc_server_version = None, tc_api_version = None,
     tc_request = None, tc_response = None\<rparr>"

definition tc_announce :: "nat \<Rightarrow> ustr \<Rightarrow> nat \<Rightarrow> tak_control" where
  "tc_announce version server api = takcontrol_default\<lparr>tc_supported := [version],
     tc_server_version := Some server, tc_api_version := Some api\<rparr>"

definition tc_request_of :: "nat \<Rightarrow> tak_control" where
  "tc_request_of version = takcontrol_default\<lparr>tc_request := Some version\<rparr>"

definition tc_response_of :: "bool \<Rightarrow> tak_control" where
  "tc_response_of accepted = takcontrol_default\<lparr>tc_response := Some accepted\<rparr>"

definition tc_supports :: "nat \<Rightarrow> tak_control \<Rightarrow> bool" where
  "tc_supports version c \<longleftrightarrow> version \<in> set (tc_supported c)"

definition takcontrol_from :: "element \<Rightarrow> tak_control option" where
  "takcontrol_from e =
     (let version_info = el_child (lit ''TakServerVersionInfo'') e
      in Some
     \<lparr>tc_supported = List.map_filter (get_parsed (parse_uint u32_max) (lit ''version''))
        (filter (\<lambda>c. el_name c = lit ''TakProtocolSupport'') (el_elements e)),
      tc_server_version = Option.bind version_info (el_get (lit ''serverVersion'')),
      tc_api_version = Option.bind version_info (get_parsed (parse_uint u32_max) (lit ''apiVersion'')),
      tc_request = Option.bind (el_child (lit ''TakRequest'') e) (get_parsed (parse_uint u32_max) (lit ''version'')),
      tc_response = map_option is_true (Option.bind (el_child (lit ''TakResponse'') e) (el_get (lit ''status'')))\<rparr>)"

definition takcontrol_to :: "tak_control \<Rightarrow> element" where
  "takcontrol_to v =
     (let e0 = foldl (\<lambda>e version. el_push (Elem (el_attr (lit ''version'') (dec_of_nat version)
                        (el_new (lit ''TakProtocolSupport'')))) e)
                 (el_new TAKCONTROL) (tc_supported v);
          e1 = (if tc_server_version v \<noteq> None \<or> tc_api_version v \<noteq> None then
                  el_push (Elem (el_attr_opt (lit ''apiVersion'') (map_option dec_of_nat (tc_api_version v))
                    (el_attr_opt (lit ''serverVersion'') (tc_server_version v)
                      (el_new (lit ''TakServerVersionInfo''))))) e0
                else e0);
          e2 = (case tc_request v of
                  Some version \<Rightarrow> el_push (Elem (el_attr (lit ''version'') (dec_of_nat version)
                    (el_new (lit ''TakRequest'')))) e1
                | None \<Rightarrow> e1)
      in case tc_response v of
           Some accepted \<Rightarrow> el_push (Elem (el_attr (lit ''status'') (bool_text accepted)
             (el_new (lit ''TakResponse'')))) e2
         | None \<Rightarrow> e2)"

definition takcontrol_ok :: "tak_control \<Rightarrow> bool" where
  "takcontrol_ok v \<longleftrightarrow> list_all (\<lambda>n. n \<le> u32_max) (tc_supported v) \<and>
     (\<forall>n. tc_api_version v = Some n \<longrightarrow> n \<le> u32_max) \<and> (\<forall>n. tc_request v = Some n \<longrightarrow> n \<le> u32_max)"

definition support_element :: "nat \<Rightarrow> element" where
  "support_element version = Element (lit ''TakProtocolSupport'') [(lit ''version'', dec_of_nat version)] []"

lemma foldl_support:
  "foldl (\<lambda>e version. el_push (Elem (el_attr (lit ''version'') (dec_of_nat version)
      (el_new (lit ''TakProtocolSupport'')))) e) (Element n as cs) vs =
   Element n as (cs @ map (Elem \<circ> support_element) vs)"
  by (induction vs arbitrary: cs) (simp_all add: el_attr_def el_new_def support_element_def)

lemma elements_of_supports [simp]: "elements_of (map (Elem \<circ> support_element) vs) = map support_element vs"
  by (induction vs) simp_all

lemma support_filter [simp]:
  "filter (\<lambda>c. el_name c = lit ''TakProtocolSupport'') (map support_element vs) = map support_element vs"
  by (induction vs) (simp_all add: support_element_def)

lemma support_find [simp]:
  "n \<noteq> lit ''TakProtocolSupport'' \<Longrightarrow> List.find (\<lambda>c. el_name c = n) (map support_element vs) = None"
  by (induction vs) (simp_all add: support_element_def)

lemma support_versions [simp]:
  "list_all (\<lambda>n. n \<le> u32_max) vs \<Longrightarrow>
   List.map_filter (get_parsed (parse_uint u32_max) (lit ''version'')) (map support_element vs) = vs"
  by (induction vs) (simp_all add: map_filter_simps support_element_def el_get_def)

lemma takcontrol_to_eq:
  "takcontrol_to v = Element TAKCONTROL []
     (map (Elem \<circ> support_element) (tc_supported v) @
      (if tc_server_version v \<noteq> None \<or> tc_api_version v \<noteq> None then
         [Elem (Element (lit ''TakServerVersionInfo'')
           (present [(lit ''serverVersion'', tc_server_version v),
             (lit ''apiVersion'', map_option dec_of_nat (tc_api_version v))]) [])] else []) @
      (case tc_request v of
         Some n \<Rightarrow> [Elem (Element (lit ''TakRequest'') [(lit ''version'', dec_of_nat n)] [])] | None \<Rightarrow> []) @
      (case tc_response v of
         Some b \<Rightarrow> [Elem (Element (lit ''TakResponse'') [(lit ''status'', bool_text b)] [])] | None \<Rightarrow> []))"
proof -
  have "foldl (\<lambda>e version. el_push (Elem (el_attr (lit ''version'') (dec_of_nat version)
      (el_new (lit ''TakProtocolSupport'')))) e) (el_new TAKCONTROL) (tc_supported v) =
      Element TAKCONTROL [] (map (Elem \<circ> support_element) (tc_supported v))"
    by (simp add: el_new_def [of TAKCONTROL] foldl_support)
  then show ?thesis
    by (cases "tc_server_version v"; cases "tc_api_version v"; cases "tc_request v"; cases "tc_response v")
       (simp_all add: takcontrol_to_def Let_def el_attr_opt_def, simp_all add: el_attr_def el_new_def)
qed

interpretation takcontrol: typed_detail TAKCONTROL takcontrol_from takcontrol_to takcontrol_ok
proof
  show "el_name (takcontrol_to v) = TAKCONTROL" for v by (simp add: takcontrol_to_eq)
next
  fix v assume ok: "takcontrol_ok v"
  show "takcontrol_from (takcontrol_to v) = Some v"
    using ok unfolding takcontrol_to_eq
    by (cases v; cases "tc_server_version v"; cases "tc_api_version v"; cases "tc_request v"; cases "tc_response v")
       (simp_all add: takcontrol_from_def takcontrol_ok_def Let_def el_child_def el_elements_def
         find_append el_get_Element)
qed

end
