(* ===== verification/Mission_Detail.thy ===== *)
theory Mission_Detail
  imports Typed_Messages
begin

text \<open>
  The mission notice carried in a \<open><detail>\<close> (\<open>rustak-cot/src/detail/mission.rs\<close>): its kind, the
  list of changes held in child elements, and the typed view over it.
\<close>

section \<open>Notice kinds\<close>

datatype mission_notice = Change | Invite | Create | Delete | OtherNotice ustr

fun notice_str :: "mission_notice \<Rightarrow> ustr" where
  "notice_str Change = lit ''CHANGE''"
| "notice_str Invite = lit ''INVITE''"
| "notice_str Create = lit ''CREATE''"
| "notice_str Delete = lit ''DELETE''"
| "notice_str (OtherNotice v) = v"

definition notice_from :: "ustr \<Rightarrow> mission_notice" where
  "notice_from v =
     (if v = lit ''CHANGE'' then Change
      else if v = lit ''INVITE'' then Invite
      else if v = lit ''CREATE'' then Create
      else if v = lit ''DELETE'' then Delete
      else OtherNotice v)"

lemma notice_str_from [simp]: "notice_str (notice_from v) = v"
  by (simp add: notice_from_def)

lemma notice_from_str: "notice_from (notice_str n) = n \<longleftrightarrow>
    (\<forall>v. n = OtherNotice v \<longrightarrow> v \<notin> {lit ''CHANGE'', lit ''INVITE'', lit ''CREATE'', lit ''DELETE''})"
  by (cases n) (auto simp: notice_from_def)

section \<open>One change\<close>

record mission_change =
  mc_type :: "ustr option"
  mc_is_federated :: "bool option"
  mc_mission_name :: "ustr option"
  mc_mission_guid :: "ustr option"
  mc_timestamp :: "ustr option"
  mc_creator_uid :: "ustr option"
  mc_content_uid :: "ustr option"
  mc_other :: "element list"

definition change_known :: "ustr list" where
  "change_known = [lit ''type'', lit ''isFederatedChange'', lit ''missionName'', lit ''missionGuid'',
     lit ''timestamp'', lit ''creatorUid'', lit ''contentUid'']"

definition child_text :: "element \<Rightarrow> ustr \<Rightarrow> ustr option" where
  "child_text e name = map_option el_text (el_child name e)"

definition change_from :: "element \<Rightarrow> mission_change" where
  "change_from e =
     \<lparr>mc_type = child_text e (lit ''type''),
      mc_is_federated = map_option is_true (child_text e (lit ''isFederatedChange'')),
      mc_mission_name = child_text e (lit ''missionName''), mc_mission_guid = child_text e (lit ''missionGuid''),
      mc_timestamp = child_text e (lit ''timestamp''), mc_creator_uid = child_text e (lit ''creatorUid''),
      mc_content_uid = child_text e (lit ''contentUid''),
      mc_other = filter (\<lambda>c. el_name c \<notin> set change_known) (el_elements e)\<rparr>"

definition push_text :: "ustr \<Rightarrow> ustr option \<Rightarrow> element \<Rightarrow> element" where
  "push_text name v e =
     (case v of Some x \<Rightarrow> el_push (Elem (el_push (Text x) (el_new name))) e | None \<Rightarrow> e)"

definition change_to :: "mission_change \<Rightarrow> element" where
  "change_to v =
     foldl (\<lambda>e c. el_push (Elem c) e)
       (push_text (lit ''contentUid'') (mc_content_uid v)
         (push_text (lit ''creatorUid'') (mc_creator_uid v)
           (push_text (lit ''timestamp'') (mc_timestamp v)
             (push_text (lit ''missionGuid'') (mc_mission_guid v)
               (push_text (lit ''missionName'') (mc_mission_name v)
                 (push_text (lit ''isFederatedChange'') (map_option bool_text (mc_is_federated v))
                   (push_text (lit ''type'') (mc_type v) (el_new (lit ''MissionChange'')))))))))
       (mc_other v)"

definition change_ok :: "mission_change \<Rightarrow> bool" where
  "change_ok v \<longleftrightarrow> list_all (\<lambda>c. el_name c \<notin> set change_known) (mc_other v)"

text \<open>The text children that are present, as elements.\<close>

definition text_elements :: "(ustr \<times> ustr option) list \<Rightarrow> element list" where
  "text_elements kvs = map (\<lambda>(k, v). Element k [] [Text v]) (present kvs)"

lemma text_elements_Nil [simp]: "text_elements [] = []"
  by (simp add: text_elements_def)

lemma text_elements_snoc: "text_elements (kvs @ [(k, v)]) =
    text_elements kvs @ (case v of Some x \<Rightarrow> [Element k [] [Text x]] | None \<Rightarrow> [])"
  by (cases v) (simp_all add: text_elements_def present_append)

lemma push_text_chain:
  "push_text k v (Element n [] (map Elem (text_elements kvs))) =
     Element n [] (map Elem (text_elements (kvs @ [(k, v)])))"
  by (cases v) (simp_all add: push_text_def text_elements_snoc el_new_def)

lemma foldl_push_elem: "foldl (\<lambda>e c. el_push (Elem c) e) (Element n as cs) es = Element n as (cs @ map Elem es)"
  by (induction es arbitrary: cs) simp_all

definition change_kvs :: "mission_change \<Rightarrow> (ustr \<times> ustr option) list" where
  "change_kvs v =
     [(lit ''type'', mc_type v), (lit ''isFederatedChange'', map_option bool_text (mc_is_federated v)),
      (lit ''missionName'', mc_mission_name v), (lit ''missionGuid'', mc_mission_guid v),
      (lit ''timestamp'', mc_timestamp v), (lit ''creatorUid'', mc_creator_uid v),
      (lit ''contentUid'', mc_content_uid v)]"

lemma change_to_eq:
  "change_to v = Element (lit ''MissionChange'') [] (map Elem (text_elements (change_kvs v) @ mc_other v))"
proof -
  have "el_new (lit ''MissionChange'') = Element (lit ''MissionChange'') [] (map Elem (text_elements []))"
    by (simp add: el_new_def)
  then show ?thesis
    by (simp only: change_to_def push_text_chain foldl_push_elem change_kvs_def append.simps map_append)
qed

lemma find_text_elements:
  "distinct (map fst kvs) \<Longrightarrow> map_option el_text (List.find (\<lambda>c. el_name c = k) (text_elements kvs)) =
     Option.bind (map_of kvs k) id"
proof (induction kvs)
  case (Cons kv kvs)
  obtain k' v where kv: "kv = (k', v)" by force
  have "List.find (\<lambda>c. el_name c = k') (text_elements kvs) = None" if "k' \<notin> fst ` set kvs"
    using that fst_present [of kvs] by (force simp: text_elements_def find_None_iff)
  with Cons kv show ?case by (cases v) (auto simp: text_elements_def el_text_def)
qed simp

lemma find_other:
  "list_all (\<lambda>c. el_name c \<notin> K) es \<Longrightarrow> k \<in> K \<Longrightarrow> List.find (\<lambda>c. el_name c = k) es = None"
  by (auto simp: find_None_iff list_all_iff)

lemma child_text_change:
  assumes "change_ok v" and "k \<in> set change_known"
  shows "child_text (change_to v) k = Option.bind (map_of (change_kvs v) k) id"
proof -
  have "List.find (\<lambda>c. el_name c = k) (mc_other v) = None"
    using assms by (auto simp: change_ok_def intro: find_other)
  moreover have "distinct (map fst (change_kvs v))" by (simp add: change_kvs_def)
  ultimately show ?thesis
    using find_text_elements [of "change_kvs v" k]
    by (auto simp: child_text_def el_child_def el_elements_def change_to_eq find_append split: option.splits)
qed

lemma change_from_to [simp]: "change_ok v \<Longrightarrow> change_from (change_to v) = v"
proof -
  assume ok: "change_ok v"
  have "filter (\<lambda>c. el_name c \<notin> set change_known) (text_elements (change_kvs v)) = []"
    using fst_present [of "change_kvs v"]
    by (auto simp: filter_empty_conv text_elements_def change_kvs_def change_known_def)
  moreover have "filter (\<lambda>c. el_name c \<notin> set change_known) (mc_other v) = mc_other v"
    using ok by (simp add: change_ok_def list_all_iff filter_id_conv)
  moreover have "map_option is_true (map_option bool_text (mc_is_federated v)) = mc_is_federated v"
    by (cases "mc_is_federated v") simp_all
  ultimately show ?thesis
    using child_text_change [OF ok]
    by (simp add: change_from_def change_kvs_def change_known_def el_elements_def change_to_eq
        del: map_append)
qed

section \<open>The notice\<close>

record mission_detail =
  md_type :: mission_notice
  md_tool :: "ustr option"
  md_name :: "ustr option"
  md_guid :: "ustr option"
  md_author_uid :: "ustr option"
  md_uid :: "ustr option"
  md_token :: "ustr option"
  md_changes :: "mission_change list"
  md_extra :: attrs

definition MISSION :: ustr where
  "MISSION = lit ''mission''"

definition mission_known :: "ustr list" where
  "mission_known = [lit ''type'', lit ''tool'', lit ''name'', lit ''guid'', lit ''authorUid'', lit ''uid'', lit ''token'']"

definition mission_change_notice :: "ustr \<Rightarrow> ustr \<Rightarrow> mission_detail" where
  "mission_change_notice name guid =
     \<lparr>md_type = Change, md_tool = Some [], md_name = Some name, md_guid = Some guid,
      md_author_uid = None, md_uid = None, md_token = None, md_changes = [], md_extra = []\<rparr>"

definition mission_from :: "element \<Rightarrow> mission_detail option" where
  "mission_from e = Some
     \<lparr>md_type = notice_from (get_or_empty (lit ''type'') e), md_tool = el_get (lit ''tool'') e,
      md_name = el_get (lit ''name'') e, md_guid = el_get (lit ''guid'') e,
      md_author_uid = el_get (lit ''authorUid'') e, md_uid = el_get (lit ''uid'') e,
      md_token = el_get (lit ''token'') e,
      md_changes = map change_from (filter (\<lambda>c. el_name c = lit ''MissionChange'')
        (case el_child (lit ''MissionChanges'') e of Some c \<Rightarrow> el_elements c | None \<Rightarrow> [])),
      md_extra = extra_attrs mission_known e\<rparr>"

definition mission_to :: "mission_detail \<Rightarrow> element" where
  "mission_to v =
     (let e = apply_extras (md_extra v)
        (el_attr_opt (lit ''token'') (md_token v)
          (el_attr_opt (lit ''uid'') (md_uid v)
            (el_attr_opt (lit ''tool'') (md_tool v)
              (el_attr_opt (lit ''authorUid'') (md_author_uid v)
                (el_attr (lit ''type'') (notice_str (md_type v))
                  (el_attr_opt (lit ''guid'') (md_guid v)
                    (el_attr_opt (lit ''name'') (md_name v) (el_new MISSION))))))))
      in if md_changes v \<noteq> [] then
           el_push (Elem (foldl (\<lambda>c change. el_push (Elem (change_to change)) c)
             (el_new (lit ''MissionChanges'')) (md_changes v))) e
         else e)"

definition mission_ok :: "mission_detail \<Rightarrow> bool" where
  "mission_ok v \<longleftrightarrow> extras_ok mission_known (md_extra v) \<and> list_all change_ok (md_changes v) \<and>
     notice_from (notice_str (md_type v)) = md_type v"

lemma foldl_changes:
  "foldl (\<lambda>c change. el_push (Elem (change_to change)) c) (Element n as cs) vs =
   Element n as (cs @ map (Elem \<circ> change_to) vs)"
  by (induction vs arbitrary: cs) simp_all

lemma foldl_changes_built:
  "foldl (\<lambda>c change. el_push (Elem (change_to change)) c) (built n []) vs =
   Element n [] (map (Elem \<circ> change_to) vs)"
  by (simp add: built_def foldl_changes)

lemma mission_to_eq:
  "extras_ok mission_known (md_extra v) \<Longrightarrow> mission_to v = Element MISSION
     (present [(lit ''name'', md_name v), (lit ''guid'', md_guid v), (lit ''type'', Some (notice_str (md_type v))),
       (lit ''authorUid'', md_author_uid v), (lit ''tool'', md_tool v), (lit ''uid'', md_uid v),
       (lit ''token'', md_token v)] @ md_extra v)
     (if md_changes v \<noteq> [] then [Elem (Element (lit ''MissionChanges'') [] (map (Elem \<circ> change_to) (md_changes v)))]
      else [])"
  by (simp add: mission_to_def chain_simps chain_extras' mission_known_def Let_def foldl_changes_built
      del: present_Some present_None present_Nil)

lemma changes_read_back:
  "list_all change_ok vs \<Longrightarrow>
   map change_from (filter (\<lambda>c. el_name c = lit ''MissionChange'') (elements_of (map (Elem \<circ> change_to) vs))) = vs"
proof (induction vs)
  case (Cons v vs)
  moreover have "el_name (change_to v) = lit ''MissionChange''" by (simp add: change_to_eq)
  ultimately show ?case by simp
qed simp

interpretation mission: typed_detail MISSION mission_from mission_to mission_ok
proof
  show "el_name (mission_to v) = MISSION" for v by (simp add: mission_to_def Let_def)
next
  fix v assume ok: "mission_ok v"
  then have "extras_ok mission_known (md_extra v)" by (simp add: mission_ok_def)
  then show "mission_from (mission_to v) = Some v"
    using ok
    by (simp add: mission_from_def mission_to_eq get_chain [where known = mission_known]
        extra_chain' mission_ok_def mission_known_def el_child_def el_elements_def changes_read_back
        del: present_Some present_None present_Nil map_map)
qed

end
