(* ===== verification/Marti.thy ===== *)
theory Marti
  imports Detail_Tree Cot_Types
begin

text \<open>
  What a server adds to and takes off a message in transit: the \<open><marti>\<close> address list
  (\<open>rustak-cot/src/detail/marti.rs\<close>), the flow tag that stops a message from looping
  (\<open>rustak-cot/src/detail/flow_tags.rs\<close>), and the XML names both depend on
  (\<open>rustak-cot/src/xml/parse.rs\<close>).
\<close>

section \<open>XML names\<close>

definition in_range :: "uchar \<Rightarrow> uchar \<Rightarrow> uchar \<Rightarrow> bool" where
  "in_range c lo hi \<longleftrightarrow> lo \<le> c \<and> c \<le> hi"

definition is_name_start :: "uchar \<Rightarrow> bool" where
  "is_name_start c \<longleftrightarrow>
     c = 58 \<or> c = 95 \<or> in_range c 65 90 \<or> in_range c 97 122 \<or>
     in_range c 0xC0 0xD6 \<or> in_range c 0xD8 0xF6 \<or> in_range c 0xF8 0x2FF \<or>
     in_range c 0x370 0x37D \<or> in_range c 0x37F 0x1FFF \<or> in_range c 0x200C 0x200D \<or>
     in_range c 0x2070 0x218F \<or> in_range c 0x2C00 0x2FEF \<or> in_range c 0x3001 0xD7FF \<or>
     in_range c 0xF900 0xFDCF \<or> in_range c 0xFDF0 0xFFFD \<or> in_range c 0x10000 0xEFFFF"

definition is_name_char :: "uchar \<Rightarrow> bool" where
  "is_name_char c \<longleftrightarrow>
     is_name_start c \<or> c = 45 \<or> c = 46 \<or> in_range c 48 57 \<or> c = 0xB7 \<or>
     in_range c 0x300 0x36F \<or> in_range c 0x203F 0x2040"

fun is_name :: "ustr \<Rightarrow> bool" where
  "is_name [] \<longleftrightarrow> False"
| "is_name (first # chars) \<longleftrightarrow> is_name_start first \<and> list_all is_name_char chars"

lemma name_char_dash [simp]: "is_name_char 45"
  by (simp add: is_name_char_def)

lemma name_chars_ascii: "in_range c 65 90 \<or> in_range c 97 122 \<Longrightarrow> is_name_char c"
  by (auto simp: is_name_char_def is_name_start_def)

section \<open>Addresses\<close>

definition ALL_STREAMING :: ustr where
  "ALL_STREAMING = lit ''All Streaming''"

definition ROUTING_ATTRS :: "ustr list" where
  "ROUTING_ATTRS = [lit ''callsign'', lit ''publish'', lit ''uid'', lit ''mission'', lit ''mission-guid'',
     lit ''path'', lit ''after'', lit ''group'']"

record dest =
  dest_callsign :: "ustr option"
  dest_publish :: "ustr option"
  dest_uid :: "ustr option"
  dest_mission :: "ustr option"
  dest_mission_guid :: "ustr option"
  dest_path :: "ustr option"
  dest_after :: "ustr option"
  dest_group :: "ustr option"

datatype dest_address =
    Callsign ustr
  | Publish ustr
  | Uid ustr
  | Mission ustr "ustr option" "ustr option"
  | MissionGuid ustr "ustr option" "ustr option"
  | Group ustr

definition dest_default :: dest where
  "dest_default = \<lparr>dest_callsign = None, dest_publish = None, dest_uid = None, dest_mission = None,
     dest_mission_guid = None, dest_path = None, dest_after = None, dest_group = None\<rparr>"

definition dest_for_callsign :: "ustr \<Rightarrow> dest" where
  "dest_for_callsign v = dest_default\<lparr>dest_callsign := Some v\<rparr>"

definition dest_for_uid :: "ustr \<Rightarrow> dest" where
  "dest_for_uid v = dest_default\<lparr>dest_uid := Some v\<rparr>"

definition dest_for_mission :: "ustr \<Rightarrow> dest" where
  "dest_for_mission v = dest_default\<lparr>dest_mission := Some v\<rparr>"

definition dest_for_mission_guid :: "ustr \<Rightarrow> dest" where
  "dest_for_mission_guid v = dest_default\<lparr>dest_mission_guid := Some v\<rparr>"

definition dest_for_group :: "ustr \<Rightarrow> dest" where
  "dest_for_group v = dest_default\<lparr>dest_group := Some v\<rparr>"

definition dest_kind :: "dest \<Rightarrow> dest_address option" where
  "dest_kind d =
     (let path = dest_path d;
          aft = (case path of Some _ \<Rightarrow> dest_after d | None \<Rightarrow> None)
      in case dest_callsign d of Some callsign \<Rightarrow> Some (Callsign callsign)
       | None \<Rightarrow> (case dest_publish d of Some publish \<Rightarrow> Some (Publish publish)
       | None \<Rightarrow> (case dest_uid d of Some uid \<Rightarrow> Some (Uid uid)
       | None \<Rightarrow> (case dest_mission d of Some name \<Rightarrow> Some (Mission name path aft)
       | None \<Rightarrow> (case dest_mission_guid d of Some guid \<Rightarrow> Some (MissionGuid guid path aft)
       | None \<Rightarrow> map_option Group (dest_group d))))))"

definition is_all_streaming :: "dest \<Rightarrow> bool" where
  "is_all_streaming d \<longleftrightarrow> dest_callsign d = Some ALL_STREAMING"

definition dest_from :: "element \<Rightarrow> dest" where
  "dest_from e =
     \<lparr>dest_callsign = el_get (lit ''callsign'') e, dest_publish = el_get (lit ''publish'') e,
      dest_uid = el_get (lit ''uid'') e, dest_mission = el_get (lit ''mission'') e,
      dest_mission_guid = el_get (lit ''mission-guid'') e, dest_path = el_get (lit ''path'') e,
      dest_after = el_get (lit ''after'') e, dest_group = el_get (lit ''group'') e\<rparr>"

definition dest_to :: "dest \<Rightarrow> element" where
  "dest_to d =
     el_attr_opt (lit ''group'') (dest_group d)
       (el_attr_opt (lit ''after'') (dest_after d)
         (el_attr_opt (lit ''path'') (dest_path d)
           (el_attr_opt (lit ''mission-guid'') (dest_mission_guid d)
             (el_attr_opt (lit ''mission'') (dest_mission d)
               (el_attr_opt (lit ''uid'') (dest_uid d)
                 (el_attr_opt (lit ''publish'') (dest_publish d)
                   (el_attr_opt (lit ''callsign'') (dest_callsign d) (el_new (lit ''dest'')))))))))"

definition dest_selects :: "element \<Rightarrow> bool" where
  "dest_selects e \<longleftrightarrow> list_ex (\<lambda>(name, _). name \<in> set ROUTING_ATTRS) (el_attrs e)"

definition dests_of :: "element list \<Rightarrow> dest list" where
  "dests_of martis =
     map dest_from (filter (\<lambda>e. el_name e = lit ''dest'' \<and> dest_selects e) (concat (map el_elements martis)))"

definition take_marti :: "detail \<Rightarrow> dest list \<times> detail" where
  "take_marti d =
     (case d_remove_all (lit ''marti'') d of (removed, d') \<Rightarrow> (dests_of removed, d'))"

definition read_marti :: "detail \<Rightarrow> dest list" where
  "read_marti d = dests_of (d_find_all (lit ''marti'') d)"

definition marti_element :: "dest list \<Rightarrow> element" where
  "marti_element ds = foldl (\<lambda>m d. el_push (Elem (dest_to d)) m) (el_new (lit ''marti'')) ds"

subsection \<open>Reading and stripping agree\<close>

lemma take_marti_read: "fst (take_marti d) = read_marti d"
  using d_removed [of "lit ''marti''" d]
  by (cases "d_remove_all (lit ''marti'') d") (simp add: take_marti_def read_marti_def)

lemma snd_take_marti: "snd (take_marti d) = snd (d_remove_all (lit ''marti'') d)"
  by (cases "d_remove_all (lit ''marti'') d") (simp add: take_marti_def)

lemma take_marti_gone: "d_find_all (lit ''marti'') (snd (take_marti d)) = []"
  by (simp add: snd_take_marti d_find_all_remove)

lemma read_marti_taken [simp]: "read_marti (snd (take_marti d)) = []"
  by (simp add: read_marti_def take_marti_gone dests_of_def)

lemma take_marti_others:
  "n \<noteq> lit ''marti'' \<Longrightarrow> d_find_all n (snd (take_marti d)) = d_find_all n d"
  by (simp add: snd_take_marti d_find_all_remove_other)

lemma take_marti_nodes: "nodes (snd (take_marti d)) = filter (\<lambda>n. \<not> named (lit ''marti'') n) (nodes d)"
  by (simp add: snd_take_marti d_remove_all_def)

lemma dest_to_eq:
  "dest_to d = Element (lit ''dest'') (present
     [(lit ''callsign'', dest_callsign d), (lit ''publish'', dest_publish d), (lit ''uid'', dest_uid d),
      (lit ''mission'', dest_mission d), (lit ''mission-guid'', dest_mission_guid d),
      (lit ''path'', dest_path d), (lit ''after'', dest_after d), (lit ''group'', dest_group d)]) []"
proof -
  have "dest_to d = built (lit ''dest'')
     [(lit ''callsign'', dest_callsign d), (lit ''publish'', dest_publish d), (lit ''uid'', dest_uid d),
      (lit ''mission'', dest_mission d), (lit ''mission-guid'', dest_mission_guid d),
      (lit ''path'', dest_path d), (lit ''after'', dest_after d), (lit ''group'', dest_group d)]"
    by (simp add: dest_to_def chain_new chain_attr_opt del: present_Some present_None present_Nil)
  then show ?thesis by (simp add: built_def)
qed

lemma dest_from_to [simp]: "dest_from (dest_to d) = d"
  by (simp add: dest_from_def dest_to_eq el_get_Element map_of_present
      del: present_Some present_None present_Nil)

text \<open>A destination is kept when it names anything at all.\<close>

lemma dest_selects_to: "dest_selects (dest_to d) \<longleftrightarrow> d \<noteq> dest_default"
proof -
  have "dest_selects (dest_to d) \<longleftrightarrow> present
     [(lit ''callsign'', dest_callsign d), (lit ''publish'', dest_publish d), (lit ''uid'', dest_uid d),
      (lit ''mission'', dest_mission d), (lit ''mission-guid'', dest_mission_guid d),
      (lit ''path'', dest_path d), (lit ''after'', dest_after d), (lit ''group'', dest_group d)] \<noteq> []"
    (is "_ \<longleftrightarrow> present ?kvs \<noteq> []")
  proof -
    have "fst ` set (present ?kvs) \<subseteq> set ROUTING_ATTRS"
      using fst_present [of ?kvs] by (simp add: ROUTING_ATTRS_def del: present_Some present_None present_Nil)
    then have "\<forall>x \<in> set (present ?kvs). fst x \<in> set ROUTING_ATTRS" by blast
    then show ?thesis
      by (cases "present ?kvs") (auto simp: dest_selects_def dest_to_eq list_ex_iff case_prod_beta
          simp del: present_Some present_None present_Nil)
  qed
  also have "\<dots> \<longleftrightarrow> d \<noteq> dest_default"
    by (cases d) (auto simp: dest_default_def present_def split: option.splits)
  finally show ?thesis .
qed

lemma foldl_marti: "foldl (\<lambda>m d. el_push (Elem (dest_to d)) m) (Element n as cs) ds =
    Element n as (cs @ map (Elem \<circ> dest_to) ds)"
  by (induction ds arbitrary: cs) simp_all

lemma marti_element_eq: "marti_element ds = Element (lit ''marti'') [] (map (Elem \<circ> dest_to) ds)"
  by (simp add: marti_element_def el_new_def foldl_marti)

lemma dests_of_marti_element: "dests_of [marti_element ds] = filter (\<lambda>d. d \<noteq> dest_default) ds"
proof -
  have "elements_of (map (Elem \<circ> dest_to) ds) = map dest_to ds" by (induction ds) simp_all
  moreover have "el_name (dest_to d) = lit ''dest''" for d by (simp add: dest_to_eq)
  ultimately show ?thesis
    by (simp add: dests_of_def marti_element_eq el_elements_def filter_map comp_def dest_selects_to)
qed

end
