(* ===== verification/Flow_Tags.thy ===== *)
theory Flow_Tags
  imports Marti
begin

text \<open>
  The flow tag (\<open>rustak-cot/src/detail/flow_tags.rs\<close>): every message a server relays carries one
  attribute named after the server, and a message that already carries it is not relayed again.
\<close>

definition FLOW_TAGS :: ustr where
  "FLOW_TAGS = lit ''_flow-tags_''"

definition flow_tag_name :: "ustr \<Rightarrow> ustr" where
  "flow_tag_name server = lit ''TAK-Server-'' @ map (\<lambda>c. if is_name_char c then c else 45) server"

definition has_flow_tag :: "detail \<Rightarrow> ustr \<Rightarrow> bool" where
  "has_flow_tag d server \<longleftrightarrow>
     (if server = [] then False
      else list_ex (\<lambda>e. el_get (flow_tag_name server) e \<noteq> None) (d_find_all FLOW_TAGS d))"

definition add_flow_tag :: "clock_lib \<Rightarrow> ustr \<Rightarrow> cot_time \<Rightarrow> detail \<Rightarrow> detail" where
  "add_flow_tag K server now d =
     (if server = [] then d
      else let name = flow_tag_name server; v = time_string K now
           in if d_find FLOW_TAGS d \<noteq> None then d_update FLOW_TAGS (el_set name v) d
              else d_push (el_attr name v (el_new FLOW_TAGS)) d)"

definition remove_flow_tag :: "ustr \<Rightarrow> detail \<Rightarrow> detail" where
  "remove_flow_tag server d =
     (if server = [] then d
      else d_update_all FLOW_TAGS (\<lambda>e. snd (el_remove_attr (flow_tag_name server) e)) d)"

lemma remove_flow_tag_Nil [simp]: "remove_flow_tag [] d = d"
  by (simp add: remove_flow_tag_def)

section \<open>The tag's name\<close>

lemma flow_tag_name_is_name: "is_name (flow_tag_name server)"
proof -
  have "list_all is_name_char (map (\<lambda>c. if is_name_char c then c else 45) server)"
    by (induction server) simp_all
  then show ?thesis
    by (simp add: flow_tag_name_def lit_def is_name_char_def is_name_start_def in_range_def)
qed

text \<open>Two servers share a tag exactly when their ids differ only in characters a name cannot hold.\<close>

lemma flow_tag_name_eq:
  "flow_tag_name a = flow_tag_name b \<longleftrightarrow>
     map (\<lambda>c. if is_name_char c then c else 45) a = map (\<lambda>c. if is_name_char c then c else 45) b"
  by (simp add: flow_tag_name_def)

section \<open>Adding, testing, removing\<close>

lemma el_name_remove_attr [simp]: "el_name (snd (el_remove_attr k e)) = el_name e"
  by (cases e) simp

lemma has_flow_tag_iff:
  "has_flow_tag d server \<longleftrightarrow>
     server \<noteq> [] \<and> (\<exists>e \<in> set (d_find_all FLOW_TAGS d). el_get (flow_tag_name server) e \<noteq> None)"
  by (auto simp: has_flow_tag_def list_ex_iff)

lemma d_find_in_all: "d_find n d = Some e \<Longrightarrow> e \<in> set (d_find_all n d)"
  by (auto simp: d_find_hd split: list.splits)

lemma d_find_add:
  assumes "server \<noteq> []"
  shows "\<exists>e. d_find FLOW_TAGS (add_flow_tag K server now d) = Some e \<and>
    el_get (flow_tag_name server) e = Some (time_string K now)"
proof (cases "d_find FLOW_TAGS d")
  case None
  with assms show ?thesis
    by (simp add: add_flow_tag_def d_find_push Let_def el_attr_def)
next
  case (Some e)
  with assms show ?thesis
    by (simp add: add_flow_tag_def Let_def d_find_update_same)
qed

lemma has_add: "server \<noteq> [] \<Longrightarrow> has_flow_tag (add_flow_tag K server now d) server"
  using d_find_add [of server K now d] d_find_in_all
  by (fastforce simp: has_flow_tag_iff)

lemma find_all_update_first:
  "(\<And>x. P x \<Longrightarrow> P (f x)) \<Longrightarrow> filter P (update_first P f xs) =
     (case filter P xs of [] \<Rightarrow> [] | y # ys \<Rightarrow> f y # ys)"
  by (induction xs) auto

lemma d_find_all_add:
  "server \<noteq> [] \<Longrightarrow> d_find_all FLOW_TAGS (add_flow_tag K server now d) =
     (case d_find_all FLOW_TAGS d of
        [] \<Rightarrow> [el_set (flow_tag_name server) (time_string K now) (el_new FLOW_TAGS)]
      | e # es \<Rightarrow> el_set (flow_tag_name server) (time_string K now) e # es)"
proof (cases "d_find_all FLOW_TAGS d")
  case Nil
  assume "server \<noteq> []"
  with Nil show ?thesis
    by (simp add: add_flow_tag_def Let_def d_find_hd d_find_all_push el_attr_def)
next
  case (Cons e es)
  assume "server \<noteq> []"
  then have "add_flow_tag K server now d =
      d_update FLOW_TAGS (el_set (flow_tag_name server) (time_string K now)) d"
    using Cons by (simp add: add_flow_tag_def Let_def d_find_hd)
  with Cons show ?thesis
    by (simp add: d_find_all_def tree_simps find_all_update_first)
qed

text \<open>Adding one server's tag neither hides nor fakes another's.\<close>

lemma has_add_other:
  assumes "flow_tag_name other \<noteq> flow_tag_name server"
  shows "has_flow_tag (add_flow_tag K server now d) other \<longleftrightarrow> has_flow_tag d other"
proof (cases "server = []")
  case True
  then show ?thesis by (simp add: add_flow_tag_def)
next
  case False
  then show ?thesis
    using assms
    by (cases "d_find_all FLOW_TAGS d")
       (simp_all add: has_flow_tag_iff d_find_all_add el_get_Element el_new_def)
qed

lemma add_others: "n \<noteq> FLOW_TAGS \<Longrightarrow> d_find_all n (add_flow_tag K server now d) = d_find_all n d"
  by (simp add: add_flow_tag_def Let_def d_find_all_push d_find_all_update_other el_attr_def el_new_def)

lemma d_find_all_remove_tag:
  "server \<noteq> [] \<Longrightarrow> d_find_all FLOW_TAGS (remove_flow_tag server d) =
     map (\<lambda>e. snd (el_remove_attr (flow_tag_name server) e)) (d_find_all FLOW_TAGS d)"
proof -
  assume "server \<noteq> []"
  moreover have "filter (\<lambda>e. el_name e = n) (map (\<lambda>e. if el_name e = n then f e else e) xs) =
      map f (filter (\<lambda>e. el_name e = n) xs)" if "\<And>e. el_name (f e) = el_name e" for n f xs
    using that by (induction xs) auto
  ultimately show ?thesis
    by (simp add: remove_flow_tag_def d_find_all_def tree_simps)
qed

lemma has_remove [simp]: "\<not> has_flow_tag (remove_flow_tag server d) server"
  by (cases "server = []") (auto simp: has_flow_tag_iff d_find_all_remove_tag)

lemma has_remove_other:
  "flow_tag_name other \<noteq> flow_tag_name server \<Longrightarrow>
   has_flow_tag (remove_flow_tag server d) other \<longleftrightarrow> has_flow_tag d other"
  by (cases "server = []") (auto simp: has_flow_tag_iff d_find_all_remove_tag)

lemma remove_others: "n \<noteq> FLOW_TAGS \<Longrightarrow> d_find_all n (remove_flow_tag server d) = d_find_all n d"
proof -
  assume n: "n \<noteq> FLOW_TAGS"
  have "filter (\<lambda>e. el_name e = n) (map (\<lambda>e. if el_name e = m then f e else e) xs) =
      filter (\<lambda>e. el_name e = n) xs" if "\<And>e. el_name (f e) = el_name e" "n \<noteq> m" for m f xs
    using that by (induction xs) auto
  with n show ?thesis by (simp add: remove_flow_tag_def d_find_all_def tree_simps)
qed

section \<open>Properties\<close>

text \<open>The loop guard works end to end: after a server stamps a message it recognises it, whatever
  the message held before; stamping changes no other server's verdict and no other element; and
  removing the stamp undoes it for this server and for no other.\<close>

theorem flow_tag_guard:
  assumes "server \<noteq> []" and "flow_tag_name other \<noteq> flow_tag_name server" and "n \<noteq> FLOW_TAGS"
  shows "has_flow_tag (add_flow_tag K server now d) server \<and>
    has_flow_tag (add_flow_tag K server now d) other = has_flow_tag d other \<and>
    d_find_all n (add_flow_tag K server now d) = d_find_all n d \<and>
    \<not> has_flow_tag (remove_flow_tag server (add_flow_tag K server now d)) server \<and>
    has_flow_tag (remove_flow_tag server (add_flow_tag K server now d)) other = has_flow_tag d other \<and>
    is_name (flow_tag_name server)"
  using assms by (simp add: has_add has_add_other has_remove_other add_others flow_tag_name_is_name)

theorem flow_tag_guard_witness:
  "has_flow_tag (add_flow_tag no_clock (lit ''a b'') 5 detail_new) (lit ''a b'') \<and>
    has_flow_tag (add_flow_tag no_clock (lit ''a b'') 5 detail_new) (lit ''c'') = has_flow_tag detail_new (lit ''c'') \<and>
    d_find_all (lit ''marti'') (add_flow_tag no_clock (lit ''a b'') 5 detail_new) = d_find_all (lit ''marti'') detail_new \<and>
    \<not> has_flow_tag (remove_flow_tag (lit ''a b'') (add_flow_tag no_clock (lit ''a b'') 5 detail_new)) (lit ''a b'') \<and>
    has_flow_tag (remove_flow_tag (lit ''a b'') (add_flow_tag no_clock (lit ''a b'') 5 detail_new)) (lit ''c'') =
      has_flow_tag detail_new (lit ''c'') \<and>
    is_name (flow_tag_name (lit ''a b''))"
  by (rule flow_tag_guard) (simp_all add: flow_tag_name_def FLOW_TAGS_def lit_def)

end
