(* ===== verification/Msgs.thy ===== *)
theory Msgs
  imports Flow_Tags Mission_Detail
begin

text \<open>
  The control messages of a stream (\<open>rustak-cot/src/msgs.rs\<close>) and the protocol negotiation
  messages (\<open>rustak-cot/src/negotiate.rs\<close>).  The wall clock that \<open>Event::default\<close> reads is the
  argument \<open>clock\<close>; it never shows in a message, because every constructor sets the time.
\<close>

section \<open>Keepalives and notices\<close>

definition PONG_UID :: ustr where
  "PONG_UID = lit ''takPong''"

definition PING_SUFFIX :: ustr where
  "PING_SUFFIX = lit ''-ping''"

definition PING_VALIDITY :: nat where
  "PING_VALIDITY = 10000"

definition NOTICE_VALIDITY :: nat where
  "NOTICE_VALIDITY = 20000"

definition envelope :: "cot_time \<Rightarrow> ustr \<Rightarrow> ustr \<Rightarrow> ustr \<Rightarrow> cot_time \<Rightarrow> event" where
  "envelope clock ty uid how now =
     b_stale_after NOTICE_VALIDITY
       (b_time now (b_point_full point_zero (b_how how (event_builder clock ty uid))))"

definition ping :: "cot_time \<Rightarrow> ustr \<Rightarrow> cot_time \<Rightarrow> event" where
  "ping clock device_uid now =
     (let e = envelope clock PING (device_uid @ PING_SUFFIX) HOW_M_G now
      in e\<lparr>ev_stale := stale_after PING_VALIDITY (ev_start e)\<rparr>)"

definition pong :: "cot_time \<Rightarrow> cot_time \<Rightarrow> event" where
  "pong clock now = envelope clock PONG PONG_UID HOW_H_G_I_G_O now"

definition is_ping :: "event \<Rightarrow> bool" where
  "is_ping e \<longleftrightarrow> ev_type e = PING"

definition is_pong :: "event \<Rightarrow> bool" where
  "is_pong e \<longleftrightarrow> ev_type e = PONG"

definition disconnect :: "cot_time \<Rightarrow> ustr \<Rightarrow> ustr \<Rightarrow> ustr \<Rightarrow> cot_time \<Rightarrow> event" where
  "disconnect clock uid client_uid last_sa_type now =
     b_push (el_attr (lit ''type'') last_sa_type
              (el_attr (lit ''uid'') client_uid
                (el_attr (lit ''relation'') RELATION_P_P (el_new LINK))))
       (envelope clock DISCONNECT uid HOW_H_G_I_G_O now)"

definition group_change :: "cot_time \<Rightarrow> ustr \<Rightarrow> cot_time \<Rightarrow> event" where
  "group_change clock uid now =
     b_push (link_to bare_peer) (envelope clock GROUP_CHANGE uid HOW_H_G_I_G_O now)"

definition group_change_uid :: "ustr \<Rightarrow> ustr option \<Rightarrow> ustr" where
  "group_change_uid fresh client_uid =
     (case client_uid of Some c \<Rightarrow> fresh @ lit ''.'' @ c | None \<Rightarrow> fresh)"

definition incognito_toggle :: "event \<Rightarrow> bool option" where
  "incognito_toggle e =
     (if ev_type e = INCOGNITO_ON then Some True
      else if ev_type e = INCOGNITO_OFF then Some False else None)"

definition bounces_when_undeliverable :: "event \<Rightarrow> bool" where
  "bounces_when_undeliverable e \<longleftrightarrow> is_chat (ev_type e) \<and> ev_type e \<noteq> CHAT_FAILED"

definition chat_delivery_failure :: "event \<Rightarrow> ustr \<Rightarrow> event" where
  "chat_delivery_failure undelivered server =
     undelivered\<lparr>ev_type := CHAT_FAILED,
       ev_detail := remove_flow_tag server (snd (take_marti (ev_detail undelivered)))\<rparr>"

section \<open>Negotiation\<close>

definition PROTO_VERSION :: nat where
  "PROTO_VERSION = 1"

definition API_VERSION :: nat where
  "API_VERSION = 3"

definition NEGOTIATE_VALIDITY :: nat where
  "NEGOTIATE_VALIDITY = 60000"

text \<open>The pattern of \<open>999_999.0\<close>.\<close>

definition NEGOTIATE_POINT :: point where
  "NEGOTIATE_POINT = \<lparr>lat = 0, lon = 0, hae = 0, ce = 0x412E847E00000000, le = 0x412E847E00000000\<rparr>"

record announcement =
  an_versions :: "nat list"
  an_server_version :: "ustr option"
  an_api_version :: "nat option"

definition announce_supports :: "nat \<Rightarrow> announcement \<Rightarrow> bool" where
  "announce_supports version a \<longleftrightarrow> version \<in> set (an_versions a)"

definition negotiate_envelope :: "cot_time \<Rightarrow> ustr \<Rightarrow> ustr \<Rightarrow> cot_time \<Rightarrow> event" where
  "negotiate_envelope clock ty uid now =
     b_stale_after NEGOTIATE_VALIDITY
       (b_time now (b_point_full NEGOTIATE_POINT (b_how HOW_M_G (event_builder clock ty uid))))"

definition set_control :: "tak_control \<Rightarrow> event \<Rightarrow> event" where
  "set_control c e = e\<lparr>ev_detail := d_set TAKCONTROL takcontrol_to c (ev_detail e)\<rparr>"

definition get_control :: "event \<Rightarrow> tak_control option" where
  "get_control e = d_get TAKCONTROL takcontrol_from (ev_detail e)"

definition announce :: "cot_time \<Rightarrow> ustr \<Rightarrow> ustr \<Rightarrow> nat \<Rightarrow> cot_time \<Rightarrow> event" where
  "announce clock uid server_version api_version now =
     set_control (tc_announce PROTO_VERSION server_version api_version)
       (negotiate_envelope clock TAKP_V uid now)"

definition parse_announce :: "event \<Rightarrow> announcement option" where
  "parse_announce e =
     (if ev_type e \<noteq> TAKP_V then None
      else case get_control e of
             None \<Rightarrow> None
           | Some c \<Rightarrow> Some \<lparr>an_versions = tc_supported c, an_server_version = tc_server_version c,
               an_api_version = tc_api_version c\<rparr>)"

definition request :: "cot_time \<Rightarrow> ustr \<Rightarrow> nat \<Rightarrow> cot_time \<Rightarrow> event" where
  "request clock uid version now =
     set_control (tc_request_of version) (negotiate_envelope clock TAKP_Q uid now)"

definition parse_request :: "event \<Rightarrow> nat option" where
  "parse_request e = (if ev_type e \<noteq> TAKP_Q then None else Option.bind (get_control e) tc_request)"

definition response :: "cot_time \<Rightarrow> ustr \<Rightarrow> bool \<Rightarrow> cot_time \<Rightarrow> event" where
  "response clock uid accepted now =
     set_control (tc_response_of accepted) (negotiate_envelope clock TAKP_R uid now)"

definition parse_response :: "event \<Rightarrow> bool option" where
  "parse_response e = (if ev_type e \<noteq> TAKP_R then None else Option.bind (get_control e) tc_response)"

section \<open>The envelope\<close>

lemma envelope_fields [simp]:
  "is_i64 now \<Longrightarrow> ev_stale (envelope clock ty uid how now) = stale_after NOTICE_VALIDITY now"
  "ev_time (envelope clock ty uid how now) = now"
  "ev_start (envelope clock ty uid how now) = now"
  "ev_type (envelope clock ty uid how now) = ty"
  "ev_uid (envelope clock ty uid how now) = uid"
  "ev_detail (envelope clock ty uid how now) = detail_new"
  "ev_point (envelope clock ty uid how now) = point_zero"
  by (simp_all add: envelope_def builder_defs event_builder_def event_default_def Let_def)

lemma time_sub_same [simp]: "time_sub t t = 0"
  by (simp add: time_sub_def sat_i64_def i64_min_def i64_max_def)

text \<open>The clock never shows.\<close>

lemma envelope_clock: "envelope clock ty uid how now = envelope 0 ty uid how now"
  by (simp add: envelope_def builder_defs event_builder_def event_default_def Let_def)

lemma negotiate_envelope_fields [simp]:
  "ev_type (negotiate_envelope clock ty uid now) = ty"
  "ev_uid (negotiate_envelope clock ty uid now) = uid"
  "ev_detail (negotiate_envelope clock ty uid now) = detail_new"
  by (simp_all add: negotiate_envelope_def builder_defs event_builder_def event_default_def Let_def)

lemma set_control_fields [simp]: "ev_type (set_control c e) = ev_type e" "ev_uid (set_control c e) = ev_uid e"
  by (simp_all add: set_control_def)

lemma get_set_control [simp]: "takcontrol_ok c \<Longrightarrow> get_control (set_control c e) = Some c"
  by (simp add: get_control_def set_control_def takcontrol.get_set)

lemma takcontrol_ok_made [simp]:
  "version \<le> u32_max \<Longrightarrow> api \<le> u32_max \<Longrightarrow> takcontrol_ok (tc_announce version server api)"
  "version \<le> u32_max \<Longrightarrow> takcontrol_ok (tc_request_of version)"
  "takcontrol_ok (tc_response_of accepted)"
  by (simp_all add: takcontrol_ok_def tc_announce_def tc_request_of_def tc_response_of_def takcontrol_default_def)

lemma type_distinct [simp]: "TAKP_V \<noteq> TAKP_Q" "TAKP_Q \<noteq> TAKP_V" "TAKP_V \<noteq> TAKP_R" "TAKP_R \<noteq> TAKP_V"
  "TAKP_Q \<noteq> TAKP_R" "TAKP_R \<noteq> TAKP_Q" "INCOGNITO_ON \<noteq> INCOGNITO_OFF" "INCOGNITO_OFF \<noteq> INCOGNITO_ON"
  "PING \<noteq> PONG" "PONG \<noteq> PING"
  by (simp_all add: cot_type_defs)

lemma tc_request_sel:
  "PROTO_VERSION \<le> u32_max"
  "tc_request (tc_request_of version) = Some version" "tc_response (tc_response_of accepted) = Some accepted"
  "tc_supported (tc_announce version server api) = [version]"
  "tc_server_version (tc_announce version server api) = Some server"
  "tc_api_version (tc_announce version server api) = Some api"
  by (simp_all add: PROTO_VERSION_def tc_announce_def tc_request_of_def tc_response_of_def takcontrol_default_def)

lemma negotiation_reads [simp]:
  "version \<le> u32_max \<Longrightarrow> parse_request (request clock uid version now) = Some version"
  "parse_response (response clock uid accepted now) = Some accepted"
  "api \<le> u32_max \<Longrightarrow> parse_announce (announce clock uid server api now) =
     Some \<lparr>an_versions = [PROTO_VERSION], an_server_version = Some server, an_api_version = Some api\<rparr>"
  "ev_uid (announce clock uid server api now) = uid" "ev_uid (request clock uid version now) = uid"
  "ev_uid (response clock uid accepted now) = uid" "ev_type (announce clock uid server api now) = TAKP_V"
  "ev_type (request clock uid version now) = TAKP_Q" "ev_type (response clock uid accepted now) = TAKP_R"
  using takcontrol_ok_made(1) [of PROTO_VERSION api server]
  by (simp_all add: parse_announce_def parse_request_def parse_response_def announce_def request_def response_def
      tc_request_sel)

section \<open>Properties\<close>

text \<open>Each side of the protocol negotiation reads what the other wrote, through the detail tree:
  the offer's versions and server details, the requested version and the answer come back exactly,
  no message is mistaken for another, and all of them keep the uid the exchange is keyed on.\<close>

theorem negotiation_roundtrip:
  assumes "version \<le> u32_max" and "api \<le> u32_max"
  shows "parse_announce (announce clock uid server api now) =
      Some \<lparr>an_versions = [PROTO_VERSION], an_server_version = Some server, an_api_version = Some api\<rparr> \<and>
    parse_request (request clock uid version now) = Some version \<and>
    parse_response (response clock uid accepted now) = Some accepted \<and>
    parse_request (announce clock uid server api now) = None \<and>
    parse_response (request clock uid version now) = None \<and>
    parse_announce (response clock uid accepted now) = None \<and>
    ev_uid (announce clock uid server api now) = uid \<and> ev_uid (request clock uid version now) = uid \<and>
    ev_uid (response clock uid accepted now) = uid"
proof -
  have "PROTO_VERSION \<le> u32_max" by (simp add: PROTO_VERSION_def)
  with assms show ?thesis
    by (simp add: parse_announce_def parse_request_def parse_response_def announce_def request_def response_def)
       (simp add: tc_announce_def tc_request_of_def tc_response_of_def takcontrol_default_def)
qed

theorem negotiation_roundtrip_witness:
  "parse_announce (announce 0 (lit ''u'') (lit ''1.0'') 3 7) =
      Some \<lparr>an_versions = [PROTO_VERSION], an_server_version = Some (lit ''1.0''), an_api_version = Some 3\<rparr> \<and>
    parse_request (request 0 (lit ''u'') 1 7) = Some 1 \<and>
    parse_response (response 0 (lit ''u'') True 7) = Some True \<and>
    parse_request (announce 0 (lit ''u'') (lit ''1.0'') 3 7) = None \<and>
    parse_response (request 0 (lit ''u'') 1 7) = None \<and>
    parse_announce (response 0 (lit ''u'') True 7) = None \<and>
    ev_uid (announce 0 (lit ''u'') (lit ''1.0'') 3 7) = lit ''u'' \<and> ev_uid (request 0 (lit ''u'') 1 7) = lit ''u'' \<and>
    ev_uid (response 0 (lit ''u'') True 7) = lit ''u''"
  by (rule negotiation_roundtrip) simp_all

text \<open>A bounced chat cannot bounce again or loop: the copy handed back to the sender owes no
  bounce of its own, is still read as chat, carries no address list and no tag of this server, and
  keeps every other element and every other server's tag.\<close>

theorem chat_bounce_terminates:
  assumes "flow_tag_name other \<noteq> flow_tag_name server" and "n \<notin> {FLOW_TAGS, lit ''marti''}"
  shows "\<not> bounces_when_undeliverable (chat_delivery_failure e server) \<and>
    is_chat (ev_type (chat_delivery_failure e server)) \<and>
    read_marti (ev_detail (chat_delivery_failure e server)) = [] \<and>
    \<not> has_flow_tag (ev_detail (chat_delivery_failure e server)) server \<and>
    has_flow_tag (ev_detail (chat_delivery_failure e server)) other = has_flow_tag (ev_detail e) other \<and>
    d_find_all n (ev_detail (chat_delivery_failure e server)) = d_find_all n (ev_detail e) \<and>
    ev_uid (chat_delivery_failure e server) = ev_uid e"
proof -
  have "FLOW_TAGS \<noteq> lit ''marti''" by (simp add: FLOW_TAGS_def)
  with assms show ?thesis
    by (simp add: chat_delivery_failure_def bounces_when_undeliverable_def is_chat_def cot_type_defs
        read_marti_def remove_others take_marti_gone dests_of_def has_remove_other take_marti_others
        has_flow_tag_iff [of "snd (take_marti (ev_detail e))"] has_flow_tag_iff [of "ev_detail e"])
qed

theorem chat_bounce_terminates_witness:
  "\<not> bounces_when_undeliverable (chat_delivery_failure (event_builder 0 CHAT (lit ''u'')) (lit ''s'')) \<and>
    is_chat (ev_type (chat_delivery_failure (event_builder 0 CHAT (lit ''u'')) (lit ''s''))) \<and>
    read_marti (ev_detail (chat_delivery_failure (event_builder 0 CHAT (lit ''u'')) (lit ''s''))) = [] \<and>
    \<not> has_flow_tag (ev_detail (chat_delivery_failure (event_builder 0 CHAT (lit ''u'')) (lit ''s''))) (lit ''s'') \<and>
    has_flow_tag (ev_detail (chat_delivery_failure (event_builder 0 CHAT (lit ''u'')) (lit ''s''))) (lit ''o'') =
      has_flow_tag (ev_detail (event_builder 0 CHAT (lit ''u''))) (lit ''o'') \<and>
    d_find_all REMARKS (ev_detail (chat_delivery_failure (event_builder 0 CHAT (lit ''u'')) (lit ''s''))) =
      d_find_all REMARKS (ev_detail (event_builder 0 CHAT (lit ''u''))) \<and>
    ev_uid (chat_delivery_failure (event_builder 0 CHAT (lit ''u'')) (lit ''s'')) = ev_uid (event_builder 0 CHAT (lit ''u''))"
  by (rule chat_bounce_terminates) (simp_all add: flow_tag_name_def FLOW_TAGS_def REMARKS_def lit_def is_name_char_def
      is_name_start_def in_range_def)

end
