(* ===== verification/Group_Set.thy ===== *)
theory Group_Set
  imports Prelude
begin

text \<open>
  Channels and who may reach whom: directions and channel names
  (\<open>rustak-api/src/identity/group.rs\<close>), the two bit vectors of a principal's rights and the
  routing question (\<open>rustak-core/src/identity/groups.rs\<close>), and the principal they belong to
  (\<open>rustak-core/src/identity/principal.rs\<close>).  A bit vector is a list of \<open>GROUP_BITS\<close> booleans; the
  byte packing is the \<open>bitvec\<close> crate's and a parameter.
\<close>

section \<open>Directions and names\<close>

datatype direction = In | Out | Both

definition dir_includes :: "direction \<Rightarrow> direction \<Rightarrow> bool" where
  "dir_includes d other \<longleftrightarrow> d = Both \<or> d = other"

fun dir_expand :: "direction \<Rightarrow> direction list" where
  "dir_expand In = [In]"
| "dir_expand Out = [Out]"
| "dir_expand Both = [In, Out]"

fun dir_str :: "direction \<Rightarrow> ustr" where
  "dir_str In = lit ''IN''"
| "dir_str Out = lit ''OUT''"
| "dir_str Both = lit ''BOTH''"

definition ascii_upper :: "uchar \<Rightarrow> uchar" where
  "ascii_upper c = (if 97 \<le> c \<and> c \<le> 122 then c - 32 else c)"

definition dir_parse :: "ustr \<Rightarrow> direction option" where
  "dir_parse value =
     (let v = map ascii_upper (trim value)
      in if v = lit ''IN'' then Some In
         else if v = lit ''OUT'' then Some Out
         else if v = lit ''BOTH'' then Some Both else None)"

lemma dir_parse_str [simp]: "dir_parse (dir_str d) = Some d"
  by (cases d) (simp_all add: dir_parse_def trim_id is_whitespace_def lit_def ascii_upper_def)

definition MAX_LENGTH :: nat where
  "MAX_LENGTH = 128"

definition FORBIDDEN :: "uchar list" where
  "FORBIDDEN = lit ''<>&\"'' @ [39, 92] @ lit '',=/;''"

definition is_control_char :: "uchar \<Rightarrow> bool" where
  "is_control_char c \<longleftrightarrow> c \<le> 0x1F \<or> (0x7F \<le> c \<and> c \<le> 0x9F)"

datatype group_name_error = NameEmpty | TooLong nat nat | IllegalCharacter uchar

definition ANON :: ustr where
  "ANON = lit ''__ANON__''"

definition group_name_parse :: "ustr \<Rightarrow> group_name_error + ustr" where
  "group_name_parse text =
     (let trimmed = trim text
      in if trimmed = [] then Inl NameEmpty
         else let len = length trimmed
         in if MAX_LENGTH < len then Inl (TooLong len MAX_LENGTH)
            else case List.find (\<lambda>c. is_control_char c \<or> c \<in> set FORBIDDEN) trimmed of
                   Some c \<Rightarrow> Inl (IllegalCharacter c)
                 | None \<Rightarrow> Inr trimmed)"

definition is_anon :: "ustr \<Rightarrow> bool" where
  "is_anon n \<longleftrightarrow> n = ANON"

section \<open>Rights\<close>

definition GROUP_BITS :: nat where
  "GROUP_BITS = 256"

definition ANON_BITPOS :: nat where
  "ANON_BITPOS = 1"

definition GROUP_SET_BYTES :: nat where
  "GROUP_SET_BYTES = GROUP_BITS div 8 * 2"

record group_set =
  bits_in :: "bool list"
  bits_out :: "bool list"

definition gs_new :: group_set where
  "gs_new = \<lparr>bits_in = replicate GROUP_BITS False, bits_out = replicate GROUP_BITS False\<rparr>"

definition gs_index :: "nat \<Rightarrow> nat option" where
  "gs_index bitpos = (if bitpos \<noteq> 0 \<and> bitpos < GROUP_BITS then Some bitpos else None)"

definition gs_put :: "bool \<Rightarrow> nat \<Rightarrow> direction \<Rightarrow> group_set \<Rightarrow> group_set" where
  "gs_put v index d s =
     (let s1 = (if dir_includes d In then s\<lparr>bits_in := (bits_in s)[index := v]\<rparr> else s)
      in if dir_includes d Out then s1\<lparr>bits_out := (bits_out s1)[index := v]\<rparr> else s1)"

definition gs_set :: "nat \<Rightarrow> direction \<Rightarrow> group_set \<Rightarrow> group_set" where
  "gs_set bitpos d s = (case gs_index bitpos of None \<Rightarrow> s | Some index \<Rightarrow> gs_put True index d s)"

definition gs_clear :: "nat \<Rightarrow> direction \<Rightarrow> group_set \<Rightarrow> group_set" where
  "gs_clear bitpos d s = (case gs_index bitpos of None \<Rightarrow> s | Some index \<Rightarrow> gs_put False index d s)"

definition gs_contains :: "nat \<Rightarrow> direction \<Rightarrow> group_set \<Rightarrow> bool" where
  "gs_contains bitpos d s =
     (case gs_index bitpos of
        None \<Rightarrow> False
      | Some index \<Rightarrow>
          let granted_in = (\<not> dir_includes d In \<or> bits_in s ! index);
              granted_out = (\<not> dir_includes d Out \<or> bits_out s ! index)
          in granted_in \<and> granted_out)"

definition gs_is_empty :: "group_set \<Rightarrow> bool" where
  "gs_is_empty s \<longleftrightarrow> True \<notin> set (bits_in s) \<and> True \<notin> set (bits_out s)"

definition iter_ones :: "bool list \<Rightarrow> nat list" where
  "iter_ones bs = filter (\<lambda>i. bs ! i) [0..<length bs]"

definition gs_positions :: "direction \<Rightarrow> group_set \<Rightarrow> nat list" where
  "gs_positions d s =
     (let bits = (case d of Out \<Rightarrow> bits_out s | _ \<Rightarrow> bits_in s)
      in filter (\<lambda>i. d \<noteq> Both \<or> bits_out s ! i) (iter_ones bits))"

definition gs_intersect :: "group_set \<Rightarrow> group_set \<Rightarrow> group_set" where
  "gs_intersect other s =
     foldl (\<lambda>s index.
        let s1 = s\<lparr>bits_in := (bits_in s)[index := bits_in s ! index \<and> bits_in other ! index]\<rparr>
        in s1\<lparr>bits_out := (bits_out s1)[index := bits_out s1 ! index \<and> bits_out other ! index]\<rparr>)
       s [0..<GROUP_BITS]"

definition can_reach :: "group_set \<Rightarrow> group_set \<Rightarrow> bool" where
  "can_reach sender receiver \<longleftrightarrow> list_ex (\<lambda>index. bits_out receiver ! index) (iter_ones (bits_in sender))"

text \<open>The crate's packing of a bit vector into bytes and back.\<close>

record bit_lib =
  into_vec :: "bool list \<Rightarrow> bytes"
  from_slice :: "bytes \<Rightarrow> bool list"

definition bits_ok :: "bit_lib \<Rightarrow> bool" where
  "bits_ok B \<longleftrightarrow>
     (\<forall>bs. 8 dvd length bs \<longrightarrow> length (into_vec B bs) = length bs div 8 \<and> from_slice B (into_vec B bs) = bs) \<and>
     (\<forall>bytes. length (from_slice B bytes) = 8 * length bytes \<and> into_vec B (from_slice B bytes) = bytes)"

definition gs_to_bytes :: "bit_lib \<Rightarrow> group_set \<Rightarrow> bytes" where
  "gs_to_bytes B s = into_vec B (bits_in s) @ into_vec B (bits_out s)"

text \<open>The error is its kind, the length found and the length expected.\<close>

datatype stored_error = WrongLength nat nat

definition gs_from_bytes :: "bit_lib \<Rightarrow> bytes \<Rightarrow> stored_error + group_set" where
  "gs_from_bytes B bs =
     (if length bs \<noteq> GROUP_SET_BYTES then Inl (WrongLength (length bs) GROUP_SET_BYTES)
      else Inr \<lparr>bits_in = from_slice B (take (GROUP_BITS div 8) bs),
                bits_out = from_slice B (drop (GROUP_BITS div 8) bs)\<rparr>)"

text \<open>The two hash maps of the index.\<close>

record group_index =
  by_bitpos :: "nat \<rightharpoonup> ustr"
  by_name :: "ustr \<rightharpoonup> nat"

definition gi_new :: group_index where
  "gi_new = \<lparr>by_bitpos = Map.empty, by_name = Map.empty\<rparr>"

definition gi_insert :: "nat \<Rightarrow> ustr \<Rightarrow> group_index \<Rightarrow> group_index" where
  "gi_insert bitpos name ix =
     ix\<lparr>by_name := (by_name ix)(name \<mapsto> bitpos), by_bitpos := (by_bitpos ix)(bitpos \<mapsto> name)\<rparr>"

definition gi_from_iter :: "(nat \<times> ustr) list \<Rightarrow> group_index" where
  "gi_from_iter entries = foldl (\<lambda>ix (bitpos, name). gi_insert bitpos name ix) gi_new entries"

definition gi_name :: "nat \<Rightarrow> group_index \<Rightarrow> ustr option" where
  "gi_name bitpos ix = by_bitpos ix bitpos"

definition gi_bitpos :: "ustr \<Rightarrow> group_index \<Rightarrow> nat option" where
  "gi_bitpos name ix = by_name ix name"

definition gs_names :: "group_index \<Rightarrow> direction \<Rightarrow> group_set \<Rightarrow> ustr list" where
  "gs_names ix d s = List.map_filter (\<lambda>bitpos. gi_name bitpos ix) (gs_positions d s)"

text \<open>The packing that puts the first bit in a byte's high position keeps the promise.\<close>

definition pack8 :: "bool \<Rightarrow> bool \<Rightarrow> bool \<Rightarrow> bool \<Rightarrow> bool \<Rightarrow> bool \<Rightarrow> bool \<Rightarrow> bool \<Rightarrow> byte" where
  "pack8 b7 b6 b5 b4 b3 b2 b1 b0 =
     push_bit 7 (of_bool b7) OR push_bit 6 (of_bool b6) OR push_bit 5 (of_bool b5) OR push_bit 4 (of_bool b4) OR
     push_bit 3 (of_bool b3) OR push_bit 2 (of_bool b2) OR push_bit 1 (of_bool b1) OR of_bool b0"

fun msb_pack :: "bool list \<Rightarrow> bytes" where
  "msb_pack (b7 # b6 # b5 # b4 # b3 # b2 # b1 # b0 # rest) = pack8 b7 b6 b5 b4 b3 b2 b1 b0 # msb_pack rest"
| "msb_pack _ = []"

definition msb_bits :: "byte \<Rightarrow> bool list" where
  "msb_bits w = [bit w 7, bit w 6, bit w 5, bit w 4, bit w 3, bit w 2, bit w 1, bit w 0]"

definition msb_lib :: bit_lib where
  "msb_lib = \<lparr>into_vec = msb_pack, from_slice = (\<lambda>bs. concat (map msb_bits bs))\<rparr>"

lemma msb_bits_pack8: "msb_bits (pack8 b7 b6 b5 b4 b3 b2 b1 b0) = [b7, b6, b5, b4, b3, b2, b1, b0]"
  by (simp add: msb_bits_def pack8_def bit_or_iff bit_push_bit_iff bit_of_bool_iff)

lemma pack8_bits: "pack8 (bit w 7) (bit w 6) (bit w 5) (bit w 4) (bit w 3) (bit w 2) (bit w 1) (bit w 0) = w"
proof (rule bit_word_eqI)
  fix n assume "n < LENGTH(8)"
  then have "n = 0 \<or> n = 1 \<or> n = 2 \<or> n = 3 \<or> n = 4 \<or> n = 5 \<or> n = 6 \<or> n = 7" by auto
  then show "bit (pack8 (bit w 7) (bit w 6) (bit w 5) (bit w 4) (bit w 3) (bit w 2) (bit w 1) (bit w 0)) n = bit w n"
    by (elim disjE) (simp_all add: pack8_def bit_or_iff bit_push_bit_iff bit_of_bool_iff)
qed

lemma msb_pack_back: "length bs = 8 * n \<Longrightarrow>
    length (msb_pack bs) = n \<and> concat (map msb_bits (msb_pack bs)) = bs"
proof (induction n arbitrary: bs)
  case (Suc n)
  then have "8 \<le> length bs" by simp
  then obtain b7 b6 b5 b4 b3 b2 b1 b0 rest where bs: "bs = b7 # b6 # b5 # b4 # b3 # b2 # b1 # b0 # rest"
    by (auto simp: numeral_eq_Suc Suc_le_length_iff)
  with Suc.prems have "length rest = 8 * n" by simp
  from Suc.IH [OF this] show ?case by (simp add: bs msb_bits_pack8)
qed simp

lemma bits_ok_msb: "bits_ok msb_lib"
proof -
  have "msb_pack (concat (map msb_bits bs)) = bs" for bs
    by (induction bs) (simp_all add: msb_bits_def pack8_bits [simplified])
  moreover have "length (concat (map msb_bits bs)) = 8 * length bs" for bs
    by (induction bs) (simp_all add: msb_bits_def)
  moreover have "length (msb_pack bs) = length bs div 8 \<and> concat (map msb_bits (msb_pack bs)) = bs"
    if "8 dvd length bs" for bs
    using that msb_pack_back [of bs "length bs div 8"] by simp
  ultimately show ?thesis by (simp add: bits_ok_def msb_lib_def)
qed

section \<open>Principals\<close>

datatype principal_kind = Person | Service

datatype credential_kind = EnrollmentToken | ClientPassword | ServiceToken

datatype auth_method =
    ClientCert ustr ustr
  | Bearer ustr ustr
  | Basic ustr credential_kind
  | Passkey ustr
  | SetupToken
  | Workload ustr ustr

fun auth_label :: "auth_method \<Rightarrow> ustr" where
  "auth_label (ClientCert _ _) = lit ''client-cert''"
| "auth_label (Bearer _ _) = lit ''bearer''"
| "auth_label (Basic _ _) = lit ''basic''"
| "auth_label (Passkey _) = lit ''passkey''"
| "auth_label SetupToken = lit ''setup-token''"
| "auth_label (Workload _ _) = lit ''workload''"

record principal =
  pr_user_id :: ustr
  pr_username :: ustr
  pr_kind :: principal_kind
  pr_device :: "ustr option"
  pr_groups :: group_set
  pr_is_admin :: bool
  pr_via :: auth_method

definition principal_new :: "ustr \<Rightarrow> ustr \<Rightarrow> principal_kind \<Rightarrow> auth_method \<Rightarrow> principal" where
  "principal_new user_id username kind via =
     \<lparr>pr_user_id = user_id, pr_username = username, pr_kind = kind, pr_device = None,
      pr_groups = gs_new, pr_is_admin = False, pr_via = via\<rparr>"

definition with_device :: "ustr \<Rightarrow> principal \<Rightarrow> principal" where
  "with_device d p = p\<lparr>pr_device := Some d\<rparr>"

definition with_groups :: "group_set \<Rightarrow> principal \<Rightarrow> principal" where
  "with_groups g p = p\<lparr>pr_groups := g\<rparr>"

definition as_admin :: "principal \<Rightarrow> principal" where
  "as_admin p = p\<lparr>pr_is_admin := True\<rparr>"

definition is_service :: "principal \<Rightarrow> bool" where
  "is_service p \<longleftrightarrow> pr_kind p = Service"

definition principal_can_reach :: "principal \<Rightarrow> principal \<Rightarrow> bool" where
  "principal_can_reach p receiver = can_reach (pr_groups p) (pr_groups receiver)"

definition has_group :: "nat \<Rightarrow> direction \<Rightarrow> principal \<Rightarrow> bool" where
  "has_group bitpos d p = gs_contains bitpos d (pr_groups p)"

section \<open>What a group set stands for\<close>

text \<open>Two sets of positions; every operation of the code is the set operation of its name.\<close>

definition gs_ok :: "group_set \<Rightarrow> bool" where
  "gs_ok s \<longleftrightarrow> length (bits_in s) = GROUP_BITS \<and> length (bits_out s) = GROUP_BITS \<and>
     \<not> bits_in s ! 0 \<and> \<not> bits_out s ! 0"

definition grants_in :: "group_set \<Rightarrow> nat set" where
  "grants_in s = {i. i < GROUP_BITS \<and> bits_in s ! i}"

definition grants_out :: "group_set \<Rightarrow> nat set" where
  "grants_out s = {i. i < GROUP_BITS \<and> bits_out s ! i}"

definition valid_pos :: "nat \<Rightarrow> bool" where
  "valid_pos p \<longleftrightarrow> 0 < p \<and> p < GROUP_BITS"

lemma gs_index_eq: "gs_index p = (if valid_pos p then Some p else None)"
  by (simp add: gs_index_def valid_pos_def)

lemma gs_new_ok [simp]: "gs_ok gs_new"
  by (simp add: gs_ok_def gs_new_def GROUP_BITS_def)

lemma gs_new_grants [simp]: "grants_in gs_new = {}" "grants_out gs_new = {}"
  by (simp_all add: grants_in_def grants_out_def gs_new_def)

lemma gs_put_ok: "gs_ok s \<Longrightarrow> valid_pos p \<Longrightarrow> gs_ok (gs_put v p d s)"
  by (auto simp: gs_ok_def gs_put_def valid_pos_def Let_def)

lemma gs_put_grants:
  "gs_ok s \<Longrightarrow> valid_pos p \<Longrightarrow> grants_in (gs_put v p d s) =
     (if dir_includes d In then if v then insert p (grants_in s) else grants_in s - {p} else grants_in s)"
  "gs_ok s \<Longrightarrow> valid_pos p \<Longrightarrow> grants_out (gs_put v p d s) =
     (if dir_includes d Out then if v then insert p (grants_out s) else grants_out s - {p} else grants_out s)"
  by (auto simp: gs_put_def grants_in_def grants_out_def gs_ok_def valid_pos_def Let_def nth_list_update)

lemma gs_set_ok [simp]: "gs_ok s \<Longrightarrow> gs_ok (gs_set p d s)"
  by (simp add: gs_set_def gs_index_eq gs_put_ok)

lemma gs_clear_ok [simp]: "gs_ok s \<Longrightarrow> gs_ok (gs_clear p d s)"
  by (simp add: gs_clear_def gs_index_eq gs_put_ok)

lemma gs_set_grants:
  "gs_ok s \<Longrightarrow> grants_in (gs_set p d s) =
     grants_in s \<union> (if valid_pos p \<and> dir_includes d In then {p} else {})"
  "gs_ok s \<Longrightarrow> grants_out (gs_set p d s) =
     grants_out s \<union> (if valid_pos p \<and> dir_includes d Out then {p} else {})"
  by (auto simp: gs_set_def gs_index_eq gs_put_grants)

lemma gs_clear_grants:
  "gs_ok s \<Longrightarrow> grants_in (gs_clear p d s) =
     grants_in s - (if valid_pos p \<and> dir_includes d In then {p} else {})"
  "gs_ok s \<Longrightarrow> grants_out (gs_clear p d s) =
     grants_out s - (if valid_pos p \<and> dir_includes d Out then {p} else {})"
  by (auto simp: gs_clear_def gs_index_eq gs_put_grants)

lemma gs_contains_iff:
  "gs_ok s \<Longrightarrow> gs_contains p d s \<longleftrightarrow> valid_pos p \<and>
     (dir_includes d In \<longrightarrow> p \<in> grants_in s) \<and> (dir_includes d Out \<longrightarrow> p \<in> grants_out s)"
  by (auto simp: gs_contains_def gs_index_eq grants_in_def grants_out_def valid_pos_def Let_def)

lemma intersect_fold:
  "length (bits_in s) = GROUP_BITS \<Longrightarrow> length (bits_out s) = GROUP_BITS \<Longrightarrow> n \<le> GROUP_BITS \<Longrightarrow>
   foldl (\<lambda>s index.
        let s1 = s\<lparr>bits_in := (bits_in s)[index := bits_in s ! index \<and> bits_in other ! index]\<rparr>
        in s1\<lparr>bits_out := (bits_out s1)[index := bits_out s1 ! index \<and> bits_out other ! index]\<rparr>)
      s [0..<n] =
   \<lparr>bits_in = map (\<lambda>i. bits_in s ! i \<and> (i < n \<longrightarrow> bits_in other ! i)) [0..<GROUP_BITS],
    bits_out = map (\<lambda>i. bits_out s ! i \<and> (i < n \<longrightarrow> bits_out other ! i)) [0..<GROUP_BITS]\<rparr>"
proof (induction n)
  case 0
  then have "map ((!) (bits_in s)) [0..<GROUP_BITS] = bits_in s"
    "map ((!) (bits_out s)) [0..<GROUP_BITS] = bits_out s"
    by (metis map_nth)+
  then show ?case by simp
next
  case (Suc n)
  then show ?case
    by (auto simp: Let_def nth_list_update less_Suc_eq intro!: nth_equalityI split: if_splits)
qed

lemma gs_intersect_eq:
  "gs_ok s \<Longrightarrow> gs_intersect other s =
   \<lparr>bits_in = map (\<lambda>i. bits_in s ! i \<and> bits_in other ! i) [0..<GROUP_BITS],
    bits_out = map (\<lambda>i. bits_out s ! i \<and> bits_out other ! i) [0..<GROUP_BITS]\<rparr>"
  unfolding gs_intersect_def by (subst intersect_fold) (auto simp: gs_ok_def)

lemma gs_intersect_ok [simp]: "gs_ok s \<Longrightarrow> gs_ok (gs_intersect other s)"
  by (auto simp: gs_intersect_eq gs_ok_def GROUP_BITS_def)

lemma gs_intersect_grants:
  "gs_ok s \<Longrightarrow> grants_in (gs_intersect other s) = grants_in s \<inter> grants_in other"
  "gs_ok s \<Longrightarrow> grants_out (gs_intersect other s) = grants_out s \<inter> grants_out other"
  by (auto simp: gs_intersect_eq grants_in_def grants_out_def)

lemma set_iter_ones: "set (iter_ones bs) = {i. i < length bs \<and> bs ! i}"
  by (auto simp: iter_ones_def)

lemma can_reach_iff: "gs_ok a \<Longrightarrow> gs_ok b \<Longrightarrow> can_reach a b \<longleftrightarrow> grants_in a \<inter> grants_out b \<noteq> {}"
  by (auto simp: can_reach_def list_ex_iff set_iter_ones grants_in_def grants_out_def gs_ok_def)

lemma gs_positions_set:
  "gs_ok s \<Longrightarrow> set (gs_positions d s) =
     (case d of In \<Rightarrow> grants_in s | Out \<Rightarrow> grants_out s | Both \<Rightarrow> grants_in s \<inter> grants_out s)"
  by (cases d) (auto simp: gs_positions_def set_iter_ones grants_in_def grants_out_def gs_ok_def)

lemma gs_positions_sorted: "sorted (gs_positions d s) \<and> distinct (gs_positions d s)"
proof -
  have "sorted (iter_ones bs) \<and> distinct (iter_ones bs)" for bs
    unfolding iter_ones_def by (simp add: sorted_wrt_filter)
  then show ?thesis
    by (cases d) (simp_all add: gs_positions_def sorted_wrt_filter)
qed

lemma grants_valid: "gs_ok s \<Longrightarrow> i \<in> grants_in s \<union> grants_out s \<Longrightarrow> valid_pos i"
  by (cases i) (auto simp: gs_ok_def grants_in_def grants_out_def valid_pos_def)

section \<open>Properties\<close>

text \<open>C40: a group set is exactly the pair of sets its operations say it is: granting, revoking and
  intersecting are union, difference and intersection per direction, a position outside 1..255
  changes nothing, and the structure's widths and its unused bit 0 are preserved.\<close>

theorem group_set_refines:
  assumes "gs_ok s" and "gs_ok other"
  shows "gs_ok (gs_set p d s) \<and> gs_ok (gs_clear p d s) \<and> gs_ok (gs_intersect other s) \<and>
    grants_in (gs_set p d s) = grants_in s \<union> (if valid_pos p \<and> dir_includes d In then {p} else {}) \<and>
    grants_out (gs_set p d s) = grants_out s \<union> (if valid_pos p \<and> dir_includes d Out then {p} else {}) \<and>
    grants_in (gs_clear p d s) = grants_in s - (if valid_pos p \<and> dir_includes d In then {p} else {}) \<and>
    grants_out (gs_clear p d s) = grants_out s - (if valid_pos p \<and> dir_includes d Out then {p} else {}) \<and>
    grants_in (gs_intersect other s) = grants_in s \<inter> grants_in other \<and>
    grants_out (gs_intersect other s) = grants_out s \<inter> grants_out other"
  using assms by (simp add: gs_set_grants gs_clear_grants gs_intersect_grants)

theorem group_set_refines_witness:
  "gs_ok (gs_set 7 Both gs_new) \<and> gs_ok (gs_clear 7 Both gs_new) \<and> gs_ok (gs_intersect (gs_set 3 In gs_new) gs_new) \<and>
    grants_in (gs_set 7 Both gs_new) = grants_in gs_new \<union> (if valid_pos 7 \<and> dir_includes Both In then {7} else {}) \<and>
    grants_out (gs_set 7 Both gs_new) = grants_out gs_new \<union> (if valid_pos 7 \<and> dir_includes Both Out then {7} else {}) \<and>
    grants_in (gs_clear 7 Both gs_new) = grants_in gs_new - (if valid_pos 7 \<and> dir_includes Both In then {7} else {}) \<and>
    grants_out (gs_clear 7 Both gs_new) = grants_out gs_new - (if valid_pos 7 \<and> dir_includes Both Out then {7} else {}) \<and>
    grants_in (gs_intersect (gs_set 3 In gs_new) gs_new) = grants_in gs_new \<inter> grants_in (gs_set 3 In gs_new) \<and>
    grants_out (gs_intersect (gs_set 3 In gs_new) gs_new) = grants_out gs_new \<inter> grants_out (gs_set 3 In gs_new)"
  by (rule group_set_refines) simp_all

text \<open>C7: the routing question is answered as documented: a sender reaches a receiver exactly when
  some channel both lets the sender publish and lets the receiver read, and narrowing either side's
  rights never makes a new pair reachable.\<close>

theorem can_reach_is_overlap:
  assumes "gs_ok a" and "gs_ok b" and "gs_ok c"
  shows "(can_reach a b \<longleftrightarrow> (\<exists>p. valid_pos p \<and> gs_contains p In a \<and> gs_contains p Out b)) \<and>
    (can_reach (gs_intersect c a) b \<longrightarrow> can_reach a b) \<and>
    (can_reach a (gs_intersect c b) \<longrightarrow> can_reach a b)"
proof -
  have "can_reach a b \<longleftrightarrow> (\<exists>p. valid_pos p \<and> gs_contains p In a \<and> gs_contains p Out b)"
    using assms grants_valid [OF assms(1)]
    by (auto simp: can_reach_iff gs_contains_iff dir_includes_def)
  with assms show ?thesis by (auto simp: can_reach_iff gs_intersect_grants)
qed

theorem can_reach_is_overlap_witness:
  "can_reach (gs_set 7 In gs_new) (gs_set 7 Out gs_new) \<and>
    (\<exists>p. valid_pos p \<and> gs_contains p In (gs_set 7 In gs_new) \<and> gs_contains p Out (gs_set 7 Out gs_new)) \<and>
    \<not> can_reach (gs_set 7 Out gs_new) (gs_set 7 Out gs_new)"
proof -
  have "can_reach (gs_set 7 In gs_new) (gs_set 7 Out gs_new)" "\<not> can_reach (gs_set 7 Out gs_new) (gs_set 7 Out gs_new)"
    by (simp_all add: can_reach_iff gs_set_grants dir_includes_def valid_pos_def GROUP_BITS_def)
  with can_reach_is_overlap [OF gs_set_ok [OF gs_new_ok] gs_set_ok [OF gs_new_ok] gs_new_ok, of 7 In 7 Out] show ?thesis
    by simp
qed

text \<open>Stored rights are read back as the rights that were stored, and a stored value of any other
  length is refused instead of being read as different rights.\<close>

theorem group_set_bytes_roundtrip:
  assumes "bits_ok B" and "gs_ok s"
  shows "length (gs_to_bytes B s) = GROUP_SET_BYTES \<and> gs_from_bytes B (gs_to_bytes B s) = Inr s \<and>
    (length bs \<noteq> GROUP_SET_BYTES \<longrightarrow> gs_from_bytes B bs = Inl (WrongLength (length bs) GROUP_SET_BYTES)) \<and>
    (length bs = GROUP_SET_BYTES \<longrightarrow> (\<exists>t. gs_from_bytes B bs = Inr t \<and> gs_to_bytes B t = bs))"
proof -
  from assms have len: "length (into_vec B (bits_in s)) = 32" "length (into_vec B (bits_out s)) = 32"
    and read: "from_slice B (into_vec B (bits_in s)) = bits_in s" "from_slice B (into_vec B (bits_out s)) = bits_out s"
    by (simp_all add: bits_ok_def gs_ok_def GROUP_BITS_def)
  from assms(1) have "into_vec B (from_slice B x) = x" for x by (simp add: bits_ok_def)
  with len read show ?thesis
    by (simp add: gs_to_bytes_def gs_from_bytes_def GROUP_SET_BYTES_def GROUP_BITS_def)
qed

theorem group_set_bytes_roundtrip_witness:
  "length (gs_to_bytes msb_lib (gs_set 9 Both gs_new)) = GROUP_SET_BYTES \<and>
    gs_from_bytes msb_lib (gs_to_bytes msb_lib (gs_set 9 Both gs_new)) = Inr (gs_set 9 Both gs_new) \<and>
    gs_from_bytes msb_lib [1, 2] = Inl (WrongLength 2 GROUP_SET_BYTES)"
  using group_set_bytes_roundtrip [of msb_lib "gs_set 9 Both gs_new" "[1, 2]"] bits_ok_msb
  by (simp add: GROUP_SET_BYTES_def GROUP_BITS_def)

end
