(* ===== verification/Liveness.thy ===== *)
theory Liveness
  imports Prelude
begin

text \<open>
  Why a connection ended and when it was last used
  (\<open>rustak-server/src/stream/liveness.rs\<close>).  An \<open>Instant\<close> is its nanoseconds; each method that
  reads the clock takes it as an argument.  The atomics are plain fields: every operation is one
  atomic step, so an interleaving is an order of calls.
\<close>

section \<open>Causes\<close>

datatype leave_reason =
    ClientClosed | Idle | ReadError | WriteTimeout | WriteError | SlowConsumer | Revoked
  | AccountDisabled | Administrator | Shutdown | PeerTimeout | ClientVanished

definition ALL_REASONS :: "leave_reason list" where
  "ALL_REASONS =
     [ClientClosed, Idle, ReadError, WriteTimeout, WriteError, SlowConsumer, Revoked,
      AccountDisabled, Administrator, Shutdown, PeerTimeout, ClientVanished]"

fun reason_str :: "leave_reason \<Rightarrow> ustr" where
  "reason_str ClientClosed = lit ''client_closed''"
| "reason_str Idle = lit ''idle''"
| "reason_str ReadError = lit ''read_error''"
| "reason_str WriteTimeout = lit ''write_timeout''"
| "reason_str WriteError = lit ''write_error''"
| "reason_str SlowConsumer = lit ''slow_consumer''"
| "reason_str Revoked = lit ''revoked''"
| "reason_str AccountDisabled = lit ''account_disabled''"
| "reason_str Administrator = lit ''administrator''"
| "reason_str Shutdown = lit ''shutdown''"
| "reason_str PeerTimeout = lit ''peer_timeout''"
| "reason_str ClientVanished = lit ''client_vanished''"

text \<open>The discriminants of the enum.\<close>

fun reason_code :: "leave_reason \<Rightarrow> nat" where
  "reason_code ClientClosed = 1"
| "reason_code Idle = 2"
| "reason_code ReadError = 3"
| "reason_code WriteTimeout = 4"
| "reason_code WriteError = 5"
| "reason_code SlowConsumer = 6"
| "reason_code Revoked = 7"
| "reason_code AccountDisabled = 8"
| "reason_code Administrator = 9"
| "reason_code Shutdown = 10"
| "reason_code PeerTimeout = 11"
| "reason_code ClientVanished = 12"

definition reason_index :: "leave_reason \<Rightarrow> nat" where
  "reason_index r = reason_code r - 1"

definition reason_from_u8 :: "nat \<Rightarrow> leave_reason option" where
  "reason_from_u8 stored =
     (if stored = 0 then None
      else let index = stored - 1
           in if index < length ALL_REASONS then Some (ALL_REASONS ! index) else None)"

text \<open>
  A read error is a chain of errors: an I/O error has a kind, possibly an error it wraps
  (\<open>get_ref\<close>) and possibly a source; any other error has at most a source.
\<close>

datatype io_kind = UnexpectedEof | ConnectionReset | ConnectionAborted | TimedOutKind | OtherKind

datatype any_error = IoError io_kind "any_error option" "any_error option" | NotIo "any_error option"

fun from_read_error :: "any_error \<Rightarrow> leave_reason" where
  "from_read_error (NotIo source) =
     (case source of Some e \<Rightarrow> from_read_error e | None \<Rightarrow> ReadError)"
| "from_read_error (IoError kind wrapped source) =
     (if kind = UnexpectedEof \<or> kind = ConnectionReset \<or> kind = ConnectionAborted then ClientVanished
      else case wrapped of
             Some inner \<Rightarrow> from_read_error inner
           | None \<Rightarrow> (case source of Some e \<Rightarrow> from_read_error e | None \<Rightarrow> ReadError))"

lemma reason_from_code [simp]: "reason_from_u8 (reason_code r) = Some r"
  by (cases r) (simp_all add: reason_from_u8_def ALL_REASONS_def)

lemma reason_code_pos [simp]: "0 < reason_code r" "reason_code r \<noteq> 0" "reason_code r < 256"
  by (cases r; simp)+

lemma reason_index_ALL: "ALL_REASONS ! reason_index r = r \<and> reason_index r < length ALL_REASONS"
  by (cases r) (simp_all add: reason_index_def ALL_REASONS_def)

lemma reason_code_inject [simp]: "reason_code a = reason_code b \<longleftrightarrow> a = b"
  by (metis option.inject reason_from_code)

section \<open>Clocks\<close>

record liveness =
  started :: nat
  last_rx :: nat
  last_tx :: nat
  reason :: nat

definition liveness_new :: "nat \<Rightarrow> liveness" where
  "liveness_new now = \<lparr>started = now, last_rx = 0, last_tx = 0, reason = 0\<rparr>"

definition connected_for :: "nat \<Rightarrow> liveness \<Rightarrow> nat" where
  "connected_for now l = now - started l"

definition elapsed_millis :: "nat \<Rightarrow> liveness \<Rightarrow> nat" where
  "elapsed_millis now l = min u64_max (connected_for now l div 1000000)"

definition received :: "nat \<Rightarrow> liveness \<Rightarrow> liveness" where
  "received now l = l\<lparr>last_rx := max (last_rx l) (elapsed_millis now l)\<rparr>"

definition wrote :: "nat \<Rightarrow> liveness \<Rightarrow> liveness" where
  "wrote now l = l\<lparr>last_tx := max (last_tx l) (elapsed_millis now l)\<rparr>"

definition idle_deadline :: "nat \<Rightarrow> liveness \<Rightarrow> nat" where
  "idle_deadline idle_timeout l =
     (let last = max (last_rx l) (last_tx l) in started l + last * 1000000 + idle_timeout)"

definition is_idle :: "nat \<Rightarrow> nat \<Rightarrow> liveness \<Rightarrow> bool" where
  "is_idle now idle_timeout l \<longleftrightarrow> idle_deadline idle_timeout l \<le> now"

definition ended :: "leave_reason \<Rightarrow> liveness \<Rightarrow> leave_reason \<times> liveness" where
  "ended r l =
     (if reason l = 0 then (r, l\<lparr>reason := reason_code r\<rparr>)
      else (case reason_from_u8 (reason l) of Some s \<Rightarrow> s | None \<Rightarrow> r, l))"

definition reason_of :: "liveness \<Rightarrow> leave_reason option" where
  "reason_of l = reason_from_u8 (reason l)"

text \<open>One call on a connection's liveness, by the reader, the writer or whoever closes it.\<close>

datatype life_call = Received nat | Wrote nat | Ended leave_reason

fun life_step :: "life_call \<Rightarrow> liveness \<Rightarrow> liveness" where
  "life_step (Received now) l = received now l"
| "life_step (Wrote now) l = wrote now l"
| "life_step (Ended r) l = snd (ended r l)"

definition life_ok :: "liveness \<Rightarrow> bool" where
  "life_ok l \<longleftrightarrow> reason l = 0 \<or> (\<exists>r. reason l = reason_code r)"

lemma life_ok_new [simp]: "life_ok (liveness_new now)"
  by (simp add: life_ok_def liveness_new_def)

lemma life_ok_step: "life_ok l \<Longrightarrow> life_ok (life_step c l)"
  by (cases c) (auto simp: life_ok_def received_def wrote_def ended_def)

lemma life_ok_fold: "life_ok l \<Longrightarrow> life_ok (fold life_step cs l)"
  by (induction cs arbitrary: l) (simp_all add: life_ok_step)

lemma ended_stands: "life_ok l \<Longrightarrow> reason_of (snd (ended r l)) = Some (fst (ended r l))"
  by (auto simp: life_ok_def ended_def reason_of_def)

lemma step_keeps_reason: "reason_of l = Some r \<Longrightarrow> life_ok l \<Longrightarrow> reason_of (life_step c l) = Some r"
  by (cases c) (auto simp: life_ok_def reason_of_def received_def wrote_def ended_def reason_from_u8_def)

lemma fold_keeps_reason: "reason_of l = Some r \<Longrightarrow> life_ok l \<Longrightarrow> reason_of (fold life_step cs l) = Some r"
  by (induction cs arbitrary: l) (simp_all add: step_keeps_reason life_ok_step)

lemma step_clocks:
  "started (life_step c l) = started l \<and> last_rx l \<le> last_rx (life_step c l) \<and> last_tx l \<le> last_tx (life_step c l)"
  by (cases c) (auto simp: received_def wrote_def ended_def)

lemma fold_clocks:
  "started (fold life_step cs l) = started l \<and> last_rx l \<le> last_rx (fold life_step cs l) \<and>
   last_tx l \<le> last_tx (fold life_step cs l)"
proof (induction cs arbitrary: l)
  case (Cons c cs)
  from Cons [of "life_step c l"] step_clocks [of c l] show ?case by auto
qed simp

section \<open>Properties\<close>

text \<open>The first cause of a disconnect is the one that stands: however the calls of the reader, the
  writer and outside closers interleave, every later report answers the first cause reported and
  the stored reason never changes.\<close>

theorem first_reason_wins:
  assumes "life_ok l" and "reason_of l = None"
  shows "reason_of (fold life_step cs (snd (ended r l))) = Some r \<and>
    fst (ended later (fold life_step cs (snd (ended r l)))) = r"
proof -
  from assms have "reason l = 0"
    by (auto simp: life_ok_def reason_of_def)
  then have first: "reason_of (snd (ended r l)) = Some r" "life_ok (snd (ended r l))"
    by (auto simp: ended_def reason_of_def life_ok_def)
  let ?l = "fold life_step cs (snd (ended r l))"
  have "reason_of ?l = Some r" "life_ok ?l"
    using fold_keeps_reason first life_ok_fold by blast+
  then show ?thesis by (auto simp: ended_def reason_of_def life_ok_def reason_from_u8_def)
qed

theorem first_reason_wins_witness:
  "reason_of (fold life_step [Wrote 9, Ended Idle] (snd (ended SlowConsumer (liveness_new 5)))) = Some SlowConsumer \<and>
    fst (ended ReadError (fold life_step [Wrote 9, Ended Idle] (snd (ended SlowConsumer (liveness_new 5))))) = SlowConsumer"
  by (rule first_reason_wins) (simp_all add: reason_of_def reason_from_u8_def liveness_new_def life_ok_def)

text \<open>A connection in use is never reclaimed as idle: after a frame is read or a write completes,
  the deadline is at least the timeout away (to the millisecond the clocks keep), and no later call
  moves it earlier.\<close>

theorem active_not_idle:
  assumes "started l \<le> now" and "(now - started l) div 1000000 \<le> u64_max"
    and "call = Received now \<or> call = Wrote now" and "later + 1000000 \<le> now + idle_timeout"
  shows "\<not> is_idle later idle_timeout (fold life_step cs (life_step call l)) \<and>
    idle_deadline idle_timeout (life_step call l) \<le> idle_deadline idle_timeout (fold life_step cs (life_step call l))"
proof -
  let ?m = "life_step call l" and ?f = "fold life_step cs (life_step call l)"
  have e: "elapsed_millis now l = (now - started l) div 1000000"
    using assms(2) by (simp add: elapsed_millis_def connected_for_def)
  have "(now - started l) div 1000000 \<le> max (last_rx ?m) (last_tx ?m)"
    using assms(3) e by (auto simp: received_def wrote_def)
  moreover have mono: "max (last_rx ?m) (last_tx ?m) \<le> max (last_rx ?f) (last_tx ?f)" "started ?f = started l"
    using fold_clocks [of cs ?m] step_clocks [of call l] by auto
  ultimately have "(now - started l) div 1000000 * 1000000 \<le> max (last_rx ?f) (last_tx ?f) * 1000000"
    by (meson le_trans mult_le_mono1)
  moreover have "now - started l < (now - started l) div 1000000 * 1000000 + 1000000"
    using div_mult_mod_eq [of "now - started l" 1000000] mod_less_divisor [of 1000000 "now - started l"] by linarith
  ultimately have "now < started ?f + max (last_rx ?f) (last_tx ?f) * 1000000 + 1000000"
    using assms(1) mono(2) by linarith
  with assms(4) have "later < idle_deadline idle_timeout ?f"
    by (simp add: idle_deadline_def Let_def)
  moreover have "idle_deadline idle_timeout ?m \<le> idle_deadline idle_timeout ?f"
    using mono step_clocks [of call l] by (simp add: idle_deadline_def Let_def)
  ultimately show ?thesis by (simp add: is_idle_def)
qed

theorem active_not_idle_witness:
  "\<not> is_idle 8000000 9000000 (fold life_step [Ended Idle] (life_step (Received 3000000) (liveness_new 1000000))) \<and>
    idle_deadline 9000000 (life_step (Received 3000000) (liveness_new 1000000)) \<le>
      idle_deadline 9000000 (fold life_step [Ended Idle] (life_step (Received 3000000) (liveness_new 1000000)))"
  by (rule active_not_idle [where now = 3000000]) (simp_all add: liveness_new_def u64_max_def)

end
