(* ===== verification/Metrics.thy ===== *)
theory Metrics
  imports Liveness
begin

text \<open>
  The listener's counters (\<open>rustak-server/src/stream/metrics.rs\<close>).  Every counter is an
  \<open>AtomicU64\<close> and wraps; each operation is one atomic step.
\<close>

definition add_u64 :: "nat \<Rightarrow> nat \<Rightarrow> nat" where
  "add_u64 a b = (a + b) mod 2 ^ 64"

record stream_metrics =
  m_accepted :: nat
  m_rejected :: nat
  m_connected :: nat
  m_rx_msgs :: nat
  m_tx_msgs :: nat
  m_dropped_queue :: nat
  m_dropped_parse :: nat
  m_dropped_flowtag :: nat
  m_dropped_incognito :: nat
  m_no_recipients :: nat
  m_chat_bounced :: nat
  m_proto_resyncs :: nat
  m_oversize_substituted :: nat
  m_closed_slow :: nat
  m_replay_dropped :: nat
  m_writer_aborted :: nat
  m_dests_truncated :: nat
  m_left :: "nat list"

definition metrics_new :: stream_metrics where
  "metrics_new =
     \<lparr>m_accepted = 0, m_rejected = 0, m_connected = 0, m_rx_msgs = 0, m_tx_msgs = 0,
      m_dropped_queue = 0, m_dropped_parse = 0, m_dropped_flowtag = 0, m_dropped_incognito = 0,
      m_no_recipients = 0, m_chat_bounced = 0, m_proto_resyncs = 0, m_oversize_substituted = 0,
      m_closed_slow = 0, m_replay_dropped = 0, m_writer_aborted = 0, m_dests_truncated = 0,
      m_left = replicate (length ALL_REASONS) 0\<rparr>"

definition left_incr :: "leave_reason \<Rightarrow> nat list \<Rightarrow> nat list" where
  "left_incr r counts = counts[reason_index r := add_u64 (counts ! reason_index r) 1]"

definition left_get :: "leave_reason \<Rightarrow> nat list \<Rightarrow> nat" where
  "left_get r counts = counts ! reason_index r"

definition left_nonzero :: "nat list \<Rightarrow> (leave_reason \<times> nat) list" where
  "left_nonzero counts = filter (\<lambda>(_, count). 0 < count) (map (\<lambda>r. (r, left_get r counts)) ALL_REASONS)"

definition counter_incr :: "nat \<Rightarrow> nat" where
  "counter_incr c = add_u64 c 1"

definition counter_add :: "nat \<Rightarrow> nat \<Rightarrow> nat" where
  "counter_add c by = (if 0 < by then add_u64 c by else c)"

definition counter_decr :: "nat \<Rightarrow> nat" where
  "counter_decr c = c - 1"

text \<open>An increment is counted under its own reason and no other.\<close>

lemma left_get_incr:
  "length counts = length ALL_REASONS \<Longrightarrow>
   left_get q (left_incr r counts) = (if q = r then add_u64 (left_get q counts) 1 else left_get q counts)"
  by (cases q; cases r) (simp_all add: left_get_def left_incr_def reason_index_def ALL_REASONS_def)

end
