(* ===== verification/Varint.thy ===== *)
theory Varint
  imports Prelude
begin

text \<open>
  The LEB128 length prefix of a TAK Protocol v1 frame (\<open>rustak-cot/src/codec/varint.rs\<close>), on
  64-bit words and bytes, and the framing errors of \<open>rustak-cot/src/error.rs\<close>.
  The round trip, the strictness of the reader and its behaviour on a growing buffer are what
  the frame scanner builds on.
\<close>

section \<open>Model\<close>

datatype frame_error = Oversized nat | BadVarint

type_synonym 'a framed = "frame_error + 'a option"

definition varint_max_len :: nat where
  "varint_max_len = 10"

function put_varint :: "64 word \<Rightarrow> bytes \<Rightarrow> bytes" where
  "put_varint v dst =
     (let b = (ucast (v AND 0x7F) :: byte); v' = drop_bit 7 v
      in if v' = 0 then dst @ [b] else put_varint v' (dst @ [b OR 0x80]))"
  by pat_completeness auto

lemma unat_drop_bit_7: "unat (drop_bit 7 v) = unat v div 128" for v :: "64 word"
  by (simp add: drop_bit_eq_div unat_div)

termination put_varint
proof (relation "measure (\<lambda>(v, dst). unat v)")
  fix v v' :: "64 word" and dst :: bytes and b :: byte
  assume "v' = drop_bit 7 v" "v' \<noteq> 0"
  then have "unat v div 128 \<noteq> 0"
    by (metis unat_drop_bit_7 unat_eq_zero)
  then have "unat v div 128 < unat v" by simp
  then show "((v', dst @ [b OR 0x80]), v, dst) \<in> measure (\<lambda>(v, dst). unat v)"
    using \<open>v' = drop_bit 7 v\<close> by (simp add: unat_drop_bit_7)
qed simp

declare put_varint.simps [simp del]

text \<open>
  One iteration per byte of the first ten; \<open>None\<close> is the loop running out of bytes.
\<close>

fun varint_loop :: "nat \<Rightarrow> 64 word \<Rightarrow> bytes \<Rightarrow> (frame_error + 64 word \<times> nat) option" where
  "varint_loop index v [] = None"
| "varint_loop index v (b # bs) =
     (if index = varint_max_len - 1 \<and> 0x01 < b then Some (Inl BadVarint)
      else let v' = v OR push_bit (7 * index) (ucast (b AND 0x7F))
           in if b AND 0x80 = 0 then Some (Inr (v', index + 1))
              else varint_loop (index + 1) v' bs)"

definition read_varint :: "bytes \<Rightarrow> (64 word \<times> nat) framed" where
  "read_varint buf =
     (case varint_loop 0 0 (take varint_max_len buf) of
        Some (Inl e) \<Rightarrow> Inl e
      | Some (Inr r) \<Rightarrow> Inr (Some r)
      | None \<Rightarrow> if varint_max_len \<le> length buf then Inl BadVarint else Inr None)"

section \<open>The encoder\<close>

lemma put_varint_append: "put_varint v (a @ dst) = a @ put_varint v dst"
  by (induction v dst rule: put_varint.induct) (simp add: put_varint.simps Let_def)

lemma put_varint_eq: "put_varint v dst = dst @ put_varint v []"
  using put_varint_append [of v dst "[]"] by simp

lemma put_varint_unfold:
  "put_varint v [] =
     (if drop_bit 7 v = 0 then [ucast (v AND 0x7F)]
      else (ucast (v AND 0x7F) OR 0x80) # put_varint (drop_bit 7 v) [])"
  by (subst put_varint.simps) (simp add: Let_def put_varint_eq [of _ "[_]"])

lemma septet_induct [case_names septet]:
  assumes "\<And>v. (drop_bit 7 v \<noteq> 0 \<Longrightarrow> P (drop_bit 7 v)) \<Longrightarrow> P v"
  shows "P (v :: 64 word)"
  by (rule put_varint.induct [of "\<lambda>v dst. P v" v "[]"]) (simp add: assms)

lemma put_varint_nonempty [simp]: "put_varint v [] \<noteq> []"
  by (subst put_varint_unfold) simp

text \<open>A numeral word is tested through its integer.\<close>

lemma bit_0x7F: "bit (0x7F :: int) n \<longleftrightarrow> n < 7"
proof -
  have "bit (mask 7 :: int) n \<longleftrightarrow> n < 7"
    by (simp only: bit_mask_iff) simp
  then show ?thesis by (simp add: mask_eq_exp_minus_1)
qed

lemma bit_0x80: "bit (0x80 :: int) n \<longleftrightarrow> n = 7"
proof -
  have "bit (2 ^ 7 :: int) n \<longleftrightarrow> n = 7"
    by (simp only: bit_exp_iff) auto
  then show ?thesis by simp
qed

lemmas septet_simps = bit_simps bit_0x7F bit_0x80

lemma septet_back [simp]: "ucast (ucast (v AND 0x7F :: 64 word) :: byte) = v AND 0x7F"
  by (rule bit_word_eqI) (auto simp: septet_simps)

lemma septet_stops [simp]: "(ucast (v AND 0x7F :: 64 word) :: byte) AND 0x80 = 0"
  by (rule bit_word_eqI) (auto simp: septet_simps)

lemma septet_masked [simp]:
  "(ucast (v AND 0x7F :: 64 word) :: byte) AND 0x7F = ucast (v AND 0x7F)"
  by (rule bit_word_eqI) (auto simp: septet_simps)

lemma septet_marked [simp]:
  "(ucast (v AND 0x7F :: 64 word) OR 0x80 :: byte) AND 0x7F = ucast (v AND 0x7F)"
  by (rule bit_word_eqI) (auto simp: septet_simps)

lemma septet_continues [simp]: "(ucast (v AND 0x7F :: 64 word) OR 0x80 :: byte) AND 0x80 = 0x80"
  by (rule bit_word_eqI) (auto simp: septet_simps)

lemma septet_split:
  "push_bit k (v AND 0x7F) OR push_bit (k + 7) (drop_bit 7 v) = push_bit k v" for v :: "64 word"
proof (rule bit_word_eqI)
  fix n assume "n < LENGTH(64)"
  then show "bit (push_bit k (v AND 0x7F) OR push_bit (k + 7) (drop_bit 7 v)) n = bit (push_bit k v) n"
    by (cases "n < k + 7") (auto simp: septet_simps)
qed

section \<open>The round trip\<close>

lemma varint_loop_put:
  assumes "i \<le> 9" and "unat v < 2 ^ (64 - 7 * i)"
  shows "varint_loop i acc (put_varint v [] @ rest) =
           Some (Inr (acc OR push_bit (7 * i) v, i + length (put_varint v [])))"
  using assms
proof (induction v arbitrary: i acc rule: septet_induct)
  case (septet v)
  show ?case
  proof (cases "drop_bit 7 v = 0")
    case True
    have v: "v AND 0x7F = v"
      using septet_split [of 0 v] True by simp
    have p: "put_varint v [] = [ucast (v AND 0x7F)]"
      using True by (subst put_varint_unfold) simp
    have last: "\<not> (1 :: byte) < ucast (v AND 0x7F)" if "i = 9"
    proof -
      from that septet(3) have "unat v < 2" by simp
      then show ?thesis unfolding v
        by (simp add: word_less_nat_alt unsigned_ucast_eq unsigned_take_bit_eq take_bit_eq_mod)
    qed
    have "varint_loop i acc (put_varint v [] @ rest) =
        Some (Inr (acc OR push_bit (7 * i) (v AND 0x7F), i + 1))"
      using last by (auto simp: p varint_max_len_def)
    then show ?thesis using v p by simp
  next
    case False
    then have big: "128 \<le> unat v"
      by (metis div_eq_0_iff not_le unat_drop_bit_7 unat_eq_zero)
    have i8: "i \<le> 8"
    proof (rule ccontr)
      assume "\<not> i \<le> 8"
      with septet(2) have "i = 9" by simp
      with septet(3) big show False by simp
    qed
    have "(2 :: nat) ^ (64 - 7 * i) = 2 ^ (64 - 7 * Suc i) * 128"
    proof -
      from i8 have "64 - 7 * i = (64 - 7 * Suc i) + 7" by simp
      then show ?thesis by (simp only: power_add) simp
    qed
    with septet(3) have small: "unat (drop_bit 7 v) < 2 ^ (64 - 7 * Suc i)"
      by (simp add: unat_drop_bit_7 less_mult_imp_div_less)
    have "varint_loop (Suc i) (acc OR push_bit (7 * i) (v AND 0x7F)) (put_varint (drop_bit 7 v) [] @ rest) =
        Some (Inr ((acc OR push_bit (7 * i) (v AND 0x7F)) OR push_bit (7 * Suc i) (drop_bit 7 v),
                   Suc i + length (put_varint (drop_bit 7 v) [])))"
      using False i8 small by (intro septet(1)) auto
    moreover have "(acc OR push_bit (7 * i) (v AND 0x7F)) OR push_bit (7 * Suc i) (drop_bit 7 v) =
        acc OR push_bit (7 * i) v"
      using septet_split [of "7 * i" v] by (simp only: or.assoc mult_Suc_right) (simp add: add.commute)
    ultimately show ?thesis
      using False i8 by (simp add: put_varint_unfold [of v] varint_max_len_def)
  qed
qed

text \<open>The same loop stops short on every proper prefix.\<close>

lemma varint_loop_prefix:
  assumes "i \<le> 9" and "unat v < 2 ^ (64 - 7 * i)" and "k < length (put_varint v [])"
  shows "varint_loop i acc (take k (put_varint v [])) = None"
proof -
  have "\<exists>r. varint_loop i acc (take k (put_varint v []) @ drop k (put_varint v [])) = Some (Inr r)
      \<and> snd r = i + length (put_varint v [])"
    using varint_loop_put [OF assms(1,2), of acc "[]"] by simp
  moreover have "varint_loop i acc (xs @ ys) = varint_loop i acc xs"
    if "varint_loop i acc xs \<noteq> None" for i acc and xs ys :: bytes
    using that by (induction i acc xs rule: varint_loop.induct) (auto simp: Let_def)
  moreover have "snd r \<le> i + length xs" if "varint_loop i acc xs = Some (Inr r)" for i acc xs r
    using that by (induction i acc xs rule: varint_loop.induct) (auto simp: Let_def split: if_splits)
  ultimately show ?thesis
    using assms(3) by (metis add_le_cancel_left length_take min.absorb4 not_le option.distinct(1) option.exhaust option.sel sum.sel(2))
qed

lemma length_put_varint_le:
  "unat v < 2 ^ (7 * n) \<Longrightarrow> 1 \<le> n \<Longrightarrow> length (put_varint v []) \<le> n"
proof (induction v arbitrary: n rule: septet_induct)
  case (septet v)
  show ?case
  proof (cases "drop_bit 7 v = 0")
    case True
    then show ?thesis using septet.prems by (simp add: put_varint_unfold [of v])
  next
    case False
    then have big: "128 \<le> unat v"
      by (metis div_eq_0_iff not_le unat_drop_bit_7 unat_eq_zero)
    obtain m where m: "n = Suc m" using septet.prems(2) by (cases n) auto
    have "(2 :: nat) ^ (7 * n) = 2 ^ (7 * m) * 128"
      unfolding m by (simp add: power_add)
    with septet.prems(1) have small: "unat (drop_bit 7 v) < 2 ^ (7 * m)"
      by (simp add: unat_drop_bit_7 less_mult_imp_div_less)
    have "1 \<le> m"
    proof (cases m)
      case 0
      with septet.prems(1) m big show ?thesis by simp
    qed simp
    with septet.IH False small have "length (put_varint (drop_bit 7 v) []) \<le> m" by blast
    with False m show ?thesis by (simp add: put_varint_unfold [of v])
  qed
qed

lemma length_put_varint_max: "length (put_varint v []) \<le> varint_max_len"
  unfolding varint_max_len_def
proof (rule length_put_varint_le)
  have "unat v < 2 ^ 64" using unsigned_less [of v] by simp
  then show "unat v < 2 ^ (7 * 10)" by simp
qed simp

section \<open>What the reader accepts\<close>

abbreviation continues :: "byte \<Rightarrow> bool" where
  "continues b \<equiv> b AND 0x80 \<noteq> 0"

lemma small_byte_stops: "\<not> 1 < b \<Longrightarrow> b AND 0x80 = 0" for b :: byte
proof -
  assume "\<not> 1 < b"
  then have "b = 0 \<or> b = 1" by (simp add: word_le_nat_alt unat_arith_simps not_less le_Suc_eq)
  then show ?thesis by auto
qed

lemma varint_loop_None:
  "i \<le> 9 \<Longrightarrow> varint_loop i v bs = None \<longleftrightarrow> list_all continues bs \<and> i + length bs \<le> 9"
proof (induction i v bs rule: varint_loop.induct)
  case (1 i v)
  then show ?case by simp
next
  case (2 i v b bs)
  then show ?case
    by (cases "i = 9") (auto simp: varint_max_len_def Let_def small_byte_stops)
qed

lemma varint_loop_Inl:
  "i \<le> 9 \<Longrightarrow> varint_loop i v bs = Some (Inl e) \<longleftrightarrow>
     e = BadVarint \<and> 9 - i < length bs \<and> list_all continues (take (9 - i) bs) \<and> 1 < bs ! (9 - i)"
proof (induction i v bs rule: varint_loop.induct)
  case (1 i v)
  then show ?case by simp
next
  case (2 i v b bs)
  show ?case
  proof (cases "i = 9")
    case True
    then show ?thesis by (cases "1 < b") (auto simp: varint_max_len_def Let_def small_byte_stops)
  next
    case False
    then obtain m where "9 - i = Suc m" "9 - Suc i = m" using 2(2) by (cases "9 - i") auto
    with 2 False show ?thesis by (auto simp: varint_max_len_def Let_def)
  qed
qed

lemma varint_loop_len: "varint_loop i v bs = Some (Inr (w, n)) \<Longrightarrow> i < n \<and> n \<le> i + length bs"
  by (induction i v bs rule: varint_loop.induct) (fastforce simp: Let_def split: if_splits)+

lemma varint_loop_append: "varint_loop i v xs = Some r \<Longrightarrow> varint_loop i v (xs @ ys) = Some r"
  by (induction i v xs rule: varint_loop.induct) (auto simp: Let_def)

lemma unat_or_less: "unat a < 2 ^ k \<Longrightarrow> unat b < 2 ^ k \<Longrightarrow> unat (a OR b) < 2 ^ k"
  for a b :: "'a::len word"
  by (metis take_bit_nat_eq_self_iff take_bit_or unsigned_or_eq)

lemma varint_loop_bound:
  "varint_loop i v bs = Some (Inr (w, n)) \<Longrightarrow> unat v < 2 ^ (7 * i) \<Longrightarrow> unat w < 2 ^ (7 * n)"
proof (induction i v bs rule: varint_loop.induct)
  case (1 i v)
  then show ?case by simp
next
  case (2 i v b bs)
  let ?v = "v OR push_bit (7 * i) (ucast (b AND 0x7F))"
  have "unat (ucast (b AND 0x7F) :: 64 word) < 2 ^ 7"
  proof -
    have "b AND 0x7F \<le> 0x7F" by (rule word_and_le1)
    then have "unat (b AND 0x7F) \<le> 127" by (simp add: word_le_nat_alt)
    then show ?thesis by (simp add: unsigned_ucast_eq unsigned_take_bit_eq take_bit_eq_mod)
  qed
  then have "unat (ucast (b AND 0x7F) :: 64 word) * 2 ^ (7 * i) < 2 ^ (7 * Suc i)"
    by (simp add: power_add)
  then have "unat (push_bit (7 * i) (ucast (b AND 0x7F)) :: 64 word) < 2 ^ (7 * Suc i)"
    unfolding unsigned_push_bit_eq unfolding push_bit_eq_mult take_bit_eq_mod
    by (meson le_less_trans mod_less_eq_dividend)
  moreover from "2.prems"(2) have "unat v < 2 ^ (7 * Suc i)"
    by (rule less_le_trans) simp
  ultimately have "unat ?v < 2 ^ (7 * Suc i)" by (simp add: unat_or_less)
  with 2 show ?case by (auto simp: Let_def split: if_splits)
qed

section \<open>The reader's contract\<close>

lemma read_varint_None_iff:
  "read_varint bs = Inr None \<longleftrightarrow> list_all continues bs \<and> length bs \<le> 9"
  using varint_loop_None [of 0 0 "take varint_max_len bs"]
  by (auto simp: read_varint_def varint_max_len_def not_le split: option.splits sum.splits)

lemma read_varint_Some_iff:
  "read_varint bs = Inr (Some r) \<longleftrightarrow> varint_loop 0 0 (take varint_max_len bs) = Some (Inr r)"
  by (auto simp: read_varint_def split: option.splits sum.splits)

lemma read_varint_take: "read_varint (take varint_max_len bs @ cs) = read_varint bs"
  if "varint_max_len \<le> length bs"
  using that by (simp add: read_varint_def)

lemma read_varint_append:
  assumes "read_varint xs \<noteq> Inr None"
  shows "read_varint (xs @ ys) = read_varint xs"
proof (cases "varint_max_len \<le> length xs")
  case True
  then show ?thesis by (simp add: read_varint_def)
next
  case False
  then have "varint_loop 0 0 xs \<noteq> None"
    using assms by (auto simp: read_varint_def split: option.splits)
  then obtain r where r: "varint_loop 0 0 xs = Some r" by auto
  then have "varint_loop 0 0 (take varint_max_len (xs @ ys)) = Some r"
    using False by (simp add: varint_loop_append)
  with r False show ?thesis by (simp add: read_varint_def)
qed

lemma read_varint_consumes:
  assumes "read_varint bs = Inr (Some (v, n))"
  shows "0 < n" "n \<le> length bs" "n \<le> varint_max_len"
  using assms varint_loop_len [of 0 0 "take varint_max_len bs" v n]
  by (auto simp: read_varint_Some_iff)

lemma read_varint_put: "read_varint (put_varint v [] @ rest) = Inr (Some (v, length (put_varint v [])))"
proof -
  have "take varint_max_len (put_varint v [] @ rest) =
      put_varint v [] @ take (varint_max_len - length (put_varint v [])) rest"
    by (simp add: length_put_varint_max)
  moreover have "unat v < 2 ^ 64" using unsigned_less [of v] by simp
  ultimately show ?thesis
    using varint_loop_put [of 0 v 0] by (simp add: read_varint_Some_iff)
qed

lemma read_varint_put_prefix:
  "k < length (put_varint v []) \<Longrightarrow> read_varint (take k (put_varint v [])) = Inr None"
proof -
  assume k: "k < length (put_varint v [])"
  then have short: "k < varint_max_len" using length_put_varint_max [of v] by simp
  have "unat v < 2 ^ 64" using unsigned_less [of v] by simp
  with k have "varint_loop 0 0 (take k (put_varint v [])) = None"
    by (intro varint_loop_prefix) auto
  with k short show ?thesis by (simp add: read_varint_def)
qed

lemma read_varint_shortest:
  assumes "read_varint bs = Inr (Some (v, n))"
  shows "length (put_varint v []) \<le> n"
proof (rule length_put_varint_le)
  show "unat v < 2 ^ (7 * n)"
    using assms varint_loop_bound [of 0 0 _ v n] by (simp add: read_varint_Some_iff)
  show "1 \<le> n" using read_varint_consumes(1) [OF assms] by simp
qed

lemma read_varint_bad_iff:
  "read_varint bs = Inl e \<longleftrightarrow>
     e = BadVarint \<and> 9 < length bs \<and> list_all continues (take 9 bs) \<and> 1 < bs ! 9"
proof -
  have none: "varint_loop 0 0 (take 10 bs) \<noteq> None" if "10 \<le> length bs"
    using that varint_loop_None [of 0 0 "take 10 bs"] by auto
  have "read_varint bs = Inl e \<longleftrightarrow> varint_loop 0 0 (take 10 bs) = Some (Inl e)"
    using none by (auto simp: read_varint_def varint_max_len_def split: option.splits sum.splits)
  also have "\<dots> \<longleftrightarrow> e = BadVarint \<and> 9 < length bs \<and> list_all continues (take 9 bs) \<and> 1 < bs ! 9"
    by (auto simp: varint_loop_Inl min_def)
  finally show ?thesis .
qed

end
