(* ===== verification/Byte_Search.thy ===== *)
theory Byte_Search
  imports Prelude
begin

text \<open>
  Byte and substring search.  The framers call \<open>memchr::memchr\<close> and \<open>memchr::memmem::find\<close>, which
  are not part of the repository: they are a parameter (\<open>search_lib\<close>) of every definition that uses
  them, with what their documentation promises, the first match, as \<open>search_ok\<close>.
  \<open>plain_search\<close> is an instance that computes; every library that keeps the promise agrees with it.
\<close>

section \<open>The library as a parameter\<close>

record search_lib =
  memchr :: "byte \<Rightarrow> bytes \<Rightarrow> nat option"
  memmem :: "bytes \<Rightarrow> bytes \<Rightarrow> nat option"

definition first_match :: "(bytes \<Rightarrow> bool) \<Rightarrow> bytes \<Rightarrow> nat option \<Rightarrow> bool" where
  "first_match P hay r \<longleftrightarrow>
     (case r of
        None \<Rightarrow> (\<forall>j < length hay. \<not> P (drop j hay))
      | Some i \<Rightarrow> i < length hay \<and> P (drop i hay) \<and> (\<forall>j < i. \<not> P (drop j hay)))"

definition search_ok :: "search_lib \<Rightarrow> bool" where
  "search_ok L \<longleftrightarrow>
     (\<forall>b hay. first_match (\<lambda>s. starts_with s [b]) hay (memchr L b hay)) \<and>
     (\<forall>hay pat. pat \<noteq> [] \<longrightarrow> first_match (\<lambda>s. starts_with s pat) hay (memmem L hay pat))"

section \<open>A search that computes\<close>

fun first_pos :: "('a list \<Rightarrow> bool) \<Rightarrow> 'a list \<Rightarrow> nat option" where
  "first_pos P [] = None"
| "first_pos P (x # xs) = (if P (x # xs) then Some 0 else map_option Suc (first_pos P xs))"

abbreviation first_byte :: "byte \<Rightarrow> bytes \<Rightarrow> nat option" where
  "first_byte b \<equiv> first_pos (\<lambda>s. starts_with s [b])"

abbreviation first_sub :: "bytes \<Rightarrow> bytes \<Rightarrow> nat option" where
  "first_sub pat \<equiv> first_pos (\<lambda>s. starts_with s pat)"

definition plain_search :: search_lib where
  "plain_search = \<lparr>memchr = (\<lambda>b hay. first_byte b hay), memmem = (\<lambda>hay pat. first_sub pat hay)\<rparr>"

lemma first_pos_None: "first_pos P xs = None \<longleftrightarrow> (\<forall>j < length xs. \<not> P (drop j xs))"
proof (induction xs)
  case (Cons x xs)
  have "(\<forall>j < length (x # xs). \<not> P (drop j (x # xs))) \<longleftrightarrow>
      \<not> P (x # xs) \<and> (\<forall>j < length xs. \<not> P (drop j xs))"
    by (simp add: All_less_Suc2)
  with Cons show ?case by simp
qed simp

lemma first_pos_Some:
  "first_pos P xs = Some i \<longleftrightarrow> i < length xs \<and> P (drop i xs) \<and> (\<forall>j < i. \<not> P (drop j xs))"
proof (induction xs arbitrary: i)
  case (Cons x xs)
  show ?case
  proof (cases i)
    case 0
    then show ?thesis by auto
  next
    case (Suc m)
    have "(\<forall>j < Suc m. \<not> P (drop j (x # xs))) \<longleftrightarrow> \<not> P (x # xs) \<and> (\<forall>j < m. \<not> P (drop j xs))"
      by (simp add: All_less_Suc2)
    with Suc Cons [of m] show ?thesis by auto
  qed
qed simp

lemma first_match_unique: "first_match P hay r \<longleftrightarrow> r = first_pos P hay"
proof (cases r)
  case None
  then show ?thesis
    by (auto simp: first_match_def first_pos_None [symmetric] split: option.splits)
next
  case (Some i)
  then show ?thesis
    by (auto simp: first_match_def first_pos_Some [symmetric] split: option.splits)
qed

lemma search_ok_plain: "search_ok plain_search"
  by (simp add: search_ok_def plain_search_def first_match_unique)

lemma memchr_eq: "search_ok L \<Longrightarrow> memchr L b hay = first_byte b hay"
  by (simp add: search_ok_def first_match_unique)

lemma memmem_eq: "search_ok L \<Longrightarrow> pat \<noteq> [] \<Longrightarrow> memmem L hay pat = first_sub pat hay"
  by (simp add: search_ok_def first_match_unique)

section \<open>Positions in a concatenation\<close>

lemma first_pos_append_dead:
  assumes "\<And>j. j < length xs \<Longrightarrow> \<not> P (drop j xs @ ys)"
  shows "first_pos P (xs @ ys) = map_option ((+) (length xs)) (first_pos P ys)"
  using assms
proof (induction xs)
  case Nil
  then show ?case by (simp add: option.map_ident)
next
  case (Cons x xs)
  have "\<not> P ((x # xs) @ ys)" using Cons.prems [of 0] by simp
  moreover have "first_pos P (xs @ ys) = map_option ((+) (length xs)) (first_pos P ys)"
    by (rule Cons.IH) (use Cons.prems [of "Suc j" for j] in auto)
  ultimately show ?case by (simp add: option.map_comp comp_def)
qed

lemma first_pos_drop:
  assumes "\<And>j. j < n \<Longrightarrow> \<not> P (drop j xs)" and "n \<le> length xs"
  shows "first_pos P xs = map_option ((+) n) (first_pos P (drop n xs))"
proof -
  have "first_pos P (take n xs @ drop n xs) = map_option ((+) (length (take n xs))) (first_pos P (drop n xs))"
  proof (rule first_pos_append_dead)
    fix j assume "j < length (take n xs)"
    with assms(1) have "\<not> P (drop j xs)" by simp
    moreover have "drop j (take n xs) @ drop n xs = drop j (take n xs @ drop n xs)"
      using \<open>j < length (take n xs)\<close> by (simp only: drop_append) simp
    ultimately show "\<not> P (drop j (take n xs) @ drop n xs)" by simp
  qed
  with assms(2) show ?thesis by (simp add: min_def)
qed

lemma starts_with_mono: "starts_with s p \<Longrightarrow> starts_with (s @ t) p"
  by (auto simp: starts_with_iff)

lemma starts_with_long: "length p \<le> length s \<Longrightarrow> starts_with (s @ t) p \<longleftrightarrow> starts_with s p"
  by (simp add: starts_with_def)

lemma starts_with_length: "starts_with s p \<Longrightarrow> length p \<le> length s"
  by (auto simp: starts_with_iff)

lemma starts_with_single [simp]: "starts_with (x # s) [b] \<longleftrightarrow> x = b"
  by (simp add: starts_with_def)

lemma starts_with_single_Nil [simp]: "\<not> starts_with [] [b]"
  by (simp add: starts_with_def)

lemma first_byte_None: "first_byte b xs = None \<longleftrightarrow> b \<notin> set xs"
  by (induction xs) auto

lemma first_byte_append:
  "b \<notin> set xs \<Longrightarrow> first_byte b (xs @ ys) = map_option ((+) (length xs)) (first_byte b ys)"
proof (rule first_pos_append_dead)
  fix j assume b: "b \<notin> set xs" and j: "j < length xs"
  then have "xs ! j \<noteq> b" by auto
  with j show "\<not> starts_with (drop j xs @ ys) [b]"
    by (simp add: Cons_nth_drop_Suc [symmetric])
qed

lemma first_byte_Some:
  assumes "first_byte b xs = Some i"
  obtains us vs where "xs = us @ b # vs" "length us = i" "b \<notin> set us"
proof -
  from assms have i: "i < length xs" "starts_with (drop i xs) [b]"
    and before: "\<forall>j < i. \<not> starts_with (drop j xs) [b]"
    by (simp_all add: first_pos_Some)
  from i have "xs = take i xs @ b # drop (Suc i) xs"
    by (metis Cons_nth_drop_Suc append_take_drop_id starts_with_single)
  moreover have "b \<notin> set (take i xs)"
  proof
    assume "b \<in> set (take i xs)"
    then obtain j where "j < i" "j < length xs" "xs ! j = b" by (auto simp: in_set_conv_nth)
    then have "starts_with (drop j xs) [b]" by (simp add: Cons_nth_drop_Suc [symmetric])
    with before \<open>j < i\<close> show False by simp
  qed
  ultimately show ?thesis using that i(1) by (metis length_take min.absorb4)
qed

end
