(* ===== verification/Framing.thy ===== *)
theory Framing
  imports Varint Byte_Search
begin

text \<open>
  The contract both stream framers offer the codec (\<open>rustak-cot/src/codec/\<close>): a scanner takes the
  buffer, and either cuts the next message off its front, asks for more bytes, or reports an
  error after consuming the offending bytes.  \<open>framer\<close> states it as a locale; the codec's loop
  and the delivery of a stream that arrives in arbitrary pieces are proved from it.
\<close>

type_synonym ('s, 'f) splitter = "'s \<Rightarrow> bytes \<Rightarrow> 'f framed \<times> 's \<times> bytes"

text \<open>Calling the scanner until it asks for more, and doing so after every read.\<close>

inductive drains :: "('s, 'f) splitter \<Rightarrow> 's \<Rightarrow> bytes \<Rightarrow> 'f list \<Rightarrow> 's \<Rightarrow> bytes \<Rightarrow> bool"
  for split where
  drains_wait: "split s buf = (Inr None, s', buf') \<Longrightarrow> drains split s buf [] s' buf'"
| drains_frame: "split s buf = (Inr (Some f), s1, buf1) \<Longrightarrow> drains split s1 buf1 fs s' buf' \<Longrightarrow>
    drains split s buf (f # fs) s' buf'"

inductive feeds :: "('s, 'f) splitter \<Rightarrow> 's \<Rightarrow> bytes \<Rightarrow> bytes list \<Rightarrow> 'f list \<Rightarrow> 's \<Rightarrow> bytes \<Rightarrow> bool"
  for split where
  feeds_end: "feeds split s buf [] [] s buf"
| feeds_read: "drains split s (buf @ c) fs s1 buf1 \<Longrightarrow> feeds split s1 buf1 cs gs s' buf' \<Longrightarrow>
    feeds split s buf (c # cs) (fs @ gs) s' buf'"

inductive_cases drainsE: "drains split s buf fs s' buf'"
inductive_cases feedsE: "feeds split s buf (c # cs) fs s' buf'"

lemma drains_det:
  "drains split s buf fs s' buf' \<Longrightarrow> drains split s buf gs t' cuf' \<Longrightarrow> fs = gs \<and> s' = t' \<and> buf' = cuf'"
proof (induction arbitrary: gs rule: drains.induct)
  case (drains_wait s buf s' buf')
  from drains_wait(2) show ?case
    by (rule drainsE) (use drains_wait(1) in auto)
next
  case (drains_frame s buf f s1 buf1 fs s' buf')
  from drains_frame.prems show ?case
  proof (rule drainsE)
    assume "split s buf = (Inr None, t', cuf')"
    with drains_frame.hyps(1) show ?thesis by simp
  next
    fix f' s1' buf1' fs'
    assume "gs = f' # fs'" "split s buf = (Inr (Some f'), s1', buf1')"
      "drains split s1' buf1' fs' t' cuf'"
    with drains_frame show ?thesis by auto
  qed
qed

lemma drains_cong: "split s buf = split t cuf \<Longrightarrow> drains split s buf fs s' buf' \<Longrightarrow> drains split t cuf fs s' buf'"
  by (erule drainsE) (metis drains_wait, metis drains_frame)

locale framer =
  fixes split :: "('s, 'f) splitter"
    and ok :: "'s \<Rightarrow> bytes \<Rightarrow> bool"
  assumes ok_split: "ok s buf \<Longrightarrow> split s buf = (r, s', buf') \<Longrightarrow> ok s' buf'"
    and ok_append: "ok s buf \<Longrightarrow> ok s (buf @ rest)"
    and frame_consumes: "ok s buf \<Longrightarrow> split s buf = (Inr (Some f), s', buf') \<Longrightarrow> length buf' < length buf"
    and error_consumes: "ok s buf \<Longrightarrow> split s buf = (Inl e, s', buf') \<Longrightarrow>
      (\<exists>n. e = Oversized n) \<and> length buf' < length buf"
    and frame_append: "ok s buf \<Longrightarrow> split s buf = (Inr (Some f), s', buf') \<Longrightarrow>
      split s (buf @ rest) = (Inr (Some f), s', buf' @ rest)"
    and wait_append: "ok s buf \<Longrightarrow> split s buf = (Inr None, s', buf') \<Longrightarrow>
      split s' (buf' @ rest) = split s (buf @ rest)"
    and error_append: "ok s buf \<Longrightarrow> split s buf = (Inl e, s', buf') \<Longrightarrow>
      \<exists>e' s2 buf2. split s (buf @ rest) = (Inl e', s2, buf2)"
begin

lemma drains_ok: "drains split s buf fs s' buf' \<Longrightarrow> ok s buf \<Longrightarrow> ok s' buf'"
  by (induction rule: drains.induct) (auto intro: ok_split)

lemma drains_append:
  "drains split s buf fs s1 buf1 \<Longrightarrow> ok s buf \<Longrightarrow> drains split s1 (buf1 @ rest) gs s' buf' \<Longrightarrow>
   drains split s (buf @ rest) (fs @ gs) s' buf'"
proof (induction rule: drains.induct)
  case (drains_wait s buf s1 buf1)
  from wait_append [OF drains_wait(2,1)] drains_wait(3) show ?case
    by (auto intro: drains_cong)
next
  case (drains_frame s buf f s2 buf2 fs s1 buf1)
  have "ok s2 buf2" using drains_frame ok_split by blast
  with drains_frame have "drains split s2 (buf2 @ rest) (fs @ gs) s' buf'" by blast
  moreover have "split s (buf @ rest) = (Inr (Some f), s2, buf2 @ rest)"
    using drains_frame by (blast intro: frame_append)
  ultimately show ?case by (auto intro: drains.drains_frame)
qed

lemma drains_prefix:
  "ok s buf \<Longrightarrow> drains split s (buf @ rest) fs s' buf' \<Longrightarrow>
   \<exists>gs hs s1 buf1. fs = gs @ hs \<and> drains split s buf gs s1 buf1 \<and> drains split s1 (buf1 @ rest) hs s' buf'"
proof (induction "length buf" arbitrary: s buf fs rule: less_induct)
  case less
  obtain r s1 buf1 where r: "split s buf = (r, s1, buf1)" by (metis prod_cases3)
  show ?case
  proof (cases r)
    case (Inl e)
    with r less(2) error_append obtain e' s2 buf2 where "split s (buf @ rest) = (Inl e', s2, buf2)"
      by metis
    with less(3) show ?thesis by (auto elim: drainsE)
  next
    case (Inr fo)
    show ?thesis
    proof (cases fo)
      case None
      with r Inr have w: "split s buf = (Inr None, s1, buf1)" by simp
      from drains_cong [OF wait_append [OF less(2) w, symmetric] less(3)]
      have "drains split s1 (buf1 @ rest) fs s' buf'" .
      with drains_wait [where split = split, OF w] show ?thesis by (metis append_Nil)
    next
      case (Some f)
      with r Inr have f: "split s buf = (Inr (Some f), s1, buf1)" by simp
      from less(3) frame_append [OF less(2) f, of rest]
      obtain fs' where d: "fs = f # fs'" "drains split s1 (buf1 @ rest) fs' s' buf'"
        by (auto elim: drainsE)
      from less(1) [OF frame_consumes [OF less(2) f] ok_split [OF less(2) f] d(2)]
      obtain gs hs s2 buf2 where "fs' = gs @ hs" "drains split s1 buf1 gs s2 buf2"
        "drains split s2 (buf2 @ rest) hs s' buf'" by blast
      with d(1) drains_frame [where split = split, OF f] show ?thesis by (metis append_Cons)
    qed
  qed
qed

text \<open>However the stream was cut into reads, the frames are those of the whole stream.\<close>

lemma feeds_drains:
  "feeds split s buf cs fs s' buf' \<Longrightarrow> ok s buf \<Longrightarrow> cs \<noteq> [] \<Longrightarrow> drains split s (buf @ concat cs) fs s' buf'"
proof (induction rule: feeds.induct)
  case (feeds_end s buf)
  then show ?case by simp
next
  case (feeds_read s buf c fs s1 buf1 cs gs s' buf')
  have ok1: "ok s (buf @ c)" by (rule ok_append) fact
  show ?case
  proof (cases "cs = []")
    case True
    from feeds_read.hyps(2) have "gs = [] \<and> s' = s1 \<and> buf' = buf1"
      unfolding True by (auto elim: feeds.cases)
    with feeds_read True show ?thesis by simp
  next
    case False
    have "ok s1 buf1" using drains_ok feeds_read.hyps(1) ok1 by blast
    with False feeds_read have "drains split s1 (buf1 @ concat cs) gs s' buf'" by blast
    then show ?thesis
      using drains_append [OF feeds_read.hyps(1) ok1, of "concat cs"] by simp
  qed
qed

lemma drains_feeds:
  "ok s buf \<Longrightarrow> cs \<noteq> [] \<Longrightarrow> drains split s (buf @ concat cs) fs s' buf' \<Longrightarrow> feeds split s buf cs fs s' buf'"
proof (induction cs arbitrary: s buf fs)
  case Nil
  then show ?case by simp
next
  case (Cons c cs)
  have ok1: "ok s (buf @ c)" by (rule ok_append) fact
  show ?case
  proof (cases "cs = []")
    case True
    with Cons.prems(3) show ?thesis
      using feeds_read [where split = split, OF _ feeds_end] by fastforce
  next
    case False
    from Cons.prems(3) have "drains split s ((buf @ c) @ concat cs) fs s' buf'" by simp
    from drains_prefix [OF ok1 this] obtain gs hs s1 buf1 where
      d: "fs = gs @ hs" "drains split s (buf @ c) gs s1 buf1"
        "drains split s1 (buf1 @ concat cs) hs s' buf'" by blast
    have "feeds split s1 buf1 cs hs s' buf'"
      using Cons.IH [OF drains_ok [OF d(2) ok1] False d(3)] .
    with d show ?thesis by (auto intro: feeds_read)
  qed
qed

lemma feeds_iff_drains:
  "ok s buf \<Longrightarrow> cs \<noteq> [] \<Longrightarrow>
   feeds split s buf cs fs s' buf' \<longleftrightarrow> drains split s (buf @ concat cs) fs s' buf'"
  using feeds_drains drains_feeds by blast

end

text \<open>A framer that never reports an error always comes to rest.\<close>

locale total_framer = framer +
  assumes no_error: "ok s buf \<Longrightarrow> \<exists>f s' buf'. split s buf = (Inr f, s', buf')"
begin

lemma drains_total: "ok s buf \<Longrightarrow> \<exists>fs s' buf'. drains split s buf fs s' buf'"
proof (induction "length buf" arbitrary: s buf rule: less_induct)
  case less
  obtain f s1 buf1 where f: "split s buf = (Inr f, s1, buf1)" using no_error [OF less(2)] by blast
  show ?case
  proof (cases f)
    case None
    with f show ?thesis by (blast intro: drains.drains_wait)
  next
    case (Some x)
    with f less(2) have "length buf1 < length buf" "ok s1 buf1"
      by (auto intro: frame_consumes ok_split)
    with less(1) [of buf1 s1] f Some show ?thesis by (blast intro: drains.drains_frame)
  qed
qed

end

end
