(* ===== verification/Proto_Frame.thy ===== *)
theory Proto_Frame
  imports Framing
begin

text \<open>
  Splitting a byte stream into TAK Protocol v1 frames
  (\<open>rustak-cot/src/codec/proto_frame.rs\<close>): the magic byte, a varint length, the payload.  The
  scanner never fails; it skips to the next magic byte and counts what it threw away.

  Lengths are \<open>usize\<close>, 64 bits wide, so \<open>usize::try_from\<close> of the claimed length always succeeds.
  The sum \<open>header + payload_len\<close> is exact for every cap below \<open>2 ^ 64 - 11\<close>; the codec's is 8 MiB.
\<close>

section \<open>Model\<close>

definition MAGIC :: byte where
  "MAGIC = 0xBF"

record proto_scanner =
  skipped :: nat

definition proto_new :: proto_scanner where
  "proto_new = \<lparr>skipped = 0\<rparr>"

definition skip :: "nat \<Rightarrow> proto_scanner \<Rightarrow> proto_scanner" where
  "skip n s = s\<lparr>skipped := sat_add_u64 (skipped s) n\<rparr>"

function proto_split :: "search_lib \<Rightarrow> nat \<Rightarrow> proto_scanner \<Rightarrow> bytes \<Rightarrow>
    bytes framed \<times> proto_scanner \<times> bytes" where
  "proto_split L limit s buf =
     (case memchr L MAGIC buf of
        None \<Rightarrow> (Inr None, skip (length buf) s, [])
      | Some at \<Rightarrow>
          let s1 = (if 0 < at then skip at s else s);
              buf1 = (if 0 < at then drop at buf else buf)
          in case read_varint (drop 1 buf1) of
               Inl _ \<Rightarrow> proto_split L limit (skip 1 s1) (drop 1 buf1)
             | Inr None \<Rightarrow> (Inr None, s1, buf1)
             | Inr (Some (claimed, used)) \<Rightarrow>
                 if unat claimed \<le> limit then
                   let header = 1 + used; payload_len = unat claimed
                   in if length buf1 < header + payload_len then (Inr None, s1, buf1)
                      else (Inr (Some (take payload_len (drop header buf1))), s1,
                            drop payload_len (drop header buf1))
                 else proto_split L limit (skip 1 s1) (drop 1 buf1))"
  by pat_completeness auto

lemma read_varint_Nil [simp]: "read_varint [] = Inr None"
  by (simp add: read_varint_def varint_max_len_def)

termination proto_split
proof (relation "measure (\<lambda>(L, limit, s, buf). length buf)", goal_cases)
  case 1
  then show ?case by simp
next
  case (2 L limit s buf at s1 buf1)
  then have "buf1 \<noteq> []" by auto
  with 2 show ?case by (auto split: if_splits)
next
  case (3 L limit s buf at s1 buf1)
  then have "buf1 \<noteq> []" by auto
  with 3 show ?case by (auto split: if_splits)
qed

declare proto_split.simps [simp del]

definition proto_encode :: "bytes \<Rightarrow> bytes \<Rightarrow> bytes" where
  "proto_encode payload dst = put_varint (of_nat (length payload)) (dst @ [MAGIC]) @ payload"

section \<open>Equations over the reference search\<close>

lemma skip_skip [simp]: "skip b (skip a s) = skip (a + b) s"
  by (simp add: skip_def sat_add_u64_assoc)

text \<open>A reachable scanner's counter is a \<open>u64\<close>.\<close>

definition proto_ok :: "proto_scanner \<Rightarrow> bool" where
  "proto_ok s \<longleftrightarrow> skipped s \<le> u64_max"

lemma skip_0 [simp]: "proto_ok s \<Longrightarrow> skip 0 s = s"
  by (simp add: skip_def proto_ok_def)

lemma proto_ok_skip [simp]: "proto_ok (skip n s)"
  by (simp add: proto_ok_def skip_def)

text \<open>What happens at a magic byte: the prefix is bad, incomplete, or gives a length.\<close>

datatype verdict = Resync | Wait | Take nat nat

definition verdict_of :: "nat \<Rightarrow> bytes \<Rightarrow> verdict" where
  "verdict_of limit tail =
     (case read_varint tail of
        Inl _ \<Rightarrow> Resync
      | Inr None \<Rightarrow> Wait
      | Inr (Some (claimed, used)) \<Rightarrow>
          if \<not> unat claimed \<le> limit then Resync
          else if length tail < used + unat claimed then Wait
          else Take used (unat claimed))"

lemma proto_split_junk:
  assumes "search_ok L" and "MAGIC \<notin> set buf"
  shows "proto_split L limit s buf = (Inr None, skip (length buf) s, [])"
proof -
  have "memchr L MAGIC buf = None" using assms by (simp add: memchr_eq first_byte_None)
  then show ?thesis by (simp add: proto_split.simps)
qed

lemma proto_split_magic:
  assumes L: "search_ok L" and ok: "proto_ok s" and junk: "MAGIC \<notin> set junk"
  shows "proto_split L limit s (junk @ MAGIC # tail) =
     (case verdict_of limit tail of
        Resync \<Rightarrow> proto_split L limit (skip (length junk + 1) s) tail
      | Wait \<Rightarrow> (Inr None, skip (length junk) s, MAGIC # tail)
      | Take used n \<Rightarrow> (Inr (Some (take n (drop used tail))), skip (length junk) s,
                        drop (used + n) tail))"
proof -
  have at: "memchr L MAGIC (junk @ MAGIC # tail) = Some (length junk)"
    using first_byte_append [OF junk, of "MAGIC # tail"] by (simp add: memchr_eq [OF L])
  have s1: "(if 0 < length junk then skip (length junk) s else s) = skip (length junk) s"
    using ok by (cases junk) auto
  have b1: "(if 0 < length junk then drop (length junk) (junk @ MAGIC # tail)
      else junk @ MAGIC # tail) = MAGIC # tail"
    by simp
  show ?thesis
    unfolding proto_split.simps [of L limit s] at option.case Let_def s1 b1
    by (auto simp: verdict_of_def split: sum.split option.split)
       (simp_all add: add.commute)
qed

lemma verdict_append:
  assumes "verdict_of limit tail \<noteq> Wait"
  shows "verdict_of limit (tail @ rest) = verdict_of limit tail"
proof -
  have "read_varint tail \<noteq> Inr None"
    using assms by (auto simp: verdict_of_def)
  from read_varint_append [OF this] assms show ?thesis
    by (auto simp: verdict_of_def split: sum.splits option.splits if_splits)
qed

lemma verdict_Take_length:
  "verdict_of limit tail = Take used n \<Longrightarrow> used + n \<le> length tail \<and> n \<le> limit \<and> 0 < used"
  by (auto simp: verdict_of_def read_varint_consumes split: sum.splits option.splits if_splits)

text \<open>An induction that follows the scanner: no magic byte, or the first one.\<close>

lemma magic_induct [case_names junk magic]:
  assumes "\<And>buf. MAGIC \<notin> set buf \<Longrightarrow> P buf"
    and "\<And>junk tail. MAGIC \<notin> set junk \<Longrightarrow> P tail \<Longrightarrow> P (junk @ MAGIC # tail)"
  shows "P buf"
proof (induction "length buf" arbitrary: buf rule: less_induct)
  case less
  show ?case
  proof (cases "MAGIC \<in> set buf")
    case True
    then obtain junk tail where "buf = junk @ MAGIC # tail" "MAGIC \<notin> set junk"
      by (meson split_list_first)
    with less assms(2) show ?thesis by simp
  qed (simp add: assms(1))
qed

section \<open>The framing contract\<close>

lemma proto_split_ok: "search_ok L \<Longrightarrow> proto_ok s \<Longrightarrow>
    proto_split L limit s buf = (r, s', buf') \<Longrightarrow> proto_ok s'"
proof (induction buf arbitrary: s rule: magic_induct)
  case (junk buf)
  then show ?case by (auto simp: proto_split_junk)
next
  case (magic junk tail)
  have "proto_ok s'"
    if "proto_split L limit (skip (Suc (length junk)) s) tail = (r, s', buf')"
    using that magic.IH magic.prems(1) proto_ok_skip by blast
  with magic.prems magic.hyps show ?case by (auto simp: proto_split_magic split: verdict.splits)
qed

lemma proto_split_no_error: "search_ok L \<Longrightarrow> proto_ok s \<Longrightarrow>
    \<exists>f s' buf'. proto_split L limit s buf = (Inr f, s', buf')"
proof (induction buf arbitrary: s rule: magic_induct)
  case (junk buf)
  then show ?case by (auto simp: proto_split_junk)
next
  case (magic junk tail)
  then show ?case by (auto simp: proto_split_magic split: verdict.splits)
qed

text \<open>Every byte of the buffer is junk, header, payload or still in the buffer.\<close>

lemma proto_split_frame:
  assumes "search_ok L"
  shows "proto_ok s \<Longrightarrow> proto_split L limit s buf = (Inr (Some p), s', buf') \<Longrightarrow>
    (\<exists>junk pre v. buf = junk @ MAGIC # pre @ p @ buf' \<and> s' = skip (length junk) s \<and>
       read_varint (pre @ p @ buf') = Inr (Some (v, length pre)) \<and>
       unat v = length p \<and> length p \<le> limit)"
proof (induction buf arbitrary: s rule: magic_induct)
  case (junk buf)
  then show ?case by (auto simp: proto_split_junk [OF assms])
next
  case (magic junk tail)
  show ?case
  proof (cases "verdict_of limit tail")
    case Resync
    with magic.prems have
      "proto_split L limit (skip (length junk + 1) s) tail = (Inr (Some p), s', buf')"
      by (simp add: proto_split_magic [OF assms _ magic.hyps])
    from magic.IH [OF proto_ok_skip this] obtain junk2 pre v where
      "tail = junk2 @ MAGIC # pre @ p @ buf'" "s' = skip (length junk2) (skip (length junk + 1) s)"
      "read_varint (pre @ p @ buf') = Inr (Some (v, length pre))" "unat v = length p" "length p \<le> limit"
      by blast
    then show ?thesis
      by (intro exI [of _ "junk @ MAGIC # junk2"] exI [of _ pre] exI [of _ v]) simp
  next
    case Wait
    with magic.prems show ?thesis by (simp add: proto_split_magic [OF assms _ magic.hyps])
  next
    case (Take used n)
    with magic.prems have r: "p = take n (drop used tail)" "s' = skip (length junk) s"
        "buf' = drop (used + n) tail"
      by (simp_all add: proto_split_magic [OF assms _ magic.hyps])
    from Take obtain v where v: "read_varint tail = Inr (Some (v, used))" "unat v = n" "n \<le> limit"
        "used + n \<le> length tail"
      by (auto simp: verdict_of_def split: sum.splits option.splits if_splits)
    have "tail = take used tail @ p @ buf'"
      by (simp add: r(1,3) add.commute [of used] flip: drop_drop)
    with r v show ?thesis
      by (intro exI [of _ junk] exI [of _ "take used tail"] exI [of _ v]) (auto simp: min_def)
  qed
qed

lemma proto_split_wait:
  assumes "search_ok L"
  shows "proto_ok s \<Longrightarrow> proto_split L limit s buf = (Inr None, s', buf') \<Longrightarrow>
    (\<exists>junk. buf = junk @ buf' \<and> s' = skip (length junk) s) \<and>
    (buf' = [] \<or> (\<exists>tail. buf' = MAGIC # tail \<and> verdict_of limit tail = Wait))"
proof (induction buf arbitrary: s rule: magic_induct)
  case (junk buf)
  then show ?case by (auto simp: proto_split_junk [OF assms])
next
  case (magic junk tail)
  show ?case
  proof (cases "verdict_of limit tail")
    case Resync
    with magic.prems have
      "proto_split L limit (skip (length junk + 1) s) tail = (Inr None, s', buf')"
      by (simp add: proto_split_magic [OF assms _ magic.hyps])
    from magic.IH [OF proto_ok_skip this] obtain junk2 where
      j: "tail = junk2 @ buf'" "s' = skip (length junk2) (skip (length junk + 1) s)"
      and w: "buf' = [] \<or> (\<exists>tail. buf' = MAGIC # tail \<and> verdict_of limit tail = Wait)"
      by blast
    then show ?thesis by (auto intro!: exI [of _ "junk @ MAGIC # junk2"])
  next
    case Wait
    with magic.prems show ?thesis by (auto simp: proto_split_magic [OF assms _ magic.hyps])
  next
    case (Take used n)
    with magic.prems show ?thesis by (simp add: proto_split_magic [OF assms _ magic.hyps])
  qed
qed

lemma proto_split_frame_append:
  assumes "search_ok L"
  shows "proto_ok s \<Longrightarrow> proto_split L limit s buf = (Inr (Some p), s', buf') \<Longrightarrow>
    proto_split L limit s (buf @ rest) = (Inr (Some p), s', buf' @ rest)"
proof (induction buf arbitrary: s rule: magic_induct)
  case (junk buf)
  then show ?case by (auto simp: proto_split_junk [OF assms])
next
  case (magic junk tail)
  have "verdict_of limit tail \<noteq> Wait"
    using magic.prems by (auto simp: proto_split_magic [OF assms _ magic.hyps])
  from verdict_append [OF this, of rest] magic show ?case
    by (auto simp: proto_split_magic [OF assms _ magic.hyps] dest: verdict_Take_length
        split: verdict.splits)
qed

lemma proto_split_wait_append:
  assumes "search_ok L"
  shows "proto_ok s \<Longrightarrow> proto_split L limit s buf = (Inr None, s', buf') \<Longrightarrow>
    proto_split L limit s' (buf' @ rest) = proto_split L limit s (buf @ rest)"
proof (induction buf arbitrary: s rule: magic_induct)
  case (junk buf)
  then have r: "s' = skip (length buf) s" "buf' = []" by (simp_all add: proto_split_junk [OF assms])
  show ?case
  proof (cases "MAGIC \<in> set rest")
    case True
    then obtain us vs where u: "rest = us @ MAGIC # vs" "MAGIC \<notin> set us"
      by (meson split_list_first)
    then have "MAGIC \<notin> set (buf @ us)" using junk(1) by simp
    from proto_split_magic [OF assms junk(2) this, of limit vs] u r
      proto_split_magic [OF assms proto_ok_skip u(2), of limit _ s vs]
    show ?thesis by (simp add: add.assoc split: verdict.splits)
  next
    case False
    then show ?thesis using junk(1) by (simp add: proto_split_junk [OF assms] r)
  qed
next
  case (magic junk tail)
  show ?case
  proof (cases "verdict_of limit tail")
    case Resync
    with verdict_append [of limit tail rest] magic show ?thesis
      by (simp add: proto_split_magic [OF assms _ magic.hyps])
  next
    case Wait
    with magic.prems have "s' = skip (length junk) s" "buf' = MAGIC # tail"
      by (simp_all add: proto_split_magic [OF assms _ magic.hyps])
    then show ?thesis
      using proto_split_magic [OF assms proto_ok_skip, of "[]" limit "length junk" s "tail @ rest"]
        proto_split_magic [OF assms magic.prems(1) magic.hyps, of limit "tail @ rest"]
      by (simp split: verdict.splits)
  next
    case (Take used n)
    with magic.prems show ?thesis by (simp add: proto_split_magic [OF assms _ magic.hyps])
  qed
qed

lemma proto_framer:
  assumes "search_ok L"
  shows "total_framer (proto_split L limit) (\<lambda>s buf. proto_ok s)"
proof
  fix s :: proto_scanner and buf r s' buf'
  assume "proto_ok s" "proto_split L limit s buf = (r, s', buf')"
  then show "proto_ok s'" by (rule proto_split_ok [OF assms])
next
  fix s :: proto_scanner and buf f s' buf'
  assume "proto_ok s" "proto_split L limit s buf = (Inr (Some f), s', buf')"
  from proto_split_frame [OF assms this] show "length buf' < length buf" by auto
next
  fix s :: proto_scanner and buf e s' buf'
  assume "proto_ok s" "proto_split L limit s buf = (Inl e, s', buf')"
  then show "(\<exists>n. e = Oversized n) \<and> length buf' < length buf"
    using proto_split_no_error [OF assms, of s limit buf] by auto
next
  fix s :: proto_scanner and buf e s' buf' rest
  assume "proto_ok s" "proto_split L limit s buf = (Inl e, s', buf')"
  then show "\<exists>e' s2 buf2. proto_split L limit s (buf @ rest) = (Inl e', s2, buf2)"
    using proto_split_no_error [OF assms, of s limit buf] by auto
qed (use proto_split_frame_append [OF assms] proto_split_wait_append [OF assms]
      proto_split_no_error [OF assms] in blast)+

interpretation proto: total_framer "proto_split plain_search limit" "\<lambda>s buf. proto_ok s" for limit
  by (rule proto_framer) (rule search_ok_plain)

section \<open>The encoder's frames\<close>

lemma proto_encode_eq:
  "proto_encode p dst = dst @ MAGIC # put_varint (of_nat (length p)) [] @ p"
  by (simp add: proto_encode_def put_varint_eq [of _ "dst @ [MAGIC]"])

lemma verdict_put:
  assumes "length p \<le> limit" and "length p < 2 ^ 64"
  shows "verdict_of limit (put_varint (of_nat (length p)) [] @ p @ rest) =
    Take (length (put_varint (of_nat (length p)) [])) (length p)"
proof -
  have "unat (of_nat (length p) :: 64 word) = length p"
    using assms by (simp add: unat_of_nat take_bit_nat_eq_self)
  with assms(1) show ?thesis by (simp add: verdict_of_def read_varint_put)
qed

lemma proto_split_encode:
  assumes "search_ok L" and "proto_ok s" and "MAGIC \<notin> set junk"
    and "length p \<le> limit" and "length p < 2 ^ 64"
  shows "proto_split L limit s (junk @ proto_encode p [] @ rest) =
    (Inr (Some p), skip (length junk) s, rest)"
  using assms verdict_put [of p limit rest]
  by (simp add: proto_encode_eq proto_split_magic)

lemma proto_drains_encode:
  assumes "search_ok L" and "proto_ok s" and "\<forall>p \<in> set ps. length p \<le> limit" and "limit < 2 ^ 64"
  shows "drains (proto_split L limit) s (concat (map (\<lambda>p. proto_encode p []) ps)) ps s []"
  using assms(3)
proof (induction ps)
  case Nil
  have "proto_split L limit s [] = (Inr None, s, [])"
    using assms(2) by (simp add: proto_split_junk [OF assms(1)])
  then show ?case by (simp add: drains_wait)
next
  case (Cons p ps)
  then show ?case
    using proto_split_encode [OF assms(1,2), of "[]" p limit "concat (map (\<lambda>p. proto_encode p []) ps)"]
      assms(2,4)
    by (auto intro: drains_frame)
qed

lemma foldl_proto_encode:
  "foldl (\<lambda>dst p. proto_encode p dst) dst ps = dst @ concat (map (\<lambda>p. proto_encode p []) ps)"
  by (induction ps arbitrary: dst) (simp_all add: proto_encode_eq)

section \<open>Properties\<close>

text \<open>A list of payloads, each within the cap, written frame after frame by the encoder and
  received in reads of any sizes, is delivered exactly: the same payloads in the same order,
  nothing skipped and nothing left in the buffer.\<close>

theorem proto_stream_delivered:
  assumes "search_ok L" and "limit < 2 ^ 64" and "\<forall>p \<in> set ps. length p \<le> limit"
    and "concat chunks = foldl (\<lambda>dst p. proto_encode p dst) [] ps"
  shows "feeds (proto_split L limit) proto_new [] chunks ps proto_new []"
proof (cases "chunks = []")
  case True
  with assms(4) have "concat (map (\<lambda>p. proto_encode p []) ps) = []" by (simp add: foldl_proto_encode)
  then have "ps = []" by (cases ps) (auto simp: proto_encode_eq)
  with True show ?thesis by (simp add: feeds_end)
next
  case False
  have ok: "proto_ok proto_new" by (simp add: proto_ok_def proto_new_def)
  from proto_drains_encode [OF assms(1) ok assms(3,2)] assms(4)
  have "drains (proto_split L limit) proto_new ([] @ concat chunks) ps proto_new []"
    by (simp add: foldl_proto_encode)
  with framer.feeds_iff_drains [OF total_framer.axioms(1) [OF proto_framer [OF assms(1)]] ok False] show ?thesis by blast
qed

theorem proto_stream_delivered_witness:
  "feeds (proto_split plain_search 100) proto_new [] [[0xBF], [2, 8], [1, 0xBF, 0]] [[8, 1], []]
     proto_new []"
  by (rule proto_stream_delivered)
     (simp_all add: search_ok_plain proto_encode_def MAGIC_def put_varint.simps)

text \<open>Delivery does not depend on how the stream is cut into reads: for a scanner in any
  reachable state, feeding the pieces one at a time yields the frames, the scanner state (the
  count of skipped bytes included) and the leftover buffer of feeding the whole at once.\<close>

theorem proto_chunking_irrelevant:
  assumes "search_ok L" and "proto_ok s" and "chunks \<noteq> []"
  shows "feeds (proto_split L limit) s buf chunks fs s' buf' \<longleftrightarrow>
    drains (proto_split L limit) s (buf @ concat chunks) fs s' buf'"
  using framer.feeds_iff_drains [OF total_framer.axioms(1) [OF proto_framer [OF assms(1)]]] assms(2,3) by blast

theorem proto_chunking_irrelevant_witness:
  "feeds (proto_split plain_search 9) proto_new [7] [[0xBF, 1], [5, 0xBF]] [[5]] (skip 1 proto_new) [0xBF] \<longleftrightarrow>
    drains (proto_split plain_search 9) proto_new ([7] @ concat [[0xBF, 1], [5, 0xBF]]) [[5]]
      (skip 1 proto_new) [0xBF]"
  by (rule proto_chunking_irrelevant) (simp_all add: search_ok_plain proto_ok_def proto_new_def)

text \<open>The scanner loses no byte silently: a returned frame splits the buffer into skipped
  bytes (counted exactly), the magic byte, a well-formed length prefix, the payload it announces,
  within the cap, and the untouched rest.\<close>

theorem proto_frame_conserves:
  assumes "search_ok L" and "proto_ok s"
    and "proto_split L limit s buf = (Inr (Some payload), s', buf')"
  shows "\<exists>junk pre v. buf = junk @ MAGIC # pre @ payload @ buf' \<and> s' = skip (length junk) s \<and>
    read_varint (pre @ payload @ buf') = Inr (Some (v, length pre)) \<and>
    unat v = length payload \<and> length payload \<le> limit"
  using assms by (rule proto_split_frame)

theorem proto_frame_conserves_witness:
  "\<exists>junk pre v. [3, 0xBF, 1, 7, 9] = junk @ MAGIC # pre @ [7] @ [9] \<and>
    \<lparr>skipped = 1\<rparr> = skip (length junk) proto_new \<and>
    read_varint (pre @ [7] @ [9]) = Inr (Some (v, length pre)) \<and>
    unat v = length [7 :: byte] \<and> length [7 :: byte] \<le> 4"
  by (rule proto_frame_conserves [OF search_ok_plain])
     (simp_all add: proto_ok_def proto_new_def proto_split.simps plain_search_def MAGIC_def
       starts_with_def skip_def sat_add_u64_def u64_max_def read_varint_def varint_max_len_def)

text \<open>A connection cannot be made to buffer without bound: when the scanner asks for more
  it keeps at most the cap plus ten bytes, and what it dropped is counted.\<close>

theorem proto_buffer_bounded:
  assumes "search_ok L" and "proto_ok s"
    and "proto_split L limit s buf = (Inr None, s', buf')"
  shows "length buf' \<le> limit + 10 \<and> (\<exists>junk. buf = junk @ buf' \<and> s' = skip (length junk) s)"
proof -
  have "length buf' \<le> limit + 10" if "buf' = MAGIC # tail" "verdict_of limit tail = Wait" for tail
  proof (cases "read_varint tail = Inr None")
    case True
    with that show ?thesis by (simp add: read_varint_None_iff)
  next
    case False
    with that obtain v n where v: "read_varint tail = Inr (Some (v, n))" "unat v \<le> limit"
        "length tail < n + unat v"
      by (auto simp: verdict_of_def split: sum.splits option.splits if_splits)
    with read_varint_consumes(3) [OF v(1)] that show ?thesis by (simp add: varint_max_len_def)
  qed
  with proto_split_wait [OF assms] show ?thesis by fastforce
qed

theorem proto_buffer_bounded_witness:
  "length [0xBF, 3, 1 :: byte] \<le> 4 + 10 \<and>
    (\<exists>junk. [0, 0xBF, 3, 1] = junk @ [0xBF, 3, 1 :: byte] \<and> \<lparr>skipped = 1\<rparr> = skip (length junk) proto_new)"
  by (rule proto_buffer_bounded [OF search_ok_plain])
     (simp_all add: proto_ok_def proto_new_def proto_split.simps plain_search_def MAGIC_def
       starts_with_def skip_def sat_add_u64_def u64_max_def read_varint_def varint_max_len_def)

end
