(* ===== verification/Xml_Frame.thy ===== *)
theory Xml_Frame
  imports Framing
begin

text \<open>
  Splitting a byte stream into \<open><event>...</event>\<close> messages
  (\<open>rustak-cot/src/codec/xml_frame.rs\<close>): the search for a start tag whose name is properly
  ended, the search for the end tag that resumes where the last read left off, and the size cap.
\<close>

section \<open>Model\<close>

definition START :: bytes where
  "START = raw ''<event''"

definition END :: bytes where
  "END = raw ''</event>''"

definition ends_name :: "byte \<Rightarrow> bool" where
  "ends_name b \<longleftrightarrow> b = 0x20 \<or> b = 0x3E \<or> b = 0x09 \<or> b = 0x0A \<or> b = 0x0D"

datatype start = At nat | Maybe nat | NoStart

text \<open>The search loop over whole tokens; \<open>None\<close> is the loop ending.\<close>

function find_token :: "search_lib \<Rightarrow> bytes \<Rightarrow> nat \<Rightarrow> start option" where
  "find_token L hay from =
     (case memmem L (drop from hay) START of
        None \<Rightarrow> None
      | Some offset \<Rightarrow>
          let at = from + offset
          in if at + length START < length hay then
               if ends_name (hay ! (at + length START)) then Some (At at)
               else find_token L hay (at + 1)
             else Some (Maybe at))"
  by pat_completeness auto
termination
  by (relation "measure (\<lambda>(L, hay, from). length hay - from)") auto

declare find_token.simps [simp del]

text \<open>The longest suffix that is a prefix of the token, tried from \<open>keep\<close> down.\<close>

fun find_suffix :: "bytes \<Rightarrow> nat \<Rightarrow> start" where
  "find_suffix hay 0 = NoStart"
| "find_suffix hay (Suc k) =
     (if drop (length hay - Suc k) hay = take (Suc k) START then Maybe (length hay - Suc k)
      else find_suffix hay k)"

definition find_start :: "search_lib \<Rightarrow> bytes \<Rightarrow> start" where
  "find_start L hay =
     (case find_token L hay 0 of
        Some r \<Rightarrow> r
      | None \<Rightarrow> find_suffix hay (min (length START) (length hay)))"

record xml_scanner =
  scanned :: nat

definition xml_new :: xml_scanner where
  "xml_new = \<lparr>scanned = 0\<rparr>"

text \<open>Alignment on a start tag: \<open>Inl\<close> is an early return with what is left of the buffer.\<close>

definition xml_align :: "search_lib \<Rightarrow> xml_scanner \<Rightarrow> bytes \<Rightarrow> bytes + bytes" where
  "xml_align L s buf =
     (if scanned s = 0 then
        (case find_start L buf of
           At at \<Rightarrow> Inr (if at = 0 then buf else drop at buf)
         | Maybe at \<Rightarrow> Inl (drop at buf)
         | NoStart \<Rightarrow> Inl [])
      else Inr buf)"

definition xml_split :: "search_lib \<Rightarrow> nat \<Rightarrow> xml_scanner \<Rightarrow> bytes \<Rightarrow>
    bytes framed \<times> xml_scanner \<times> bytes" where
  "xml_split L limit s buf =
     (case xml_align L s buf of
        Inl rest \<Rightarrow> (Inr None, s, rest)
      | Inr buf \<Rightarrow>
          let from = scanned s - (length END - 1)
          in case memmem L (drop from buf) END of
               Some offset \<Rightarrow>
                 let stop = from + offset + length END; s' = s\<lparr>scanned := 0\<rparr>
                 in if limit < stop then (Inl (Oversized stop), s', drop stop buf)
                    else (Inr (Some (take stop buf)), s', drop stop buf)
             | None \<Rightarrow>
                 let s' = s\<lparr>scanned := length buf\<rparr>
                 in if limit < length buf then (Inl (Oversized (length buf)), s'\<lparr>scanned := 0\<rparr>, [])
                    else (Inr None, s', buf))"

section \<open>Where a message can start\<close>

lemma length_START [simp]: "length START = 6"
  by (simp add: START_def)

lemma length_END [simp]: "length END = 8"
  by (simp add: END_def)

lemma START_END_nonempty [simp]: "START \<noteq> []" "END \<noteq> []"
  by (simp_all add: START_def END_def)

text \<open>A buffer opens with a start tag, or may still become one.\<close>

definition opens :: "bytes \<Rightarrow> bool" where
  "opens s \<longleftrightarrow> 6 < length s \<and> starts_with s START \<and> ends_name (s ! 6)"

definition live :: "bytes \<Rightarrow> bool" where
  "live s \<longleftrightarrow> s \<noteq> [] \<and> (if length s \<le> 6 then starts_with START s else opens s)"

lemma live_append_dead: "s \<noteq> [] \<Longrightarrow> \<not> live s \<Longrightarrow> \<not> live (s @ t)"
proof -
  assume "s \<noteq> []" "\<not> live s"
  show "\<not> live (s @ t)"
  proof (cases "length s \<le> 6")
    case True
    with \<open>\<not> live s\<close> \<open>s \<noteq> []\<close> have d: "take (length s) START \<noteq> s"
      by (simp add: live_def starts_with_def)
    have "take (length s) (take 6 (s @ t)) = s" using True by simp
    with d have "take 6 (s @ t) \<noteq> START" by metis
    moreover have "take (length s + length t) START \<noteq> s @ t"
    proof
      assume "take (length s + length t) START = s @ t"
      then have "take (length s) (take (length s + length t) START) = s" by simp
      with d show False by (simp add: min_def)
    qed
    ultimately show ?thesis by (auto simp: live_def opens_def starts_with_def)
  next
    case False
    with \<open>\<not> live s\<close> have "\<not> opens s" by (auto simp: live_def)
    with False show ?thesis
      by (auto simp: live_def opens_def starts_with_long nth_append)
  qed
qed

lemma opens_append: "opens s \<Longrightarrow> opens (s @ t)"
  by (auto simp: opens_def starts_with_mono nth_append)

lemma live_short: "length s \<le> 6 \<Longrightarrow> live s \<longleftrightarrow> s \<noteq> [] \<and> s = take (length s) START"
  by (auto simp: live_def starts_with_def)

lemma live_long: "6 < length s \<Longrightarrow> live s \<longleftrightarrow> opens s"
  by (auto simp: live_def)

definition start_of :: "bytes \<Rightarrow> start" where
  "start_of hay =
     (case first_pos live hay of
        None \<Rightarrow> NoStart
      | Some i \<Rightarrow> if i + 6 < length hay then At i else Maybe i)"

lemma start_of_dead: "\<forall>j < length hay. \<not> live (drop j hay) \<Longrightarrow> start_of hay = NoStart"
  using first_pos_None [of live hay] by (simp add: start_of_def)

lemma start_of_live:
  "i < length hay \<Longrightarrow> live (drop i hay) \<Longrightarrow> \<forall>j < i. \<not> live (drop j hay) \<Longrightarrow>
   start_of hay = (if i + 6 < length hay then At i else Maybe i)"
  using first_pos_Some [of live hay i] by (simp add: start_of_def)

lemma find_suffix_start_of:
  "k \<le> 6 \<Longrightarrow> k \<le> length hay \<Longrightarrow> \<forall>j < length hay - k. \<not> live (drop j hay) \<Longrightarrow>
   find_suffix hay k = start_of hay"
proof (induction k)
  case 0
  then show ?case by (simp add: start_of_dead)
next
  case (Suc k)
  let ?j = "length hay - Suc k"
  have live: "live (drop ?j hay) \<longleftrightarrow> drop ?j hay = take (Suc k) START"
    using Suc.prems by (auto simp: live_short)
  show ?case
  proof (cases "drop ?j hay = take (Suc k) START")
    case True
    with live Suc.prems show ?thesis by (subst start_of_live [of ?j]) auto
  next
    case False
    have "\<not> live (drop j hay)" if "j < length hay - k" for j
    proof (cases "j = ?j")
      case True
      with live False show ?thesis by simp
    next
      case ne: False
      with that Suc.prems(2) have "j < ?j" by simp
      with Suc.prems(3) show ?thesis by blast
    qed
    with Suc False show ?thesis by simp
  qed
qed

lemma live_at_token:
  "starts_with (drop at hay) START \<Longrightarrow>
   live (drop at hay) \<longleftrightarrow> (at + 6 < length hay \<longrightarrow> ends_name (hay ! (at + 6)))"
proof -
  assume a: "starts_with (drop at hay) START"
  then have len: "6 \<le> length hay - at" using starts_with_length [of "drop at hay" START] by simp
  show ?thesis
  proof (cases "length hay - at = 6")
    case True
    with a have "drop at hay = START" by (simp add: starts_with_def)
    moreover have "\<not> at + 6 < length hay" using True by simp
    ultimately show ?thesis by (simp add: live_short)
  next
    case False
    with len have "6 < length (drop at hay)" by simp
    moreover from this have "at + 6 < length hay" by simp
    ultimately show ?thesis using a by (simp add: live_long opens_def)
  qed
qed

lemma not_live_between:
  assumes "\<forall>j. from \<le> j \<and> j < at \<longrightarrow> \<not> starts_with (drop j hay) START"
    and "at + 6 \<le> length hay" and "from \<le> j" and "j < at"
  shows "\<not> live (drop j hay)"
proof -
  have "6 < length (drop j hay)" using assms(2,4) by simp
  with assms(1,3,4) show ?thesis by (simp add: live_long opens_def)
qed

lemma find_token_start_of:
  assumes "search_ok L"
  shows "\<forall>j < from. \<not> live (drop j hay) \<Longrightarrow> from \<le> length hay \<Longrightarrow>
    (case find_token L hay from of
       Some r \<Rightarrow> r = start_of hay
     | None \<Rightarrow> \<forall>j. j + 6 < length hay \<longrightarrow> \<not> live (drop j hay))"
proof (induction "length hay - from" arbitrary: "from" rule: less_induct)
  case less
  note eq = find_token.simps [of L hay "from"] memmem_eq [OF assms START_END_nonempty(1)]
  show ?case
  proof (cases "first_sub START (drop from hay)")
    case None
    then have none: "\<not> starts_with (drop j hay) START" if "from \<le> j" "j < length hay" for j
      using that by (auto simp: first_pos_None dest!: spec [of _ "j - from"])
    have "\<not> live (drop j hay)" if "j + 6 < length hay" for j
    proof (cases "j < from")
      case False
      have "6 < length (drop j hay)" using that by simp
      with none [of j] that False show ?thesis by (simp add: live_long opens_def)
    qed (use less in simp)
    with None show ?thesis by (simp add: eq)
  next
    case (Some off)
    define at where "at = from + off"
    from Some have at: "at < length hay" "starts_with (drop at hay) START"
      and btw: "\<forall>j < off. \<not> starts_with (drop j (drop from hay)) START"
      by (auto simp: first_pos_Some at_def add.commute)
    have "\<forall>j. from \<le> j \<and> j < at \<longrightarrow> \<not> starts_with (drop j hay) START"
    proof (intro allI impI)
      fix j assume "from \<le> j \<and> j < at"
      then show "\<not> starts_with (drop j hay) START"
        using btw [rule_format, of "j - from"] by (simp add: at_def less_diff_conv2)
    qed
    moreover have len: "at + 6 \<le> length hay"
      using starts_with_length [OF at(2)] at(1) by simp
    ultimately have dead: "\<forall>j < at. \<not> live (drop j hay)"
      using less(2) not_live_between by (metis not_le)
    have step: "find_token L hay from =
        (if at + 6 < length hay then
           if ends_name (hay ! (at + 6)) then Some (At at) else find_token L hay (at + 1)
         else Some (Maybe at))"
      by (simp add: eq Some at_def)
    show ?thesis
    proof (cases "live (drop at hay)")
      case True
      with at dead have "start_of hay = (if at + 6 < length hay then At at else Maybe at)"
        by (intro start_of_live) auto
      with True live_at_token [OF at(2)] show ?thesis by (simp add: step)
    next
      case False
      with live_at_token [OF at(2)] have out: "at + 6 < length hay" "\<not> ends_name (hay ! (at + 6))"
        by auto
      have "\<forall>j < at + 1. \<not> live (drop j hay)"
        using dead False by (auto simp: less_Suc_eq)
      then show ?thesis
        using less(1) [of "at + 1"] out by (simp add: step at_def)
    qed
  qed
qed

lemma find_start_eq: "search_ok L \<Longrightarrow> find_start L hay = start_of hay"
proof -
  assume "search_ok L"
  from find_token_start_of [OF this, of 0 hay]
  have r: "case find_token L hay 0 of Some r \<Rightarrow> r = start_of hay
      | None \<Rightarrow> \<forall>j. j + 6 < length hay \<longrightarrow> \<not> live (drop j hay)" by simp
  show ?thesis
  proof (cases "find_token L hay 0")
    case None
    with r have "find_suffix hay (min (length START) (length hay)) = start_of hay"
      by (intro find_suffix_start_of) auto
    with None show ?thesis by (simp add: find_start_def)
  next
    case (Some x)
    with r show ?thesis by (simp add: find_start_def)
  qed
qed

text \<open>The search restarts soundly on the bytes it kept.\<close>

lemma first_live_append:
  "first_pos live buf = None \<Longrightarrow>
     first_pos live (buf @ rest) = map_option ((+) (length buf)) (first_pos live rest)"
  by (rule first_pos_append_dead) (metis drop_eq_Nil first_pos_None live_append_dead not_le)

lemma first_live_append_Some:
  "first_pos live buf = Some i \<Longrightarrow>
     first_pos live (buf @ rest) = map_option ((+) i) (first_pos live (drop i buf @ rest))"
proof -
  assume "first_pos live buf = Some i"
  then have i: "i < length buf" "\<forall>j < i. \<not> live (drop j buf)" by (simp_all add: first_pos_Some)
  then have "first_pos live (take i buf @ (drop i buf @ rest)) =
      map_option ((+) (length (take i buf))) (first_pos live (drop i buf @ rest))"
  proof (intro first_pos_append_dead)
    fix j assume "j < length (take i buf)"
    with i have "drop j buf \<noteq> []" "\<not> live (drop j buf)" by auto
    then have "\<not> live (drop j buf @ rest)" by (rule live_append_dead)
    moreover have "drop j (take i buf) @ drop i buf @ rest = drop j buf @ rest"
      using \<open>j < length (take i buf)\<close>
      by (metis append_assoc append_take_drop_id drop_append length_take less_imp_le_nat
          diff_is_0_eq drop0)
    ultimately show "\<not> live (drop j (take i buf) @ drop i buf @ rest)" by metis
  qed
  with i(1) show ?thesis by (simp add: min_def flip: append_assoc)
qed

section \<open>The reference scanner\<close>

text \<open>
  What \<open>xml_split\<close> computes, without the memory of earlier searches: the state never changes the
  result, it only saves work.
\<close>

definition cut :: "nat \<Rightarrow> bytes \<Rightarrow> bytes framed \<times> xml_scanner \<times> bytes" where
  "cut limit b =
     (case first_sub END b of
        Some offset \<Rightarrow>
          (if limit < offset + 8 then Inl (Oversized (offset + 8))
           else Inr (Some (take (offset + 8) b)), xml_new, drop (offset + 8) b)
      | None \<Rightarrow>
          if limit < length b then (Inl (Oversized (length b)), xml_new, [])
          else (Inr None, \<lparr>scanned = length b\<rparr>, b))"

definition ref_split :: "nat \<Rightarrow> bytes \<Rightarrow> bytes framed \<times> xml_scanner \<times> bytes" where
  "ref_split limit buf =
     (case start_of buf of
        At at \<Rightarrow> cut limit (drop at buf)
      | Maybe at \<Rightarrow> (Inr None, xml_new, drop at buf)
      | NoStart \<Rightarrow> (Inr None, xml_new, []))"

text \<open>A non-zero memory means: aligned on a start tag, and no end tag in the searched part.\<close>

definition xml_ok :: "xml_scanner \<Rightarrow> bytes \<Rightarrow> bool" where
  "xml_ok s buf \<longleftrightarrow>
     scanned s = 0 \<or>
     (scanned s \<le> length buf \<and> opens (take (scanned s) buf) \<and>
      (\<forall>j. j + 8 \<le> scanned s \<longrightarrow> \<not> starts_with (drop j buf) END))"

lemma xml_ok_new [simp]: "xml_ok xml_new buf"
  by (simp add: xml_ok_def xml_new_def)

lemma opens_live: "opens s \<Longrightarrow> live s"
  by (auto simp: live_def opens_def)

lemma opens_start_of: "opens s \<Longrightarrow> start_of s = At 0"
  using start_of_live [of 0 s] opens_live [of s] by (cases s) (auto simp: opens_def)

lemma opens_take: "opens (take n s) \<Longrightarrow> opens s"
  using opens_append [of "take n s" "drop n s"] by simp

lemma xml_split_ref:
  assumes "search_ok L" and "xml_ok s buf"
  shows "xml_split L limit s buf = ref_split limit buf"
proof (cases "scanned s = 0")
  case True
  then have "s = xml_new" by (simp add: xml_new_def)
  then show ?thesis
    by (auto simp: xml_split_def xml_align_def ref_split_def cut_def find_start_eq [OF assms(1)]
        memmem_eq [OF assms(1)] xml_new_def Let_def split: start.splits option.splits)
next
  case False
  with assms(2) have ok: "scanned s \<le> length buf" "opens (take (scanned s) buf)"
    "\<And>j. j + 8 \<le> scanned s \<Longrightarrow> \<not> starts_with (drop j buf) END"
    by (auto simp: xml_ok_def)
  define resume where "resume = scanned s - 7"
  have "first_sub END buf = map_option ((+) resume) (first_sub END (drop resume buf))"
    using ok by (intro first_pos_drop) (auto simp: resume_def)
  then show ?thesis
    using False opens_start_of [OF opens_take [OF ok(2)]]
    by (cases "first_sub END (drop resume buf)")
       (auto simp: xml_split_def xml_align_def ref_split_def cut_def memmem_eq [OF assms(1)]
         xml_new_def Let_def simp flip: resume_def)
qed

section \<open>The framing contract\<close>

lemma cut_ok: "opens b \<Longrightarrow> cut limit b = (r, s', buf') \<Longrightarrow> xml_ok s' buf'"
  by (auto simp: cut_def xml_ok_def first_pos_None xml_new_def split: option.splits if_splits)

lemma start_of_At: "start_of buf = At i \<Longrightarrow> first_pos live buf = Some i \<and> i < length buf \<and> opens (drop i buf)"
  by (auto simp: start_of_def first_pos_Some live_long split: option.splits if_splits)

lemma start_of_cases:
  obtains "start_of buf = NoStart" "first_pos live buf = None"
  | i where "start_of buf = At i" "first_pos live buf = Some i" "i < length buf" "opens (drop i buf)"
  | i where "start_of buf = Maybe i" "first_pos live buf = Some i" "i < length buf" "length buf \<le> i + 6"
  by (cases "start_of buf")
     (auto simp: start_of_def first_pos_Some live_long split: option.splits if_splits)

lemma ref_split_ok: "ref_split limit buf = (r, s', buf') \<Longrightarrow> xml_ok s' buf'"
  by (cases rule: start_of_cases [of buf]) (auto simp: ref_split_def intro: cut_ok)

lemma xml_ok_append: "xml_ok s buf \<Longrightarrow> xml_ok s (buf @ rest)"
  by (auto simp: xml_ok_def starts_with_long)

lemma first_sub_bound: "first_sub p b = Some i \<Longrightarrow> i + length p \<le> length b"
proof -
  assume "first_sub p b = Some i"
  then have "starts_with (drop i b) p" "i < length b" by (simp_all add: first_pos_Some)
  from starts_with_length [OF this(1)] this(2) show ?thesis by simp
qed

lemma first_sub_append: "first_sub p b = Some i \<Longrightarrow> first_sub p (b @ rest) = Some i"
proof -
  assume i: "first_sub p b = Some i"
  then have "i + length p \<le> length b" by (rule first_sub_bound)
  with i show ?thesis by (auto simp: first_pos_Some starts_with_long)
qed

lemma ref_split_shift:
  assumes "first_pos live (buf @ rest) = map_option ((+) i) (first_pos live (drop i buf @ rest))"
    and "i \<le> length buf"
  shows "ref_split limit (buf @ rest) = ref_split limit (drop i buf @ rest)"
  using assms
  by (auto simp: ref_split_def start_of_def add.commute [of i] split: option.splits)

lemma ref_split_frame:
  assumes "ref_split limit buf = (Inr (Some m), s', buf')"
  shows "\<exists>junk. buf = junk @ m @ buf' \<and> first_pos live buf = Some (length junk) \<and> opens m \<and>
    first_sub END m = Some (length m - 8) \<and> 8 \<le> length m \<and> length m \<le> limit \<and> s' = xml_new"
proof -
  from assms obtain i where i: "start_of buf = At i" "first_pos live buf = Some i" "i < length buf"
    "opens (drop i buf)" and c: "cut limit (drop i buf) = (Inr (Some m), s', buf')"
    by (cases rule: start_of_cases [of buf]) (auto simp: ref_split_def)
  let ?b = "drop i buf"
  from c obtain k where k: "first_sub END ?b = Some k" "k + 8 \<le> limit" "m = take (k + 8) ?b"
    "buf' = drop (k + 8) ?b" "s' = xml_new"
    by (auto simp: cut_def split: option.splits if_splits)
  from first_sub_bound [OF k(1)] have len: "k + 8 \<le> length ?b" by simp
  have b: "?b = m @ buf'" unfolding k(3,4) by (rule append_take_drop_id [symmetric])
  have lm: "length m = k + 8" using k len by simp
  from k(1) have "k < length ?b" "starts_with (drop k ?b) END"
    and before: "\<And>j. j < k \<Longrightarrow> \<not> starts_with (drop j ?b) END" by (simp_all add: first_pos_Some)
  have same: "starts_with (drop j ?b) END \<longleftrightarrow> starts_with (drop j m) END" if "j \<le> k" for j
    using that lm by (simp add: b starts_with_long)
  have "first_sub END m = Some k"
    unfolding first_pos_Some
  proof (intro conjI allI impI)
    show "k < length m" using lm by simp
    show "starts_with (drop k m) END" using \<open>starts_with (drop k ?b) END\<close> same [of k] by blast
    show "\<not> starts_with (drop j m) END" if "j < k" for j
      using before [OF that] same [of j] that by (metis less_imp_le)
  qed
  moreover have "opens m"
  proof -
    have "6 < length m"
    proof (rule ccontr)
      assume "\<not> 6 < length m"
      with lm show False by simp
    qed
    with i(4) b show ?thesis by (auto simp: opens_def starts_with_long nth_append)
  qed
  moreover have "buf = take i buf @ m @ buf'" using b by (metis append_take_drop_id)
  ultimately show ?thesis using i k(2,5) lm by (intro exI [of _ "take i buf"]) simp
qed

lemma ref_split_error:
  assumes "ref_split limit buf = (Inl e, s', buf')"
  shows "\<exists>junk bad. buf = junk @ bad @ buf' \<and> e = Oversized (length bad) \<and> limit < length bad \<and>
    opens bad \<and> s' = xml_new"
proof -
  from assms obtain i where i: "opens (drop i buf)" and c: "cut limit (drop i buf) = (Inl e, s', buf')"
    by (cases rule: start_of_cases [of buf]) (auto simp: ref_split_def)
  let ?b = "drop i buf"
  show ?thesis
  proof (cases "first_sub END ?b")
    case None
    with c i show ?thesis
      by (intro exI [of _ "take i buf"] exI [of _ ?b]) (auto simp: cut_def split: if_splits)
  next
    case (Some k)
    from first_sub_bound [OF this] have len: "k + 8 \<le> length ?b" by simp
    with i have "opens (take (k + 8) ?b)" by (auto simp: opens_def starts_with_def min_def)
    moreover have "buf = take i buf @ take (k + 8) ?b @ drop (k + 8) ?b"
      by (simp only: append_take_drop_id)
    moreover have "length (take (k + 8) ?b) = k + 8" using len by simp
    moreover from c Some have "limit < k + 8" "e = Oversized (k + 8)" "buf' = drop (k + 8) ?b" "s' = xml_new"
      by (auto simp: cut_def split: if_splits)
    ultimately show ?thesis by metis
  qed
qed

lemma ref_split_wait:
  assumes "ref_split limit buf = (Inr None, s', buf')"
  shows "(\<exists>junk. buf = junk @ buf') \<and> length buf' \<le> max limit 6 \<and>
    ref_split limit (buf' @ rest) = ref_split limit (buf @ rest)"
proof (cases rule: start_of_cases [of buf])
  case 1
  with assms have "buf' = []" by (simp add: ref_split_def)
  moreover have "ref_split limit (buf @ rest) = ref_split limit (drop (length buf) buf @ rest)"
    by (rule ref_split_shift) (simp_all add: first_live_append [OF 1(2)])
  ultimately show ?thesis by simp
next
  case (2 i)
  with assms have "buf' = drop i buf" "length buf' \<le> limit"
    by (auto simp: ref_split_def cut_def split: option.splits if_splits)
  moreover have "ref_split limit (buf @ rest) = ref_split limit (drop i buf @ rest)"
    by (rule ref_split_shift) (simp_all add: first_live_append_Some [OF 2(2)] 2(3) less_imp_le)
  ultimately show ?thesis by (metis append_take_drop_id le_max_iff_disj)
next
  case (3 i)
  with assms have "buf' = drop i buf" by (simp add: ref_split_def)
  moreover have "ref_split limit (buf @ rest) = ref_split limit (drop i buf @ rest)"
    by (rule ref_split_shift) (simp_all add: first_live_append_Some [OF 3(2)] 3(3) less_imp_le)
  moreover have "length (drop i buf) \<le> 6" using 3 by simp
  ultimately show ?thesis by (metis append_take_drop_id le_max_iff_disj)
qed

lemma ref_split_At_append:
  "start_of buf = At i \<Longrightarrow> ref_split limit (buf @ rest) = cut limit (drop i buf @ rest)"
proof -
  assume a: "start_of buf = At i"
  then have i: "first_pos live buf = Some i" "i < length buf" "opens (drop i buf)"
    using start_of_At [of buf i] by auto
  have "ref_split limit (buf @ rest) = ref_split limit (drop i buf @ rest)"
    by (rule ref_split_shift) (simp_all add: first_live_append_Some [OF i(1)] i(2) less_imp_le)
  also have "\<dots> = cut limit (drop i buf @ rest)"
    by (simp add: ref_split_def opens_start_of [OF opens_append [OF i(3)]])
  finally show ?thesis .
qed

lemma ref_split_frame_append:
  "ref_split limit buf = (Inr (Some m), s', buf') \<Longrightarrow>
   ref_split limit (buf @ rest) = (Inr (Some m), s', buf' @ rest)"
proof (cases rule: start_of_cases [of buf])
  case (2 i)
  assume "ref_split limit buf = (Inr (Some m), s', buf')"
  with 2 have c: "cut limit (drop i buf) = (Inr (Some m), s', buf')" by (simp add: ref_split_def)
  then obtain k where k: "first_sub END (drop i buf) = Some k"
    by (auto simp: cut_def split: option.splits if_splits)
  from first_sub_bound [OF k] first_sub_append [OF k, of rest] c k
  show ?thesis by (auto simp: ref_split_At_append [OF 2(1)] cut_def split: if_splits)
qed (auto simp: ref_split_def)

lemma ref_split_error_append:
  "ref_split limit buf = (Inl e, s', buf') \<Longrightarrow> \<exists>e' s2 buf2. ref_split limit (buf @ rest) = (Inl e', s2, buf2)"
proof (cases rule: start_of_cases [of buf])
  case (2 i)
  assume "ref_split limit buf = (Inl e, s', buf')"
  with 2 have c: "cut limit (drop i buf) = (Inl e, s', buf')" by (simp add: ref_split_def)
  let ?b = "drop i buf"
  show ?thesis
  proof (cases "first_sub END ?b")
    case None
    with c have lim: "limit < length ?b" by (auto simp: cut_def split: if_splits)
    have "limit < k + 8" if k: "first_sub END (?b @ rest) = Some k" for k
    proof (rule ccontr)
      assume "\<not> limit < k + 8"
      with lim have "k + 8 \<le> length ?b" by simp
      with k have "k < length ?b" "starts_with (drop k ?b) END"
        by (simp_all add: first_pos_Some starts_with_long)
      with None show False by (simp add: first_pos_None)
    qed
    with lim show ?thesis
      by (cases "first_sub END (?b @ rest)") (auto simp: ref_split_At_append [OF 2(1)] cut_def)
  next
    case (Some k)
    with c first_sub_append [OF Some, of rest] show ?thesis
      by (auto simp: ref_split_At_append [OF 2(1)] cut_def split: if_splits)
  qed
qed (auto simp: ref_split_def)

lemma xml_framer:
  assumes "search_ok L"
  shows "framer (xml_split L limit) xml_ok"
proof
  fix s buf r s' buf'
  assume "xml_ok s buf" "xml_split L limit s buf = (r, s', buf')"
  then show "xml_ok s' buf'" using ref_split_ok by (simp add: xml_split_ref [OF assms])
next
  fix s buf f s' buf'
  assume "xml_ok s buf" "xml_split L limit s buf = (Inr (Some f), s', buf')"
  then show "length buf' < length buf"
    using ref_split_frame [of limit buf f s' buf'] by (auto simp: xml_split_ref [OF assms])
next
  fix s buf e s' buf'
  assume "xml_ok s buf" "xml_split L limit s buf = (Inl e, s', buf')"
  then show "(\<exists>n. e = Oversized n) \<and> length buf' < length buf"
    using ref_split_error [of limit buf e s' buf'] by (auto simp: xml_split_ref [OF assms])
next
  fix s buf s' buf' rest
  assume "xml_ok s buf" "xml_split L limit s buf = (Inr None, s', buf')"
  then have "ref_split limit buf = (Inr None, s', buf')" "xml_ok s' buf'"
    using ref_split_ok [of limit buf] by (simp_all add: xml_split_ref [OF assms])
  then show "xml_split L limit s' (buf' @ rest) = xml_split L limit s (buf @ rest)"
    using ref_split_wait [of limit buf s' buf' rest] \<open>xml_ok s buf\<close>
    by (simp add: xml_split_ref [OF assms] xml_ok_append)
qed (simp_all add: xml_split_ref [OF assms] xml_ok_append ref_split_frame_append ref_split_error_append)

interpretation xml: framer "xml_split plain_search limit" xml_ok for limit
  by (rule xml_framer) (rule search_ok_plain)

section \<open>Whole messages\<close>

text \<open>
  A message after some junk: the first start tag is the message's own, and its only end tag is
  its last bytes.
\<close>

definition whole :: "bytes \<Rightarrow> bytes \<Rightarrow> bool" where
  "whole junk m \<longleftrightarrow> opens m \<and> first_pos live (junk @ m) = Some (length junk) \<and>
     first_sub END m = Some (length m - 8)"

lemma ref_split_whole:
  assumes "whole junk m" and "length m \<le> limit"
  shows "ref_split limit (junk @ m @ rest) = (Inr (Some m), xml_new, rest)"
proof -
  from assms(1) have m: "6 < length m" "first_sub END m = Some (length m - 8)"
    by (auto simp: whole_def opens_def)
  from first_sub_bound [OF m(2)] have len: "8 \<le> length m" by simp
  have "start_of (junk @ m) = At (length junk)"
    using assms(1) m(1) by (simp add: start_of_def whole_def)
  from ref_split_At_append [OF this, of limit rest]
  have "ref_split limit (junk @ m @ rest) = cut limit (m @ rest)" by simp
  with first_sub_append [OF m(2), of rest] len assms(2) show ?thesis by (simp add: cut_def)
qed

lemma ref_split_over:
  assumes "whole junk m" and "limit < length m"
  shows "ref_split limit (junk @ m @ rest) = (Inl (Oversized (length m)), xml_new, rest)"
proof -
  from assms(1) have m: "6 < length m" "first_sub END m = Some (length m - 8)"
    by (auto simp: whole_def opens_def)
  from first_sub_bound [OF m(2)] have len: "8 \<le> length m" by simp
  have "start_of (junk @ m) = At (length junk)"
    using assms(1) m(1) by (simp add: start_of_def whole_def)
  from ref_split_At_append [OF this, of limit rest]
  have "ref_split limit (junk @ m @ rest) = cut limit (m @ rest)" by simp
  with first_sub_append [OF m(2), of rest] len assms(2) show ?thesis by (simp add: cut_def)
qed

lemma xml_drains_whole:
  assumes "search_ok L"
  shows "\<forall>(junk, m) \<in> set jms. whole junk m \<and> length m \<le> limit \<Longrightarrow>
    drains (xml_split L limit) xml_new (concat (map (\<lambda>(junk, m). junk @ m) jms)) (map snd jms) xml_new []"
proof (induction jms)
  case Nil
  have "start_of [] = NoStart" by (simp add: start_of_def)
  then have "xml_split L limit xml_new [] = (Inr None, xml_new, [])"
    by (simp add: xml_split_ref [OF assms] ref_split_def)
  then show ?case by (simp add: drains_wait)
next
  case (Cons jm jms)
  obtain junk m where jm: "jm = (junk, m)" by force
  with Cons.prems ref_split_whole [of junk m limit]
  have "xml_split L limit xml_new (junk @ m @ concat (map (\<lambda>(junk, m). junk @ m) jms)) =
      (Inr (Some m), xml_new, concat (map (\<lambda>(junk, m). junk @ m) jms))"
    by (simp add: xml_split_ref [OF assms])
  with Cons jm show ?case by (auto intro: drains_frame)
qed

section \<open>Properties\<close>

text \<open>C28: messages of an XML stream arrive whole and in order whatever the sizes of the reads and
  whatever declarations, line breaks or other junk separate them: each message up to the cap whose
  first start tag and only end tag are its own is delivered exactly once.\<close>

theorem xml_stream_delivered:
  assumes "search_ok L" and "\<forall>(junk, m) \<in> set jms. whole junk m \<and> length m \<le> limit"
    and "chunks \<noteq> []" and "concat chunks = concat (map (\<lambda>(junk, m). junk @ m) jms)"
  shows "feeds (xml_split L limit) xml_new [] chunks (map snd jms) xml_new []"
  using framer.feeds_iff_drains [OF xml_framer [OF assms(1)] xml_ok_new assms(3)]
    xml_drains_whole [OF assms(1,2)] assms(4)
  by simp

theorem xml_stream_delivered_witness:
  "feeds (xml_split plain_search 20) xml_new []
     [raw ''<?xml?><eve'', raw ''nt></ev'', raw ''ent>''] [raw ''<event></event>''] xml_new []"
  by (rule xml_stream_delivered [where jms = "[(raw ''<?xml?>'', raw ''<event></event>'')]",
        OF search_ok_plain, simplified list.map prod.case snd_conv])
     (simp_all add: whole_def opens_def live_def starts_with_def ends_name_def START_def END_def raw_def)

text \<open>Remembering how far the buffer was searched never changes a result: in every state the
  scanner can be in, it returns what a scan of the whole buffer from scratch returns, an end tag
  split across two reads included.\<close>

theorem xml_resume_equivalent:
  assumes "search_ok L" and "xml_ok s buf"
  shows "xml_split L limit s buf = ref_split limit buf"
  using assms by (rule xml_split_ref)

theorem xml_resume_equivalent_witness:
  "xml_split plain_search 99 \<lparr>scanned = 10\<rparr> (raw ''<event></event>'') = ref_split 99 (raw ''<event></event>'')"
proof (rule xml_resume_equivalent [OF search_ok_plain])
  have "\<not> starts_with (drop j (raw ''<event></event>'')) END" if "j + 8 \<le> 10" for j
  proof -
    from that have "j = 0 \<or> j = 1 \<or> j = 2" by arith
    then show ?thesis by (auto simp: starts_with_def END_def raw_def)
  qed
  then show "xml_ok \<lparr>scanned = 10\<rparr> (raw ''<event></event>'')"
    by (simp add: xml_ok_def opens_def starts_with_def START_def ends_name_def raw_def)
qed

text \<open>What the scanner cuts off is one message: it opens with a start tag, the first in the
  buffer, ends with the first end tag after it, is within the cap, and only bytes before that start
  tag are dropped.\<close>

theorem xml_frame_is_message:
  assumes "search_ok L" and "xml_ok s buf" and "xml_split L limit s buf = (Inr (Some m), s', buf')"
  shows "\<exists>junk. buf = junk @ m @ buf' \<and> first_pos live buf = Some (length junk) \<and> opens m \<and>
    first_sub END m = Some (length m - 8) \<and> 8 \<le> length m \<and> length m \<le> limit \<and> s' = xml_new"
  using ref_split_frame assms(3) by (simp add: xml_split_ref [OF assms(1,2)])

theorem xml_frame_is_message_witness:
  "\<exists>junk. raw ''x<event></event>y'' = junk @ raw ''<event></event>'' @ raw ''y'' \<and>
    first_pos live (raw ''x<event></event>y'') = Some (length junk) \<and> opens (raw ''<event></event>'') \<and>
    first_sub END (raw ''<event></event>'') = Some (length (raw ''<event></event>'') - 8) \<and>
    8 \<le> length (raw ''<event></event>'') \<and> length (raw ''<event></event>'') \<le> 15 \<and> xml_new = xml_new"
  by (rule xml_frame_is_message [OF search_ok_plain xml_ok_new])
     (simp add: xml_split_ref [OF search_ok_plain] ref_split_def start_of_def cut_def live_def opens_def
       starts_with_def ends_name_def START_def END_def raw_def)

text \<open>An oversized message never wedges the connection and the buffer stays bounded: a report
  says exactly how many bytes were consumed, more than the cap, from a start tag on; a request for
  more keeps at most the cap (or six bytes of a possible start tag) and loses only leading junk.\<close>

theorem xml_oversize_consumed:
  assumes "search_ok L" and "xml_ok s buf" and "xml_split L limit s buf = (r, s', buf')"
  shows "case r of
      Inl e \<Rightarrow> \<exists>junk bad. buf = junk @ bad @ buf' \<and> e = Oversized (length bad) \<and> limit < length bad \<and>
        opens bad \<and> s' = xml_new
    | Inr None \<Rightarrow> (\<exists>junk. buf = junk @ buf') \<and> length buf' \<le> max limit 6
    | Inr (Some m) \<Rightarrow> length m \<le> limit"
proof -
  from assms(3) have "ref_split limit buf = (r, s', buf')" by (simp add: xml_split_ref [OF assms(1,2)])
  then show ?thesis
    using ref_split_error [of limit buf _ s' buf'] ref_split_wait [of limit buf s' buf']
      ref_split_frame [of limit buf _ s' buf']
    by (auto split: sum.splits option.splits)
qed

theorem xml_oversize_consumed_witness:
  "case Inl (Oversized 15) :: bytes framed of
      Inl e \<Rightarrow> \<exists>junk bad. raw ''<event></event>y'' = junk @ bad @ raw ''y'' \<and>
        e = Oversized (length bad) \<and> 14 < length bad \<and> opens bad \<and> xml_new = xml_new
    | Inr None \<Rightarrow> (\<exists>junk. raw ''<event></event>y'' = junk @ raw ''y'') \<and> length (raw ''y'') \<le> max 14 6
    | Inr (Some m) \<Rightarrow> length m \<le> 14"
  by (rule xml_oversize_consumed [OF search_ok_plain xml_ok_new])
     (simp add: xml_split_ref [OF search_ok_plain] ref_split_def start_of_def cut_def live_def opens_def
       starts_with_def ends_name_def START_def END_def raw_def)

end
