(* ===== verification/Errors.thy ===== *)
theory Errors
  imports Varint
begin

text \<open>
  The message-level errors of \<open>rustak-cot/src/error.rs\<close>.  The payloads that belong to other
  crates (\<open>std::io::Error\<close>, \<open>quick_xml::Error\<close>, \<open>prost::DecodeError\<close>) are type parameters.
\<close>

datatype 'x parse_error =
    XmlError 'x
  | MissingEvent
  | MissingPoint
  | BadNumber ustr ustr
  | BadTimeAttr ustr ustr
  | Utf8
  | TooLarge
  | TooDeep
  | BadName ustr

datatype 'x convert_error = NoCotEvent | BadXmlDetail "'x parse_error"

datatype ('io, 'x, 'd) codec_error =
    Io 'io
  | FrameFailed frame_error
  | ParseFailed "'x parse_error"
  | ConvertFailed "'x convert_error"
  | DecodeFailed 'd

end
