(* ===== verification/Codec.thy ===== *)
theory Codec
  imports Proto_Frame Xml_Frame Errors
begin

text \<open>
  The per-connection stream codec (\<open>rustak-cot/src/codec/mod.rs\<close>) over the two framers, and the
  event that is serialised at most once per encoding (\<open>rustak-cot/src/codec/encoded.rs\<close>).
  \<open>decode\<close> is the source's loop: it may not end for a search library that breaks its promise, so
  it is a partial function, and that it returns is one of the properties.
\<close>

section \<open>Model\<close>

definition MAX_MESSAGE :: nat where
  "MAX_MESSAGE = 8 * 1024 * 1024"

definition MAX_PROTO_PAYLOAD :: nat where
  "MAX_PROTO_PAYLOAD = 65536"

datatype mode = Mode_Xml | Mode_Proto

datatype frame = FXml bytes | FProto bytes

fun frame_mode :: "frame \<Rightarrow> mode" where
  "frame_mode (FXml _) = Mode_Xml"
| "frame_mode (FProto _) = Mode_Proto"

fun frame_payload :: "frame \<Rightarrow> bytes" where
  "frame_payload (FXml b) = b"
| "frame_payload (FProto b) = b"

definition frame_len :: "frame \<Rightarrow> nat" where
  "frame_len f = length (frame_payload f)"

definition frame_is_empty :: "frame \<Rightarrow> bool" where
  "frame_is_empty f \<longleftrightarrow> frame_len f = 0"

record tak_codec =
  cx_mode :: mode
  max_frame :: nat
  cx_xml :: xml_scanner
  cx_proto :: proto_scanner
  dropped :: nat
  dropped_bytes :: nat

definition with_limit :: "mode \<Rightarrow> nat \<Rightarrow> tak_codec" where
  "with_limit m limit =
     \<lparr>cx_mode = m, max_frame = limit, cx_xml = xml_new, cx_proto = proto_new,
      dropped = 0, dropped_bytes = 0\<rparr>"

definition codec_new :: "mode \<Rightarrow> tak_codec" where
  "codec_new m = with_limit m MAX_MESSAGE"

definition set_mode :: "mode \<Rightarrow> tak_codec \<Rightarrow> tak_codec" where
  "set_mode m c = c\<lparr>cx_mode := m\<rparr>"

definition codec_skipped :: "tak_codec \<Rightarrow> nat" where
  "codec_skipped c = skipped (cx_proto c)"

text \<open>The active scanner, and the loop around it.\<close>

definition split_active :: "search_lib \<Rightarrow> tak_codec \<Rightarrow> bytes \<Rightarrow> frame framed \<times> tak_codec \<times> bytes" where
  "split_active L c src =
     (case cx_mode c of
        Mode_Xml \<Rightarrow>
          (case xml_split L (max_frame c) (cx_xml c) src of
             (r, s, src') \<Rightarrow> (map_sum id (map_option FXml) r, c\<lparr>cx_xml := s\<rparr>, src'))
      | Mode_Proto \<Rightarrow>
          (case proto_split L (max_frame c) (cx_proto c) src of
             (r, s, src') \<Rightarrow> (map_sum id (map_option FProto) r, c\<lparr>cx_proto := s\<rparr>, src')))"

definition count_drop :: "nat \<Rightarrow> tak_codec \<Rightarrow> tak_codec" where
  "count_drop seen c =
     c\<lparr>dropped := sat_add_u64 (dropped c) 1, dropped_bytes := sat_add_u64 (dropped_bytes c) seen\<rparr>"

partial_function (option) decode :: "search_lib \<Rightarrow> tak_codec \<Rightarrow> bytes \<Rightarrow>
    ((('io, 'x, 'd) codec_error + frame option) \<times> tak_codec \<times> bytes) option" where
  "decode L c src =
     (case split_active L c src of
        (Inr f, c', src') \<Rightarrow> Some (Inr f, c', src')
      | (Inl (Oversized seen), c', src') \<Rightarrow> decode L (count_drop seen c') src'
      | (Inl BadVarint, c', src') \<Rightarrow> Some (Inl (FrameFailed BadVarint), c', src'))"

definition decode_eof :: "search_lib \<Rightarrow> tak_codec \<Rightarrow> bytes \<Rightarrow>
    ((('io, 'x, 'd) codec_error + frame option) \<times> tak_codec \<times> bytes) option" where
  "decode_eof L c src =
     (case decode L c src of
        Some (Inr None, c', _) \<Rightarrow> Some (Inr None, c', [])
      | r \<Rightarrow> r)"

fun codec_encode :: "frame \<Rightarrow> bytes \<Rightarrow> bytes" where
  "codec_encode (FXml b) dst = dst @ b"
| "codec_encode (FProto p) dst = proto_encode p dst"

text \<open>
  \<open>EncodedEvent\<close>: the two serialisers are arguments (the XML writer is modelled with the XML
  component, the protobuf one is generated code); a \<open>OnceLock\<close> is an optional value that is filled
  once, and an accessor returns the value and the filled event.
\<close>

record 'e encoded_event =
  ee_event :: 'e
  ee_xml :: "bytes option"
  ee_proto :: "bytes option"

definition encoded_new :: "'e \<Rightarrow> 'e encoded_event" where
  "encoded_new e = \<lparr>ee_event = e, ee_xml = None, ee_proto = None\<rparr>"

definition encoded_xml :: "('e \<Rightarrow> bytes) \<Rightarrow> 'e encoded_event \<Rightarrow> bytes \<times> 'e encoded_event" where
  "encoded_xml write ee =
     (case ee_xml ee of
        Some b \<Rightarrow> (b, ee)
      | None \<Rightarrow> let b = write (ee_event ee) in (b, ee\<lparr>ee_xml := Some b\<rparr>))"

definition encoded_proto :: "('e \<Rightarrow> bytes) \<Rightarrow> 'e encoded_event \<Rightarrow> bytes \<times> 'e encoded_event" where
  "encoded_proto pack ee =
     (case ee_proto ee of
        Some b \<Rightarrow> (b, ee)
      | None \<Rightarrow> let b = pack (ee_event ee) in (b, ee\<lparr>ee_proto := Some b\<rparr>))"

fun encoded_frame :: "('e \<Rightarrow> bytes) \<Rightarrow> ('e \<Rightarrow> bytes) \<Rightarrow> mode \<Rightarrow> 'e encoded_event \<Rightarrow>
    frame \<times> 'e encoded_event" where
  "encoded_frame write pack Mode_Xml ee = (case encoded_xml write ee of (b, ee') \<Rightarrow> (FXml b, ee'))"
| "encoded_frame write pack Mode_Proto ee = (case encoded_proto pack ee of (b, ee') \<Rightarrow> (FProto b, ee'))"

definition encoded_len :: "('e \<Rightarrow> bytes) \<Rightarrow> ('e \<Rightarrow> bytes) \<Rightarrow> mode \<Rightarrow> 'e encoded_event \<Rightarrow>
    nat \<times> 'e encoded_event" where
  "encoded_len write pack m ee =
     (case encoded_frame write pack m ee of (f, ee') \<Rightarrow> (frame_len f, ee'))"

definition encode_event :: "('e \<Rightarrow> bytes) \<Rightarrow> ('e \<Rightarrow> bytes) \<Rightarrow> tak_codec \<Rightarrow> 'e encoded_event \<Rightarrow> bytes \<Rightarrow>
    bytes \<times> 'e encoded_event" where
  "encode_event write pack c ee dst =
     (case cx_mode c of
        Mode_Xml \<Rightarrow> (case encoded_xml write ee of (b, ee') \<Rightarrow> (dst @ b, ee'))
      | Mode_Proto \<Rightarrow> (case encoded_proto pack ee of (b, ee') \<Rightarrow> (proto_encode b dst, ee')))"

section \<open>The active scanner\<close>

definition codec_ok :: "tak_codec \<Rightarrow> bytes \<Rightarrow> bool" where
  "codec_ok c buf \<longleftrightarrow> proto_ok (cx_proto c) \<and> (cx_mode c = Mode_Xml \<longrightarrow> xml_ok (cx_xml c) buf) \<and>
     dropped c \<le> u64_max \<and> dropped_bytes c \<le> u64_max"

lemma codec_ok_new [simp]: "codec_ok (with_limit m limit) buf"
  by (simp add: codec_ok_def with_limit_def proto_ok_def proto_new_def)

lemma codec_ok_count_drop [simp]: "codec_ok c buf \<Longrightarrow> codec_ok (count_drop seen c) buf"
  by (simp add: codec_ok_def count_drop_def)

text \<open>One step keeps the mode, the cap and the drop counters, and obeys the scanners' contract.\<close>

lemma split_active_step:
  assumes "search_ok L" and "codec_ok c src" and "split_active L c src = (r, c', src')"
  shows "codec_ok c' src'" and "cx_mode c' = cx_mode c" and "max_frame c' = max_frame c"
    and "dropped c' = dropped c" and "dropped_bytes c' = dropped_bytes c"
    and "case r of
        Inl e \<Rightarrow> \<exists>n. e = Oversized n \<and> max_frame c < n \<and> n + length src' \<le> length src
      | Inr None \<Rightarrow> length src' \<le> length src
      | Inr (Some f) \<Rightarrow> frame_mode f = cx_mode c \<and> frame_len f \<le> max_frame c \<and>
          frame_len f + length src' \<le> length src \<and> length src' < length src"
proof -
  have "codec_ok c' src' \<and> cx_mode c' = cx_mode c \<and> max_frame c' = max_frame c \<and>
      dropped c' = dropped c \<and> dropped_bytes c' = dropped_bytes c \<and>
      (case r of
        Inl e \<Rightarrow> \<exists>n. e = Oversized n \<and> max_frame c < n \<and> n + length src' \<le> length src
      | Inr None \<Rightarrow> length src' \<le> length src
      | Inr (Some f) \<Rightarrow> frame_mode f = cx_mode c \<and> frame_len f \<le> max_frame c \<and>
          frame_len f + length src' \<le> length src \<and> length src' < length src)"
  proof (cases "cx_mode c")
    case Mode_Xml
    with assms(2) have ok: "xml_ok (cx_xml c) src" by (simp add: codec_ok_def)
    obtain r0 s where x: "xml_split L (max_frame c) (cx_xml c) src = (r0, s, src')"
      and r: "r = map_sum id (map_option FXml) r0" "c' = c\<lparr>cx_xml := s\<rparr>"
      using assms(3) Mode_Xml by (auto simp: split_active_def split: prod.splits)
    from x have ref: "ref_split (max_frame c) src = (r0, s, src')"
      by (simp add: xml_split_ref [OF assms(1) ok])
    have "codec_ok c' src'"
      using assms(2) ref_split_ok [OF ref] Mode_Xml by (simp add: r codec_ok_def)
    moreover have "case r0 of
        Inl e \<Rightarrow> \<exists>n. e = Oversized n \<and> max_frame c < n \<and> n + length src' \<le> length src
      | Inr None \<Rightarrow> length src' \<le> length src
      | Inr (Some m) \<Rightarrow> length m \<le> max_frame c \<and> length m + length src' \<le> length src \<and>
          length src' < length src"
    proof (cases r0)
      case (Inl e)
      with ref_split_error [of "max_frame c" src e s src'] ref show ?thesis by auto
    next
      case (Inr fo)
      with ref_split_wait [of "max_frame c" src s src'] ref_split_frame [of "max_frame c" src _ s src'] ref
      show ?thesis by (cases fo) fastforce+
    qed
    ultimately show ?thesis
      using Mode_Xml by (auto simp: r frame_len_def split: sum.splits option.splits)
  next
    case Mode_Proto
    with assms(2) have ok: "proto_ok (cx_proto c)" by (simp add: codec_ok_def)
    obtain r0 s where x: "proto_split L (max_frame c) (cx_proto c) src = (r0, s, src')"
      and r: "r = map_sum id (map_option FProto) r0" "c' = c\<lparr>cx_proto := s\<rparr>"
      using assms(3) Mode_Proto by (auto simp: split_active_def split: prod.splits)
    from proto_split_no_error [OF assms(1) ok, of "max_frame c" src] x
    obtain f where f: "r0 = Inr f" by auto
    show ?thesis
    proof (cases f)
      case None
      with proto_split_wait [OF assms(1) ok, of "max_frame c" src s src'] x f
        proto_split_ok [OF assms(1) ok x] assms(2) Mode_Proto
      show ?thesis by (auto simp: r codec_ok_def)
    next
      case (Some p)
      with proto_split_frame [OF assms(1) ok, of "max_frame c" src p s src'] x f
        proto_split_ok [OF assms(1) ok x] assms(2) Mode_Proto
      show ?thesis by (auto simp: r codec_ok_def frame_len_def)
    qed
  qed
  then show "codec_ok c' src'" and "cx_mode c' = cx_mode c" and "max_frame c' = max_frame c"
    and "dropped c' = dropped c" and "dropped_bytes c' = dropped_bytes c"
    and "case r of
        Inl e \<Rightarrow> \<exists>n. e = Oversized n \<and> max_frame c < n \<and> n + length src' \<le> length src
      | Inr None \<Rightarrow> length src' \<le> length src
      | Inr (Some f) \<Rightarrow> frame_mode f = cx_mode c \<and> frame_len f \<le> max_frame c \<and>
          frame_len f + length src' \<le> length src \<and> length src' < length src"
    by blast+
qed

section \<open>The decode loop\<close>

text \<open>What the active scanner does when it is called again after every message it gives up: the sizes
  of those messages in order, and where it stops.  Nothing is counted here.\<close>

inductive scans :: "search_lib \<Rightarrow> tak_codec \<Rightarrow> bytes \<Rightarrow> nat list \<Rightarrow> frame option \<Rightarrow> tak_codec \<Rightarrow> bytes \<Rightarrow> bool" where
  stops: "split_active L c src = (Inr f, c', src') \<Longrightarrow> scans L c src [] f c' src'"
| gives_up: "split_active L c src = (Inl (Oversized n), c1, src1) \<Longrightarrow> scans L c1 src1 ns f c' src' \<Longrightarrow>
    scans L c src (n # ns) f c' src'"

inductive_cases scans_cases: "scans L c src ns f c' src'"

text \<open>The scanner does not see the counters.\<close>

lemma split_active_counters:
  "split_active L c src = (r, c', src') \<Longrightarrow>
   split_active L (c\<lparr>dropped := k, dropped_bytes := n\<rparr>) src = (r, c'\<lparr>dropped := k, dropped_bytes := n\<rparr>, src')"
  by (cases "cx_mode c") (auto simp: split_active_def split: prod.splits)

lemma scans_counters:
  "scans L c src ns f c' src' \<Longrightarrow> scans L (c\<lparr>dropped := k, dropped_bytes := n\<rparr>) src ns f (c'\<lparr>dropped := k, dropped_bytes := n\<rparr>) src'"
  by (induction rule: scans.induct) (auto intro: scans.intros dest: split_active_counters)

text \<open>What one call of \<open>decode\<close> may do, having given up messages of the sizes \<open>ns\<close>.\<close>

definition decoded :: "search_lib \<Rightarrow> tak_codec \<Rightarrow> bytes \<Rightarrow> frame option \<Rightarrow> tak_codec \<Rightarrow> bytes \<Rightarrow> nat list \<Rightarrow> bool" where
  "decoded L c src f c' src' ns \<longleftrightarrow>
     (\<exists>c0. scans L c src ns f c0 src' \<and>
       c' = c0\<lparr>dropped := sat_add_u64 (dropped c) (length ns), dropped_bytes := sat_add_u64 (dropped_bytes c) (sum_list ns)\<rparr>) \<and>
     list_all (\<lambda>n. max_frame c < n) ns \<and>
     codec_ok c' src' \<and> cx_mode c' = cx_mode c \<and> max_frame c' = max_frame c \<and>
     (case f of
        None \<Rightarrow> sum_list ns + length src' \<le> length src
      | Some f \<Rightarrow> frame_mode f = cx_mode c \<and> frame_len f \<le> max_frame c \<and>
          sum_list ns + frame_len f + length src' \<le> length src \<and> length src' < length src)"

lemma decoded_again:
  assumes "decoded L (count_drop m c1) src1 f c' src' ns" and "split_active L c src = (Inl (Oversized m), c1, src1)"
    and "cx_mode c1 = cx_mode c" "max_frame c1 = max_frame c" "dropped c1 = dropped c" "dropped_bytes c1 = dropped_bytes c"
    and "max_frame c < m" and "m + length src1 \<le> length src"
  shows "decoded L c src f c' src' (m # ns)"
proof -
  obtain c0 where c0: "scans L (count_drop m c1) src1 ns f c0 src'"
    "c' = c0\<lparr>dropped := sat_add_u64 (sat_add_u64 (dropped c) 1) (length ns),
       dropped_bytes := sat_add_u64 (sat_add_u64 (dropped_bytes c) m) (sum_list ns)\<rparr>"
    using assms(1,5,6) by (auto simp: decoded_def count_drop_def)
  have "c1\<lparr>dropped := dropped c, dropped_bytes := dropped_bytes c\<rparr> = c1"
    by (intro tak_codec.equality) (simp_all add: assms(5,6))
  then have "scans L c1 src1 ns f (c0\<lparr>dropped := dropped c, dropped_bytes := dropped_bytes c\<rparr>) src'"
    using scans_counters [OF c0(1), where k = "dropped c" and n = "dropped_bytes c"] by (simp add: count_drop_def)
  with assms(2) have "scans L c src (m # ns) f (c0\<lparr>dropped := dropped c, dropped_bytes := dropped_bytes c\<rparr>) src'"
    by (rule gives_up)
  moreover have "c' = c0\<lparr>dropped := dropped c, dropped_bytes := dropped_bytes c\<rparr>
      \<lparr>dropped := sat_add_u64 (dropped c) (length (m # ns)), dropped_bytes := sat_add_u64 (dropped_bytes c) (sum_list (m # ns))\<rparr>"
    by (simp add: c0(2) sat_add_u64_assoc)
  ultimately show ?thesis
    using assms unfolding decoded_def by (auto simp: count_drop_def split: option.splits)
qed

lemma decode_decoded:
  assumes "search_ok L"
  shows "codec_ok c src \<Longrightarrow>
    \<exists>f c' src' ns. decode L c src = Some (Inr f :: ('io, 'x, 'd) codec_error + frame option, c', src') \<and>
      decoded L c src f c' src' ns"
proof (induction "length src" arbitrary: c src rule: less_induct)
  case less
  obtain r c1 src1 where s: "split_active L c src = (r, c1, src1)" by (metis prod_cases3)
  note step = split_active_step [OF assms less(2) s]
  show ?case
  proof (cases r)
    case (Inl e)
    with step obtain m where m: "e = Oversized m" "max_frame c < m" "m + length src1 \<le> length src"
      by auto
    then have "length src1 < length src" by simp
    moreover have "codec_ok (count_drop m c1) src1" using step by simp
    ultimately obtain f c' src' ns where
      d: "decode L (count_drop m c1) src1 = Some (Inr f :: ('io, 'x, 'd) codec_error + frame option, c', src')"
        "decoded L (count_drop m c1) src1 f c' src' ns"
      using less(1) by blast
    have "decode L c src = Some (Inr f :: ('io, 'x, 'd) codec_error + frame option, c', src')"
      using d(1) by (subst decode.simps) (simp add: s Inl m(1))
    with decoded_again [OF d(2)] s step m Inl show ?thesis by blast
  next
    case (Inr f)
    then have "decode L c src = Some (Inr f :: ('io, 'x, 'd) codec_error + frame option, c1, src1)"
      by (subst decode.simps) (simp add: s)
    moreover have "scans L c src [] f c1 src1" using s Inr by (simp add: stops)
    moreover have "c1 = c1\<lparr>dropped := sat_add_u64 (dropped c) 0, dropped_bytes := sat_add_u64 (dropped_bytes c) 0\<rparr>"
      using step less(2) by (simp add: codec_ok_def)
    ultimately have "decoded L c src f c1 src1 []"
      using step Inr by (auto simp: decoded_def simp del: sat_add_u64_0 intro!: exI [of _ c1] split: option.splits)
    with \<open>decode L c src = Some (Inr f :: ('io, 'x, 'd) codec_error + frame option, c1, src1)\<close> show ?thesis by blast
  qed
qed

lemma decode_frame:
  assumes "split_active L c src = (Inr (Some f), c', src')"
  shows "decode L c src = Some (Inr (Some f), c', src')"
  by (subst decode.simps) (simp add: assms)

lemma decode_whole:
  assumes "search_ok L" and "codec_ok c (junk @ m @ rest)" and "cx_mode c = Mode_Xml"
    and "whole junk m" and "length m \<le> max_frame c"
  shows "decode L c (junk @ m @ rest) = Some (Inr (Some (FXml m)), c\<lparr>cx_xml := xml_new\<rparr>, rest)"
proof (rule decode_frame)
  have "xml_ok (cx_xml c) (junk @ m @ rest)" using assms(2,3) by (simp add: codec_ok_def)
  then show "split_active L c (junk @ m @ rest) = (Inr (Some (FXml m)), c\<lparr>cx_xml := xml_new\<rparr>, rest)"
    by (simp add: split_active_def assms(3) xml_split_ref [OF assms(1)] ref_split_whole [OF assms(4,5)])
qed

lemma decode_proto_frame:
  assumes "search_ok L" and "codec_ok c src" and "cx_mode c = Mode_Proto"
    and "length p \<le> max_frame c" and "max_frame c < 2 ^ 64"
  shows "decode L c (proto_encode p [] @ rest) = Some (Inr (Some (FProto p)), c, rest)"
proof (rule decode_frame)
  have ok: "proto_ok (cx_proto c)" using assms(2) by (simp add: codec_ok_def)
  show "split_active L c (proto_encode p [] @ rest) = (Inr (Some (FProto p)), c, rest)"
    using proto_split_encode [OF assms(1) ok _ assms(4), of "[]" rest] ok assms(4,5)
    by (simp add: split_active_def assms(3))
qed

section \<open>Properties\<close>

text \<open>C30: decoding never fails and never hangs: from every reachable codec state a call returns,
  without an error, a frame in the connection's encoding and within the cap, or nothing; the mode
  and the cap are unchanged; and every message the scanner gave up on the way is accounted for: the
  call returns where calling the scanner again and again would stop, each message it gave up was
  larger than the cap, the two counters have grown (saturating) by exactly how many there were and
  how large they were together, and none of their bytes is also delivered or left in the buffer.\<close>

theorem decode_never_fails:
  assumes "search_ok L" and "codec_ok c src"
  shows "\<exists>f c' src' ns c0. decode L c src = Some (Inr f, c', src') \<and>
    scans L c src ns f c0 src' \<and>
    c' = c0\<lparr>dropped := sat_add_u64 (dropped c) (length ns), dropped_bytes := sat_add_u64 (dropped_bytes c) (sum_list ns)\<rparr> \<and>
    list_all (\<lambda>n. max_frame c < n) ns \<and>
    codec_ok c' src' \<and> cx_mode c' = cx_mode c \<and> max_frame c' = max_frame c \<and>
    (case f of
       None \<Rightarrow> sum_list ns + length src' \<le> length src
     | Some f \<Rightarrow> frame_mode f = cx_mode c \<and> frame_len f \<le> max_frame c \<and>
         sum_list ns + frame_len f + length src' \<le> length src \<and> length src' < length src)"
  using decode_decoded [OF assms] unfolding decoded_def by blast

text \<open>A message of nineteen bytes under a cap of sixteen, and one that fits behind it.\<close>

theorem decode_never_fails_witness:
  "\<exists>c'. decode plain_search (with_limit Mode_Xml 16) (raw ''<event>long</event>'' @ raw ''<event></event>'') =
      Some (Inr (Some (FXml (raw ''<event></event>''))) :: (unit, unit, unit) codec_error + frame option, c', []) \<and>
    dropped c' = 1 \<and> dropped_bytes c' = 19"
proof -
  let ?c = "with_limit Mode_Xml 16" and ?big = "raw ''<event>long</event>''" and ?small = "raw ''<event></event>''"
  have w: "whole [] ?big" "whole [] ?small"
    by (simp_all add: whole_def opens_def live_def starts_with_def ends_name_def START_def END_def raw_def)
  have "split_active plain_search ?c (?big @ ?small) = (Inl (Oversized 19), ?c, ?small)"
    using ref_split_over [OF w(1), of 16 ?small]
    by (simp add: split_active_def xml_split_ref [OF search_ok_plain] with_limit_def)
  moreover have "split_active plain_search ?c ?small = (Inr (Some (FXml ?small)), ?c, [])"
    using ref_split_whole [OF w(2), of 16 "[]"]
    by (simp add: split_active_def xml_split_ref [OF search_ok_plain] with_limit_def)
  ultimately have "ns = [19] \<and> f = Some (FXml ?small) \<and> src' = []"
    if "scans plain_search ?c (?big @ ?small) ns f c0 src'" for ns f c0 src'
  proof -
    from that obtain ns' where ns: "ns = 19 # ns'" "scans plain_search ?c ?small ns' f c0 src'"
      by (rule scans_cases) (simp_all add: \<open>split_active plain_search ?c (?big @ ?small) = (Inl (Oversized 19), ?c, ?small)\<close>)
    from ns(2) show ?thesis
      by (rule scans_cases) (simp_all add: ns(1) \<open>split_active plain_search ?c ?small = (Inr (Some (FXml ?small)), ?c, [])\<close>)
  qed
  moreover obtain f c' src' ns c0 where
    d: "decode plain_search ?c (?big @ ?small) = Some (Inr f :: (unit, unit, unit) codec_error + frame option, c', src')"
      "scans plain_search ?c (?big @ ?small) ns f c0 src'"
      "c' = c0\<lparr>dropped := sat_add_u64 (dropped ?c) (length ns), dropped_bytes := sat_add_u64 (dropped_bytes ?c) (sum_list ns)\<rparr>"
    using decode_never_fails [OF search_ok_plain codec_ok_new, of Mode_Xml 16 "?big @ ?small"] by blast
  ultimately have "ns = [19]" "f = Some (FXml ?small)" "src' = []" by blast+
  with d(1,3) show ?thesis by (simp add: with_limit_def sat_add_u64_def u64_max_def)
qed

text \<open>C29: no byte is lost or misread at the switch to protobuf: if the last XML message and the
  first protobuf frame arrive in one read, the codec returns the message, leaves the frame in the
  buffer untouched, and returns it once the mode is switched.\<close>

theorem mode_switch_lossless:
  assumes "search_ok L" and "codec_ok c (junk @ m @ proto_encode p [] @ rest)" and "cx_mode c = Mode_Xml"
    and "whole junk m" and "length m \<le> max_frame c" and "length p \<le> max_frame c" and "max_frame c < 2 ^ 64"
  shows "\<exists>c1. decode L c (junk @ m @ proto_encode p [] @ rest) =
      Some (Inr (Some (FXml m)), c1, proto_encode p [] @ rest) \<and>
    decode L (set_mode Mode_Proto c1) (proto_encode p [] @ rest) =
      Some (Inr (Some (FProto p)), set_mode Mode_Proto c1, rest)"
proof -
  let ?c1 = "c\<lparr>cx_xml := xml_new\<rparr>"
  have "codec_ok (set_mode Mode_Proto ?c1) (proto_encode p [] @ rest)"
    using assms(2) by (simp add: codec_ok_def set_mode_def)
  then have "decode L (set_mode Mode_Proto ?c1) (proto_encode p [] @ rest) =
      Some (Inr (Some (FProto p)), set_mode Mode_Proto ?c1, rest)"
    by (rule decode_proto_frame [OF assms(1)]) (use assms(6,7) in \<open>simp_all add: set_mode_def\<close>)
  moreover have "decode L c (junk @ m @ proto_encode p [] @ rest) =
      Some (Inr (Some (FXml m)), ?c1, proto_encode p [] @ rest)"
    using assms by (intro decode_whole) auto
  ultimately show ?thesis by blast
qed

theorem mode_switch_lossless_witness:
  "\<exists>c1. decode plain_search (with_limit Mode_Xml 20) ([10] @ raw ''<event></event>'' @ proto_encode [8, 1] [] @ [0xBF]) =
      Some (Inr (Some (FXml (raw ''<event></event>''))) :: (unit, unit, unit) codec_error + frame option,
        c1, proto_encode [8, 1] [] @ [0xBF]) \<and>
    decode plain_search (set_mode Mode_Proto c1) (proto_encode [8, 1] [] @ [0xBF]) =
      Some (Inr (Some (FProto [8, 1])) :: (unit, unit, unit) codec_error + frame option,
        set_mode Mode_Proto c1, [0xBF])"
  by (rule mode_switch_lossless [OF search_ok_plain codec_ok_new])
     (simp_all add: with_limit_def whole_def opens_def live_def starts_with_def ends_name_def START_def
       END_def raw_def)

text \<open>A relayed frame survives encoding and decoding: what the encoder writes for a frame, a
  codec in that frame's mode (and with room for it) returns unchanged, keeping the bytes after it.\<close>

theorem frame_roundtrip:
  assumes "search_ok L" and "codec_ok c (codec_encode f [] @ rest)" and "frame_mode f = cx_mode c"
    and "frame_len f \<le> max_frame c" and "max_frame c < 2 ^ 64"
    and "\<And>m. f = FXml m \<Longrightarrow> whole [] m"
  shows "\<exists>c'. decode L c (codec_encode f [] @ rest) = Some (Inr (Some f), c', rest)"
proof (cases f)
  case (FXml m)
  with assms decode_whole [of L c "[]" m rest] show ?thesis by (auto simp: frame_len_def)
next
  case (FProto p)
  with assms decode_proto_frame [of L c "codec_encode f [] @ rest" p rest] show ?thesis
    by (auto simp: frame_len_def)
qed

theorem frame_roundtrip_witness:
  "\<exists>c'. decode plain_search (with_limit Mode_Proto 9) (codec_encode (FProto [5, 0xBF]) [] @ [1]) =
     Some (Inr (Some (FProto [5, 0xBF])) :: (unit, unit, unit) codec_error + frame option, c', [1])"
  by (rule frame_roundtrip [OF search_ok_plain codec_ok_new]) (simp_all add: with_limit_def frame_len_def)

text \<open>A peer that closes in the middle of a message is not a codec failure: at the end of the
  stream a call returns without an error, and when it has no frame left the buffer is emptied.\<close>

theorem decode_eof_discards:
  assumes "search_ok L" and "codec_ok c src"
  shows "\<exists>f c' src'. decode_eof L c src = Some (Inr f :: ('io, 'x, 'd) codec_error + frame option, c', src') \<and>
    (f = None \<longrightarrow> src' = []) \<and>
    (\<forall>g. f = Some g \<longrightarrow> decode L c src = Some (Inr (Some g) :: ('io, 'x, 'd) codec_error + frame option, c', src'))"
proof -
  obtain f c' src' ns where
    "decode L c src = Some (Inr f :: ('io, 'x, 'd) codec_error + frame option, c', src')"
    "decoded L c src f c' src' ns"
    using decode_decoded [OF assms] by blast
  then show ?thesis by (cases f) (auto simp: decode_eof_def)
qed

theorem decode_eof_discards_witness:
  "\<exists>f c' src'. decode_eof plain_search (codec_new Mode_Xml) (raw ''<event'') =
      Some (Inr f :: (unit, unit, unit) codec_error + frame option, c', src') \<and> (f = None \<longrightarrow> src' = []) \<and>
    (\<forall>g. f = Some g \<longrightarrow> decode plain_search (codec_new Mode_Xml) (raw ''<event'') =
      Some (Inr (Some g) :: (unit, unit, unit) codec_error + frame option, c', src'))"
  by (rule decode_eof_discards [OF search_ok_plain]) (simp add: codec_new_def)

section \<open>The shared event\<close>

text \<open>The cached forms are the forms of the event, however often and in whatever order they are asked for.\<close>

definition encoded_ok :: "('e \<Rightarrow> bytes) \<Rightarrow> ('e \<Rightarrow> bytes) \<Rightarrow> 'e encoded_event \<Rightarrow> bool" where
  "encoded_ok write pack ee \<longleftrightarrow>
     (\<forall>b. ee_xml ee = Some b \<longrightarrow> b = write (ee_event ee)) \<and>
     (\<forall>b. ee_proto ee = Some b \<longrightarrow> b = pack (ee_event ee))"

lemma encoded_ok_new [simp]: "encoded_ok write pack (encoded_new e)"
  by (simp add: encoded_ok_def encoded_new_def)

lemma encoded_frame_ok:
  assumes "encoded_ok write pack ee" and "encoded_frame write pack m ee = (f, ee')"
  shows "encoded_ok write pack ee' \<and> ee_event ee' = ee_event ee \<and> frame_mode f = m \<and>
    frame_payload f = (if m = Mode_Xml then write (ee_event ee) else pack (ee_event ee)) \<and>
    (m = Mode_Xml \<longrightarrow> ee_xml ee' \<noteq> None \<and> ee_proto ee' = ee_proto ee) \<and>
    (m = Mode_Proto \<longrightarrow> ee_proto ee' \<noteq> None \<and> ee_xml ee' = ee_xml ee)"
  using assms
  by (cases m) (auto simp: encoded_ok_def encoded_xml_def encoded_proto_def Let_def split: option.splits)

end
