(* ===== verification/Subscription.thy ===== *)
theory Subscription
  imports Msgs Group_Set Metrics Codec
begin

text \<open>
  One connection's record and its delivery handle (\<open>rustak-server/src/stream/subscription.rs\<close>).
  What connections share by reference (the queue, the counters, the closing flag, the liveness)
  lives in a cell per connection id; a handle is the id and the handle's own limit.  The bounded
  queue is \<open>tokio\<close>'s: its type and its \<open>try_send\<close> are parameters.  An \<open>Arc<EncodedEvent>\<close> is its
  event, since both encodings are functions of it.
\<close>

section \<open>Identifiers and queues\<close>

datatype conn_id = ConnId (conn_no: nat)

instantiation conn_id :: linorder
begin

definition less_eq_conn_id :: "conn_id \<Rightarrow> conn_id \<Rightarrow> bool" where
  "less_eq_conn_id a b \<longleftrightarrow> conn_no a \<le> conn_no b"

definition less_conn_id :: "conn_id \<Rightarrow> conn_id \<Rightarrow> bool" where
  "less_conn_id a b \<longleftrightarrow> conn_no a < conn_no b"

instance
  by standard (auto simp: less_eq_conn_id_def less_conn_id_def conn_id.expand)

end

datatype outbound = OutEvent event | SwitchToProto event | Close

datatype send_result = Sent | Dropped | Closed

datatype send_outcome = SendOk | SendFull | SendClosed

record 'c chan_lib =
  try_send :: "'c \<Rightarrow> outbound \<Rightarrow> send_outcome \<times> 'c"

record conn_stats =
  cs_rx_msgs :: nat
  cs_tx_msgs :: nat
  cs_dropped :: nat
  cs_dropped_consecutive :: nat

definition conn_stats_new :: conn_stats where
  "conn_stats_new = \<lparr>cs_rx_msgs = 0, cs_tx_msgs = 0, cs_dropped = 0, cs_dropped_consecutive = 0\<rparr>"

record conn_handle =
  h_id :: conn_id
  h_close_after_drops :: nat

record 'c conn_cell =
  cell_chan :: 'c
  cell_stats :: conn_stats
  cell_closing :: bool
  cell_liveness :: liveness

type_synonym 'c cells = "conn_id \<Rightarrow> 'c conn_cell"

definition is_closing :: "conn_handle \<Rightarrow> 'c cells \<Rightarrow> bool" where
  "is_closing h cells \<longleftrightarrow> cell_closing (cells (h_id h))"

definition handle_close :: "'c chan_lib \<Rightarrow> leave_reason \<Rightarrow> conn_handle \<Rightarrow> 'c cells \<Rightarrow> 'c cells" where
  "handle_close TX r h cells =
     (let c = cells (h_id h);
          (_, chan) = try_send TX (cell_chan c) Close
      in cells(h_id h := c\<lparr>cell_liveness := snd (ended r (cell_liveness c)), cell_chan := chan,
           cell_closing := True\<rparr>))"

definition handle_send :: "'c chan_lib \<Rightarrow> conn_handle \<Rightarrow> outbound \<Rightarrow> 'c cells \<Rightarrow> send_result \<times> 'c cells" where
  "handle_send TX h out cells =
     (let c = cells (h_id h); st = cell_stats c;
          (outcome, chan) = try_send TX (cell_chan c) out
      in case outcome of
           SendOk \<Rightarrow>
             (Sent, cells(h_id h := c\<lparr>cell_chan := chan,
                cell_stats := st\<lparr>cs_tx_msgs := add_u64 (cs_tx_msgs st) 1, cs_dropped_consecutive := 0\<rparr>\<rparr>))
         | SendClosed \<Rightarrow> (Closed, cells(h_id h := c\<lparr>cell_chan := chan\<rparr>))
         | SendFull \<Rightarrow>
             let run = cs_dropped_consecutive st + 1;
                 cells' = cells(h_id h := c\<lparr>cell_chan := chan,
                   cell_stats := st\<lparr>cs_dropped := add_u64 (cs_dropped st) 1,
                     cs_dropped_consecutive := add_u64 (cs_dropped_consecutive st) 1\<rparr>\<rparr>)
             in if h_close_after_drops h \<le> run then (Closed, handle_close TX SlowConsumer h cells')
                else (Dropped, cells'))"

text \<open>
  A replay waits for room.  The argument is how the wait ended; when it ended with room, it carries
  the queue as the connection's writer had left it by then.
\<close>

datatype 'c replay_outcome = Room 'c | ReceiverGone | TimedOut

definition handle_send_replay :: "'c chan_lib \<Rightarrow> 'c replay_outcome \<Rightarrow> conn_handle \<Rightarrow> outbound \<Rightarrow> 'c cells \<Rightarrow> send_result \<times> 'c cells" where
  "handle_send_replay TX outcome h out cells =
     (let c = cells (h_id h); st = cell_stats c
      in case outcome of
           Room chan \<Rightarrow>
             (Sent, cells(h_id h := c\<lparr>cell_chan := snd (try_send TX chan out),
                cell_stats := st\<lparr>cs_tx_msgs := add_u64 (cs_tx_msgs st) 1\<rparr>\<rparr>))
         | ReceiverGone \<Rightarrow> (Closed, cells)
         | TimedOut \<Rightarrow> (Dropped, cells))"

definition is_closed :: "send_result \<Rightarrow> bool" where
  "is_closed r \<longleftrightarrow> r = Closed"

section \<open>The subscription\<close>

definition UNKNOWN_TEXT :: ustr where
  "UNKNOWN_TEXT = lit ''unknown''"

record sa_update =
  su_first_identity :: bool
  su_is_sa :: bool

definition sa_none :: sa_update where
  "sa_none = \<lparr>su_first_identity = False, su_is_sa = False\<rparr>"

record subscription =
  sub_id :: conn_id
  sub_principal :: principal
  sub_groups :: "ustr list"
  sub_fingerprint :: ustr
  sub_device_id :: "ustr option"
  sub_peer :: ustr
  sub_connected_at :: cot_time
  sub_last_rx :: cot_time
  sub_client_uid :: "ustr option"
  sub_callsign :: "ustr option"
  sub_team :: ustr
  sub_role :: ustr
  sub_takv :: ustr
  sub_latest_sa :: "event option"
  sub_last_sa_type :: "ustr option"
  sub_incognito :: bool
  sub_mode :: mode
  sub_handle :: conn_handle
  sub_ephemeral :: bool

definition subscription_new :: "cot_time \<Rightarrow> conn_id \<Rightarrow> principal \<Rightarrow> ustr list \<Rightarrow> ustr \<Rightarrow> ustr \<Rightarrow> conn_handle \<Rightarrow> subscription" where
  "subscription_new now cid p groups fingerprint peer h =
     \<lparr>sub_id = cid, sub_principal = p, sub_groups = groups, sub_fingerprint = fingerprint,
      sub_device_id = None, sub_peer = peer, sub_connected_at = now, sub_last_rx = now,
      sub_client_uid = None, sub_callsign = None, sub_team = UNKNOWN_TEXT, sub_role = UNKNOWN_TEXT,
      sub_takv = UNKNOWN_TEXT, sub_latest_sa = None, sub_last_sa_type = None, sub_incognito = False,
      sub_mode = Mode_Xml, sub_handle = h, sub_ephemeral = False\<rparr>"

definition sub_make_ephemeral :: "subscription \<Rightarrow> subscription" where
  "sub_make_ephemeral s = s\<lparr>sub_ephemeral := True\<rparr>"

definition sub_with_device_id :: "ustr option \<Rightarrow> subscription \<Rightarrow> subscription" where
  "sub_with_device_id d s = s\<lparr>sub_device_id := d\<rparr>"

definition sub_with_incognito :: "bool \<Rightarrow> subscription \<Rightarrow> subscription" where
  "sub_with_incognito b s = s\<lparr>sub_incognito := b\<rparr>"

definition non_empty :: "ustr \<Rightarrow> ustr option" where
  "non_empty v = (if v \<noteq> [] then Some v else None)"

definition ev_group :: "event \<Rightarrow> tak_group option" where
  "ev_group e = d_get GROUP tak_group_from (ev_detail e)"

definition ev_takv :: "event \<Rightarrow> takv option" where
  "ev_takv e = d_get TAKV takv_from (ev_detail e)"

text \<open>The three folds of the identifying branch, in the order the code runs them.\<close>

definition sub_note_group :: "event \<Rightarrow> subscription \<Rightarrow> subscription" where
  "sub_note_group e s =
     (case ev_group e of
        Some g \<Rightarrow> s\<lparr>sub_team := or_else UNKNOWN_TEXT (non_empty (tg_name g)),
                    sub_role := or_else UNKNOWN_TEXT (non_empty (tg_role g))\<rparr>
      | None \<Rightarrow> s)"

definition sub_note_takv :: "event \<Rightarrow> subscription \<Rightarrow> subscription" where
  "sub_note_takv e s =
     (case ev_takv e of
        Some t \<Rightarrow> let summary = takv_summary t
                  in if 1 < length summary then s\<lparr>sub_takv := summary\<rparr> else s
      | None \<Rightarrow> s)"

definition sub_note_sa :: "event \<Rightarrow> event option \<Rightarrow> subscription \<Rightarrow> subscription" where
  "sub_note_sa e encoded s =
     (let s = s\<lparr>sub_last_sa_type := Some (ev_type e)\<rparr>
      in case encoded of Some x \<Rightarrow> s\<lparr>sub_latest_sa := Some x\<rparr> | None \<Rightarrow> s)"

definition sub_apply_event :: "cot_time \<Rightarrow> event \<Rightarrow> event option \<Rightarrow> subscription \<Rightarrow> sa_update \<times> subscription" where
  "sub_apply_event now e encoded s =
     (let s = s\<lparr>sub_last_rx := now\<rparr>
      in case (case ev_callsign e of Some n \<Rightarrow> if n \<noteq> [] then Some n else None | None \<Rightarrow> None) of
           None \<Rightarrow> (sa_none, s)
         | Some callsign \<Rightarrow>
             if (case ev_endpoint e of None \<Rightarrow> True | Some ep \<Rightarrow> ep = []) then (sa_none, s)
             else
               let first_identity = (sub_client_uid s = None);
                   s = (if first_identity then s\<lparr>sub_client_uid := Some (ev_uid e)\<rparr> else s);
                   s = s\<lparr>sub_callsign := Some callsign\<rparr>;
                   s = sub_note_takv e (sub_note_group e s);
                   is_sa = (sub_client_uid s = Some (ev_uid e));
                   s = (if is_sa then sub_note_sa e encoded s else s)
               in (\<lparr>su_first_identity = first_identity, su_is_sa = is_sa\<rparr>, s))"

definition is_identified :: "subscription \<Rightarrow> bool" where
  "is_identified s \<longleftrightarrow> sub_client_uid s \<noteq> None \<and> sub_callsign s \<noteq> None"

record client_endpoint =
  cep_uid :: ustr
  cep_callsign :: ustr
  cep_username :: ustr
  cep_team :: ustr
  cep_role :: ustr
  cep_takv :: ustr
  cep_groups :: "ustr list"
  cep_last_status :: cot_time
  cep_connected_at :: cot_time
  cep_incognito :: bool
  cep_mode :: mode
  cep_peer :: ustr

definition sub_endpoint :: "subscription \<Rightarrow> client_endpoint option" where
  "sub_endpoint s =
     (case sub_client_uid s of None \<Rightarrow> None
      | Some uid \<Rightarrow> (case sub_callsign s of None \<Rightarrow> None
        | Some callsign \<Rightarrow> Some
            \<lparr>cep_uid = uid, cep_callsign = callsign, cep_username = pr_username (sub_principal s),
             cep_team = sub_team s, cep_role = sub_role s, cep_takv = sub_takv s, cep_groups = sub_groups s,
             cep_last_status = sub_last_rx s, cep_connected_at = sub_connected_at s,
             cep_incognito = sub_incognito s, cep_mode = sub_mode s, cep_peer = sub_peer s\<rparr>))"

section \<open>What folding an event in can change\<close>

definition identifies :: "event \<Rightarrow> bool" where
  "identifies e \<longleftrightarrow> ev_callsign e \<noteq> None \<and> ev_endpoint e \<noteq> None"

lemma contact_attr_nonempty: "contact_attr k e \<noteq> Some []"
  by (auto simp: contact_attr_def split: option.splits if_splits)

lemma sub_note_fixed [simp]:
  "sub_id (sub_note_group e s) = sub_id s" "sub_id (sub_note_takv e s) = sub_id s"
  "sub_principal (sub_note_group e s) = sub_principal s" "sub_principal (sub_note_takv e s) = sub_principal s"
  "sub_handle (sub_note_group e s) = sub_handle s" "sub_handle (sub_note_takv e s) = sub_handle s"
  "sub_incognito (sub_note_group e s) = sub_incognito s" "sub_incognito (sub_note_takv e s) = sub_incognito s"
  "sub_mode (sub_note_group e s) = sub_mode s" "sub_mode (sub_note_takv e s) = sub_mode s"
  "sub_client_uid (sub_note_group e s) = sub_client_uid s" "sub_client_uid (sub_note_takv e s) = sub_client_uid s"
  "sub_callsign (sub_note_group e s) = sub_callsign s" "sub_callsign (sub_note_takv e s) = sub_callsign s"
  "sub_latest_sa (sub_note_group e s) = sub_latest_sa s" "sub_latest_sa (sub_note_takv e s) = sub_latest_sa s"
  by (simp_all add: sub_note_group_def sub_note_takv_def Let_def split: option.split)

lemma sub_note_sa_fixed [simp]:
  "sub_id (sub_note_sa e x s) = sub_id s" "sub_principal (sub_note_sa e x s) = sub_principal s"
  "sub_handle (sub_note_sa e x s) = sub_handle s" "sub_incognito (sub_note_sa e x s) = sub_incognito s"
  "sub_mode (sub_note_sa e x s) = sub_mode s" "sub_client_uid (sub_note_sa e x s) = sub_client_uid s"
  "sub_callsign (sub_note_sa e x s) = sub_callsign s"
  "sub_latest_sa (sub_note_sa e (Some y) s) = Some y"
  by (simp_all add: sub_note_sa_def Let_def split: option.split)

lemma sub_apply_ignores:
  "\<not> identifies e \<Longrightarrow> sub_apply_event now e x s = (sa_none, s\<lparr>sub_last_rx := now\<rparr>)"
  by (auto simp: identifies_def sub_apply_event_def Let_def split: option.splits)

lemma identifies_nonempty:
  assumes "identifies e"
  obtains c p where "ev_callsign e = Some c" "c \<noteq> []" "ev_endpoint e = Some p" "p \<noteq> []"
  using assms contact_attr_nonempty [of "lit ''callsign''" e] contact_attr_nonempty [of "lit ''endpoint''" e]
  by (auto simp: identifies_def ev_callsign_def ev_endpoint_def)

lemma sub_apply_callsign:
  "identifies e \<Longrightarrow> sub_callsign (snd (sub_apply_event now e x s)) = ev_callsign e"
  by (erule identifies_nonempty) (simp add: sub_apply_event_def Let_def)

lemma sub_apply_uid:
  "identifies e \<Longrightarrow> sub_client_uid (snd (sub_apply_event now e x s)) =
     (case sub_client_uid s of None \<Rightarrow> Some (ev_uid e) | Some u \<Rightarrow> Some u)"
  by (erule identifies_nonempty) (simp add: sub_apply_event_def Let_def split: option.split)

lemma sub_apply_latest:
  "identifies e \<Longrightarrow> sub_latest_sa (snd (sub_apply_event now e (Some x) s)) =
     (if sub_client_uid s \<in> {None, Some (ev_uid e)} then Some x else sub_latest_sa s)"
  by (erule identifies_nonempty) (simp add: sub_apply_event_def Let_def)

lemma sub_apply_fixed [simp]:
  "sub_id (snd (sub_apply_event now e x s)) = sub_id s"
  "sub_principal (snd (sub_apply_event now e x s)) = sub_principal s"
  "sub_handle (snd (sub_apply_event now e x s)) = sub_handle s"
  "sub_incognito (snd (sub_apply_event now e x s)) = sub_incognito s"
  "sub_mode (snd (sub_apply_event now e x s)) = sub_mode s"
  by (simp_all add: sub_apply_event_def Let_def split: option.split)

end
