(* ===== verification/Registry.thy ===== *)
theory Registry
  imports Subscription
begin

text \<open>
  The map of live connections and its two string indexes
  (\<open>rustak-server/src/stream/registry.rs\<close>).  The \<open>HashMap\<close> of connections is an association list
  with distinct keys: its order stands for one iteration order of the hash map, which nothing below
  depends on.  The indexes are never iterated and are maps.  The invariant says that an index entry
  lists exactly the connections now carrying its key, which is what makes a lookup by name sound.
\<close>

section \<open>State and operations\<close>

type_synonym name_index = "ustr \<Rightarrow> conn_id list option"

record registry =
  conns :: "(conn_id \<times> subscription) list"
  by_uid :: name_index
  by_callsign :: name_index

definition registry_new :: registry where
  "registry_new = \<lparr>conns = [], by_uid = Map.empty, by_callsign = Map.empty\<rparr>"

datatype index = ByUid | ByCallsign

definition index_lookup :: "index \<Rightarrow> registry \<Rightarrow> ustr \<Rightarrow> conn_id list option" where
  "index_lookup i r key = (case i of ByUid \<Rightarrow> by_uid r key | ByCallsign \<Rightarrow> by_callsign r key)"

text \<open>\<open>entry(key).or_default()\<close> and a write through it.\<close>

definition entry_push :: "ustr \<Rightarrow> conn_id \<Rightarrow> name_index \<Rightarrow> name_index" where
  "entry_push key i m = m(key \<mapsto> (case m key of Some ids \<Rightarrow> ids | None \<Rightarrow> []) @ [i])"

definition index_remove :: "ustr \<Rightarrow> conn_id \<Rightarrow> name_index \<Rightarrow> name_index" where
  "index_remove key i m =
     (case m key of
        None \<Rightarrow> m
      | Some ids \<Rightarrow>
          let kept = filter (\<lambda>held. held \<noteq> i) ids
          in if kept = [] then m(key := None) else m(key \<mapsto> kept))"

definition registry_index :: "subscription \<Rightarrow> registry \<Rightarrow> registry" where
  "registry_index s r =
     (let r = (case sub_client_uid s of Some u \<Rightarrow> r\<lparr>by_uid := entry_push u (sub_id s) (by_uid r)\<rparr> | None \<Rightarrow> r)
      in case sub_callsign s of
           Some c \<Rightarrow> r\<lparr>by_callsign := entry_push c (sub_id s) (by_callsign r)\<rparr> | None \<Rightarrow> r)"

definition registry_unindex :: "subscription \<Rightarrow> registry \<Rightarrow> registry" where
  "registry_unindex s r =
     (let r = (case sub_client_uid s of Some u \<Rightarrow> r\<lparr>by_uid := index_remove u (sub_id s) (by_uid r)\<rparr> | None \<Rightarrow> r)
      in case sub_callsign s of
           Some c \<Rightarrow> r\<lparr>by_callsign := index_remove c (sub_id s) (by_callsign r)\<rparr> | None \<Rightarrow> r)"

definition index_move :: "conn_id \<Rightarrow> ustr option \<Rightarrow> ustr option \<Rightarrow> name_index \<Rightarrow> name_index" where
  "index_move i old new m =
     (let m = (case old of Some k \<Rightarrow> index_remove k i m | None \<Rightarrow> m)
      in case new of
           None \<Rightarrow> m
         | Some k \<Rightarrow>
             let ids = (case m k of Some ids \<Rightarrow> ids | None \<Rightarrow> [])
             in m(k \<mapsto> (if i \<in> set ids then ids else ids @ [i])))"

definition reindex :: "index \<Rightarrow> conn_id \<Rightarrow> ustr option \<Rightarrow> ustr option \<Rightarrow> registry \<Rightarrow> registry" where
  "reindex ix i old new r =
     (if old = new then r
      else case ix of
             ByUid \<Rightarrow> r\<lparr>by_uid := index_move i old new (by_uid r)\<rparr>
           | ByCallsign \<Rightarrow> r\<lparr>by_callsign := index_move i old new (by_callsign r)\<rparr>)"

definition registry_handles :: "conn_id list \<Rightarrow> registry \<Rightarrow> conn_handle list" where
  "registry_handles ids r = map sub_handle (List.map_filter (map_of (conns r)) ids)"

section \<open>The invariant\<close>

definition entries :: "name_index \<Rightarrow> ustr \<Rightarrow> conn_id list" where
  "entries m k = (case m k of Some ids \<Rightarrow> ids | None \<Rightarrow> [])"

definition index_ok :: "(conn_id \<Rightarrow> ustr option) \<Rightarrow> name_index \<Rightarrow> bool" where
  "index_ok name m \<longleftrightarrow> (\<forall>k. set (entries m k) = {i. name i = Some k} \<and> distinct (entries m k) \<and> m k \<noteq> Some [])"

definition names_by :: "(subscription \<Rightarrow> ustr option) \<Rightarrow> registry \<Rightarrow> conn_id \<Rightarrow> ustr option" where
  "names_by f r i = Option.bind (map_of (conns r) i) f"

definition registry_ok :: "registry \<Rightarrow> bool" where
  "registry_ok r \<longleftrightarrow> distinct (map fst (conns r)) \<and>
     (\<forall>(i, s) \<in> set (conns r). sub_id s = i \<and> h_id (sub_handle s) = i) \<and>
     index_ok (names_by sub_client_uid r) (by_uid r) \<and>
     index_ok (names_by sub_callsign r) (by_callsign r)"

lemma entries_push [simp]: "entries (entry_push k i m) k' = (if k' = k then entries m k @ [i] else entries m k')"
  by (simp add: entries_def entry_push_def)

lemma entries_remove [simp]:
  "entries (index_remove k i m) k' = (if k' = k then filter (\<lambda>j. j \<noteq> i) (entries m k) else entries m k')"
  by (auto simp: entries_def index_remove_def Let_def split: option.splits)

lemma entries_move:
  "entries (index_move i old new m) k =
     (let ids = (if old = Some k then filter (\<lambda>j. j \<noteq> i) (entries m k) else entries m k)
      in if new = Some k \<and> i \<notin> set ids then ids @ [i] else ids)"
proof -
  let ?m = "case old of Some k \<Rightarrow> index_remove k i m | None \<Rightarrow> m"
  have "entries ?m k = (if old = Some k then filter (\<lambda>j. j \<noteq> i) (entries m k) else entries m k)"
    by (cases old) auto
  moreover have "entries (index_move i old new m) k =
      (if new = Some k \<and> i \<notin> set (entries ?m k) then entries ?m k @ [i] else entries ?m k)"
    by (cases new) (auto simp: index_move_def entries_def Let_def)
  ultimately show ?thesis by (simp add: Let_def)
qed

lemma push_not_empty: "m k' \<noteq> Some [] \<Longrightarrow> entry_push k i m k' \<noteq> Some []"
  by (simp add: entry_push_def)

lemma remove_not_empty: "m k' \<noteq> Some [] \<Longrightarrow> index_remove k i m k' \<noteq> Some []"
  by (auto simp: index_remove_def Let_def split: option.splits)

lemma move_not_empty: "m k' \<noteq> Some [] \<Longrightarrow> index_move i old new m k' \<noteq> Some []"
  using remove_not_empty [of m k' _ i] by (auto simp: index_move_def Let_def split: option.splits)

text \<open>The three updates of one index, under the naming they make true.\<close>

lemma index_ok_push:
  "index_ok f m \<Longrightarrow> f i = None \<Longrightarrow> index_ok (f(i \<mapsto> k)) (entry_push k i m)"
  using push_not_empty [of m _ k i] by (auto simp: index_ok_def)

lemma index_ok_remove:
  "index_ok f m \<Longrightarrow> f i = Some k \<Longrightarrow> index_ok (f(i := None)) (index_remove k i m)"
  using remove_not_empty [of m _ k i] by (auto simp: index_ok_def)

lemma index_ok_move:
  "index_ok f m \<Longrightarrow> index_ok (f(i := new)) (if f i = new then m else index_move i (f i) new m)"
  using move_not_empty [of m _ i "f i" new]
  by (auto simp: index_ok_def entries_move Let_def fun_upd_idem)

lemma index_ok_D: "index_ok f m \<Longrightarrow> i \<in> set (entries m k) \<longleftrightarrow> f i = Some k"
  by (simp add: index_ok_def)

lemma index_ok_distinct: "index_ok f m \<Longrightarrow> distinct (entries m k)"
  by (simp add: index_ok_def)

lemma index_ok_SomeD: "index_ok f m \<Longrightarrow> m k = Some ids \<Longrightarrow> distinct ids \<and> (\<forall>i\<in>set ids. f i = Some k)"
proof -
  assume ok: "index_ok f m" and "m k = Some ids"
  then have "entries m k = ids" by (simp add: entries_def)
  with index_ok_D [OF ok] index_ok_distinct [OF ok, of k] show ?thesis by auto
qed

lemma registry_new_ok [simp]: "registry_ok registry_new"
  by (simp add: registry_ok_def registry_new_def index_ok_def entries_def names_by_def)

lemma map_of_conns: "registry_ok r \<Longrightarrow> (i, s) \<in> set (conns r) \<longleftrightarrow> map_of (conns r) i = Some s"
  by (simp add: registry_ok_def)

lemma registry_okD:
  "registry_ok r \<Longrightarrow> map_of (conns r) i = Some s \<Longrightarrow> sub_id s = i \<and> h_id (sub_handle s) = i"
  by (auto simp: registry_ok_def dest!: map_of_SomeD)

lemma names_by_update: "names_by f (r\<lparr>conns := AList.update i s (conns r)\<rparr>) = (names_by f r)(i := f s)"
  by (auto simp: names_by_def update_conv' fun_eq_iff)

lemma names_by_delete: "names_by f (r\<lparr>conns := AList.delete i (conns r)\<rparr>) = (names_by f r)(i := None)"
  by (auto simp: names_by_def delete_conv' fun_eq_iff)

end
