(* ===== verification/Hub.thy ===== *)
theory Hub
  imports Registry "HOL-Library.List_Lexorder"
begin

text \<open>
  The registry of live connections and the questions routing asks of it
  (\<open>rustak-server/src/stream/hub.rs\<close>, and the change announcements of
  \<open>rustak-server/src/stream/live.rs\<close>).  Each operation holds the lock for its whole body, so each
  is one step; the interleavings of the server are the sequences of these steps.  A watcher is told
  about a change after the lock is released: what is announced is part of the operation's result.
\<close>

section \<open>State and announcements\<close>

record connection_summary =
  sum_id :: conn_id
  sum_username :: ustr
  sum_client_uid :: "ustr option"
  sum_callsign :: "ustr option"
  sum_groups :: group_set
  sum_incognito :: bool

definition summary_of :: "subscription \<Rightarrow> connection_summary" where
  "summary_of s =
     \<lparr>sum_id = sub_id s, sum_username = pr_username (sub_principal s),
      sum_client_uid = sub_client_uid s, sum_callsign = sub_callsign s,
      sum_groups = pr_groups (sub_principal s), sum_incognito = sub_incognito s\<rparr>"

datatype connection_change = Joined (change_connection: connection_summary) | Left (change_connection: connection_summary)

record hub =
  hub_reg :: registry
  hub_next_id :: nat

definition hub_new :: hub where
  "hub_new = \<lparr>hub_reg = registry_new, hub_next_id = 0\<rparr>"

definition hub_conns :: "hub \<Rightarrow> (conn_id \<times> subscription) list" where
  "hub_conns hb = conns (hub_reg hb)"

definition hub_get :: "hub \<Rightarrow> conn_id \<Rightarrow> subscription option" where
  "hub_get hb i = map_of (hub_conns hb) i"

definition hub_values :: "hub \<Rightarrow> subscription list" where
  "hub_values hb = map snd (hub_conns hb)"

section \<open>Writing\<close>

definition next_conn_id :: "hub \<Rightarrow> conn_id \<times> hub" where
  "next_conn_id hb =
     (ConnId ((hub_next_id hb + 1) mod 2 ^ 64), hb\<lparr>hub_next_id := add_u64 (hub_next_id hb) 1\<rparr>)"

definition register :: "subscription \<Rightarrow> hub \<Rightarrow> conn_id \<times> connection_change list \<times> hub" where
  "register s hb =
     (let joined = (if sub_ephemeral s then [] else [Joined (summary_of s)]);
          r = registry_index s (hub_reg hb);
          r = r\<lparr>conns := AList.update (sub_id s) s (conns r)\<rparr>
      in (sub_id s, joined, hb\<lparr>hub_reg := r\<rparr>))"

definition unregister :: "conn_id \<Rightarrow> hub \<Rightarrow> subscription option \<times> connection_change list \<times> hub" where
  "unregister i hb =
     (case hub_get hb i of
        None \<Rightarrow> (None, [], hb)
      | Some s \<Rightarrow>
          let r = (hub_reg hb)\<lparr>conns := AList.delete i (hub_conns hb)\<rparr>;
              r = registry_unindex s r
          in (Some s, if sub_ephemeral s then [] else [Left (summary_of s)], hb\<lparr>hub_reg := r\<rparr>))"

text \<open>\<open>get_mut\<close> and a write through it.\<close>

definition put_conn :: "conn_id \<Rightarrow> subscription \<Rightarrow> registry \<Rightarrow> registry" where
  "put_conn i s r = r\<lparr>conns := AList.update i s (conns r)\<rparr>"

definition apply_event :: "cot_time \<Rightarrow> conn_id \<Rightarrow> event \<Rightarrow> event option \<Rightarrow> hub \<Rightarrow> sa_update option \<times> hub" where
  "apply_event now i e encoded hb =
     (case hub_get hb i of
        None \<Rightarrow> (None, hb)
      | Some s \<Rightarrow>
          let (update, s') = sub_apply_event now e encoded s;
              r = put_conn i s' (hub_reg hb);
              r = reindex ByUid i (sub_client_uid s) (sub_client_uid s') r;
              r = reindex ByCallsign i (sub_callsign s) (sub_callsign s') r
          in (Some update, hb\<lparr>hub_reg := r\<rparr>))"

definition set_incognito :: "conn_id \<Rightarrow> bool \<Rightarrow> hub \<Rightarrow> bool \<times> hub" where
  "set_incognito i b hb =
     (case hub_get hb i of
        Some s \<Rightarrow> (True, hb\<lparr>hub_reg := put_conn i (s\<lparr>sub_incognito := b\<rparr>) (hub_reg hb)\<rparr>)
      | None \<Rightarrow> (False, hb))"

definition hub_set_mode :: "conn_id \<Rightarrow> mode \<Rightarrow> hub \<Rightarrow> hub" where
  "hub_set_mode i m hb =
     (case hub_get hb i of
        Some s \<Rightarrow> hb\<lparr>hub_reg := put_conn i (s\<lparr>sub_mode := m\<rparr>) (hub_reg hb)\<rparr>
      | None \<Rightarrow> hb)"

definition reauth :: "conn_id \<Rightarrow> group_set \<Rightarrow> ustr list \<Rightarrow> hub \<Rightarrow> bool \<times> hub" where
  "reauth i groups names hb =
     (case hub_get hb i of
        None \<Rightarrow> (False, hb)
      | Some s \<Rightarrow>
          let p = (sub_principal s)\<lparr>pr_groups := groups\<rparr>
          in (True, hb\<lparr>hub_reg := put_conn i (s\<lparr>sub_principal := p, sub_groups := names\<rparr>) (hub_reg hb)\<rparr>))"

section \<open>Reading\<close>

definition hub_len :: "hub \<Rightarrow> nat" where
  "hub_len hb = length (hub_conns hb)"

definition hub_is_empty :: "hub \<Rightarrow> bool" where
  "hub_is_empty hb \<longleftrightarrow> hub_conns hb = []"

definition is_incognito :: "conn_id \<Rightarrow> hub \<Rightarrow> bool" where
  "is_incognito i hb \<longleftrightarrow> (case hub_get hb i of Some s \<Rightarrow> sub_incognito s | None \<Rightarrow> False)"

definition hub_handle :: "conn_id \<Rightarrow> hub \<Rightarrow> conn_handle option" where
  "hub_handle i hb = map_option sub_handle (hub_get hb i)"

definition hub_principal :: "conn_id \<Rightarrow> hub \<Rightarrow> principal option" where
  "hub_principal i hb = map_option sub_principal (hub_get hb i)"

definition hub_device_id :: "conn_id \<Rightarrow> hub \<Rightarrow> ustr option" where
  "hub_device_id i hb = Option.bind (hub_get hb i) sub_device_id"

definition hub_client_uid :: "conn_id \<Rightarrow> hub \<Rightarrow> ustr option" where
  "hub_client_uid i hb = Option.bind (hub_get hb i) sub_client_uid"

definition sub_reaches :: "subscription \<Rightarrow> subscription \<Rightarrow> bool" where
  "sub_reaches a b = can_reach (pr_groups (sub_principal a)) (pr_groups (sub_principal b))"

definition reachable_from :: "conn_id \<Rightarrow> bool \<Rightarrow> hub \<Rightarrow> conn_handle list" where
  "reachable_from sender exclude_self hb =
     (case hub_get hb sender of
        None \<Rightarrow> []
      | Some s \<Rightarrow>
          map sub_handle
            (filter (sub_reaches s)
              (filter (\<lambda>c. \<not> (exclude_self \<and> sub_id c = sender)) (hub_values hb))))"

definition handles_reachable_by :: "principal \<Rightarrow> conn_id option \<Rightarrow> hub \<Rightarrow> conn_handle list" where
  "handles_reachable_by p exclude hb =
     map sub_handle
       (filter (\<lambda>c. can_reach (pr_groups p) (pr_groups (sub_principal c)))
         (filter (\<lambda>c. Some (sub_id c) \<noteq> exclude) (hub_values hb)))"

text \<open>The two nested loops of \<open>resolve\<close>, with the handles and the ids seen as the accumulator.\<close>

definition resolve_ids :: "subscription \<Rightarrow> hub \<Rightarrow> conn_handle list \<times> conn_id list \<Rightarrow> conn_id list \<Rightarrow> conn_handle list \<times> conn_id list" where
  "resolve_ids s hb = foldl (\<lambda>(handles, seen) i.
     case hub_get hb i of
       None \<Rightarrow> (handles, seen)
     | Some c \<Rightarrow>
         if \<not> sub_reaches s c then (handles, seen)
         else if i \<in> set seen then (handles, seen)
         else (handles @ [sub_handle c], seen @ [i]))"

definition resolve :: "conn_id \<Rightarrow> ustr list \<Rightarrow> index \<Rightarrow> hub \<Rightarrow> conn_handle list" where
  "resolve sender keys ix hb =
     (case hub_get hb sender of
        None \<Rightarrow> []
      | Some s \<Rightarrow>
          fst (foldl (\<lambda>acc key. case index_lookup ix (hub_reg hb) key of
                 None \<Rightarrow> acc
               | Some ids \<Rightarrow> resolve_ids s hb acc ids) ([], []) keys))"

definition resolve_callsigns :: "conn_id \<Rightarrow> ustr list \<Rightarrow> hub \<Rightarrow> conn_handle list" where
  "resolve_callsigns sender callsigns hb = resolve sender callsigns ByCallsign hb"

definition resolve_uids :: "conn_id \<Rightarrow> ustr list \<Rightarrow> hub \<Rightarrow> conn_handle list" where
  "resolve_uids sender uids hb = resolve sender uids ByUid hb"

definition reachable_in_group :: "conn_id \<Rightarrow> nat \<Rightarrow> hub \<Rightarrow> conn_handle list" where
  "reachable_in_group sender bitpos hb =
     (case hub_get hb sender of
        None \<Rightarrow> []
      | Some s \<Rightarrow>
          map sub_handle
            (filter (sub_reaches s)
              (filter (\<lambda>c. has_group bitpos Out (sub_principal c))
                (filter (\<lambda>c. sub_id c \<noteq> sender) (hub_values hb)))))"

definition latest_sa_for :: "conn_id \<Rightarrow> hub \<Rightarrow> event list" where
  "latest_sa_for receiver hb =
     (case hub_get hb receiver of
        None \<Rightarrow> []
      | Some r \<Rightarrow>
          map snd (sort_key fst
            (List.map_filter (\<lambda>p. map_option (Pair (sub_id p)) (sub_latest_sa p))
              (filter (\<lambda>p. sub_reaches p r)
                (filter (\<lambda>p. sub_id p \<noteq> receiver \<and> \<not> sub_incognito p) (hub_values hb))))))"

definition handles_for_uid :: "ustr \<Rightarrow> hub \<Rightarrow> conn_handle list" where
  "handles_for_uid uid hb =
     (case by_uid (hub_reg hb) uid of Some ids \<Rightarrow> registry_handles ids (hub_reg hb) | None \<Rightarrow> [])"

definition handles_for_user :: "ustr \<Rightarrow> hub \<Rightarrow> conn_handle list" where
  "handles_for_user username hb =
     map sub_handle (filter (\<lambda>s. pr_username (sub_principal s) = username) (hub_values hb))"

definition sessions_for_user :: "ustr \<Rightarrow> hub \<Rightarrow> (conn_id \<times> ustr option) list" where
  "sessions_for_user username hb =
     map (\<lambda>s. (sub_id s, sub_device_id s))
       (filter (\<lambda>s. pr_username (sub_principal s) = username) (hub_values hb))"

definition handles_for_fingerprint :: "ustr \<Rightarrow> hub \<Rightarrow> conn_handle list" where
  "handles_for_fingerprint fp hb =
     map sub_handle (filter (\<lambda>s. sub_fingerprint s = fp) (hub_values hb))"

definition snapshot :: "hub \<Rightarrow> client_endpoint list" where
  "snapshot hb = sort_key cep_callsign (List.map_filter sub_endpoint (hub_values hb))"

definition snapshot_for :: "principal \<Rightarrow> hub \<Rightarrow> client_endpoint list" where
  "snapshot_for viewer hb =
     sort_key cep_callsign (List.map_filter sub_endpoint
       (filter (\<lambda>p. can_reach (pr_groups (sub_principal p)) (pr_groups viewer))
         (filter (\<lambda>p. \<not> sub_incognito p) (hub_values hb))))"

end
