(* ===== verification/Hub_Inv.thy ===== *)
theory Hub_Inv
  imports Hub
begin

text \<open>
  What the connection registry keeps true (\<open>rustak-server/src/stream/hub.rs\<close>): the invariant is
  preserved by every operation, hence holds in every hub a sequence of operations can produce, and
  under it each question has the answer its documentation promises.
\<close>

section \<open>The invariant, operation by operation\<close>

definition hub_ok :: "hub \<Rightarrow> bool" where
  "hub_ok hb \<longleftrightarrow> registry_ok (hub_reg hb)"

lemma hub_new_ok [simp]: "hub_ok hub_new"
  by (simp add: hub_ok_def hub_new_def)

lemma hub_get_new [simp]: "hub_get hub_new i = None"
  by (simp add: hub_get_def hub_conns_def hub_new_def registry_new_def)

lemma hub_getD: "hub_ok hb \<Longrightarrow> hub_get hb i = Some s \<Longrightarrow> sub_id s = i \<and> h_id (sub_handle s) = i"
  using registry_okD by (auto simp: hub_ok_def hub_get_def hub_conns_def)

lemma set_update_conns:
  "distinct (map fst xs) \<Longrightarrow> set (AList.update i s xs) = insert (i, s) {kv \<in> set xs. fst kv \<noteq> i}"
  by (induction xs) (auto simp: image_iff)

lemma conns_put_keys:
  assumes "registry_ok r" and "sub_id s = i" and "h_id (sub_handle s) = i"
  shows "distinct (map fst (AList.update i s (conns r)))"
    and "\<forall>(j, t) \<in> set (AList.update i s (conns r)). sub_id t = j \<and> h_id (sub_handle t) = j"
  using assms by (auto simp: registry_ok_def distinct_update set_update_conns)

lemma names_by_put: "conns r' = AList.update i s (conns r) \<Longrightarrow> names_by f r' = (names_by f r)(i := f s)"
  by (auto simp: names_by_def update_conv' fun_eq_iff)

lemma names_by_drop: "conns r' = AList.delete i (conns r) \<Longrightarrow> names_by f r' = (names_by f r)(i := None)"
  by (auto simp: names_by_def delete_conv' fun_eq_iff)

text \<open>What a put and a drop must do to the indexes for the invariant to survive.\<close>

lemma registry_ok_put:
  assumes "registry_ok r" and "sub_id s = i" and "h_id (sub_handle s) = i"
    and c: "conns r' = AList.update i s (conns r)"
    and "index_ok ((names_by sub_client_uid r)(i := sub_client_uid s)) (by_uid r')"
    and "index_ok ((names_by sub_callsign r)(i := sub_callsign s)) (by_callsign r')"
  shows "registry_ok r'"
  using conns_put_keys [OF assms(1-3)] assms(5,6)
  unfolding registry_ok_def names_by_put [OF c] c by simp

lemma registry_ok_drop:
  assumes "registry_ok r" and c: "conns r' = AList.delete i (conns r)"
    and "index_ok ((names_by sub_client_uid r)(i := None)) (by_uid r')"
    and "index_ok ((names_by sub_callsign r)(i := None)) (by_callsign r')"
  shows "registry_ok r'"
proof -
  have "distinct (map fst (conns r'))" using assms(1) c by (simp add: registry_ok_def distinct_delete)
  moreover have "set (conns r') \<subseteq> set (conns r)" using c by (simp add: AList.delete_eq filter_is_subset)
  ultimately show ?thesis
    using assms(1,3,4) unfolding registry_ok_def names_by_drop [OF c] by blast
qed

lemma registry_index_sel:
  "conns (registry_index s r) = conns r"
  "by_uid (registry_index s r) =
     (case sub_client_uid s of Some u \<Rightarrow> entry_push u (sub_id s) (by_uid r) | None \<Rightarrow> by_uid r)"
  "by_callsign (registry_index s r) =
     (case sub_callsign s of Some u \<Rightarrow> entry_push u (sub_id s) (by_callsign r) | None \<Rightarrow> by_callsign r)"
  by (simp_all add: registry_index_def Let_def split: option.split)

lemma registry_unindex_sel:
  "conns (registry_unindex s r) = conns r"
  "by_uid (registry_unindex s r) =
     (case sub_client_uid s of Some u \<Rightarrow> index_remove u (sub_id s) (by_uid r) | None \<Rightarrow> by_uid r)"
  "by_callsign (registry_unindex s r) =
     (case sub_callsign s of Some u \<Rightarrow> index_remove u (sub_id s) (by_callsign r) | None \<Rightarrow> by_callsign r)"
  by (simp_all add: registry_unindex_def Let_def split: option.split)

lemma reindex_sel:
  "conns (reindex ix i old new r) = conns r"
  "by_uid (reindex ix i old new r) =
     (if ix = ByUid \<and> old \<noteq> new then index_move i old new (by_uid r) else by_uid r)"
  "by_callsign (reindex ix i old new r) =
     (if ix = ByCallsign \<and> old \<noteq> new then index_move i old new (by_callsign r) else by_callsign r)"
  by (simp_all add: reindex_def split: index.split)

lemma register_sel:
  "fst (register s hb) = sub_id s"
  "hub_get (snd (snd (register s hb))) = (hub_get hb)(sub_id s \<mapsto> s)"
  "hub_next_id (snd (snd (register s hb))) = hub_next_id hb"
  by (auto simp: register_def Let_def hub_get_def hub_conns_def registry_index_sel update_conv' fun_eq_iff)

lemma register_ok:
  assumes ok: "hub_ok hb" and fresh: "hub_get hb (sub_id s) = None" and h: "h_id (sub_handle s) = sub_id s"
  shows "hub_ok (snd (snd (register s hb)))"
proof -
  let ?r = "hub_reg hb"
  have r: "registry_ok ?r" using ok by (simp add: hub_ok_def)
  have gone: "names_by f ?r (sub_id s) = None" for f
    using fresh by (simp add: names_by_def hub_get_def hub_conns_def)
  have "registry_ok ((registry_index s ?r)\<lparr>conns := AList.update (sub_id s) s (conns ?r)\<rparr>)"
  proof (rule registry_ok_put [OF r refl h])
    show "index_ok ((names_by sub_client_uid ?r)(sub_id s := sub_client_uid s))
      (by_uid ((registry_index s ?r)\<lparr>conns := AList.update (sub_id s) s (conns ?r)\<rparr>))"
      using r gone by (auto simp: registry_index_sel registry_ok_def fun_upd_idem index_ok_push split: option.split)
    show "index_ok ((names_by sub_callsign ?r)(sub_id s := sub_callsign s))
      (by_callsign ((registry_index s ?r)\<lparr>conns := AList.update (sub_id s) s (conns ?r)\<rparr>))"
      using r gone by (auto simp: registry_index_sel registry_ok_def fun_upd_idem index_ok_push split: option.split)
  qed simp
  then show ?thesis by (simp add: hub_ok_def register_def Let_def registry_index_sel)
qed

lemma unregister_sel:
  "fst (unregister i hb) = hub_get hb i"
  "hub_get (snd (snd (unregister i hb))) = (hub_get hb)(i := None)"
  "hub_next_id (snd (snd (unregister i hb))) = hub_next_id hb"
  by (auto simp: unregister_def Let_def hub_get_def hub_conns_def registry_unindex_sel delete_conv' fun_eq_iff
      split: option.split)

lemma unregister_ok:
  assumes ok: "hub_ok hb"
  shows "hub_ok (snd (snd (unregister i hb)))"
proof (cases "hub_get hb i")
  case None
  with ok show ?thesis by (simp add: unregister_def)
next
  case (Some s)
  let ?r = "(hub_reg hb)\<lparr>conns := AList.delete i (hub_conns hb)\<rparr>"
  have r: "registry_ok (hub_reg hb)" using ok by (simp add: hub_ok_def)
  have sid: "sub_id s = i" using hub_getD [OF ok Some] by simp
  have name: "names_by f (hub_reg hb) i = f s" for f
    using Some by (simp add: names_by_def hub_get_def hub_conns_def)
  have "registry_ok (registry_unindex s ?r)"
  proof (rule registry_ok_drop [OF r])
    show "conns (registry_unindex s ?r) = AList.delete i (conns (hub_reg hb))"
      by (simp add: registry_unindex_sel hub_conns_def)
    show "index_ok ((names_by sub_client_uid (hub_reg hb))(i := None)) (by_uid (registry_unindex s ?r))"
      using r name sid
      by (auto simp: registry_unindex_sel registry_ok_def fun_upd_idem index_ok_remove split: option.split)
    show "index_ok ((names_by sub_callsign (hub_reg hb))(i := None)) (by_callsign (registry_unindex s ?r))"
      using r name sid
      by (auto simp: registry_unindex_sel registry_ok_def fun_upd_idem index_ok_remove split: option.split)
  qed
  with Some show ?thesis by (simp add: unregister_def hub_ok_def Let_def)
qed

text \<open>A write that keeps the two names.\<close>

lemma put_conn_ok:
  assumes ok: "hub_ok hb" and get: "hub_get hb i = Some s"
    and same: "sub_id t = sub_id s" "sub_handle t = sub_handle s"
      "sub_client_uid t = sub_client_uid s" "sub_callsign t = sub_callsign s"
  shows "hub_ok (hb\<lparr>hub_reg := put_conn i t (hub_reg hb)\<rparr>)"
proof -
  have r: "registry_ok (hub_reg hb)" using ok by (simp add: hub_ok_def)
  have name: "names_by f (hub_reg hb) i = f s" for f
    using get by (simp add: names_by_def hub_get_def hub_conns_def)
  then have keep: "(names_by sub_client_uid (hub_reg hb))(i := sub_client_uid t) = names_by sub_client_uid (hub_reg hb)"
    "(names_by sub_callsign (hub_reg hb))(i := sub_callsign t) = names_by sub_callsign (hub_reg hb)"
    using same by (simp_all add: fun_upd_idem)
  have "index_ok ((names_by sub_client_uid (hub_reg hb))(i := sub_client_uid t)) (by_uid (put_conn i t (hub_reg hb)))"
    "index_ok ((names_by sub_callsign (hub_reg hb))(i := sub_callsign t)) (by_callsign (put_conn i t (hub_reg hb)))"
    unfolding keep using r by (simp_all add: put_conn_def registry_ok_def)
  then have "registry_ok (put_conn i t (hub_reg hb))"
    by (intro registry_ok_put [OF r])
      (use hub_getD [OF ok get] same(1,2) in \<open>simp_all add: put_conn_def\<close>)
  then show ?thesis by (simp add: hub_ok_def)
qed

lemma hub_get_put: "hub_get (hb\<lparr>hub_reg := put_conn i t (hub_reg hb)\<rparr>) = (hub_get hb)(i \<mapsto> t)"
  by (auto simp: hub_get_def hub_conns_def put_conn_def update_conv' fun_eq_iff)

lemma set_incognito_ok: "hub_ok hb \<Longrightarrow> hub_ok (snd (set_incognito i b hb))"
  by (auto simp: set_incognito_def put_conn_ok split: option.split)

lemma hub_set_mode_ok: "hub_ok hb \<Longrightarrow> hub_ok (hub_set_mode i m hb)"
  by (auto simp: hub_set_mode_def put_conn_ok split: option.split)

lemma reauth_ok: "hub_ok hb \<Longrightarrow> hub_ok (snd (reauth i g ns hb))"
  by (auto simp: reauth_def put_conn_ok Let_def split: option.split)

lemma apply_event_sel:
  "hub_get (snd (apply_event now i e x hb)) =
     (case hub_get hb i of None \<Rightarrow> hub_get hb
      | Some s \<Rightarrow> (hub_get hb)(i \<mapsto> snd (sub_apply_event now e x s)))"
  "hub_next_id (snd (apply_event now i e x hb)) = hub_next_id hb"
  by (auto simp: apply_event_def Let_def hub_get_def hub_conns_def reindex_sel put_conn_def update_conv' fun_eq_iff
      split: option.split prod.split)

lemma apply_event_ok:
  assumes ok: "hub_ok hb"
  shows "hub_ok (snd (apply_event now i e x hb))"
proof (cases "hub_get hb i")
  case None
  with ok show ?thesis by (simp add: apply_event_def)
next
  case (Some s)
  obtain u t where ut: "sub_apply_event now e x s = (u, t)" by force
  let ?r = "reindex ByCallsign i (sub_callsign s) (sub_callsign t)
      (reindex ByUid i (sub_client_uid s) (sub_client_uid t) (put_conn i t (hub_reg hb)))"
  have r: "registry_ok (hub_reg hb)" using ok by (simp add: hub_ok_def)
  have t: "sub_id t = i" "h_id (sub_handle t) = i"
    using hub_getD [OF ok Some] sub_apply_fixed [of now e x s] by (simp_all add: ut)
  have name: "names_by f (hub_reg hb) i = f s" for f
    using Some by (simp add: names_by_def hub_get_def hub_conns_def)
  have "registry_ok ?r"
  proof (rule registry_ok_put [OF r t])
    show "index_ok ((names_by sub_client_uid (hub_reg hb))(i := sub_client_uid t)) (by_uid ?r)"
      using r index_ok_move [of "names_by sub_client_uid (hub_reg hb)" "by_uid (hub_reg hb)" i "sub_client_uid t"]
      by (auto simp: reindex_sel put_conn_def registry_ok_def name)
    show "index_ok ((names_by sub_callsign (hub_reg hb))(i := sub_callsign t)) (by_callsign ?r)"
      using r index_ok_move [of "names_by sub_callsign (hub_reg hb)" "by_callsign (hub_reg hb)" i "sub_callsign t"]
      by (auto simp: reindex_sel put_conn_def registry_ok_def name)
  qed (simp add: reindex_sel put_conn_def)
  with Some ut show ?thesis by (simp add: apply_event_def hub_ok_def)
qed

section \<open>What the questions answer\<close>

text \<open>A handle belongs to a connection.\<close>

definition handle_of :: "hub \<Rightarrow> conn_handle \<Rightarrow> subscription \<Rightarrow> bool" where
  "handle_of hb h c \<longleftrightarrow> hub_get hb (h_id h) = Some c \<and> sub_handle c = h"

lemma set_hub_values: "hub_ok hb \<Longrightarrow> c \<in> set (hub_values hb) \<longleftrightarrow> hub_get hb (sub_id c) = Some c"
proof -
  assume ok: "hub_ok hb"
  then have mem: "(i, s) \<in> set (hub_conns hb) \<longleftrightarrow> hub_get hb i = Some s" for i s
    by (simp add: hub_ok_def hub_conns_def hub_get_def map_of_conns)
  have "c \<in> set (hub_values hb) \<longleftrightarrow> (\<exists>i. hub_get hb i = Some c)"
    by (simp add: hub_values_def mem [symmetric] image_iff Bex_def)
  then show ?thesis by (metis hub_getD [OF ok])
qed

lemma handle_of_iff: "hub_ok hb \<Longrightarrow> handle_of hb h c \<longleftrightarrow> c \<in> set (hub_values hb) \<and> sub_handle c = h"
  by (metis handle_of_def hub_getD set_hub_values)

lemma h_id_sub_handle: "hub_ok hb \<Longrightarrow> c \<in> set (hub_values hb) \<Longrightarrow> h_id (sub_handle c) = sub_id c"
  by (metis hub_getD set_hub_values)

lemma distinct_ids: "hub_ok hb \<Longrightarrow> distinct (map sub_id (hub_values hb))"
proof -
  assume ok: "hub_ok hb"
  then have "map sub_id (hub_values hb) = map fst (hub_conns hb)"
    by (auto simp: hub_values_def hub_conns_def hub_ok_def registry_ok_def)
  with ok show ?thesis by (simp add: hub_ok_def registry_ok_def hub_conns_def)
qed

lemma distinct_handles:
  assumes ok: "hub_ok hb"
  shows "distinct (map h_id (map sub_handle (filter P (hub_values hb))))"
proof -
  have "map h_id (map sub_handle (filter P (hub_values hb))) = map sub_id (filter P (hub_values hb))"
    using h_id_sub_handle [OF ok] by simp
  then show ?thesis using distinct_ids [OF ok] by (metis distinct_map_filter)
qed

lemma reachable_from_iff:
  assumes "hub_ok hb" "hub_get hb i = Some s"
  shows "h \<in> set (reachable_from i ex hb) \<longleftrightarrow>
    (\<exists>c. handle_of hb h c \<and> sub_reaches s c \<and> \<not> (ex \<and> h_id h = i))"
  using assms(2) by (auto simp: reachable_from_def handle_of_iff [OF assms(1)] h_id_sub_handle [OF assms(1)])

lemma reachable_from_gone: "hub_get hb i = None \<Longrightarrow> reachable_from i ex hb = []"
  by (simp add: reachable_from_def)

lemma reachable_from_distinct: "hub_ok hb \<Longrightarrow> distinct (map h_id (reachable_from i ex hb))"
  using distinct_handles [of hb "\<lambda>c. \<not> (ex \<and> sub_id c = i) \<and> sub_reaches s c" for s]
  by (cases "hub_get hb i") (simp_all add: reachable_from_def)

lemma reachable_in_group_iff:
  assumes "hub_ok hb" "hub_get hb i = Some s"
  shows "h \<in> set (reachable_in_group i bp hb) \<longleftrightarrow>
    (\<exists>c. handle_of hb h c \<and> sub_reaches s c \<and> has_group bp Out (sub_principal c) \<and> h_id h \<noteq> i)"
  using assms(2) by (auto simp: reachable_in_group_def handle_of_iff [OF assms(1)] h_id_sub_handle [OF assms(1)])

lemma handles_reachable_by_iff:
  assumes "hub_ok hb"
  shows "h \<in> set (handles_reachable_by p ex hb) \<longleftrightarrow>
    (\<exists>c. handle_of hb h c \<and> can_reach (pr_groups p) (pr_groups (sub_principal c)) \<and> ex \<noteq> Some (h_id h))"
  by (auto simp: handles_reachable_by_def handle_of_iff [OF assms] h_id_sub_handle [OF assms])

lemma handles_for_user_iff:
  "hub_ok hb \<Longrightarrow> h \<in> set (handles_for_user u hb) \<longleftrightarrow>
    (\<exists>c. handle_of hb h c \<and> pr_username (sub_principal c) = u)"
  by (auto simp: handles_for_user_def handle_of_iff)

lemma handles_for_fingerprint_iff:
  "hub_ok hb \<Longrightarrow> h \<in> set (handles_for_fingerprint fp hb) \<longleftrightarrow>
    (\<exists>c. handle_of hb h c \<and> sub_fingerprint c = fp)"
  by (auto simp: handles_for_fingerprint_def handle_of_iff)

text \<open>The index read by \<open>resolve\<close> names exactly the connections that carry the key.\<close>

definition name_in :: "index \<Rightarrow> subscription \<Rightarrow> ustr option" where
  "name_in ix = (case ix of ByUid \<Rightarrow> sub_client_uid | ByCallsign \<Rightarrow> sub_callsign)"

lemma lookup_iff:
  assumes "hub_ok hb"
  shows "(\<exists>ids. index_lookup ix (hub_reg hb) key = Some ids \<and> i \<in> set ids) \<longleftrightarrow>
    (\<exists>c. hub_get hb i = Some c \<and> name_in ix c = Some key)"
proof -
  have get: "(\<exists>c. hub_get hb i = Some c \<and> f c = Some key) \<longleftrightarrow> names_by f (hub_reg hb) i = Some key" for f
    by (auto simp: hub_get_def hub_conns_def names_by_def bind_eq_Some_conv)
  have ent: "(\<exists>ids. m key = Some ids \<and> i \<in> set ids) \<longleftrightarrow> i \<in> set (entries m key)" for m
    by (cases "m key") (auto simp: entries_def)
  show ?thesis
    using assms by (cases ix) (auto simp: index_lookup_def name_in_def get ent hub_ok_def registry_ok_def index_ok_D)
qed

text \<open>The loop of \<open>resolve\<close> keeps the ids it has seen beside the handles it has taken.\<close>

definition acc_ok :: "subscription \<Rightarrow> hub \<Rightarrow> conn_handle list \<times> conn_id list \<Rightarrow> conn_id set \<Rightarrow> bool" where
  "acc_ok s hb acc I \<longleftrightarrow> map h_id (fst acc) = snd acc \<and> distinct (snd acc) \<and>
     (\<forall>h. h \<in> set (fst acc) \<longleftrightarrow> h_id h \<in> I \<and> (\<exists>c. handle_of hb h c \<and> sub_reaches s c))"

lemma resolve_ids_ok:
  assumes ok: "hub_ok hb"
  shows "acc_ok s hb acc I \<Longrightarrow> acc_ok s hb (resolve_ids s hb acc ids) (I \<union> set ids)"
proof (induction ids arbitrary: acc I)
  case Nil
  then show ?case by (simp add: resolve_ids_def)
next
  case (Cons i ids)
  obtain hs seen where acc: "acc = (hs, seen)" by force
  define acc' where "acc' = resolve_ids s hb acc [i]"
  have "acc_ok s hb acc' (insert i I)"
  proof (cases "hub_get hb i")
    case None
    then have "acc' = acc" by (simp add: acc'_def resolve_ids_def acc)
    with Cons.prems None show ?thesis by (auto simp: acc_ok_def handle_of_def)
  next
    case (Some c)
    have id: "h_id (sub_handle c) = i" using hub_getD [OF ok Some] by simp
    show ?thesis
    proof (cases "sub_reaches s c \<and> i \<notin> set seen")
      case True
      then have "acc' = (hs @ [sub_handle c], seen @ [i])" by (simp add: acc'_def resolve_ids_def acc Some)
      with Cons.prems True Some id show ?thesis
        by (auto simp: acc_ok_def handle_of_def acc)
    next
      case False
      then have "acc' = acc" by (auto simp: acc'_def resolve_ids_def acc Some)
      moreover have "h \<in> set hs \<longleftrightarrow> h_id h \<in> insert i I \<and> (\<exists>c. handle_of hb h c \<and> sub_reaches s c)" for h
      proof (cases "h_id h = i")
        case hi: True
        show ?thesis
        proof (cases "sub_reaches s c")
          case True
          with False have "i \<in> h_id ` set hs" using Cons.prems by (auto simp: acc_ok_def acc)
          then have "sub_handle c \<in> set hs" using Cons.prems Some by (auto simp: acc_ok_def acc handle_of_def)
          with Cons.prems hi Some True show ?thesis by (auto simp: acc_ok_def acc handle_of_def)
        next
          case False
          with Cons.prems hi Some show ?thesis by (auto simp: acc_ok_def acc handle_of_def)
        qed
      next
        case False
        with Cons.prems show ?thesis by (auto simp: acc_ok_def acc)
      qed
      ultimately show ?thesis using Cons.prems by (simp add: acc_ok_def acc)
    qed
  qed
  from Cons.IH [OF this] show ?case by (simp add: acc'_def resolve_ids_def)
qed

lemma resolve_acc:
  assumes ok: "hub_ok hb" and get: "hub_get hb i = Some s"
  shows "\<exists>acc. resolve i keys ix hb = fst acc \<and>
    acc_ok s hb acc {j. \<exists>c. hub_get hb j = Some c \<and> (\<exists>k\<in>set keys. name_in ix c = Some k)}"
proof -
  define step where "step acc key = (case index_lookup ix (hub_reg hb) key of
      None \<Rightarrow> acc | Some ids \<Rightarrow> resolve_ids s hb acc ids)" for acc key
  have one: "acc_ok s hb (step acc key) (I \<union> {j. \<exists>c. hub_get hb j = Some c \<and> name_in ix c = Some key})"
    if "acc_ok s hb acc I" for acc key I
  proof (cases "index_lookup ix (hub_reg hb) key")
    case None
    then have "{j. \<exists>c. hub_get hb j = Some c \<and> name_in ix c = Some key} = {}"
      using lookup_iff [OF ok, of ix key] by auto
    with None that show ?thesis unfolding step_def by (simp only: option.case Un_empty_right)
  next
    case (Some ids)
    then have "{j. \<exists>c. hub_get hb j = Some c \<and> name_in ix c = Some key} = set ids"
      using lookup_iff [OF ok, of ix key] by auto
    with Some resolve_ids_ok [OF ok that] show ?thesis unfolding step_def by (simp only: option.case)
  qed
  have "acc_ok s hb (foldl step acc keys)
      (I \<union> {j. \<exists>c. hub_get hb j = Some c \<and> (\<exists>k\<in>set keys. name_in ix c = Some k)})"
    if "acc_ok s hb acc I" for acc I
    using that
  proof (induction keys arbitrary: acc I)
    case (Cons k keys)
    from Cons.IH [OF one [OF Cons.prems, of k]] show ?case
      by (simp add: Un_assoc) (erule back_subst [where P = "acc_ok s hb _"], auto)
  qed simp
  from this [of "([], [])" "{}"] show ?thesis
    using get by (auto simp: resolve_def step_def [abs_def] acc_ok_def)
qed

lemma resolve_iff:
  assumes "hub_ok hb" "hub_get hb i = Some s"
  shows "h \<in> set (resolve i keys ix hb) \<longleftrightarrow>
    (\<exists>c. handle_of hb h c \<and> sub_reaches s c \<and> (\<exists>k\<in>set keys. name_in ix c = Some k))"
  using resolve_acc [OF assms, of keys ix] by (auto simp: acc_ok_def handle_of_def)

lemma resolve_distinct: "hub_ok hb \<Longrightarrow> distinct (map h_id (resolve i keys ix hb))"
proof (cases "hub_get hb i")
  case (Some s)
  assume "hub_ok hb"
  from resolve_acc [OF this Some, of keys ix] show ?thesis by (auto simp: acc_ok_def)
qed (simp add: resolve_def)

lemma resolve_gone: "hub_get hb i = None \<Longrightarrow> resolve i keys ix hb = []"
  by (simp add: resolve_def)

end
