(* ===== verification/Hub_Props.thy ===== *)
theory Hub_Props
  imports Hub_Inv "HOL-Library.Multiset"
begin

text \<open>
  The life of the registry: the states that the operations of
  \<open>rustak-server/src/stream/hub.rs\<close> can reach, in any interleaving, and the properties of the
  answers in all of them.
\<close>

section \<open>Reachable hubs\<close>

text \<open>A connection takes an identifier (\<open>next_id\<close>), and registers under it some time later; between
  the two, anything may happen to the other connections.  The second component is the identifiers
  taken and not yet registered.\<close>

inductive hub_step :: "hub \<times> conn_id set \<Rightarrow> hub \<times> conn_id set \<Rightarrow> bool" where
  take_id: "hub_next_id hb + 1 < 2 ^ 64 \<Longrightarrow> next_conn_id hb = (i, hb') \<Longrightarrow>
     hub_step (hb, P) (hb', insert i P)"
| join: "sub_id s \<in> P \<Longrightarrow> h_id (sub_handle s) = sub_id s \<Longrightarrow> register s hb = (i, changes, hb') \<Longrightarrow>
     hub_step (hb, P) (hb', P - {i})"
| leave: "unregister i hb = (gone, changes, hb') \<Longrightarrow> hub_step (hb, P) (hb', P)"
| event: "apply_event now i e x hb = (update, hb') \<Longrightarrow> hub_step (hb, P) (hb', P)"
| incognito: "set_incognito i b hb = (found, hb') \<Longrightarrow> hub_step (hb, P) (hb', P)"
| switch: "hub_step (hb, P) (hub_set_mode i m hb, P)"
| rights: "reauth i groups names hb = (found, hb') \<Longrightarrow> hub_step (hb, P) (hb', P)"

inductive_cases hub_stepE: "hub_step (hb, P) (hb', P')"

inductive hub_reach :: "hub \<times> conn_id set \<Rightarrow> bool" where
  start: "hub_reach (hub_new, {})"
| more_steps: "hub_reach st \<Longrightarrow> hub_step st st' \<Longrightarrow> hub_reach st'"

definition ids_ok :: "hub \<times> conn_id set \<Rightarrow> bool" where
  "ids_ok st \<longleftrightarrow> (case st of (hb, P) \<Rightarrow>
     (\<forall>i \<in> P. hub_get hb i = None \<and> conn_no i \<le> hub_next_id hb) \<and>
     (\<forall>i. hub_get hb i = None \<or> conn_no i \<le> hub_next_id hb))"

text \<open>Every step keeps the invariant, the identifiers below the counter, and a taken identifier
  unused.\<close>

lemma other_writes:
  "set_incognito i b hb = (found, hb') \<Longrightarrow> dom (hub_get hb') = dom (hub_get hb) \<and> hub_next_id hb' = hub_next_id hb"
  "reauth i groups names hb = (found, hb') \<Longrightarrow> dom (hub_get hb') = dom (hub_get hb) \<and> hub_next_id hb' = hub_next_id hb"
  "dom (hub_get (hub_set_mode i m hb)) = dom (hub_get hb) \<and> hub_next_id (hub_set_mode i m hb) = hub_next_id hb"
  by (auto simp: set_incognito_def reauth_def hub_set_mode_def Let_def hub_get_put split: option.splits if_splits)

lemma event_writes:
  "apply_event now i e x hb = (update, hb') \<Longrightarrow> dom (hub_get hb') = dom (hub_get hb) \<and> hub_next_id hb' = hub_next_id hb"
  using apply_event_sel [of now i e x hb] by (auto split: option.splits)

lemma ids_ok_same_dom:
  "ids_ok (hb, P) \<Longrightarrow> dom (hub_get hb') = dom (hub_get hb) \<and> hub_next_id hb' = hub_next_id hb \<Longrightarrow> ids_ok (hb', P)"
proof -
  assume ids: "ids_ok (hb, P)" and same: "dom (hub_get hb') = dom (hub_get hb) \<and> hub_next_id hb' = hub_next_id hb"
  then have "hub_get hb' i = None \<longleftrightarrow> hub_get hb i = None" for i by (metis domIff)
  with ids same show ?thesis by (simp add: ids_ok_def)
qed

lemma hub_step_ok:
  assumes "hub_step st st'" and "hub_ok (fst st) \<and> ids_ok st"
  shows "hub_ok (fst st') \<and> ids_ok st'"
  using assms
proof (induction rule: hub_step.induct)
  case (take_id hb i hb' P)
  then have "i = ConnId (hub_next_id hb + 1)" "hub_next_id hb' = hub_next_id hb + 1" "hub_get hb' = hub_get hb"
    "hub_reg hb' = hub_reg hb"
    by (auto simp: next_conn_id_def add_u64_def hub_get_def hub_conns_def)
  with take_id.prems show ?case
    by (fastforce simp: hub_ok_def ids_ok_def)
next
  case (join s P hb i changes hb')
  then have eq: "hub_get hb' = (hub_get hb)(sub_id s \<mapsto> s)" "hub_next_id hb' = hub_next_id hb" "i = sub_id s"
    using register_sel [of s hb] by auto
  have "hub_ok hb'" using register_ok [of hb s] join by (auto simp: ids_ok_def)
  with join eq show ?case by (auto simp: ids_ok_def)
next
  case (leave i hb gone changes hb' P)
  then have "hub_get hb' = (hub_get hb)(i := None)" "hub_next_id hb' = hub_next_id hb" "hub_ok hb'"
    using unregister_sel [of i hb] unregister_ok [of hb i] by auto
  with leave show ?case by (auto simp: ids_ok_def)
next
  case (event now i e x hb update hb' P)
  then show ?case using apply_event_ok [of hb now i e x] event_writes ids_ok_same_dom by fastforce
next
  case (incognito i b hb found hb' P)
  then show ?case using set_incognito_ok [of hb i b] other_writes(1) ids_ok_same_dom by fastforce
next
  case (switch hb P i m)
  then show ?case using hub_set_mode_ok [of hb i m] other_writes(3) ids_ok_same_dom by fastforce
next
  case (rights i groups names hb found hb' P)
  then show ?case using reauth_ok [of hb i groups names] other_writes(2) ids_ok_same_dom by fastforce
qed

lemma hub_reach_ok: "hub_reach st \<Longrightarrow> hub_ok (fst st) \<and> ids_ok st"
proof (induction rule: hub_reach.induct)
  case start
  show ?case by (simp add: ids_ok_def)
next
  case (more_steps st st')
  from hub_step_ok [OF more_steps.hyps(2) more_steps.IH] show ?case .
qed

section \<open>A concrete hub\<close>

text \<open>Two identified connections that share one channel.\<close>

definition demo_sub :: "nat \<Rightarrow> ustr \<Rightarrow> subscription" where
  "demo_sub n u =
     (subscription_new 0 (ConnId n)
        (with_groups (gs_set 7 Both gs_new) (principal_new u u Person SetupToken)) [] [] []
        \<lparr>h_id = ConnId n, h_close_after_drops = 512\<rparr>)
     \<lparr>sub_client_uid := Some u, sub_callsign := Some u, sub_latest_sa := Some (event_default 0)\<rparr>"

definition demo_join :: "subscription \<Rightarrow> hub \<Rightarrow> hub" where
  "demo_join s hb = snd (snd (register s (snd (next_conn_id hb))))"

definition demo_hub :: hub where
  "demo_hub = demo_join (demo_sub 2 (lit ''BRAVO'')) (demo_join (demo_sub 1 (lit ''ALPHA'')) hub_new)"

lemma demo_sub_sel [simp]:
  "sub_id (demo_sub n u) = ConnId n" "h_id (sub_handle (demo_sub n u)) = ConnId n"
  "sub_client_uid (demo_sub n u) = Some u" "sub_callsign (demo_sub n u) = Some u"
  by (simp_all add: demo_sub_def subscription_new_def)

lemma demo_join_reach:
  assumes "hub_reach (hb, {})" and "hub_next_id hb + 1 < 2 ^ 64" and "sub_id s = ConnId (hub_next_id hb + 1)"
    and "h_id (sub_handle s) = sub_id s"
  shows "hub_reach (demo_join s hb, {})"
proof -
  have "hub_step (hb, {}) (snd (next_conn_id hb), {sub_id s})"
    using take_id [of hb "sub_id s" "snd (next_conn_id hb)" "{}"] assms(2,3)
    by (simp add: next_conn_id_def)
  moreover have "hub_step (snd (next_conn_id hb), {sub_id s}) (demo_join s hb, {sub_id s} - {sub_id s})"
    unfolding demo_join_def
    by (rule join) (use assms(4) in \<open>simp_all add: register_def Let_def\<close>)
  ultimately show ?thesis using assms(1) by (auto intro: more_steps)
qed

lemma demo_next: "hub_next_id (demo_join s hb) = add_u64 (hub_next_id hb) 1"
  by (simp add: demo_join_def register_sel next_conn_id_def)

lemma demo_reach: "hub_reach (demo_hub, {})"
  unfolding demo_hub_def
  by (intro demo_join_reach start) (simp_all add: demo_next hub_new_def add_u64_def)

lemma demo_hub_next: "hub_next_id demo_hub = 2"
  by (simp add: demo_hub_def demo_next hub_new_def add_u64_def)

lemma demo_ok: "hub_ok demo_hub"
  using hub_reach_ok [OF demo_reach] by simp

lemma demo_get: "hub_get demo_hub = [ConnId 1 \<mapsto> demo_sub 1 (lit ''ALPHA''), ConnId 2 \<mapsto> demo_sub 2 (lit ''BRAVO'')]"
proof -
  have "hub_get (snd (next_conn_id hb)) = hub_get hb" for hb
    by (simp add: next_conn_id_def hub_get_def hub_conns_def fun_eq_iff)
  moreover have "hub_get hub_new = Map.empty" by (simp add: fun_eq_iff)
  ultimately show ?thesis by (simp add: demo_hub_def demo_join_def register_sel)
qed

definition demo_sa :: "ustr \<Rightarrow> event" where
  "demo_sa callsign =
     b_push (el_attr (lit ''endpoint'') (lit ''*:-1:stcp'') (el_attr (lit ''callsign'') callsign (el_new CONTACT)))
       (event_builder 0 (lit ''a-f-G-U-C'') (lit ''ALPHA''))"

section \<open>Properties\<close>

text \<open>C4: whatever order connections join, leave, report, rename, hide and change channels in, the
  registry's indexes never go stale: a lookup by uid or by callsign names exactly the connections
  that carry that name at the moment, an index entry never names one twice, an identifier handed out
  is never already in use, and every stored connection is stored under its own identifier.\<close>

theorem registry_never_stale:
  assumes "hub_reach (hb, P)"
  shows "((\<exists>ids. index_lookup ix (hub_reg hb) key = Some ids \<and> i \<in> set ids) \<longleftrightarrow>
      (\<exists>c. hub_get hb i = Some c \<and> name_in ix c = Some key)) \<and>
    (\<forall>ids. index_lookup ix (hub_reg hb) key = Some ids \<longrightarrow> distinct ids \<and> ids \<noteq> []) \<and>
    (i \<in> P \<longrightarrow> hub_get hb i = None) \<and>
    (hub_next_id hb + 1 < 2 ^ 64 \<longrightarrow> fst (next_conn_id hb) \<notin> P \<and> hub_get hb (fst (next_conn_id hb)) = None) \<and>
    (\<forall>c. hub_get hb i = Some c \<longrightarrow> sub_id c = i)"
proof -
  have ok: "hub_ok hb" and ids: "ids_ok (hb, P)" using hub_reach_ok [OF assms] by simp_all
  have "distinct js \<and> js \<noteq> []" if "index_lookup ix (hub_reg hb) key = Some js" for js
  proof -
    have "index_ok f m \<Longrightarrow> m key = Some js \<Longrightarrow> distinct js \<and> js \<noteq> []" for f m
      using index_ok_SomeD [of f m key js] by (auto simp: index_ok_def)
    with that ok show ?thesis by (cases ix) (auto simp: index_lookup_def hub_ok_def registry_ok_def)
  qed
  moreover have "fst (next_conn_id hb) \<notin> P \<and> hub_get hb (fst (next_conn_id hb)) = None"
    if "hub_next_id hb + 1 < 2 ^ 64"
  proof -
    have "fst (next_conn_id hb) = ConnId (hub_next_id hb + 1)" using that by (simp add: next_conn_id_def)
    then show ?thesis using ids by (fastforce simp: ids_ok_def)
  qed
  ultimately show ?thesis
    using lookup_iff [OF ok, of ix key i] hub_getD [OF ok] ids by (auto simp: ids_ok_def)
qed

theorem registry_never_stale_witness:
  "(\<exists>ids. index_lookup ByCallsign (hub_reg demo_hub) (lit ''ALPHA'') = Some ids \<and> ConnId 1 \<in> set ids \<and>
      distinct ids) \<and>
    \<not> (\<exists>ids. index_lookup ByCallsign (hub_reg demo_hub) (lit ''BRAVO'') = Some ids \<and> ConnId 1 \<in> set ids) \<and>
    hub_get demo_hub (fst (next_conn_id demo_hub)) = None"
  using registry_never_stale [OF demo_reach, of ByCallsign "lit ''ALPHA''" "ConnId 1"]
    registry_never_stale [OF demo_reach, of ByCallsign "lit ''BRAVO''" "ConnId 1"]
  by (auto simp: demo_get demo_hub_next lit_def name_in_def)

text \<open>A device that is renamed mid-session is found under its new callsign and no longer under
  its old one, from the message that says so on, and every other connection is found as before.\<close>

theorem rename_is_followed:
  assumes "hub_ok hb" and "hub_get hb i = Some s" and "identifies e"
    and "apply_event now i e x hb = (update, hb')"
  shows "((\<exists>ids. index_lookup ByCallsign (hub_reg hb') key = Some ids \<and> i \<in> set ids) \<longleftrightarrow>
      ev_callsign e = Some key) \<and>
    (j \<noteq> i \<longrightarrow>
      (\<exists>ids. index_lookup ByCallsign (hub_reg hb') key = Some ids \<and> j \<in> set ids) =
      (\<exists>ids. index_lookup ByCallsign (hub_reg hb) key = Some ids \<and> j \<in> set ids)) \<and>
    ((\<exists>ids. index_lookup ByUid (hub_reg hb') key = Some ids \<and> i \<in> set ids) \<longleftrightarrow>
      (case sub_client_uid s of None \<Rightarrow> ev_uid e = key | Some u \<Rightarrow> u = key))"
proof -
  have hb': "hb' = snd (apply_event now i e x hb)" using assms(4) by simp
  have ok': "hub_ok hb'" unfolding hb' by (rule apply_event_ok) fact
  have get: "hub_get hb' = (hub_get hb)(i \<mapsto> snd (sub_apply_event now e x s))"
    using assms(2) by (simp add: hb' apply_event_sel)
  show ?thesis
    unfolding lookup_iff [OF ok'] lookup_iff [OF assms(1)] get
    using assms(2,3) by (auto simp: name_in_def sub_apply_callsign sub_apply_uid split: option.splits)
qed

theorem rename_is_followed_witness:
  "\<exists>update hb'. apply_event 5 (ConnId 1) (demo_sa (lit ''CHARLIE'')) None demo_hub = (update, hb') \<and>
    ((\<exists>ids. index_lookup ByCallsign (hub_reg hb') (lit ''CHARLIE'') = Some ids \<and> ConnId 1 \<in> set ids) \<longleftrightarrow>
      ev_callsign (demo_sa (lit ''CHARLIE'')) = Some (lit ''CHARLIE'')) \<and>
    (ConnId 2 \<noteq> ConnId 1 \<longrightarrow>
      (\<exists>ids. index_lookup ByCallsign (hub_reg hb') (lit ''CHARLIE'') = Some ids \<and> ConnId 2 \<in> set ids) =
      (\<exists>ids. index_lookup ByCallsign (hub_reg demo_hub) (lit ''CHARLIE'') = Some ids \<and> ConnId 2 \<in> set ids)) \<and>
    ((\<exists>ids. index_lookup ByUid (hub_reg hb') (lit ''CHARLIE'') = Some ids \<and> ConnId 1 \<in> set ids) \<longleftrightarrow>
      (case sub_client_uid (demo_sub 1 (lit ''ALPHA'')) of
         None \<Rightarrow> ev_uid (demo_sa (lit ''CHARLIE'')) = lit ''CHARLIE'' | Some u \<Rightarrow> u = lit ''CHARLIE''))"
proof -
  obtain u hb' where a: "apply_event 5 (ConnId 1) (demo_sa (lit ''CHARLIE'')) None demo_hub = (u, hb')" by force
  have "identifies (demo_sa (lit ''CHARLIE''))" by code_simp
  from rename_is_followed [OF demo_ok _ this a, of "demo_sub 1 (lit ''ALPHA'')" "lit ''CHARLIE''" "ConnId 2"] a
  show ?thesis by (simp only: demo_get) (simp only: fun_upd_apply conn_id.inject, simp)
qed

text \<open>C5: an explicit address is answered exactly: looking up a list of callsigns (or uids) for a
  sender gives the connections carrying one of those names that the sender's channels reach, each
  once, however often and under however many names it was addressed.\<close>

theorem explicit_address_exact:
  assumes "hub_reach (hb, P)" and "hub_get hb i = Some s"
  shows "set (resolve_callsigns i keys hb) =
      {h. \<exists>c. handle_of hb h c \<and> sub_reaches s c \<and> (\<exists>k\<in>set keys. sub_callsign c = Some k)} \<and>
    distinct (map h_id (resolve_callsigns i keys hb)) \<and>
    set (resolve_uids i keys hb) =
      {h. \<exists>c. handle_of hb h c \<and> sub_reaches s c \<and> (\<exists>k\<in>set keys. sub_client_uid c = Some k)} \<and>
    distinct (map h_id (resolve_uids i keys hb))"
proof -
  have ok: "hub_ok hb" using hub_reach_ok [OF assms(1)] by simp
  show ?thesis
    using resolve_distinct [OF ok, of i keys]
    by (simp add: resolve_callsigns_def resolve_uids_def name_in_def set_eq_iff resolve_iff [OF ok assms(2)])
qed

theorem explicit_address_exact_witness:
  "set (resolve_callsigns (ConnId 1) [lit ''BRAVO'', lit ''BRAVO''] demo_hub) =
      {h. \<exists>c. handle_of demo_hub h c \<and> sub_reaches (demo_sub 1 (lit ''ALPHA'')) c \<and>
        (\<exists>k\<in>set [lit ''BRAVO'', lit ''BRAVO'']. sub_callsign c = Some k)} \<and>
    distinct (map h_id (resolve_callsigns (ConnId 1) [lit ''BRAVO'', lit ''BRAVO''] demo_hub)) \<and>
    set (resolve_uids (ConnId 1) [lit ''BRAVO'', lit ''BRAVO''] demo_hub) =
      {h. \<exists>c. handle_of demo_hub h c \<and> sub_reaches (demo_sub 1 (lit ''ALPHA'')) c \<and>
        (\<exists>k\<in>set [lit ''BRAVO'', lit ''BRAVO'']. sub_client_uid c = Some k)} \<and>
    distinct (map h_id (resolve_uids (ConnId 1) [lit ''BRAVO'', lit ''BRAVO''] demo_hub))"
  by (rule explicit_address_exact [OF demo_reach]) (simp add: demo_get)

lemma get_iff_value: "hub_ok hb \<Longrightarrow> hub_get hb j = Some p \<longleftrightarrow> p \<in> set (hub_values hb) \<and> sub_id p = j"
  by (metis hub_getD set_hub_values)

lemma distinct_fst_sort: "distinct (map fst (sort_key f xs)) \<longleftrightarrow> distinct (map fst xs)"
  by (metis mset_eq_imp_distinct_iff mset_map mset_sort)

lemma sort_fst_strict:
  assumes "distinct (map fst xs)"
  shows "sorted_wrt (\<lambda>a b. fst a < (fst b :: 'a :: linorder)) (sort_key fst xs)"
proof -
  have "sorted_wrt (<) (map fst (sort_key fst xs))"
    using assms by (simp add: strict_sorted_iff distinct_fst_sort)
  then show ?thesis by (simp only: sorted_wrt_map)
qed

text \<open>A client that connects is shown the last position of exactly the peers whose channels
  reach it, in the order they connected: never its own, never one of an incognito peer, never one
  of a peer it may not see.\<close>

theorem replay_is_exact:
  assumes "hub_reach (hb, P)" and "hub_get hb i = Some r"
  shows "\<exists>l. latest_sa_for i hb = map snd l \<and> sorted_wrt (\<lambda>a b. fst a < fst b) l \<and>
    set l = {(j, e). \<exists>p. hub_get hb j = Some p \<and> j \<noteq> i \<and> \<not> sub_incognito p \<and> sub_reaches p r \<and>
      sub_latest_sa p = Some e}"
proof -
  have ok: "hub_ok hb" using hub_reach_ok [OF assms(1)] by simp
  let ?P = "\<lambda>p. (sub_id p \<noteq> i \<and> \<not> sub_incognito p) \<and> sub_reaches p r \<and> sub_latest_sa p \<noteq> None"
  let ?f = "\<lambda>p. (sub_id p, the (sub_latest_sa p))"
  let ?l = "sort_key fst (map ?f (filter ?P (hub_values hb)))"
  have mf: "List.map_filter (\<lambda>p. map_option (Pair (sub_id p)) (sub_latest_sa p)) ps =
      map ?f (filter (\<lambda>p. sub_latest_sa p \<noteq> None) ps)" for ps
    by (induction ps) (auto simp: List.map_filter_simps split: option.split)
  have "latest_sa_for i hb = map snd ?l"
    using assms(2) by (simp add: latest_sa_for_def mf conj_commute conj_left_commute)
  moreover have "distinct (map fst ?l)"
    using distinct_map_filter [OF distinct_ids [OF ok], of ?P] by (simp add: distinct_fst_sort comp_def)
  then have "sorted_wrt (\<lambda>a b. fst a < fst b) ?l"
    unfolding distinct_fst_sort by (rule sort_fst_strict)
  moreover have "set ?l = {(j, e). \<exists>p. hub_get hb j = Some p \<and> j \<noteq> i \<and> \<not> sub_incognito p \<and>
      sub_reaches p r \<and> sub_latest_sa p = Some e}"
    by (auto simp: image_iff get_iff_value [OF ok])
  ultimately show ?thesis by blast
qed

theorem replay_is_exact_witness:
  "\<exists>l. latest_sa_for (ConnId 1) demo_hub = map snd l \<and> sorted_wrt (\<lambda>a b. fst a < fst b) l \<and>
    set l = {(j, e). \<exists>p. hub_get demo_hub j = Some p \<and> j \<noteq> ConnId 1 \<and> \<not> sub_incognito p \<and>
      sub_reaches p (demo_sub 1 (lit ''ALPHA'')) \<and> sub_latest_sa p = Some e}"
  by (rule replay_is_exact [OF demo_reach]) (simp add: demo_get)

text \<open>Leaving is final and reported: the caller gets the record the connection had, watchers hear
  of it exactly when the connection was not ephemeral, and afterwards no question about any sender,
  name, channel or account yields its handle.\<close>

theorem departed_is_forgotten:
  assumes "hub_reach (hb, P)" and "hub_get hb i = Some s" and "unregister i hb = (gone, changes, hb')"
  shows "gone = Some s \<and> changes = (if sub_ephemeral s then [] else [Left (summary_of s)]) \<and>
    (\<forall>h. h \<in> set (reachable_from j ex hb') \<union> set (resolve_callsigns j keys hb') \<union>
        set (resolve_uids j keys hb') \<union> set (reachable_in_group j bp hb') \<union>
        set (handles_reachable_by p None hb') \<union> set (handles_for_user u hb') \<longrightarrow> h_id h \<noteq> i)"
proof -
  have "hub_ok hb" using hub_reach_ok [OF assms(1)] by simp
  then have ok: "hub_ok hb'" using unregister_ok [of hb i] assms(3) by simp
  have gone: "gone = Some s" "changes = (if sub_ephemeral s then [] else [Left (summary_of s)])"
    using assms(2,3) by (auto simp: unregister_def Let_def)
  have "hub_get hb' i = None" using unregister_sel(2) [of i hb] assms(3) by simp
  then have no: "handle_of hb' h c \<Longrightarrow> h_id h \<noteq> i" for h c by (auto simp: handle_of_def)
  show ?thesis
  proof (cases "hub_get hb' j")
    case None
    then show ?thesis
      using gone no by (auto simp: reachable_from_gone resolve_gone reachable_in_group_def resolve_callsigns_def
          resolve_uids_def handles_reachable_by_iff [OF ok] handles_for_user_iff [OF ok])
  next
    case (Some c)
    then show ?thesis
      using gone no by (auto simp: reachable_from_iff [OF ok Some] resolve_iff [OF ok Some] resolve_callsigns_def
          resolve_uids_def reachable_in_group_iff [OF ok Some] handles_reachable_by_iff [OF ok]
          handles_for_user_iff [OF ok])
  qed
qed

theorem departed_is_forgotten_witness:
  "\<exists>gone changes hb'. unregister (ConnId 1) demo_hub = (gone, changes, hb') \<and>
    gone = Some (demo_sub 1 (lit ''ALPHA'')) \<and>
    changes = (if sub_ephemeral (demo_sub 1 (lit ''ALPHA'')) then [] else [Left (summary_of (demo_sub 1 (lit ''ALPHA'')))]) \<and>
    (\<forall>h. h \<in> set (reachable_from (ConnId 2) True hb') \<union> set (resolve_callsigns (ConnId 2) [lit ''ALPHA''] hb') \<union>
        set (resolve_uids (ConnId 2) [lit ''ALPHA''] hb') \<union> set (reachable_in_group (ConnId 2) 7 hb') \<union>
        set (handles_reachable_by (sub_principal (demo_sub 1 (lit ''ALPHA''))) None hb') \<union>
        set (handles_for_user (lit ''ALPHA'') hb') \<longrightarrow> h_id h \<noteq> ConnId 1)"
proof -
  obtain g ch hb' where u: "unregister (ConnId 1) demo_hub = (g, ch, hb')" by (cases "unregister (ConnId 1) demo_hub") auto
  have "hub_get demo_hub (ConnId 1) = Some (demo_sub 1 (lit ''ALPHA''))" by (simp add: demo_get)
  from departed_is_forgotten [OF demo_reach this u] u show ?thesis by blast
qed

end
