(* ===== verification/Group_Cache.thy ===== *)
theory Group_Cache
  imports Group_Set
begin

text \<open>
  The channel name to bit position map kept off the routing path
  (\<open>rustak-server/src/stream/groups.rs\<close>).  A lookup reads the cache once, and, when that does not
  settle it, again after waiting for the reading lock; what the two reads saw and when are separate
  arguments, since other connections may have refreshed or dropped the map in between.  The channel
  table is the database's and is an argument, \<open>None\<close> when it could not be read.  An \<open>Instant\<close> is
  its nanoseconds.
\<close>

definition REFRESH_AFTER :: nat where
  "REFRESH_AFTER = 1000000000"

record cached =
  c_index :: group_index
  c_read_at :: nat

type_synonym group_cache = "cached option"

definition cache_new :: group_cache where
  "cache_new = None"

definition cache_young :: "nat \<Rightarrow> cached \<Rightarrow> bool" where
  "cache_young now c \<longleftrightarrow> now - c_read_at c < REFRESH_AFTER"

definition cache_fresh :: "nat \<Rightarrow> group_cache \<Rightarrow> group_index option" where
  "cache_fresh now held =
     (case held of Some c \<Rightarrow> if cache_young now c then Some (c_index c) else None | None \<Rightarrow> None)"

definition cache_read :: "nat \<Rightarrow> group_index option \<Rightarrow> group_cache \<Rightarrow> group_index option \<times> group_cache" where
  "cache_read now table held =
     (case table of
        Some ix \<Rightarrow> (Some ix, Some \<lparr>c_index = ix, c_read_at = now\<rparr>)
      | None \<Rightarrow> (None, held))"

definition cache_invalidate :: "group_cache \<Rightarrow> group_cache" where
  "cache_invalidate held = None"

text \<open>What the first look at the cache decides: an answer, or to wait for the lock.\<close>

definition cache_peek :: "ustr \<Rightarrow> nat \<Rightarrow> group_cache \<Rightarrow> nat option option" where
  "cache_peek name now held =
     (case held of
        Some c \<Rightarrow>
          (case gi_bitpos name (c_index c) of
             Some b \<Rightarrow> Some (Some b)
           | None \<Rightarrow> if cache_young now c then Some None else None)
      | None \<Rightarrow> None)"

text \<open>What happens under the lock: a map somebody else just read, or the table.\<close>

definition cache_locked :: "ustr \<Rightarrow> nat \<Rightarrow> group_index option \<Rightarrow> group_cache \<Rightarrow> nat option \<times> group_cache" where
  "cache_locked name now table held =
     (case cache_fresh now held of
        Some ix \<Rightarrow> (gi_bitpos name ix, held)
      | None \<Rightarrow>
          (case cache_read now table held of
             (Some ix, held') \<Rightarrow> (gi_bitpos name ix, held')
           | (None, held') \<Rightarrow> (None, held')))"

definition cache_bitpos :: "ustr \<Rightarrow> nat \<Rightarrow> group_cache \<Rightarrow> nat \<Rightarrow> group_cache \<Rightarrow> group_index option \<Rightarrow> nat option \<times> group_cache" where
  "cache_bitpos name t0 held t1 held' table =
     (case cache_peek name t0 held of
        Some answer \<Rightarrow> (answer, held')
      | None \<Rightarrow> cache_locked name t1 table held')"

section \<open>How often the table is read\<close>

text \<open>A lookup reads the table exactly when it reaches the lock and finds nothing fresh.\<close>

definition cache_reads :: "ustr \<Rightarrow> nat \<Rightarrow> group_cache \<Rightarrow> nat \<Rightarrow> group_cache \<Rightarrow> bool" where
  "cache_reads name t0 held t1 held' \<longleftrightarrow> cache_peek name t0 held = None \<and> cache_fresh t1 held' = None"

record lookup =
  l_name :: ustr
  l_t0 :: nat
  l_held :: group_cache
  l_t1 :: nat
  l_table :: "group_index option"

text \<open>A history of lookups: each saw some earlier state of the cache, and holds the lock alone.  The
  result counts the table reads.\<close>

fun cache_run :: "group_cache \<Rightarrow> lookup list \<Rightarrow> nat \<times> group_cache" where
  "cache_run held [] = (0, held)"
| "cache_run held (l # ls) =
     (let (_, held') = cache_bitpos (l_name l) (l_t0 l) (l_held l) (l_t1 l) held (l_table l);
          (n, held'') = cache_run held' ls
      in ((if cache_reads (l_name l) (l_t0 l) (l_held l) (l_t1 l) held then 1 else 0) + n, held''))"

lemma cache_locked_fresh:
  "cache_fresh now held \<noteq> None \<Longrightarrow> snd (cache_locked name now table held) = held"
  by (auto simp: cache_locked_def)

lemma cache_bitpos_fresh:
  "cache_fresh t1 held' \<noteq> None \<Longrightarrow> snd (cache_bitpos name t0 held t1 held' table) = held'"
  by (auto simp: cache_bitpos_def cache_locked_fresh split: option.split)

lemma fresh_run_reads_nothing:
  "\<forall>l \<in> set ls. cache_fresh (l_t1 l) held \<noteq> None \<Longrightarrow> cache_run held ls = (0, held)"
  using cache_bitpos_fresh
  by (induction ls) (auto simp: cache_reads_def Let_def case_prod_beta)

lemma locked_read_fresh:
  "cache_fresh now held = None \<Longrightarrow>
   snd (cache_locked name now (Some ix) held) = Some \<lparr>c_index = ix, c_read_at = now\<rparr>"
  by (simp add: cache_locked_def cache_read_def)

section \<open>Properties\<close>

text \<open>However many destinations of however many messages name channels that do not exist, the
  channel table is read at most once a second: after a read, no lookup of the next second reads it
  again, whatever stale copies of the cache those lookups started from.\<close>

theorem channel_table_read_once_a_second:
  assumes "cache_reads name t0 h0 t held"
    and "cache_bitpos name t0 h0 t held (Some ix) = (answer, held')"
    and "\<forall>l \<in> set ls. t \<le> l_t1 l \<and> l_t1 l < t + REFRESH_AFTER"
  shows "cache_run held' ls = (0, held')"
proof -
  have "held' = Some \<lparr>c_index = ix, c_read_at = t\<rparr>"
    using assms(1,2) locked_read_fresh [of t held name ix]
    by (simp add: cache_reads_def cache_bitpos_def)
  then have "\<forall>l \<in> set ls. cache_fresh (l_t1 l) held' \<noteq> None"
    using assms(3) by (auto simp: cache_fresh_def cache_young_def)
  then show ?thesis by (rule fresh_run_reads_nothing)
qed

theorem channel_table_read_once_a_second_witness:
  "\<exists>answer held'. cache_bitpos (lit ''Blue'') 5 None 5 None (Some gi_new) = (answer, held') \<and>
    cache_run held' [\<lparr>l_name = lit ''Red'', l_t0 = 5, l_held = None, l_t1 = 7, l_table = Some gi_new\<rparr>] = (0, held')"
proof -
  obtain a h where b: "cache_bitpos (lit ''Blue'') 5 None 5 None (Some gi_new) = (a, h)" by force
  have "cache_run h [\<lparr>l_name = lit ''Red'', l_t0 = 5, l_held = None, l_t1 = 7, l_table = Some gi_new\<rparr>] = (0, h)"
    by (rule channel_table_read_once_a_second [OF _ b])
      (simp_all add: cache_reads_def cache_peek_def cache_fresh_def REFRESH_AFTER_def)
  with b show ?thesis by blast
qed

text \<open>A channel lookup never invents a channel: an answer is a row of a table the server read, and
  a name the freshly read table does not hold is answered with nothing.\<close>

theorem channel_answer_is_known:
  "case cache_bitpos name t0 held t1 held' table of
     (Some b, _) \<Rightarrow>
       list_ex (\<lambda>h. case h of Some c \<Rightarrow> gi_bitpos name (c_index c) = Some b | None \<Rightarrow> False) [held, held'] \<or>
       (case table of Some ix \<Rightarrow> gi_bitpos name ix = Some b | None \<Rightarrow> False)
   | (None, after) \<Rightarrow> after = held' \<or> (case table of Some ix \<Rightarrow> gi_bitpos name ix = None | None \<Rightarrow> False)"
  by (auto simp: cache_bitpos_def cache_peek_def cache_locked_def cache_read_def cache_fresh_def
      split: option.splits prod.splits if_splits)

end
