(* ===== verification/Dest_Select.thy ===== *)
theory Dest_Select
  imports Hub_Props Group_Cache
begin

text \<open>
  Turning \<open><marti><dest ...\<close> into a list of connections (\<open>rustak-server/src/stream/dest.rs\<close>, and
  the mission reference of \<open>rustak-server/src/stream/mission_hook.rs\<close>).  The mission store behind
  \<open>MissionIngest::publish\<close> is a trait object: a parameter that answers the subscribers' uids or an
  error.  One message's selection is taken as one step of the registry; the channel cache is threaded
  through it, each channel lookup at the time it happens.
\<close>

section \<open>Addresses\<close>

definition MAX_DESTS :: nat where
  "MAX_DESTS = 64"

datatype drop_reason =
    DuplicateFlowTag | Incognito | Unreadable | GroupNotMember ustr | NoSuchGroup ustr | NoRecipients

fun drop_str :: "drop_reason \<Rightarrow> ustr" where
  "drop_str DuplicateFlowTag = lit ''duplicate-flow-tag''"
| "drop_str Incognito = lit ''incognito''"
| "drop_str Unreadable = lit ''unreadable''"
| "drop_str (GroupNotMember _) = lit ''group-not-member''"
| "drop_str (NoSuchGroup _) = lit ''no-such-group''"
| "drop_str NoRecipients = lit ''no-recipients''"

record mission_ref =
  mr_name :: "ustr option"
  mr_guid :: "ustr option"
  mr_path :: "ustr option"
  mr_after :: "ustr option"

definition mission_label :: "mission_ref \<Rightarrow> ustr" where
  "mission_label m =
     (case mr_name m of Some n \<Rightarrow> n
      | None \<Rightarrow> (case mr_guid m of Some g \<Rightarrow> g | None \<Rightarrow> lit ''(unnamed)''))"

type_synonym 'e mission_ingest = "mission_ref \<Rightarrow> principal \<Rightarrow> event \<Rightarrow> 'e + ustr list"

definition no_missions :: "'e mission_ingest" where
  "no_missions m sender e = Inr []"

record selection =
  sel_handles :: "conn_handle list"
  sel_explicit :: bool
  sel_direct :: bool

record addresses =
  ad_callsigns :: "ustr list"
  ad_uids :: "ustr list"
  ad_groups :: "ustr list"
  ad_missions :: "mission_ref list"
  ad_publish :: bool
  ad_all_streaming :: bool

definition addresses_default :: addresses where
  "addresses_default = \<lparr>ad_callsigns = [], ad_uids = [], ad_groups = [], ad_missions = [],
     ad_publish = False, ad_all_streaming = False\<rparr>"

definition has_any :: "addresses \<Rightarrow> bool" where
  "has_any a \<longleftrightarrow> ad_callsigns a \<noteq> [] \<or> ad_uids a \<noteq> [] \<or> ad_groups a \<noteq> [] \<or> ad_missions a \<noteq> [] \<or> ad_publish a"

definition names_people :: "addresses \<Rightarrow> bool" where
  "names_people a \<longleftrightarrow> ad_missions a = [] \<and> (ad_callsigns a \<noteq> [] \<or> ad_uids a \<noteq> [])"

definition push_name :: "ustr \<Rightarrow> ustr list \<Rightarrow> ustr list" where
  "push_name name into = (if list_ex (\<lambda>held. held = name) into then into else into @ [name])"

definition sort_dest :: "addresses \<Rightarrow> dest \<Rightarrow> addresses" where
  "sort_dest a d =
     (case dest_kind d of
        Some (Callsign c) \<Rightarrow>
          if c = ALL_STREAMING then a\<lparr>ad_all_streaming := True\<rparr>
          else a\<lparr>ad_callsigns := push_name c (ad_callsigns a)\<rparr>
      | Some (Uid u) \<Rightarrow> a\<lparr>ad_uids := push_name u (ad_uids a)\<rparr>
      | Some (Group g) \<Rightarrow> if g \<in> set (ad_groups a) then a else a\<lparr>ad_groups := ad_groups a @ [g]\<rparr>
      | Some (Mission name path aft) \<Rightarrow>
          a\<lparr>ad_missions := ad_missions a @ [\<lparr>mr_name = Some name, mr_guid = None, mr_path = path, mr_after = aft\<rparr>]\<rparr>
      | Some (MissionGuid guid path aft) \<Rightarrow>
          a\<lparr>ad_missions := ad_missions a @ [\<lparr>mr_name = None, mr_guid = Some guid, mr_path = path, mr_after = aft\<rparr>]\<rparr>
      | Some (Publish topic) \<Rightarrow> a\<lparr>ad_publish := True\<rparr>
      | None \<Rightarrow> a)"

definition partition_dests :: "dest list \<Rightarrow> stream_metrics \<Rightarrow> addresses \<times> stream_metrics" where
  "partition_dests dests m =
     (let m = (if MAX_DESTS < length dests
               then m\<lparr>m_dests_truncated := counter_add (m_dests_truncated m) (length dests - MAX_DESTS)\<rparr> else m);
          a = foldl sort_dest addresses_default (take MAX_DESTS dests)
      in (if ad_all_streaming a then a\<lparr>ad_callsigns := []\<rparr> else a, m))"

section \<open>Recipients\<close>

definition extend_handles :: "conn_handle list \<Rightarrow> conn_handle list \<Rightarrow> conn_handle list" where
  "extend_handles into new =
     foldl (\<lambda>into h. if list_ex (\<lambda>held. h_id held = h_id h) into then into else into @ [h]) into new"

text \<open>One channel lookup: the times of its two looks at the cache, and the table it would read.\<close>

record lookup_env =
  le_t0 :: nat
  le_t1 :: nat
  le_table :: "group_index option"

definition group_recipients :: "hub \<Rightarrow> lookup_env \<Rightarrow> conn_id \<Rightarrow> principal \<Rightarrow> ustr \<Rightarrow> group_cache \<Rightarrow> (drop_reason + conn_handle list) \<times> group_cache" where
  "group_recipients hb env sender p gname cache =
     (case group_name_parse gname of
        Inl _ \<Rightarrow> (Inl (NoSuchGroup gname), cache)
      | Inr name \<Rightarrow>
          (case cache_bitpos name (le_t0 env) cache (le_t1 env) cache (le_table env) of
             (None, cache') \<Rightarrow> (Inl (NoSuchGroup gname), cache')
           | (Some bitpos, cache') \<Rightarrow>
               if \<not> has_group bitpos In p then (Inl (GroupNotMember gname), cache')
               else (Inr (reachable_in_group sender bitpos hb), cache')))"

definition mission_recipients :: "hub \<Rightarrow> 'e mission_ingest \<Rightarrow> conn_id \<Rightarrow> principal \<Rightarrow> event \<Rightarrow> mission_ref \<Rightarrow> conn_handle list" where
  "mission_recipients hb missions sender p encoded m =
     (case missions m p encoded of
        Inr uids \<Rightarrow> resolve_uids sender uids hb
      | Inl _ \<Rightarrow> [])"

text \<open>The loop over the addressed channels, which the first refusal ends.\<close>

fun group_loop :: "hub \<Rightarrow> (ustr \<Rightarrow> lookup_env) \<Rightarrow> conn_id \<Rightarrow> principal \<Rightarrow> ustr list \<Rightarrow> conn_handle list \<Rightarrow> group_cache \<Rightarrow> (drop_reason + conn_handle list) \<times> group_cache" where
  "group_loop hb env sender p [] handles cache = (Inr handles, cache)"
| "group_loop hb env sender p (g # gs) handles cache =
     (case group_recipients hb (env g) sender p g cache of
        (Inl why, cache') \<Rightarrow> (Inl why, cache')
      | (Inr hs, cache') \<Rightarrow> group_loop hb env sender p gs (extend_handles handles hs) cache')"

definition select_recipients :: "hub \<Rightarrow> 'e mission_ingest \<Rightarrow> (ustr \<Rightarrow> lookup_env) \<Rightarrow> conn_id \<Rightarrow> principal \<Rightarrow> dest list \<Rightarrow> event \<Rightarrow> group_cache \<Rightarrow> stream_metrics \<Rightarrow> (drop_reason + selection) \<times> group_cache \<times> stream_metrics" where
  "select_recipients hb missions env sender p dests encoded cache m =
     (case partition_dests dests m of (a, m) \<Rightarrow>
        if \<not> has_any a then
          (Inr \<lparr>sel_handles = reachable_from sender True hb, sel_explicit = False, sel_direct = False\<rparr>, cache, m)
        else
          let handles = [];
              handles = (if ad_callsigns a \<noteq> []
                         then extend_handles handles (resolve_callsigns sender (ad_callsigns a) hb) else handles);
              handles = (if ad_uids a \<noteq> []
                         then extend_handles handles (resolve_uids sender (ad_uids a) hb) else handles)
          in case group_loop hb env sender p (ad_groups a) handles cache of
               (Inl why, cache') \<Rightarrow> (Inl why, cache', m)
             | (Inr handles, cache') \<Rightarrow>
                 let handles = foldl (\<lambda>hs mref. extend_handles hs (mission_recipients hb missions sender p encoded mref))
                                 handles (ad_missions a)
                 in (Inr \<lparr>sel_handles = handles, sel_explicit = True, sel_direct = names_people a\<rparr>, cache', m))"

end
