(* ===== verification/Dest_Props.thy ===== *)
theory Dest_Props
  imports Dest_Select
begin

text \<open>
  What choosing recipients guarantees (\<open>rustak-server/src/stream/dest.rs\<close>).  The registry's answers
  are used through an interface, \<open>routing_provider\<close>: each answer is permitted to its sender and
  names nobody twice.  The selection is shown to be gathered from such answers only, so the same
  holds of it.
\<close>

section \<open>Gathering without duplicates\<close>

lemma extend_handles_snoc:
  "extend_handles into (xs @ [x]) =
     (let r = extend_handles into xs in if h_id x \<in> h_id ` set r then r else r @ [x])"
proof -
  have "list_ex (\<lambda>held. h_id held = h_id x) l \<longleftrightarrow> h_id x \<in> h_id ` set l" for l :: "conn_handle list"
    by (auto simp: list_ex_iff intro: rev_image_eqI)
  then show ?thesis by (simp add: extend_handles_def Let_def)
qed

lemma set_extend_handles: "set (extend_handles into xs) \<subseteq> set into \<union> set xs"
  by (induction xs rule: rev_induct) (auto simp: extend_handles_snoc Let_def extend_handles_def [of into "[]"])

lemma ids_extend_handles: "h_id ` set (extend_handles into xs) = h_id ` set into \<union> h_id ` set xs"
  by (induction xs rule: rev_induct)
    (auto simp: extend_handles_snoc Let_def extend_handles_def [of into "[]"])

lemma distinct_extend_handles:
  "distinct (map h_id into) \<Longrightarrow> distinct (map h_id (extend_handles into xs))"
  by (induction xs rule: rev_induct) (auto simp: extend_handles_snoc Let_def extend_handles_def [of into "[]"])

lemma extend_Nil_id: "distinct (map h_id xs) \<Longrightarrow> extend_handles [] xs = xs"
  by (induction xs rule: rev_induct) (auto simp: extend_handles_snoc Let_def extend_handles_def [of "[]" "[]"])

section \<open>The interface to the registry\<close>

locale routing_provider =
  fixes ok :: "'st \<Rightarrow> bool"
    and broadcast :: "'st \<Rightarrow> conn_id \<Rightarrow> conn_handle list"
    and named :: "'st \<Rightarrow> index \<Rightarrow> conn_id \<Rightarrow> ustr list \<Rightarrow> conn_handle list"
    and channel :: "'st \<Rightarrow> conn_id \<Rightarrow> nat \<Rightarrow> conn_handle list"
    and permitted :: "'st \<Rightarrow> conn_id \<Rightarrow> conn_handle \<Rightarrow> bool"
  assumes broadcast_permitted: "ok s \<Longrightarrow> h \<in> set (broadcast s i) \<Longrightarrow> permitted s i h \<and> h_id h \<noteq> i"
    and broadcast_once: "ok s \<Longrightarrow> distinct (map h_id (broadcast s i))"
    and named_permitted: "ok s \<Longrightarrow> h \<in> set (named s ix i keys) \<Longrightarrow> permitted s i h"
    and channel_permitted: "ok s \<Longrightarrow> h \<in> set (channel s i bp) \<Longrightarrow> permitted s i h"
begin

text \<open>The lists an addressed message is gathered from.\<close>

definition offered :: "'st \<Rightarrow> conn_id \<Rightarrow> conn_handle list \<Rightarrow> bool" where
  "offered s i hs \<longleftrightarrow> (\<exists>ix keys. hs = named s ix i keys) \<or> (\<exists>bp. hs = channel s i bp) \<or> hs = []"

lemma offered_permitted: "ok s \<Longrightarrow> offered s i hs \<Longrightarrow> h \<in> set hs \<Longrightarrow> permitted s i h"
  by (auto simp: offered_def named_permitted channel_permitted)

lemma gathered:
  assumes "ok s" and "\<forall>l \<in> set ls. offered s i l"
  shows "(\<forall>h \<in> set (foldl extend_handles [] ls). permitted s i h) \<and>
    distinct (map h_id (foldl extend_handles [] ls))"
  using assms(2)
proof (induction ls rule: rev_induct)
  case (snoc l ls)
  then show ?case
    using set_extend_handles [of "foldl extend_handles [] ls" l] offered_permitted [OF assms(1), of i l]
    by (auto simp: distinct_extend_handles)
qed simp

end

text \<open>What the registry permits: the receiver is connected and the sender's channels reach it.\<close>

definition hub_permits :: "hub \<Rightarrow> conn_id \<Rightarrow> conn_handle \<Rightarrow> bool" where
  "hub_permits hb i h \<longleftrightarrow>
     (\<exists>s c. hub_get hb i = Some s \<and> handle_of hb h c \<and>
        can_reach (pr_groups (sub_principal s)) (pr_groups (sub_principal c)))"

interpretation hub_routes: routing_provider
  hub_ok
  "\<lambda>hb i. reachable_from i True hb"
  "\<lambda>hb ix i keys. resolve i keys ix hb"
  "\<lambda>hb i bp. reachable_in_group i bp hb"
  hub_permits
proof
  fix hb :: hub and h i ix keys bp
  assume ok: "hub_ok hb"
  show "h \<in> set (reachable_from i True hb) \<Longrightarrow> hub_permits hb i h \<and> h_id h \<noteq> i"
    using reachable_from_iff [OF ok, of i] reachable_from_gone [of hb i]
    by (cases "hub_get hb i") (auto simp: hub_permits_def sub_reaches_def)
  show "distinct (map h_id (reachable_from i True hb))"
    by (rule reachable_from_distinct [OF ok])
  show "h \<in> set (resolve i keys ix hb) \<Longrightarrow> hub_permits hb i h"
    using resolve_iff [OF ok, of i] resolve_gone [of hb i]
    by (cases "hub_get hb i") (auto simp: hub_permits_def sub_reaches_def)
  show "h \<in> set (reachable_in_group i bp hb) \<Longrightarrow> hub_permits hb i h"
    using reachable_in_group_iff [OF ok, of i]
    by (cases "hub_get hb i") (auto simp: hub_permits_def sub_reaches_def reachable_in_group_def)
qed

section \<open>Where the recipients come from\<close>

lemma group_loop_gathers:
  "group_loop hb env i p gs hs cache = (Inr hs', cache') \<Longrightarrow>
   \<exists>ls. (\<forall>l \<in> set ls. hub_routes.offered hb i l) \<and> hs' = foldl extend_handles hs ls"
proof (induction gs arbitrary: hs cache)
  case Nil
  then show ?case by (auto intro: exI [of _ "[]"])
next
  case (Cons g gs)
  from Cons.prems obtain l c' where one: "group_recipients hb (env g) i p g cache = (Inr l, c')"
    and more': "group_loop hb env i p gs (extend_handles hs l) c' = (Inr hs', cache')"
    by (auto split: prod.splits sum.splits)
  have "hub_routes.offered hb i l"
    using one by (auto simp: group_recipients_def hub_routes.offered_def split: sum.splits prod.splits option.splits if_splits)
  moreover obtain ls where "\<forall>l \<in> set ls. hub_routes.offered hb i l" "hs' = foldl extend_handles (extend_handles hs l) ls"
    using Cons.IH [OF more'] by blast
  ultimately show ?case by (intro exI [of _ "l # ls"]) simp
qed

lemma mission_offered: "hub_routes.offered hb i (mission_recipients hb missions i p e m)"
  by (auto simp: mission_recipients_def hub_routes.offered_def resolve_uids_def split: sum.split)

lemma named_offered:
  "hub_routes.offered hb i (resolve_callsigns i keys hb)" "hub_routes.offered hb i (resolve_uids i keys hb)"
  by (auto simp: hub_routes.offered_def resolve_callsigns_def resolve_uids_def)

lemma missions_gather:
  "foldl (\<lambda>hs m. extend_handles hs (mission_recipients hb missions i p e m)) hs ms =
   foldl extend_handles hs (map (mission_recipients hb missions i p e) ms)"
  by (induction ms arbitrary: hs) simp_all

lemma select_gathers:
  assumes "select_recipients hb missions env i p dests e cache m = (Inr sel, rest)"
  shows "if sel_explicit sel
    then \<exists>ls. (\<forall>l \<in> set ls. hub_routes.offered hb i l) \<and> sel_handles sel = foldl extend_handles [] ls
    else sel_handles sel = reachable_from i True hb"
proof -
  obtain a m' where part: "partition_dests dests m = (a, m')" by force
  show ?thesis
  proof (cases "has_any a")
    case False
    with assms part show ?thesis by (auto simp: select_recipients_def)
  next
    case True
    let ?h1 = "if ad_callsigns a \<noteq> [] then extend_handles [] (resolve_callsigns i (ad_callsigns a) hb) else []"
    let ?h2 = "if ad_uids a \<noteq> [] then extend_handles ?h1 (resolve_uids i (ad_uids a) hb) else ?h1"
    let ?l1 = "if ad_callsigns a \<noteq> [] then [resolve_callsigns i (ad_callsigns a) hb] else []"
    let ?l2 = "if ad_uids a \<noteq> [] then [resolve_uids i (ad_uids a) hb] else []"
    from assms part True obtain hs c' where g: "group_loop hb env i p (ad_groups a) ?h2 cache = (Inr hs, c')"
      and sel: "sel_explicit sel" "sel_handles sel =
        foldl (\<lambda>hs mref. extend_handles hs (mission_recipients hb missions i p e mref)) hs (ad_missions a)"
      by (auto simp: select_recipients_def Let_def split: prod.splits sum.splits)
    obtain ls where ls: "\<forall>l \<in> set ls. hub_routes.offered hb i l" "hs = foldl extend_handles ?h2 ls"
      using group_loop_gathers [OF g] by blast
    have "?h2 = foldl extend_handles [] (?l1 @ ?l2)" by simp
    with ls sel have "sel_handles sel =
        foldl extend_handles [] (?l1 @ ?l2 @ ls @ map (mission_recipients hb missions i p e) (ad_missions a))"
      by (simp add: missions_gather)
    moreover have "\<forall>l \<in> set (?l1 @ ?l2 @ ls @ map (mission_recipients hb missions i p e) (ad_missions a)). hub_routes.offered hb i l"
      using ls(1) mission_offered [of hb i missions p e] named_offered [of hb i] by auto
    ultimately show ?thesis using sel(1) by metis
  qed
qed

section \<open>Sorting the destinations\<close>

lemma push_name_set: "set (push_name n xs) = insert n (set xs) \<and> (distinct xs \<longrightarrow> distinct (push_name n xs))"
  by (auto simp: push_name_def list_ex_iff)

definition addresses_ok :: "addresses \<Rightarrow> nat \<Rightarrow> bool" where
  "addresses_ok a n \<longleftrightarrow> distinct (ad_callsigns a) \<and> distinct (ad_uids a) \<and> distinct (ad_groups a) \<and>
     length (ad_callsigns a) + length (ad_uids a) + length (ad_groups a) + length (ad_missions a) \<le> n \<and>
     ALL_STREAMING \<notin> set (ad_callsigns a)"

lemma push_name_length: "length (push_name n xs) \<le> Suc (length xs)"
  by (simp add: push_name_def)

lemma sort_dest_ok: "addresses_ok a n \<Longrightarrow> addresses_ok (sort_dest a d) (Suc n)"
  using push_name_length
  by (auto simp: addresses_ok_def sort_dest_def push_name_set le_Suc_eq
      intro: order_trans [OF add_mono [OF add_mono [OF add_mono]]]
      split: option.split dest_address.split) (auto simp: push_name_def)

lemma sort_dests_ok: "addresses_ok a n \<Longrightarrow> addresses_ok (foldl sort_dest a ds) (n + length ds)"
proof (induction ds arbitrary: a n)
  case (Cons d ds)
  from Cons.IH [OF sort_dest_ok [OF Cons.prems]] show ?case by simp
qed simp

lemma partition_ok: "addresses_ok (fst (partition_dests dests m)) MAX_DESTS"
proof -
  let ?a = "foldl sort_dest addresses_default (take MAX_DESTS dests)"
  have "addresses_ok addresses_default 0" by (simp add: addresses_ok_def addresses_default_def)
  then have "addresses_ok ?a (length (take MAX_DESTS dests))"
    using sort_dests_ok [of addresses_default 0 "take MAX_DESTS dests"] by (simp only: add_0)
  then have "addresses_ok ?a MAX_DESTS" by (auto simp: addresses_ok_def)
  then show ?thesis by (auto simp: partition_dests_def Let_def addresses_ok_def)
qed

lemma selected_permitted:
  assumes "hub_reach (hb, P)"
    and "select_recipients hb missions env i p dests e cache m = (Inr sel, rest)"
  shows "(\<forall>h \<in> set (sel_handles sel). hub_permits hb i h) \<and> distinct (map h_id (sel_handles sel)) \<and>
    (\<not> sel_explicit sel \<longrightarrow> i \<notin> h_id ` set (sel_handles sel))"
proof -
  have ok: "hub_ok hb" using hub_reach_ok [OF assms(1)] by simp
  show ?thesis
  proof (cases "sel_explicit sel")
    case True
    with select_gathers [OF assms(2)] obtain ls where
      "\<forall>l \<in> set ls. hub_routes.offered hb i l" "sel_handles sel = foldl extend_handles [] ls" by auto
    with hub_routes.gathered [OF ok, of ls i] True show ?thesis by simp
  next
    case False
    with select_gathers [OF assms(2)] have "sel_handles sel = reachable_from i True hb" by simp
    then show ?thesis
      using hub_routes.broadcast_permitted [OF ok, of _ i] hub_routes.broadcast_once [OF ok, of i] by auto
  qed
qed

lemma demo_reaches:
  "sub_reaches ((demo_sub m a)\<lparr>sub_incognito := h\<rparr>) (demo_sub n b)" "sub_reaches (demo_sub m a) (demo_sub n b)"
  by (simp_all add: sub_reaches_def demo_sub_def subscription_new_def with_groups_def can_reach_iff gs_set_grants
      valid_pos_def GROUP_BITS_def dir_includes_def)

section \<open>Properties\<close>

text \<open>C6: naming somebody is never a way around the channels: whatever destinations a message
  carries (callsigns, uids, channels, missions, any mixture, any number), every connection selected
  is connected and is one the sender's channels reach, nobody is selected twice, and a message that
  addressed nobody never comes back to its sender.\<close>

theorem recipients_are_permitted:
  assumes "hub_reach (hb, P)"
    and "select_recipients hb missions env i p dests e cache m = (Inr sel, rest)"
  shows "(\<forall>h \<in> set (sel_handles sel). \<exists>s c. hub_get hb i = Some s \<and> handle_of hb h c \<and>
      can_reach (pr_groups (sub_principal s)) (pr_groups (sub_principal c))) \<and>
    distinct (map h_id (sel_handles sel)) \<and>
    (\<not> sel_explicit sel \<longrightarrow> i \<notin> h_id ` set (sel_handles sel))"
  using selected_permitted [OF assms] by (simp add: hub_permits_def)

theorem recipients_are_permitted_witness:
  "\<exists>sel rest. select_recipients demo_hub (no_missions :: unit mission_ingest) (\<lambda>_. \<lparr>le_t0 = 0, le_t1 = 0, le_table = None\<rparr>) (ConnId 1)
      (sub_principal (demo_sub 1 (lit ''ALPHA''))) [] (demo_sa (lit ''ALPHA'')) cache_new metrics_new = (Inr sel, rest) \<and>
    ConnId 2 \<in> h_id ` set (sel_handles sel) \<and> distinct (map h_id (sel_handles sel)) \<and>
    ConnId 1 \<notin> h_id ` set (sel_handles sel)"
proof -
  let ?run = "select_recipients demo_hub (no_missions :: unit mission_ingest) (\<lambda>_. \<lparr>le_t0 = 0, le_t1 = 0, le_table = None\<rparr>) (ConnId 1)
      (sub_principal (demo_sub 1 (lit ''ALPHA''))) [] (demo_sa (lit ''ALPHA'')) cache_new metrics_new"
  obtain sel rest where run: "?run = (Inr sel, rest)" and sel: "\<not> sel_explicit sel" "sel_handles sel = reachable_from (ConnId 1) True demo_hub"
    by (auto simp: select_recipients_def partition_dests_def Let_def addresses_default_def has_any_def)
  from demo_reaches(2) have "sub_handle (demo_sub 2 (lit ''BRAVO'')) \<in> set (sel_handles sel)"
    using reachable_from_iff [OF demo_ok, of "ConnId 1" "demo_sub 1 (lit ''ALPHA'')"]
    by (auto simp: sel demo_get handle_of_def)
  then have "ConnId 2 \<in> h_id ` set (sel_handles sel)" by force
  with recipients_are_permitted [OF demo_reach run] run sel(1) show ?thesis by blast
qed

text \<open>The work one message can cause is bounded: at most 64 addresses survive sorting, each name
  once, ``All Streaming'' is never looked up as a callsign and erases the callsign list, and what was
  cut is counted.\<close>

theorem addresses_are_bounded:
  "length (ad_callsigns (fst (partition_dests dests m))) + length (ad_uids (fst (partition_dests dests m))) +
     length (ad_groups (fst (partition_dests dests m))) + length (ad_missions (fst (partition_dests dests m))) \<le> MAX_DESTS \<and>
   distinct (ad_callsigns (fst (partition_dests dests m))) \<and> distinct (ad_uids (fst (partition_dests dests m))) \<and>
   distinct (ad_groups (fst (partition_dests dests m))) \<and> ALL_STREAMING \<notin> set (ad_callsigns (fst (partition_dests dests m))) \<and>
   (if ad_all_streaming (fst (partition_dests dests m)) then ad_callsigns (fst (partition_dests dests m)) = [] else True) \<and>
   m_dests_truncated (snd (partition_dests dests m)) =
     counter_add (m_dests_truncated m) (length dests - MAX_DESTS)"
  using partition_ok [of dests m]
  by (auto simp: addresses_ok_def partition_dests_def Let_def counter_add_def)

end
