(* ===== verification/Cot_Store.thy ===== *)
theory Cot_Store
  imports Subscription
begin

text \<open>
  What the listener hands to the CoT store (\<open>rustak-server/src/cot_store/mod.rs\<close>): the record of one
  relayed message, and the handle whose bounded queue never makes the routing path wait.  The queue
  is the list of the records it accepted; whether it has room is an argument, since the writer that
  drains it runs elsewhere.  \<open>chrono\<close>'s calendar range is the argument \<open>datetime\<close>.
\<close>

record cot_record =
  cr_uid :: ustr
  cr_kind :: ustr
  cr_callsign :: "ustr option"
  cr_user_id :: "ustr option"
  cr_device_id :: "ustr option"
  cr_group_bits :: bytes
  cr_time :: int
  cr_start :: int
  cr_stale :: int
  cr_point :: "f64 \<times> f64 \<times> f64 \<times> f64 \<times> f64"
  cr_encoded :: event
  cr_received_at :: int

definition store_at :: "(cot_time \<Rightarrow> int option) \<Rightarrow> int \<Rightarrow> cot_time \<Rightarrow> int" where
  "store_at datetime now time = (case datetime time of Some d \<Rightarrow> d | None \<Rightarrow> now)"

definition cot_record_new :: "bit_lib \<Rightarrow> (cot_time \<Rightarrow> int option) \<Rightarrow> int \<Rightarrow> event \<Rightarrow> principal \<Rightarrow> ustr option \<Rightarrow> cot_record" where
  "cot_record_new B datetime now e p device =
     \<lparr>cr_uid = ev_uid e, cr_kind = ev_type e, cr_callsign = ev_callsign e,
      cr_user_id = Some (pr_user_id p), cr_device_id = device,
      cr_group_bits = gs_to_bytes B (pr_groups p),
      cr_time = store_at datetime now (ev_time e), cr_start = store_at datetime now (ev_start e),
      cr_stale = store_at datetime now (ev_stale e),
      cr_point = (lat (ev_point e), lon (ev_point e), hae (ev_point e), ce (ev_point e), le (ev_point e)),
      cr_encoded = e, cr_received_at = now\<rparr>"

definition is_historic :: "cot_record \<Rightarrow> bool" where
  "is_historic r \<longleftrightarrow> \<not> starts_with (cr_kind r) (lit ''t-x-'')"

record cot_store =
  st_enabled :: bool
  st_queue :: "cot_record list"
  st_dropped :: nat
  st_recorded :: nat

definition store_disabled :: cot_store where
  "store_disabled = \<lparr>st_enabled = False, st_queue = [], st_dropped = 0, st_recorded = 0\<rparr>"

definition store_new :: cot_store where
  "store_new = \<lparr>st_enabled = True, st_queue = [], st_dropped = 0, st_recorded = 0\<rparr>"

definition store_record :: "send_outcome \<Rightarrow> cot_record \<Rightarrow> cot_store \<Rightarrow> cot_store" where
  "store_record outcome r st =
     (if \<not> st_enabled st then st
      else case outcome of
             SendOk \<Rightarrow> st\<lparr>st_queue := st_queue st @ [r], st_recorded := add_u64 (st_recorded st) 1\<rparr>
           | SendFull \<Rightarrow> st\<lparr>st_dropped := add_u64 (st_dropped st) 1\<rparr>
           | SendClosed \<Rightarrow> st\<lparr>st_dropped := add_u64 (st_dropped st) 1\<rparr>)"

text \<open>Every record handed over is either queued or counted as dropped.\<close>

lemma store_record_accounts:
  "st_enabled st \<Longrightarrow>
   (st_queue (store_record outcome r st) = st_queue st @ [r] \<and> st_dropped (store_record outcome r st) = st_dropped st) \<or>
   (st_queue (store_record outcome r st) = st_queue st \<and> st_dropped (store_record outcome r st) = add_u64 (st_dropped st) 1)"
  by (simp add: store_record_def split: send_outcome.split)

end
