(* ===== verification/Routing.thy ===== *)
theory Routing
  imports Dest_Props Cot_Store
begin

text \<open>
  What happens to a message between arriving and being delivered
  (\<open>rustak-server/src/stream/router.rs\<close>, \<open>control.rs\<close>, \<open>tap.rs\<close>).  The state is what the router
  shares with every connection: the registry, the connections' cells, the channel cache, the
  counters, the relay tap and the store.  One call of \<open>handle_inbound\<close> is one step of that state.
\<close>

section \<open>State\<close>

record relayed_cot =
  rc_encoded :: event
  rc_groups :: group_set
  rc_received_at :: int

record 'c server =
  sv_hub :: hub
  sv_cells :: "'c cells"
  sv_cache :: group_cache
  sv_metrics :: stream_metrics
  sv_tap :: "relayed_cot list"
  sv_store :: cot_store

text \<open>What the router is built with: the libraries, the mission store, its own name and whether
  anything listens to the tap.\<close>

record ('c, 'e) router =
  rt_chan :: "'c chan_lib"
  rt_clock :: clock_lib
  rt_bits :: bit_lib
  rt_datetime :: "cot_time \<Rightarrow> int option"
  rt_missions :: "'e mission_ingest"
  rt_server_id :: ustr
  rt_watched :: bool

text \<open>What one call reads from outside: the clocks, the channel lookups, the store queue's answer.\<close>

record moment =
  mo_now :: cot_time
  mo_lookup :: "ustr \<Rightarrow> lookup_env"
  mo_store :: send_outcome

section \<open>Control messages\<close>

datatype control_action = Pong | SetIncognito bool | Ignored ustr

datatype disposition = ControlMsg control_action | DroppedMsg drop_reason | Relayed nat bool

definition SUBSCRIPTION_CONTROL :: "ustr list" where
  "SUBSCRIPTION_CONTROL = [SUBSCRIBE, lit ''t-b-a'', lit ''t-b-c'', lit ''t-b-q'']"

definition control_pong :: "'c chan_lib \<Rightarrow> conn_id \<Rightarrow> cot_time \<Rightarrow> 'c server \<Rightarrow> control_action \<times> 'c server" where
  "control_pong TX to now sv =
     (case hub_handle to (sv_hub sv) of
        None \<Rightarrow> (Ignored (lit ''a keepalive from a connection that has gone''), sv)
      | Some h \<Rightarrow> (Pong, sv\<lparr>sv_cells := snd (handle_send TX h (OutEvent (pong now now)) (sv_cells sv))\<rparr>))"

definition control_handle :: "'c chan_lib \<Rightarrow> conn_id \<Rightarrow> event \<Rightarrow> cot_time \<Rightarrow> 'c server \<Rightarrow> control_action \<times> 'c server" where
  "control_handle TX i e now sv =
     (if is_ping e then control_pong TX i now sv
      else case incognito_toggle e of
             Some b \<Rightarrow> (SetIncognito b, sv\<lparr>sv_hub := snd (set_incognito i b (sv_hub sv))\<rparr>)
           | None \<Rightarrow>
               (Ignored
                  (if ev_type e = PONG then lit ''a stray keepalive reply''
                   else if ev_type e = METRICS then lit ''a client metrics report''
                   else if ev_type e = FILTER then lit ''a client-side geospatial filter''
                   else if ev_type e = TAKP_Q then lit ''a protocol request outside negotiation''
                   else if ev_type e \<in> set SUBSCRIPTION_CONTROL then lit ''a subscription control message''
                   else lit ''an unrecognised control type''), sv))"

section \<open>Relaying\<close>

definition tap_publish :: "bool \<Rightarrow> int \<Rightarrow> event \<Rightarrow> principal \<Rightarrow> relayed_cot list \<Rightarrow> relayed_cot list" where
  "tap_publish watched now e p tap =
     (if \<not> watched then tap
      else tap @ [\<lparr>rc_encoded = e, rc_groups = pr_groups p, rc_received_at = now\<rparr>])"

definition router_record :: "('c, 'e) router \<Rightarrow> moment \<Rightarrow> conn_id \<Rightarrow> principal \<Rightarrow> event \<Rightarrow> 'c server \<Rightarrow> 'c server" where
  "router_record R mo i p e sv =
     (if \<not> st_enabled (sv_store sv) then sv
      else sv\<lparr>sv_store := store_record (mo_store mo)
               (cot_record_new (rt_bits R) (rt_datetime R) (mo_now mo) e p (hub_device_id i (sv_hub sv)))
               (sv_store sv)\<rparr>)"

fun fan_loop :: "'c chan_lib \<Rightarrow> event \<Rightarrow> conn_handle list \<Rightarrow> nat \<Rightarrow> 'c cells \<Rightarrow> stream_metrics \<Rightarrow> nat \<times> 'c cells \<times> stream_metrics" where
  "fan_loop TX e [] delivered cells m = (delivered, cells, m)"
| "fan_loop TX e (h # hs) delivered cells m =
     (case handle_send TX h (OutEvent e) cells of
        (Sent, cells) \<Rightarrow> fan_loop TX e hs (delivered + 1) cells m
      | (Dropped, cells) \<Rightarrow>
          fan_loop TX e hs delivered cells (m\<lparr>m_dropped_queue := counter_incr (m_dropped_queue m)\<rparr>)
      | (Closed, cells) \<Rightarrow>
          fan_loop TX e hs delivered cells
            (m\<lparr>m_dropped_queue := counter_incr (m_dropped_queue m),
               m_closed_slow := counter_incr (m_closed_slow m)\<rparr>))"

definition fan_out :: "'c chan_lib \<Rightarrow> conn_handle list \<Rightarrow> event \<Rightarrow> 'c server \<Rightarrow> nat \<times> 'c server" where
  "fan_out TX handles e sv =
     (case fan_loop TX e handles 0 (sv_cells sv) (sv_metrics sv) of
        (delivered, cells, m) \<Rightarrow>
          (delivered, sv\<lparr>sv_cells := cells, sv_metrics := m\<lparr>m_tx_msgs := counter_add (m_tx_msgs m) delivered\<rparr>\<rparr>))"

definition bounce :: "'c chan_lib \<Rightarrow> ustr \<Rightarrow> conn_id \<Rightarrow> event \<Rightarrow> 'c server \<Rightarrow> 'c server" where
  "bounce TX server to undelivered sv =
     (if \<not> bounces_when_undeliverable undelivered then sv
      else case hub_handle to (sv_hub sv) of
             None \<Rightarrow> sv
           | Some h \<Rightarrow>
               let reply = chat_delivery_failure undelivered server;
                   (res, cells) = handle_send TX h (OutEvent reply) (sv_cells sv);
                   sv = sv\<lparr>sv_cells := cells\<rparr>
               in if res = Sent
                  then sv\<lparr>sv_metrics := (sv_metrics sv)\<lparr>m_chat_bounced := counter_incr (m_chat_bounced (sv_metrics sv))\<rparr>\<rparr>
                  else sv)"

text \<open>From the selection on: nobody, a refusal, or the fan-out.\<close>

definition relay_selected :: "('c, 'e) router \<Rightarrow> conn_id \<Rightarrow> event \<Rightarrow> drop_reason + selection \<Rightarrow> 'c server \<Rightarrow> disposition \<times> 'c server" where
  "relay_selected R i e selected sv =
     (case selected of
        Inl why \<Rightarrow> (DroppedMsg why, sv)
      | Inr sel \<Rightarrow>
          if sel_handles sel = [] then
            let sv = sv\<lparr>sv_metrics := (sv_metrics sv)\<lparr>m_no_recipients := counter_incr (m_no_recipients (sv_metrics sv))\<rparr>\<rparr>;
                sv = (if sel_direct sel then bounce (rt_chan R) (rt_server_id R) i e sv else sv)
            in (DroppedMsg NoRecipients, sv)
          else
            (case fan_out (rt_chan R) (sel_handles sel) e sv of
               (recipients, sv) \<Rightarrow> (Relayed recipients (sel_explicit sel), sv)))"

text \<open>From the flow tag on: fold the relayed form into the sender, store it, announce it, choose.\<close>

definition relay_tagged :: "('c, 'e) router \<Rightarrow> moment \<Rightarrow> conn_id \<Rightarrow> principal \<Rightarrow> dest list \<Rightarrow> event \<Rightarrow> 'c server \<Rightarrow> disposition \<times> 'c server" where
  "relay_tagged R mo i p dests e sv =
     (let sv = sv\<lparr>sv_hub := snd (apply_event (mo_now mo) i e (Some e) (sv_hub sv))\<rparr>;
          sv = router_record R mo i p e sv;
          sv = sv\<lparr>sv_tap := tap_publish (rt_watched R) (mo_now mo) e p (sv_tap sv)\<rparr>
      in case select_recipients (sv_hub sv) (rt_missions R) (mo_lookup mo) i p dests e (sv_cache sv) (sv_metrics sv) of
           (selected, cache, m) \<Rightarrow> relay_selected R i e selected (sv\<lparr>sv_cache := cache, sv_metrics := m\<rparr>))"

definition handle_inbound :: "('c, 'e) router \<Rightarrow> moment \<Rightarrow> conn_id \<Rightarrow> event \<Rightarrow> 'c server \<Rightarrow> disposition \<times> 'c server" where
  "handle_inbound R mo i e sv =
     (if ev_is_control e then
        (case control_handle (rt_chan R) i e (mo_now mo) sv of (a, sv) \<Rightarrow> (ControlMsg a, sv))
      else if has_flow_tag (ev_detail e) (rt_server_id R) then
        (DroppedMsg DuplicateFlowTag,
         sv\<lparr>sv_metrics := (sv_metrics sv)\<lparr>m_dropped_flowtag := counter_incr (m_dropped_flowtag (sv_metrics sv))\<rparr>\<rparr>)
      else
        (case take_marti (ev_detail e) of (dests, d) \<Rightarrow>
           let e = e\<lparr>ev_detail := d\<rparr>
           in case hub_principal i (sv_hub sv) of
                None \<Rightarrow> (DroppedMsg NoRecipients, sv)
              | Some p \<Rightarrow>
                  if is_incognito i (sv_hub sv) \<and> \<not> list_ex (\<lambda>d. dest_callsign d \<noteq> None) dests then
                    (DroppedMsg Incognito,
                     sv\<lparr>sv_metrics := (sv_metrics sv)\<lparr>m_dropped_incognito := counter_incr (m_dropped_incognito (sv_metrics sv))\<rparr>\<rparr>)
                  else
                    relay_tagged R mo i p dests
                      (e\<lparr>ev_detail := add_flow_tag (rt_clock R) (rt_server_id R) (mo_now mo) (ev_detail e)\<rparr>) sv))"

text \<open>A message the server publishes for somebody: a stand-in connection for as long as it routes
  (\<open>stream/inject.rs\<close>).  Its queue is new and nothing reads it.\<close>

definition inject_publish :: "('c, 'e) router \<Rightarrow> 'c conn_cell \<Rightarrow> moment \<Rightarrow> principal \<Rightarrow> event \<Rightarrow> 'c server \<Rightarrow> disposition \<times> 'c server" where
  "inject_publish R cell mo p e sv =
     (case next_conn_id (sv_hub sv) of (i, hb) \<Rightarrow>
        let h = \<lparr>h_id = i, h_close_after_drops = 1\<rparr>;
            s = sub_make_ephemeral (subscription_new (mo_now mo) i p [] (lit ''console:'' @ pr_username p)
                  (lit ''0.0.0.0:0'') h);
            sv = sv\<lparr>sv_hub := snd (snd (register s hb)), sv_cells := (sv_cells sv)(i := cell)\<rparr>
        in case handle_inbound R mo i e sv of
             (disp, sv) \<Rightarrow> (disp, sv\<lparr>sv_hub := snd (snd (unregister i (sv_hub sv)))\<rparr>))"

end
