(* ===== verification/Routing_Props.thy ===== *)
theory Routing_Props
  imports Routing
begin

text \<open>
  What routing guarantees (\<open>rustak-server/src/stream/router.rs\<close>, \<open>control.rs\<close>,
  \<open>subscription.rs\<close>): who can be touched by a message, in what form it leaves, and what is counted.
\<close>

section \<open>A send touches one cell\<close>

lemma handle_close_cell:
  "handle_close TX r h cells = cells(h_id h := handle_close TX r h cells (h_id h))"
  by (auto simp: handle_close_def Let_def fun_eq_iff case_prod_beta)

lemma handle_send_other: "j \<noteq> h_id h \<Longrightarrow> snd (handle_send TX h out cells) j = cells j"
  by (auto simp: handle_send_def handle_close_def Let_def split: prod.split send_outcome.split)

lemma handle_send_local:
  "cells (h_id h) = cells' (h_id h) \<Longrightarrow>
   fst (handle_send TX h out cells) = fst (handle_send TX h out cells') \<and>
   snd (handle_send TX h out cells) (h_id h) = snd (handle_send TX h out cells') (h_id h)"
  by (auto simp: handle_send_def handle_close_def Let_def split: prod.split send_outcome.split)

section \<open>The fan-out\<close>

text \<open>The outcome of one recipient's send does not depend on the others when nobody is listed twice.\<close>

definition sent_to :: "'c chan_lib \<Rightarrow> event \<Rightarrow> 'c cells \<Rightarrow> conn_handle list \<Rightarrow> nat" where
  "sent_to TX e cells hs = length (filter (\<lambda>h. fst (handle_send TX h (OutEvent e) cells) = Sent) hs)"

lemma sent_to_cong:
  "\<forall>h \<in> set hs. cells (h_id h) = cells' (h_id h) \<Longrightarrow> sent_to TX e cells hs = sent_to TX e cells' hs"
  unfolding sent_to_def by (intro arg_cong [where f = length] filter_cong) (simp_all, metis handle_send_local)

lemma mod_step: "((a + 1) mod m + k) mod m = (a + Suc k) mod (m :: nat)"
  by (simp add: mod_simps)

lemma fan_loop_result:
  "distinct (map h_id hs) \<Longrightarrow> fan_loop TX e hs n cells m = (n', cells', m') \<Longrightarrow>
   n' = n + sent_to TX e cells hs \<and>
   (\<forall>j. cells' j = (case find (\<lambda>h. h_id h = j) hs of
       None \<Rightarrow> cells j | Some h \<Rightarrow> snd (handle_send TX h (OutEvent e) cells) j)) \<and>
   m_tx_msgs m' = m_tx_msgs m \<and>
   m_dropped_queue m' mod 2 ^ 64 = (m_dropped_queue m + (length hs - sent_to TX e cells hs)) mod 2 ^ 64"
proof (induction hs arbitrary: n cells m)
  case Nil
  then show ?case by (simp add: sent_to_def)
next
  case (Cons h hs)
  obtain res cells1 where s: "handle_send TX h (OutEvent e) cells = (res, cells1)" by force
  have other: "cells1 j = cells j" if "j \<noteq> h_id h" for j
    using handle_send_other [OF that, of TX "OutEvent e" cells] by (simp add: s)
  have apart: "h_id h \<notin> h_id ` set hs" and dist: "distinct (map h_id hs)" using Cons.prems(1) by auto
  have same: "sent_to TX e cells1 hs = sent_to TX e cells hs"
    by (rule sent_to_cong) (use apart other in \<open>metis imageI\<close>)
  have cong: "snd (handle_send TX g (OutEvent e) cells1) (h_id g) = snd (handle_send TX g (OutEvent e) cells) (h_id g)"
    if "g \<in> set hs" for g
  proof -
    have "h_id g \<noteq> h_id h" using that apart by (metis imageI)
    then show ?thesis using handle_send_local [of cells1 g cells TX "OutEvent e"] other by simp
  qed
  have le: "sent_to TX e cells hs \<le> length hs" by (simp add: sent_to_def)
  have cells': "cells' j = (case find (\<lambda>h. h_id h = j) (h # hs) of
       None \<Rightarrow> cells j | Some h \<Rightarrow> snd (handle_send TX h (OutEvent e) cells) j)"
    if ih: "cells' j = (case find (\<lambda>h. h_id h = j) hs of
       None \<Rightarrow> cells1 j | Some h \<Rightarrow> snd (handle_send TX h (OutEvent e) cells1) j)" for j
  proof (cases "h_id h = j")
    case True
    with apart have "find (\<lambda>h. h_id h = j) hs = None" unfolding find_None_iff by (metis imageI)
    with ih True s show ?thesis by simp
  next
    case False
    show ?thesis
    proof (cases "find (\<lambda>h. h_id h = j) hs")
      case None
      have "cells1 j = cells j" using other False by metis
      with ih None have "cells' j = cells j" by (simp only: option.case)
      with None False show ?thesis by (simp only: find.simps if_False option.case)
    next
      case (Some g)
      then have "g \<in> set hs" "h_id g = j" using find_SomeD [OF Some] by simp_all
      then have "cells' j = snd (handle_send TX g (OutEvent e) cells) j"
        using ih Some cong [of g] by (simp only: option.case)
      with Some False show ?thesis by (simp only: find.simps if_False option.case)
    qed
  qed
  obtain n1 m1 where rest: "fan_loop TX e hs n1 cells1 m1 = (n', cells', m')"
    and n1: "n1 = (if res = Sent then n + 1 else n)" and tx: "m_tx_msgs m1 = m_tx_msgs m"
    and dq: "m_dropped_queue m1 = (if res = Sent then m_dropped_queue m else counter_incr (m_dropped_queue m))"
    using Cons.prems(2) by (cases res) (auto simp: s)
  have one: "sent_to TX e cells (h # hs) = (if res = Sent then 1 else 0) + sent_to TX e cells hs"
    by (simp add: sent_to_def s)
  note IH = Cons.IH [OF dist rest, unfolded same]
  have "n' = n + sent_to TX e cells (h # hs)" using IH n1 one by simp
  moreover have "m_dropped_queue m' mod 2 ^ 64 =
      (m_dropped_queue m + (length (h # hs) - sent_to TX e cells (h # hs))) mod 2 ^ 64"
  proof (cases "res = Sent")
    case False
    then have "m_dropped_queue m1 = (m_dropped_queue m + 1) mod 2 ^ 64"
      using dq by (simp add: counter_incr_def add_u64_def)
    moreover have "length (h # hs) - sent_to TX e cells (h # hs) = Suc (length hs - sent_to TX e cells hs)"
      using False one le by (simp add: Suc_diff_le)
    ultimately show ?thesis using IH mod_step by metis
  qed (use IH dq one le in simp)
  ultimately show ?case using IH cells' tx by simp
qed

text \<open>One event queued once at each listed connection, and nothing anywhere else.\<close>

definition queued_once :: "'c chan_lib \<Rightarrow> event \<Rightarrow> conn_handle list \<Rightarrow> 'c cells \<Rightarrow> 'c cells \<Rightarrow> bool" where
  "queued_once TX e hs cells cells' \<longleftrightarrow>
     (\<forall>j. (j \<notin> h_id ` set hs \<longrightarrow> cells' j = cells j) \<and>
       (\<forall>h \<in> set hs. h_id h = j \<longrightarrow> cells' j = snd (handle_send TX h (OutEvent e) cells) j))"

lemma find_by_id:
  assumes "distinct (map h_id hs)"
  shows "find (\<lambda>h. h_id h = j) hs = None \<longleftrightarrow> j \<notin> h_id ` set hs"
    and "h \<in> set hs \<Longrightarrow> h_id h = j \<Longrightarrow> find (\<lambda>h. h_id h = j) hs = Some h"
  using assms by (induction hs) (auto simp: find_None_iff rev_image_eqI)

lemma fan_loop_queued:
  assumes "distinct (map h_id hs)" and "fan_loop TX e hs n cells m = (n', cells', m')"
  shows "queued_once TX e hs cells cells'"
  unfolding queued_once_def
proof (intro allI conjI impI ballI)
  fix j
  note r = fan_loop_result [OF assms]
  show "j \<notin> h_id ` set hs \<Longrightarrow> cells' j = cells j" using r find_by_id(1) [OF assms(1), of j] by simp
  show "h \<in> set hs \<Longrightarrow> h_id h = j \<Longrightarrow> cells' j = snd (handle_send TX h (OutEvent e) cells) j" for h
    using r find_by_id(2) [OF assms(1), of h j] by simp
qed

lemma fan_out_result:
  assumes "distinct (map h_id hs)" and "fan_out TX hs e sv = (n, sv')"
  shows "n = sent_to TX e (sv_cells sv) hs \<and> queued_once TX e hs (sv_cells sv) (sv_cells sv') \<and>
    sv_hub sv' = sv_hub sv \<and> sv_tap sv' = sv_tap sv \<and> sv_store sv' = sv_store sv \<and> sv_cache sv' = sv_cache sv"
    and "m_dropped_queue (sv_metrics sv') mod 2 ^ 64 =
      (m_dropped_queue (sv_metrics sv) + (length hs - n)) mod 2 ^ 64 \<and>
    m_tx_msgs (sv_metrics sv') = counter_add (m_tx_msgs (sv_metrics sv)) n"
proof -
  obtain n1 c1 m1 where l: "fan_loop TX e hs 0 (sv_cells sv) (sv_metrics sv) = (n1, c1, m1)"
    by (cases "fan_loop TX e hs 0 (sv_cells sv) (sv_metrics sv)") auto
  have sv': "n = n1" "sv' = sv\<lparr>sv_cells := c1, sv_metrics := m1\<lparr>m_tx_msgs := counter_add (m_tx_msgs m1) n1\<rparr>\<rparr>"
    using assms(2) by (auto simp: fan_out_def l)
  note r = fan_loop_result [OF assms(1) l]
  note q = fan_loop_queued [OF assms(1) l]
  with r q sv' show "n = sent_to TX e (sv_cells sv) hs \<and> queued_once TX e hs (sv_cells sv) (sv_cells sv') \<and>
    sv_hub sv' = sv_hub sv \<and> sv_tap sv' = sv_tap sv \<and> sv_store sv' = sv_store sv \<and> sv_cache sv' = sv_cache sv"
    by simp
  show "m_dropped_queue (sv_metrics sv') mod 2 ^ 64 =
      (m_dropped_queue (sv_metrics sv) + (length hs - n)) mod 2 ^ 64 \<and>
    m_tx_msgs (sv_metrics sv') = counter_add (m_tx_msgs (sv_metrics sv)) n"
    using r sv' by simp
qed

section \<open>The relayed form\<close>

definition relayed_form :: "('c, 'e) router \<Rightarrow> moment \<Rightarrow> event \<Rightarrow> event" where
  "relayed_form R mo e =
     e\<lparr>ev_detail := add_flow_tag (rt_clock R) (rt_server_id R) (mo_now mo) (snd (take_marti (ev_detail e)))\<rparr>"

lemma marti_not_flow: "lit ''marti'' \<noteq> FLOW_TAGS"
  by (simp add: FLOW_TAGS_def)

lemma read_marti_add: "read_marti (add_flow_tag K server now d) = read_marti d"
  by (simp add: read_marti_def add_others marti_not_flow)

lemma relayed_form_facts:
  "read_marti (ev_detail (relayed_form R mo e)) = []"
  "rt_server_id R \<noteq> [] \<Longrightarrow> has_flow_tag (ev_detail (relayed_form R mo e)) (rt_server_id R)"
  "n \<noteq> lit ''marti'' \<Longrightarrow> n \<noteq> FLOW_TAGS \<Longrightarrow>
     d_find_all n (ev_detail (relayed_form R mo e)) = d_find_all n (ev_detail e)"
  "ev_type (relayed_form R mo e) = ev_type e" "ev_uid (relayed_form R mo e) = ev_uid e"
  by (simp_all add: relayed_form_def read_marti_add has_add add_others take_marti_others)

text \<open>The branches of \<open>handle_inbound\<close>, each with what makes it run.\<close>

lemma handle_control:
  "ev_is_control e \<Longrightarrow> handle_inbound R mo i e sv =
     (ControlMsg (fst (control_handle (rt_chan R) i e (mo_now mo) sv)), snd (control_handle (rt_chan R) i e (mo_now mo) sv))"
  by (simp add: handle_inbound_def split: prod.split)

lemma handle_relay:
  assumes "\<not> ev_is_control e" and "\<not> has_flow_tag (ev_detail e) (rt_server_id R)"
    and "hub_principal i (sv_hub sv) = Some p"
    and "\<not> is_incognito i (sv_hub sv) \<or> list_ex (\<lambda>d. dest_callsign d \<noteq> None) (read_marti (ev_detail e))"
  shows "handle_inbound R mo i e sv = relay_tagged R mo i p (read_marti (ev_detail e)) (relayed_form R mo e) sv"
  using assms take_marti_read [of "ev_detail e"]
  by (cases "take_marti (ev_detail e)") (auto simp: handle_inbound_def relayed_form_def)

lemma handle_inbound_cases:
  obtains (control) "ev_is_control e"
  | (looped) "\<not> ev_is_control e" "handle_inbound R mo i e sv = (DroppedMsg DuplicateFlowTag,
      sv\<lparr>sv_metrics := (sv_metrics sv)\<lparr>m_dropped_flowtag := counter_incr (m_dropped_flowtag (sv_metrics sv))\<rparr>\<rparr>)"
  | (gone) "\<not> ev_is_control e" "handle_inbound R mo i e sv = (DroppedMsg NoRecipients, sv)"
  | (hidden) "\<not> ev_is_control e" "handle_inbound R mo i e sv = (DroppedMsg Incognito,
      sv\<lparr>sv_metrics := (sv_metrics sv)\<lparr>m_dropped_incognito := counter_incr (m_dropped_incognito (sv_metrics sv))\<rparr>\<rparr>)"
  | (relay) p where "\<not> ev_is_control e" "hub_principal i (sv_hub sv) = Some p"
      "handle_inbound R mo i e sv = relay_tagged R mo i p (read_marti (ev_detail e)) (relayed_form R mo e) sv"
proof -
  obtain ds d where tm: "take_marti (ev_detail e) = (ds, d)" by force
  then have ds: "ds = read_marti (ev_detail e)" using take_marti_read [of "ev_detail e"] by simp
  consider "ev_is_control e" | "\<not> ev_is_control e" "has_flow_tag (ev_detail e) (rt_server_id R)"
    | "\<not> ev_is_control e" "\<not> has_flow_tag (ev_detail e) (rt_server_id R)" by blast
  then show ?thesis
  proof cases
    case 3
    show ?thesis
    proof (cases "hub_principal i (sv_hub sv)")
      case None
      with 3 tm show ?thesis by (intro gone) (simp_all add: handle_inbound_def)
    next
      case (Some p)
      show ?thesis
      proof (cases "is_incognito i (sv_hub sv) \<and> \<not> list_ex (\<lambda>d. dest_callsign d \<noteq> None) ds")
        case True
        with 3 tm Some show ?thesis by (intro hidden) (simp_all add: handle_inbound_def)
      next
        case False
        with 3 Some handle_relay [of e R i sv p] ds show ?thesis by (intro relay) simp_all
      qed
    qed
  next
    case 2
    then show ?thesis by (intro looped) (simp_all add: handle_inbound_def)
  qed (rule control)
qed

text \<open>The state in which recipients are chosen.\<close>

definition prepared :: "('c, 'e) router \<Rightarrow> moment \<Rightarrow> conn_id \<Rightarrow> principal \<Rightarrow> event \<Rightarrow> 'c server \<Rightarrow> 'c server" where
  "prepared R mo i p e sv =
     (let sv = sv\<lparr>sv_hub := snd (apply_event (mo_now mo) i e (Some e) (sv_hub sv))\<rparr>;
          sv = router_record R mo i p e sv
      in sv\<lparr>sv_tap := tap_publish (rt_watched R) (mo_now mo) e p (sv_tap sv)\<rparr>)"

lemma prepared_sel [simp]:
  "sv_hub (prepared R mo i p e sv) = snd (apply_event (mo_now mo) i e (Some e) (sv_hub sv))"
  "sv_cells (prepared R mo i p e sv) = sv_cells sv"
  "sv_cache (prepared R mo i p e sv) = sv_cache sv"
  "sv_metrics (prepared R mo i p e sv) = sv_metrics sv"
  by (simp_all add: prepared_def router_record_def Let_def)

lemma relay_tagged_eq:
  "relay_tagged R mo i p dests e sv =
     (let sv = prepared R mo i p e sv;
          (selected, cache, m) = select_recipients (sv_hub sv) (rt_missions R) (mo_lookup mo) i p dests e (sv_cache sv) (sv_metrics sv)
      in relay_selected R i e selected (sv\<lparr>sv_cache := cache, sv_metrics := m\<rparr>))"
  by (simp add: relay_tagged_def prepared_def Let_def)

lemma bounce_frame:
  "sv_hub (bounce TX server i e sv) = sv_hub sv \<and> sv_tap (bounce TX server i e sv) = sv_tap sv \<and>
   sv_store (bounce TX server i e sv) = sv_store sv \<and> sv_cache (bounce TX server i e sv) = sv_cache sv"
  by (auto simp: bounce_def Let_def split: option.split prod.split)

lemma bounce_other:
  assumes "hub_ok (sv_hub sv)" and "j \<noteq> i"
  shows "sv_cells (bounce TX server i e sv) j = sv_cells sv j"
proof (cases "hub_get (sv_hub sv) i")
  case None
  then show ?thesis by (simp add: bounce_def hub_handle_def)
next
  case (Some s)
  then have "h_id (sub_handle s) = i" using hub_getD [OF assms(1) Some] by simp
  with assms(2) have "snd (handle_send TX (sub_handle s) out (sv_cells sv)) j = sv_cells sv j" for out
    by (intro handle_send_other) simp
  with Some show ?thesis by (auto simp: bounce_def hub_handle_def Let_def case_prod_beta)
qed

text \<open>What the end of a route does to the queues.\<close>

lemma relay_nobody:
  assumes "hub_ok (sv_hub sv)" and "sel_handles sel = []"
    and "relay_selected R i e (Inr sel) sv = (disp, sv')"
  shows "disp = DroppedMsg NoRecipients \<and> sv_hub sv' = sv_hub sv \<and> (j \<noteq> i \<longrightarrow> sv_cells sv' j = sv_cells sv j)"
proof -
  let ?sv = "sv\<lparr>sv_metrics := (sv_metrics sv)\<lparr>m_no_recipients := counter_incr (m_no_recipients (sv_metrics sv))\<rparr>\<rparr>"
  have b: "sv_hub (bounce TX server i e ?sv) = sv_hub sv"
    "j \<noteq> i \<Longrightarrow> sv_cells (bounce TX server i e ?sv) j = sv_cells sv j" for TX server
    using bounce_frame [of TX server i e ?sv] bounce_other [of ?sv j i TX server e] assms(1) by simp_all
  show ?thesis using assms(2,3) b by (auto simp: relay_selected_def Let_def)
qed

lemma relay_some:
  assumes "sel_handles sel \<noteq> []" and "distinct (map h_id (sel_handles sel))"
    and "relay_selected R i e (Inr sel) sv = (disp, sv')"
  shows "disp = Relayed (sent_to (rt_chan R) e (sv_cells sv) (sel_handles sel)) (sel_explicit sel) \<and>
    sv_hub sv' = sv_hub sv \<and> queued_once (rt_chan R) e (sel_handles sel) (sv_cells sv) (sv_cells sv')"
proof -
  obtain n sv1 where f: "fan_out (rt_chan R) (sel_handles sel) e sv = (n, sv1)" by force
  show ?thesis using assms(1,3) fan_out_result(1) [OF assms(2) f] by (simp add: relay_selected_def f)
qed

text \<open>A report does not change who may reach whom.\<close>

lemma hub_permits_apply:
  "hub_permits (snd (apply_event now i e x hb)) k h \<longleftrightarrow> hub_permits hb k h"
proof -
  let ?hb = "snd (apply_event now i e x hb)"
  have "map_option sub_principal (hub_get ?hb j) = map_option sub_principal (hub_get hb j)"
    "map_option sub_handle (hub_get ?hb j) = map_option sub_handle (hub_get hb j)" for j
    by (simp_all add: apply_event_sel split: option.split)
  moreover have "hub_permits hb k h \<longleftrightarrow>
      (case (map_option sub_principal (hub_get hb k), map_option sub_handle (hub_get hb (h_id h)),
         map_option sub_principal (hub_get hb (h_id h))) of
       (Some p, Some g, Some q) \<Rightarrow> g = h \<and> can_reach (pr_groups p) (pr_groups q) | _ \<Rightarrow> False)" for hb
    by (auto simp: hub_permits_def handle_of_def split: option.split)
  ultimately show ?thesis by (simp only:)
qed

lemma apply_event_reach: "hub_reach (hb, P) \<Longrightarrow> hub_reach (snd (apply_event now i e x hb), P)"
  using more_steps [OF _ hub_step.event [of now i e x hb "fst (apply_event now i e x hb)"
      "snd (apply_event now i e x hb)" P]] by (simp only: prod.collapse)

text \<open>One relayed message, whatever becomes of it: the registry has the sender's report, and every
  other queue is either untouched or has been sent the message once, with permission.\<close>

lemma relay_tagged_effect:
  assumes reach: "hub_reach (sv_hub sv, P)" and run: "relay_tagged R mo i p dests e sv = (disp, sv')"
  shows "sv_hub sv' = snd (apply_event (mo_now mo) i e (Some e) (sv_hub sv))"
    and "j \<noteq> i \<Longrightarrow> sv_cells sv' j \<noteq> sv_cells sv j \<Longrightarrow>
      (\<exists>n x. disp = Relayed n x) \<and> (\<exists>h. hub_permits (sv_hub sv) i h \<and> h_id h = j \<and>
        sv_cells sv' j = snd (handle_send (rt_chan R) h (OutEvent e) (sv_cells sv)) j)"
    and "disp = Relayed n x \<Longrightarrow> \<exists>hs. (\<forall>h \<in> set hs. hub_permits (sv_hub sv) i h) \<and> distinct (map h_id hs) \<and>
      hs \<noteq> [] \<and> queued_once (rt_chan R) e hs (sv_cells sv) (sv_cells sv') \<and>
      n = sent_to (rt_chan R) e (sv_cells sv) hs \<and> (x \<or> i \<notin> h_id ` set hs)"
proof -
  let ?hb = "snd (apply_event (mo_now mo) i e (Some e) (sv_hub sv))"
  have reach': "hub_reach (?hb, P)" by (rule apply_event_reach [OF reach])
  then have ok: "hub_ok ?hb" using hub_reach_ok by force
  obtain selected cache m where sel: "select_recipients ?hb (rt_missions R) (mo_lookup mo) i p dests e
      (sv_cache sv) (sv_metrics sv) = (selected, cache, m)" by (rule prod_cases3)
  let ?sv = "(prepared R mo i p e sv)\<lparr>sv_cache := cache, sv_metrics := m\<rparr>"
  have end_run: "relay_selected R i e selected ?sv = (disp, sv')"
    using run by (simp add: relay_tagged_eq Let_def sel)
  have "sv_hub sv' = ?hb \<and> (j \<noteq> i \<longrightarrow> sv_cells sv' j \<noteq> sv_cells sv j \<longrightarrow>
      (\<exists>n x. disp = Relayed n x) \<and> (\<exists>h. hub_permits (sv_hub sv) i h \<and> h_id h = j \<and>
        sv_cells sv' j = snd (handle_send (rt_chan R) h (OutEvent e) (sv_cells sv)) j)) \<and>
     (\<forall>n x. disp = Relayed n x \<longrightarrow> (\<exists>hs. (\<forall>h \<in> set hs. hub_permits (sv_hub sv) i h) \<and> distinct (map h_id hs) \<and>
      hs \<noteq> [] \<and> queued_once (rt_chan R) e hs (sv_cells sv) (sv_cells sv') \<and>
      n = sent_to (rt_chan R) e (sv_cells sv) hs \<and> (x \<or> i \<notin> h_id ` set hs)))" for j
  proof (cases selected)
    case (Inl why)
    with end_run show ?thesis by (auto simp: relay_selected_def)
  next
    case (Inr s)
    note perm = selected_permitted [OF reach' sel [unfolded Inr]]
    show ?thesis
    proof (cases "sel_handles s = []")
      case True
      with relay_nobody [OF _ True end_run [unfolded Inr], of j] ok show ?thesis by simp
    next
      case False
      from relay_some [OF False _ end_run [unfolded Inr]] perm
      have out: "disp = Relayed (sent_to (rt_chan R) e (sv_cells sv) (sel_handles s)) (sel_explicit s)"
        "sv_hub sv' = ?hb" "queued_once (rt_chan R) e (sel_handles s) (sv_cells sv) (sv_cells sv')" by simp_all
      have "\<exists>h \<in> set (sel_handles s). h_id h = j" if "sv_cells sv' j \<noteq> sv_cells sv j"
        using out(3) that unfolding queued_once_def by (metis imageE)
      with out perm False show ?thesis
        by (auto simp: hub_permits_apply queued_once_def)
    qed
  qed
  then show "sv_hub sv' = ?hb"
    and "j \<noteq> i \<Longrightarrow> sv_cells sv' j \<noteq> sv_cells sv j \<Longrightarrow>
      (\<exists>n x. disp = Relayed n x) \<and> (\<exists>h. hub_permits (sv_hub sv) i h \<and> h_id h = j \<and>
        sv_cells sv' j = snd (handle_send (rt_chan R) h (OutEvent e) (sv_cells sv)) j)"
    and "disp = Relayed n x \<Longrightarrow> \<exists>hs. (\<forall>h \<in> set hs. hub_permits (sv_hub sv) i h) \<and> distinct (map h_id hs) \<and>
      hs \<noteq> [] \<and> queued_once (rt_chan R) e hs (sv_cells sv) (sv_cells sv') \<and>
      n = sent_to (rt_chan R) e (sv_cells sv) hs \<and> (x \<or> i \<notin> h_id ` set hs)"
    by blast+
qed

text \<open>A control message reaches at most its sender's own queue.\<close>

lemma control_handle_effect:
  assumes "hub_ok (sv_hub sv)" and "control_handle TX i e now sv = (a, sv')"
  shows "(j \<noteq> i \<longrightarrow> sv_cells sv' j = sv_cells sv j) \<and> sv_tap sv' = sv_tap sv \<and> sv_store sv' = sv_store sv \<and>
    sv_cache sv' = sv_cache sv \<and> sv_metrics sv' = sv_metrics sv \<and>
    sv_hub sv' = (case incognito_toggle e of Some b \<Rightarrow> snd (set_incognito i b (sv_hub sv)) | None \<Rightarrow> sv_hub sv)"
proof (cases "is_ping e")
  case True
  then have "incognito_toggle e = None"
    by (simp add: is_ping_def incognito_toggle_def cot_type_defs)
  moreover have "(j \<noteq> i \<longrightarrow> sv_cells sv' j = sv_cells sv j) \<and> sv_tap sv' = sv_tap sv \<and> sv_store sv' = sv_store sv \<and>
      sv_cache sv' = sv_cache sv \<and> sv_metrics sv' = sv_metrics sv \<and> sv_hub sv' = sv_hub sv"
  proof (cases "hub_get (sv_hub sv) i")
    case None
    with True assms(2) show ?thesis by (auto simp: control_handle_def control_pong_def hub_handle_def)
  next
    case (Some s)
    have "h_id (sub_handle s) = i" using hub_getD [OF assms(1) Some] by simp
    then have "j \<noteq> i \<Longrightarrow> snd (handle_send TX (sub_handle s) out (sv_cells sv)) j = sv_cells sv j" for out
      by (intro handle_send_other) simp
    with True Some assms(2) show ?thesis by (auto simp: control_handle_def control_pong_def hub_handle_def)
  qed
  ultimately show ?thesis by simp
next
  case False
  with assms(2) show ?thesis by (auto simp: control_handle_def split: option.splits)
qed

section \<open>A concrete queue\<close>

text \<open>A queue of three messages that nobody drains, for the witnesses.\<close>

definition list_chan :: "(outbound list) chan_lib" where
  "list_chan = \<lparr>try_send = (\<lambda>q out. if length q < 3 then (SendOk, q @ [out]) else (SendFull, q))\<rparr>"

definition demo_cells :: "outbound list cells" where
  "demo_cells i = \<lparr>cell_chan = [], cell_stats = conn_stats_new, cell_closing = False, cell_liveness = liveness_new 0\<rparr>"

definition demo_server :: "outbound list server" where
  "demo_server = \<lparr>sv_hub = demo_hub, sv_cells = demo_cells, sv_cache = cache_new, sv_metrics = metrics_new,
     sv_tap = [], sv_store = store_disabled\<rparr>"

definition demo_router :: "(outbound list, unit) router" where
  "demo_router = \<lparr>rt_chan = list_chan, rt_clock = no_clock, rt_bits = msb_lib, rt_datetime = Some,
     rt_missions = no_missions, rt_server_id = lit ''rustak'', rt_watched = False\<rparr>"

definition demo_moment :: moment where
  "demo_moment = \<lparr>mo_now = 5, mo_lookup = (\<lambda>_. \<lparr>le_t0 = 0, le_t1 = 0, le_table = None\<rparr>), mo_store = SendOk\<rparr>"

section \<open>Broadcasts\<close>

lemma select_broadcast:
  "\<not> has_any (fst (partition_dests dests m)) \<Longrightarrow>
   select_recipients hb missions env i p dests e cache m =
     (Inr \<lparr>sel_handles = reachable_from i True hb, sel_explicit = False, sel_direct = False\<rparr>, cache, snd (partition_dests dests m))"
  by (simp add: select_recipients_def case_prod_beta)

text \<open>A message that addresses nobody in particular is queued once at everyone the sender reaches.\<close>

lemma broadcast_run:
  assumes reach: "hub_reach (sv_hub sv, P)" and run: "relay_tagged R mo i p dests e sv = (disp, sv')"
    and none: "\<not> has_any (fst (partition_dests dests (sv_metrics sv)))" and get: "hub_get (sv_hub sv) i = Some s"
    and c: "j \<noteq> i" "hub_get (sv_hub sv) j = Some c" "sub_reaches s c"
  shows "(\<exists>n. disp = Relayed n False) \<and>
    sv_cells sv' j = snd (handle_send (rt_chan R) (sub_handle c) (OutEvent e) (sv_cells sv)) j"
proof -
  let ?hb = "snd (apply_event (mo_now mo) i e (Some e) (sv_hub sv))"
  have ok: "hub_ok (sv_hub sv)" and ok': "hub_ok ?hb"
    using hub_reach_ok [OF reach] hub_reach_ok [OF apply_event_reach [OF reach]] by auto
  let ?hs = "reachable_from i True ?hb"
  let ?sel = "\<lparr>sel_handles = ?hs, sel_explicit = False, sel_direct = False\<rparr>"
  let ?sv = "(prepared R mo i p e sv)\<lparr>sv_cache := sv_cache sv, sv_metrics := snd (partition_dests dests (sv_metrics sv))\<rparr>"
  have end_run: "relay_selected R i e (Inr ?sel) ?sv = (disp, sv')"
    using run none by (simp add: relay_tagged_eq Let_def select_broadcast)
  have hj: "h_id (sub_handle c) = j" using hub_getD [OF ok c(2)] by simp
  have "hub_get ?hb i = Some (snd (sub_apply_event (mo_now mo) e (Some e) s))" "hub_get ?hb j = Some c"
    using get c by (simp_all add: apply_event_sel)
  then have mem: "sub_handle c \<in> set ?hs"
    using c(1,3) hj reachable_from_iff [OF ok', of i]
    by (auto simp: handle_of_def sub_reaches_def)
  then have "sel_handles ?sel \<noteq> []" by auto
  note out = relay_some [OF this _ end_run]
  then have "queued_once (rt_chan R) e ?hs (sv_cells sv) (sv_cells sv')"
    using reachable_from_distinct [OF ok', of i True] by simp
  then have "sv_cells sv' j = snd (handle_send (rt_chan R) (sub_handle c) (OutEvent e) (sv_cells sv)) j"
    unfolding queued_once_def using mem hj by blast
  with out reachable_from_distinct [OF ok', of i True] show ?thesis by simp
qed

lemma sort_callsign:
  "dest_callsign d = Some c \<Longrightarrow> sort_dest a d =
     (if is_all_streaming d then a\<lparr>ad_all_streaming := True\<rparr> else a\<lparr>ad_callsigns := push_name c (ad_callsigns a)\<rparr>)"
  by (simp add: sort_dest_def dest_kind_def is_all_streaming_def)

lemma sort_callsigns:
  "\<forall>d \<in> set ds. dest_callsign d \<noteq> None \<Longrightarrow>
   ad_uids (foldl sort_dest a ds) = ad_uids a \<and> ad_groups (foldl sort_dest a ds) = ad_groups a \<and>
   ad_missions (foldl sort_dest a ds) = ad_missions a \<and> ad_publish (foldl sort_dest a ds) = ad_publish a \<and>
   (ad_all_streaming (foldl sort_dest a ds) \<longleftrightarrow> ad_all_streaming a \<or> (\<exists>d \<in> set ds. is_all_streaming d))"
  by (induction ds arbitrary: a) (auto simp: sort_callsign split: if_splits)

lemma all_streaming_has_none:
  assumes "\<forall>d \<in> set dests. dest_callsign d \<noteq> None" and "\<exists>d \<in> set (take MAX_DESTS dests). is_all_streaming d"
  shows "\<not> has_any (fst (partition_dests dests m))"
proof -
  have "\<forall>d \<in> set (take MAX_DESTS dests). dest_callsign d \<noteq> None" using assms(1) set_take_subset by fast
  from sort_callsigns [OF this, of addresses_default] assms(2) show ?thesis
    by (simp add: partition_dests_def Let_def has_any_def addresses_default_def)
qed

lemma partition_Nil: "\<not> has_any (fst (partition_dests [] m))"
  by (simp add: partition_dests_def has_any_def addresses_default_def)

lemma demo_relayed:
  "\<exists>n sv'. handle_inbound demo_router demo_moment (ConnId 1) (demo_sa (lit ''ALPHA'')) demo_server = (Relayed n False, sv') \<and>
     sv_cells sv' (ConnId 2) = snd (handle_send list_chan (sub_handle (demo_sub 2 (lit ''BRAVO'')))
       (OutEvent (relayed_form demo_router demo_moment (demo_sa (lit ''ALPHA'')))) demo_cells) (ConnId 2)"
proof -
  let ?e = "demo_sa (lit ''ALPHA'')"
  let ?run = "handle_inbound demo_router demo_moment (ConnId 1) ?e demo_server"
  have e: "\<not> ev_is_control ?e" "\<not> has_flow_tag (ev_detail ?e) (lit ''rustak'')" "read_marti (ev_detail ?e) = []"
    by (code_simp)+
  have hub: "sv_hub demo_server = demo_hub" by (simp add: demo_server_def)
  have run: "?run = relay_tagged demo_router demo_moment (ConnId 1) (sub_principal (demo_sub 1 (lit ''ALPHA''))) []
      (relayed_form demo_router demo_moment ?e) demo_server"
    using handle_relay [of ?e demo_router "ConnId 1" demo_server "sub_principal (demo_sub 1 (lit ''ALPHA''))" demo_moment] e
    by (simp add: demo_router_def hub hub_principal_def demo_get is_incognito_def demo_sub_def subscription_new_def)
  from demo_reaches(2) [of 1 _ 2] broadcast_run [of demo_server "{}" demo_router demo_moment "ConnId 1" _ "[]"
      "relayed_form demo_router demo_moment ?e" "fst ?run" "snd ?run" "demo_sub 1 (lit ''ALPHA'')" "ConnId 2"]
    partition_Nil demo_reach run
  show ?thesis by (simp add: hub demo_get demo_router_def demo_server_def) (metis prod.collapse)
qed

section \<open>Properties\<close>

text \<open>C1: no message crosses the channels: whatever a connection sends (broadcast, addressed by
  callsign, uid, channel or mission, control or malformed), the queue of another connection changes
  only if the sender's channels reach that connection at that moment, and a control message changes
  no other queue at all.\<close>

theorem routing_never_leaks:
  assumes "hub_reach (sv_hub sv, P)" and "handle_inbound R mo i e sv = (disp, sv')"
    and "j \<noteq> i" and "sv_cells sv' j \<noteq> sv_cells sv j"
  shows "\<not> ev_is_control e \<and> (\<exists>s c. hub_get (sv_hub sv) i = Some s \<and> hub_get (sv_hub sv) j = Some c \<and>
    can_reach (pr_groups (sub_principal s)) (pr_groups (sub_principal c)))"
proof (cases rule: handle_inbound_cases [where e = e and R = R and mo = mo and i = i and sv = sv])
  case control
  have "hub_ok (sv_hub sv)" using hub_reach_ok [OF assms(1)] by simp
  moreover have "control_handle (rt_chan R) i e (mo_now mo) sv =
      (fst (control_handle (rt_chan R) i e (mo_now mo) sv), sv')"
    using assms(2) control by (auto simp: handle_control)
  ultimately have "sv_cells sv' j = sv_cells sv j" using control_handle_effect assms(3) by blast
  with assms(4) show ?thesis by simp
next
  case (relay p)
  with assms(2) have run: "relay_tagged R mo i p (read_marti (ev_detail e)) (relayed_form R mo e) sv = (disp, sv')"
    by simp
  from relay_tagged_effect(2) [OF assms(1) run assms(3,4)] relay(1) show ?thesis
    by (auto simp: hub_permits_def handle_of_def)
qed (use assms in auto)

theorem routing_never_leaks_witness:
  "\<exists>sv' :: outbound list server. \<not> ev_is_control (demo_sa (lit ''ALPHA'')) \<and> sv_cells sv' (ConnId 2) \<noteq> sv_cells demo_server (ConnId 2) \<and>
    (\<exists>s c. hub_get (sv_hub demo_server) (ConnId 1) = Some s \<and> hub_get (sv_hub demo_server) (ConnId 2) = Some c \<and>
      can_reach (pr_groups (sub_principal s)) (pr_groups (sub_principal c)))"
proof -
  obtain n sv' where run: "handle_inbound demo_router demo_moment (ConnId 1) (demo_sa (lit ''ALPHA'')) demo_server = (Relayed n False, sv')"
    and c: "sv_cells sv' (ConnId 2) = snd (handle_send list_chan (sub_handle (demo_sub 2 (lit ''BRAVO'')))
       (OutEvent (relayed_form demo_router demo_moment (demo_sa (lit ''ALPHA'')))) demo_cells) (ConnId 2)"
    using demo_relayed by blast
  have changed: "sv_cells sv' (ConnId 2) \<noteq> sv_cells demo_server (ConnId 2)"
    unfolding c by (simp add: handle_send_def Let_def list_chan_def demo_cells_def demo_server_def)
  have reach: "hub_reach (sv_hub demo_server, {})" by (simp add: demo_server_def demo_reach)
  from routing_never_leaks [OF reach run _ changed] changed show ?thesis by (intro exI [of _ sv']) simp
qed

text \<open>C2: a relayed message is relayed once and clean: each of its recipients, and nobody else, has
  been queued exactly one copy; the count reported is the number of queues that accepted it; the copy
  carries no address list and does carry this server's flow tag; every other detail element is as the
  sender wrote it; and a message that named nobody does not come back to its sender.\<close>

theorem relayed_once_and_clean:
  assumes "hub_reach (sv_hub sv, P)" and "rt_server_id R \<noteq> []"
    and "handle_inbound R mo i e sv = (Relayed n x, sv')"
  shows "(\<exists>hs. hs \<noteq> [] \<and> distinct (map h_id hs) \<and> (\<forall>h \<in> set hs. hub_permits (sv_hub sv) i h) \<and>
      queued_once (rt_chan R) (relayed_form R mo e) hs (sv_cells sv) (sv_cells sv') \<and>
      n = sent_to (rt_chan R) (relayed_form R mo e) (sv_cells sv) hs \<and> (x \<or> i \<notin> h_id ` set hs)) \<and>
    read_marti (ev_detail (relayed_form R mo e)) = [] \<and>
    has_flow_tag (ev_detail (relayed_form R mo e)) (rt_server_id R) \<and>
    (name \<noteq> lit ''marti'' \<longrightarrow> name \<noteq> FLOW_TAGS \<longrightarrow>
      d_find_all name (ev_detail (relayed_form R mo e)) = d_find_all name (ev_detail e)) \<and>
    sv_hub sv' = snd (apply_event (mo_now mo) i (relayed_form R mo e) (Some (relayed_form R mo e)) (sv_hub sv))"
proof (cases rule: handle_inbound_cases [where e = e and R = R and mo = mo and i = i and sv = sv])
  case control
  with assms(3) show ?thesis by (simp add: handle_control)
next
  case (relay p)
  with assms(3) have run: "relay_tagged R mo i p (read_marti (ev_detail e)) (relayed_form R mo e) sv = (Relayed n x, sv')"
    by simp
  from relay_tagged_effect(3) [OF assms(1) run refl] relay_tagged_effect(1) [OF assms(1) run] assms(2)
  show ?thesis by (auto simp: relayed_form_facts)
qed (use assms in auto)

theorem relayed_once_and_clean_witness:
  "\<exists>n (sv' :: outbound list server). (\<exists>hs. hs \<noteq> [] \<and> distinct (map h_id hs) \<and> (\<forall>h \<in> set hs. hub_permits (sv_hub demo_server) (ConnId 1) h) \<and>
      queued_once (rt_chan demo_router) (relayed_form demo_router demo_moment (demo_sa (lit ''ALPHA''))) hs (sv_cells demo_server) (sv_cells sv') \<and>
      n = sent_to (rt_chan demo_router) (relayed_form demo_router demo_moment (demo_sa (lit ''ALPHA''))) (sv_cells demo_server) hs \<and>
      (False \<or> ConnId 1 \<notin> h_id ` set hs)) \<and>
    read_marti (ev_detail (relayed_form demo_router demo_moment (demo_sa (lit ''ALPHA'')))) = [] \<and>
    has_flow_tag (ev_detail (relayed_form demo_router demo_moment (demo_sa (lit ''ALPHA'')))) (rt_server_id demo_router)"
proof -
  have reach: "hub_reach (sv_hub demo_server, {})" by (simp add: demo_server_def demo_reach)
  have "rt_server_id demo_router \<noteq> []" by (simp add: demo_router_def)
  moreover obtain n sv' where "handle_inbound demo_router demo_moment (ConnId 1) (demo_sa (lit ''ALPHA'')) demo_server = (Relayed n False, sv')"
    using demo_relayed by blast
  ultimately show ?thesis using relayed_once_and_clean [OF reach, of demo_router demo_moment "ConnId 1" "demo_sa (lit ''ALPHA'')" n False sv']
    by (intro exI [of _ n] exI [of _ sv']) (simp only: simp_thms)
qed

text \<open>C3: a message cannot loop between servers or be relayed twice: once relayed, the same message
  arriving again at a router of the same name, on any connection and in any later state, is dropped
  as a duplicate and changes nothing but the counter.\<close>

theorem relayed_message_never_loops:
  assumes "rt_server_id R \<noteq> []" and "rt_server_id R2 = rt_server_id R"
    and "handle_inbound R mo i e sv = (Relayed n x, sv')"
  shows "handle_inbound R2 mo2 k (relayed_form R mo e) sv2 = (DroppedMsg DuplicateFlowTag,
    sv2\<lparr>sv_metrics := (sv_metrics sv2)\<lparr>m_dropped_flowtag := counter_incr (m_dropped_flowtag (sv_metrics sv2))\<rparr>\<rparr>)"
proof -
  have "\<not> ev_is_control e" using assms(3) by (auto simp: handle_control)
  then have "\<not> ev_is_control (relayed_form R mo e)" by (simp add: ev_is_control_def relayed_form_facts)
  with assms(1,2) show ?thesis by (simp add: handle_inbound_def relayed_form_facts)
qed

theorem relayed_message_never_loops_witness:
  "handle_inbound demo_router demo_moment (ConnId 2) (relayed_form demo_router demo_moment (demo_sa (lit ''ALPHA''))) demo_server =
    (DroppedMsg DuplicateFlowTag,
    demo_server\<lparr>sv_metrics := (sv_metrics demo_server)\<lparr>m_dropped_flowtag := counter_incr (m_dropped_flowtag (sv_metrics demo_server))\<rparr>\<rparr>)"
proof -
  have "rt_server_id demo_router \<noteq> []" by (simp add: demo_router_def)
  with demo_relayed relayed_message_never_loops [of demo_router demo_router] show ?thesis by blast
qed

text \<open>``All Streaming'' is a broadcast: a message whose destinations are callsigns, one of the first
  64 of them ``All Streaming'', is queued at every other connection the sender reaches, whoever else
  was named, and also when the sender is incognito.\<close>

theorem all_streaming_is_broadcast:
  assumes "hub_reach (sv_hub sv, P)" and "hub_get (sv_hub sv) i = Some s"
    and "\<not> ev_is_control e" and "\<not> has_flow_tag (ev_detail e) (rt_server_id R)"
    and "\<forall>d \<in> set (read_marti (ev_detail e)). dest_callsign d \<noteq> None"
    and "\<exists>d \<in> set (take MAX_DESTS (read_marti (ev_detail e))). is_all_streaming d"
    and "j \<noteq> i" and "hub_get (sv_hub sv) j = Some c" and "sub_reaches s c"
    and "handle_inbound R mo i e sv = (disp, sv')"
  shows "(\<exists>n. disp = Relayed n False) \<and>
    sv_cells sv' j = snd (handle_send (rt_chan R) (sub_handle c) (OutEvent (relayed_form R mo e)) (sv_cells sv)) j"
proof -
  have "read_marti (ev_detail e) \<noteq> []" using assms(6) by auto
  then have any: "list_ex (\<lambda>d. dest_callsign d \<noteq> None) (read_marti (ev_detail e))"
    using assms(5) by (cases "read_marti (ev_detail e)") auto
  have "handle_inbound R mo i e sv =
      relay_tagged R mo i (sub_principal s) (read_marti (ev_detail e)) (relayed_form R mo e) sv"
    using handle_relay [OF assms(3,4), of i sv "sub_principal s" mo] assms(2) any by (simp add: hub_principal_def)
  with assms(10) have "relay_tagged R mo i (sub_principal s) (read_marti (ev_detail e)) (relayed_form R mo e) sv = (disp, sv')"
    by simp
  from broadcast_run [OF assms(1) this all_streaming_has_none [OF assms(5,6)] assms(2,7-9)] show ?thesis .
qed

definition demo_hidden :: "outbound list server" where
  "demo_hidden = demo_server\<lparr>sv_hub := snd (set_incognito (ConnId 1) True demo_hub)\<rparr>"

definition demo_post :: event where
  "demo_post = b_push (marti_element [dest_for_callsign ALL_STREAMING]) (demo_sa (lit ''ALPHA''))"

lemma demo_hidden_reach: "hub_reach (sv_hub demo_hidden, {})"
  using more_steps [OF demo_reach hub_step.incognito [of "ConnId 1" True demo_hub
      "fst (set_incognito (ConnId 1) True demo_hub)" "snd (set_incognito (ConnId 1) True demo_hub)" "{}"]]
  by (simp add: demo_hidden_def)

lemma demo_hidden_get: "hub_get (sv_hub demo_hidden) =
    [ConnId 1 \<mapsto> (demo_sub 1 (lit ''ALPHA''))\<lparr>sub_incognito := True\<rparr>, ConnId 2 \<mapsto> demo_sub 2 (lit ''BRAVO'')]"
  by (simp add: demo_hidden_def set_incognito_def hub_get_put demo_get fun_upd_twist)

theorem all_streaming_is_broadcast_witness:
  "is_incognito (ConnId 1) (sv_hub demo_hidden) \<and>
    (\<exists>disp (sv' :: outbound list server). handle_inbound demo_router demo_moment (ConnId 1) demo_post demo_hidden = (disp, sv') \<and>
      (\<exists>n. disp = Relayed n False) \<and>
      sv_cells sv' (ConnId 2) = snd (handle_send (rt_chan demo_router) (sub_handle (demo_sub 2 (lit ''BRAVO'')))
        (OutEvent (relayed_form demo_router demo_moment demo_post)) (sv_cells demo_hidden)) (ConnId 2))"
proof -
  have m: "read_marti (ev_detail demo_post) = [dest_for_callsign ALL_STREAMING]"
    "\<not> ev_is_control demo_post" "\<not> has_flow_tag (ev_detail demo_post) (lit ''rustak'')"
    by code_simp+
  obtain disp sv' where run: "handle_inbound demo_router demo_moment (ConnId 1) demo_post demo_hidden = (disp, sv')"
    by force
  have "(\<exists>n. disp = Relayed n False) \<and>
      sv_cells sv' (ConnId 2) = snd (handle_send (rt_chan demo_router) (sub_handle (demo_sub 2 (lit ''BRAVO'')))
        (OutEvent (relayed_form demo_router demo_moment demo_post)) (sv_cells demo_hidden)) (ConnId 2)"
    by (rule all_streaming_is_broadcast [OF demo_hidden_reach _ _ _ _ _ _ _ _ run])
      (auto simp: m demo_hidden_get demo_reaches demo_router_def MAX_DESTS_def dest_for_callsign_def
        dest_default_def is_all_streaming_def)
  moreover have "is_incognito (ConnId 1) (sv_hub demo_hidden)" by (simp add: is_incognito_def demo_hidden_get)
  ultimately show ?thesis using run by blast
qed

text \<open>An incognito sender is heard by nobody unless it names a callsign: any other message of its
  is dropped before it is stored, replayed, announced or routed, and only the counter shows it.\<close>

theorem incognito_is_silent:
  assumes "hub_get (sv_hub sv) i = Some s" and "sub_incognito s" and "\<not> ev_is_control e"
    and "\<forall>d \<in> set (read_marti (ev_detail e)). dest_callsign d = None"
  shows "snd (handle_inbound R mo i e sv) =
    (if has_flow_tag (ev_detail e) (rt_server_id R)
     then sv\<lparr>sv_metrics := (sv_metrics sv)\<lparr>m_dropped_flowtag := counter_incr (m_dropped_flowtag (sv_metrics sv))\<rparr>\<rparr>
     else sv\<lparr>sv_metrics := (sv_metrics sv)\<lparr>m_dropped_incognito := counter_incr (m_dropped_incognito (sv_metrics sv))\<rparr>\<rparr>)"
proof -
  have "\<not> list_ex (\<lambda>d. dest_callsign d \<noteq> None) (fst (take_marti (ev_detail e)))"
    using assms(4) by (simp add: take_marti_read list_ex_iff)
  with assms(1-3) show ?thesis
    by (simp add: handle_inbound_def hub_principal_def is_incognito_def case_prod_beta)
qed

theorem incognito_is_silent_witness:
  "snd (handle_inbound demo_router demo_moment (ConnId 1) (demo_sa (lit ''ALPHA'')) demo_hidden) =
    (if has_flow_tag (ev_detail (demo_sa (lit ''ALPHA''))) (rt_server_id demo_router)
     then demo_hidden\<lparr>sv_metrics := (sv_metrics demo_hidden)\<lparr>m_dropped_flowtag := counter_incr (m_dropped_flowtag (sv_metrics demo_hidden))\<rparr>\<rparr>
     else demo_hidden\<lparr>sv_metrics := (sv_metrics demo_hidden)\<lparr>m_dropped_incognito := counter_incr (m_dropped_incognito (sv_metrics demo_hidden))\<rparr>\<rparr>)"
proof (rule incognito_is_silent)
  show "hub_get (sv_hub demo_hidden) (ConnId 1) = Some ((demo_sub 1 (lit ''ALPHA''))\<lparr>sub_incognito := True\<rparr>)"
    by (simp add: demo_hidden_get)
  show "\<not> ev_is_control (demo_sa (lit ''ALPHA''))" by code_simp
  have "read_marti (ev_detail (demo_sa (lit ''ALPHA''))) = []" by code_simp
  then show "\<forall>d \<in> set (read_marti (ev_detail (demo_sa (lit ''ALPHA'')))). dest_callsign d = None" by simp
qed simp

end
