(* ===== verification/Notify.thy ===== *)
theory Notify
  imports Routing_Props
begin

text \<open>
  Telling connected clients something that did not arrive on the wire
  (\<open>rustak-server/src/stream/notify.rs\<close>), and filling a new client's map
  (\<open>rustak-server/src/stream/replay.rs\<close>).  Each operation reads the registry once per question and
  sends into the connections' cells; \<open>clock\<close> is the wall clock of the message constructors.
\<close>

section \<open>Sending\<close>

fun deliver_loop :: "'c chan_lib \<Rightarrow> event \<Rightarrow> conn_handle list \<Rightarrow> nat \<Rightarrow> 'c cells \<Rightarrow> nat \<times> 'c cells" where
  "deliver_loop TX e [] n cells = (n, cells)"
| "deliver_loop TX e (h # hs) n cells =
     (case handle_send TX h (OutEvent e) cells of
        (r, cells) \<Rightarrow> deliver_loop TX e hs (if r = Sent then n + 1 else n) cells)"

definition deliver :: "'c chan_lib \<Rightarrow> conn_handle list \<Rightarrow> event \<Rightarrow> 'c cells \<Rightarrow> nat \<times> 'c cells" where
  "deliver TX handles e cells = (if handles = [] then (0, cells) else deliver_loop TX e handles 0 cells)"

definition send_to_uid :: "'c chan_lib \<Rightarrow> ustr \<Rightarrow> event \<Rightarrow> hub \<Rightarrow> 'c cells \<Rightarrow> nat \<times> 'c cells" where
  "send_to_uid TX uid e hb cells = deliver TX (handles_for_uid uid hb) e cells"

definition send_to_user :: "'c chan_lib \<Rightarrow> ustr \<Rightarrow> event \<Rightarrow> hub \<Rightarrow> 'c cells \<Rightarrow> nat \<times> 'c cells" where
  "send_to_user TX username e hb cells = deliver TX (handles_for_user username hb) e cells"

definition handles_for_uids :: "ustr list \<Rightarrow> hub \<Rightarrow> conn_handle list" where
  "handles_for_uids uids hb =
     foldl (\<lambda>handles uid.
       foldl (\<lambda>handles h. if list_ex (\<lambda>held. h_id held = h_id h) handles then handles else handles @ [h])
         handles (handles_for_uid uid hb)) [] uids"

definition send_to_uids :: "'c chan_lib \<Rightarrow> ustr list \<Rightarrow> event \<Rightarrow> hub \<Rightarrow> 'c cells \<Rightarrow> nat \<times> 'c cells" where
  "send_to_uids TX uids e hb cells = deliver TX (handles_for_uids uids hb) e cells"

definition broadcast_uids :: "ustr list \<Rightarrow> ustr option \<Rightarrow> hub \<Rightarrow> ustr list" where
  "broadcast_uids groups except_uid hb =
     (let everyone = ANON \<in> set groups
      in map cep_uid
           (filter (\<lambda>peer. everyone \<or> list_ex (\<lambda>held. held \<in> set groups) (cep_groups peer))
             (filter (\<lambda>peer. Some (cep_uid peer) \<noteq> except_uid) (snapshot hb))))"

definition broadcast_to_groups :: "'c chan_lib \<Rightarrow> ustr list \<Rightarrow> ustr option \<Rightarrow> event \<Rightarrow> hub \<Rightarrow> 'c cells \<Rightarrow> nat \<times> 'c cells" where
  "broadcast_to_groups TX groups except_uid e hb cells =
     send_to_uids TX (broadcast_uids groups except_uid hb) e hb cells"

definition send_to_conn :: "'c chan_lib \<Rightarrow> conn_id \<Rightarrow> event \<Rightarrow> hub \<Rightarrow> 'c cells \<Rightarrow> bool \<times> 'c cells" where
  "send_to_conn TX i e hb cells =
     (case hub_handle i hb of
        Some h \<Rightarrow> (case deliver TX [h] e cells of (n, cells) \<Rightarrow> (n = 1, cells))
      | None \<Rightarrow> (False, cells))"

definition send_reachable_from :: "'c chan_lib \<Rightarrow> conn_id \<Rightarrow> bool \<Rightarrow> event \<Rightarrow> hub \<Rightarrow> 'c cells \<Rightarrow> nat \<times> 'c cells" where
  "send_reachable_from TX i exclude_self e hb cells = deliver TX (reachable_from i exclude_self hb) e cells"

definition disconnect_by_fingerprint :: "'c chan_lib \<Rightarrow> ustr \<Rightarrow> hub \<Rightarrow> 'c cells \<Rightarrow> nat \<times> 'c cells" where
  "disconnect_by_fingerprint TX fp hb cells =
     (let handles = handles_for_fingerprint fp hb
      in (length handles, foldl (\<lambda>cells h. handle_close TX Revoked h cells) cells handles))"

section \<open>Notices\<close>

definition on_disconnect :: "'c chan_lib \<Rightarrow> hub \<Rightarrow> subscription \<Rightarrow> cot_time \<Rightarrow> ustr \<Rightarrow> cot_time \<Rightarrow> 'c cells \<Rightarrow> nat \<times> 'c cells" where
  "on_disconnect TX hb gone clock uid now cells =
     (case (sub_client_uid gone, sub_callsign gone) of
        (Some client_uid, Some _) \<Rightarrow>
          let last_sa_type = (case sub_last_sa_type gone of Some t \<Rightarrow> t | None \<Rightarrow> lit ''a-f-G'');
              notice = disconnect clock uid client_uid last_sa_type now
          in deliver TX (handles_reachable_by (sub_principal gone) (Some (sub_id gone)) hb) notice cells
      | _ \<Rightarrow> (0, cells))"

definition on_groups_changed :: "'c chan_lib \<Rightarrow> hub \<Rightarrow> ustr \<Rightarrow> ustr option \<Rightarrow> cot_time \<Rightarrow> ustr \<Rightarrow> cot_time \<Rightarrow> 'c cells \<Rightarrow> nat \<times> 'c cells" where
  "on_groups_changed TX hb username originating clock uid now cells =
     (let handles = (case originating of
            Some device \<Rightarrow>
              let excluded = map h_id (handles_for_uid device hb)
              in filter (\<lambda>h. h_id h \<notin> set excluded) (handles_for_user username hb)
          | None \<Rightarrow> handles_for_user username hb);
          notice = group_change clock (group_change_uid uid originating) now
      in deliver TX handles notice cells)"

section \<open>Replay\<close>

text \<open>
  A replayed message waits for room until the deadline: each step of the loop is given whether the
  connection was already closing and how the wait ended.
\<close>

fun replay_loop :: "'c chan_lib \<Rightarrow> (nat \<Rightarrow> bool \<times> 'c replay_outcome) \<Rightarrow> conn_handle \<Rightarrow> event list \<Rightarrow> nat \<Rightarrow> 'c cells \<Rightarrow> nat \<times> 'c cells" where
  "replay_loop TX waits h [] sent cells = (sent, cells)"
| "replay_loop TX waits h (e # es) sent cells =
     (case waits sent of (closing, outcome) \<Rightarrow>
        if closing then (sent, cells)
        else case handle_send_replay TX outcome h (OutEvent e) cells of
          (r, cells) \<Rightarrow> if r = Sent then replay_loop TX waits h es (sent + 1) cells else (sent, cells))"

definition replay_latest_sa :: "'c chan_lib \<Rightarrow> (nat \<Rightarrow> bool \<times> 'c replay_outcome) \<Rightarrow> hub \<Rightarrow> conn_id \<Rightarrow> 'c cells \<Rightarrow> stream_metrics \<Rightarrow> nat \<times> 'c cells \<times> stream_metrics" where
  "replay_latest_sa TX waits hb i cells m =
     (case hub_handle i hb of
        None \<Rightarrow> (0, cells, m)
      | Some h \<Rightarrow>
          let events = latest_sa_for i hb; wanted = length events
          in case replay_loop TX waits h events 0 cells of
               (sent, cells) \<Rightarrow>
                 let missing = wanted - sent
                 in (sent, cells,
                     if missing = 0 then m
                     else m\<lparr>m_replay_dropped := counter_add (m_replay_dropped m) missing\<rparr>))"

section \<open>A delivery is a fan-out\<close>

lemma deliver_loop_fan: "\<exists>m'. fan_loop TX e hs n cells m = (fst (deliver_loop TX e hs n cells), snd (deliver_loop TX e hs n cells), m')"
proof (induction hs arbitrary: n cells m)
  case (Cons h hs)
  obtain r c where "handle_send TX h (OutEvent e) cells = (r, c)" by force
  then show ?case using Cons.IH by (cases r) simp_all
qed simp

lemma deliver_result:
  assumes "distinct (map h_id hs)" and "deliver TX hs e cells = (n, cells')"
  shows "n = sent_to TX e cells hs \<and> queued_once TX e hs cells cells'"
proof (cases "hs = []")
  case True
  with assms show ?thesis by (auto simp: deliver_def sent_to_def queued_once_def)
next
  case False
  with assms(2) obtain m' where l: "fan_loop TX e hs 0 cells metrics_new = (n, cells', m')"
    using deliver_loop_fan [of TX e hs 0 cells metrics_new] by (auto simp: deliver_def)
  from fan_loop_result [OF assms(1) l] fan_loop_queued [OF assms(1) l] show ?thesis by simp
qed

section \<open>Who is meant\<close>

lemma set_registry_handles:
  "h \<in> set (registry_handles ids (hub_reg hb)) \<longleftrightarrow> (\<exists>i \<in> set ids. \<exists>c. hub_get hb i = Some c \<and> h = sub_handle c)"
  by (induction ids) (auto simp: registry_handles_def hub_get_def hub_conns_def split: option.split)

lemma handles_for_uid_iff:
  assumes "hub_ok hb"
  shows "h \<in> set (handles_for_uid u hb) \<longleftrightarrow> (\<exists>c. handle_of hb h c \<and> sub_client_uid c = Some u)"
proof -
  have "h \<in> set (handles_for_uid u hb) \<longleftrightarrow>
      (\<exists>i c. (\<exists>ids. index_lookup ByUid (hub_reg hb) u = Some ids \<and> i \<in> set ids) \<and> hub_get hb i = Some c \<and> h = sub_handle c)"
    by (cases "by_uid (hub_reg hb) u") (auto simp: handles_for_uid_def set_registry_handles index_lookup_def)
  also have "\<dots> \<longleftrightarrow> (\<exists>c. handle_of hb h c \<and> sub_client_uid c = Some u)"
    using hub_getD [OF assms] by (auto simp: lookup_iff [OF assms] name_in_def handle_of_def)
  finally show ?thesis .
qed

lemma distinct_registry_handles:
  assumes "hub_ok hb"
  shows "distinct ids \<Longrightarrow> distinct (map h_id (registry_handles ids (hub_reg hb)))"
proof (induction ids)
  case (Cons i ids)
  have "h_id h \<in> set ids" if "h \<in> set (registry_handles ids (hub_reg hb))" for h
    using that hub_getD [OF assms] by (auto simp: set_registry_handles)
  moreover have "registry_handles (i # ids) (hub_reg hb) =
      (case hub_get hb i of None \<Rightarrow> [] | Some c \<Rightarrow> [sub_handle c]) @ registry_handles ids (hub_reg hb)"
    by (simp add: registry_handles_def hub_get_def hub_conns_def split: option.split)
  ultimately show ?case
    using Cons hub_getD [OF assms, of i] by (cases "hub_get hb i") auto
qed (simp add: registry_handles_def)

lemma handles_for_uid_distinct:
  assumes "hub_ok hb"
  shows "distinct (map h_id (handles_for_uid u hb))"
proof (cases "by_uid (hub_reg hb) u")
  case (Some ids)
  moreover have "index_ok (names_by sub_client_uid (hub_reg hb)) (by_uid (hub_reg hb))"
    using assms by (simp add: hub_ok_def registry_ok_def)
  ultimately have "distinct ids" using index_ok_SomeD by blast
  with Some distinct_registry_handles [OF assms] show ?thesis by (simp add: handles_for_uid_def)
qed (simp add: handles_for_uid_def)

lemma same_handle: "handle_of hb h c \<Longrightarrow> handle_of hb g d \<Longrightarrow> h_id h = h_id g \<Longrightarrow> h = g \<and> c = d"
  by (metis handle_of_def option.inject)

text \<open>The loop of \<open>send_to_uids\<close> is the one that gathers a message's recipients.\<close>

lemma handles_for_uids_gathers:
  "handles_for_uids uids hb = foldl extend_handles [] (map (\<lambda>u. handles_for_uid u hb) uids)"
  by (simp add: handles_for_uids_def extend_handles_def foldl_map)

lemma gather_ids:
  "h_id ` set (foldl extend_handles hs ls) = h_id ` set hs \<union> (\<Union>l \<in> set ls. h_id ` set l)"
  by (induction ls arbitrary: hs) (auto simp: ids_extend_handles)

lemma gather_set: "set (foldl extend_handles hs ls) \<subseteq> set hs \<union> (\<Union>l \<in> set ls. set l)"
proof (induction ls arbitrary: hs)
  case (Cons l ls)
  from Cons.IH [of "extend_handles hs l"] set_extend_handles [of hs l] show ?case by auto
qed simp

lemma gather_distinct: "distinct (map h_id hs) \<Longrightarrow> distinct (map h_id (foldl extend_handles hs ls))"
  by (induction ls arbitrary: hs) (simp_all add: distinct_extend_handles)

lemma handles_for_uids_iff:
  assumes "hub_ok hb"
  shows "h \<in> set (handles_for_uids us hb) \<longleftrightarrow> (\<exists>c. handle_of hb h c \<and> (\<exists>u \<in> set us. sub_client_uid c = Some u))"
    and "distinct (map h_id (handles_for_uids us hb))"
proof -
  let ?ls = "map (\<lambda>u. handles_for_uid u hb) us"
  have mem: "g \<in> \<Union> (set ` set ?ls) \<longleftrightarrow> (\<exists>c. handle_of hb g c \<and> (\<exists>u \<in> set us. sub_client_uid c = Some u))" for g
    using handles_for_uid_iff [OF assms] by auto
  have "h \<in> set (foldl extend_handles [] ?ls)" if "h \<in> \<Union> (set ` set ?ls)"
  proof -
    have "h_id h \<in> h_id ` set (foldl extend_handles [] ?ls)" using that by (auto simp: gather_ids)
    then obtain g where g: "g \<in> set (foldl extend_handles [] ?ls)" "h_id h = h_id g" by auto
    then have "g \<in> \<Union> (set ` set ?ls)" using gather_set [of "[]" ?ls] by auto
    with that g(2) have "h = g" unfolding mem using same_handle by blast
    with g show ?thesis by simp
  qed
  then show "h \<in> set (handles_for_uids us hb) \<longleftrightarrow> (\<exists>c. handle_of hb h c \<and> (\<exists>u \<in> set us. sub_client_uid c = Some u))"
    using gather_set [of "[]" ?ls] mem [of h] unfolding handles_for_uids_gathers by auto
  show "distinct (map h_id (handles_for_uids us hb))"
    unfolding handles_for_uids_gathers by (rule gather_distinct) simp
qed

lemma endpoint_ex:
  "(\<exists>p. sub_endpoint c = Some p \<and> Q (cep_uid p) (cep_groups p)) \<longleftrightarrow>
     (\<exists>u. sub_client_uid c = Some u \<and> sub_callsign c \<noteq> None \<and> Q u (sub_groups c))"
  by (auto simp: sub_endpoint_def split: option.split)

lemma set_snapshot:
  assumes "hub_ok hb"
  shows "p \<in> set (snapshot hb) \<longleftrightarrow> (\<exists>i c. hub_get hb i = Some c \<and> sub_endpoint c = Some p)"
proof -
  have "c \<in> set (hub_values hb) \<longleftrightarrow> (\<exists>i. hub_get hb i = Some c)" for c
    using set_hub_values [OF assms] hub_getD [OF assms] by metis
  then show ?thesis
    by (simp add: snapshot_def List.map_filter_def image_iff Bex_def) (metis option.sel option.discI)
qed

lemma set_broadcast_uids:
  assumes "hub_ok hb"
  shows "u \<in> set (broadcast_uids groups ex hb) \<longleftrightarrow> Some u \<noteq> ex \<and>
    (\<exists>i c. hub_get hb i = Some c \<and> sub_client_uid c = Some u \<and> sub_callsign c \<noteq> None \<and>
      (ANON \<in> set groups \<or> set (sub_groups c) \<inter> set groups \<noteq> {}))"
proof -
  let ?Q = "\<lambda>v gs. v = u \<and> Some u \<noteq> ex \<and> (ANON \<in> set groups \<or> set gs \<inter> set groups \<noteq> {})"
  have "u \<in> set (broadcast_uids groups ex hb) \<longleftrightarrow> (\<exists>p \<in> set (snapshot hb). ?Q (cep_uid p) (cep_groups p))"
    by (auto simp: broadcast_uids_def Let_def image_iff list_ex_iff)
  also have "\<dots> \<longleftrightarrow> (\<exists>i c. hub_get hb i = Some c \<and> (\<exists>p. sub_endpoint c = Some p \<and> ?Q (cep_uid p) (cep_groups p)))"
    unfolding Bex_def set_snapshot [OF assms] by blast
  also have "\<dots> \<longleftrightarrow> (\<exists>i c. hub_get hb i = Some c \<and> (\<exists>v. sub_client_uid c = Some v \<and> sub_callsign c \<noteq> None \<and> ?Q v (sub_groups c)))"
    by (simp only: endpoint_ex [of _ ?Q])
  finally show ?thesis by simp blast
qed

lemma close_all:
  "distinct (map h_id hs) \<Longrightarrow>
     (j \<notin> h_id ` set hs \<longrightarrow> foldl (\<lambda>cells h. handle_close TX r h cells) cells hs j = cells j) \<and>
     (j \<in> h_id ` set hs \<longrightarrow>
       cell_closing (foldl (\<lambda>cells h. handle_close TX r h cells) cells hs j) \<and>
       cell_liveness (foldl (\<lambda>cells h. handle_close TX r h cells) cells hs j) = snd (ended r (cell_liveness (cells j))))"
proof (induction hs arbitrary: cells)
  case (Cons h hs)
  have "handle_close TX r h cells j = cells j" if "j \<noteq> h_id h"
    using that by (simp add: handle_close_def Let_def case_prod_beta)
  moreover have "cell_closing (handle_close TX r h cells (h_id h))"
    "cell_liveness (handle_close TX r h cells (h_id h)) = snd (ended r (cell_liveness (cells (h_id h))))"
    by (simp_all add: handle_close_def Let_def case_prod_beta)
  moreover note IH = Cons.IH [of "handle_close TX r h cells"]
  ultimately show ?case
  proof (cases "j = h_id h")
    case True
    then have "j \<notin> h_id ` set hs" using Cons.prems by auto
    with IH Cons.prems True show ?thesis by (simp add: handle_close_def Let_def case_prod_beta)
  next
    case False
    then have "handle_close TX r h cells j = cells j" by (simp add: handle_close_def Let_def case_prod_beta)
    with IH Cons.prems False show ?thesis by simp
  qed
qed simp

lemma handles_distinct:
  assumes "hub_ok hb"
  shows "distinct (map h_id (handles_for_user u hb))" and "distinct (map h_id (handles_for_fingerprint fp hb))"
    and "distinct (map h_id (handles_reachable_by p ex hb))"
proof -
  have "distinct (map h_id (map sub_handle (filter P (hub_values hb))))" for P
    using distinct_handles [OF assms, of P] by simp
  from this [of "\<lambda>s. pr_username (sub_principal s) = u"] this [of "\<lambda>s. sub_fingerprint s = fp"]
    this [of "\<lambda>c. can_reach (pr_groups p) (pr_groups (sub_principal c)) \<and> Some (sub_id c) \<noteq> ex"]
  show "distinct (map h_id (handles_for_user u hb))" and "distinct (map h_id (handles_for_fingerprint fp hb))"
    and "distinct (map h_id (handles_reachable_by p ex hb))"
    by (simp_all add: handles_for_user_def handles_for_fingerprint_def handles_reachable_by_def conj_commute)
qed

section \<open>Properties\<close>

text \<open>C27: a mission notice goes, once each, to exactly the connections that claim the uid of some
  identified connection in one of the channels (any identified connection when the anonymous channel
  is among them), never to a connection claiming the uid of whoever made the change; the number
  returned is the number of queues that took it.\<close>

theorem group_broadcast_recipients:
  assumes "hub_reach (hb, P)" and "broadcast_to_groups TX groups except_uid e hb cells = (n, cells')"
  shows "\<exists>hs. n = sent_to TX e cells hs \<and> queued_once TX e hs cells cells' \<and> distinct (map h_id hs) \<and>
    set hs = {h. \<exists>c u. handle_of hb h c \<and> sub_client_uid c = Some u \<and> Some u \<noteq> except_uid \<and>
      (\<exists>j d. hub_get hb j = Some d \<and> sub_client_uid d = Some u \<and> sub_callsign d \<noteq> None \<and>
        (ANON \<in> set groups \<or> set (sub_groups d) \<inter> set groups \<noteq> {}))}"
proof -
  have ok: "hub_ok hb" using hub_reach_ok [OF assms(1)] by simp
  let ?hs = "handles_for_uids (broadcast_uids groups except_uid hb) hb"
  have "n = sent_to TX e cells ?hs \<and> queued_once TX e ?hs cells cells'"
    using assms(2) by (intro deliver_result handles_for_uids_iff(2) [OF ok])
      (simp add: broadcast_to_groups_def send_to_uids_def)
  moreover have "set ?hs = {h. \<exists>c u. handle_of hb h c \<and> sub_client_uid c = Some u \<and> Some u \<noteq> except_uid \<and>
      (\<exists>j d. hub_get hb j = Some d \<and> sub_client_uid d = Some u \<and> sub_callsign d \<noteq> None \<and>
        (ANON \<in> set groups \<or> set (sub_groups d) \<inter> set groups \<noteq> {}))}"
    by (simp add: set_eq_iff handles_for_uids_iff [OF ok] Bex_def set_broadcast_uids [OF ok]) blast
  ultimately show ?thesis using handles_for_uids_iff(2) [OF ok] by blast
qed

theorem group_broadcast_recipients_witness:
  "\<exists>n (cells' :: outbound list cells) hs. n = sent_to list_chan (demo_sa (lit ''ALPHA'')) demo_cells hs \<and>
    queued_once list_chan (demo_sa (lit ''ALPHA'')) hs demo_cells cells' \<and> h_id ` set hs = {ConnId 2}"
proof -
  obtain n and cells' :: "outbound list cells" where
    run: "broadcast_to_groups list_chan [ANON] (Some (lit ''ALPHA'')) (demo_sa (lit ''ALPHA'')) demo_hub demo_cells = (n, cells')"
    by force
  from group_broadcast_recipients [OF demo_reach run] obtain hs where
    q: "n = sent_to list_chan (demo_sa (lit ''ALPHA'')) demo_cells hs"
      "queued_once list_chan (demo_sa (lit ''ALPHA'')) hs demo_cells cells'"
    and hs: "set hs = {h. \<exists>c u. handle_of demo_hub h c \<and> sub_client_uid c = Some u \<and> Some u \<noteq> Some (lit ''ALPHA'') \<and>
      (\<exists>j d. hub_get demo_hub j = Some d \<and> sub_client_uid d = Some u \<and> sub_callsign d \<noteq> None \<and>
        (ANON \<in> set [ANON] \<or> set (sub_groups d) \<inter> set [ANON] \<noteq> {}))}"
    by blast
  have "set hs = {sub_handle (demo_sub 2 (lit ''BRAVO''))}"
    unfolding hs by (auto simp: handle_of_def demo_get split: if_splits)
  then have "h_id ` set hs = {ConnId 2}" by simp
  with q show ?thesis by blast
qed

text \<open>What a departure notice comes to.\<close>

lemma departure_exact:
  assumes "hub_ok hb" and "unregister i hb = (Some gone, changes, hb')"
    and "on_disconnect TX hb' gone clock uid now cells = (n, cells')"
  shows "cells' i = cells i \<and>
    (if sub_client_uid gone = None \<or> sub_callsign gone = None then n = 0 \<and> cells' = cells
     else \<exists>notice hs. ev_type notice = DISCONNECT \<and> n = sent_to TX notice cells hs \<and>
       queued_once TX notice hs cells cells' \<and> distinct (map h_id hs) \<and>
       set hs = {h. h_id h \<noteq> i \<and> (\<exists>c. hub_get hb (h_id h) = Some c \<and> sub_handle c = h \<and> sub_reaches gone c)})"
proof -
  have ok: "hub_ok hb'" using unregister_ok [of hb i] assms(1,2) by simp
  have get: "hub_get hb' = (hub_get hb)(i := None)" and gone: "hub_get hb i = Some gone"
    using unregister_sel [of i hb] assms(2) by simp_all
  have id: "sub_id gone = i" using hub_getD [OF assms(1) gone] by simp
  let ?hs = "handles_reachable_by (sub_principal gone) (Some (sub_id gone)) hb'"
  have hs: "set ?hs = {h. h_id h \<noteq> i \<and> (\<exists>c. hub_get hb (h_id h) = Some c \<and> sub_handle c = h \<and> sub_reaches gone c)}"
    by (auto simp: handles_reachable_by_iff [OF ok] handle_of_def get id sub_reaches_def)
  show ?thesis
  proof (cases "sub_client_uid gone = None \<or> sub_callsign gone = None")
    case True
    with assms(3) show ?thesis by (auto simp: on_disconnect_def split: option.splits)
  next
    case False
    then obtain u c where "sub_client_uid gone = Some u" "sub_callsign gone = Some c" by auto
    with assms(3) obtain t where d: "deliver TX ?hs (disconnect clock uid u t now) cells = (n, cells')"
      by (auto simp: on_disconnect_def Let_def)
    let ?notice = "disconnect clock uid u t now"
    have ty: "ev_type ?notice = DISCONNECT" by (simp add: disconnect_def b_push_def)
    from deliver_result [OF handles_distinct(3) [OF ok] d] have q: "n = sent_to TX ?notice cells ?hs \<and> queued_once TX ?notice ?hs cells cells'" .
    moreover have "i \<notin> h_id ` set ?hs" by (auto simp: hs)
    ultimately have "cells' i = cells i" by (simp add: queued_once_def)
    moreover have "\<exists>notice hs. ev_type notice = DISCONNECT \<and> n = sent_to TX notice cells hs \<and>
       queued_once TX notice hs cells cells' \<and> distinct (map h_id hs) \<and>
       set hs = {h. h_id h \<noteq> i \<and> (\<exists>c. hub_get hb (h_id h) = Some c \<and> sub_handle c = h \<and> sub_reaches gone c)}"
      using q ty hs handles_distinct(3) [OF ok] by blast
    ultimately show ?thesis unfolding if_not_P [OF False] by blast
  qed
qed

text \<open>C26: the departure notice is right: it is sent only for a connection that had announced itself,
  once to exactly the connections still there that its channels reached, and never to the connection
  that left.\<close>

theorem departure_notice_exact:
  assumes "hub_reach (hb, P)" and "unregister i hb = (Some gone, changes, hb')"
    and "on_disconnect TX hb' gone clock uid now cells = (n, cells')"
  shows "cells' i = cells i \<and>
    (if sub_client_uid gone = None \<or> sub_callsign gone = None then n = 0 \<and> cells' = cells
     else \<exists>notice hs. ev_type notice = DISCONNECT \<and> n = sent_to TX notice cells hs \<and>
       queued_once TX notice hs cells cells' \<and> distinct (map h_id hs) \<and>
       set hs = {h. h_id h \<noteq> i \<and> (\<exists>c. hub_get hb (h_id h) = Some c \<and> sub_handle c = h \<and> sub_reaches gone c)})"
proof -
  have "hub_ok hb" using hub_reach_ok [OF assms(1)] by simp
  from departure_exact [OF this assms(2,3)] show ?thesis .
qed

theorem departure_notice_exact_witness:
  "\<exists>changes hb' n (cells' :: outbound list cells) notice.
    unregister (ConnId 1) demo_hub = (Some (demo_sub 1 (lit ''ALPHA'')), changes, hb') \<and>
    ev_type notice = DISCONNECT \<and> cells' (ConnId 1) = demo_cells (ConnId 1) \<and>
    cells' (ConnId 2) = snd (handle_send list_chan (sub_handle (demo_sub 2 (lit ''BRAVO''))) (OutEvent notice) demo_cells) (ConnId 2)"
proof -
  let ?s = "demo_sub 1 (lit ''ALPHA'')" and ?h = "sub_handle (demo_sub 2 (lit ''BRAVO''))"
  obtain changes hb' where u: "unregister (ConnId 1) demo_hub = (Some ?s, changes, hb')"
    using unregister_sel(1) [of "ConnId 1" demo_hub] by (cases "unregister (ConnId 1) demo_hub") (auto simp: demo_get)
  obtain n and cells' :: "outbound list cells" where
    run: "on_disconnect list_chan hb' ?s 0 (lit ''u'') 0 demo_cells = (n, cells')" by force
  from departure_notice_exact [OF demo_reach u run] obtain notice hs where
    q: "cells' (ConnId 1) = demo_cells (ConnId 1)" "ev_type notice = DISCONNECT" "queued_once list_chan notice hs demo_cells cells'"
    and hs: "set hs = {h. h_id h \<noteq> ConnId 1 \<and> (\<exists>c. hub_get demo_hub (h_id h) = Some c \<and> sub_handle c = h \<and> sub_reaches ?s c)}"
    by auto
  have "?h \<in> set hs" unfolding hs using demo_reaches(2) [of 1 _ 2] by (simp add: demo_get)
  then have "cells' (ConnId 2) = snd (handle_send list_chan ?h (OutEvent notice) demo_cells) (ConnId 2)"
    using q(3) unfolding queued_once_def by (metis demo_sub_sel(2))
  with u q show ?thesis by blast
qed

text \<open>A change of channels is told to the account's other devices only: no connection claiming the
  uid of the device that made the change is touched, every other connection of the account is told
  once, and nobody else is.\<close>

theorem channel_change_spares_the_author:
  assumes "hub_reach (hb, P)"
    and "on_groups_changed TX hb username (Some device) clock uid now cells = (n, cells')"
  shows "(\<forall>j c. hub_get hb j = Some c \<longrightarrow>
      sub_client_uid c = Some device \<or> pr_username (sub_principal c) \<noteq> username \<longrightarrow> cells' j = cells j) \<and>
    (\<exists>notice. ev_type notice = GROUP_CHANGE \<and> (\<forall>j c. hub_get hb j = Some c \<longrightarrow>
      sub_client_uid c \<noteq> Some device \<longrightarrow> pr_username (sub_principal c) = username \<longrightarrow>
      cells' j = snd (handle_send TX (sub_handle c) (OutEvent notice) cells) j))"
proof -
  have ok: "hub_ok hb" using hub_reach_ok [OF assms(1)] by simp
  let ?hs = "filter (\<lambda>h. h_id h \<notin> h_id ` set (handles_for_uid device hb)) (handles_for_user username hb)"
  let ?notice = "group_change clock (group_change_uid uid (Some device)) now"
  have "deliver TX ?hs ?notice cells = (n, cells')" using assms(2) by (simp add: on_groups_changed_def Let_def)
  moreover have "distinct (map h_id ?hs)"
    using handles_distinct(1) [OF ok, of username] by (simp add: distinct_map_filter)
  ultimately have q: "queued_once TX ?notice ?hs cells cells'" using deliver_result by blast
  have mem: "h \<in> set ?hs \<longleftrightarrow> (\<exists>c. handle_of hb h c \<and> pr_username (sub_principal c) = username \<and> sub_client_uid c \<noteq> Some device)" for h
    unfolding set_filter mem_Collect_eq handles_for_user_iff [OF ok] image_iff Bex_def handles_for_uid_iff [OF ok]
    by (metis same_handle)
  have "cells' j = cells j" if "hub_get hb j = Some c" "sub_client_uid c = Some device \<or> pr_username (sub_principal c) \<noteq> username" for j c
  proof -
    have "j \<notin> h_id ` set ?hs"
    proof
      assume "j \<in> h_id ` set ?hs"
      then obtain h where "h \<in> set ?hs" "j = h_id h" by blast
      with that mem [of h] show False by (auto simp: handle_of_def)
    qed
    with q show ?thesis unfolding queued_once_def by blast
  qed
  moreover have "cells' j = snd (handle_send TX (sub_handle c) (OutEvent ?notice) cells) j"
    if "hub_get hb j = Some c" "sub_client_uid c \<noteq> Some device" "pr_username (sub_principal c) = username" for j c
  proof -
    have "sub_handle c \<in> set ?hs" "h_id (sub_handle c) = j"
      using that hub_getD [OF ok that(1)] unfolding mem by (auto simp: handle_of_def)
    with q show ?thesis unfolding queued_once_def by blast
  qed
  moreover have "ev_type ?notice = GROUP_CHANGE" by (simp add: group_change_def b_push_def)
  ultimately show ?thesis by blast
qed

theorem channel_change_spares_the_author_witness:
  "\<exists>n (cells' :: outbound list cells).
    on_groups_changed list_chan demo_hub (lit ''BRAVO'') (Some (lit ''BRAVO'')) 0 (lit ''u'') 0 demo_cells = (n, cells') \<and>
    cells' (ConnId 1) = demo_cells (ConnId 1) \<and> cells' (ConnId 2) = demo_cells (ConnId 2)"
proof -
  obtain n and cells' :: "outbound list cells" where
    run: "on_groups_changed list_chan demo_hub (lit ''BRAVO'') (Some (lit ''BRAVO'')) 0 (lit ''u'') 0 demo_cells = (n, cells')"
    by force
  have "pr_username (sub_principal (demo_sub 1 (lit ''ALPHA''))) \<noteq> lit ''BRAVO''"
    by (simp add: demo_sub_def subscription_new_def with_groups_def principal_new_def lit_def)
  then show ?thesis
    using channel_change_spares_the_author [OF demo_reach run] run by (auto simp: demo_get)
qed

text \<open>C24: revoking a certificate ends exactly its connections: each is told to stop and keeps, as the
  reason, the first one given (the revocation, when it was still alive); no other connection is
  touched and the number reported is their number.\<close>

theorem revocation_ends_its_connections:
  assumes "hub_reach (hb, P)" and "disconnect_by_fingerprint TX fp hb cells = (n, cells')"
  shows "n = card {j. \<exists>c. hub_get hb j = Some c \<and> sub_fingerprint c = fp} \<and>
    (\<forall>j. if \<exists>c. hub_get hb j = Some c \<and> sub_fingerprint c = fp
      then cell_closing (cells' j) \<and> cell_liveness (cells' j) = snd (ended Revoked (cell_liveness (cells j)))
      else cells' j = cells j)"
proof -
  have ok: "hub_ok hb" using hub_reach_ok [OF assms(1)] by simp
  let ?hs = "handles_for_fingerprint fp hb"
  have ids: "h_id ` set ?hs = {j. \<exists>c. hub_get hb j = Some c \<and> sub_fingerprint c = fp}"
    unfolding set_eq_iff image_iff Bex_def handles_for_fingerprint_iff [OF ok] handle_of_def mem_Collect_eq
    by (metis hub_getD [OF ok])
  have d: "distinct (map h_id ?hs)" by (rule handles_distinct(2) [OF ok])
  then have "length ?hs = card (h_id ` set ?hs)" by (metis distinct_card length_map set_map)
  with assms(2) ids close_all [OF d, of _ TX Revoked cells] show ?thesis
    by (auto simp: disconnect_by_fingerprint_def Let_def)
qed

theorem revocation_ends_its_connections_witness:
  "\<exists>n (cells' :: outbound list cells).
    disconnect_by_fingerprint list_chan [] demo_hub demo_cells = (n, cells') \<and>
    cell_closing (cells' (ConnId 1)) \<and> cells' (ConnId 3) = demo_cells (ConnId 3)"
proof -
  obtain n and cells' :: "outbound list cells" where
    run: "disconnect_by_fingerprint list_chan [] demo_hub demo_cells = (n, cells')" by force
  have "sub_fingerprint (demo_sub 1 u) = []" for u by (simp add: demo_sub_def subscription_new_def)
  with revocation_ends_its_connections [OF demo_reach run] run show ?thesis
    by (auto simp: demo_get split: if_splits dest!: spec [of _ "ConnId 1"])
qed

section \<open>Replay\<close>

lemma replay_loop_result:
  "replay_loop TX waits h es k cells = (sent, cells') \<Longrightarrow>
   k \<le> sent \<and> sent \<le> k + length es \<and> (\<forall>j. j \<noteq> h_id h \<longrightarrow> cells' j = cells j) \<and>
   cell_closing (cells' (h_id h)) = cell_closing (cells (h_id h)) \<and>
   cell_liveness (cells' (h_id h)) = cell_liveness (cells (h_id h)) \<and>
   cs_dropped (cell_stats (cells' (h_id h))) = cs_dropped (cell_stats (cells (h_id h))) \<and>
   cs_dropped_consecutive (cell_stats (cells' (h_id h))) = cs_dropped_consecutive (cell_stats (cells (h_id h))) \<and>
   ((\<forall>n. \<exists>chan. waits n = (False, Room chan)) \<longrightarrow> sent = k + length es)"
proof (induction es arbitrary: k cells)
  case (Cons e es)
  obtain closing outcome where w: "waits k = (closing, outcome)" by force
  show ?case
  proof (cases "closing \<or> (\<forall>chan. outcome \<noteq> Room chan)")
    case True
    have "outcome \<noteq> Room chan" if "\<not> closing" for chan using True that by simp
    moreover have "\<not> (\<forall>n. \<exists>chan. waits n = (False, Room chan))" using True w by (metis prod.inject)
    ultimately have "sent = k" "cells' = cells"
      using Cons.prems w by (auto simp: handle_send_replay_def Let_def split: replay_outcome.splits if_splits)
    with \<open>\<not> (\<forall>n. _ n)\<close> show ?thesis by simp
  next
    case False
    then obtain chan where o: "outcome = Room chan" and c: "\<not> closing" by blast
    obtain cells1 where s: "handle_send_replay TX outcome h (OutEvent e) cells = (Sent, cells1)"
      by (simp add: handle_send_replay_def o Let_def)
    then have l: "replay_loop TX waits h es (k + 1) cells1 = (sent, cells')" using Cons.prems w c by simp
    have "\<forall>j. j \<noteq> h_id h \<longrightarrow> cells1 j = cells j" "cell_closing (cells1 (h_id h)) = cell_closing (cells (h_id h))"
      "cell_liveness (cells1 (h_id h)) = cell_liveness (cells (h_id h))"
      "cs_dropped (cell_stats (cells1 (h_id h))) = cs_dropped (cell_stats (cells (h_id h)))"
      "cs_dropped_consecutive (cell_stats (cells1 (h_id h))) = cs_dropped_consecutive (cell_stats (cells (h_id h)))"
      using s by (auto simp: handle_send_replay_def o Let_def)
    with Cons.IH [OF l] show ?thesis by simp
  qed
qed simp

text \<open>C25: filling a new client's map cannot get it disconnected: however the waits for room end, the
  replay touches the newcomer's queue only, never counts a drop against it and never closes it; what
  it reports sent and what it adds to the counter of what was not add up to the positions the
  newcomer may see, and when there is always room all of them are sent.\<close>

theorem replay_never_disconnects:
  assumes "hub_reach (hb, P)" and "replay_latest_sa TX waits hb i cells m = (sent, cells', m')"
  shows "(\<forall>j. j \<noteq> i \<longrightarrow> cells' j = cells j) \<and> cell_closing (cells' i) = cell_closing (cells i) \<and>
    cell_liveness (cells' i) = cell_liveness (cells i) \<and>
    cs_dropped_consecutive (cell_stats (cells' i)) = cs_dropped_consecutive (cell_stats (cells i)) \<and>
    sent \<le> length (latest_sa_for i hb) \<and>
    m_replay_dropped m' mod 2 ^ 64 = (m_replay_dropped m + (length (latest_sa_for i hb) - sent)) mod 2 ^ 64 \<and>
    ((\<forall>n. \<exists>chan. waits n = (False, Room chan)) \<longrightarrow> sent = length (latest_sa_for i hb))"
proof (cases "hub_handle i hb")
  case None
  with assms(2) have "latest_sa_for i hb = []"
    by (auto simp: hub_handle_def latest_sa_for_def split: option.splits)
  with None assms(2) show ?thesis by (auto simp: replay_latest_sa_def)
next
  case (Some h)
  have ok: "hub_ok hb" using hub_reach_ok [OF assms(1)] by simp
  with Some have id: "h_id h = i" using hub_getD [OF ok] by (auto simp: hub_handle_def)
  let ?es = "latest_sa_for i hb"
  have l: "replay_loop TX waits h ?es 0 cells = (sent, cells')"
    and m: "m' = (if length ?es - sent = 0 then m
      else m\<lparr>m_replay_dropped := counter_add (m_replay_dropped m) (length ?es - sent)\<rparr>)"
    using assms(2) Some by (auto simp: replay_latest_sa_def Let_def split: prod.splits)
  show ?thesis
    using replay_loop_result [OF l] m unfolding id
    by (auto simp: counter_add_def add_u64_def)
qed

theorem replay_never_disconnects_witness:
  "\<exists>sent (cells' :: outbound list cells) m'.
    replay_latest_sa list_chan (\<lambda>n. (False, Room [])) demo_hub (ConnId 1) demo_cells metrics_new = (sent, cells', m') \<and>
    sent = length (latest_sa_for (ConnId 1) demo_hub) \<and> cells' (ConnId 2) = demo_cells (ConnId 2)"
proof -
  obtain sent m' and cells' :: "outbound list cells" where
    run: "replay_latest_sa list_chan (\<lambda>n. (False, Room [])) demo_hub (ConnId 1) demo_cells metrics_new = (sent, cells', m')"
    by (metis prod_cases3)
  with replay_never_disconnects [OF demo_reach run] show ?thesis by auto
qed

end
