(* ===== verification/Negotiation.thy ===== *)
theory Negotiation
  imports Msgs Codec
begin

text \<open>
  The one protocol offer a connection makes: the server's side
  (\<open>rustak-server/src/stream/negotiation.rs\<close>, the switch of
  \<open>rustak-server/src/config/stream.rs\<close>) and the client's
  (\<open>rustak-client/src/stream/negotiation.rs\<close>).  A run of either side is a list of calls in the order
  they happen; \<open>clock\<close> is the wall clock the message constructors read and never show.
\<close>

section \<open>The server's side\<close>

datatype negotiation_mode = Mode_Accept | Mode_Refuse | Mode_Silent

datatype neg_state = Disabled | Offered ustr | Neg_Proto | Neg_Xml

datatype intercepted = Accepted event | Refused event | Silent

record negotiation =
  neg_state :: neg_state
  neg_server_version :: ustr
  neg_configured :: negotiation_mode

definition neg_with_mode :: "negotiation_mode \<Rightarrow> ustr \<Rightarrow> negotiation" where
  "neg_with_mode md server_version =
     \<lparr>neg_state = (if md = Mode_Silent then Disabled else Neg_Xml),
      neg_server_version = server_version, neg_configured = md\<rparr>"

definition neg_mode :: "negotiation \<Rightarrow> mode" where
  "neg_mode n = (case neg_state n of Neg_Proto \<Rightarrow> Mode_Proto | _ \<Rightarrow> Mode_Xml)"

definition neg_offer :: "cot_time \<Rightarrow> ustr \<Rightarrow> cot_time \<Rightarrow> negotiation \<Rightarrow> event option \<times> negotiation" where
  "neg_offer clock uid now n =
     (if neg_state n \<noteq> Neg_Xml then (None, n)
      else (Some (announce clock uid (neg_server_version n) API_VERSION now), n\<lparr>neg_state := Offered uid\<rparr>))"

definition neg_on_event :: "cot_time \<Rightarrow> event \<Rightarrow> cot_time \<Rightarrow> negotiation \<Rightarrow> intercepted option \<times> negotiation" where
  "neg_on_event clock e now n =
     (if ev_type e \<noteq> TAKP_Q then (None, n)
      else case neg_state n of
        Offered uid \<Rightarrow>
          (case parse_request e of
             None \<Rightarrow> (Some Silent, n)
           | Some version \<Rightarrow>
               if version \<noteq> PROTO_VERSION \<or> neg_configured n = Mode_Refuse then
                 (Some (Refused (response clock uid False now)), n\<lparr>neg_state := Neg_Xml\<rparr>)
               else (Some (Accepted (response clock uid True now)), n\<lparr>neg_state := Neg_Proto\<rparr>))
      | _ \<Rightarrow> (Some Silent, n))"

section \<open>The client's side\<close>

datatype client_state = Waiting | Requested | Client_Proto | Client_Xml

definition is_quiet :: "client_state \<Rightarrow> bool" where
  "is_quiet s \<longleftrightarrow> s = Requested"

definition is_settled :: "client_state \<Rightarrow> bool" where
  "is_settled s \<longleftrightarrow> s = Client_Proto \<or> s = Client_Xml"

record client_neg =
  cn_state :: client_state
  cn_enabled :: bool
  cn_server_version :: "ustr option"

definition client_neg_new :: "bool \<Rightarrow> client_neg" where
  "client_neg_new enabled = \<lparr>cn_state = Waiting, cn_enabled = enabled, cn_server_version = None\<rparr>"

definition on_announce :: "cot_time \<Rightarrow> event \<Rightarrow> cot_time \<Rightarrow> client_neg \<Rightarrow> event option \<times> client_neg" where
  "on_announce clock e now n =
     (case parse_announce e of
        None \<Rightarrow> (None, n)
      | Some a \<Rightarrow>
          let n = (if cn_server_version n = None then n\<lparr>cn_server_version := an_server_version a\<rparr> else n)
          in if cn_state n \<noteq> Waiting then (None, n)
             else if \<not> cn_enabled n \<or> \<not> announce_supports PROTO_VERSION a then (None, n\<lparr>cn_state := Client_Xml\<rparr>)
             else (Some (request clock (ev_uid e) PROTO_VERSION now), n\<lparr>cn_state := Requested\<rparr>))"

definition on_response :: "event \<Rightarrow> client_neg \<Rightarrow> client_state option \<times> client_neg" where
  "on_response e n =
     (if cn_state n \<noteq> Requested then (None, n)
      else case parse_response e of
        None \<Rightarrow> (None, n)
      | Some accepted \<Rightarrow>
          let s = (if accepted then Client_Proto else Client_Xml) in (Some s, n\<lparr>cn_state := s\<rparr>))"

definition client_expire :: "client_neg \<Rightarrow> client_state \<times> client_neg" where
  "client_expire n =
     (let n = (if cn_state n = Requested then n\<lparr>cn_state := Client_Xml\<rparr> else n) in (cn_state n, n))"

section \<open>The life of an offer\<close>

text \<open>What one call did: an offer made (or not), or a message looked at and what came of it.\<close>

datatype neg_label = Offering ustr "event option" | Looked_At event "intercepted option"

inductive neg_step :: "negotiation \<Rightarrow> neg_label \<Rightarrow> negotiation \<Rightarrow> bool" where
  offer: "neg_offer clock uid now n = (r, n') \<Longrightarrow> neg_step n (Offering uid r) n'"
| on_event: "neg_on_event clock e now n = (r, n') \<Longrightarrow> neg_step n (Looked_At e r) n'"

inductive neg_run :: "negotiation \<Rightarrow> neg_label list \<Rightarrow> negotiation \<Rightarrow> bool" where
  idle: "neg_run n [] n"
| step: "neg_run n ls n' \<Longrightarrow> neg_step n' l n'' \<Longrightarrow> neg_run n (ls @ [l]) n''"

fun offered_uid :: "neg_label \<Rightarrow> ustr option" where
  "offered_uid (Offering uid (Some e)) = Some uid"
| "offered_uid _ = None"

fun answer_of :: "neg_label \<Rightarrow> event option" where
  "answer_of (Looked_At q (Some (Accepted a))) = Some a"
| "answer_of (Looked_At q (Some (Refused a))) = Some a"
| "answer_of _ = None"

fun is_accept :: "neg_label \<Rightarrow> bool" where
  "is_accept (Looked_At q (Some (Accepted a))) = True"
| "is_accept _ = False"

lemma map_filter_append [simp]:
  "List.map_filter f (xs @ ys) = List.map_filter f xs @ List.map_filter f ys"
  by (simp add: List.map_filter_def)

abbreviation offers :: "neg_label list \<Rightarrow> ustr list" where
  "offers ls \<equiv> List.map_filter offered_uid ls"

abbreviation answers :: "neg_label list \<Rightarrow> event list" where
  "answers ls \<equiv> List.map_filter answer_of ls"

definition neg_inv :: "negotiation_mode \<Rightarrow> neg_label list \<Rightarrow> negotiation \<Rightarrow> bool" where
  "neg_inv md ls n \<longleftrightarrow>
     neg_configured n = md \<and> (neg_state n = Disabled \<longleftrightarrow> md = Mode_Silent) \<and>
     length (filter is_accept ls) = (if neg_state n = Neg_Proto then 1 else 0) \<and>
     (neg_state n = Neg_Proto \<longrightarrow> md = Mode_Accept) \<and>
     offers ls = map ev_uid (answers ls) @ (case neg_state n of Offered uid \<Rightarrow> [uid] | _ \<Rightarrow> []) \<and>
     (md = Mode_Silent \<longrightarrow> offers ls = [])"

lemma ev_uid_response [simp]: "ev_uid (response clock uid accepted now) = uid"
  by (simp add: response_def)

lemma neg_inv_step:
  assumes "neg_inv md ls n" and "neg_step n l n'"
  shows "neg_inv md (ls @ [l]) n'"
  using assms(2,1)
proof cases
  case (offer clock uid now r)
  then show ?thesis using assms(1)
    by (cases "neg_state n") (auto simp: neg_inv_def neg_offer_def List.map_filter_simps)
next
  case (on_event clock e now r)
  then show ?thesis using assms(1)
    by (cases "neg_state n"; cases "parse_request e"; cases md)
      (auto simp: neg_inv_def neg_on_event_def List.map_filter_simps split: if_splits)
qed

lemma neg_inv_run: "neg_run n ls n' \<Longrightarrow> n = neg_with_mode md v \<Longrightarrow> neg_inv md ls n'"
proof (induction rule: neg_run.induct)
  case (idle n)
  then show ?case by (simp add: neg_inv_def neg_with_mode_def)
next
  case (step n ls n' l n'')
  then show ?case using neg_inv_step by blast
qed

lemma neg_run_single: "neg_step n l n' \<Longrightarrow> neg_run n [l] n'"
  using step [OF idle] by simp

section \<open>Properties\<close>

text \<open>C23: a connection switches to protobuf at most once and never back: however offers and messages
  come, the accepted answers number one exactly when the connection is in protobuf and none before,
  only an installation that accepts ever accepts, every answer carries the uid of the offer it
  answers in the order the offers were made, at most one offer is outstanding, and an installation
  that is silent never offers.\<close>

theorem negotiation_commits_once:
  assumes "neg_run (neg_with_mode md v) ls n"
  shows "length (filter is_accept ls) = (if neg_mode n = Mode_Proto then 1 else 0) \<and>
    (neg_mode n = Mode_Proto \<longrightarrow> md = Mode_Accept) \<and>
    offers ls = map ev_uid (answers ls) @ (case neg_state n of Offered uid \<Rightarrow> [uid] | _ \<Rightarrow> []) \<and>
    (md = Mode_Silent \<longrightarrow> offers ls = [] \<and> answers ls = []) \<and>
    (neg_mode n = Mode_Proto \<longrightarrow> neg_step n l n' \<longrightarrow> n' = n \<and> offered_uid l = None \<and> answer_of l = None)"
proof -
  have inv: "neg_inv md ls n" using neg_inv_run [OF assms] by simp
  have mode: "neg_mode n = Mode_Proto \<longleftrightarrow> neg_state n = Neg_Proto"
    by (simp add: neg_mode_def split: neg_state.split)
  have "n' = n \<and> offered_uid l = None \<and> answer_of l = None" if "neg_state n = Neg_Proto" "neg_step n l n'"
    using that(2,1) by cases (auto simp: neg_offer_def neg_on_event_def split: if_splits)
  with inv mode show ?thesis by (auto simp: neg_inv_def)
qed

theorem negotiation_commits_once_witness:
  "\<exists>n ls. neg_run (neg_with_mode Mode_Accept (lit ''1'')) ls n \<and> neg_mode n = Mode_Proto \<and>
    length (filter is_accept ls) = 1 \<and> offers ls = map ev_uid (answers ls)"
proof -
  let ?n0 = "neg_with_mode Mode_Accept (lit ''1'')"
  let ?n1 = "?n0\<lparr>neg_state := Offered (lit ''u'')\<rparr>" and ?n2 = "?n0\<lparr>neg_state := Neg_Proto\<rparr>"
  let ?q = "request 0 (lit ''u'') PROTO_VERSION 0"
  have "neg_step ?n0 (Offering (lit ''u'') (Some (announce 0 (lit ''u'') (lit ''1'') API_VERSION 0))) ?n1"
    by (rule offer [where clock = 0 and now = 0]) (simp add: neg_offer_def neg_with_mode_def)
  moreover have "neg_step ?n1 (Looked_At ?q (Some (Accepted (response 0 (lit ''u'') True 0)))) ?n2"
    by (rule on_event [where clock = 0 and now = 0]) (simp add: neg_on_event_def neg_with_mode_def tc_request_sel)
  ultimately obtain ls where run: "neg_run ?n0 ls ?n2" using neg_run_single step by metis
  moreover have "neg_mode ?n2 = Mode_Proto" by (simp add: neg_mode_def)
  ultimately show ?thesis using negotiation_commits_once [OF run] by (intro exI [of _ ?n2] exI [of _ ls]) simp
qed

end
