(* ===== verification/Xml_Tokens.thy ===== *)
theory Xml_Tokens
  imports Marti
begin

text \<open>
  Markup as the reader sees it.  \<open>rustak-cot/src/xml\<close> reads through the \<open>quick-xml\<close> crate, which is
  not part of the repository: its escaping function and its event reader are the parameter
  \<open>quick_xml\<close>, with what its documentation promises as \<open>quick_xml_ok\<close>: the five special characters
  are escaped as the predefined entities, and a well-formed document is read as the markup it is
  made of.  \<open>plain_xml\<close> is an instance that computes.
\<close>

section \<open>The library as a parameter\<close>

datatype 'x xml_token =
    Start_Tag ustr "('x + ustr \<times> ustr) list"
  | Empty_Tag ustr "('x + ustr \<times> ustr) list"
  | End_Tag ustr
  | Text_Tok ustr
  | Ref_Tok ustr
  | CData_Tok ustr
  | Comment_Tok ustr
  | Other_Tok ustr

text \<open>The reader is the list of what it returns, an error or an event; after the list comes
  \<open>Eof\<close>.  A tag's attributes are read lazily, each a failure or a key and a raw value.\<close>

type_synonym 'x xml_reader = "('x + 'x xml_token) list"

record 'x quick_xml =
  qx_escape :: "ustr \<Rightarrow> ustr"
  qx_read :: "ustr \<Rightarrow> 'x xml_reader"

definition esc_char :: "uchar \<Rightarrow> ustr" where
  "esc_char c =
     (if c = 60 then lit ''&lt;'' else if c = 62 then lit ''&gt;'' else if c = 38 then lit ''&amp;''
      else if c = 39 then lit ''&apos;'' else if c = 34 then lit ''&quot;'' else [c])"

section \<open>The markup of a document\<close>

fun attr_text :: "'x + ustr \<times> ustr \<Rightarrow> ustr" where
  "attr_text (Inl x) = []"
| "attr_text (Inr (k, v)) = [32] @ k @ [61, 34] @ v @ [34]"

fun tok_text :: "'x xml_token \<Rightarrow> ustr" where
  "tok_text (Start_Tag n as) = [60] @ n @ concat (map attr_text as) @ [62]"
| "tok_text (Empty_Tag n as) = [60] @ n @ concat (map attr_text as) @ [47, 62]"
| "tok_text (End_Tag n) = [60, 47] @ n @ [62]"
| "tok_text (Text_Tok t) = t"
| "tok_text (Ref_Tok r) = [38] @ r @ [59]"
| "tok_text (CData_Tok t) = lit ''<![CDATA['' @ t @ lit '']]>''"
| "tok_text (Comment_Tok t) = lit ''<!--'' @ t @ lit ''-->''"
| "tok_text (Other_Tok t) = lit ''<?'' @ t @ lit ''?>''"

definition doc_text :: "'x xml_token list \<Rightarrow> ustr" where
  "doc_text ts = concat (map tok_text ts)"

text \<open>Whether one list occurs inside another.\<close>

fun occurs :: "'a list \<Rightarrow> 'a list \<Rightarrow> bool" where
  "occurs p [] \<longleftrightarrow> p = []"
| "occurs p (c # s) \<longleftrightarrow> starts_with (c # s) p \<or> occurs p s"

fun attrs_ok :: "('x + ustr \<times> ustr) list \<Rightarrow> bool" where
  "attrs_ok as \<longleftrightarrow> list_all (\<lambda>a. case a of Inl _ \<Rightarrow> False
       | Inr (k, v) \<Rightarrow> is_name k \<and> list_all (\<lambda>c. c \<notin> {34, 60, 13}) v) as \<and>
     distinct (map (\<lambda>a. case a of Inl _ \<Rightarrow> [] | Inr (k, v) \<Rightarrow> k) as)"

fun tok_ok :: "'x xml_token \<Rightarrow> bool" where
  "tok_ok (Start_Tag n as) \<longleftrightarrow> is_name n \<and> attrs_ok as"
| "tok_ok (Empty_Tag n as) \<longleftrightarrow> is_name n \<and> attrs_ok as"
| "tok_ok (End_Tag n) \<longleftrightarrow> is_name n"
| "tok_ok (Text_Tok t) \<longleftrightarrow> t \<noteq> [] \<and> list_all (\<lambda>c. c \<notin> {60, 38, 13}) t"
| "tok_ok (Ref_Tok r) \<longleftrightarrow> r \<noteq> [] \<and> list_all (\<lambda>c. c \<notin> {59, 38, 60, 13}) r"
| "tok_ok (CData_Tok t) \<longleftrightarrow> \<not> occurs (lit '']]>'') t \<and> 13 \<notin> set t"
| "tok_ok (Comment_Tok t) \<longleftrightarrow> \<not> occurs (lit ''--'') t \<and> \<not> (t \<noteq> [] \<and> last t = 45) \<and> 13 \<notin> set t"
| "tok_ok (Other_Tok t) \<longleftrightarrow> \<not> occurs (lit ''?>'') t"

fun is_text_tok :: "'x xml_token \<Rightarrow> bool" where
  "is_text_tok (Text_Tok t) = True"
| "is_text_tok _ = False"

fun spaced :: "'x xml_token list \<Rightarrow> bool" where
  "spaced (a # b # ts) \<longleftrightarrow> \<not> (is_text_tok a \<and> is_text_tok b) \<and> spaced (b # ts)"
| "spaced _ \<longleftrightarrow> True"

text \<open>Every end tag closes the element opened last.\<close>

fun balanced :: "ustr list \<Rightarrow> 'x xml_token list \<Rightarrow> bool" where
  "balanced open_tags [] \<longleftrightarrow> open_tags = []"
| "balanced open_tags (Start_Tag n as # ts) \<longleftrightarrow> balanced (n # open_tags) ts"
| "balanced open_tags (End_Tag n # ts) \<longleftrightarrow>
     (case open_tags of m # rest \<Rightarrow> m = n \<and> balanced rest ts | [] \<Rightarrow> False)"
| "balanced open_tags (_ # ts) \<longleftrightarrow> balanced open_tags ts"

definition doc_ok :: "'x xml_token list \<Rightarrow> bool" where
  "doc_ok ts \<longleftrightarrow> list_all tok_ok ts \<and> spaced ts \<and> balanced [] ts"

definition quick_xml_ok :: "'x quick_xml \<Rightarrow> bool" where
  "quick_xml_ok L \<longleftrightarrow> (\<forall>s. qx_escape L s = concat (map esc_char s)) \<and>
     (\<forall>ts. doc_ok ts \<longrightarrow> qx_read L (doc_text ts) = map Inr ts)"

section \<open>An instance that computes\<close>

fun find_sub :: "'a list \<Rightarrow> 'a list \<Rightarrow> nat" where
  "find_sub p [] = 0"
| "find_sub p (c # s) = (if starts_with (c # s) p then 0 else Suc (find_sub p s))"

function lex_attrs :: "ustr \<Rightarrow> ('x + ustr \<times> ustr) list \<times> ustr" where
  "lex_attrs s =
     (if s \<noteq> [] \<and> hd s = 32 then
        let k = takeWhile (\<lambda>c. c \<noteq> 61) (tl s); r = drop (length k + 2) (tl s);
            v = takeWhile (\<lambda>c. c \<noteq> 34) r
        in case lex_attrs (drop (length v + 1) r) of (as, rest) \<Rightarrow> (Inr (k, v) # as, rest)
      else ([], s))"
  by pat_completeness auto
termination lex_attrs
  by (relation "measure length") (auto simp: neq_Nil_conv)

declare lex_attrs.simps [simp del]

lemma lex_attrs_shorter: "length (snd (lex_attrs s)) \<le> length s"
proof (induction s rule: lex_attrs.induct)
  case (1 s)
  then show ?case by (subst lex_attrs.simps) (fastforce simp: Let_def split: prod.split)
qed

function lex :: "ustr \<Rightarrow> 'x xml_reader" where
  "lex [] = []"
| "lex (c # s) =
     (if c = 38 then
        let r = takeWhile (\<lambda>c. c \<noteq> 59) s in Inr (Ref_Tok r) # lex (drop (length r + 1) s)
      else if c \<noteq> 60 then
        let t = takeWhile (\<lambda>c. c \<noteq> 60 \<and> c \<noteq> 38) s in Inr (Text_Tok (c # t)) # lex (drop (length t) s)
      else if starts_with s (lit ''![CDATA['') then
        let r = drop 8 s; n = find_sub (lit '']]>'') r in Inr (CData_Tok (take n r)) # lex (drop (n + 11) s)
      else if starts_with s (lit ''!--'') then
        let r = drop 3 s; n = find_sub (lit ''-->'') r in Inr (Comment_Tok (take n r)) # lex (drop (n + 6) s)
      else if starts_with s [63] then
        let r = drop 1 s; n = find_sub (lit ''?>'') r in Inr (Other_Tok (take n r)) # lex (drop (n + 3) s)
      else if starts_with s [47] then
        let n = takeWhile (\<lambda>c. c \<noteq> 62) (drop 1 s) in Inr (End_Tag n) # lex (drop (length n + 2) s)
      else
        let n = takeWhile is_name_char s; r = lex_attrs (drop (length n) s)
        in if starts_with (snd r) [47] then Inr (Empty_Tag n (fst r)) # lex (drop 2 (snd r))
           else Inr (Start_Tag n (fst r)) # lex (drop 1 (snd r)))"
  by pat_completeness auto
termination lex
proof (relation "measure length", goal_cases)
  case (8 c s n r)
  have "length (snd r) \<le> length s" unfolding 8(8) by (rule order_trans [OF lex_attrs_shorter]) simp
  then show ?case by simp
next
  case (9 c s n r)
  have "length (snd r) \<le> length s" unfolding 9(8) by (rule order_trans [OF lex_attrs_shorter]) simp
  then show ?case by simp
qed auto

declare lex.simps(2) [simp del]

definition plain_xml :: "'x quick_xml" where
  "plain_xml = \<lparr>qx_escape = (\<lambda>s. concat (map esc_char s)), qx_read = lex\<rparr>"

lemma takeWhile_stop: "list_all P xs \<Longrightarrow> \<not> P c \<Longrightarrow> takeWhile P (xs @ c # ys) = xs"
  by (induction xs) auto

lemma not_occurs_Cons: "\<not> occurs p (c # s) \<Longrightarrow> \<not> starts_with (c # s) p \<and> \<not> occurs p s"
  by simp

lemma find_cdata_end:
  "\<not> occurs (lit '']]>'') t \<Longrightarrow> find_sub (lit '']]>'') (t @ lit '']]>'' @ r) = length t"
proof (induction t)
  case (Cons c t)
  then have "\<not> starts_with (c # t @ lit '']]>'' @ r) (lit '']]>'')"
    by (cases t; cases "tl t") (auto simp: starts_with_def lit_def)
  with Cons show ?case by simp
qed (simp add: lit_def starts_with_def)

lemma find_comment_end:
  "\<not> occurs (lit ''--'') t \<Longrightarrow> \<not> (t \<noteq> [] \<and> last t = 45) \<Longrightarrow>
   find_sub (lit ''-->'') (t @ lit ''-->'' @ r) = length t"
proof (induction t)
  case (Cons c t)
  then have "\<not> starts_with (c # t @ lit ''-->'' @ r) (lit ''-->'')"
    by (cases t) (auto simp: starts_with_def lit_def)
  with Cons show ?case by (cases t) simp_all
qed (simp add: lit_def starts_with_def)

lemma find_pi_end:
  "\<not> occurs (lit ''?>'') t \<Longrightarrow> find_sub (lit ''?>'') (t @ lit ''?>'' @ r) = length t"
proof (induction t)
  case (Cons c t)
  then have "\<not> starts_with (c # t @ lit ''?>'' @ r) (lit ''?>'')"
    by (cases t) (auto simp: starts_with_def lit_def)
  with Cons show ?case by simp
qed (simp add: lit_def starts_with_def)

lemma name_char_stops: "\<not> is_name_char 32" "\<not> is_name_char 47" "\<not> is_name_char 62" "\<not> is_name_char 61"
  "\<not> is_name_start 33" "\<not> is_name_start 63" "\<not> is_name_start 47"
  by (simp_all add: is_name_char_def is_name_start_def in_range_def)

lemma is_name_chars: "is_name n \<Longrightarrow> n \<noteq> [] \<and> list_all is_name_char n \<and> is_name_start (hd n)"
  by (cases n) (auto simp: is_name_char_def)

lemma lex_attrs_text:
  "list_all (\<lambda>a. case a of Inl _ \<Rightarrow> False | Inr (k, v) \<Rightarrow> is_name k \<and> list_all (\<lambda>c. c \<notin> {34, 60, 13}) v) as \<Longrightarrow>
   rest = [] \<or> hd rest \<noteq> 32 \<Longrightarrow> lex_attrs (concat (map attr_text as) @ rest) = (as, rest)"
proof (induction as)
  case Nil
  then show ?case by (subst lex_attrs.simps) auto
next
  case (Cons a as)
  then obtain k v where a: "a = Inr (k, v)" "is_name k" "list_all (\<lambda>c. c \<notin> {34, 60, 13}) v"
    by (auto split: sum.splits)
  have "list_all (\<lambda>c. c \<noteq> 61) k"
    using is_name_chars [OF a(2)] name_char_stops(4) by (auto simp: list_all_iff)
  then have k: "takeWhile (\<lambda>c. c \<noteq> 61) (k @ 61 # ys) = k" for ys by (rule takeWhile_stop) simp
  have "list_all (\<lambda>c. c \<noteq> 34) v" using a(3) by (auto simp: list_all_iff)
  then have v: "takeWhile (\<lambda>c. c \<noteq> 34) (v @ 34 # ys) = v" for ys by (rule takeWhile_stop) simp
  show ?case using Cons
    by (subst lex_attrs.simps) (simp add: a(1) k v Let_def)
qed

lemma lex_name:
  assumes "is_name n" and "list_all (\<lambda>a. case a of Inl _ \<Rightarrow> False
      | Inr (k, v) \<Rightarrow> is_name k \<and> list_all (\<lambda>c. c \<notin> {34, 60, 13}) v) as"
    and "rest \<noteq> []" "hd rest \<in> {47, 62}"
  shows "takeWhile is_name_char (n @ concat (map attr_text as) @ rest) = n"
    and "\<not> starts_with (n @ concat (map attr_text as) @ rest) (lit ''![CDATA['')"
    and "\<not> starts_with (n @ concat (map attr_text as) @ rest) (lit ''!--'')"
    and "\<not> starts_with (n @ concat (map attr_text as) @ rest) [63]"
    and "\<not> starts_with (n @ concat (map attr_text as) @ rest) [47]"
    and "lex_attrs (concat (map attr_text as) @ rest) = (as, rest)"
proof -
  obtain b t where n: "n = b # t" "is_name_start b" using assms(1) by (cases n) auto
  obtain c ys where c: "concat (map attr_text as) @ rest = c # ys" "c \<in> {32, 47, 62}"
  proof (cases as)
    case Nil
    with assms(3,4) that show ?thesis by (cases rest) auto
  next
    case (Cons a as')
    with assms(2) that show ?thesis by (auto split: sum.splits prod.splits)
  qed
  then have "\<not> is_name_char c" using name_char_stops by auto
  with is_name_chars [OF assms(1)] c(1) show "takeWhile is_name_char (n @ concat (map attr_text as) @ rest) = n"
    by (simp add: takeWhile_stop)
  have "b \<noteq> 33" "b \<noteq> 63" "b \<noteq> 47" using n name_char_stops by auto
  then show "\<not> starts_with (n @ concat (map attr_text as) @ rest) (lit ''![CDATA['')"
    "\<not> starts_with (n @ concat (map attr_text as) @ rest) (lit ''!--'')"
    "\<not> starts_with (n @ concat (map attr_text as) @ rest) [63]"
    "\<not> starts_with (n @ concat (map attr_text as) @ rest) [47]"
    by (auto simp: n starts_with_def lit_def)
  show "lex_attrs (concat (map attr_text as) @ rest) = (as, rest)"
    using assms(2-4) by (intro lex_attrs_text) auto
qed

lemma starts_with_Cons [simp]: "starts_with (c # s) (d # p) \<longleftrightarrow> c = d \<and> starts_with s p"
  "starts_with s []" "\<not> starts_with [] (d # p)"
  by (auto simp: starts_with_def)

lemma lex_tok:
  assumes "tok_ok t" and "is_text_tok t \<Longrightarrow> rest = [] \<or> hd rest \<in> {60, 38}"
  shows "lex (tok_text t @ rest) = Inr t # lex rest"
proof (cases t)
  case (Start_Tag n as)
  with assms(1) have n: "is_name n" and as: "list_all (\<lambda>a. case a of Inl _ \<Rightarrow> False
      | Inr (k, v) \<Rightarrow> is_name k \<and> list_all (\<lambda>c. c \<notin> {34, 60, 13}) v) as"
    by (simp_all only: tok_ok.simps attrs_ok.simps)
  show ?thesis
    using lex_name [OF n as, of "62 # rest"] by (simp add: Start_Tag lex.simps(2) Let_def)
next
  case (Empty_Tag n as)
  with assms(1) have n: "is_name n" and as: "list_all (\<lambda>a. case a of Inl _ \<Rightarrow> False
      | Inr (k, v) \<Rightarrow> is_name k \<and> list_all (\<lambda>c. c \<notin> {34, 60, 13}) v) as"
    by (simp_all only: tok_ok.simps attrs_ok.simps)
  show ?thesis
    using lex_name [OF n as, of "47 # 62 # rest"] by (simp add: Empty_Tag lex.simps(2) Let_def)
next
  case (End_Tag n)
  then have "list_all (\<lambda>c. c \<noteq> 62) n"
    using assms(1) is_name_chars [of n] name_char_stops(3) by (auto simp: list_all_iff)
  then have "takeWhile (\<lambda>c. c \<noteq> 62) (n @ 62 # rest) = n" by (rule takeWhile_stop) simp
  then show ?thesis by (simp add: End_Tag lex.simps(2) Let_def lit_def)
next
  case (Text_Tok s)
  then obtain c u where s: "s = c # u" "c \<noteq> 60" "c \<noteq> 38" "list_all (\<lambda>c. c \<noteq> 60 \<and> c \<noteq> 38) u"
    using assms(1) by (cases s) (auto simp: list_all_iff)
  have "takeWhile (\<lambda>c. c \<noteq> 60 \<and> c \<noteq> 38) (u @ rest) = u"
  proof (cases rest)
    case (Cons d ys)
    then have "d \<in> {60, 38}" using assms(2) Text_Tok by simp
    with s(4) show ?thesis unfolding Cons by (intro takeWhile_stop) auto
  qed (use s(4) in \<open>simp add: takeWhile_eq_all_conv list_all_iff\<close>)
  with s show ?thesis by (simp add: Text_Tok lex.simps(2) Let_def)
next
  case (Ref_Tok r)
  then have "list_all (\<lambda>c. c \<noteq> 59) r" using assms(1) by (auto simp: list_all_iff)
  then have "takeWhile (\<lambda>c. c \<noteq> 59) (r @ 59 # rest) = r" by (rule takeWhile_stop) simp
  then show ?thesis by (simp add: Ref_Tok lex.simps(2) Let_def)
next
  case (CData_Tok s)
  have "find_sub (lit '']]>'') (s @ lit '']]>'' @ rest) = length s"
    using assms(1) CData_Tok by (intro find_cdata_end) simp
  moreover have "drop (length s + 11) (lit ''![CDATA['' @ s @ lit '']]>'' @ rest) = rest" by simp
  ultimately show ?thesis by (simp add: CData_Tok lex.simps(2) Let_def lit_def)
next
  case (Comment_Tok s)
  have "find_sub (lit ''-->'') (s @ lit ''-->'' @ rest) = length s"
    using assms(1) Comment_Tok by (intro find_comment_end) simp_all
  moreover have "drop (length s + 6) (lit ''!--'' @ s @ lit ''-->'' @ rest) = rest" by simp
  ultimately show ?thesis by (simp add: Comment_Tok lex.simps(2) Let_def lit_def)
next
  case (Other_Tok s)
  have "find_sub (lit ''?>'') (s @ lit ''?>'' @ rest) = length s"
    using assms(1) Other_Tok by (intro find_pi_end) simp
  moreover have "drop (length s + 3) (lit ''?'' @ s @ lit ''?>'' @ rest) = rest" by simp
  ultimately show ?thesis by (simp add: Other_Tok lex.simps(2) Let_def lit_def)
qed

lemma tok_text_hd: "tok_ok t \<Longrightarrow> tok_text t \<noteq> [] \<and> (\<not> is_text_tok t \<longrightarrow> hd (tok_text t) \<in> {60, 38})"
  by (cases t) (auto simp: lit_def)

lemma lex_doc: "list_all tok_ok ts \<Longrightarrow> spaced ts \<Longrightarrow> lex (doc_text ts) = map Inr ts"
proof (induction ts)
  case Nil
  then show ?case by (simp add: doc_text_def)
next
  case (Cons t ts)
  have "doc_text ts = [] \<or> hd (doc_text ts) \<in> {60, 38}" if "is_text_tok t"
  proof (cases ts)
    case (Cons u us)
    with Cons.prems that have "tok_ok u" "\<not> is_text_tok u" by auto
    with tok_text_hd [of u] show ?thesis by (auto simp: doc_text_def Cons)
  qed (simp add: doc_text_def)
  then have "lex (tok_text t @ doc_text ts) = Inr t # lex (doc_text ts)"
    using Cons.prems by (intro lex_tok) auto
  moreover have "spaced ts" using Cons.prems(2) by (cases ts) auto
  ultimately show ?case using Cons by (simp add: doc_text_def)
qed

lemma quick_xml_ok_plain: "quick_xml_ok plain_xml"
  by (simp add: quick_xml_ok_def plain_xml_def doc_ok_def lex_doc)

end
