(* ===== verification/Utf8.thy ===== *)
theory Utf8
  imports Prelude
begin

text \<open>
  Text on the wire: what \<open>str::as_bytes\<close> writes and \<open>std::str::from_utf8\<close> reads.  The reader is
  strict: no overlong form, no surrogate, nothing above the last scalar value.
\<close>

definition is_scalar :: "uchar \<Rightarrow> bool" where
  "is_scalar c \<longleftrightarrow> c < 0xD800 \<or> (0xE000 \<le> c \<and> c < 0x110000)"

definition utf8_char :: "uchar \<Rightarrow> bytes" where
  "utf8_char c =
     (if c < 0x80 then [of_nat c]
      else if c < 0x800 then [of_nat (0xC0 + c div 64), of_nat (0x80 + c mod 64)]
      else if c < 0x10000 then
        [of_nat (0xE0 + c div 4096), of_nat (0x80 + c div 64 mod 64), of_nat (0x80 + c mod 64)]
      else [of_nat (0xF0 + c div 262144), of_nat (0x80 + c div 4096 mod 64),
            of_nat (0x80 + c div 64 mod 64), of_nat (0x80 + c mod 64)])"

definition utf8 :: "ustr \<Rightarrow> bytes" where
  "utf8 s = concat (map utf8_char s)"

text \<open>The six bits of a continuation byte.\<close>

definition cont :: "byte \<Rightarrow> nat option" where
  "cont b = (if 0x80 \<le> unat b \<and> unat b < 0xC0 then Some (unat b - 0x80) else None)"

definition utf8_step :: "bytes \<Rightarrow> (uchar \<times> nat) option" where
  "utf8_step bs =
     (case bs of
        [] \<Rightarrow> None
      | b # r \<Rightarrow>
          let n = unat b in
          if n < 0x80 then Some (n, 1)
          else if 0xC2 \<le> n \<and> n < 0xE0 then
            (case map cont (take 1 r) of
               [Some x] \<Rightarrow> Some ((n - 0xC0) * 64 + x, 2)
             | _ \<Rightarrow> None)
          else if 0xE0 \<le> n \<and> n < 0xF0 then
            (case map cont (take 2 r) of
               [Some x, Some y] \<Rightarrow>
                 let c = (n - 0xE0) * 4096 + x * 64 + y
                 in if 0x800 \<le> c \<and> is_scalar c then Some (c, 3) else None
             | _ \<Rightarrow> None)
          else if 0xF0 \<le> n \<and> n < 0xF5 then
            (case map cont (take 3 r) of
               [Some x, Some y, Some z] \<Rightarrow>
                 let c = (n - 0xF0) * 262144 + x * 4096 + y * 64 + z
                 in if 0x10000 \<le> c \<and> is_scalar c then Some (c, 4) else None
             | _ \<Rightarrow> None)
          else None)"

text \<open>Past the first byte of a character there is at least the rest of the buffer to read.\<close>

function from_utf8 :: "bytes \<Rightarrow> ustr option" where
  "from_utf8 [] = Some []"
| "from_utf8 (b # r) =
     (case utf8_step (b # r) of
        None \<Rightarrow> None
      | Some (c, n) \<Rightarrow> map_option (Cons c) (from_utf8 (drop (n - 1) r)))"
  by pat_completeness auto
termination from_utf8
  by (relation "measure length") auto

declare from_utf8.simps(2) [simp del]

section \<open>Reading back what was written\<close>

lemma unat_byte: "n < 256 \<Longrightarrow> unat (of_nat n :: byte) = n"
  by (simp add: unat_of_nat)

lemma cont_byte: "n < 64 \<Longrightarrow> cont (of_nat (0x80 + n)) = Some n"
  by (simp add: cont_def unat_byte del: of_nat_add)

lemma sextets:
  "(c div 4096) * 4096 + (c div 64 mod 64) * 64 + c mod 64 = (c :: nat)"
  "(c div 262144) * 262144 + (c div 4096 mod 64) * 4096 + (c div 64 mod 64) * 64 + c mod 64 = (c :: nat)"
proof -
  have split: "(d div 64) * 64 + d mod 64 = d" for d :: nat by simp
  have d: "c div 4096 = c div 64 div 64" "c div 262144 = c div 4096 div 64" by (simp_all add: div_mult2_eq [symmetric])
  show one: "(c div 4096) * 4096 + (c div 64 mod 64) * 64 + c mod 64 = c"
    using split [of c] split [of "c div 64"] unfolding d(1) by linarith
  show "(c div 262144) * 262144 + (c div 4096 mod 64) * 4096 + (c div 64 mod 64) * 64 + c mod 64 = c"
    using one split [of "c div 4096"] unfolding d(2) by linarith
qed

lemma utf8_char_step:
  assumes "is_scalar c"
  shows "utf8_step (utf8_char c @ r) = Some (c, length (utf8_char c))"
proof -
  consider "c < 0x80" | "0x80 \<le> c \<and> c < 0x800" | "0x800 \<le> c \<and> c < 0x10000" | "0x10000 \<le> c \<and> c < 0x110000"
    using assms unfolding is_scalar_def by linarith
  then show ?thesis
  proof cases
    case 1
    then show ?thesis by (simp add: utf8_char_def utf8_step_def unat_byte)
  next
    case 2
    then have b: "2 \<le> c div 64" "c div 64 < 32"
      using div_le_mono [of 128 c 64] by (simp_all add: less_mult_imp_div_less)
    moreover have "(c div 64) * 64 + c mod 64 = c" by simp
    ultimately show ?thesis using 2 b unat_byte [of "0xC0 + c div 64"]
      by (simp add: utf8_char_def utf8_step_def unat_byte cont_byte Let_def del: of_nat_add)
  next
    case 3
    then have b: "c div 4096 < 16" by (simp add: less_mult_imp_div_less)
    moreover have "(c div 4096) * 4096 + (c div 64 mod 64) * 64 + c mod 64 = c" by (rule sextets(1))
    ultimately show ?thesis using 3 assms b unat_byte [of "0xE0 + c div 4096"]
      by (simp add: utf8_char_def utf8_step_def unat_byte cont_byte Let_def del: of_nat_add)
  next
    case 4
    then have b: "c div 262144 < 5" by (simp add: less_mult_imp_div_less)
    moreover have "(c div 262144) * 262144 + (c div 4096 mod 64) * 4096 + (c div 64 mod 64) * 64 + c mod 64 = c"
      by (rule sextets(2))
    ultimately show ?thesis using 4 assms b unat_byte [of "0xF0 + c div 262144"]
      by (simp add: utf8_char_def utf8_step_def unat_byte cont_byte Let_def del: of_nat_add)
  qed
qed

lemma utf8_char_nonempty: "utf8_char c \<noteq> []"
  by (simp add: utf8_char_def)

lemma from_utf8_char:
  assumes "is_scalar c"
  shows "from_utf8 (utf8_char c @ r) = map_option (Cons c) (from_utf8 r)"
proof -
  obtain b t where bt: "utf8_char c = b # t" using utf8_char_nonempty by (cases "utf8_char c") auto
  then have "utf8_step (b # (t @ r)) = Some (c, Suc (length t))" using utf8_char_step [OF assms, of r] by simp
  then show ?thesis by (simp add: bt from_utf8.simps(2))
qed

lemma utf8_Nil [simp]: "utf8 [] = []"
  by (simp add: utf8_def)

lemma utf8_Cons: "utf8 (c # s) = utf8_char c @ utf8 s"
  by (simp add: utf8_def)

lemma utf8_append [simp]: "utf8 (s @ t) = utf8 s @ utf8 t"
  by (simp add: utf8_def)

lemma from_utf8_utf8 [simp]: "list_all is_scalar s \<Longrightarrow> from_utf8 (utf8 s) = Some s"
  by (induction s) (simp_all add: utf8_Cons from_utf8_char)

text \<open>ASCII text is its own encoding.\<close>

lemma utf8_ascii: "list_all (\<lambda>c. c < 0x80) s \<Longrightarrow> utf8 s = map of_nat s"
  by (induction s) (simp_all add: utf8_def utf8_char_def)

lemma utf8_lit: "utf8 (lit s) = raw s" if "list_all (\<lambda>c. of_char c < (0x80 :: nat)) s"
proof -
  have "utf8 (lit s) = map of_nat (lit s)" using that by (intro utf8_ascii) (simp add: lit_def list_all_iff)
  then show ?thesis by (simp add: lit_def raw_def of_nat_of_char)
qed

end
