(* ===== verification/Xml_Write.thy ===== *)
theory Xml_Write
  imports Xml_Tokens Cot_Event Utf8
begin

text \<open>
  Writing an event as CoT XML (\<open>rustak-cot/src/xml/write.rs\<close>, the constants of
  \<open>rustak-cot/src/xml/mod.rs\<close>).  The functions give the text; the buffer holds its UTF-8 bytes.
  The escaping function is \<open>quick-xml\<close>'s, the printers of numbers and times the standard library's
  and \<open>chrono\<close>'s.
\<close>

section \<open>Model\<close>

definition DECLARATION :: ustr where
  "DECLARATION = lit ''<?xml version=\"1.0\" encoding=\"UTF-8\"?>''"

definition MAX_DEPTH :: nat where
  "MAX_DEPTH = 64"

definition forbidden :: "bool \<Rightarrow> uchar \<Rightarrow> bool" where
  "forbidden keep_ws c =
     (if c = 9 \<or> c = 10 then \<not> keep_ws
      else c \<le> 8 \<or> (0xB \<le> c \<and> c \<le> 0x1F) \<or> (0x7F \<le> c \<and> c \<le> 0x9F))"

definition strip_controls :: "ustr \<Rightarrow> bool \<Rightarrow> ustr" where
  "strip_controls str keep_ws =
     (if list_ex (forbidden keep_ws) str then filter (\<lambda>c. \<not> forbidden keep_ws c) str else str)"

text \<open>\<open>str::replace\<close>, for a pattern that is not empty.\<close>

function replace_all :: "ustr \<Rightarrow> ustr \<Rightarrow> ustr \<Rightarrow> ustr" where
  "replace_all pat sub [] = []"
| "replace_all pat sub (c # s) =
     (if pat \<noteq> [] \<and> starts_with (c # s) pat then sub @ replace_all pat sub (drop (length pat - 1) s)
      else c # replace_all pat sub s)"
  by pat_completeness auto
termination replace_all
  by (relation "measure (length \<circ> snd \<circ> snd)") auto

definition xml_attr :: "'x quick_xml \<Rightarrow> ustr \<times> ustr \<Rightarrow> ustr" where
  "xml_attr L kv =
     [32] @ strip_controls (fst kv) False @ lit ''=\"'' @ qx_escape L (strip_controls (snd kv) False) @ lit ''\"''"

definition xml_attr_opt :: "'x quick_xml \<Rightarrow> ustr \<Rightarrow> ustr option \<Rightarrow> ustr" where
  "xml_attr_opt L name value = (case value of Some v \<Rightarrow> xml_attr L (name, v) | None \<Rightarrow> [])"

fun write_node :: "'x quick_xml \<Rightarrow> node \<Rightarrow> ustr"
  and write_element :: "'x quick_xml \<Rightarrow> element \<Rightarrow> ustr" where
  "write_node L (Elem e) = write_element L e"
| "write_node L (Text t) = qx_escape L (strip_controls t True)"
| "write_node L (CData t) =
     lit ''<![CDATA['' @ replace_all (lit '']]>'') (lit '']]]]><![CDATA[>'') (strip_controls t True) @ lit '']]>''"
| "write_node L (Comment t) =
     (let body = replace_all (lit ''--'') (lit ''- -'') (strip_controls t True)
      in lit ''<!--'' @ body @ (if body \<noteq> [] \<and> last body = 45 then [32] else []) @ lit ''-->'')"
| "write_element L (Element name as cs) =
     (let nm = strip_controls name False
      in [60] @ nm @ concat (map (xml_attr L) as) @
         (if cs = [] then lit ''/>''
          else [62] @ concat (map (write_node L) cs) @ lit ''</'' @ nm @ [62]))"

definition write_nodes :: "'x quick_xml \<Rightarrow> node list \<Rightarrow> ustr" where
  "write_nodes L ns = concat (map (write_node L) ns)"

definition write_fragment :: "'x quick_xml \<Rightarrow> node list \<Rightarrow> ustr" where
  "write_fragment L ns = write_nodes L ns"

definition write_text :: "'x quick_xml \<Rightarrow> f64_lib \<Rightarrow> clock_lib \<Rightarrow> event \<Rightarrow> ustr" where
  "write_text L F K e =
     DECLARATION @ [10] @
     lit ''<event'' @ xml_attr L (lit ''version'', ev_version e) @ xml_attr L (lit ''uid'', ev_uid e) @
     xml_attr L (lit ''type'', ev_type e) @ xml_attr_opt L (lit ''how'') (ev_how e) @
     xml_attr L (lit ''time'', time_string K (ev_time e)) @
     xml_attr L (lit ''start'', time_string K (ev_start e)) @
     xml_attr L (lit ''stale'', time_string K (ev_stale e)) @
     xml_attr_opt L (lit ''access'') (ev_access e) @ xml_attr_opt L (lit ''qos'') (ev_qos e) @
     xml_attr_opt L (lit ''opex'') (ev_opex e) @ xml_attr_opt L (lit ''caveat'') (ev_caveat e) @
     xml_attr_opt L (lit ''releasableTo'') (ev_releasable_to e) @
     concat (map (xml_attr L) (ev_extra_attrs e)) @ [62] @
     lit ''<point'' @ xml_attr L (lit ''lat'', format_f64 F (lat (ev_point e))) @
     xml_attr L (lit ''lon'', format_f64 F (lon (ev_point e))) @
     xml_attr L (lit ''hae'', format_f64 F (hae (ev_point e))) @
     xml_attr L (lit ''ce'', format_f64 F (ce (ev_point e))) @
     xml_attr L (lit ''le'', format_f64 F (le (ev_point e))) @ lit ''/>'' @
     (if d_is_empty (ev_detail e) then []
      else lit ''<detail>'' @ write_nodes L (nodes (ev_detail e)) @ lit ''</detail>'') @
     lit ''</event>''"

definition write_into :: "'x quick_xml \<Rightarrow> f64_lib \<Rightarrow> clock_lib \<Rightarrow> event \<Rightarrow> bytes \<Rightarrow> bytes" where
  "write_into L F K e dst = dst @ utf8 (write_text L F K e)"

definition xml_write :: "'x quick_xml \<Rightarrow> f64_lib \<Rightarrow> clock_lib \<Rightarrow> event \<Rightarrow> bytes" where
  "xml_write L F K e = write_into L F K e []"

end
