(* ===== verification/Xml_Parse.thy ===== *)
theory Xml_Parse
  imports Xml_Write Errors
begin

text \<open>
  Reading CoT XML (\<open>rustak-cot/src/xml/parse.rs\<close>, \<open>entity.rs\<close>).  The reader is \<open>quick-xml\<close>'s event
  list; a function that reads takes the list and answers, beside its result, how many events it
  took, which is where its caller goes on.
\<close>

section \<open>References\<close>

definition is_ref_char :: "uchar \<Rightarrow> bool" where
  "is_ref_char c \<longleftrightarrow> in_range c 97 122 \<or> in_range c 65 90 \<or> in_range c 48 57 \<or> c \<in> {35, 95, 46, 45, 58}"

fun ref_scan :: "nat \<Rightarrow> ustr \<Rightarrow> nat option" where
  "ref_scan i [] = None"
| "ref_scan i (c # s) = (if c = 59 then Some i else if is_ref_char c then ref_scan (i + 1) s else None)"

definition reference_end :: "ustr \<Rightarrow> nat option" where
  "reference_end rest = ref_scan 1 (drop 1 rest)"

definition hex_digit :: "uchar \<Rightarrow> nat option" where
  "hex_digit c =
     (if in_range c 48 57 then Some (c - 48) else if in_range c 97 102 then Some (c - 87)
      else if in_range c 65 70 then Some (c - 55) else None)"

text \<open>\<open>u32::from_str_radix(_, 16)\<close>: an optional plus sign, at least one digit, a value that fits.\<close>

definition parse_hex_u32 :: "ustr \<Rightarrow> nat option" where
  "parse_hex_u32 s =
     (let ds = (case s of [] \<Rightarrow> [] | c # t \<Rightarrow> if c = 43 then t else s);
          v = foldl (\<lambda>v c. 16 * v + (case hex_digit c of Some d \<Rightarrow> d | None \<Rightarrow> 0)) 0 ds
      in if ds \<noteq> [] \<and> list_all (\<lambda>c. hex_digit c \<noteq> None) ds \<and> v < 2 ^ 32 then Some v else None)"

definition entity_char :: "ustr \<Rightarrow> uchar option" where
  "entity_char name =
     (if name = lit ''amp'' then Some 38 else if name = lit ''lt'' then Some 60
      else if name = lit ''gt'' then Some 62 else if name = lit ''quot'' then Some 34
      else if name = lit ''apos'' then Some 39
      else case strip_prefix [35] name of
        None \<Rightarrow> None
      | Some digits \<Rightarrow>
          (case (case digits of
                   c # hex \<Rightarrow> if c = 120 \<or> c = 88 then parse_hex_u32 hex else parse_uint (2 ^ 32 - 1) digits
                 | [] \<Rightarrow> parse_uint (2 ^ 32 - 1) digits) of
             None \<Rightarrow> None
           | Some code \<Rightarrow> if is_scalar code then Some code else None))"

function unescape_loop :: "ustr \<Rightarrow> ustr" where
  "unescape_loop [] = []"
| "unescape_loop (c # s) =
     (if c = 9 \<or> c = 13 \<or> c = 10 then 32 # unescape_loop s
      else if c \<noteq> 38 then c # unescape_loop s
      else case reference_end (c # s) of
        Some stop \<Rightarrow>
          (case entity_char (take (stop - 1) s) of
             Some r \<Rightarrow> [r]
           | None \<Rightarrow> take (stop + 1) (c # s)) @ unescape_loop (drop stop s)
      | None \<Rightarrow> 38 # unescape_loop s)"
  by pat_completeness auto
termination unescape_loop
  by (relation "measure length") auto

declare unescape_loop.simps(2) [simp del]

definition unescape_attr :: "ustr \<Rightarrow> ustr" where
  "unescape_attr str = (if list_ex (\<lambda>c. c \<in> {38, 9, 13, 10}) str then unescape_loop str else str)"

section \<open>Elements\<close>

text \<open>\<open>event\<close>s a reader took before its caller goes on.\<close>

fun took :: "nat \<Rightarrow> 'e + 'a \<times> nat \<Rightarrow> 'e + 'a \<times> nat" where
  "took n (Inl er) = Inl er"
| "took n (Inr (x, k)) = Inr (x, n + k)"

definition check_name :: "ustr \<Rightarrow> 'x parse_error + unit" where
  "check_name name = (if is_name name then Inr () else Inl (BadName name))"

fun read_attrs :: "('x + ustr \<times> ustr) list \<Rightarrow> 'x parse_error + attrs" where
  "read_attrs [] = Inr []"
| "read_attrs (Inl x # as) = Inl (XmlError x)"
| "read_attrs (Inr (k, v) # as) =
     (case check_name k of
        Inl er \<Rightarrow> Inl er
      | Inr _ \<Rightarrow> (case read_attrs as of
          Inl er \<Rightarrow> Inl er
        | Inr kvs \<Rightarrow> Inr ((k, unescape_attr v) # kvs)))"

definition element_of :: "ustr \<Rightarrow> ('x + ustr \<times> ustr) list \<Rightarrow> 'x parse_error + ustr \<times> attrs" where
  "element_of name as =
     (case check_name name of
        Inl er \<Rightarrow> Inl er
      | Inr _ \<Rightarrow> (case read_attrs as of Inl er \<Rightarrow> Inl er | Inr kvs \<Rightarrow> Inr (name, kvs)))"

record pending =
  pd_text :: ustr
  pd_resolved :: bool

definition pending_new :: pending where
  "pending_new = \<lparr>pd_text = [], pd_resolved = False\<rparr>"

text \<open>The pending run is empty after a flush.\<close>

definition flush :: "pending \<Rightarrow> node list \<Rightarrow> node list" where
  "flush pd ns = (if pd_text pd \<noteq> [] \<and> (pd_resolved pd \<or> trim (pd_text pd) \<noteq> []) then ns @ [Text (pd_text pd)] else ns)"

definition push_run :: "ustr \<Rightarrow> pending \<Rightarrow> pending" where
  "push_run t pd = pd\<lparr>pd_text := pd_text pd @ t\<rparr>"

definition push_ref :: "ustr \<Rightarrow> pending \<Rightarrow> pending" where
  "push_ref r pd =
     (let pd = pd\<lparr>pd_resolved := True\<rparr>
      in case entity_char r of Some c \<Rightarrow> push_run [c] pd | None \<Rightarrow> push_run ([38] @ r @ [59]) pd)"

function nodes_loop :: "nat \<Rightarrow> node list \<Rightarrow> pending \<Rightarrow> 'x xml_reader \<Rightarrow> 'x parse_error + node list \<times> nat" where
  "nodes_loop depth ns pd [] = Inr (flush pd ns, 0)"
| "nodes_loop depth ns pd (Inl x # ts) = Inl (XmlError x)"
| "nodes_loop depth ns pd (Inr (Start_Tag n as) # ts) =
     (case element_of n as of
        Inl er \<Rightarrow> Inl er
      | Inr (name, kvs) \<Rightarrow>
          if MAX_DEPTH < depth + 1 then Inl TooDeep
          else case nodes_loop (depth + 1) [] pending_new ts of
            Inl er \<Rightarrow> Inl er
          | Inr (cs, k) \<Rightarrow>
              took (1 + k) (nodes_loop depth (flush pd ns @ [Elem (Element name kvs cs)]) pending_new (drop k ts)))"
| "nodes_loop depth ns pd (Inr (Empty_Tag n as) # ts) =
     (case element_of n as of
        Inl er \<Rightarrow> Inl er
      | Inr (name, kvs) \<Rightarrow> took 1 (nodes_loop depth (flush pd ns @ [Elem (Element name kvs [])]) pending_new ts))"
| "nodes_loop depth ns pd (Inr (Text_Tok t) # ts) = took 1 (nodes_loop depth ns (push_run t pd) ts)"
| "nodes_loop depth ns pd (Inr (Ref_Tok r) # ts) = took 1 (nodes_loop depth ns (push_ref r pd) ts)"
| "nodes_loop depth ns pd (Inr (CData_Tok t) # ts) =
     took 1 (nodes_loop depth (flush pd ns @ [CData t]) pending_new ts)"
| "nodes_loop depth ns pd (Inr (Comment_Tok t) # ts) =
     took 1 (nodes_loop depth (flush pd ns @ [Comment t]) pending_new ts)"
| "nodes_loop depth ns pd (Inr (End_Tag n) # ts) = Inr (flush pd ns, 1)"
| "nodes_loop depth ns pd (Inr (Other_Tok t) # ts) = took 1 (nodes_loop depth ns pd ts)"
  by pat_completeness auto
termination nodes_loop
  by (relation "measure (\<lambda>(depth, ns, pd, ts). length ts)") auto

definition read_nodes :: "nat \<Rightarrow> 'x xml_reader \<Rightarrow> 'x parse_error + node list \<times> nat" where
  "read_nodes depth ts = (if MAX_DEPTH < depth then Inl TooDeep else nodes_loop depth [] pending_new ts)"

fun skip_element :: "nat \<Rightarrow> 'x xml_reader \<Rightarrow> 'x parse_error + unit \<times> nat" where
  "skip_element depth [] = Inr ((), 0)"
| "skip_element depth (Inl x # ts) = Inl (XmlError x)"
| "skip_element depth (Inr (Start_Tag n as) # ts) = took 1 (skip_element (depth + 1) ts)"
| "skip_element depth (Inr (End_Tag n) # ts) =
     (if depth = 1 then Inr ((), 1) else took 1 (skip_element (depth - 1) ts))"
| "skip_element depth (Inr t # ts) = took 1 (skip_element depth ts)"

section \<open>Events\<close>

definition EVENT_ATTRS :: "ustr list" where
  "EVENT_ATTRS =
     [lit ''version'', lit ''uid'', lit ''type'', lit ''how'', lit ''time'', lit ''start'', lit ''stale'',
      lit ''access'', lit ''qos'', lit ''opex'', lit ''caveat'', lit ''releasableTo'']"

definition attr_time :: "clock_lib \<Rightarrow> attrs \<Rightarrow> ustr \<Rightarrow> 'x parse_error + cot_time option" where
  "attr_time K as name =
     (case map_of as name of
        None \<Rightarrow> Inr None
      | Some value \<Rightarrow>
          (case time_parse K value of Inl bad \<Rightarrow> Inl (BadTimeAttr name bad) | Inr t \<Rightarrow> Inr (Some t)))"

definition point_number :: "f64_lib \<Rightarrow> attrs \<Rightarrow> ustr \<Rightarrow> f64 \<Rightarrow> 'x parse_error + f64" where
  "point_number F as name fallback =
     (case map_of as name of
        None \<Rightarrow> Inr fallback
      | Some value \<Rightarrow> (case parse_f64 F value of None \<Rightarrow> Inl (BadNumber name value) | Some v \<Rightarrow> Inr v))"

definition point_required :: "f64_lib \<Rightarrow> attrs \<Rightarrow> ustr \<Rightarrow> 'x parse_error + f64" where
  "point_required F as name = (if map_of as name \<noteq> None then point_number F as name 0 else Inl MissingPoint)"

definition read_point :: "f64_lib \<Rightarrow> ('x + ustr \<times> ustr) list \<Rightarrow> 'x parse_error + point" where
  "read_point F tag =
     (case read_attrs tag of Inl er \<Rightarrow> Inl er | Inr as \<Rightarrow>
      case point_required F as (lit ''lat'') of Inl er \<Rightarrow> Inl er | Inr la \<Rightarrow>
      case point_required F as (lit ''lon'') of Inl er \<Rightarrow> Inl er | Inr lo \<Rightarrow>
      case point_number F as (lit ''hae'') UNKNOWN of Inl er \<Rightarrow> Inl er | Inr h \<Rightarrow>
      case point_number F as (lit ''ce'') UNKNOWN of Inl er \<Rightarrow> Inl er | Inr c \<Rightarrow>
      case point_number F as (lit ''le'') UNKNOWN of Inl er \<Rightarrow> Inl er | Inr l \<Rightarrow>
        Inr \<lparr>lat = la, lon = lo, hae = h, ce = c, le = l\<rparr>)"

text \<open>The children of \<open><event>\<close>: the last point and the last detail.\<close>

function event_loop :: "f64_lib \<Rightarrow> point option \<Rightarrow> detail \<Rightarrow> 'x xml_reader \<Rightarrow> 'x parse_error + point option \<times> detail" where
  "event_loop F pt d [] = Inr (pt, d)"
| "event_loop F pt d (Inl x # ts) = Inl (XmlError x)"
| "event_loop F pt d (Inr (Start_Tag n as) # ts) =
     (if n = lit ''point'' then
        (case read_point F as of
           Inl er \<Rightarrow> Inl er
         | Inr p \<Rightarrow> (case skip_element 1 ts of Inl er \<Rightarrow> Inl er | Inr (_, k) \<Rightarrow> event_loop F (Some p) d (drop k ts)))
      else if n = lit ''detail'' then
        (case read_nodes 1 ts of
           Inl er \<Rightarrow> Inl er
         | Inr (ns, k) \<Rightarrow> event_loop F pt (d\<lparr>nodes := ns\<rparr>) (drop k ts))
      else (case skip_element 1 ts of Inl er \<Rightarrow> Inl er | Inr (_, k) \<Rightarrow> event_loop F pt d (drop k ts)))"
| "event_loop F pt d (Inr (Empty_Tag n as) # ts) =
     (if n = lit ''point'' then
        (case read_point F as of Inl er \<Rightarrow> Inl er | Inr p \<Rightarrow> event_loop F (Some p) d ts)
      else event_loop F pt d ts)"
| "event_loop F pt d (Inr (End_Tag n) # ts) = Inr (pt, d)"
| "event_loop F pt d (Inr (Text_Tok t) # ts) = event_loop F pt d ts"
| "event_loop F pt d (Inr (Ref_Tok t) # ts) = event_loop F pt d ts"
| "event_loop F pt d (Inr (CData_Tok t) # ts) = event_loop F pt d ts"
| "event_loop F pt d (Inr (Comment_Tok t) # ts) = event_loop F pt d ts"
| "event_loop F pt d (Inr (Other_Tok t) # ts) = event_loop F pt d ts"
  by pat_completeness auto
termination event_loop
  by (relation "measure (\<lambda>(F, pt, d, ts). length ts)") auto

definition read_event :: "f64_lib \<Rightarrow> clock_lib \<Rightarrow> ('x + ustr \<times> ustr) list \<Rightarrow> 'x xml_reader \<Rightarrow> 'x parse_error + event" where
  "read_event F K tag ts =
     (case read_attrs tag of Inl er \<Rightarrow> Inl er | Inr as \<Rightarrow>
      case attr_time K as (lit ''time'') of Inl er \<Rightarrow> Inl er | Inr time \<Rightarrow>
      let time = (case time of Some t \<Rightarrow> t | None \<Rightarrow> 0) in
      case attr_time K as (lit ''start'') of Inl er \<Rightarrow> Inl er | Inr start \<Rightarrow>
      let start = (case start of Some t \<Rightarrow> t | None \<Rightarrow> time) in
      case event_loop F None detail_new ts of Inl er \<Rightarrow> Inl er | Inr (pt, d) \<Rightarrow>
      case attr_time K as (lit ''stale'') of Inl er \<Rightarrow> Inl er | Inr stale \<Rightarrow>
      case pt of None \<Rightarrow> Inl MissingPoint | Some p \<Rightarrow>
        Inr \<lparr>ev_version = (case map_of as (lit ''version'') of Some v \<Rightarrow> v | None \<Rightarrow> VERSION),
          ev_uid = (case map_of as (lit ''uid'') of Some v \<Rightarrow> v | None \<Rightarrow> []),
          ev_type = (case map_of as (lit ''type'') of Some v \<Rightarrow> v | None \<Rightarrow> []),
          ev_how = map_of as (lit ''how''), ev_time = time, ev_start = start,
          ev_stale = (case stale of Some t \<Rightarrow> t | None \<Rightarrow> start),
          ev_access = map_of as (lit ''access''), ev_qos = map_of as (lit ''qos''),
          ev_opex = map_of as (lit ''opex''), ev_caveat = map_of as (lit ''caveat''),
          ev_releasable_to = map_of as (lit ''releasableTo''),
          ev_extra_attrs = filter (\<lambda>(k, v). k \<notin> set EVENT_ATTRS) as,
          ev_point = p, ev_detail = d, ev_proto_ext = []\<rparr>)"

fun find_event :: "f64_lib \<Rightarrow> clock_lib \<Rightarrow> 'x xml_reader \<Rightarrow> 'x parse_error + event" where
  "find_event F K [] = Inl MissingEvent"
| "find_event F K (Inl x # ts) = Inl (XmlError x)"
| "find_event F K (Inr (Start_Tag n as) # ts) =
     (if n = lit ''event'' then read_event F K as ts else find_event F K ts)"
| "find_event F K (Inr (Empty_Tag n as) # ts) =
     (if n = lit ''event'' then Inl MissingPoint else find_event F K ts)"
| "find_event F K (Inr t # ts) = find_event F K ts"

definition parse_str :: "'x quick_xml \<Rightarrow> f64_lib \<Rightarrow> clock_lib \<Rightarrow> ustr \<Rightarrow> 'x parse_error + event" where
  "parse_str L F K str =
     (let str = (case strip_prefix [0xFEFF] str of Some t \<Rightarrow> t | None \<Rightarrow> str)
      in find_event F K (qx_read L str))"

definition xml_parse :: "'x quick_xml \<Rightarrow> f64_lib \<Rightarrow> clock_lib \<Rightarrow> bytes \<Rightarrow> 'x parse_error + event" where
  "xml_parse L F K bs = (case from_utf8 bs of None \<Rightarrow> Inl Utf8 | Some str \<Rightarrow> parse_str L F K str)"

fun fragment_loop :: "'x xml_reader \<Rightarrow> 'x parse_error + node list" where
  "fragment_loop [] = Inr []"
| "fragment_loop (Inl x # ts) = Inl (XmlError x)"
| "fragment_loop (Inr (Start_Tag n as) # ts) = map_sum (\<lambda>er. er) fst (read_nodes 1 ts)"
| "fragment_loop (Inr t # ts) = fragment_loop ts"

definition parse_fragment :: "'x quick_xml \<Rightarrow> ustr \<Rightarrow> 'x parse_error + node list" where
  "parse_fragment L str =
     (if trim str = [] then Inr []
      else fragment_loop (qx_read L (lit ''<detail>'' @ str @ lit ''</detail>'')))"

end
