(* ===== verification/Xml_Props.thy ===== *)
theory Xml_Props
  imports Xml_Parse
begin

text \<open>
  The XML writer and reader agree: a message made of what XML can carry is read back as it was
  written, through the UTF-8 bytes, the markup and the entities.  The proof goes through the
  markup a value is written as (\<open>node_toks\<close>, \<open>event_toks\<close>): the writer's text is that markup's, and
  the reader returns the value from it.
\<close>

section \<open>What XML can carry\<close>

definition clean_text :: "bool \<Rightarrow> ustr \<Rightarrow> bool" where
  "clean_text keep_ws s \<longleftrightarrow> list_all (\<lambda>c. \<not> forbidden keep_ws c \<and> is_scalar c) s"

definition attrs_clean :: "attrs \<Rightarrow> bool" where
  "attrs_clean as \<longleftrightarrow> list_all (\<lambda>(k, v). is_name k \<and> clean_text False v) as \<and> distinct (map fst as)"

fun is_text :: "node \<Rightarrow> bool" where
  "is_text (Text t) = True"
| "is_text _ = False"

fun apart :: "node list \<Rightarrow> bool" where
  "apart (a # b # ns) \<longleftrightarrow> \<not> (is_text a \<and> is_text b) \<and> apart (b # ns)"
| "apart _ \<longleftrightarrow> True"

text \<open>Text is not all whitespace and not split in two, a comment and a CDATA section do not contain
  what ends them, names are names, no element has an attribute twice.\<close>

fun nodes_clean :: "node list \<Rightarrow> bool" where
  "nodes_clean [] \<longleftrightarrow> True"
| "nodes_clean (Elem (Element name as cs) # ns) \<longleftrightarrow>
     is_name name \<and> attrs_clean as \<and> nodes_clean cs \<and> apart cs \<and> nodes_clean ns"
| "nodes_clean (Text t # ns) \<longleftrightarrow> clean_text True t \<and> trim t \<noteq> [] \<and> nodes_clean ns"
| "nodes_clean (CData t # ns) \<longleftrightarrow> clean_text True t \<and> \<not> occurs (lit '']]>'') t \<and> nodes_clean ns"
| "nodes_clean (Comment t # ns) \<longleftrightarrow>
     clean_text True t \<and> \<not> occurs (lit ''--'') t \<and> \<not> (t \<noteq> [] \<and> last t = 45) \<and> nodes_clean ns"

text \<open>No element with children lies deeper than the reader descends.\<close>

fun nodes_fit :: "nat \<Rightarrow> node list \<Rightarrow> bool" where
  "nodes_fit depth [] \<longleftrightarrow> True"
| "nodes_fit depth (Elem (Element name as cs) # ns) \<longleftrightarrow>
     (cs = [] \<or> depth + 1 \<le> MAX_DEPTH \<and> nodes_fit (depth + 1) cs) \<and> nodes_fit depth ns"
| "nodes_fit depth (_ # ns) \<longleftrightarrow> nodes_fit depth ns"

section \<open>The markup of a value\<close>

abbreviation escaped :: "ustr \<Rightarrow> ustr" where
  "escaped s \<equiv> concat (map esc_char s)"

definition special :: "uchar \<Rightarrow> bool" where
  "special c \<longleftrightarrow> c \<in> {60, 62, 38, 39, 34}"

definition run_toks :: "ustr \<Rightarrow> 'x xml_token list" where
  "run_toks s = (if s = [] then [] else [Text_Tok s])"

fun esc_toks :: "ustr \<Rightarrow> ustr \<Rightarrow> 'x xml_token list" where
  "esc_toks run [] = run_toks run"
| "esc_toks run (c # s) =
     (if special c then run_toks run @ Ref_Tok (butlast (tl (esc_char c))) # esc_toks [] s
      else esc_toks (run @ [c]) s)"

definition attr_toks :: "attrs \<Rightarrow> ('x + ustr \<times> ustr) list" where
  "attr_toks as = map (\<lambda>(k, v). Inr (k, escaped v)) as"

fun node_toks :: "node \<Rightarrow> 'x xml_token list"
  and element_toks :: "element \<Rightarrow> 'x xml_token list" where
  "node_toks (Elem e) = element_toks e"
| "node_toks (Text t) = esc_toks [] t"
| "node_toks (CData t) = [CData_Tok t]"
| "node_toks (Comment t) = [Comment_Tok t]"
| "element_toks (Element name as cs) =
     (if cs = [] then [Empty_Tag name (attr_toks as)]
      else Start_Tag name (attr_toks as) # concat (map node_toks cs) @ [End_Tag name])"

abbreviation nodes_toks :: "node list \<Rightarrow> 'x xml_token list" where
  "nodes_toks ns \<equiv> concat (map node_toks ns)"

lemma doc_text_simps [simp]:
  "doc_text [] = []" "doc_text (t # ts) = tok_text t @ doc_text ts" "doc_text (ts @ us) = doc_text ts @ doc_text us"
  by (simp_all add: doc_text_def)

lemma doc_text_run [simp]: "doc_text (run_toks s) = s"
  by (simp add: run_toks_def)

lemma esc_char_special: "special c \<Longrightarrow> [38] @ butlast (tl (esc_char c)) @ [59] = esc_char c"
  "\<not> special c \<Longrightarrow> esc_char c = [c]"
  by (auto simp: special_def esc_char_def lit_def)

lemma doc_text_esc: "doc_text (esc_toks run s) = run @ escaped s"
  by (induction run s rule: esc_toks.induct) (use esc_char_special in \<open>auto simp: append_assoc [symmetric] simp del: append_assoc\<close>)

section \<open>The writer writes that markup\<close>

lemma strip_clean [simp]: "clean_text b s \<Longrightarrow> strip_controls s b = s"
  by (auto simp: clean_text_def strip_controls_def list_all_iff list_ex_iff)

lemma name_char_clean: "is_name_char c \<Longrightarrow> \<not> forbidden False c"
  by (auto simp: is_name_char_def is_name_start_def in_range_def forbidden_def split: if_splits)

lemma strip_name [simp]: "is_name n \<Longrightarrow> strip_controls n False = n"
  using is_name_chars [of n] name_char_clean by (auto simp: strip_controls_def list_all_iff list_ex_iff)

lemma replace_absent [simp]: "\<not> occurs pat s \<Longrightarrow> replace_all pat sub s = s"
  by (induction s) auto

lemma occurs_starts: "\<not> occurs p s \<Longrightarrow> s \<noteq> [] \<Longrightarrow> \<not> starts_with s p"
  by (cases s) auto

lemma escape_eq: "quick_xml_ok L \<Longrightarrow> qx_escape L s = escaped s"
  by (simp add: quick_xml_ok_def)

lemma xml_attr_text:
  assumes "quick_xml_ok (L :: 'x quick_xml)" and "is_name k" and "clean_text False v"
  shows "xml_attr L (k, v) = attr_text (Inr (k, escaped v) :: 'x + ustr \<times> ustr)"
  using assms(2,3) by (simp add: xml_attr_def lit_def escape_eq [OF assms(1)])

lemma xml_attrs_text:
  assumes "quick_xml_ok (L :: 'x quick_xml)"
  shows "attrs_clean as \<Longrightarrow> concat (map (xml_attr L) as) = concat (map attr_text (attr_toks as :: ('x + ustr \<times> ustr) list))"
  by (induction as) (auto simp: attrs_clean_def attr_toks_def xml_attr_text [OF assms])

lemma write_nodes_toks:
  assumes "quick_xml_ok (L :: 'x quick_xml)"
  shows "nodes_clean ns \<Longrightarrow> concat (map (write_node L) ns) = doc_text (nodes_toks ns :: 'x xml_token list)"
  by (induction ns rule: nodes_clean.induct)
    (auto simp: Let_def xml_attrs_text [OF assms] escape_eq [OF assms] doc_text_esc lit_def)

section \<open>The markup is well formed\<close>

lemma clean_text_Cons: "clean_text b (c # s) \<Longrightarrow> c \<noteq> 13 \<and> clean_text b s"
  by (auto simp: clean_text_def forbidden_def split: if_splits)

lemma escaped_safe: "clean_text b s \<Longrightarrow> list_all (\<lambda>c. c \<notin> {34, 60, 13}) (escaped s)"
proof (induction s)
  case (Cons c s)
  moreover have "list_all (\<lambda>c. c \<notin> {34, 60, 13}) (esc_char c)" if "c \<noteq> 13"
    using that by (simp add: esc_char_def lit_def)
  ultimately show ?case using clean_text_Cons [of b c s] by simp
qed simp

lemma attrs_ok_toks: "attrs_clean as \<Longrightarrow> attrs_ok (attr_toks as :: ('x + ustr \<times> ustr) list)"
proof -
  assume a: "attrs_clean as"
  have "map (\<lambda>a. case a of Inl _ \<Rightarrow> [] | Inr (k, v) \<Rightarrow> k) (attr_toks as :: ('x + ustr \<times> ustr) list) = map fst as"
    by (auto simp: attr_toks_def)
  moreover have "list_all (\<lambda>a. case a of Inl _ \<Rightarrow> False
       | Inr (k, v) \<Rightarrow> is_name k \<and> list_all (\<lambda>c. c \<notin> {34, 60, 13}) v) (attr_toks as :: ('x + ustr \<times> ustr) list)"
    using a escaped_safe unfolding attrs_clean_def attr_toks_def list_all_iff by fastforce
  ultimately show ?thesis using a unfolding attrs_ok.simps attrs_clean_def by (simp only: simp_thms)
qed

lemma ref_tok_ok: "special c \<Longrightarrow> tok_ok (Ref_Tok (butlast (tl (esc_char c))))"
  by (auto simp: special_def esc_char_def lit_def)

lemma run_toks_ok: "list_all (\<lambda>c. c \<notin> {60, 38, 13}) run \<Longrightarrow> list_all tok_ok (run_toks run)"
  by (simp add: run_toks_def)

lemma esc_toks_ok:
  "list_all (\<lambda>c. c \<notin> {60, 38, 13}) run \<Longrightarrow> clean_text True s \<Longrightarrow> list_all tok_ok (esc_toks run s)"
proof (induction run s rule: esc_toks.induct)
  case (2 run c s)
  then show ?case
    using ref_tok_ok [of c] run_toks_ok [of run] clean_text_Cons [of True c s]
    by (cases "special c") (auto simp: special_def)
qed (use run_toks_ok in auto)

lemma nodes_toks_ok: "nodes_clean ns \<Longrightarrow> list_all tok_ok (nodes_toks ns)"
proof (induction ns rule: nodes_clean.induct)
  case (2 name as cs ns)
  then show ?case using attrs_ok_toks [of as] by (simp del: attrs_ok.simps)
next
  case (3 t ns)
  then show ?case using esc_toks_ok [of "[]" t] by simp
qed (auto simp: clean_text_def forbidden_def list_all_iff)

lemma spaced_append:
  "spaced (xs @ ys) \<longleftrightarrow> spaced xs \<and> spaced ys \<and>
     (xs \<noteq> [] \<and> ys \<noteq> [] \<longrightarrow> \<not> (is_text_tok (last xs) \<and> is_text_tok (hd ys)))"
  by (induction xs rule: spaced.induct) (cases ys; auto)+

lemma spaced_Cons: "spaced (t # ts) \<longleftrightarrow> spaced ts \<and> (ts \<noteq> [] \<longrightarrow> \<not> (is_text_tok t \<and> is_text_tok (hd ts)))"
  by (cases ts) auto

lemma esc_toks_spaced: "spaced (esc_toks run s) \<and> (run @ s \<noteq> [] \<longrightarrow> esc_toks run s \<noteq> [])"
proof (induction run s rule: esc_toks.induct)
  case (2 run c s)
  then show ?case
    by (cases "special c") (simp_all add: run_toks_def spaced_append spaced_Cons)
qed (simp add: run_toks_def)

lemma node_toks_ends:
  "\<not> is_text n \<Longrightarrow> node_toks n \<noteq> [] \<and> \<not> is_text_tok (hd (node_toks n)) \<and> \<not> is_text_tok (last (node_toks n))"
proof (cases n)
  case (Elem e)
  then show ?thesis by (cases e) simp
qed simp_all

lemma nodes_toks_spaced:
  "nodes_clean ns \<Longrightarrow> apart ns \<Longrightarrow> spaced (nodes_toks ns :: 'x xml_token list)"
proof (induction ns rule: nodes_clean.induct)
  case (2 name as cs ns)
  have "spaced (node_toks (Elem (Element name as cs)) :: 'x xml_token list)"
    using 2 by (simp add: spaced_append spaced_Cons)
  moreover have "apart ns" using 2 by (cases ns) auto
  ultimately show ?case
    using 2 node_toks_ends [of "Elem (Element name as cs)"] by (auto simp: spaced_append)
next
  case (3 t ns)
  have "spaced (nodes_toks ns :: 'x xml_token list)" using 3 by (cases ns) auto
  moreover have "nodes_toks ns = [] \<or> \<not> is_text_tok (hd (nodes_toks ns :: 'x xml_token list))"
  proof (cases ns)
    case (Cons a l)
    then have "(node_toks a :: 'x xml_token list) \<noteq> [] \<and> \<not> is_text_tok (hd (node_toks a :: 'x xml_token list))"
      using 3 node_toks_ends [of a] by auto
    then show ?thesis by (simp add: Cons)
  qed simp
  ultimately show ?case using 3 esc_toks_spaced [of "[]" t] by (auto simp: spaced_append)
next
  case (4 t ns)
  then have "apart ns" by (cases ns) auto
  with 4 show ?case by (simp add: spaced_Cons)
next
  case (5 t ns)
  then have "apart ns" by (cases ns) auto
  with 5 show ?case by (simp add: spaced_Cons)
qed simp

lemma balanced_esc: "balanced st (esc_toks run s @ ts) = balanced st ts"
  by (induction run s rule: esc_toks.induct) (auto simp: run_toks_def)

lemma balanced_nodes: "balanced st (nodes_toks ns @ ts) = balanced st ts"
  by (induction ns arbitrary: st ts rule: nodes_clean.induct) (auto simp: balanced_esc)

section \<open>The reader reads it back\<close>

lemma took_took [simp]: "took m (took n r) = took (m + n) r"
  by (cases r) (auto simp: add.assoc split: prod.splits)

lemma took_Inr: "took n (Inr (x, k)) = Inr (x, n + k)"
  by simp

lemma entity_special: "special c \<Longrightarrow> entity_char (butlast (tl (esc_char c))) = Some c"
  by (auto simp: special_def esc_char_def lit_def entity_char_def)

lemma unescape_esc:
  assumes "c \<notin> {9, 10, 13}"
  shows "unescape_loop (esc_char c @ s) = c # unescape_loop s"
proof -
  have "unescape_loop (lit ''&lt;'' @ s) = 60 # unescape_loop s" "unescape_loop (lit ''&gt;'' @ s) = 62 # unescape_loop s"
    "unescape_loop (lit ''&amp;'' @ s) = 38 # unescape_loop s" "unescape_loop (lit ''&apos;'' @ s) = 39 # unescape_loop s"
    "unescape_loop (lit ''&quot;'' @ s) = 34 # unescape_loop s"
    by (simp_all add: lit_def unescape_loop.simps(2) reference_end_def is_ref_char_def in_range_def entity_char_def)
  with assms show ?thesis by (simp add: esc_char_def unescape_loop.simps(2))
qed

lemma unescape_plain: "\<not> list_ex (\<lambda>c. c \<in> {38, 9, 13, 10}) s \<Longrightarrow> unescape_loop s = s"
  by (induction s) (auto simp: unescape_loop.simps(2))

lemma unescape_attr_loop: "unescape_attr s = unescape_loop s"
  by (simp add: unescape_attr_def unescape_plain)

lemma unescape_escaped: "clean_text False v \<Longrightarrow> unescape_attr (escaped v) = v"
  unfolding unescape_attr_loop
proof (induction v)
  case (Cons c v)
  then have "c \<notin> {9, 10, 13}" "clean_text False v" by (auto simp: clean_text_def forbidden_def split: if_splits)
  with Cons.IH unescape_esc [of c "escaped v"] show ?case by simp
qed simp

lemma read_attr_toks: "attrs_clean as \<Longrightarrow> read_attrs (attr_toks as) = Inr as"
proof (induction as)
  case (Cons kv as)
  obtain k v where kv: "kv = (k, v)" by force
  with Cons.prems have "is_name k" "clean_text False v" "attrs_clean as" by (auto simp: attrs_clean_def)
  with Cons.IH show ?case by (simp add: attr_toks_def kv check_name_def unescape_escaped)
qed (simp add: attr_toks_def)

lemma element_of_toks: "is_name name \<Longrightarrow> attrs_clean as \<Longrightarrow> element_of name (attr_toks as) = Inr (name, as)"
  by (simp add: element_of_def check_name_def read_attr_toks)

text \<open>The run a text is collected into.\<close>

definition pend :: "ustr \<Rightarrow> pending \<Rightarrow> pending" where
  "pend t pd = \<lparr>pd_text = pd_text pd @ t, pd_resolved = pd_resolved pd \<or> list_ex special t\<rparr>"

lemma pend_Nil [simp]: "pend [] pd = pd"
  by (simp add: pend_def)

lemma pend_pend [simp]: "pend t (pend s pd) = pend (s @ t) pd"
  by (simp add: pend_def)

lemma push_run_pend: "\<not> list_ex special t \<Longrightarrow> push_run t pd = pend t pd"
  by (simp add: push_run_def pend_def)

lemma push_ref_pend: "special c \<Longrightarrow> push_ref (butlast (tl (esc_char c))) pd = pend [c] pd"
  by (simp add: push_ref_def entity_special Let_def push_run_def pend_def)

lemma loop_run:
  "\<not> list_ex special run \<Longrightarrow>
   nodes_loop d ns pd (map Inr (run_toks run) @ ts) = took (length (run_toks run :: 'x xml_token list)) (nodes_loop d ns (pend run pd) (ts :: 'x xml_reader))"
  by (cases "nodes_loop d ns (pend run pd) ts") (auto simp: run_toks_def push_run_pend)

lemma loop_esc:
  "\<not> list_ex special run \<Longrightarrow>
   nodes_loop d ns pd (map Inr (esc_toks run s) @ ts) =
     took (length (esc_toks run s :: 'x xml_token list)) (nodes_loop d ns (pend (run @ s) pd) (ts :: 'x xml_reader))"
proof (induction run s arbitrary: pd rule: esc_toks.induct)
  case (1 run)
  then show ?case by (simp add: loop_run)
next
  case (2 run c s)
  show ?case
  proof (cases "special c")
    case True
    with 2 show ?thesis by (simp add: loop_run push_ref_pend)
  next
    case False
    with 2 show ?thesis by simp
  qed
qed

lemma flush_new [simp]: "flush pending_new ns = ns"
  by (simp add: flush_def pending_new_def)

lemma pd_text_new [simp]: "pd_text pending_new = []"
  by (simp add: pending_new_def)

lemma apart_tl: "apart (n # ns) \<Longrightarrow> apart ns"
  by (cases ns) auto

lemma loop_nodes:
  "nodes_clean ns \<Longrightarrow> apart ns \<Longrightarrow> nodes_fit d ns \<Longrightarrow>
   (pd_text pd \<noteq> [] \<longrightarrow> ns = [] \<or> \<not> is_text (hd ns)) \<Longrightarrow> (pd_text pd = [] \<longrightarrow> pd = pending_new) \<Longrightarrow>
   nodes_loop d acc pd (map Inr (nodes_toks ns) @ Inr (End_Tag n) # (ts :: 'x xml_reader)) =
     Inr (flush pd acc @ ns, length (nodes_toks ns :: 'x xml_token list) + 1)"
proof (induction ns arbitrary: d acc pd n ts rule: nodes_clean.induct)
  case 1
  then show ?case by simp
next
  case (2 name as cs ns)
  have rest: "nodes_loop d (flush pd acc @ [Elem (Element name as cs)]) pending_new
      (map Inr (nodes_toks ns) @ Inr (End_Tag n) # ts) =
      Inr (flush pd acc @ [Elem (Element name as cs)] @ ns, length (nodes_toks ns :: 'x xml_token list) + 1)"
    using "2.IH"(2) [of d pending_new "flush pd acc @ [Elem (Element name as cs)]" n ts] "2.prems" apart_tl
    by simp
  have el: "element_of name (attr_toks as :: ('x + ustr \<times> ustr) list) = Inr (name, as)"
    using "2.prems" by (intro element_of_toks) simp_all
  show ?case
  proof (cases "cs = []")
    case True
    with rest el show ?thesis by simp
  next
    case False
    then have "\<not> MAX_DEPTH < d + 1" using "2.prems" by simp
    moreover have "nodes_loop (d + 1) [] pending_new
        (map Inr (nodes_toks cs) @ Inr (End_Tag name) # map Inr (nodes_toks ns) @ Inr (End_Tag n) # ts) =
        Inr (cs, length (nodes_toks cs :: 'x xml_token list) + 1)"
      using "2.IH"(1) [of "d + 1" pending_new "[]" name "map Inr (nodes_toks ns) @ Inr (End_Tag n) # ts"] "2.prems" False
      by simp
    ultimately show ?thesis using False rest el by simp
  qed
next
  case (3 t ns)
  then have t: "t \<noteq> []" "trim t \<noteq> []" by auto
  from "3.prems" have "pd = pending_new" by auto
  then have pd: "pd_text (pend t pd) = t" "flush (pend t pd) acc = acc @ [Text t]"
    using t by (simp_all add: pend_def pending_new_def flush_def)
  have "ns = [] \<or> \<not> is_text (hd ns)" using "3.prems"(2) by (cases ns) auto
  then have "nodes_loop d acc (pend t pd) (map Inr (nodes_toks ns) @ Inr (End_Tag n) # ts) =
      Inr (flush (pend t pd) acc @ ns, length (nodes_toks ns :: 'x xml_token list) + 1)"
    using "3.IH" [of d "pend t pd" acc n ts] "3.prems" t pd(1) apart_tl by simp
  then show ?case
    using loop_esc [of "[]" d acc pd t "map Inr (nodes_toks ns) @ Inr (End_Tag n) # ts"] pd \<open>pd = pending_new\<close>
    by (simp add: append_assoc)
next
  case (4 t ns)
  then show ?case
    using "4.IH" [of d pending_new "flush pd acc @ [CData t]" n ts] apart_tl by simp
next
  case (5 t ns)
  then show ?case
    using "5.IH" [of d pending_new "flush pd acc @ [Comment t]" n ts] apart_tl by simp
qed

lemma read_nodes_toks:
  assumes "nodes_clean ns" and "apart ns" and "nodes_fit 1 ns"
  shows "read_nodes 1 (map Inr (nodes_toks ns) @ Inr (End_Tag n) # (ts :: 'x xml_reader)) =
    Inr (ns, length (nodes_toks ns :: 'x xml_token list) + 1)"
  using loop_nodes [of ns 1 pending_new "[]" n ts] assms
  by (simp add: read_nodes_def MAX_DEPTH_def)

lemma read_fragment_toks:
  assumes "nodes_clean ns" and "apart ns" and "nodes_fit 1 ns"
  shows "fragment_loop (map Inr (Start_Tag n [] # nodes_toks ns @ [End_Tag n]) :: 'x xml_reader) = Inr ns"
  using read_nodes_toks [OF assms, of n "[] :: 'x xml_reader"] by simp

section \<open>Whole messages\<close>

definition event_attrs :: "clock_lib \<Rightarrow> event \<Rightarrow> attrs" where
  "event_attrs K e = present
     [(lit ''version'', Some (ev_version e)), (lit ''uid'', Some (ev_uid e)), (lit ''type'', Some (ev_type e)),
      (lit ''how'', ev_how e), (lit ''time'', Some (time_string K (ev_time e))),
      (lit ''start'', Some (time_string K (ev_start e))), (lit ''stale'', Some (time_string K (ev_stale e))),
      (lit ''access'', ev_access e), (lit ''qos'', ev_qos e), (lit ''opex'', ev_opex e),
      (lit ''caveat'', ev_caveat e), (lit ''releasableTo'', ev_releasable_to e)] @ ev_extra_attrs e"

definition point_attrs :: "f64_lib \<Rightarrow> point \<Rightarrow> attrs" where
  "point_attrs F p =
     [(lit ''lat'', format_f64 F (lat p)), (lit ''lon'', format_f64 F (lon p)), (lit ''hae'', format_f64 F (hae p)),
      (lit ''ce'', format_f64 F (ce p)), (lit ''le'', format_f64 F (le p))]"

definition event_toks :: "f64_lib \<Rightarrow> clock_lib \<Rightarrow> event \<Rightarrow> 'x xml_token list" where
  "event_toks F K e =
     [Other_Tok (lit ''xml version=\"1.0\" encoding=\"UTF-8\"''), Text_Tok [10],
      Start_Tag (lit ''event'') (attr_toks (event_attrs K e)),
      Empty_Tag (lit ''point'') (attr_toks (point_attrs F (ev_point e)))] @
     (if nodes (ev_detail e) = [] then []
      else Start_Tag (lit ''detail'') [] # nodes_toks (nodes (ev_detail e)) @ [End_Tag (lit ''detail'')]) @
     [End_Tag (lit ''event'')]"

text \<open>What the number and time printers print fits in an attribute, and a message that XML can
  carry: its texts, its extra attributes apart from the known ones, finite coordinates, instants of a
  four-digit year, a detail the reader descends into, no protobuf extension.\<close>

definition prints_ok :: "f64_lib \<Rightarrow> clock_lib \<Rightarrow> bool" where
  "prints_ok F K \<longleftrightarrow> (\<forall>v. is_finite v \<longrightarrow> clean_text False (show_f64 F v)) \<and>
     (\<forall>t s. calendar K t = Some s \<longrightarrow> clean_text False s)"

definition opt_clean :: "ustr option \<Rightarrow> bool" where
  "opt_clean v \<longleftrightarrow> (case v of None \<Rightarrow> True | Some s \<Rightarrow> clean_text False s)"

definition event_clean :: "clock_lib \<Rightarrow> event \<Rightarrow> bool" where
  "event_clean K e \<longleftrightarrow>
     clean_text False (ev_version e) \<and> clean_text False (ev_uid e) \<and> clean_text False (ev_type e) \<and>
     opt_clean (ev_how e) \<and> opt_clean (ev_access e) \<and> opt_clean (ev_qos e) \<and> opt_clean (ev_opex e) \<and>
     opt_clean (ev_caveat e) \<and> opt_clean (ev_releasable_to e) \<and>
     attrs_clean (ev_extra_attrs e) \<and> fst ` set (ev_extra_attrs e) \<inter> set EVENT_ATTRS = {} \<and>
     calendar K (ev_time e) \<noteq> None \<and> calendar K (ev_start e) \<noteq> None \<and> calendar K (ev_stale e) \<noteq> None \<and>
     four_digit_year (ev_time e) \<and> four_digit_year (ev_start e) \<and> four_digit_year (ev_stale e) \<and>
     is_finite (lat (ev_point e)) \<and> is_finite (lon (ev_point e)) \<and> is_finite (hae (ev_point e)) \<and>
     is_finite (ce (ev_point e)) \<and> is_finite (le (ev_point e)) \<and>
     nodes_clean (nodes (ev_detail e)) \<and> apart (nodes (ev_detail e)) \<and> nodes_fit 1 (nodes (ev_detail e)) \<and>
     ev_proto_ext e = []"

lemma attrs_clean_present:
  "list_all (\<lambda>(k, v). is_name k \<and> opt_clean v) kvs \<Longrightarrow> distinct (map fst kvs) \<Longrightarrow> attrs_clean (present kvs)"
proof (induction kvs)
  case (Cons kv kvs)
  obtain k v where kv: "kv = (k, v)" by force
  with Cons show ?case
    using fst_present [of kvs] by (cases v) (auto simp: attrs_clean_def opt_clean_def)
qed (simp add: attrs_clean_def)

lemma attrs_clean_append:
  "attrs_clean as \<Longrightarrow> attrs_clean bs \<Longrightarrow> fst ` set as \<inter> fst ` set bs = {} \<Longrightarrow> attrs_clean (as @ bs)"
  by (auto simp: attrs_clean_def)

lemma names_ok:
  "list_all is_name EVENT_ATTRS" "list_all is_name (map lit [''event'', ''point'', ''detail'', ''lat'', ''lon'', ''hae'', ''ce'', ''le''])"
  by (simp_all add: EVENT_ATTRS_def lit_def is_name_char_def is_name_start_def in_range_def)

lemma time_clean: "prints_ok F K \<Longrightarrow> calendar K t \<noteq> None \<Longrightarrow> clean_text False (time_string K t)"
  by (auto simp: prints_ok_def time_string_def)

lemma number_clean: "prints_ok F K \<Longrightarrow> is_finite v \<Longrightarrow> clean_text False (format_f64 F v)"
  by (simp add: prints_ok_def format_f64_def)

lemma event_attrs_clean:
  assumes "prints_ok F K" and "event_clean K e"
  shows "attrs_clean (event_attrs K e)"
proof -
  let ?kvs = "[(lit ''version'', Some (ev_version e)), (lit ''uid'', Some (ev_uid e)), (lit ''type'', Some (ev_type e)),
      (lit ''how'', ev_how e), (lit ''time'', Some (time_string K (ev_time e))),
      (lit ''start'', Some (time_string K (ev_start e))), (lit ''stale'', Some (time_string K (ev_stale e))),
      (lit ''access'', ev_access e), (lit ''qos'', ev_qos e), (lit ''opex'', ev_opex e),
      (lit ''caveat'', ev_caveat e), (lit ''releasableTo'', ev_releasable_to e)]"
  have keys: "map fst ?kvs = EVENT_ATTRS" by (simp add: EVENT_ATTRS_def)
  have "list_all (\<lambda>(k, v). is_name k \<and> opt_clean v) ?kvs"
    using names_ok(1) assms time_clean [OF assms(1)] by (simp add: EVENT_ATTRS_def event_clean_def opt_clean_def)
  moreover have "distinct (map fst ?kvs)" unfolding keys by (simp add: EVENT_ATTRS_def)
  ultimately have "attrs_clean (present ?kvs)" by (rule attrs_clean_present)
  moreover have "fst ` set (present ?kvs) \<subseteq> set EVENT_ATTRS"
    using fst_present [of ?kvs] keys by (metis list.set_map)
  ultimately show ?thesis
    unfolding event_attrs_def using assms(2) by (intro attrs_clean_append) (auto simp: event_clean_def)
qed

lemma point_attrs_clean:
  assumes "prints_ok F K" and "event_clean K e"
  shows "attrs_clean (point_attrs F (ev_point e))"
  using names_ok(2) assms number_clean [OF assms(1)]
  by (simp add: point_attrs_def attrs_clean_def event_clean_def)

lemma present_text:
  assumes "quick_xml_ok (L :: 'x quick_xml)"
  shows "attrs_clean (present kvs) \<Longrightarrow>
    concat (map (\<lambda>(k, v). xml_attr_opt L k v) kvs) = concat (map attr_text (attr_toks (present kvs) :: ('x + ustr \<times> ustr) list))"
  unfolding xml_attrs_text [OF assms, symmetric]
  by (induction kvs) (auto simp: xml_attr_opt_def attrs_clean_def split: option.splits)

lemma write_text_toks:
  assumes "quick_xml_ok (L :: 'x quick_xml)" and "prints_ok F K" and "event_clean K e"
  shows "write_text L F K e = doc_text (event_toks F K e :: 'x xml_token list)"
proof -
  have "concat (map (xml_attr L) (event_attrs K e)) = concat (map attr_text (attr_toks (event_attrs K e) :: ('x + ustr \<times> ustr) list))"
    and "concat (map (xml_attr L) (point_attrs F (ev_point e))) =
      concat (map attr_text (attr_toks (point_attrs F (ev_point e)) :: ('x + ustr \<times> ustr) list))"
    using event_attrs_clean [OF assms(2,3)] point_attrs_clean [OF assms(2,3)] by (simp_all add: xml_attrs_text [OF assms(1)])
  moreover have "concat (map (xml_attr L) (present kvs)) = concat (map (\<lambda>(k, v). xml_attr_opt L k v) kvs)" for kvs
    by (induction kvs) (auto simp: xml_attr_opt_def split: option.splits)
  moreover have "write_nodes L (nodes (ev_detail e)) = doc_text (nodes_toks (nodes (ev_detail e)) :: 'x xml_token list)"
    using assms(3) by (simp add: write_nodes_def write_nodes_toks [OF assms(1)] event_clean_def)
  moreover have "[] = attr_toks []" by (simp add: attr_toks_def)
  ultimately show ?thesis
    by (simp add: write_text_def event_toks_def event_attrs_def point_attrs_def xml_attr_opt_def DECLARATION_def
        d_is_empty_def lit_append [symmetric]) (simp add: lit_def)
qed

lemma event_toks_ok:
  assumes "prints_ok F K" and "event_clean K e"
  shows "doc_ok (event_toks F K e :: 'x xml_token list)"
proof -
  let ?ns = "nodes (ev_detail e)"
  have ns: "nodes_clean ?ns" "apart ?ns" using assms(2) by (simp_all add: event_clean_def)
  have as: "attrs_ok (attr_toks (event_attrs K e) :: ('x + ustr \<times> ustr) list)"
    "attrs_ok (attr_toks (point_attrs F (ev_point e)) :: ('x + ustr \<times> ustr) list)"
    using attrs_ok_toks event_attrs_clean [OF assms] point_attrs_clean [OF assms] by blast+
  have nt: "list_all tok_ok (nodes_toks ?ns :: 'x xml_token list)" "spaced (nodes_toks ?ns :: 'x xml_token list)"
    by (rule nodes_toks_ok [OF ns(1)], rule nodes_toks_spaced [OF ns])
  have decl: "tok_ok (Other_Tok (lit ''xml version=\"1.0\" encoding=\"UTF-8\"''))"
    and none: "attrs_ok ([] :: ('x + ustr \<times> ustr) list)" by (simp_all add: lit_def)
  have "list_all tok_ok (event_toks F K e :: 'x xml_token list)"
    using names_ok(2) as nt(1) decl none by (simp add: event_toks_def del: attrs_ok.simps tok_ok.simps(8))
  moreover have "spaced (event_toks F K e :: 'x xml_token list)"
    using nt(2) by (simp add: event_toks_def spaced_append spaced_Cons)
  moreover have "balanced [] (event_toks F K e :: 'x xml_token list)"
    by (simp add: event_toks_def balanced_nodes)
  ultimately show ?thesis by (simp add: doc_ok_def)
qed

lemma map_of_present_Cons: "map_of (present ((k, v) # kvs)) n = (if k = n \<and> v \<noteq> None then v else map_of (present kvs) n)"
  by (cases v) simp_all

lemma event_attr_read:
  assumes "event_clean K e"
  shows "map_of (event_attrs K e) (lit ''version'') = Some (ev_version e)"
    "map_of (event_attrs K e) (lit ''uid'') = Some (ev_uid e)" "map_of (event_attrs K e) (lit ''type'') = Some (ev_type e)"
    "map_of (event_attrs K e) (lit ''how'') = ev_how e" "map_of (event_attrs K e) (lit ''access'') = ev_access e"
    "map_of (event_attrs K e) (lit ''qos'') = ev_qos e" "map_of (event_attrs K e) (lit ''opex'') = ev_opex e"
    "map_of (event_attrs K e) (lit ''caveat'') = ev_caveat e"
    "map_of (event_attrs K e) (lit ''releasableTo'') = ev_releasable_to e"
    "map_of (event_attrs K e) (lit ''time'') = Some (time_string K (ev_time e))"
    "map_of (event_attrs K e) (lit ''start'') = Some (time_string K (ev_start e))"
    "map_of (event_attrs K e) (lit ''stale'') = Some (time_string K (ev_stale e))"
    "filter (\<lambda>(k, v). k \<notin> set EVENT_ATTRS) (event_attrs K e) = ev_extra_attrs e"
proof -
  have ex: "fst ` set (ev_extra_attrs e) \<inter> set EVENT_ATTRS = {}" using assms by (simp add: event_clean_def)
  have "map_of (xs @ ev_extra_attrs e) k = map_of xs k" if "k \<in> set EVENT_ATTRS" for xs k
    using that ex by (intro map_of_append_other) auto
  note rd = this [unfolded EVENT_ATTRS_def, simplified]
  show "map_of (event_attrs K e) (lit ''version'') = Some (ev_version e)"
    "map_of (event_attrs K e) (lit ''uid'') = Some (ev_uid e)" "map_of (event_attrs K e) (lit ''type'') = Some (ev_type e)"
    "map_of (event_attrs K e) (lit ''how'') = ev_how e" "map_of (event_attrs K e) (lit ''access'') = ev_access e"
    "map_of (event_attrs K e) (lit ''qos'') = ev_qos e" "map_of (event_attrs K e) (lit ''opex'') = ev_opex e"
    "map_of (event_attrs K e) (lit ''caveat'') = ev_caveat e"
    "map_of (event_attrs K e) (lit ''releasableTo'') = ev_releasable_to e"
    "map_of (event_attrs K e) (lit ''time'') = Some (time_string K (ev_time e))"
    "map_of (event_attrs K e) (lit ''start'') = Some (time_string K (ev_start e))"
    "map_of (event_attrs K e) (lit ''stale'') = Some (time_string K (ev_stale e))"
    unfolding event_attrs_def by (simp_all add: rd map_of_present_Cons del: present_Some present_None)
  show "filter (\<lambda>(k, v). k \<notin> set EVENT_ATTRS) (event_attrs K e) = ev_extra_attrs e"
    unfolding event_attrs_def filter_append
    by (subst filter_notin_present) (use ex filter_notin_extra [of "ev_extra_attrs e" "set EVENT_ATTRS"] in \<open>auto simp: EVENT_ATTRS_def\<close>)
qed

lemma read_point_toks:
  assumes "prints_ok F K" and "f64_ok F" and "event_clean K e"
  shows "read_point F (attr_toks (point_attrs F (ev_point e))) = (Inr (ev_point e) :: 'x parse_error + point)"
proof -
  have "read_attrs (attr_toks (point_attrs F (ev_point e))) = (Inr (point_attrs F (ev_point e)) :: 'x parse_error + attrs)"
    by (rule read_attr_toks [OF point_attrs_clean [OF assms(1,3)]])
  moreover have "is_finite (lat (ev_point e))" "is_finite (lon (ev_point e))" "is_finite (hae (ev_point e))"
    "is_finite (ce (ev_point e))" "is_finite (le (ev_point e))"
    using assms(3) by (simp_all add: event_clean_def)
  ultimately show ?thesis
    using assms(2) by (simp add: read_point_def point_required_def point_number_def point_attrs_def)
qed

lemma attr_time_read:
  assumes "clock_ok K" and "event_clean K e"
  shows "attr_time K (event_attrs K e) (lit ''time'') = (Inr (Some (ev_time e)) :: 'x parse_error + cot_time option)"
    "attr_time K (event_attrs K e) (lit ''start'') = (Inr (Some (ev_start e)) :: 'x parse_error + cot_time option)"
    "attr_time K (event_attrs K e) (lit ''stale'') = (Inr (Some (ev_stale e)) :: 'x parse_error + cot_time option)"
  using assms time_parse_string [OF assms(1)]
  by (auto simp: attr_time_def event_attr_read [OF assms(2)] event_clean_def)

lemma event_loop_toks:
  assumes "prints_ok F K" and "f64_ok F" and "event_clean K e"
  shows "event_loop F None detail_new (map Inr (tl (tl (tl (event_toks F K e :: 'x xml_token list))))) =
    Inr (Some (ev_point e), ev_detail e)"
proof -
  let ?ns = "nodes (ev_detail e)"
  have pt: "read_point F (attr_toks (point_attrs F (ev_point e)) :: ('x + ustr \<times> ustr) list) = Inr (ev_point e)"
    by (rule read_point_toks [OF assms])
  show ?thesis
  proof (cases "?ns = []")
    case True
    then have "ev_detail e = detail_new" by (simp add: detail_new_def)
    with True pt show ?thesis by (simp add: event_toks_def)
  next
    case False
    have "read_nodes 1 (map Inr (nodes_toks ?ns) @ Inr (End_Tag (lit ''detail'')) # ([Inr (End_Tag (lit ''event''))] :: 'x xml_reader)) =
        Inr (?ns, length (nodes_toks ?ns :: 'x xml_token list) + 1)"
      using assms(3) by (intro read_nodes_toks) (simp_all add: event_clean_def)
    with False pt show ?thesis by (simp add: event_toks_def)
  qed
qed

lemma parse_toks:
  assumes "clock_ok K" and "f64_ok F" and "prints_ok F K" and "event_clean K e"
  shows "find_event F K (map Inr (event_toks F K e) :: 'x xml_reader) = Inr e"
proof -
  have read: "read_attrs (attr_toks (event_attrs K e)) = (Inr (event_attrs K e) :: 'x parse_error + attrs)"
    by (rule read_attr_toks [OF event_attrs_clean [OF assms(3,4)]])
  have "find_event F K (map Inr (event_toks F K e) :: 'x xml_reader) =
      read_event F K (attr_toks (event_attrs K e)) (map Inr (tl (tl (tl (event_toks F K e :: 'x xml_token list)))))"
    by (simp add: event_toks_def)
  also have "\<dots> = Inr e"
    using assms(4)
    by (simp add: read_event_def read attr_time_read [OF assms(1,4)] event_loop_toks [OF assms(3,2,4)]
        event_attr_read [OF assms(4)] Let_def event_clean_def)
  finally show ?thesis .
qed

lemma name_char_scalar: "is_name_char c \<Longrightarrow> is_scalar c"
  by (auto simp: is_name_char_def is_name_start_def in_range_def is_scalar_def)

lemma name_scalar: "is_name n \<Longrightarrow> list_all is_scalar n"
  using is_name_chars [of n] name_char_scalar by (auto simp: list_all_iff)

lemma lit_scalar: "list_all is_scalar (lit s)"
proof -
  have "is_scalar (of_char c)" for c
    by (cases c) (simp add: is_scalar_def of_char_def horner_sum_simps)
  then show ?thesis by (simp add: lit_def list_all_iff)
qed

lemma clean_scalar: "clean_text b s \<Longrightarrow> list_all is_scalar s"
  by (auto simp: clean_text_def list_all_iff)

lemma ascii_scalar: "c < 0xD800 \<Longrightarrow> is_scalar c"
  by (simp add: is_scalar_def)

lemma escaped_scalar: "clean_text b s \<Longrightarrow> list_all is_scalar (escaped s)"
  by (induction s) (auto simp: clean_text_def esc_char_def lit_scalar)

lemma attrs_scalar: "attrs_clean as \<Longrightarrow> list_all is_scalar (concat (map attr_text (attr_toks as)))"
  by (induction as)
    (auto simp: attrs_clean_def attr_toks_def name_scalar escaped_scalar, simp_all add: is_scalar_def)

lemma nodes_scalar: "nodes_clean ns \<Longrightarrow> list_all is_scalar (doc_text (nodes_toks ns))"
  by (induction ns rule: nodes_clean.induct)
    (simp_all add: attrs_scalar name_scalar doc_text_esc escaped_scalar [of True] lit_scalar
      clean_scalar [of True] ascii_scalar)

lemma event_scalar:
  assumes "prints_ok F K" and "event_clean K e"
  shows "list_all is_scalar (doc_text (event_toks F K e :: 'x xml_token list))"
proof -
  have nil: "attr_toks [] = ([] :: ('x + ustr \<times> ustr) list)" by (simp add: attr_toks_def)
  have "list_all is_scalar (concat (map attr_text (attr_toks (event_attrs K e) :: ('x + ustr \<times> ustr) list)))"
    by (rule attrs_scalar [OF event_attrs_clean [OF assms]])
  moreover have
    "list_all is_scalar (concat (map attr_text (attr_toks (point_attrs F (ev_point e)) :: ('x + ustr \<times> ustr) list)))"
    by (rule attrs_scalar [OF point_attrs_clean [OF assms]])
  moreover have "list_all is_scalar (doc_text (nodes_toks (nodes (ev_detail e)) :: 'x xml_token list))"
    using assms(2) by (intro nodes_scalar) (simp add: event_clean_def)
  ultimately show ?thesis by (simp add: event_toks_def lit_scalar ascii_scalar nil)
qed

lemma escaped_visible: "trim t \<noteq> [] \<Longrightarrow> \<not> list_all is_whitespace (escaped t)"
  unfolding trim_eq_Nil
  by (induction t) (auto simp: esc_char_def is_whitespace_def lit_def)

lemma nodes_text_visible:
  assumes "ns \<noteq> []" and "nodes_clean ns"
  shows "trim (doc_text (nodes_toks ns :: 'x xml_token list)) \<noteq> []"
proof -
  from assms(1) obtain n ms where ns: "ns = n # ms" by (cases ns) auto
  have "\<not> list_all is_whitespace (doc_text (node_toks n :: 'x xml_token list))"
  proof (cases n)
    case (Elem e)
    then show ?thesis by (cases e) (simp add: is_whitespace_def)
  next
    case (Text t)
    with assms(2) ns show ?thesis by (simp add: doc_text_esc escaped_visible)
  qed (simp_all add: lit_def is_whitespace_def)
  then show ?thesis unfolding trim_eq_Nil by (simp add: ns)
qed

section \<open>Instances for the witnesses\<close>

text \<open>A printer of numbers and a calendar that keep their promises.\<close>

definition bits_f64 :: f64_lib where
  "bits_f64 = \<lparr>show_f64 = (\<lambda>v. dec_of_nat (unat v)), parse_f64 = (\<lambda>s. map_option of_nat (parse_uint u64_max s))\<rparr>"

definition count_clock :: clock_lib where
  "count_clock =
     \<lparr>rfc3339 = (\<lambda>s. map_option int (parse_uint u64_max s)), naive_utc = (\<lambda>_. None),
      calendar = (\<lambda>t. if 0 \<le> t \<and> t \<le> int u64_max then Some (dec_of_nat (nat t)) else None)\<rparr>"

lemma digit_clean: "is_digit c \<Longrightarrow> \<not> forbidden False c \<and> is_scalar c \<and> \<not> is_whitespace c"
  by (auto simp: is_digit_def forbidden_def is_scalar_def is_whitespace_def)

lemma dec_clean: "clean_text False (dec_of_nat n)" "trim (dec_of_nat n) = dec_of_nat n"
proof -
  have d: "list_all is_digit (dec_of_nat n)" "dec_of_nat n \<noteq> []" using dec_of_nat_digits by simp_all
  then show "clean_text False (dec_of_nat n)" using digit_clean by (auto simp: clean_text_def list_all_iff)
  have "is_digit (hd (dec_of_nat n))" "is_digit (last (dec_of_nat n))" using d by (simp_all add: list_all_iff)
  then show "trim (dec_of_nat n) = dec_of_nat n" using digit_clean by (intro trim_id) blast+
qed

lemma instances_ok: "f64_ok bits_f64" "clock_ok count_clock" "prints_ok bits_f64 count_clock"
proof -
  have "unat v < 2 ^ LENGTH(64)" for v :: "64 word" by (rule unsigned_less)
  then have "unat v \<le> u64_max" for v :: "64 word" by (simp add: u64_max_def less_Suc_eq_le [symmetric])
  then show "f64_ok bits_f64" by (simp add: f64_ok_def bits_f64_def)
  show "clock_ok count_clock" by (auto simp: clock_ok_def count_clock_def dec_clean split: if_splits)
  show "prints_ok bits_f64 count_clock"
    by (auto simp: prints_ok_def bits_f64_def count_clock_def dec_clean split: if_splits)
qed

text \<open>A message with markup characters in its text and nested elements.\<close>

definition demo_message :: event where
  "demo_message =
     (event_default 7)\<lparr>ev_uid := lit ''A&B'', ev_type := lit ''a-f-G'',
       ev_detail := \<lparr>nodes =
         [Elem (Element (lit ''contact'') [(lit ''callsign'', lit ''x<y'')] []),
          Elem (Element (lit ''remarks'') [] [Text (lit ''5 > 4''), Comment (lit ''note''), CData (lit ''<raw>'')])]\<rparr>\<rparr>"

lemma demo_message_clean: "event_clean count_clock demo_message"
  by (simp add: event_clean_def demo_message_def event_default_def opt_clean_def attrs_clean_def clean_text_def
      forbidden_def is_scalar_def lit_def is_finite_def point_zero_def UNKNOWN_def count_clock_def u64_max_def
      VERSION_def is_name_char_def is_name_start_def in_range_def trim_def is_whitespace_def MAX_DEPTH_def)

section \<open>Properties\<close>

lemma qx_reads: "quick_xml_ok L \<Longrightarrow> doc_ok ts \<Longrightarrow> qx_read L (doc_text ts) = map Inr ts"
  by (simp add: quick_xml_ok_def)

text \<open>C21: a message survives XML: every message made of what XML can carry, its three instants in the
  years 0 to 9999, is read back from the bytes the writer wrote as exactly the message it was, attributes the server does not know, text with
  markup characters, comments, CDATA and nesting down to the depth limit included.\<close>

theorem xml_roundtrip:
  assumes "quick_xml_ok (L :: 'x quick_xml)" and "f64_ok F" and "clock_ok K" and "prints_ok F K" and "event_clean K e"
  shows "xml_parse L F K (xml_write L F K e) = Inr e"
proof -
  let ?ts = "event_toks F K e :: 'x xml_token list"
  have wr: "write_text L F K e = doc_text ?ts" by (rule write_text_toks [OF assms(1,4,5)])
  have "from_utf8 (utf8 (doc_text ?ts)) = Some (doc_text ?ts)"
    by (rule from_utf8_utf8 [OF event_scalar [OF assms(4,5)]])
  moreover have "strip_prefix [0xFEFF] (doc_text ?ts) = None"
    by (simp add: strip_prefix_def starts_with_def event_toks_def lit_def)
  moreover have "qx_read L (doc_text ?ts) = map Inr ?ts"
    by (rule qx_reads [OF assms(1) event_toks_ok [OF assms(4,5)]])
  ultimately show ?thesis
    using parse_toks [OF assms(3,2,4,5)]
    by (simp add: xml_parse_def xml_write_def write_into_def wr parse_str_def Let_def)
qed

theorem xml_roundtrip_witness:
  "xml_parse (plain_xml :: unit quick_xml) bits_f64 count_clock
     (xml_write (plain_xml :: unit quick_xml) bits_f64 count_clock demo_message) = Inr demo_message"
  by (rule xml_roundtrip [OF quick_xml_ok_plain instances_ok(1) instances_ok(2) instances_ok(3) demo_message_clean])

text \<open>The detail a protobuf frame carries as text is read back as the nodes it was written from.\<close>

lemma xml_fragment_roundtrip:
  assumes "quick_xml_ok (L :: 'x quick_xml)" and "nodes_clean ns" and "apart ns" and "nodes_fit 1 ns"
  shows "parse_fragment L (write_fragment L ns) = Inr ns"
proof (cases "ns = []")
  case True
  then show ?thesis by (simp add: write_fragment_def write_nodes_def parse_fragment_def)
next
  case False
  let ?ts = "Start_Tag (lit ''detail'') [] # nodes_toks ns @ [End_Tag (lit ''detail'')] :: 'x xml_token list"
  have wr: "write_fragment L ns = doc_text (nodes_toks ns :: 'x xml_token list)"
    using write_nodes_toks [OF assms(1,2)] by (simp add: write_fragment_def write_nodes_def)
  have "doc_ok ?ts"
    using nodes_toks_ok [OF assms(2)] nodes_toks_spaced [OF assms(2,3)] names_ok(2)
    by (simp add: doc_ok_def spaced_append spaced_Cons balanced_nodes)
  then have "qx_read L (doc_text ?ts) = map Inr ?ts" by (rule qx_reads [OF assms(1)])
  moreover have "doc_text ?ts = lit ''<detail>'' @ write_fragment L ns @ lit ''</detail>''"
    unfolding wr by (simp add: lit_def)
  ultimately have "qx_read L (lit ''<detail>'' @ write_fragment L ns @ lit ''</detail>'') = map Inr ?ts" by (simp only:)
  moreover have "trim (write_fragment L ns) \<noteq> []"
    unfolding wr using False assms(2) by (rule nodes_text_visible)
  ultimately show ?thesis using read_fragment_toks [OF assms(2-4)] by (simp add: parse_fragment_def del: fragment_loop.simps)
qed

end
