(* ===== verification/Proto_Convert.thy ===== *)
theory Proto_Convert
  imports Xml_Props Typed_Messages
begin

text \<open>
  Events and protobuf messages (\<open>rustak-cot/src/proto/to_proto.rs\<close>, \<open>from_proto.rs\<close>).  The structs are
  what \<open>prost\<close> generates from \<open>rustak-cot/proto/tak_protocol_v1.proto\<close>, one record per message; the
  generated bytes are not modelled.  A proto3 string that is absent is empty.
\<close>

section \<open>The messages\<close>

record pb_contact =
  pbc_endpoint :: ustr
  pbc_callsign :: ustr

record pb_group =
  pbg_name :: ustr
  pbg_role :: ustr

record pb_precision =
  pbp_geopointsrc :: ustr
  pbp_altsrc :: ustr

record pb_status =
  pbs_battery :: nat

record pb_takv =
  pbt_device :: ustr
  pbt_platform :: ustr
  pbt_os :: ustr
  pbt_version :: ustr

record pb_track =
  pbk_speed :: f64
  pbk_course :: f64

record pb_extension =
  pbx_id :: nat
  pbx_data :: bytes

record pb_detail =
  pbd_xml :: ustr
  pbd_contact :: "pb_contact option"
  pbd_group :: "pb_group option"
  pbd_precision :: "pb_precision option"
  pbd_status :: "pb_status option"
  pbd_takv :: "pb_takv option"
  pbd_track :: "pb_track option"
  pbd_extensions :: "pb_extension list"

record pb_event =
  pbe_type :: ustr
  pbe_access :: ustr
  pbe_qos :: ustr
  pbe_opex :: ustr
  pbe_uid :: ustr
  pbe_send_time :: nat
  pbe_start_time :: nat
  pbe_stale_time :: nat
  pbe_how :: ustr
  pbe_lat :: f64
  pbe_lon :: f64
  pbe_hae :: f64
  pbe_ce :: f64
  pbe_le :: f64
  pbe_detail :: "pb_detail option"
  pbe_caveat :: ustr
  pbe_releasable_to :: ustr

record pb_control =
  pbm_min_version :: nat
  pbm_max_version :: nat
  pbm_contact_uid :: ustr
  pbm_extension_ids :: "nat list"

record tak_message =
  tak_control :: "pb_control option"
  cot_event :: "pb_event option"

definition pb_detail_default :: pb_detail where
  "pb_detail_default =
     \<lparr>pbd_xml = [], pbd_contact = None, pbd_group = None, pbd_precision = None, pbd_status = None,
      pbd_takv = None, pbd_track = None, pbd_extensions = []\<rparr>"

section \<open>From an event\<close>

abbreviation or_empty :: "ustr option \<Rightarrow> ustr" where
  "or_empty v \<equiv> or_else [] v"

definition event_millis :: "cot_time \<Rightarrow> nat" where
  "event_millis t = (if 0 \<le> t then nat t else 0)"

definition promote :: "ustr \<Rightarrow> (element \<Rightarrow> 'a option) \<Rightarrow> detail \<Rightarrow> 'a option" where
  "promote name strict d = (if d_count name d \<noteq> 1 then None else Option.bind (d_find name d) strict)"

definition split_detail :: "f64_lib \<Rightarrow> detail \<Rightarrow> pb_detail \<times> node list" where
  "split_detail F d =
     (let (out, promoted) = (pb_detail_default, []);
          (out, promoted) = (case promote CONTACT contact_strict d of
            Some v \<Rightarrow> (out\<lparr>pbd_contact := Some \<lparr>pbc_endpoint = or_empty (ct_endpoint v),
              pbc_callsign = ct_callsign v\<rparr>\<rparr>, promoted @ [CONTACT])
          | None \<Rightarrow> (out, promoted));
          (out, promoted) = (case promote GROUP tak_group_strict d of
            Some v \<Rightarrow> (out\<lparr>pbd_group := Some \<lparr>pbg_name = tg_name v, pbg_role = tg_role v\<rparr>\<rparr>,
              promoted @ [GROUP])
          | None \<Rightarrow> (out, promoted));
          (out, promoted) = (case promote PRECISION precision_location_strict d of
            Some v \<Rightarrow> (out\<lparr>pbd_precision := Some \<lparr>pbp_geopointsrc = pl_geopointsrc v,
              pbp_altsrc = pl_altsrc v\<rparr>\<rparr>, promoted @ [PRECISION])
          | None \<Rightarrow> (out, promoted));
          (out, promoted) = (case promote STATUS status_strict d of
            Some v \<Rightarrow> (out\<lparr>pbd_status := Some \<lparr>pbs_battery = st_battery v\<rparr>\<rparr>, promoted @ [STATUS])
          | None \<Rightarrow> (out, promoted));
          (out, promoted) = (case promote TAKV takv_strict d of
            Some v \<Rightarrow> (out\<lparr>pbd_takv := Some \<lparr>pbt_device = tv_device v, pbt_platform = tv_platform v,
              pbt_os = tv_os v, pbt_version = tv_version v\<rparr>\<rparr>, promoted @ [TAKV])
          | None \<Rightarrow> (out, promoted));
          (out, promoted) = (case promote TRACK (track_strict F) d of
            Some v \<Rightarrow> (out\<lparr>pbd_track := Some \<lparr>pbk_speed = tr_speed v, pbk_course = tr_course v\<rparr>\<rparr>,
              promoted @ [TRACK])
          | None \<Rightarrow> (out, promoted));
          rest = filter (\<lambda>n. case n of Elem e \<Rightarrow> el_name e \<notin> set promoted | _ \<Rightarrow> True) (nodes d)
      in (out, rest))"

definition proto_detail :: "'x quick_xml \<Rightarrow> f64_lib \<Rightarrow> event \<Rightarrow> pb_detail option" where
  "proto_detail L F e =
     (if d_is_empty (ev_detail e) \<and> ev_proto_ext e = [] then None
      else
        let (out, rest) = split_detail F (ev_detail e);
            out = out\<lparr>pbd_xml := write_fragment L rest\<rparr>;
            out = out\<lparr>pbd_extensions := map (\<lambda>(i, data). \<lparr>pbx_id = i, pbx_data = data\<rparr>) (ev_proto_ext e)\<rparr>
        in Some out)"

definition event_to_message :: "'x quick_xml \<Rightarrow> f64_lib \<Rightarrow> event \<Rightarrow> tak_message" where
  "event_to_message L F e =
     \<lparr>tak_control = None,
      cot_event = Some
        \<lparr>pbe_type = ev_type e, pbe_access = or_empty (ev_access e), pbe_qos = or_empty (ev_qos e),
         pbe_opex = or_empty (ev_opex e), pbe_uid = ev_uid e, pbe_send_time = event_millis (ev_time e),
         pbe_start_time = event_millis (ev_start e), pbe_stale_time = event_millis (ev_stale e),
         pbe_how = or_empty (ev_how e), pbe_lat = lat (ev_point e), pbe_lon = lon (ev_point e),
         pbe_hae = hae (ev_point e), pbe_ce = ce (ev_point e), pbe_le = le (ev_point e),
         pbe_detail = proto_detail L F e, pbe_caveat = or_empty (ev_caveat e),
         pbe_releasable_to = or_empty (ev_releasable_to e)\<rparr>\<rparr>"

section \<open>To an event\<close>

definition set_text :: "ustr \<Rightarrow> ustr option" where
  "set_text v = (if v \<noteq> [] then Some v else None)"

definition proto_time :: "nat \<Rightarrow> cot_time" where
  "proto_time ms = (if int ms \<le> i64_max then int ms else i64_max)"

definition claims :: "node list \<Rightarrow> ustr \<Rightarrow> bool" where
  "claims fragment name \<longleftrightarrow> list_ex (\<lambda>n. case n of Elem e \<Rightarrow> el_name e = name | _ \<Rightarrow> False) fragment"

definition push_typed :: "node list \<Rightarrow> ustr \<Rightarrow> element \<Rightarrow> node list \<Rightarrow> node list" where
  "push_typed fragment name e ns = (if \<not> claims fragment name then ns @ [Elem e] else ns)"

text \<open>\<open>if let Some(value) = ... { push(...) }\<close>.\<close>

definition push_some ::
    "node list \<Rightarrow> ustr \<Rightarrow> ('a \<Rightarrow> element) \<Rightarrow> 'a option \<Rightarrow> node list \<Rightarrow> node list" where
  "push_some fragment name f x ns = (case x of Some v \<Rightarrow> push_typed fragment name (f v) ns | None \<Rightarrow> ns)"

definition typed_elements :: "f64_lib \<Rightarrow> pb_detail \<Rightarrow> node list \<Rightarrow> node list" where
  "typed_elements F d fragment =
     (let ns = [];
          ns = push_some fragment CONTACT (\<lambda>v. contact_to \<lparr>ct_callsign = pbc_callsign v,
            ct_endpoint = set_text (pbc_endpoint v), ct_extra = []\<rparr>) (pbd_contact d) ns;
          ns = push_some fragment GROUP (\<lambda>v. tak_group_to (tak_group_new (pbg_name v) (pbg_role v)))
            (pbd_group d) ns;
          ns = push_some fragment PRECISION (\<lambda>v. precision_location_to
            (precision_new (pbp_geopointsrc v) (pbp_altsrc v))) (pbd_precision d) ns;
          ns = push_some fragment STATUS (\<lambda>v. status_to (status_new (pbs_battery v))) (pbd_status d) ns;
          ns = push_some fragment TAKV (\<lambda>v. takv_to \<lparr>tv_device = pbt_device v, tv_platform = pbt_platform v,
            tv_os = pbt_os v, tv_version = pbt_version v, tv_extra = []\<rparr>) (pbd_takv d) ns;
          ns = push_some fragment TRACK (\<lambda>v. track_to F (track_new (pbk_speed v) (pbk_course v)))
            (pbd_track d) ns
      in ns)"

definition message_to_event :: "'x quick_xml \<Rightarrow> f64_lib \<Rightarrow> tak_message \<Rightarrow> 'x convert_error + event" where
  "message_to_event L F m =
     (case cot_event m of None \<Rightarrow> Inl NoCotEvent | Some s \<Rightarrow>
      let pd = (case pbe_detail s of Some d \<Rightarrow> d | None \<Rightarrow> pb_detail_default)
      in case parse_fragment L (pbd_xml pd) of Inl er \<Rightarrow> Inl (BadXmlDetail er) | Inr ns \<Rightarrow>
      let typed = typed_elements F pd ns @ ns
      in Inr \<lparr>ev_version = VERSION, ev_uid = pbe_uid s, ev_type = pbe_type s, ev_how = set_text (pbe_how s),
          ev_time = proto_time (pbe_send_time s), ev_start = proto_time (pbe_start_time s),
          ev_stale = proto_time (pbe_stale_time s), ev_access = set_text (pbe_access s),
          ev_qos = set_text (pbe_qos s), ev_opex = set_text (pbe_opex s), ev_caveat = set_text (pbe_caveat s),
          ev_releasable_to = set_text (pbe_releasable_to s), ev_extra_attrs = [],
          ev_point = \<lparr>lat = pbe_lat s, lon = pbe_lon s, hae = pbe_hae s, ce = pbe_ce s, le = pbe_le s\<rparr>,
          ev_detail = \<lparr>nodes = typed\<rparr>,
          ev_proto_ext = map (\<lambda>x. (pbx_id x, pbx_data x)) (pbd_extensions pd)\<rparr>)"

end
