(* ===== verification/Proto_Props.thy ===== *)
theory Proto_Props
  imports Proto_Convert
begin

text \<open>
  What survives the conversion between events and protobuf messages: the fields promoted out of the
  detail and the elements they are read back as (\<open>promoted\<close>, \<open>rebuilt\<close>), the comparison of two details
  (\<open>keeps_detail\<close>), and the property that an event converted and converted back means the same.
\<close>

section \<open>The two halves of a detail\<close>

lemma case_promoted:
  "(case x of Some v \<Rightarrow> (f v, ns @ [n]) | None \<Rightarrow> (out, ns)) =
     (case x of Some v \<Rightarrow> f v | None \<Rightarrow> out, ns @ (if x = None then [] else [n]))"
  by (cases x) simp_all

lemma case_promoted_first:
  "(case x of Some v \<Rightarrow> (f v, [n]) | None \<Rightarrow> (out, [])) =
     (case x of Some v \<Rightarrow> f v | None \<Rightarrow> out, (if x = None then [] else [n]))"
  by (cases x) simp_all

lemma split_detail_typed:
  "pbd_contact (fst (split_detail F d)) = map_option (\<lambda>v. \<lparr>pbc_endpoint = or_empty (ct_endpoint v),
     pbc_callsign = ct_callsign v\<rparr>) (promote CONTACT contact_strict d)"
  "pbd_group (fst (split_detail F d)) = map_option (\<lambda>v. \<lparr>pbg_name = tg_name v, pbg_role = tg_role v\<rparr>)
     (promote GROUP tak_group_strict d)"
  "pbd_precision (fst (split_detail F d)) = map_option (\<lambda>v. \<lparr>pbp_geopointsrc = pl_geopointsrc v,
     pbp_altsrc = pl_altsrc v\<rparr>) (promote PRECISION precision_location_strict d)"
  "pbd_status (fst (split_detail F d)) = map_option (\<lambda>v. \<lparr>pbs_battery = st_battery v\<rparr>)
     (promote STATUS status_strict d)"
  "pbd_takv (fst (split_detail F d)) = map_option (\<lambda>v. \<lparr>pbt_device = tv_device v, pbt_platform = tv_platform v,
     pbt_os = tv_os v, pbt_version = tv_version v\<rparr>) (promote TAKV takv_strict d)"
  "pbd_track (fst (split_detail F d)) = map_option (\<lambda>v. \<lparr>pbk_speed = tr_speed v, pbk_course = tr_course v\<rparr>)
     (promote TRACK (track_strict F) d)"
  unfolding split_detail_def Let_def
  by (simp_all add: pb_detail_default_def split: option.split)

definition promoted :: "f64_lib \<Rightarrow> detail \<Rightarrow> ustr set" where
  "promoted F d = {n. n = CONTACT \<and> promote CONTACT contact_strict d \<noteq> None \<or>
     n = GROUP \<and> promote GROUP tak_group_strict d \<noteq> None \<or>
     n = PRECISION \<and> promote PRECISION precision_location_strict d \<noteq> None \<or>
     n = STATUS \<and> promote STATUS status_strict d \<noteq> None \<or>
     n = TAKV \<and> promote TAKV takv_strict d \<noteq> None \<or>
     n = TRACK \<and> promote TRACK (track_strict F) d \<noteq> None}"

lemma split_detail_rest:
  "snd (split_detail F d) = filter (\<lambda>n. case n of Elem e \<Rightarrow> el_name e \<notin> promoted F d | _ \<Rightarrow> True) (nodes d)"
  unfolding split_detail_def Let_def case_promoted prod.case snd_conv
  by (rule filter_cong [OF refl]) (auto simp: promoted_def split: node.split)


section \<open>What the conversion keeps\<close>

text \<open>A proto3 string cannot tell an empty endpoint from none.\<close>

definition contact_view :: "element \<Rightarrow> contact option" where
  "contact_view e = map_option (\<lambda>c. c\<lparr>ct_endpoint := set_text (or_empty (ct_endpoint c))\<rparr>) (contact_from e)"

text \<open>The elements of a name are untouched, or the one there is, a leaf, reads the same.\<close>

definition same_view :: "ustr \<Rightarrow> (element \<Rightarrow> 'a) \<Rightarrow> detail \<Rightarrow> detail \<Rightarrow> bool" where
  "same_view name view d d' \<longleftrightarrow> d_find_all name d' = d_find_all name d \<or>
     (\<exists>a b. d_find_all name d = [a] \<and> d_find_all name d' = [b] \<and> el_children a = [] \<and> el_children b = [] \<and>
        view b = view a)"

definition TYPED_NAMES :: "ustr list" where
  "TYPED_NAMES = [CONTACT, GROUP, PRECISION, STATUS, TAKV, TRACK]"

fun is_elem :: "node \<Rightarrow> bool" where
  "is_elem (Elem e) \<longleftrightarrow> True"
| "is_elem _ \<longleftrightarrow> False"

definition keeps_detail :: "f64_lib \<Rightarrow> detail \<Rightarrow> detail \<Rightarrow> bool" where
  "keeps_detail F d d' \<longleftrightarrow>
     (\<forall>n. n \<notin> set TYPED_NAMES \<longrightarrow> d_find_all n d' = d_find_all n d) \<and>
     same_view CONTACT contact_view d d' \<and> same_view GROUP tak_group_from d d' \<and>
     same_view PRECISION precision_location_from d d' \<and> same_view STATUS status_from d d' \<and>
     same_view TAKV takv_from d d' \<and> same_view TRACK (track_from F) d d' \<and>
     filter (\<lambda>n. \<not> is_elem n) (nodes d') = filter (\<lambda>n. \<not> is_elem n) (nodes d)"

lemmas name_defs = CONTACT_def GROUP_def PRECISION_def STATUS_def TAKV_def TRACK_def

definition opt_list :: "('a \<Rightarrow> element) \<Rightarrow> 'a option \<Rightarrow> element list" where
  "opt_list f x = (case x of Some v \<Rightarrow> [f v] | None \<Rightarrow> [])"

lemma opt_list_simps [simp]: "opt_list f None = []" "opt_list f (Some v) = [f v]"
  by (simp_all add: opt_list_def)

definition contact_back :: "contact \<Rightarrow> element" where
  "contact_back v = contact_to \<lparr>ct_callsign = ct_callsign v, ct_endpoint = set_text (or_empty (ct_endpoint v)), ct_extra = []\<rparr>"

definition takv_back :: "takv \<Rightarrow> element" where
  "takv_back v = takv_to \<lparr>tv_device = tv_device v, tv_platform = tv_platform v, tv_os = tv_os v,
     tv_version = tv_version v, tv_extra = []\<rparr>"

text \<open>The elements the typed fields are read back as.\<close>

definition rebuilt :: "f64_lib \<Rightarrow> detail \<Rightarrow> element list" where
  "rebuilt F d =
     opt_list contact_back (promote CONTACT contact_strict d) @
     opt_list (\<lambda>v. tak_group_to (tak_group_new (tg_name v) (tg_role v))) (promote GROUP tak_group_strict d) @
     opt_list (\<lambda>v. precision_location_to (precision_new (pl_geopointsrc v) (pl_altsrc v)))
       (promote PRECISION precision_location_strict d) @
     opt_list (\<lambda>v. status_to (status_new (st_battery v))) (promote STATUS status_strict d) @
     opt_list takv_back (promote TAKV takv_strict d) @
     opt_list (\<lambda>v. track_to F (track_new (tr_speed v) (tr_course v))) (promote TRACK (track_strict F) d)"

lemma claims_rest: "n \<in> promoted F d \<Longrightarrow> \<not> claims (snd (split_detail F d)) n"
  unfolding split_detail_rest by (auto simp: claims_def list_ex_iff split: node.splits)

lemma push_some_promoted:
  "(p \<noteq> None \<Longrightarrow> \<not> claims rest n) \<Longrightarrow>
   push_some rest n g (map_option f p) ns = ns @ map Elem (opt_list (\<lambda>v. g (f v)) p)"
  by (cases p) (simp_all add: push_some_def push_typed_def)

lemma promoted_iff:
  "CONTACT \<in> promoted F d \<longleftrightarrow> promote CONTACT contact_strict d \<noteq> None"
  "GROUP \<in> promoted F d \<longleftrightarrow> promote GROUP tak_group_strict d \<noteq> None"
  "PRECISION \<in> promoted F d \<longleftrightarrow> promote PRECISION precision_location_strict d \<noteq> None"
  "STATUS \<in> promoted F d \<longleftrightarrow> promote STATUS status_strict d \<noteq> None"
  "TAKV \<in> promoted F d \<longleftrightarrow> promote TAKV takv_strict d \<noteq> None"
  "TRACK \<in> promoted F d \<longleftrightarrow> promote TRACK (track_strict F) d \<noteq> None"
  "n \<notin> set TYPED_NAMES \<Longrightarrow> n \<notin> promoted F d"
  by (auto simp: promoted_def TYPED_NAMES_def name_defs)

lemma typed_elements_split:
  "typed_elements F ((fst (split_detail F d))\<lparr>pbd_xml := x, pbd_extensions := y\<rparr>) (snd (split_detail F d)) =
     map Elem (rebuilt F d)"
  by (simp add: typed_elements_def split_detail_typed push_some_promoted claims_rest promoted_iff
      rebuilt_def contact_back_def [abs_def] takv_back_def [abs_def])

lemma back_names:
  "el_name (contact_back v) = CONTACT" "el_name (tak_group_to g) = GROUP"
  "el_name (precision_location_to p) = PRECISION" "el_name (status_to s) = STATUS"
  "el_name (takv_back t) = TAKV" "el_name (track_to F k) = TRACK"
  by (simp_all add: contact_back_def takv_back_def contact.to_name tak_group.to_name precision_location.to_name
      status.to_name takv.to_name track.to_name)

lemma elements_of_keep:
  "elements_of (filter (\<lambda>n. case n of Elem e \<Rightarrow> P e | _ \<Rightarrow> True) ns) = filter P (elements_of ns)"
  by (induction ns rule: elements_of.induct) auto

lemma find_all_converted:
  "d_find_all n \<lparr>nodes = map Elem (rebuilt F d) @ snd (split_detail F d)\<rparr> =
     filter (\<lambda>e. el_name e = n) (rebuilt F d) @ (if n \<in> promoted F d then [] else d_find_all n d)"
  unfolding split_detail_rest
  by (auto simp: d_find_all_def d_elements_def elements_of_keep filter_filter filter_empty_conv intro: filter_cong)

lemma same_viewI:
  assumes "d_find_all n d' = (case promote n strict d of None \<Rightarrow> d_find_all n d | Some v \<Rightarrow> [bk v])"
    and "\<And>e v. e \<in> set (d_find_all n d) \<Longrightarrow> strict e = Some v \<Longrightarrow>
      el_children e = [] \<and> el_children (bk v) = [] \<and> view (bk v) = view e"
  shows "same_view n view d d'"
proof (cases "promote n strict d")
  case None
  with assms(1) show ?thesis by (simp add: same_view_def)
next
  case (Some v)
  then obtain e where e: "d_find_all n d = [e]" "strict e = Some v"
    by (auto simp: promote_def d_count_find_all d_find_hd length_Suc_conv split: if_splits)
  with assms Some show ?thesis by (auto simp: same_view_def)
qed

lemma filter_opt_list:
  "(\<And>v. el_name (f v) = m) \<Longrightarrow> filter (\<lambda>e. el_name e = n) (opt_list f x) = (if m = n then opt_list f x else [])"
  by (cases x) auto

lemma rebuilt_of:
  "filter (\<lambda>e. el_name e = CONTACT) (rebuilt F d) = opt_list contact_back (promote CONTACT contact_strict d)"
  "filter (\<lambda>e. el_name e = GROUP) (rebuilt F d) =
     opt_list (\<lambda>v. tak_group_to (tak_group_new (tg_name v) (tg_role v))) (promote GROUP tak_group_strict d)"
  "filter (\<lambda>e. el_name e = PRECISION) (rebuilt F d) =
     opt_list (\<lambda>v. precision_location_to (precision_new (pl_geopointsrc v) (pl_altsrc v)))
       (promote PRECISION precision_location_strict d)"
  "filter (\<lambda>e. el_name e = STATUS) (rebuilt F d) =
     opt_list (\<lambda>v. status_to (status_new (st_battery v))) (promote STATUS status_strict d)"
  "filter (\<lambda>e. el_name e = TAKV) (rebuilt F d) = opt_list takv_back (promote TAKV takv_strict d)"
  "filter (\<lambda>e. el_name e = TRACK) (rebuilt F d) =
     opt_list (\<lambda>v. track_to F (track_new (tr_speed v) (tr_course v))) (promote TRACK (track_strict F) d)"
  "n \<notin> set TYPED_NAMES \<Longrightarrow> filter (\<lambda>e. el_name e = n) (rebuilt F d) = []"
  by (simp_all add: rebuilt_def TYPED_NAMES_def filter_opt_list back_names) (auto simp: name_defs)

text \<open>Each typed view reads the same from the element written back.\<close>

lemma contact_back_view:
  "contact_strict e = Some v \<Longrightarrow>
   el_children e = [] \<and> el_children (contact_back v) = [] \<and> contact_view (contact_back v) = contact_view e"
proof -
  assume s: "contact_strict e = Some v"
  then have "contact_from e = Some v" "el_children e = []" by (auto simp: contact_strict_cases)
  moreover have "ct_extra v = []"
    using s has_exactly_extra [of _ e contact_known]
    by (auto simp: contact_strict_cases contact_from_def contact_known_def)
  moreover have ok: "contact_ok \<lparr>ct_callsign = a, ct_endpoint = b, ct_extra = []\<rparr>" for a b
    by (simp add: contact_ok_def)
  moreover have "contact_from (contact_back v) =
      Some \<lparr>ct_callsign = ct_callsign v, ct_endpoint = set_text (or_empty (ct_endpoint v)), ct_extra = []\<rparr>"
    unfolding contact_back_def by (rule contact.from_to [OF ok])
  moreover have "el_children (contact_back v) = []"
    unfolding contact_back_def contact_to_eq [OF ok] by simp
  ultimately show ?thesis
    by (cases v) (simp add: contact_view_def set_text_def split: option.split)
qed

context strict_detail
begin

lemma strict_rewritten:
  "strict e = Some v \<Longrightarrow> ok v \<Longrightarrow> el_children (to_element v) = [] \<Longrightarrow>
   el_children e = [] \<and> el_children (to_element v) = [] \<and> from_element (to_element v) = from_element e"
  by (simp add: from_to strict_from strict_leaf)

end

lemma tak_group_back_view:
  assumes "tak_group_strict e = Some v"
  shows "el_children e = [] \<and> el_children (tak_group_to (tak_group_new (tg_name v) (tg_role v))) = [] \<and>
    tak_group_from (tak_group_to (tak_group_new (tg_name v) (tg_role v))) = tak_group_from e"
proof -
  have x: "tg_extra v = []"
    using assms has_exactly_extra [OF _ subset_refl, of tak_group_known e]
    by (auto simp: tak_group_strict_def tak_group_from_def split: if_splits)
  then have ok: "tak_group_ok v" and v: "tak_group_new (tg_name v) (tg_role v) = v"
    by (simp_all add: tak_group_ok_def tak_group_new_def)
  show ?thesis
    unfolding v by (rule tak_group.strict_rewritten [OF assms ok]) (simp add: tak_group_to_eq [OF ok])
qed

lemma precision_back_view:
  assumes "precision_location_strict e = Some v"
  shows "el_children e = [] \<and> el_children (precision_location_to (precision_new (pl_geopointsrc v) (pl_altsrc v))) = [] \<and>
    precision_location_from (precision_location_to (precision_new (pl_geopointsrc v) (pl_altsrc v))) =
      precision_location_from e"
proof -
  have x: "pl_extra v = []"
    using assms has_exactly_extra [OF _ subset_refl, of precision_location_known e]
    by (auto simp: precision_location_strict_def precision_location_from_def split: if_splits)
  then have ok: "precision_location_ok v" and v: "precision_new (pl_geopointsrc v) (pl_altsrc v) = v"
    by (simp_all add: precision_location_ok_def precision_new_def)
  show ?thesis
    unfolding v by (rule precision_location.strict_rewritten [OF assms ok]) (simp add: precision_location_to_eq [OF ok])
qed

lemma takv_back_view:
  assumes "takv_strict e = Some v"
  shows "el_children e = [] \<and> el_children (takv_back v) = [] \<and> takv_from (takv_back v) = takv_from e"
proof -
  have x: "tv_extra v = []"
    using assms has_exactly_extra [OF _ subset_refl, of takv_known e]
    by (auto simp: takv_strict_def takv_from_def split: if_splits)
  then have ok: "takv_ok v" and v: "takv_back v = takv_to v"
    by (simp add: takv_ok_def, cases v, simp add: takv_back_def)
  show ?thesis
    unfolding v by (rule takv.strict_rewritten [OF assms ok]) (simp add: takv_to_eq [OF ok])
qed

lemma status_back_view:
  assumes "status_strict e = Some v"
  shows "el_children e = [] \<and> el_children (status_to (status_new (st_battery v))) = [] \<and>
    status_from (status_to (status_new (st_battery v))) = status_from e"
proof -
  have x: "st_battery v \<le> u32_max" "st_extra v = []"
    using assms parse_uint_le by (auto simp: status_strict_def bind_eq_Some_conv split: if_splits)
  then have ok: "status_ok v" and v: "status_new (st_battery v) = v"
    by (simp_all add: status_ok_def status_new_def)
  show ?thesis
    unfolding v using x(2)
    by (intro status.strict_rewritten [OF assms ok]) (simp add: status_to_eq)
qed

lemma track_back_view:
  assumes "track_strict F e = Some v" and "f64_ok F" and "is_finite (tr_speed v)" "is_finite (tr_course v)"
  shows "el_children e = [] \<and> el_children (track_to F (track_new (tr_speed v) (tr_course v))) = [] \<and>
    track_from F (track_to F (track_new (tr_speed v) (tr_course v))) = track_from F e"
proof -
  have x: "tr_extra v = []" using assms(1) by (auto simp: track_strict_def bind_eq_Some_conv split: if_splits)
  then have ok: "track_ok F v" and v: "track_new (tr_speed v) (tr_course v) = v"
    using assms by (simp_all add: track_ok_def track_new_def)
  show ?thesis
    unfolding v using x by (intro track.strict_rewritten [OF assms(1) ok]) (simp add: track_to_eq)
qed

definition detail_carried :: "f64_lib \<Rightarrow> detail \<Rightarrow> bool" where
  "detail_carried F d \<longleftrightarrow> nodes_clean (nodes d) \<and> nodes_fit 1 (nodes d) \<and> apart (snd (split_detail F d)) \<and>
     list_all (\<lambda>e. case track_strict F e of Some v \<Rightarrow> is_finite (tr_speed v) \<and> is_finite (tr_course v) | None \<Rightarrow> True)
       (d_find_all TRACK d)"

lemma nodes_clean_filter: "nodes_clean ns \<Longrightarrow> nodes_clean (filter P ns)"
proof (induction ns)
  case (Cons n ns)
  then show ?case by (cases n) (auto elim: nodes_clean.elims)
qed simp

lemma nodes_fit_filter: "nodes_fit k ns \<Longrightarrow> nodes_fit k (filter P ns)"
proof (induction ns)
  case (Cons n ns)
  then show ?case by (cases n) (auto elim: nodes_fit.elims)
qed simp

lemma converted_keeps:
  assumes "f64_ok F" and "detail_carried F d"
  shows "keeps_detail F d \<lparr>nodes = map Elem (rebuilt F d) @ snd (split_detail F d)\<rparr>"
proof -
  let ?d = "\<lparr>nodes = map Elem (rebuilt F d) @ snd (split_detail F d)\<rparr>"
  have "same_view CONTACT contact_view d ?d"
    by (rule same_viewI [where strict = contact_strict and bk = contact_back])
      (auto simp: find_all_converted rebuilt_of promoted_iff contact_back_view split: option.split)
  moreover have "same_view GROUP tak_group_from d ?d"
    by (rule same_viewI [where strict = tak_group_strict])
      (auto simp: find_all_converted rebuilt_of promoted_iff tak_group_back_view split: option.split)
  moreover have "same_view PRECISION precision_location_from d ?d"
    by (rule same_viewI [where strict = precision_location_strict])
      (auto simp: find_all_converted rebuilt_of promoted_iff precision_back_view split: option.split)
  moreover have "same_view STATUS status_from d ?d"
    by (rule same_viewI [where strict = status_strict])
      (auto simp: find_all_converted rebuilt_of promoted_iff status_back_view split: option.split)
  moreover have "same_view TAKV takv_from d ?d"
    by (rule same_viewI [where strict = takv_strict and bk = takv_back])
      (auto simp: find_all_converted rebuilt_of promoted_iff takv_back_view split: option.split)
  moreover have "same_view TRACK (track_from F) d ?d"
  proof (rule same_viewI [where strict = "track_strict F" and
      bk = "\<lambda>v. track_to F (track_new (tr_speed v) (tr_course v))"])
    fix e v
    assume a: "e \<in> set (d_find_all TRACK d)" "track_strict F e = Some v"
    then have "is_finite (tr_speed v)" "is_finite (tr_course v)"
      using assms(2) by (auto simp: detail_carried_def list_all_iff)
    then show "el_children e = [] \<and> el_children (track_to F (track_new (tr_speed v) (tr_course v))) = [] \<and>
        track_from F (track_to F (track_new (tr_speed v) (tr_course v))) = track_from F e"
      by (rule track_back_view [OF a(2) assms(1)])
  qed (auto simp: find_all_converted rebuilt_of promoted_iff split: option.split)
  moreover have "filter (\<lambda>n. \<not> is_elem n) (nodes ?d) = filter (\<lambda>n. \<not> is_elem n) (nodes d)"
    unfolding split_detail_rest
    by (auto simp: filter_empty_conv filter_filter intro!: filter_cong elim: is_elem.elims)
  ultimately show ?thesis
    by (simp add: keeps_detail_def find_all_converted rebuilt_of promoted_iff)
qed

text \<open>Text fields cannot tell empty from absent; times are clamped to what both ends can hold.\<close>

definition blank_none :: "ustr option \<Rightarrow> ustr option" where
  "blank_none v = (if v = Some [] then None else v)"

definition clamp_time :: "cot_time \<Rightarrow> cot_time" where
  "clamp_time t = max 0 (min i64_max t)"

lemma set_or_empty [simp]: "set_text (or_empty v) = blank_none v"
  by (simp add: set_text_def blank_none_def split: option.split)

lemma time_clamped [simp]: "proto_time (event_millis t) = clamp_time t"
  by (auto simp: proto_time_def event_millis_def clamp_time_def i64_max_def)

text \<open>Identity as routing sees it.\<close>

lemma same_contact:
  assumes "keeps_detail F (ev_detail e) (ev_detail e')"
  shows "ev_callsign e' = ev_callsign e" "ev_endpoint e' = ev_endpoint e"
proof -
  have "same_view CONTACT contact_view (ev_detail e) (ev_detail e')" using assms by (simp add: keeps_detail_def)
  then consider "d_find_all CONTACT (ev_detail e') = d_find_all CONTACT (ev_detail e)"
    | a b where "d_find_all CONTACT (ev_detail e) = [a]" "d_find_all CONTACT (ev_detail e') = [b]"
        "contact_view b = contact_view a"
    by (auto simp: same_view_def)
  then have "ev_callsign e' = ev_callsign e \<and> ev_endpoint e' = ev_endpoint e"
  proof cases
    case 1
    then show ?thesis by (simp add: ev_callsign_def ev_endpoint_def contact_attr_def d_find_hd)
  next
    case (2 a b)
    then show ?thesis
      by (auto simp: ev_callsign_def ev_endpoint_def contact_attr_def d_find_hd contact_view_def contact_from_def
          blank_none_def split: option.splits if_splits)
  qed
  then show "ev_callsign e' = ev_callsign e" "ev_endpoint e' = ev_endpoint e" by simp_all
qed

lemma parse_rest:
  assumes "quick_xml_ok L" and "detail_carried F d"
  shows "parse_fragment L (write_fragment L (snd (split_detail F d))) = Inr (snd (split_detail F d))"
proof (rule xml_fragment_roundtrip [OF assms(1)])
  show "nodes_clean (snd (split_detail F d))" "nodes_fit 1 (snd (split_detail F d))" "apart (snd (split_detail F d))"
    using assms(2) unfolding split_detail_rest detail_carried_def
    by (simp_all add: nodes_clean_filter nodes_fit_filter)
qed

lemma parse_blank: "parse_fragment L [] = Inr []"
  by (simp add: parse_fragment_def)

lemma typed_elements_default: "typed_elements F pb_detail_default ns = []"
  by (simp add: typed_elements_def push_some_def pb_detail_default_def)

lemma pb_default_fields: "pbd_xml pb_detail_default = []" "pbd_extensions pb_detail_default = []"
  by (simp_all add: pb_detail_default_def)

text \<open>The nodes the receiver sees.\<close>

lemma message_detail:
  assumes "quick_xml_ok L" and "detail_carried F (ev_detail e)"
  shows "message_to_event L F (event_to_message L F e) = Inr
    \<lparr>ev_version = VERSION, ev_uid = ev_uid e, ev_type = ev_type e, ev_how = blank_none (ev_how e),
     ev_time = clamp_time (ev_time e), ev_start = clamp_time (ev_start e), ev_stale = clamp_time (ev_stale e),
     ev_access = blank_none (ev_access e), ev_qos = blank_none (ev_qos e), ev_opex = blank_none (ev_opex e),
     ev_caveat = blank_none (ev_caveat e), ev_releasable_to = blank_none (ev_releasable_to e),
     ev_extra_attrs = [], ev_point = ev_point e,
     ev_detail = \<lparr>nodes = map Elem (rebuilt F (ev_detail e)) @ snd (split_detail F (ev_detail e))\<rparr>,
     ev_proto_ext = ev_proto_ext e\<rparr>"
proof (cases "d_is_empty (ev_detail e) \<and> ev_proto_ext e = []")
  case True
  then have "promoted F (ev_detail e) = {}" "nodes (ev_detail e) = []"
    by (auto simp: promoted_def promote_def d_count_def d_elements_def d_is_empty_def)
  then have "rebuilt F (ev_detail e) = []" "snd (split_detail F (ev_detail e)) = []"
    by (auto simp: rebuilt_def split_detail_rest promoted_def)
  with True show ?thesis
    by (simp add: message_to_event_def event_to_message_def proto_detail_def Let_def parse_blank
        typed_elements_default pb_default_fields)
next
  case False
  then show ?thesis
    by (auto simp: message_to_event_def event_to_message_def proto_detail_def Let_def case_prod_unfold
        parse_rest [OF assms] typed_elements_split comp_def)
qed

text \<open>What a receiver keeps of an event that travelled as a protobuf message.\<close>

definition event_kept :: "f64_lib \<Rightarrow> event \<Rightarrow> event \<Rightarrow> bool" where
  "event_kept F e e' \<longleftrightarrow>
     ev_uid e' = ev_uid e \<and> ev_type e' = ev_type e \<and> ev_point e' = ev_point e \<and> ev_proto_ext e' = ev_proto_ext e \<and>
     map (\<lambda>f. f e') [ev_time, ev_start, ev_stale] = map (\<lambda>f. clamp_time (f e)) [ev_time, ev_start, ev_stale] \<and>
     map (\<lambda>f. f e') [ev_how, ev_access, ev_qos, ev_opex, ev_caveat, ev_releasable_to] =
       map (\<lambda>f. blank_none (f e)) [ev_how, ev_access, ev_qos, ev_opex, ev_caveat, ev_releasable_to] \<and>
     ev_version e' = VERSION \<and> ev_extra_attrs e' = [] \<and> ev_callsign e' = ev_callsign e \<and> is_sa e' = is_sa e \<and>
     keeps_detail F (ev_detail e) (ev_detail e')"

lemma message_kept:
  assumes "quick_xml_ok L" and "f64_ok F" and "detail_carried F (ev_detail e)"
  shows "\<exists>e'. message_to_event L F (event_to_message L F e) = Inr e' \<and> event_kept F e e'"
proof -
  obtain e' where e': "message_to_event L F (event_to_message L F e) = Inr e'"
    "ev_uid e' = ev_uid e" "ev_type e' = ev_type e" "ev_point e' = ev_point e" "ev_proto_ext e' = ev_proto_ext e"
    "map (\<lambda>f. f e') [ev_time, ev_start, ev_stale] = map (\<lambda>f. clamp_time (f e)) [ev_time, ev_start, ev_stale]"
    "map (\<lambda>f. f e') [ev_how, ev_access, ev_qos, ev_opex, ev_caveat, ev_releasable_to] =
      map (\<lambda>f. blank_none (f e)) [ev_how, ev_access, ev_qos, ev_opex, ev_caveat, ev_releasable_to]"
    "ev_version e' = VERSION" "ev_extra_attrs e' = []"
    "ev_detail e' = \<lparr>nodes = map Elem (rebuilt F (ev_detail e)) @ snd (split_detail F (ev_detail e))\<rparr>"
    using that [OF message_detail [OF assms(1,3)]] by simp
  then have keeps: "keeps_detail F (ev_detail e) (ev_detail e')" using converted_keeps [OF assms(2,3)] by simp
  note same_contact [OF keeps]
  moreover from this e'(2) have "is_sa e' = is_sa e" by (simp add: is_sa_def)
  ultimately show ?thesis using e' keeps unfolding event_kept_def by blast
qed

text \<open>C22: a message survives the switch to protobuf: what a receiver reads back carries the same uid,
  type, position, extensions and classification, its times clamped to what both ends can hold, the
  same identity for routing, and a detail in which the elements of every other name, in order, every
  text and comment are exactly as they were and every promoted element reads the same.  What is
  lost is the version and the unknown attributes of the event.\<close>

theorem protobuf_preserves_events:
  assumes "quick_xml_ok L" and "f64_ok F" and "detail_carried F (ev_detail e)"
  shows "\<exists>e'. message_to_event L F (event_to_message L F e) = Inr e' \<and>
    ev_uid e' = ev_uid e \<and> ev_type e' = ev_type e \<and> ev_point e' = ev_point e \<and> ev_proto_ext e' = ev_proto_ext e \<and>
    map (\<lambda>f. f e') [ev_time, ev_start, ev_stale] = map (\<lambda>f. clamp_time (f e)) [ev_time, ev_start, ev_stale] \<and>
    map (\<lambda>f. f e') [ev_how, ev_access, ev_qos, ev_opex, ev_caveat, ev_releasable_to] =
      map (\<lambda>f. blank_none (f e)) [ev_how, ev_access, ev_qos, ev_opex, ev_caveat, ev_releasable_to] \<and>
    ev_version e' = VERSION \<and> ev_extra_attrs e' = [] \<and> ev_callsign e' = ev_callsign e \<and> is_sa e' = is_sa e \<and>
    keeps_detail F (ev_detail e) (ev_detail e')"
  using message_kept [OF assms] unfolding event_kept_def .

definition demo_position :: event where
  "demo_position =
     (event_default 7)\<lparr>ev_uid := lit ''A'', ev_type := lit ''a-f-G'', ev_how := Some (lit ''m-g''),
       ev_detail := \<lparr>nodes =
         [Elem (Element (lit ''remarks'') [] [Text (lit ''5 > 4'')]),
          Elem (Element (lit ''contact'') [(lit ''callsign'', lit ''x''), (lit ''endpoint'', lit ''*'')] []),
          Elem (Element (lit ''status'') [(lit ''battery'', lit ''90'')] [])]\<rparr>\<rparr>"

lemma demo_position_carried: "detail_carried bits_f64 (ev_detail demo_position)"
  unfolding detail_carried_def split_detail_rest
  by (simp add: demo_position_def promoted_def promote_def d_count_def d_find_def d_find_all_def d_elements_def name_defs
      contact_strict_def has_exactly_def contact_known_def contact_from_def Let_def status_strict_def status_known_def
      attrs_clean_def clean_text_def forbidden_def is_scalar_def lit_def is_name_char_def is_name_start_def in_range_def
      trim_def is_whitespace_def MAX_DEPTH_def)

theorem protobuf_preserves_events_witness:
  "\<exists>e'. message_to_event (plain_xml :: unit quick_xml) bits_f64
      (event_to_message (plain_xml :: unit quick_xml) bits_f64 demo_position) = Inr e' \<and> ev_callsign e' = Some (lit ''x'')"
proof -
  have "ev_callsign demo_position = Some (lit ''x'')"
    by (simp add: demo_position_def ev_callsign_def contact_attr_def d_find_def d_elements_def CONTACT_def el_get_def)
  then show ?thesis
    using protobuf_preserves_events [OF quick_xml_ok_plain instances_ok(1) demo_position_carried] by metis
qed

end
