(* ===== verification/Writer.thy ===== *)
theory Writer
  imports Subscription Proto_Props "HOL-Library.Sublist"
begin

text \<open>
  The half of a connection that writes (\<open>rustak-server/src/stream/writer.rs\<close>), and the verdict on a
  failed read or write (\<open>peer_probe.rs\<close>).  What each wait on the socket came to is an argument: how
  many bytes the socket took, and whether the wait ended well, failed or ran into the deadline.
  \<open>tokio_util\<close>'s \<open>FramedWrite\<close> is its buffer: feeding encodes at its end, the socket takes bytes from
  its front, and a flush that returns has emptied it.
\<close>

section \<open>The serialisations\<close>

text \<open>The libraries an event's bytes come from; \<open>prost\<close>'s encoder and decoder and the hex digest.\<close>

record ('x, 'd) wire_lib =
  wl_xml :: "'x quick_xml"
  wl_f64 :: f64_lib
  wl_clock :: clock_lib
  wl_encode :: "tak_message \<Rightarrow> bytes"
  wl_decode :: "bytes \<Rightarrow> 'd + tak_message"
  wl_sha256 :: "bytes \<Rightarrow> ustr"

definition event_xml :: "('x, 'd) wire_lib \<Rightarrow> event \<Rightarrow> bytes" where
  "event_xml W e = xml_write (wl_xml W) (wl_f64 W) (wl_clock W) e"

definition event_proto :: "('x, 'd) wire_lib \<Rightarrow> event \<Rightarrow> bytes" where
  "event_proto W e = wl_encode W (event_to_message (wl_xml W) (wl_f64 W) e)"

section \<open>The kernel's verdict\<close>

definition FLOOR :: nat where "FLOOR = 10"
definition CEILING :: nat where "CEILING = 900"
definition RETRIES :: nat where "RETRIES = 3"

record peer_probe =
  keepalive_idle :: nat
  keepalive_interval :: nat
  keepalive_retries :: nat
  user_timeout :: nat

text \<open>A \<open>Duration\<close> is its nanoseconds here; the settings are whole seconds.\<close>

definition for_idle_timeout :: "nat \<Rightarrow> peer_probe" where
  "for_idle_timeout idle_timeout =
     (let bound = max (FLOOR * 10 ^ 9) (min (CEILING * 10 ^ 9) idle_timeout) div 10 ^ 9;
          idle = bound div 2;
          interval = max 1 ((bound - idle) div RETRIES)
      in \<lparr>keepalive_idle = idle, keepalive_interval = interval, keepalive_retries = RETRIES, user_timeout = bound\<rparr>)"

definition keepalive_bound :: "peer_probe \<Rightarrow> nat" where
  "keepalive_bound p = keepalive_idle p + keepalive_interval p * keepalive_retries p"

fun io_kind_of :: "any_error \<Rightarrow> io_kind option" where
  "io_kind_of (IoError k w s) = Some k"
| "io_kind_of (NotIo s) = None"

definition cause :: "(any_error, 'x, 'd) codec_error \<Rightarrow> leave_reason \<Rightarrow> leave_reason" where
  "cause er otherwise =
     (case er of Io io \<Rightarrow> if io_kind_of io = Some TimedOutKind then PeerTimeout else otherwise
      | _ \<Rightarrow> otherwise)"

section \<open>The sink\<close>

record sink =
  sk_codec :: tak_codec
  sk_buffer :: bytes
  sk_socket :: bytes

definition sink_take :: "nat \<Rightarrow> sink \<Rightarrow> sink" where
  "sink_take n s = s\<lparr>sk_buffer := drop n (sk_buffer s), sk_socket := sk_socket s @ take n (sk_buffer s)\<rparr>"

definition sink_encode :: "('x, 'd) wire_lib \<Rightarrow> event \<Rightarrow> sink \<Rightarrow> sink" where
  "sink_encode W e s =
     s\<lparr>sk_buffer := fst (encode_event (event_xml W) (event_proto W) (sk_codec s) (encoded_new e) (sk_buffer s))\<rparr>"

text \<open>How one wait on the socket ended, and the bytes it took meanwhile.\<close>

datatype ('x, 'd) io_wait =
    Went_Through nat
  | Broke nat "(any_error, 'x, 'd) codec_error"
  | Timed_Out nat

record writer =
  wt_sink :: sink
  wt_metrics :: stream_metrics
  wt_liveness :: liveness

definition write_ended :: "leave_reason \<Rightarrow> writer \<Rightarrow> writer" where
  "write_ended r w = w\<lparr>wt_liveness := snd (ended r (wt_liveness w))\<rparr>"

definition DRAIN_BURST :: nat where
  "DRAIN_BURST = 64"

definition SUBSTITUTE_VALIDITY :: nat where
  "SUBSTITUTE_VALIDITY = 100 * 1000"

definition SERVER_CALLSIGN :: ustr where
  "SERVER_CALLSIGN = lit ''takserver''"

definition write_flush :: "('x, 'd) io_wait \<Rightarrow> writer \<Rightarrow> bool \<times> writer" where
  "write_flush r w =
     (case r of
        Went_Through _ \<Rightarrow> (True, w\<lparr>wt_sink := sink_take (length (sk_buffer (wt_sink w))) (wt_sink w)\<rparr>)
      | Broke n er \<Rightarrow> (False, write_ended (cause er WriteError) (w\<lparr>wt_sink := sink_take n (wt_sink w)\<rparr>))
      | Timed_Out n \<Rightarrow> (False, write_ended WriteTimeout (w\<lparr>wt_sink := sink_take n (wt_sink w)\<rparr>)))"

text \<open>Closing flushes under the deadline and ignores what comes of it.\<close>

definition write_close :: "('x, 'd) io_wait \<Rightarrow> writer \<Rightarrow> writer" where
  "write_close r w =
     w\<lparr>wt_sink := (case r of
        Went_Through _ \<Rightarrow> sink_take (length (sk_buffer (wt_sink w))) (wt_sink w)
      | Broke n _ \<Rightarrow> sink_take n (wt_sink w)
      | Timed_Out n \<Rightarrow> sink_take n (wt_sink w))\<rparr>"

text \<open>A feed waits for room first, which may write through, and then encodes.\<close>

definition fed :: "('x, 'd) wire_lib \<Rightarrow> ('x, 'd) io_wait \<Rightarrow> event \<Rightarrow> writer \<Rightarrow> bool \<times> writer" where
  "fed W r e w =
     (case r of
        Went_Through n \<Rightarrow> (True, w\<lparr>wt_sink := sink_encode W e (sink_take n (wt_sink w))\<rparr>)
      | Broke n er \<Rightarrow> (False, write_ended (cause er WriteError) (w\<lparr>wt_sink := sink_take n (wt_sink w)\<rparr>))
      | Timed_Out n \<Rightarrow> (False, write_ended WriteTimeout (w\<lparr>wt_sink := sink_take n (wt_sink w)\<rparr>)))"

definition write_pointer :: "cot_time \<Rightarrow> ustr \<Rightarrow> file_share \<Rightarrow> event" where
  "write_pointer now uid share =
     b_typed fileshare_to share
       (b_stale_after SUBSTITUTE_VALIDITY
         (b_time now
           (b_point_full \<lparr>lat = 0, lon = 0, hae = UNKNOWN, ce = UNKNOWN, le = UNKNOWN\<rparr>
             (b_how HOW_H_E (event_builder now FILESHARE_TYPE uid)))))"

definition trim_end_slashes :: "ustr \<Rightarrow> ustr" where
  "trim_end_slashes s = rev (dropWhile (\<lambda>c. c = 47) (rev s))"

definition substitute :: "('x, 'd) wire_lib \<Rightarrow> ustr option \<Rightarrow> cot_time \<Rightarrow> event \<Rightarrow> event option" where
  "substitute W public_url now e =
     (case public_url of
        None \<Rightarrow> None
      | Some base \<Rightarrow>
          let xml = event_xml W e;
              share = \<lparr>fs_filename = ev_uid e @ lit ''.xml'',
                fs_sender_url = trim_end_slashes base @ lit ''/Marti/api/cot/xml/'' @ ev_uid e,
                fs_size_in_bytes = length xml, fs_sha256 = wl_sha256 W xml, fs_sender_uid = ev_uid e,
                fs_sender_callsign = (case ev_callsign e of
                    Some c \<Rightarrow> if c \<noteq> [] then c else SERVER_CALLSIGN | None \<Rightarrow> SERVER_CALLSIGN),
                fs_name = ev_uid e, fs_peer_hosted = None, fs_https_port = None, fs_extra = []\<rparr>
          in Some (write_pointer now (ev_uid e) share))"

definition write_feed :: "('x, 'd) wire_lib \<Rightarrow> ustr option \<Rightarrow> cot_time \<Rightarrow> ('x, 'd) io_wait \<Rightarrow> event \<Rightarrow> writer \<Rightarrow> bool \<times> writer" where
  "write_feed W public_url now r e w =
     (if cx_mode (sk_codec (wt_sink w)) = Mode_Proto \<and> MAX_PROTO_PAYLOAD < length (event_proto W e) then
        (case substitute W public_url now e of
           Some p \<Rightarrow>
             fed W r p (w\<lparr>wt_metrics := (wt_metrics w)\<lparr>m_oversize_substituted :=
               counter_incr (m_oversize_substituted (wt_metrics w))\<rparr>\<rparr>)
         | None \<Rightarrow> (True, w))
      else fed W r e w)"

fun write_item :: "('x, 'd) wire_lib \<Rightarrow> ustr option \<Rightarrow> cot_time \<Rightarrow> ('x, 'd) io_wait \<Rightarrow> ('x, 'd) io_wait \<Rightarrow> outbound \<Rightarrow> writer \<Rightarrow> bool \<times> writer" where
  "write_item W url now r r' (OutEvent e) w = write_feed W url now r e w"
| "write_item W url now r r' (SwitchToProto a) w =
     (case write_feed W url now r a w of
        (False, w) \<Rightarrow> (False, w)
      | (True, w) \<Rightarrow>
          (case write_flush r' w of
             (False, w) \<Rightarrow> (False, w)
           | (True, w) \<Rightarrow>
               (True, w\<lparr>wt_sink := (wt_sink w)\<lparr>sk_codec := set_mode Mode_Proto (sk_codec (wt_sink w))\<rparr>\<rparr>)))"
| "write_item W url now r r' Close w = (False, w)"

section \<open>The loop\<close>

text \<open>One queued item with the clock and the waits it meets.\<close>

record ('x, 'd) queued =
  qd_item :: outbound
  qd_now :: cot_time
  qd_feed :: "('x, 'd) io_wait"
  qd_flush :: "('x, 'd) io_wait"

text \<open>A pass takes what is queued, up to the burst, and flushes once.\<close>

record ('x, 'd) pass =
  ps_batch :: "('x, 'd) queued list"
  ps_flush :: "('x, 'd) io_wait"
  ps_close :: "('x, 'd) io_wait"
  ps_instant :: nat

text \<open>What one pass takes from a queue that holds something: the first item and what else is there, up to
  the burst.\<close>

definition take_batch :: "'q list \<Rightarrow> ('q list \<times> 'q list) option" where
  "take_batch queue = (if queue = [] then None else Some (take DRAIN_BURST queue, drop DRAIN_BURST queue))"

fun write_batch :: "('x, 'd) wire_lib \<Rightarrow> ustr option \<Rightarrow> ('x, 'd) queued list \<Rightarrow> writer \<Rightarrow> bool \<times> writer" where
  "write_batch W url [] w = (True, w)"
| "write_batch W url (q # qs) w =
     (case write_item W url (qd_now q) (qd_feed q) (qd_flush q) (qd_item q) w of
        (True, w) \<Rightarrow> write_batch W url qs w
      | (False, w) \<Rightarrow> (False, w))"

text \<open>The first component says whether the writer cancelled the connection.\<close>

fun writer_run :: "('x, 'd) wire_lib \<Rightarrow> ustr option \<Rightarrow> ('x, 'd) pass list \<Rightarrow> ('x, 'd) io_wait \<Rightarrow> ('x, 'd) io_wait \<Rightarrow> writer \<Rightarrow> bool \<times> writer" where
  "writer_run W url [] last_flush last_close w = (False, write_close last_close (snd (write_flush last_flush w)))"
| "writer_run W url (p # ps) last_flush last_close w =
     (case write_batch W url (ps_batch p) w of
        (False, w) \<Rightarrow> (True, write_close (ps_close p) w)
      | (True, w) \<Rightarrow>
          (case write_flush (ps_flush p) w of
             (False, w) \<Rightarrow> (True, w)
           | (True, w) \<Rightarrow>
               writer_run W url ps last_flush last_close (w\<lparr>wt_liveness := wrote (ps_instant p) (wt_liveness w)\<rparr>)))"

section \<open>What is on the wire\<close>

text \<open>
  The bytes a sequence of queued items stands for: every item in the mode it is reached in, XML up to
  and including the answer that accepts protobuf, protobuf from there, nothing after a close.
\<close>

definition frame_bytes :: "('x, 'd) wire_lib \<Rightarrow> mode \<Rightarrow> event \<Rightarrow> bytes" where
  "frame_bytes W m e = (case m of Mode_Xml \<Rightarrow> event_xml W e | Mode_Proto \<Rightarrow> proto_encode (event_proto W e) [])"

definition sent_form :: "('x, 'd) wire_lib \<Rightarrow> ustr option \<Rightarrow> cot_time \<Rightarrow> mode \<Rightarrow> event \<Rightarrow> event option" where
  "sent_form W url now m e =
     (if m = Mode_Proto \<and> MAX_PROTO_PAYLOAD < length (event_proto W e) then substitute W url now e else Some e)"

fun wire_bytes :: "('x, 'd) wire_lib \<Rightarrow> ustr option \<Rightarrow> mode \<Rightarrow> ('x, 'd) queued list \<Rightarrow> bytes" where
  "wire_bytes W url m [] = []"
| "wire_bytes W url m (q # qs) =
     (case qd_item q of
        OutEvent e \<Rightarrow> (case sent_form W url (qd_now q) m e of Some x \<Rightarrow> frame_bytes W m x | None \<Rightarrow> []) @ wire_bytes W url m qs
      | SwitchToProto a \<Rightarrow>
          (case sent_form W url (qd_now q) m a of Some x \<Rightarrow> frame_bytes W m x | None \<Rightarrow> []) @ wire_bytes W url Mode_Proto qs
      | Close \<Rightarrow> [])"


text \<open>Everything a writer has produced so far.\<close>

definition sink_total :: "writer \<Rightarrow> bytes" where
  "sink_total w = sk_socket (wt_sink w) @ sk_buffer (wt_sink w)"

abbreviation sink_mode :: "writer \<Rightarrow> mode" where
  "sink_mode w \<equiv> cx_mode (sk_codec (wt_sink w))"

definition item_bytes :: "('x, 'd) wire_lib \<Rightarrow> ustr option \<Rightarrow> mode \<Rightarrow> cot_time \<Rightarrow> event \<Rightarrow> bytes" where
  "item_bytes W url m now e = (case sent_form W url now m e of Some x \<Rightarrow> frame_bytes W m x | None \<Rightarrow> [])"

lemma sink_take_total [simp]: "sk_socket (sink_take n s) @ sk_buffer (sink_take n s) = sk_socket s @ sk_buffer s"
  by (simp add: sink_take_def)

lemma sink_take_simps [simp]:
  "sk_codec (sink_take n s) = sk_codec s" "sk_buffer (sink_take (length (sk_buffer s)) s) = []"
  "sk_socket (sink_take (length (sk_buffer s)) s) = sk_socket s @ sk_buffer s"
  "prefix (sk_socket s) (sk_socket (sink_take n s))"
  by (simp_all add: sink_take_def)

lemma sink_encode_simps [simp]:
  "sk_codec (sink_encode W e s) = sk_codec s" "sk_socket (sink_encode W e s) = sk_socket s"
  "sk_buffer (sink_encode W e s) = sk_buffer s @ frame_bytes W (cx_mode (sk_codec s)) e"
  by (simp_all add: sink_encode_def encode_event_def encoded_new_def encoded_xml_def encoded_proto_def frame_bytes_def
      proto_encode_def put_varint_append Let_def split: mode.split)

text \<open>What a step that goes on, or gives up, leaves behind.\<close>

definition went_on :: "bytes \<Rightarrow> writer \<Rightarrow> writer \<Rightarrow> bool" where
  "went_on bs w w' \<longleftrightarrow> sink_total w' = sink_total w @ bs \<and> prefix (sk_socket (wt_sink w)) (sk_socket (wt_sink w')) \<and>
     wt_liveness w' = wt_liveness w"

definition gave_up :: "bytes \<Rightarrow> writer \<Rightarrow> writer \<Rightarrow> bool" where
  "gave_up bs w w' \<longleftrightarrow> prefix (sink_total w') (sink_total w @ bs) \<and> prefix (sk_socket (wt_sink w)) (sk_socket (wt_sink w')) \<and>
     life_ok (wt_liveness w') \<and> reason_of (wt_liveness w') \<noteq> None"

lemma write_ended_life:
  "life_ok (wt_liveness w) \<Longrightarrow> life_ok (wt_liveness (write_ended r w)) \<and> reason_of (wt_liveness (write_ended r w)) \<noteq> None"
  using ended_stands [of "wt_liveness w" r] life_ok_step [of "wt_liveness w" "Ended r"] by (simp add: write_ended_def)

lemma write_ended_sink [simp]: "wt_sink (write_ended r w) = wt_sink w"
  by (simp add: write_ended_def)

lemma write_flush_step:
  assumes "write_flush r w = (b, w')" and "life_ok (wt_liveness w)"
  shows "sink_mode w' = sink_mode w \<and>
    (if b then went_on [] w w' \<and> sk_buffer (wt_sink w') = [] else gave_up [] w w')"
  using assms write_ended_life
  by (cases r) (auto simp: write_flush_def went_on_def gave_up_def sink_total_def)

lemma fed_step:
  assumes "fed W r e w = (b, w')" and "life_ok (wt_liveness w)"
  shows "sink_mode w' = sink_mode w \<and>
    (if b then went_on (frame_bytes W (sink_mode w) e) w w' else gave_up [] w w')"
  using assms write_ended_life
  by (cases r) (auto simp: fed_def went_on_def gave_up_def sink_total_def append_assoc [symmetric] simp del: append_assoc)

lemma gave_up_more: "gave_up [] w w' \<Longrightarrow> gave_up bs w w'"
  by (auto simp: gave_up_def prefix_append)

lemma write_feed_step:
  assumes "write_feed W url now r e w = (b, w')" and "life_ok (wt_liveness w)"
  shows "sink_mode w' = sink_mode w \<and>
    (if b then went_on (item_bytes W url (sink_mode w) now e) w w' else gave_up [] w w')"
proof -
  let ?w = "w\<lparr>wt_metrics := (wt_metrics w)\<lparr>m_oversize_substituted := counter_incr (m_oversize_substituted (wt_metrics w))\<rparr>\<rparr>"
  show ?thesis
    using assms fed_step [of W r e w b w'] fed_step [of W r _ ?w b w']
    by (auto simp: write_feed_def item_bytes_def sent_form_def went_on_def gave_up_def sink_total_def split: if_splits option.splits)
qed

definition mode_after :: "mode \<Rightarrow> outbound \<Rightarrow> mode" where
  "mode_after m out = (case out of SwitchToProto a \<Rightarrow> Mode_Proto | _ \<Rightarrow> m)"

definition outbound_bytes :: "('x, 'd) wire_lib \<Rightarrow> ustr option \<Rightarrow> mode \<Rightarrow> cot_time \<Rightarrow> outbound \<Rightarrow> bytes" where
  "outbound_bytes W url m now out =
     (case out of OutEvent e \<Rightarrow> item_bytes W url m now e | SwitchToProto a \<Rightarrow> item_bytes W url m now a | Close \<Rightarrow> [])"

lemma wire_bytes_Cons:
  "wire_bytes W url m (q # qs) = outbound_bytes W url m (qd_now q) (qd_item q) @
     (if qd_item q = Close then [] else wire_bytes W url (mode_after m (qd_item q)) qs)"
  by (simp add: outbound_bytes_def mode_after_def item_bytes_def split: outbound.split)

lemma set_codec_step:
  "went_on bs w w' \<Longrightarrow> went_on bs w (w'\<lparr>wt_sink := (wt_sink w')\<lparr>sk_codec := c\<rparr>\<rparr>)"
  by (simp add: went_on_def sink_total_def)

lemma went_on_trans: "went_on bs w w1 \<Longrightarrow> went_on cs w1 w2 \<Longrightarrow> went_on (bs @ cs) w w2"
  by (auto simp: went_on_def intro: prefix_order.trans)

lemma gave_up_trans: "went_on bs w w1 \<Longrightarrow> gave_up cs w1 w2 \<Longrightarrow> gave_up (bs @ cs) w w2"
  by (auto simp: went_on_def gave_up_def intro: prefix_order.trans)

lemma write_item_step:
  assumes "write_item W url now r r' out w = (b, w')" and "life_ok (wt_liveness w)"
  shows "if b then out \<noteq> Close \<and> sink_mode w' = mode_after (sink_mode w) out \<and>
      went_on (outbound_bytes W url (sink_mode w) now out) w w'
    else if out = Close then w' = w else gave_up (outbound_bytes W url (sink_mode w) now out) w w'"
proof (cases out)
  case (OutEvent e)
  then show ?thesis
    using assms write_feed_step [of W url now r e w b w'] by (auto simp: mode_after_def outbound_bytes_def gave_up_more)
next
  case Close
  then show ?thesis using assms by simp
next
  case (SwitchToProto a)
  obtain b1 w1 where f: "write_feed W url now r a w = (b1, w1)" by force
  note fs = write_feed_step [OF f assms(2)]
  show ?thesis
  proof (cases b1)
    case False
    with assms SwitchToProto f fs show ?thesis by (auto simp: outbound_bytes_def gave_up_more)
  next
    case True
    then have g: "went_on (item_bytes W url (sink_mode w) now a) w w1" "life_ok (wt_liveness w1)"
      using fs assms(2) by (auto simp: went_on_def)
    obtain b2 w2 where s: "write_flush r' w1 = (b2, w2)" by force
    note ss = write_flush_step [OF s g(2)]
    show ?thesis
    proof (cases b2)
      case False
      with ss gave_up_trans [OF g(1), of "[]" w2] have "gave_up (item_bytes W url (sink_mode w) now a) w w2" by simp
      with False True assms SwitchToProto f s show ?thesis by (auto simp: outbound_bytes_def)
    next
      case t2: True
      with ss went_on_trans [OF g(1), of "[]" w2] have "went_on (item_bytes W url (sink_mode w) now a) w w2" by simp
      with t2 True assms SwitchToProto f s show ?thesis
        by (auto simp: outbound_bytes_def mode_after_def set_mode_def intro: set_codec_step)
    qed
  qed
qed

text \<open>A batch.\<close>

definition closes :: "('x, 'd) queued list \<Rightarrow> bool" where
  "closes qs \<longleftrightarrow> list_ex (\<lambda>q. qd_item q = Close) qs"

definition mode_of_all :: "mode \<Rightarrow> ('x, 'd) queued list \<Rightarrow> mode" where
  "mode_of_all m qs = foldl (\<lambda>m q. mode_after m (qd_item q)) m qs"

lemma wire_bytes_append:
  "\<not> closes qs \<Longrightarrow> wire_bytes W url m (qs @ rs) = wire_bytes W url m qs @ wire_bytes W url (mode_of_all m qs) rs"
  by (induction qs arbitrary: m) (simp_all add: wire_bytes_Cons closes_def mode_of_all_def del: wire_bytes.simps(2))

lemma wire_bytes_prefix: "prefix (wire_bytes W url m qs) (wire_bytes W url m (qs @ rs))"
  by (induction qs arbitrary: m) (simp_all add: wire_bytes_Cons del: wire_bytes.simps(2))

lemma write_batch_step:
  "write_batch W url qs w = (b, w') \<Longrightarrow> life_ok (wt_liveness w) \<Longrightarrow>
   if b then \<not> closes qs \<and> sink_mode w' = mode_of_all (sink_mode w) qs \<and> went_on (wire_bytes W url (sink_mode w) qs) w w'
   else prefix (sink_total w') (sink_total w @ wire_bytes W url (sink_mode w) qs) \<and>
     prefix (sk_socket (wt_sink w)) (sk_socket (wt_sink w')) \<and> life_ok (wt_liveness w') \<and>
     (closes qs \<or> reason_of (wt_liveness w') \<noteq> None)"
proof (induction qs arbitrary: w)
  case Nil
  then show ?case by (simp add: closes_def mode_of_all_def went_on_def)
next
  case (Cons q qs)
  obtain b1 w1 where i: "write_item W url (qd_now q) (qd_feed q) (qd_flush q) (qd_item q) w = (b1, w1)" by force
  note st = write_item_step [OF i Cons.prems(2)]
  show ?case
  proof (cases b1)
    case False
    with i Cons.prems(1) have w': "b = False" "w' = w1" by simp_all
    show ?thesis
    proof (cases "qd_item q = Close")
      case True
      with st False w' Cons.prems(2) show ?thesis by (simp add: closes_def)
    next
      case nc: False
      with st False have "gave_up (outbound_bytes W url (sink_mode w) (qd_now q) (qd_item q)) w w1" by simp
      with w' nc show ?thesis
        by (auto simp: gave_up_def wire_bytes_Cons simp del: wire_bytes.simps(2) simp flip: append_assoc)
    qed
  next
    case True
    with st have w1: "qd_item q \<noteq> Close" "sink_mode w1 = mode_after (sink_mode w) (qd_item q)"
      "went_on (outbound_bytes W url (sink_mode w) (qd_now q) (qd_item q)) w w1" by simp_all
    then have "life_ok (wt_liveness w1)" using Cons.prems(2) by (simp add: went_on_def)
    from Cons.IH [OF _ this] True i Cons.prems(1)
    have IH: "if b then \<not> closes qs \<and> sink_mode w' = mode_of_all (sink_mode w1) qs \<and> went_on (wire_bytes W url (sink_mode w1) qs) w1 w'
      else prefix (sink_total w') (sink_total w1 @ wire_bytes W url (sink_mode w1) qs) \<and>
        prefix (sk_socket (wt_sink w1)) (sk_socket (wt_sink w')) \<and> life_ok (wt_liveness w') \<and>
        (closes qs \<or> reason_of (wt_liveness w') \<noteq> None)" by simp
    show ?thesis
    proof (cases b)
      case bt: True
      with IH w1 went_on_trans [OF w1(3)] show ?thesis
        by (simp add: closes_def mode_of_all_def wire_bytes_Cons del: wire_bytes.simps(2))
    next
      case bf: False
      with bf IH w1 show ?thesis
        by (auto simp: went_on_def closes_def wire_bytes_Cons simp del: wire_bytes.simps(2) intro: prefix_order.trans)
    qed
  qed
qed

text \<open>C8: one queue, one order, one switch: whatever the waits on the socket come to and however the
  queue is cut into passes, the bytes a writer has produced are a prefix of what its queue stands
  for, in order: every message in XML up to the answer that accepts protobuf, in protobuf after it,
  an oversize one replaced or left out, nothing after a close.  What the socket took only grows, a
  writer that gives up names a cause, and one whose queue ended has produced everything; when its
  last flush goes through it has all reached the socket.\<close>

theorem writer_keeps_the_order:
  assumes "writer_run W url ps last_flush last_close w = (gave, w')" and "life_ok (wt_liveness w)"
  shows "prefix (sink_total w') (sink_total w @ wire_bytes W url (sink_mode w) (concat (map ps_batch ps))) \<and>
    prefix (sk_socket (wt_sink w)) (sk_socket (wt_sink w')) \<and>
    (if gave then closes (concat (map ps_batch ps)) \<or> reason_of (wt_liveness w') \<noteq> None
     else sink_total w' = sink_total w @ wire_bytes W url (sink_mode w) (concat (map ps_batch ps)) \<and>
       (\<forall>n. last_flush = Went_Through n \<longrightarrow> sk_buffer (wt_sink w') = []))"
  using assms
proof (induction ps arbitrary: w)
  case Nil
  obtain b1 w1 where f: "write_flush last_flush w = (b1, w1)" by force
  note st = write_flush_step [OF f Nil(2)]
  have "sink_total w1 = sink_total w" "prefix (sk_socket (wt_sink w)) (sk_socket (wt_sink w1))"
    using f by (cases last_flush; auto simp: write_flush_def sink_total_def)+
  moreover have "b1" if "last_flush = Went_Through n" for n using that f by (simp add: write_flush_def)
  moreover have "w' = write_close last_close w1" "\<not> gave" using Nil(1) f by simp_all
  ultimately show ?case
    using st by (cases last_close) (auto simp: write_close_def sink_take_def sink_total_def intro: prefix_order.trans)
next
  case (Cons p ps)
  obtain b1 w1 where b: "write_batch W url (ps_batch p) w = (b1, w1)" by force
  note st = write_batch_step [OF b Cons.prems(2)]
  let ?rest = "concat (map ps_batch ps)" and ?m = "sink_mode w"
  show ?case
  proof (cases b1)
    case False
    then have w': "gave" "w' = write_close (ps_close p) w1" using Cons.prems(1) b by simp_all
    have "sink_total w' = sink_total w1" "prefix (sk_socket (wt_sink w1)) (sk_socket (wt_sink w'))"
      "wt_liveness w' = wt_liveness w1"
      unfolding w' by (cases "ps_close p"; auto simp: write_close_def sink_take_def sink_total_def)+
    moreover have "prefix (sink_total w @ wire_bytes W url ?m (ps_batch p))
        (sink_total w @ wire_bytes W url ?m (concat (map ps_batch (p # ps))))"
      using wire_bytes_prefix by simp
    ultimately show ?thesis
      using st False w'(1) by (auto simp: closes_def intro: prefix_order.trans)
  next
    case True
    with st have on: "\<not> closes (ps_batch p)" "sink_mode w1 = mode_of_all ?m (ps_batch p)"
      "went_on (wire_bytes W url ?m (ps_batch p)) w w1" by simp_all
    then have l1: "life_ok (wt_liveness w1)" using Cons.prems(2) by (simp add: went_on_def)
    obtain b2 w2 where f: "write_flush (ps_flush p) w1 = (b2, w2)" by force
    note fs = write_flush_step [OF f l1]
    have wb: "wire_bytes W url ?m (concat (map ps_batch (p # ps))) =
        wire_bytes W url ?m (ps_batch p) @ wire_bytes W url (sink_mode w1) ?rest"
      using on by (simp add: wire_bytes_append)
    show ?thesis
    proof (cases b2)
      case False
      with fs have "gave_up [] w1 w2" by simp
      from gave_up_trans [OF on(3) this] have g: "gave_up (wire_bytes W url ?m (ps_batch p)) w w2" by simp
      moreover have "gave" "w' = w2" using True False Cons.prems(1) b f by simp_all
      ultimately show ?thesis
        unfolding wb by (auto simp: gave_up_def simp flip: append_assoc)
    next
      case t2: True
      let ?w3 = "w2\<lparr>wt_liveness := wrote (ps_instant p) (wt_liveness w2)\<rparr>"
      from t2 fs have "went_on [] w1 w2" by simp
      from went_on_trans [OF on(3) this] have w2: "went_on (wire_bytes W url ?m (ps_batch p)) w w2" by simp
      have run: "writer_run W url ps last_flush last_close ?w3 = (gave, w')" using Cons.prems(1) True t2 b f by simp
      have t3: "sink_total ?w3 = sink_total w2" "wt_sink ?w3 = wt_sink w2" by (simp_all add: sink_total_def)
      have l3: "life_ok (wt_liveness ?w3)"
        using life_ok_step [of "wt_liveness w2" "Wrote (ps_instant p)"] w2 Cons.prems(2) by (simp add: went_on_def)
      have IH: "prefix (sink_total w') (sink_total w2 @ wire_bytes W url (sink_mode w2) ?rest) \<and>
          prefix (sk_socket (wt_sink w2)) (sk_socket (wt_sink w')) \<and>
          (if gave then closes ?rest \<or> reason_of (wt_liveness w') \<noteq> None
           else sink_total w' = sink_total w2 @ wire_bytes W url (sink_mode w2) ?rest \<and>
             (\<forall>n. last_flush = Went_Through n \<longrightarrow> sk_buffer (wt_sink w') = []))"
        by (rule Cons.IH [OF run l3, unfolded t3])
      have tot: "sink_total w2 = sink_total w @ wire_bytes W url ?m (ps_batch p)"
        using w2 by (simp add: went_on_def)
      have m2: "sink_mode w2 = sink_mode w1" using fs by simp
      have s2: "prefix (sk_socket (wt_sink w)) (sk_socket (wt_sink w'))"
        using IH w2 by (auto simp: went_on_def intro: prefix_order.trans)
      have c2: "closes (concat (map ps_batch (p # ps))) \<longleftrightarrow> closes ?rest" using on(1) by (simp add: closes_def)
      show ?thesis
        unfolding wb c2 using IH s2 unfolding tot m2 append_assoc by blast
    qed
  qed
qed

definition demo_wire :: "(unit, unit) wire_lib" where
  "demo_wire = \<lparr>wl_xml = plain_xml, wl_f64 = bits_f64, wl_clock = count_clock, wl_encode = (\<lambda>m. [1, 2, 3]),
     wl_decode = (\<lambda>b. Inl ()), wl_sha256 = (\<lambda>b. [])\<rparr>"

definition demo_writer :: writer where
  "demo_writer = \<lparr>wt_sink = \<lparr>sk_codec = codec_new Mode_Xml, sk_buffer = [], sk_socket = []\<rparr>,
     wt_metrics = metrics_new, wt_liveness = liveness_new 0\<rparr>"

definition demo_pass :: "(unit, unit) pass" where
  "demo_pass =
     \<lparr>ps_batch =
        [\<lparr>qd_item = SwitchToProto (event_default 7), qd_now = 7, qd_feed = Went_Through 0, qd_flush = Went_Through 0\<rparr>,
         \<lparr>qd_item = OutEvent (event_default 8), qd_now = 8, qd_feed = Went_Through 0, qd_flush = Went_Through 0\<rparr>],
      ps_flush = Went_Through 0, ps_close = Went_Through 0, ps_instant = 5\<rparr>"

theorem writer_keeps_the_order_witness:
  "sk_socket (wt_sink (snd (writer_run demo_wire None [demo_pass] (Went_Through 0) (Went_Through 0) demo_writer))) =
     event_xml demo_wire (event_default 7) @ proto_encode [1, 2, 3] []"
proof -
  obtain gave w' where run: "writer_run demo_wire None [demo_pass] (Went_Through 0) (Went_Through 0) demo_writer = (gave, w')"
    by force
  have proto: "event_proto demo_wire e = [1, 2, 3]" for e by (simp add: event_proto_def demo_wire_def)
  have "\<not> gave" using run
    by (auto simp: demo_pass_def write_feed_def fed_def write_flush_def demo_writer_def proto MAX_PROTO_PAYLOAD_def
        set_mode_def codec_new_def with_limit_def split: if_splits)
  then have "sink_total w' = event_xml demo_wire (event_default 7) @ proto_encode [1, 2, 3] []" "sk_buffer (wt_sink w') = []"
    using writer_keeps_the_order [OF run]
    by (simp_all add: demo_writer_def demo_pass_def sink_total_def codec_new_def with_limit_def sent_form_def
        frame_bytes_def proto MAX_PROTO_PAYLOAD_def) (metis append_Nil2)+
  then show ?thesis unfolding run by (simp add: sink_total_def)
qed

text \<open>A vanished peer is reclaimed within the idle timeout: the socket's settings give it at least
  ten seconds and at most fifteen minutes, exactly the idle timeout in whole seconds in between, the
  keepalive probes end by then, and no earlier than three seconds before.\<close>

theorem probe_within_the_idle_timeout:
  "let p = for_idle_timeout t in
     10 \<le> user_timeout p \<and> user_timeout p \<le> 900 \<and>
     (10 * 10 ^ 9 \<le> t \<longrightarrow> t \<le> 900 * 10 ^ 9 \<longrightarrow> user_timeout p = t div 10 ^ 9) \<and>
     keepalive_bound p \<le> user_timeout p \<and> user_timeout p < keepalive_bound p + 3 \<and> 1 \<le> keepalive_interval p"
proof -
  define b where "b = max (10 * 10 ^ 9) (min (900 * 10 ^ 9) t) div 10 ^ 9"
  define i where "i = (b - b div 2) div 3"
  have b: "10 \<le> b" "b \<le> 900" unfolding b_def
    using div_le_mono [of "10 * 10 ^ 9" "max (10 * 10 ^ 9) (min (900 * 10 ^ 9) t)" "10 ^ 9"]
      div_le_mono [of "max (10 * 10 ^ 9) (min (900 * 10 ^ 9) t)" "900 * 10 ^ 9" "10 ^ 9"] by simp_all
  have exact: "10 * 10 ^ 9 \<le> t \<longrightarrow> t \<le> 900 * 10 ^ 9 \<longrightarrow> b = t div 10 ^ 9" by (simp add: b_def)
  have i: "1 \<le> i" "b div 2 + i * 3 \<le> b" "b < b div 2 + i * 3 + 3"
  proof -
    have "b - b div 2 = i * 3 + (b - b div 2) mod 3" "(b - b div 2) mod 3 < 3" by (simp_all add: i_def)
    moreover have "b div 2 \<le> b" "5 \<le> b - b div 2" using b(1) by auto
    ultimately show "1 \<le> i" "b div 2 + i * 3 \<le> b" "b < b div 2 + i * 3 + 3" by linarith+
  qed
  have "for_idle_timeout t =
      \<lparr>keepalive_idle = b div 2, keepalive_interval = i, keepalive_retries = 3, user_timeout = b\<rparr>"
    using i(1) by (simp add: for_idle_timeout_def Let_def FLOOR_def CEILING_def RETRIES_def b_def i_def max_def)
  then show ?thesis using b exact i by (simp only: Let_def keepalive_bound_def peer_probe.simps simp_thms)
qed

theorem probe_within_the_idle_timeout_witness:
  "user_timeout (for_idle_timeout (90 * 10 ^ 9)) = 90 \<and> keepalive_bound (for_idle_timeout (90 * 10 ^ 9)) \<le> 90"
  using probe_within_the_idle_timeout [of "90 * 10 ^ 9"] by (simp add: Let_def)

end
