(* ===== verification/Xml_Wire.thy ===== *)
theory Xml_Wire
  imports Xml_Props Codec
begin

text \<open>
  The XML writer meets the XML framer (\<open>rustak-cot/src/xml/write.rs\<close>, \<open>codec/xml_frame.rs\<close>): the
  bytes of a written message are the declaration, which is junk to the framer, and one message whose
  first start tag and only end tag are its own, so that what the framer cuts off is read back as the
  message.  What may not be framed is named by \<open>framed_nodes\<close>.
\<close>

section \<open>What the framer can carry\<close>

abbreviation ENDT :: ustr where
  "ENDT \<equiv> lit ''</event>''"

text \<open>The framer searches for bytes: an end tag of the same name further in would end the message.\<close>

fun framed_nodes :: "node list \<Rightarrow> bool" where
  "framed_nodes [] \<longleftrightarrow> True"
| "framed_nodes (Elem (Element name as cs) # ns) \<longleftrightarrow>
     (cs = [] \<or> name \<noteq> lit ''event'') \<and> framed_nodes cs \<and> framed_nodes ns"
| "framed_nodes (Text t # ns) \<longleftrightarrow> framed_nodes ns"
| "framed_nodes (CData t # ns) \<longleftrightarrow> \<not> occurs ENDT t \<and> framed_nodes ns"
| "framed_nodes (Comment t # ns) \<longleftrightarrow> \<not> occurs ENDT t \<and> framed_nodes ns"

fun quiet_tok :: "'x xml_token \<Rightarrow> bool" where
  "quiet_tok (End_Tag n) \<longleftrightarrow> n \<noteq> lit ''event''"
| "quiet_tok (CData_Tok t) \<longleftrightarrow> \<not> occurs ENDT t"
| "quiet_tok (Comment_Tok t) \<longleftrightarrow> \<not> occurs ENDT t"
| "quiet_tok (Other_Tok t) \<longleftrightarrow> False"
| "quiet_tok _ \<longleftrightarrow> True"

section \<open>Where an end tag can start\<close>

lemma occurs_drop: "starts_with (drop k s) p \<Longrightarrow> k < length s \<Longrightarrow> occurs p s"
proof (induction s arbitrary: k)
  case (Cons c s)
  then show ?case by (cases k) auto
qed simp

lemma starts_with_straddle:
  assumes "starts_with (u @ x # v) p" and "x \<notin> set p"
  shows "starts_with u p"
proof (cases "length p \<le> length u")
  case True
  with assms(1) show ?thesis by (simp add: starts_with_def)
next
  case False
  then have "p ! length u = take (length p) (u @ x # v) ! length u" using assms(1) by (simp add: starts_with_def)
  also have "\<dots> = x" using False by (simp add: nth_append take_Cons')
  finally have "x \<in> set p" using False nth_mem [of "length u" p] by simp
  with assms(2) show ?thesis by simp
qed

lemma starts_ENDT_iff: "starts_with s ENDT \<longleftrightarrow> (\<exists>r. s = 60 # 47 # lit ''event'' @ 62 # r)"
  by (auto simp: starts_with_iff lit_def)

text \<open>After its first character a tag has no \<open><\<close>, so nothing but a tag can open one.\<close>

lemma only_head_opens:
  assumes "60 \<notin> set (tl s)" and "starts_with (drop k (s @ r)) ENDT" and "k < length s"
  shows "k = 0"
proof (rule ccontr)
  assume "k \<noteq> 0"
  with assms(3) have "drop k (s @ r) ! 0 \<in> set (tl s)"
    by (cases s) (auto simp: nth_append nth_Cons split: nat.split)
  moreover have "drop k (s @ r) ! 0 = 60" using assms(2) by (auto simp: starts_ENDT_iff)
  ultimately show False using assms(1) by simp
qed

lemma name_no_lt: "is_name n \<Longrightarrow> 60 \<notin> set n \<and> 62 \<notin> set n"
  using is_name_chars [of n] by (auto simp: list_all_iff is_name_char_def is_name_start_def in_range_def)

lemma name_hd: "is_name n \<Longrightarrow> \<exists>c m. n = c # m \<and> c \<noteq> 47 \<and> c \<noteq> 33"
  by (cases n) (auto simp: is_name_start_def in_range_def)

lemma attr_no_lt: "attrs_ok as \<Longrightarrow> 60 \<notin> set (concat (map attr_text as))"
proof (induction as)
  case (Cons a as)
  then show ?case using name_no_lt by (cases a) (auto simp: list_all_iff)
qed simp

text \<open>No token but the end tag of an \<open>event\<close> contains or opens that end tag.\<close>

lemma quiet_token:
  assumes "tok_ok t" and "quiet_tok t" and "k < length (tok_text t)"
  shows "\<not> starts_with (drop k (tok_text t @ r)) ENDT"
proof
  assume st: "starts_with (drop k (tok_text t @ r)) ENDT"
  have tag: False if "tok_text t = 60 # s" "60 \<notin> set s" "\<forall>q. s @ r \<noteq> 47 # lit ''event'' @ 62 # q" for s
  proof -
    have "k = 0" using only_head_opens [OF _ st assms(3)] that by simp
    with st that(1,3) show False by (auto simp: starts_ENDT_iff)
  qed
  have inner: False if "tok_text t = u @ c @ x # v" "60 \<notin> set (tl u)" "u = 60 # 33 # u'" "\<not> occurs ENDT c"
    "x \<notin> set ENDT" "60 \<notin> set (x # v)" for u c x v u'
  proof -
    consider "k < length u" | "length u \<le> k" "k < length u + length c" | "length u + length c \<le> k" by linarith
    then show False
    proof cases
      case 1
      then have "k = 0" using only_head_opens [of u k "c @ x # v @ r"] st that(1,2) by simp
      with st that(1,3) show False by (auto simp: starts_ENDT_iff)
    next
      case 2
      then obtain j where j: "k = length u + j" "j < length c" by (metis le_Suc_ex nat_add_left_cancel_less)
      with st that(1) have "starts_with (drop j c @ x # v @ r) ENDT" by simp
      then have "starts_with (drop j c) ENDT" using that(5) by (rule starts_with_straddle)
      with j(2) occurs_drop that(4) show False by blast
    next
      case 3
      then obtain j where j: "k = length (u @ c) + j" by (metis le_Suc_ex length_append)
      with assms(3) that(1) have "j < length (x # v)" by simp
      moreover have "drop k (tok_text t @ r) = drop j ((x # v) @ r)" using that(1) j by simp
      ultimately have "drop k (tok_text t @ r) ! 0 \<in> set (x # v)" by (auto simp: nth_append nth_Cons split: nat.split)
      moreover have "drop k (tok_text t @ r) ! 0 = 60" using st by (auto simp: starts_ENDT_iff)
      ultimately show False using that(6) by simp
    qed
  qed
  show False
  proof (cases t)
    case (Start_Tag n as)
    then obtain c m where n: "n = c # m" "c \<noteq> 47" using assms(1) name_hd [of n] by auto
    have "60 \<notin> set n" "60 \<notin> set (concat (map attr_text as))"
      using Start_Tag assms(1) name_no_lt [of n] attr_no_lt [of as] by simp_all
    with Start_Tag n show False by (intro tag [of "n @ concat (map attr_text as) @ [62]"]) simp_all
  next
    case (Empty_Tag n as)
    then obtain c m where n: "n = c # m" "c \<noteq> 47" using assms(1) name_hd [of n] by auto
    have "60 \<notin> set n" "60 \<notin> set (concat (map attr_text as))"
      using Empty_Tag assms(1) name_no_lt [of n] attr_no_lt [of as] by simp_all
    with Empty_Tag n show False by (intro tag [of "n @ concat (map attr_text as) @ [47, 62]"]) simp_all
  next
    case (End_Tag n)
    have no: "62 \<notin> set n" "60 \<notin> set n" using End_Tag assms(1) name_no_lt [of n] by simp_all
    have "n @ 62 # r \<noteq> lit ''event'' @ 62 # q" for q
    proof
      assume e: "n @ 62 # r = lit ''event'' @ 62 # q"
      have "takeWhile (\<lambda>c. c \<noteq> 62) (n @ 62 # r) = n" using no(1) by (simp add: takeWhile_append)
      moreover have "takeWhile (\<lambda>c. c \<noteq> 62) (lit ''event'' @ 62 # q) = lit ''event''" by (simp add: lit_def)
      ultimately show False using e End_Tag assms(2) by simp
    qed
    with End_Tag no show False by (intro tag [of "47 # n @ [62]"]) simp_all
  next
    case (Text_Tok u)
    then have "drop k (u @ r) ! 0 \<in> set u" using assms(3) by (simp add: nth_append)
    moreover have "drop k (u @ r) ! 0 = 60" using st Text_Tok by (auto simp: starts_ENDT_iff)
    ultimately show False using Text_Tok assms(1) by (auto simp: list_all_iff)
  next
    case (Ref_Tok u)
    have "k = 0" using only_head_opens [OF _ st assms(3)] Ref_Tok assms(1) by (auto simp: list_all_iff)
    with st Ref_Tok show False by (auto simp: starts_ENDT_iff)
  next
    case (CData_Tok c)
    with assms(2) show False by (intro inner [of "lit ''<![CDATA[''" c 93 "lit '']>''"]) (auto simp: lit_def)
  next
    case (Comment_Tok c)
    with assms(2) show False by (intro inner [of "lit ''<!--''" c 45 "lit ''->''"]) (auto simp: lit_def)
  next
    case (Other_Tok c)
    with assms(2) show False by simp
  qed
qed

lemma quiet_doc:
  "list_all (\<lambda>t. tok_ok t \<and> quiet_tok t) ts \<Longrightarrow> k < length (doc_text ts) \<Longrightarrow>
   \<not> starts_with (drop k (doc_text ts @ r)) ENDT"
proof (induction ts arbitrary: k)
  case (Cons t ts)
  show ?case
  proof (cases "k < length (tok_text t)")
    case True
    with Cons.prems(1) quiet_token [of t k "doc_text ts @ r"] show ?thesis by simp
  next
    case False
    with Cons show ?thesis by simp
  qed
qed simp

section \<open>Text and its bytes\<close>

text \<open>An ASCII pattern is found in the bytes where it is found in the text.\<close>

definition ascii :: "ustr \<Rightarrow> bool" where
  "ascii s \<longleftrightarrow> list_all (\<lambda>c. c < 128) s"

lemma ascii_lit: "list_all (\<lambda>c. of_char c < (128 :: nat)) s \<Longrightarrow> ascii (lit s)"
  by (simp add: ascii_def lit_def list_all_iff)

lemma utf8_char_high:
  assumes "\<not> c < 128" and "is_scalar c" and "b \<in> set (utf8_char c)"
  shows "128 \<le> unat b"
proof -
  have high: "128 \<le> unat (of_nat n :: byte)" if "128 \<le> n" "n < 256" for n
    using that by (simp add: unat_byte)
  have m: "128 + x mod 64 < 256" for x :: nat using mod_less_divisor [of 64 x] by linarith
  have d: "c div 64 < 32" if "c < 0x800" using that by (simp add: less_mult_imp_div_less)
  have e: "c div 4096 < 16" if "c < 0x10000" using that by (simp add: less_mult_imp_div_less)
  have f: "c div 262144 < 5" using assms(2) by (intro less_mult_imp_div_less) (auto simp: is_scalar_def)
  show ?thesis
    using assms(1,3) d e f unfolding utf8_char_def
    by (auto simp del: of_nat_add split: if_splits intro!: high m)
qed

lemma starts_utf8:
  "starts_with (utf8 s) (map of_nat p) \<Longrightarrow> ascii p \<Longrightarrow> list_all is_scalar s \<Longrightarrow> starts_with s p"
proof (induction p arbitrary: s)
  case Nil
  then show ?case by (simp add: starts_with_def)
next
  case (Cons x p)
  then have x: "x < 128" by (simp add: ascii_def)
  then have ux: "unat (of_nat x :: byte) = x" by (simp add: unat_of_nat)
  obtain c s' where s: "s = c # s'" using Cons.prems(1) by (cases s) (auto simp: utf8_def starts_with_def)
  have hd: "hd (utf8 s) = of_nat x" using Cons.prems(1) by (auto simp: starts_with_iff)
  have "c < 128"
  proof (rule ccontr)
    assume n: "\<not> c < 128"
    have "hd (utf8_char c) \<in> set (utf8_char c)" using utf8_char_nonempty by simp
    then have "128 \<le> unat (hd (utf8_char c))" using utf8_char_high [OF n] Cons.prems(3) s by simp
    moreover have "hd (utf8 s) = hd (utf8_char c)" using utf8_char_nonempty by (simp add: s utf8_def)
    ultimately show False using hd ux x by simp
  qed
  then have uc: "utf8_char c = [of_nat c]" "unat (of_nat c :: byte) = c" by (simp_all add: utf8_char_def unat_of_nat)
  with hd s ux have "c = x" by (metis append_Cons concat.simps(2) list.sel(1) list.simps(9) utf8_def)
  with Cons.prems uc s have "starts_with (utf8 s') (map of_nat p)" by (simp add: utf8_def starts_with_def)
  with Cons.IH [of s'] Cons.prems s \<open>c = x\<close> show ?case by (simp add: ascii_def starts_with_def)
qed

lemma quiet_bytes:
  assumes "ascii (60 # p)"
  shows "\<forall>k<length s. \<not> starts_with (drop k (s @ r)) (60 # p) \<Longrightarrow> list_all is_scalar (s @ r) \<Longrightarrow>
    j < length (utf8 s) \<Longrightarrow> \<not> starts_with (drop j (utf8 s @ utf8 r)) (map of_nat (60 # p))"
proof (induction s arbitrary: j)
  case Nil
  then show ?case by (simp add: utf8_def)
next
  case (Cons c s)
  have u: "utf8 (c # s) = utf8_char c @ utf8 s" "utf8 (s @ r) = utf8 s @ utf8 r" by (simp_all add: utf8_def)
  show ?case
  proof (cases "j < length (utf8_char c)")
    case False
    then have "drop j (utf8 (c # s) @ utf8 r) = drop (j - length (utf8_char c)) (utf8 s @ utf8 r)" by (simp add: u)
    moreover have "\<forall>k<length s. \<not> starts_with (drop k (s @ r)) (60 # p)"
      using Cons.prems(1) by (metis Suc_mono append_Cons drop_Suc_Cons length_Cons)
    ultimately show ?thesis using Cons.IH [of "j - length (utf8_char c)"] Cons.prems(2,3) False by (simp add: u)
  next
    case True
    show ?thesis
    proof
      assume st: "starts_with (drop j (utf8 (c # s) @ utf8 r)) (map of_nat (60 # p))"
      have "drop j (utf8 (c # s) @ utf8 r) ! 0 = 60" using st by (auto simp: starts_with_iff)
      moreover have "drop j (utf8 (c # s) @ utf8 r) ! 0 = utf8_char c ! j" using True by (simp add: u nth_append)
      ultimately have b: "utf8_char c ! j = 60" by simp
      have "c < 128"
      proof (rule ccontr)
        assume "\<not> c < 128"
        then have "128 \<le> unat (utf8_char c ! j)" using utf8_char_high True Cons.prems(2) by simp
        with b show False by simp
      qed
      then have "j = 0" using True by (simp add: utf8_char_def)
      with st have "starts_with (utf8 (c # s @ r)) (map of_nat (60 # p))" by (simp add: utf8_def)
      then have "starts_with (c # s @ r) (60 # p)" using assms Cons.prems(2) by (intro starts_utf8) simp_all
      with Cons.prems(1) show False by force
    qed
  qed
qed

section \<open>A written message is one frame\<close>

definition xml_junk :: bytes where
  "xml_junk = utf8 (DECLARATION @ [10])"

definition event_body :: "f64_lib \<Rightarrow> clock_lib \<Rightarrow> event \<Rightarrow> 'x xml_token list" where
  "event_body F K e = tl (tl (event_toks F K e))"

definition xml_message :: "'x quick_xml \<Rightarrow> f64_lib \<Rightarrow> clock_lib \<Rightarrow> event \<Rightarrow> bytes" where
  "xml_message L F K e = drop (length xml_junk) (xml_write L F K e)"

lemma event_toks_body:
  "event_toks F K e = Other_Tok (lit ''xml version=\"1.0\" encoding=\"UTF-8\"'') # Text_Tok [10] # event_body F K e"
  by (simp add: event_toks_def event_body_def)

lemma xml_write_body:
  assumes "quick_xml_ok (L :: 'x quick_xml)" and "prints_ok F K" and "event_clean K e"
  shows "xml_write L F K e = xml_junk @ utf8 (doc_text (event_body F K e :: 'x xml_token list))"
    and "xml_message L F K e = utf8 (doc_text (event_body F K e :: 'x xml_token list))"
proof -
  have "doc_text (event_toks F K e :: 'x xml_token list) = (DECLARATION @ [10]) @ doc_text (event_body F K e :: 'x xml_token list)"
    by (simp add: event_toks_body DECLARATION_def) (simp add: lit_def)
  then show w: "xml_write L F K e = xml_junk @ utf8 (doc_text (event_body F K e :: 'x xml_token list))"
    by (simp add: xml_write_def write_into_def write_text_toks [OF assms] xml_junk_def utf8_Cons)
  show "xml_message L F K e = utf8 (doc_text (event_body F K e :: 'x xml_token list))"
    by (simp add: xml_message_def w)
qed

lemma esc_toks_quiet: "list_all quiet_tok (esc_toks run s :: 'x xml_token list)"
  by (induction s arbitrary: run) (auto simp: run_toks_def)

lemma nodes_toks_quiet: "framed_nodes ns \<Longrightarrow> list_all quiet_tok (nodes_toks ns :: 'x xml_token list)"
  by (induction ns rule: framed_nodes.induct) (auto simp: esc_toks_quiet)

text \<open>The message is its quiet part and its end tag.\<close>

lemma event_body_quiet:
  assumes "prints_ok F K" and "event_clean K e" and "framed_nodes (nodes (ev_detail e))"
  shows "\<exists>ts. event_body F K e = Start_Tag (lit ''event'') (attr_toks (event_attrs K e)) # ts @ [End_Tag (lit ''event'')] \<and>
    list_all (\<lambda>t. tok_ok t \<and> quiet_tok t) (Start_Tag (lit ''event'') (attr_toks (event_attrs K e)) # ts :: 'x xml_token list)"
proof -
  have "doc_ok (event_toks F K e :: 'x xml_token list)" by (rule event_toks_ok [OF assms(1,2)])
  then have "list_all tok_ok (event_toks F K e :: 'x xml_token list)" by (simp add: doc_ok_def)
  then have "list_all tok_ok (event_body F K e :: 'x xml_token list)" by (simp add: event_toks_body)
  moreover obtain ts :: "'x xml_token list" where
    ts: "event_body F K e = Start_Tag (lit ''event'') (attr_toks (event_attrs K e)) # ts @ [End_Tag (lit ''event'')]"
      "list_all quiet_tok ts"
  proof
    show "event_body F K e = Start_Tag (lit ''event'') (attr_toks (event_attrs K e)) # (Empty_Tag (lit ''point'')
        (attr_toks (point_attrs F (ev_point e))) # (if nodes (ev_detail e) = [] then []
        else Start_Tag (lit ''detail'') [] # nodes_toks (nodes (ev_detail e)) @ [End_Tag (lit ''detail'')])) @
        [End_Tag (lit ''event'')]"
      by (simp add: event_body_def event_toks_def)
  qed (simp add: lit_def nodes_toks_quiet [OF assms(3)])
  ultimately show ?thesis by (auto simp: list_all_iff)
qed

lemma END_utf8: "END = utf8 ENDT" "END = map of_nat (60 # tl ENDT)" "ascii (60 # tl ENDT)" "ENDT = 60 # tl ENDT"
proof -
  show e: "ENDT = 60 # tl ENDT" by (simp add: lit_def)
  show a: "ascii (60 # tl ENDT)" by (simp add: ascii_def lit_def)
  then have "list_all (\<lambda>c. c < 128) ENDT" using e by (simp add: ascii_def)
  then have "utf8 ENDT = map of_nat ENDT" by (intro utf8_ascii) simp
  moreover show "END = map of_nat (60 # tl ENDT)" by (simp add: END_def raw_def lit_def)
  ultimately show "END = utf8 ENDT" using e by simp
qed

lemma live_hd: "live s \<Longrightarrow> hd s = 0x3C"
  by (cases s) (auto simp: live_def opens_def starts_with_def START_def raw_def split: if_splits)

lemma junk_dead: "j < length xml_junk \<Longrightarrow> \<not> live (drop j (xml_junk @ m))"
proof
  assume j: "j < length xml_junk" and live: "live (drop j (xml_junk @ m))"
  have junk: "xml_junk = raw ''<?xml version=\"1.0\" encoding=\"UTF-8\"?>'' @ [10]"
    by (simp add: xml_junk_def DECLARATION_def utf8_lit utf8_Cons utf8_char_def)
  have "0x3C \<notin> set (tl xml_junk)" unfolding junk by (simp add: raw_def)
  moreover have "hd (drop j (xml_junk @ m)) = xml_junk ! j" using j by (simp add: hd_drop_conv_nth nth_append)
  ultimately have "j = 0" using live_hd [OF live] j by (cases j) (auto simp: nth_tl [symmetric] in_set_conv_nth)
  with live show False by (simp add: junk live_def opens_def starts_with_def START_def raw_def)
qed

lemma whole_message:
  assumes "quick_xml_ok (L :: 'x quick_xml)" and "prints_ok F K" and "event_clean K e"
    and "framed_nodes (nodes (ev_detail e))"
  shows "whole xml_junk (xml_message L F K e)"
proof -
  let ?tag = "Start_Tag (lit ''event'') (attr_toks (event_attrs K e)) :: 'x xml_token"
  obtain ts :: "'x xml_token list" where body: "event_body F K e = ?tag # ts @ [End_Tag (lit ''event'')]"
    and quiet: "list_all (\<lambda>t. tok_ok t \<and> quiet_tok t) (?tag # ts)"
    using event_body_quiet [OF assms(2-4)] by blast
  let ?s = "doc_text (?tag # ts)"
  have doc: "doc_text (event_body F K e :: 'x xml_token list) = ?s @ ENDT"
    unfolding body by (simp add: lit_def)
  then have m: "xml_message L F K e = utf8 ?s @ END"
    by (simp only: xml_write_body(2) [OF assms(1-3)] doc END_utf8(1) utf8_append)
  have "list_all is_scalar (doc_text (event_toks F K e :: 'x xml_token list))" by (rule event_scalar [OF assms(2,3)])
  then have sc: "list_all is_scalar (?s @ ENDT)" by (simp add: event_toks_body doc)
  have "\<not> starts_with (drop j (utf8 ?s @ utf8 ENDT)) (map of_nat (60 # tl ENDT))" if "j < length (utf8 ?s)" for j
    by (rule quiet_bytes [OF END_utf8(3) _ sc that]) (use quiet_doc [OF quiet] END_utf8(4) in \<open>metis (no_types)\<close>)
  then have "first_sub END (xml_message L F K e) = Some (length (utf8 ?s))"
    unfolding m first_pos_Some END_utf8(1,2) [symmetric] by (simp add: starts_with_def)
  moreover have op: "opens (xml_message L F K e)"
  proof -
    have "\<exists>r. ?s = lit ''<event'' @ 32 # r"
      by (cases "attr_toks (event_attrs K e) :: ('x + ustr \<times> ustr) list")
        (auto simp: event_attrs_def attr_toks_def lit_def)
    then obtain r where "?s = lit ''<event'' @ 32 # r" by blast
    then have "xml_message L F K e = START @ 0x20 # utf8 r @ END"
      unfolding m by (simp add: utf8_lit START_def utf8_Cons utf8_char_def)
    then show ?thesis by (simp add: opens_def ends_name_def nth_append)
  qed
  moreover have "first_pos live (xml_junk @ xml_message L F K e) = Some (length xml_junk)"
    unfolding first_pos_Some using junk_dead opens_live [OF op] op by (auto simp: opens_def)
  ultimately show ?thesis by (simp add: whole_def m)
qed

text \<open>What the framer cuts off is read back as the message.\<close>

lemma parse_message:
  assumes "quick_xml_ok (L :: 'x quick_xml)" and "f64_ok F" and "clock_ok K" and "prints_ok F K" and "event_clean K e"
  shows "xml_parse L F K (xml_message L F K e) = Inr e"
proof -
  let ?ts = "event_body F K e :: 'x xml_token list"
  have toks: "event_toks F K e = Other_Tok (lit ''xml version=\"1.0\" encoding=\"UTF-8\"'') # Text_Tok [10] # ?ts"
    by (rule event_toks_body)
  have "doc_ok (event_toks F K e :: 'x xml_token list)" by (rule event_toks_ok [OF assms(4,5)])
  then have ok: "doc_ok ?ts" unfolding toks by (simp add: doc_ok_def spaced_Cons)
  have "list_all is_scalar (doc_text (event_toks F K e :: 'x xml_token list))" by (rule event_scalar [OF assms(4,5)])
  then have "from_utf8 (utf8 (doc_text ?ts)) = Some (doc_text ?ts)" unfolding toks by (intro from_utf8_utf8) simp
  moreover have "strip_prefix [0xFEFF] (doc_text ?ts) = None"
    by (simp add: strip_prefix_def starts_with_def event_body_def event_toks_def lit_def)
  moreover have "qx_read L (doc_text ?ts) = map Inr ?ts" by (rule qx_reads [OF assms(1) ok])
  moreover have "find_event F K (map Inr ?ts :: 'x xml_reader) = Inr e"
    using parse_toks [OF assms(3,2,4,5), where 'x = 'x] unfolding toks by simp
  ultimately show ?thesis
    by (simp add: xml_parse_def xml_write_body(2) [OF assms(1,4,5)] parse_str_def Let_def)
qed

section \<open>Properties\<close>

text \<open>C20: a stream of XML messages carries what was sent: the bytes of any sequence of messages that XML
  and the framer can carry, with instants in the years 0 to 9999, cut into reads of any sizes, are split into as many frames, in order, and
  each is read back as the message it was written from.\<close>

theorem xml_events_delivered:
  assumes "search_ok S" and "quick_xml_ok L" and "f64_ok F" and "clock_ok K" and "prints_ok F K"
    and "\<forall>e \<in> set es. event_clean K e \<and> framed_nodes (nodes (ev_detail e)) \<and> length (xml_write L F K e) \<le> limit"
    and "chunks \<noteq> []" and "concat chunks = concat (map (xml_write L F K) es)"
  shows "\<exists>ms. feeds (xml_split S limit) xml_new [] chunks ms xml_new [] \<and> map (xml_parse L F K) ms = map Inr es"
proof -
  let ?jms = "map (\<lambda>e. (xml_junk, xml_message L F K e)) es"
  have w: "xml_write L F K e = xml_junk @ xml_message L F K e" if "event_clean K e" for e
    using xml_write_body [OF assms(2,5) that] by simp
  have ws: "\<forall>(junk, m) \<in> set ?jms. whole junk m \<and> length m \<le> limit"
  proof (clarsimp, intro conjI)
    fix e assume "e \<in> set es"
    with assms(6) have e: "event_clean K e" "framed_nodes (nodes (ev_detail e))" "length (xml_write L F K e) \<le> limit"
      by simp_all
    from whole_message [OF assms(2,5) e(1,2)] show "whole xml_junk (xml_message L F K e)" .
    from e(3) w [OF e(1)] show "length (xml_message L F K e) \<le> limit" by simp
  qed
  have c: "concat (map (xml_write L F K) es) = concat (map (\<lambda>(junk, m). junk @ m) ?jms)"
  proof -
    have mm: "map (xml_write L F K) es = map (\<lambda>e. xml_junk @ xml_message L F K e) es" using assms(6) w by simp
    show ?thesis unfolding mm by (simp add: comp_def)
  qed
  have "drains (xml_split S limit) xml_new (concat chunks) (map snd ?jms) xml_new []"
    unfolding assms(8) c by (rule xml_drains_whole [OF assms(1) ws])
  then have "feeds (xml_split S limit) xml_new [] chunks (map snd ?jms) xml_new []"
    using framer.feeds_iff_drains [OF xml_framer [OF assms(1)] xml_ok_new assms(7)] by simp
  moreover have "map (xml_parse L F K) (map snd ?jms) = map Inr es"
    using assms(6) parse_message [OF assms(2-5)] by simp
  ultimately show ?thesis by blast
qed

theorem xml_events_delivered_witness:
  "\<exists>ms. let b = xml_write (plain_xml :: unit quick_xml) bits_f64 count_clock demo_message in
    feeds (xml_split plain_search (length b)) xml_new [] [take 50 b, drop 50 b] ms xml_new [] \<and>
    map (xml_parse (plain_xml :: unit quick_xml) bits_f64 count_clock) ms = [Inr demo_message]"
proof -
  have "framed_nodes (nodes (ev_detail demo_message))"
    by (simp add: demo_message_def lit_def starts_with_def)
  with demo_message_clean show ?thesis
    using xml_events_delivered [where es = "[demo_message]" and L = "plain_xml :: unit quick_xml", OF search_ok_plain
        quick_xml_ok_plain instances_ok(1) instances_ok(2) instances_ok(3)] by (auto simp: Let_def)
qed

end
