(* ===== verification/Connection.thy ===== *)
theory Connection
  imports Notify Negotiation Writer Xml_Wire
begin

text \<open>
  One accepted connection, from registration to disconnect notice
  (\<open>rustak-server/src/stream/connection.rs\<close>): opening it, what each wake of its read loop does, and
  ending it.  The state is the server's and the task's own: its decoder, the counters it has already
  reported, and its negotiation.  What the task waits on (the shutdown token, the idle deadline, the
  socket) is how each wake is given.
\<close>

section \<open>Model\<close>

record conn_limits =
  cl_max_frame :: nat
  cl_close_after_drops :: nat
  cl_idle_timeout :: nat
  cl_negotiate :: negotiation_mode

record ('c, 'e, 'x, 'd) conn_deps =
  cd_router :: "('c, 'e) router"
  cd_server_version :: ustr
  cd_limits :: conn_limits
  cd_wire :: "('x, 'd) wire_lib"

record stream_principal =
  id_principal :: principal
  id_fingerprint :: ustr
  id_device_id :: "ustr option"
  id_groups :: "ustr list"
  id_incognito :: bool

record read_counters =
  rc_dropped :: nat
  rc_skipped :: nat

definition counters_new :: read_counters where
  "counters_new = \<lparr>rc_dropped = 0, rc_skipped = 0\<rparr>"

definition counters_sync :: "tak_codec \<Rightarrow> read_counters \<Rightarrow> stream_metrics \<Rightarrow> read_counters \<times> stream_metrics" where
  "counters_sync c k m =
     (\<lparr>rc_dropped = dropped c, rc_skipped = codec_skipped c\<rparr>,
      m\<lparr>m_dropped_parse := counter_add (m_dropped_parse m) (dropped c - rc_dropped k),
        m_proto_resyncs := counter_add (m_proto_resyncs m) (codec_skipped c - rc_skipped k)\<rparr>)"

record conn_task =
  ck_handle :: conn_handle
  ck_codec :: tak_codec
  ck_counters :: read_counters
  ck_neg :: negotiation

definition unreadable :: "stream_metrics \<Rightarrow> event option \<times> stream_metrics" where
  "unreadable m = (None, m\<lparr>m_dropped_parse := counter_incr (m_dropped_parse m)\<rparr>)"

fun conn_decode :: "('x, 'd) wire_lib \<Rightarrow> frame \<Rightarrow> stream_metrics \<Rightarrow> event option \<times> stream_metrics" where
  "conn_decode W (FXml bs) m =
     (case xml_parse (wl_xml W) (wl_f64 W) (wl_clock W) bs of Inr e \<Rightarrow> (Some e, m) | Inl _ \<Rightarrow> unreadable m)"
| "conn_decode W (FProto payload) m =
     (case wl_decode W payload of
        Inl _ \<Rightarrow> unreadable m
      | Inr message \<Rightarrow>
          (case message_to_event (wl_xml W) (wl_f64 W) message of
             Inr e \<Rightarrow> (Some e, m)
           | Inl NoCotEvent \<Rightarrow> (None, m)
           | Inl _ \<Rightarrow> unreadable m))"

fun conn_answer :: "'c chan_lib \<Rightarrow> intercepted \<Rightarrow> conn_task \<Rightarrow> 'c cells \<Rightarrow> conn_task \<times> 'c cells" where
  "conn_answer TX (Accepted r) k cells =
     (k\<lparr>ck_codec := set_mode Mode_Proto (ck_codec k)\<rparr>, snd (handle_send TX (ck_handle k) (SwitchToProto r) cells))"
| "conn_answer TX (Refused r) k cells = (k, snd (handle_send TX (ck_handle k) (OutEvent r) cells))"
| "conn_answer TX Silent k cells = (k, cells)"

text \<open>What a frame came to.\<close>

datatype frame_fate = Unread | Answered intercepted | Routed event disposition

definition update_cell :: "conn_id \<Rightarrow> ('c conn_cell \<Rightarrow> 'c conn_cell) \<Rightarrow> 'c server \<Rightarrow> 'c server" where
  "update_cell i f sv = sv\<lparr>sv_cells := (sv_cells sv)(i := f (sv_cells sv i))\<rparr>"

definition on_frame :: "('c, 'e, 'x, 'd) conn_deps \<Rightarrow> moment \<Rightarrow> nat \<Rightarrow> frame \<Rightarrow> conn_task \<Rightarrow> 'c server \<Rightarrow>
    frame_fate \<times> conn_task \<times> 'c server" where
  "on_frame D mo instant f k sv =
     (let TX = rt_chan (cd_router D); i = h_id (ck_handle k);
          sv = update_cell i (\<lambda>c. c\<lparr>cell_liveness := received instant (cell_liveness c)\<rparr>) sv;
          (counters, m) = counters_sync (ck_codec k) (ck_counters k) (sv_metrics sv);
          k = k\<lparr>ck_counters := counters\<rparr>;
          (read, m) = conn_decode (cd_wire D) f m;
          sv = sv\<lparr>sv_metrics := m\<rparr>
      in case read of
           None \<Rightarrow> (Unread, k, sv)
         | Some e \<Rightarrow>
             let sv = sv\<lparr>sv_metrics := (sv_metrics sv)\<lparr>m_rx_msgs := counter_incr (m_rx_msgs (sv_metrics sv))\<rparr>\<rparr>;
                 sv = update_cell i (\<lambda>c. c\<lparr>cell_stats := (cell_stats c)\<lparr>cs_rx_msgs :=
                        add_u64 (cs_rx_msgs (cell_stats c)) 1\<rparr>\<rparr>) sv
             in case neg_on_event (mo_now mo) e (mo_now mo) (ck_neg k) of
                  (Some r, n) \<Rightarrow>
                    (case conn_answer TX r (k\<lparr>ck_neg := n\<rparr>) (sv_cells sv) of
                       (k, cells) \<Rightarrow> (Answered r, k, sv\<lparr>sv_cells := cells\<rparr>))
                | (None, n) \<Rightarrow>
                    (case handle_inbound (cd_router D) mo i e sv of
                       (d, sv) \<Rightarrow> (Routed e d, k\<lparr>ck_neg := n\<rparr>, sv)))"

text \<open>An error of the reader as the chain of errors its cause is looked for in.\<close>

fun codec_any :: "(any_error, 'x, 'd) codec_error \<Rightarrow> any_error" where
  "codec_any (Io io) = NotIo (Some io)"
| "codec_any _ = NotIo (Some (NotIo None))"

text \<open>What woke the loop.\<close>

datatype ('x, 'd) wake =
    Woke_Closing
  | Woke_Deadline nat
  | Woke_End
  | Woke_Error "(any_error, 'x, 'd) codec_error"
  | Woke_Frame frame

fun read_step :: "('c, 'e, 'x, 'd) conn_deps \<Rightarrow> moment \<Rightarrow> nat \<Rightarrow> ('x, 'd) wake \<Rightarrow> conn_task \<Rightarrow> 'c server \<Rightarrow>
    (leave_reason + frame_fate list) \<times> conn_task \<times> 'c server" where
  "read_step D mo instant Woke_Closing k sv =
     (Inl (case reason_of (cell_liveness (sv_cells sv (h_id (ck_handle k)))) of Some r \<Rightarrow> r | None \<Rightarrow> Shutdown), k, sv)"
| "read_step D mo instant (Woke_Deadline now) k sv =
     (if \<not> is_idle now (cl_idle_timeout (cd_limits D)) (cell_liveness (sv_cells sv (h_id (ck_handle k))))
      then (Inr [], k, sv) else (Inl Idle, k, sv))"
| "read_step D mo instant Woke_End k sv = (Inl ClientClosed, k, sv)"
| "read_step D mo instant (Woke_Error er) k sv = (Inl (cause er (from_read_error (codec_any er))), k, sv)"
| "read_step D mo instant (Woke_Frame f) k sv =
     (case on_frame D mo instant f k sv of (fate, k, sv) \<Rightarrow> (Inr [fate], k, sv))"

text \<open>
  What the socket still has to say: the reads that are to come, and how they end.  A read loop that is
  still waiting when the reads given have all arrived stops there with no cause.
\<close>

datatype ('x, 'd) ending = Still_Open | Closed_Cleanly | Read_Failed "(any_error, 'x, 'd) codec_error"

fun framed_next :: "search_lib \<Rightarrow> ('x, 'd) ending \<Rightarrow> tak_codec \<Rightarrow> bytes \<Rightarrow> bytes list \<Rightarrow>
    (('x, 'd) wake option \<times> tak_codec \<times> bytes \<times> bytes list) option" where
  "framed_next S fin c buf [] =
     (case decode S c buf of
        None \<Rightarrow> None
      | Some (Inl er, c, buf) \<Rightarrow> Some (Some (Woke_Error er), c, buf, [])
      | Some (Inr (Some f), c, buf) \<Rightarrow> Some (Some (Woke_Frame f), c, buf, [])
      | Some (Inr None, c, buf) \<Rightarrow>
          (case fin of
             Still_Open \<Rightarrow> Some (None, c, buf, [])
           | Read_Failed er \<Rightarrow> Some (Some (Woke_Error er), c, buf, [])
           | Closed_Cleanly \<Rightarrow>
               (case decode_eof S c buf of
                  None \<Rightarrow> None
                | Some (Inl er, c, buf) \<Rightarrow> Some (Some (Woke_Error er), c, buf, [])
                | Some (Inr (Some f), c, buf) \<Rightarrow> Some (Some (Woke_Frame f), c, buf, [])
                | Some (Inr None, c, buf) \<Rightarrow> Some (Some Woke_End, c, buf, []))))"
| "framed_next S fin c buf (chunk # chunks) =
     (case decode S c buf of
        None \<Rightarrow> None
      | Some (Inl er, c, buf) \<Rightarrow> Some (Some (Woke_Error er), c, buf, chunk # chunks)
      | Some (Inr (Some f), c, buf) \<Rightarrow> Some (Some (Woke_Frame f), c, buf, chunk # chunks)
      | Some (Inr None, c, buf) \<Rightarrow> framed_next S fin c (buf @ chunk) chunks)"

text \<open>
  One poll of the framed reader takes in no more reads than are ready for it; with nothing whole among
  them it is left pending.
\<close>

definition framed_poll :: "search_lib \<Rightarrow> ('x, 'd) ending \<Rightarrow> nat \<Rightarrow> tak_codec \<Rightarrow> bytes \<Rightarrow> bytes list \<Rightarrow>
    (('x, 'd) wake option \<times> tak_codec \<times> bytes \<times> bytes list) option" where
  "framed_poll S fin ready c buf chunks =
     (case framed_next S (if length chunks \<le> ready then fin else Still_Open) c buf (take ready chunks) of
        None \<Rightarrow> None
      | Some (w, c, buf, left) \<Rightarrow> Some (w, c, buf, left @ drop ready chunks))"

text \<open>
  One turn of the loop is one poll of its \<open>select!\<close>, which looks at the closing flag first, at the idle
  deadline next and at the socket last.  A turn is given the clocks; what the server's other tasks did
  before the poll (\<open>tn_others\<close>: the state it sees) and then until its outcome is acted on
  (\<open>tn_meanwhile\<close>); whether the sleep had run out, and the time the idle check then reads; and how many
  reads beyond the one that woke it are ready.  \<open>turns\<close> is an endless supply of them; the loop says
  what became of every frame, in order.
\<close>

record 'c turn =
  tn_moment :: moment
  tn_instant :: nat
  tn_others :: "'c server \<Rightarrow> 'c server"
  tn_deadline :: "nat option"
  tn_more :: nat
  tn_meanwhile :: "'c server \<Rightarrow> 'c server"

partial_function (option) read_loop :: "('c, 'e, 'x, 'd) conn_deps \<Rightarrow> search_lib \<Rightarrow> ('x, 'd) ending \<Rightarrow>
    (nat \<Rightarrow> 'c turn) \<Rightarrow> nat \<Rightarrow> frame_fate list \<Rightarrow> conn_task \<Rightarrow> 'c server \<Rightarrow> bytes \<Rightarrow> bytes list \<Rightarrow>
    (frame_fate list \<times> leave_reason option \<times> conn_task \<times> 'c server \<times> bytes) option" where
  "read_loop D S fin turns n fates k sv buf chunks =
     (let t = turns n; sv = tn_others t sv
      in case (if cell_closing (sv_cells sv (h_id (ck_handle k))) then Some (Some Woke_Closing, ck_codec k, buf, chunks)
               else case tn_deadline t of
                   Some now \<Rightarrow> Some (Some (Woke_Deadline now), ck_codec k, buf, chunks)
                 | None \<Rightarrow> framed_poll S fin (Suc (tn_more t)) (ck_codec k) buf chunks) of
           None \<Rightarrow> None
         | Some (None, c, buf, chunks) \<Rightarrow>
             if chunks = [] then Some (fates, None, k\<lparr>ck_codec := c\<rparr>, sv, buf)
             else read_loop D S fin turns (n + 1) fates (k\<lparr>ck_codec := c\<rparr>) sv buf chunks
         | Some (Some w, c, buf, chunks) \<Rightarrow>
             (case read_step D (tn_moment t) (tn_instant t) w (k\<lparr>ck_codec := c\<rparr>) (tn_meanwhile t sv) of
                (Inl r, k, sv) \<Rightarrow> Some (fates, Some r, k, sv, buf)
              | (Inr new, k, sv) \<Rightarrow> read_loop D S fin turns (n + 1) (fates @ new) k sv buf chunks))"

text \<open>Opening: register, replay, then the one offer.\<close>

definition conn_open :: "('c, 'e, 'x, 'd) conn_deps \<Rightarrow> cot_time \<Rightarrow> nat \<Rightarrow> 'c \<Rightarrow> stream_principal \<Rightarrow> ustr \<Rightarrow>
    (nat \<Rightarrow> bool \<times> 'c replay_outcome) \<Rightarrow> ustr \<Rightarrow> 'c server \<Rightarrow> conn_task \<times> 'c server" where
  "conn_open D now instant chan who peer waits offer_uid sv =
     (let TX = rt_chan (cd_router D);
          (i, hb) = next_conn_id (sv_hub sv);
          h = \<lparr>h_id = i, h_close_after_drops = cl_close_after_drops (cd_limits D)\<rparr>;
          cell = \<lparr>cell_chan = chan, cell_stats = conn_stats_new, cell_closing = False,
                  cell_liveness = liveness_new instant\<rparr>;
          s = sub_with_incognito (id_incognito who) (sub_with_device_id (id_device_id who)
                (subscription_new now i (id_principal who) (id_groups who) (id_fingerprint who) peer h));
          sv = sv\<lparr>sv_hub := snd (snd (register s hb)), sv_cells := (sv_cells sv)(i := cell),
                  sv_metrics := (sv_metrics sv)\<lparr>m_connected := counter_incr (m_connected (sv_metrics sv))\<rparr>\<rparr>;
          (_, cells, m) = replay_latest_sa TX waits (sv_hub sv) i (sv_cells sv) (sv_metrics sv);
          sv = sv\<lparr>sv_cells := cells, sv_metrics := m\<rparr>;
          (offer, n) = neg_offer now offer_uid now
            (neg_with_mode (cl_negotiate (cd_limits D)) (cd_server_version D));
          sv = (case offer of
              Some e \<Rightarrow> sv\<lparr>sv_cells := snd (handle_send TX h (OutEvent e) (sv_cells sv))\<rparr>
            | None \<Rightarrow> sv)
      in (\<lparr>ck_handle = h, ck_codec = with_limit Mode_Xml (cl_max_frame (cd_limits D)),
           ck_counters = counters_new, ck_neg = n\<rparr>, sv))"

text \<open>Ending: the cause that was first, the registry, the peers, the writer, the count.\<close>

definition conn_finish :: "('c, 'e, 'x, 'd) conn_deps \<Rightarrow> leave_reason \<Rightarrow> bool \<Rightarrow> ustr \<Rightarrow> cot_time \<Rightarrow> conn_task \<Rightarrow> 'c server \<Rightarrow>
    leave_reason \<times> 'c server" where
  "conn_finish D why drained notice_uid now k sv =
     (let TX = rt_chan (cd_router D); h = ck_handle k; i = h_id h;
          (reason, life) = ended why (cell_liveness (sv_cells sv i));
          sv = update_cell i (\<lambda>c. c\<lparr>cell_liveness := life\<rparr>) sv;
          (gone, _, hb) = unregister i (sv_hub sv);
          sv = sv\<lparr>sv_hub := hb,
                  sv_metrics := (sv_metrics sv)\<lparr>m_connected := counter_decr (m_connected (sv_metrics sv))\<rparr>\<rparr>;
          sv = (case gone of
              Some s \<Rightarrow> sv\<lparr>sv_cells := snd (on_disconnect TX (sv_hub sv) s now notice_uid now (sv_cells sv))\<rparr>
            | None \<Rightarrow> sv);
          sv = sv\<lparr>sv_cells := handle_close TX reason h (sv_cells sv)\<rparr>;
          m = sv_metrics sv;
          m = (if drained then m else m\<lparr>m_writer_aborted := counter_incr (m_writer_aborted m)\<rparr>);
          m = m\<lparr>m_left := left_incr reason (m_left m)\<rparr>
      in (reason, sv\<lparr>sv_metrics := m\<rparr>))"

definition conn_run :: "('c, 'e, 'x, 'd) conn_deps \<Rightarrow> search_lib \<Rightarrow> ('x, 'd) ending \<Rightarrow> (nat \<Rightarrow> 'c turn) \<Rightarrow>
    bytes list \<Rightarrow> bool \<Rightarrow> ustr \<Rightarrow> cot_time \<Rightarrow> conn_task \<times> 'c server \<Rightarrow>
    (frame_fate list \<times> leave_reason option \<times> 'c server) option" where
  "conn_run D S fin turns chunks drained notice_uid now opened =
     (case read_loop D S fin turns 0 [] (fst opened) (snd opened) [] chunks of
        None \<Rightarrow> None
      | Some (fates, None, k, sv, buf) \<Rightarrow> Some (fates, None, sv)
      | Some (fates, Some why, k, sv, buf) \<Rightarrow>
          (case conn_finish D why drained notice_uid now k sv of (r, sv) \<Rightarrow> Some (fates, Some r, sv)))"

end
