(* ===== verification/Conn_Props.thy ===== *)
theory Conn_Props
  imports Connection "HOL-Library.Sublist"
begin

text \<open>
  What the connection task does, over whole runs of it: reading on across reads, a client's stream
  served from its first XML message to protobuf, and the end of a connection.
\<close>

section \<open>The codec over its two framers\<close>

lemma split_active_append:
  assumes "search_ok S" and "codec_ok c buf" and "split_active S c buf = (r, c', buf')"
  shows "case r of
      Inl e \<Rightarrow> \<exists>e' c2 buf2. split_active S c (buf @ rest) = (Inl e', c2, buf2)
    | Inr None \<Rightarrow> split_active S c' (buf' @ rest) = split_active S c (buf @ rest)
    | Inr (Some f) \<Rightarrow> split_active S c (buf @ rest) = (Inr (Some f), c', buf' @ rest)"
proof (cases "cx_mode c")
  case Mode_Xml
  note fr = xml_framer [OF assms(1), of "max_frame c"]
  obtain r0 s where x: "xml_split S (max_frame c) (cx_xml c) buf = (r0, s, buf')"
    and r: "r = map_sum id (map_option FXml) r0" "c' = c\<lparr>cx_xml := s\<rparr>"
    using assms(3) Mode_Xml by (auto simp: split_active_def split: prod.splits)
  have ok: "xml_ok (cx_xml c) buf" using assms(2) Mode_Xml by (simp add: codec_ok_def)
  show ?thesis
  proof (cases r0)
    case (Inl e)
    from framer.error_append [OF fr ok, of e s buf' rest] x Inl obtain e' s2 buf2
      where "xml_split S (max_frame c) (cx_xml c) (buf @ rest) = (Inl e', s2, buf2)" by auto
    with Inl show ?thesis by (simp add: r split_active_def Mode_Xml)
  next
    case (Inr fo)
    show ?thesis
      using framer.wait_append [OF fr ok, of s buf' rest] framer.frame_append [OF fr ok, of _ s buf' rest] x Inr
      by (cases fo) (simp_all add: r split_active_def Mode_Xml)
  qed
next
  case Mode_Proto
  note fr = total_framer.axioms(1) [OF proto_framer [OF assms(1), of "max_frame c"]]
  obtain r0 s where x: "proto_split S (max_frame c) (cx_proto c) buf = (r0, s, buf')"
    and r: "r = map_sum id (map_option FProto) r0" "c' = c\<lparr>cx_proto := s\<rparr>"
    using assms(3) Mode_Proto by (auto simp: split_active_def split: prod.splits)
  have ok: "proto_ok (cx_proto c)" using assms(2) by (simp add: codec_ok_def)
  show ?thesis
  proof (cases r0)
    case (Inl e)
    from framer.error_append [OF fr ok, of buf e s buf' rest] x Inl obtain e' s2 buf2
      where "proto_split S (max_frame c) (cx_proto c) (buf @ rest) = (Inl e', s2, buf2)" by auto
    with Inl show ?thesis by (simp add: r split_active_def Mode_Proto)
  next
    case (Inr fo)
    show ?thesis
      using framer.wait_append [OF fr ok, of buf s buf' rest] framer.frame_append [OF fr ok, of buf _ s buf' rest] x Inr
      by (cases fo) (simp_all add: r split_active_def Mode_Proto)
  qed
qed

lemma codec_ok_append: "codec_ok c buf \<Longrightarrow> codec_ok c (buf @ rest)"
  using xml_ok_append by (auto simp: codec_ok_def)

section \<open>Reading on\<close>

lemma decode_wait:
  "split_active S c src = (Inr None, c', src') \<Longrightarrow> decode S c src = Some (Inr None, c', src')"
  by (subst decode.simps) simp

text \<open>Bytes that stand for an event to a reader in one mode.\<close>

definition carries :: "search_lib \<Rightarrow> ('x, 'd) wire_lib \<Rightarrow> mode \<Rightarrow> nat \<Rightarrow> bytes \<Rightarrow> event \<Rightarrow> bool" where
  "carries S W md limit b e \<longleftrightarrow>
     (\<exists>f. (\<forall>m. conn_decode W f m = (Some e, m)) \<and>
       (\<forall>c rest. codec_ok c (b @ rest) \<longrightarrow> cx_mode c = md \<longrightarrow> max_frame c = limit \<longrightarrow>
         (\<exists>c1. split_active S c (b @ rest) = (Inr (Some f), c1, rest))))"

text \<open>What is buffered and what is to come is one message after the other.\<close>

definition ahead :: "search_lib \<Rightarrow> ('x, 'd) wire_lib \<Rightarrow> mode \<Rightarrow> nat \<Rightarrow> bytes \<Rightarrow> tak_codec \<Rightarrow> bytes \<Rightarrow> bytes \<Rightarrow> event list \<Rightarrow> bool" where
  "ahead S W md limit rest c buf future es \<longleftrightarrow> codec_ok c buf \<and> cx_mode c = md \<and> max_frame c = limit \<and>
     (case es of
        [] \<Rightarrow> buf @ future = rest
      | e # es' \<Rightarrow> \<exists>f c1 bs. (\<forall>m. conn_decode W f m = (Some e, m)) \<and>
          split_active S c (buf @ future) = (Inr (Some f), c1, concat bs @ rest) \<and> list_all2 (carries S W md limit) bs es')"

lemma ahead_start:
  assumes "codec_ok c buf" and "cx_mode c = md" and "max_frame c = limit" and "buf @ future = concat bs @ rest"
    and "list_all2 (carries S W md limit) bs es"
  shows "ahead S W md limit rest c buf future es"
proof (cases es)
  case Nil
  with assms show ?thesis by (simp add: ahead_def)
next
  case (Cons e es')
  with assms(5) obtain b bs' where b: "bs = b # bs'" "carries S W md limit b e" "list_all2 (carries S W md limit) bs' es'"
    by (auto simp: list_all2_Cons2)
  from b(2) obtain f where f: "\<forall>m. conn_decode W f m = (Some e, m)"
    "\<And>c rest. codec_ok c (b @ rest) \<Longrightarrow> cx_mode c = md \<Longrightarrow> max_frame c = limit \<Longrightarrow>
       \<exists>c1. split_active S c (b @ rest) = (Inr (Some f), c1, rest)"
    unfolding carries_def by blast
  have bytes: "buf @ future = b @ concat bs' @ rest" using assms(4) b(1) by simp
  have "codec_ok c (b @ concat bs' @ rest)" using codec_ok_append [OF assms(1), of future] bytes by simp
  from f(2) [OF this assms(2,3)] show ?thesis using assms(1-3) Cons f(1) b(3) bytes by (auto simp: ahead_def)
qed

text \<open>One call of the framed reader either returns the next message or takes in all that has arrived.\<close>

lemma framed_next_ahead:
  assumes "search_ok S"
  shows "ahead S W md limit rest c buf (concat chunks @ future) es \<Longrightarrow> es \<noteq> [] \<or> rest = [] \<Longrightarrow>
    (\<exists>f e es' c1 buf1 chunks1. es = e # es' \<and> (\<forall>m. conn_decode W f m = (Some e, m)) \<and>
       framed_next S Still_Open c buf chunks = Some (Some (Woke_Frame f), c1, buf1, chunks1) \<and>
       ahead S W md limit rest c1 buf1 (concat chunks1 @ future) es') \<or>
    (\<exists>c1 buf1. framed_next S Still_Open c buf chunks = Some (None, c1, buf1, []) \<and>
       ahead S W md limit rest c1 buf1 future es \<and> (future = [] \<longrightarrow> es = []))"
proof (induction chunks arbitrary: c buf)
  case Nil
  obtain r c' buf' where s: "split_active S c buf = (r, c', buf')" by (metis prod_cases3)
  have ok: "codec_ok c buf" "cx_mode c = md" "max_frame c = limit" using Nil by (simp_all add: ahead_def)
  note st = split_active_step [OF assms ok(1) s]
  note ap = split_active_append [OF assms ok(1) s, of future]
  show ?case
  proof (cases es)
    case none: Nil
    then have "buf = []" "future = []" using Nil by (simp_all add: ahead_def)
    with st have "r = Inr None" "buf' = []" by (auto split: sum.splits option.splits)
    with s st ok none Nil(2) \<open>buf = []\<close> \<open>future = []\<close> show ?thesis by (simp add: decode_wait ahead_def)
  next
    case (Cons e es')
    then obtain f c1 bs where f: "\<forall>m. conn_decode W f m = (Some e, m)"
      "split_active S c (buf @ future) = (Inr (Some f), c1, concat bs @ rest)" "list_all2 (carries S W md limit) bs es'"
      using Nil by (auto simp: ahead_def)
    consider er where "r = Inl er" | "r = Inr None" | g where "r = Inr (Some g)" by (cases r) (auto split: option.splits)
    then show ?thesis
    proof cases
      case 1
      with ap f(2) show ?thesis by auto
    next
      case 2
      with ap f(2) have n: "split_active S c' (buf' @ future) = (Inr (Some f), c1, concat bs @ rest)" by simp
      have "future \<noteq> []" using 2 s f(2) by auto
      then show ?thesis using 2 s n st ok f Cons by (auto simp: decode_wait ahead_def)
    next
      case 3
      with ap f(2) have g: "g = f" "c' = c1" "concat bs @ rest = buf' @ future" by simp_all
      have "ahead S W md limit rest c1 buf' future es'"
        by (rule ahead_start [OF _ _ _ _ f(3)]) (use st ok g in simp_all)
      with 3 s f Cons g show ?thesis by (intro disjI1) (auto simp: decode_frame)
    qed
  qed
next
  case (Cons chunk chunks)
  obtain r c' buf' where s: "split_active S c buf = (r, c', buf')" by (metis prod_cases3)
  have ok: "codec_ok c buf" "cx_mode c = md" "max_frame c = limit" using Cons.prems by (simp_all add: ahead_def)
  note st = split_active_step [OF assms ok(1) s]
  note ap = split_active_append [OF assms ok(1) s, of "concat (chunk # chunks) @ future"]
  have "(\<exists>f e es' bs. r = Inr (Some f) \<and> es = e # es' \<and> (\<forall>m. conn_decode W f m = (Some e, m)) \<and>
        concat bs @ rest = buf' @ concat (chunk # chunks) @ future \<and> list_all2 (carries S W md limit) bs es') \<or>
      r = Inr None \<and> ahead S W md limit rest c' (buf' @ chunk) (concat chunks @ future) es"
  proof (cases es)
    case Nil
    then have "buf = []" "chunk = []" "concat chunks @ future = []" using Cons.prems by (simp_all add: ahead_def)
    with st ok Nil have "r = Inr None" "buf' = []" by (auto split: sum.splits option.splits)
    with st ok Nil Cons.prems(2) \<open>chunk = []\<close> \<open>concat chunks @ future = []\<close> show ?thesis by (simp add: ahead_def)
  next
    case (Cons e es')
    then obtain f c1 bs where f: "\<forall>m. conn_decode W f m = (Some e, m)"
      "split_active S c (buf @ concat (chunk # chunks) @ future) = (Inr (Some f), c1, concat bs @ rest)"
      "list_all2 (carries S W md limit) bs es'"
      using Cons.prems by (auto simp: ahead_def)
    consider er where "r = Inl er" | "r = Inr None" | g where "r = Inr (Some g)" by (cases r) (auto split: option.splits)
    then show ?thesis
    proof cases
      case 1
      with ap f(2) show ?thesis by auto
    next
      case 2
      with ap f(2) have "split_active S c' ((buf' @ chunk) @ concat chunks @ future) = (Inr (Some f), c1, concat bs @ rest)" by simp
      then have "ahead S W md limit rest c' (buf' @ chunk) (concat chunks @ future) es"
        using st(2,3) ok(2,3) f(1,3) codec_ok_append [OF st(1), of chunk] Cons unfolding ahead_def by auto
      with 2 show ?thesis by blast
    next
      case 3
      with ap f(2) have "g = f" "concat bs @ rest = buf' @ concat (chunk # chunks) @ future" by simp_all
      with 3 f(1,3) Cons show ?thesis by blast
    qed
  qed
  then show ?case
  proof
    assume "\<exists>f e es' bs. r = Inr (Some f) \<and> es = e # es' \<and> (\<forall>m. conn_decode W f m = (Some e, m)) \<and>
        concat bs @ rest = buf' @ concat (chunk # chunks) @ future \<and> list_all2 (carries S W md limit) bs es'"
    then obtain f e es' bs where f: "r = Inr (Some f)" "es = e # es'" "\<forall>m. conn_decode W f m = (Some e, m)"
      "concat bs @ rest = buf' @ concat (chunk # chunks) @ future" "list_all2 (carries S W md limit) bs es'" by blast
    have "ahead S W md limit rest c' buf' (concat (chunk # chunks) @ future) es'"
      by (rule ahead_start [OF _ _ _ _ f(5)]) (use st ok f in simp_all)
    with f s show ?thesis by (intro disjI1) (auto simp: decode_frame)
  next
    assume a: "r = Inr None \<and> ahead S W md limit rest c' (buf' @ chunk) (concat chunks @ future) es"
    then have nx: "framed_next S Still_Open c buf (chunk # chunks) = framed_next S Still_Open c' (buf' @ chunk) chunks"
      using s by (simp add: decode_wait)
    show ?thesis unfolding nx by (rule Cons.IH) (use a Cons.prems(2) in blast)+
  qed
qed

text \<open>So does one poll, of the reads that are ready for it.\<close>

lemma framed_poll_ahead:
  fixes W :: "('x, 'd) wire_lib"
  assumes "search_ok S" and "ahead S W md limit rest c buf (concat chunks) es" and "es \<noteq> [] \<or> rest = []"
  shows "(\<exists>f e es' c1 buf1 chunks1. es = e # es' \<and> (\<forall>m. conn_decode W f m = (Some e, m)) \<and>
       framed_poll S (Still_Open :: ('x, 'd) ending) ready c buf chunks = Some (Some (Woke_Frame f), c1, buf1, chunks1) \<and>
       ahead S W md limit rest c1 buf1 (concat chunks1) es') \<or>
    (\<exists>c1 buf1. framed_poll S (Still_Open :: ('x, 'd) ending) ready c buf chunks = Some (None, c1, buf1, drop ready chunks) \<and>
       ahead S W md limit rest c1 buf1 (concat (drop ready chunks)) es \<and> (drop ready chunks = [] \<longrightarrow> es = []))"
proof -
  have "ahead S W md limit rest c buf (concat (take ready chunks) @ concat (drop ready chunks)) es"
    using assms(2) by (metis append_take_drop_id concat_append)
  from framed_next_ahead [OF assms(1) this assms(3)] show ?thesis
  proof (elim disjE exE conjE)
    fix f e es' c1 buf1 chunks1
    assume h: "es = e # es'" "\<forall>m. conn_decode W f m = (Some e, m)"
      "framed_next S (Still_Open :: ('x, 'd) ending) c buf (take ready chunks) = Some (Some (Woke_Frame f), c1, buf1, chunks1)"
      "ahead S W md limit rest c1 buf1 (concat chunks1 @ concat (drop ready chunks)) es'"
    then show ?thesis
      by (intro disjI1 exI [of _ f] exI [of _ e] exI [of _ es'] exI [of _ c1] exI [of _ buf1] exI [of _ "chunks1 @ drop ready chunks"])
        (simp add: framed_poll_def)
  next
    fix c1 buf1
    assume h: "framed_next S (Still_Open :: ('x, 'd) ending) c buf (take ready chunks) = Some (None, c1, buf1, [])"
      "ahead S W md limit rest c1 buf1 (concat (drop ready chunks)) es" "concat (drop ready chunks) = [] \<longrightarrow> es = []"
    then show ?thesis
      by (intro disjI2 exI [of _ c1] exI [of _ buf1]) (auto simp: framed_poll_def)
  qed
qed

section \<open>What a frame comes to\<close>

lemma on_frame_routed:
  assumes "\<And>m. conn_decode (cd_wire D) f m = (Some e, m)" and "ev_type e \<noteq> TAKP_Q"
  shows "\<exists>d k' sv'. on_frame D mo instant f k sv = (Routed e d, k', sv') \<and> ck_codec k' = ck_codec k \<and>
    ck_neg k' = ck_neg k \<and> ck_handle k' = ck_handle k"
  by (auto simp: on_frame_def Let_def counters_sync_def assms neg_on_event_def split: prod.splits)

lemma on_frame_accepts:
  assumes "\<And>m. conn_decode (cd_wire D) f m = (Some e, m)" and "ev_type e = TAKP_Q"
    and "parse_request e = Some PROTO_VERSION" and "neg_state (ck_neg k) = Offered uid"
    and "neg_configured (ck_neg k) = Mode_Accept"
  shows "\<exists>k' sv'. on_frame D mo instant f k sv =
      (Answered (Accepted (response (mo_now mo) uid True (mo_now mo))), k', sv') \<and>
    ck_codec k' = set_mode Mode_Proto (ck_codec k) \<and> neg_state (ck_neg k') = Neg_Proto \<and> ck_handle k' = ck_handle k"
  by (simp add: on_frame_def Let_def counters_sync_def assms neg_on_event_def)

section \<open>Turns of the loop\<close>

text \<open>
  What may end a connection whose client is still there and understood: it was told to close, or it was
  idle when the deadline was looked at.
\<close>

definition told_to_end :: "('c, 'e, 'x, 'd) conn_deps \<Rightarrow> (nat \<Rightarrow> 'c turn) \<Rightarrow> conn_id \<Rightarrow> 'c server \<Rightarrow> leave_reason \<Rightarrow> bool" where
  "told_to_end D turns i sv r \<longleftrightarrow>
     cell_closing (sv_cells sv i) \<and> r = (case reason_of (cell_liveness (sv_cells sv i)) of Some r \<Rightarrow> r | None \<Rightarrow> Shutdown) \<or>
     r = Idle \<and> (\<exists>m now. tn_deadline (turns m) = Some now \<and>
       is_idle now (cl_idle_timeout (cd_limits D)) (cell_liveness (sv_cells sv i)))"

definition cut_short :: "('c, 'e, 'x, 'd) conn_deps \<Rightarrow> (nat \<Rightarrow> 'c turn) \<Rightarrow> conn_task \<Rightarrow> frame_fate list \<Rightarrow>
    (frame_fate list \<times> leave_reason option \<times> conn_task \<times> 'c server \<times> bytes) option \<Rightarrow> bool" where
  "cut_short D turns k past res \<longleftrightarrow>
     (\<exists>r k' sv' buf'. res = Some (past, Some r, k', sv', buf') \<and> cx_mode (ck_codec k') = cx_mode (ck_codec k) \<and>
        told_to_end D turns (h_id (ck_handle k)) sv' r)"

text \<open>The turns a scheduler gives: the deadline does not wake the loop for ever, and what is closing stays so.\<close>

definition turns_fair :: "(nat \<Rightarrow> 'c turn) \<Rightarrow> conn_id \<Rightarrow> bool" where
  "turns_fair turns i \<longleftrightarrow> (\<forall>n. \<exists>m \<ge> n. tn_deadline (turns m) = None) \<and>
     (\<forall>n sv. cell_closing (sv_cells sv i) \<longrightarrow> cell_closing (sv_cells (tn_meanwhile (turns n) sv) i))"

text \<open>Turns that only look at the deadline leave the reader where it was.\<close>

lemma deadline_turns:
  assumes "turns_fair turns (h_id (ck_handle k))" and "n \<le> m" and "tn_deadline (turns m) = None"
  shows "cut_short D turns k fates (read_loop D S fin turns n fates k sv buf chunks) \<or>
    (\<exists>n' sv'. tn_deadline (turns n') = None \<and> \<not> cell_closing (sv_cells (tn_others (turns n') sv') (h_id (ck_handle k))) \<and>
       read_loop D S fin turns n fates k sv buf chunks = read_loop D S fin turns n' fates k sv' buf chunks)"
  using assms(2)
proof (induction "m - n" arbitrary: n sv)
  case (0 n sv)
  then have n: "tn_deadline (turns n) = None" using assms(3) by simp
  show ?case
  proof (cases "cell_closing (sv_cells (tn_others (turns n) sv) (h_id (ck_handle k)))")
    case True
    then show ?thesis
      using assms(1) by (subst read_loop.simps) (auto simp: cut_short_def told_to_end_def turns_fair_def Let_def)
  next
    case False
    with n show ?thesis by blast
  qed
next
  case (Suc d n sv)
  let ?sv = "tn_others (turns n) sv"
  consider "cell_closing (sv_cells ?sv (h_id (ck_handle k)))"
    | "\<not> cell_closing (sv_cells ?sv (h_id (ck_handle k)))" "tn_deadline (turns n) = None"
    | now where "\<not> cell_closing (sv_cells ?sv (h_id (ck_handle k)))" "tn_deadline (turns n) = Some now" by blast
  then show ?case
  proof cases
    case 1
    then show ?thesis
      using assms(1) by (subst read_loop.simps) (auto simp: cut_short_def told_to_end_def turns_fair_def Let_def)
  next
    case 2
    then show ?thesis by blast
  next
    case 3
    let ?mw = "tn_meanwhile (turns n) ?sv"
    show ?thesis
    proof (cases "is_idle now (cl_idle_timeout (cd_limits D)) (cell_liveness (sv_cells ?mw (h_id (ck_handle k))))")
      case True
      then show ?thesis using 3 by (subst read_loop.simps) (auto simp: cut_short_def told_to_end_def Let_def)
    next
      case False
      then have "read_loop D S fin turns n fates k sv buf chunks = read_loop D S fin turns (n + 1) fates k ?mw buf chunks"
        using 3 by (subst read_loop.simps) (simp add: Let_def)
      moreover have "d = m - (n + 1)" "n + 1 \<le> m" using Suc(2,3) by simp_all
      ultimately show ?thesis using Suc(1) [of "n + 1" ?mw] by simp
    qed
  qed
qed

text \<open>However the reads and the wakes fall, the loop is told to end, acts on the next message, or has nothing left to do.\<close>

lemma read_loop_next:
  fixes D :: "('c, 'e, 'x, 'd) conn_deps"
  assumes "search_ok S" and "turns_fair turns (h_id (ck_handle k))"
    and "ahead S (cd_wire D) md limit rest (ck_codec k) buf (concat chunks) es" and "es \<noteq> [] \<or> rest = []"
  shows "cut_short D turns k fates (read_loop D S Still_Open turns n fates k sv buf chunks) \<or>
    (\<exists>f e es' n' c1 sv1 buf1 chunks1. es = e # es' \<and> (\<forall>m. conn_decode (cd_wire D) f m = (Some e, m)) \<and>
       read_loop D S Still_Open turns n fates k sv buf chunks =
         (case on_frame D (tn_moment (turns n')) (tn_instant (turns n')) f (k\<lparr>ck_codec := c1\<rparr>) sv1 of
           (fate, k, sv) \<Rightarrow> read_loop D S Still_Open turns (n' + 1) (fates @ [fate]) k sv buf1 chunks1) \<and>
       ahead S (cd_wire D) md limit rest c1 buf1 (concat chunks1) es') \<or>
    (\<exists>c1 sv1. es = [] \<and> cx_mode c1 = md \<and>
       read_loop D S Still_Open turns n fates k sv buf chunks = Some (fates, None, k\<lparr>ck_codec := c1\<rparr>, sv1, []))"
  using assms(2,3)
proof (induction "length chunks" arbitrary: n k sv buf chunks rule: less_induct)
  case less
  let ?i = "h_id (ck_handle k)" and ?loop = "read_loop D S Still_Open turns"
  obtain m where m: "n \<le> m" "tn_deadline (turns m) = None" using less(2) unfolding turns_fair_def by blast
  show ?case
  proof (cases "cut_short D turns k fates (?loop n fates k sv buf chunks)")
    case False
    with deadline_turns [OF less(2) m, of D fates S Still_Open sv buf chunks] obtain n' sv' where
      n': "tn_deadline (turns n') = None" "\<not> cell_closing (sv_cells (tn_others (turns n') sv') ?i)"
        "?loop n fates k sv buf chunks = ?loop n' fates k sv' buf chunks" by blast
    let ?t = "turns n'" and ?sv = "tn_others (turns n') sv'"
    from framed_poll_ahead [OF assms(1) less(3) assms(4), of "Suc (tn_more ?t)"] show ?thesis
    proof (elim disjE exE conjE)
      fix f e es' c1 buf1 chunks1
      assume h: "es = e # es'" "\<forall>m. conn_decode (cd_wire D) f m = (Some e, m)"
        "framed_poll S (Still_Open :: ('x, 'd) ending) (Suc (tn_more ?t)) (ck_codec k) buf chunks = Some (Some (Woke_Frame f), c1, buf1, chunks1)"
        "ahead S (cd_wire D) md limit rest c1 buf1 (concat chunks1) es'"
      have "?loop n' fates k sv' buf chunks =
          (case on_frame D (tn_moment ?t) (tn_instant ?t) f (k\<lparr>ck_codec := c1\<rparr>) (tn_meanwhile ?t ?sv) of
            (fate, k, sv) \<Rightarrow> ?loop (n' + 1) (fates @ [fate]) k sv buf1 chunks1)"
        by (subst read_loop.simps) (simp add: Let_def n' h(3) split: prod.splits)
      with h(1,2,4) n'(3) show ?thesis by metis
    next
      fix c1 buf1
      let ?left = "drop (Suc (tn_more ?t)) chunks"
      assume h: "framed_poll S (Still_Open :: ('x, 'd) ending) (Suc (tn_more ?t)) (ck_codec k) buf chunks = Some (None, c1, buf1, ?left)"
        "ahead S (cd_wire D) md limit rest c1 buf1 (concat ?left) es" "?left = [] \<longrightarrow> es = []"
      show ?thesis
      proof (cases "?left = []")
        case True
        then have "buf1 = []" "cx_mode c1 = md" using h(2,3) assms(4) by (simp_all add: ahead_def)
        moreover have "?loop n' fates k sv' buf chunks = Some (fates, None, k\<lparr>ck_codec := c1\<rparr>, ?sv, buf1)"
          using True by (subst read_loop.simps) (simp add: Let_def n' h(1))
        ultimately show ?thesis using n'(3) h(3) True by metis
      next
        case False
        let ?k = "k\<lparr>ck_codec := c1\<rparr>"
        have go: "?loop n' fates k sv' buf chunks = ?loop (n' + 1) fates ?k ?sv buf1 ?left"
          using False by (subst read_loop.simps) (simp add: Let_def n' h(1))
        have md: "cx_mode c1 = cx_mode (ck_codec k)" using h(2) less(3) by (simp add: ahead_def)
        have "length ?left < length chunks" using False by (cases chunks) auto
        moreover have "turns_fair turns (h_id (ck_handle ?k))" using less(2) by simp
        moreover have "ahead S (cd_wire D) md limit rest (ck_codec ?k) buf1 (concat ?left) es" using h(2) by simp
        moreover have "cut_short D turns ?k fates res = cut_short D turns k fates res" for res
          by (simp add: cut_short_def md)
        moreover have "?k\<lparr>ck_codec := c\<rparr> = k\<lparr>ck_codec := c\<rparr>" for c by simp
        ultimately show ?thesis using less(1) [of ?left ?k buf1 "n' + 1" ?sv] unfolding n'(3) go by simp
      qed
    qed
  qed simp
qed

text \<open>A run of messages that are not for the negotiation.\<close>

lemma read_loop_routes:
  assumes "search_ok S" and "ys \<noteq> [] \<or> rest = []"
  shows "turns_fair turns (h_id (ck_handle k)) \<Longrightarrow>
    ahead S (cd_wire D) md limit rest (ck_codec k) buf (concat chunks) (xs @ ys) \<Longrightarrow> list_all (\<lambda>e. ev_type e \<noteq> TAKP_Q) xs \<Longrightarrow>
    (\<exists>ds j. length ds = length xs \<and> j \<le> length xs \<and>
       cut_short D turns k (fates @ take j (map2 Routed xs ds)) (read_loop D S Still_Open turns n fates k sv buf chunks)) \<or>
    (\<exists>ds n' k' sv' buf' chunks'. length ds = length xs \<and>
       read_loop D S Still_Open turns n fates k sv buf chunks =
         read_loop D S Still_Open turns n' (fates @ map2 Routed xs ds) k' sv' buf' chunks' \<and>
       ahead S (cd_wire D) md limit rest (ck_codec k') buf' (concat chunks') ys \<and>
       ck_neg k' = ck_neg k \<and> ck_handle k' = ck_handle k)"
proof (induction xs arbitrary: n fates k sv buf chunks)
  case Nil
  then show ?case
    by (intro disjI2 exI [of _ "[]"] exI [of _ n] exI [of _ k] exI [of _ sv] exI [of _ buf] exI [of _ chunks]) simp
next
  case (Cons e xs)
  let ?loop = "read_loop D S Still_Open turns"
  from read_loop_next [OF assms(1) Cons.prems(1,2), of fates n sv] assms(2) consider
    (cut) "cut_short D turns k fates (?loop n fates k sv buf chunks)" |
    (frame) f n' c1 sv1 buf1 chunks1 where "\<forall>m. conn_decode (cd_wire D) f m = (Some e, m)"
       "?loop n fates k sv buf chunks =
         (case on_frame D (tn_moment (turns n')) (tn_instant (turns n')) f (k\<lparr>ck_codec := c1\<rparr>) sv1 of
           (fate, k, sv) \<Rightarrow> ?loop (n' + 1) (fates @ [fate]) k sv buf1 chunks1)"
       "ahead S (cd_wire D) md limit rest c1 buf1 (concat chunks1) (xs @ ys)" by auto
  then show ?case
  proof cases
    case cut
    then show ?thesis by (intro disjI1 exI [of _ "replicate (length (e # xs)) undefined"] exI [of _ 0]) simp
  next
    case frame
    have ty: "ev_type e \<noteq> TAKP_Q" using Cons.prems(3) by simp
    obtain d k1 sv2 where o1: "on_frame D (tn_moment (turns n')) (tn_instant (turns n')) f (k\<lparr>ck_codec := c1\<rparr>) sv1 = (Routed e d, k1, sv2)"
      "ck_codec k1 = c1" "ck_neg k1 = ck_neg k" "ck_handle k1 = ck_handle k"
      using on_frame_routed [of D f e, OF _ ty] frame(1)
      by (metis conn_task.select_convs(1,2,4) conn_task.update_convs(2) conn_task.surjective)
    have go: "?loop n fates k sv buf chunks = ?loop (n' + 1) (fates @ [Routed e d]) k1 sv2 buf1 chunks1"
      using frame(2) o1(1) by simp
    have md: "cx_mode (ck_codec k1) = cx_mode (ck_codec k)"
      using frame(3) Cons.prems(2) by (simp add: ahead_def o1(2))
    have cs: "cut_short D turns k1 past res = cut_short D turns k past res" for past res
      by (simp add: cut_short_def md o1(4))
    have "turns_fair turns (h_id (ck_handle k1))" "ahead S (cd_wire D) md limit rest (ck_codec k1) buf1 (concat chunks1) (xs @ ys)"
      "list_all (\<lambda>e. ev_type e \<noteq> TAKP_Q) xs" using Cons.prems frame(3) o1 by simp_all
    from Cons.IH [OF this, of "fates @ [Routed e d]" "n' + 1" sv2] show ?thesis
    proof (elim disjE exE conjE)
      fix ds j
      assume h: "length ds = length xs" "j \<le> length xs"
        "cut_short D turns k1 ((fates @ [Routed e d]) @ take j (map2 Routed xs ds)) (?loop (n' + 1) (fates @ [Routed e d]) k1 sv2 buf1 chunks1)"
      then show ?thesis by (intro disjI1 exI [of _ "d # ds"] exI [of _ "Suc j"]) (simp add: go cs)
    next
      fix ds n'' k' sv' buf' chunks'
      assume h: "length ds = length xs" "?loop (n' + 1) (fates @ [Routed e d]) k1 sv2 buf1 chunks1 =
          ?loop n'' ((fates @ [Routed e d]) @ map2 Routed xs ds) k' sv' buf' chunks'"
        "ahead S (cd_wire D) md limit rest (ck_codec k') buf' (concat chunks') ys" "ck_neg k' = ck_neg k1" "ck_handle k' = ck_handle k1"
      then show ?thesis
        by (intro disjI2 exI [of _ "d # ds"] exI [of _ n''] exI [of _ k'] exI [of _ sv'] exI [of _ buf'] exI [of _ chunks'])
          (simp add: go o1)
    qed
  qed
qed

section \<open>What carries an event\<close>

definition wire_ok :: "('x, 'd) wire_lib \<Rightarrow> bool" where
  "wire_ok W \<longleftrightarrow> quick_xml_ok (wl_xml W) \<and> f64_ok (wl_f64 W) \<and> clock_ok (wl_clock W) \<and>
     prints_ok (wl_f64 W) (wl_clock W)"

text \<open>A message either form can take through: what XML and its framer can hold, or the protobuf form,
  within the cap.\<close>

definition xml_sendable :: "('x, 'd) wire_lib \<Rightarrow> nat \<Rightarrow> event \<Rightarrow> bool" where
  "xml_sendable W limit e \<longleftrightarrow> event_clean (wl_clock W) e \<and> framed_nodes (nodes (ev_detail e)) \<and>
     length (event_xml W e) \<le> limit"

definition proto_sendable :: "('x, 'd) wire_lib \<Rightarrow> nat \<Rightarrow> event \<Rightarrow> bool" where
  "proto_sendable W limit e \<longleftrightarrow> detail_carried (wl_f64 W) (ev_detail e) \<and>
     length (event_proto W e) \<le> limit \<and> length (event_proto W e) < 2 ^ 64 \<and>
     wl_decode W (event_proto W e) = Inr (event_to_message (wl_xml W) (wl_f64 W) e)"

lemma xml_carries:
  assumes "search_ok S" and "wire_ok W" and "xml_sendable W limit e"
  shows "carries S W Mode_Xml limit (event_xml W e) e"
proof -
  let ?m = "xml_message (wl_xml W) (wl_f64 W) (wl_clock W) e"
  have W: "quick_xml_ok (wl_xml W)" "f64_ok (wl_f64 W)" "clock_ok (wl_clock W)" "prints_ok (wl_f64 W) (wl_clock W)"
    using assms(2) by (simp_all add: wire_ok_def)
  have e: "event_clean (wl_clock W) e" "framed_nodes (nodes (ev_detail e))" "length (event_xml W e) \<le> limit"
    using assms(3) by (simp_all add: xml_sendable_def)
  have b: "event_xml W e = xml_junk @ ?m" using xml_write_body [OF W(1,4) e(1)] by (simp add: event_xml_def)
  have whole: "whole xml_junk ?m" by (rule whole_message [OF W(1,4) e(1,2)])
  have len: "length ?m \<le> limit" using e(3) b by simp
  show ?thesis
    unfolding carries_def b
  proof (intro exI [of _ "FXml ?m"] conjI allI impI)
    fix m
    show "conn_decode W (FXml ?m) m = (Some e, m)" by (simp add: parse_message [OF W e(1)])
  next
    fix c rest
    assume h: "codec_ok c ((xml_junk @ ?m) @ rest)" "cx_mode c = Mode_Xml" "max_frame c = limit"
    then have "xml_ok (cx_xml c) (xml_junk @ ?m @ rest)" by (simp add: codec_ok_def)
    then show "\<exists>c1. split_active S c ((xml_junk @ ?m) @ rest) = (Inr (Some (FXml ?m)), c1, rest)"
      by (simp add: split_active_def h xml_split_ref [OF assms(1)] ref_split_whole [OF whole len])
  qed
qed

lemma proto_carries:
  assumes "search_ok S" and "wire_ok W" and "proto_sendable W limit e"
  shows "\<exists>e'. carries S W Mode_Proto limit (proto_encode (event_proto W e) []) e' \<and> event_kept (wl_f64 W) e e'"
proof -
  have W: "quick_xml_ok (wl_xml W)" "f64_ok (wl_f64 W)"
    using assms(2) by (simp_all add: wire_ok_def)
  have e: "detail_carried (wl_f64 W) (ev_detail e)" "length (event_proto W e) \<le> limit" "length (event_proto W e) < 2 ^ 64"
    "wl_decode W (event_proto W e) = Inr (event_to_message (wl_xml W) (wl_f64 W) e)"
    using assms(3) by (simp_all add: proto_sendable_def)
  obtain e' where e': "message_to_event (wl_xml W) (wl_f64 W) (event_to_message (wl_xml W) (wl_f64 W) e) = Inr e'"
    "event_kept (wl_f64 W) e e'" using message_kept [OF W(1,2) e(1)] by blast
  have "carries S W Mode_Proto limit (proto_encode (event_proto W e) []) e'"
    unfolding carries_def
  proof (intro exI [of _ "FProto (event_proto W e)"] conjI allI impI)
    fix m
    show "conn_decode W (FProto (event_proto W e)) m = (Some e', m)" by (simp add: e(4) e'(1))
  next
    fix c rest
    let ?b = "proto_encode (event_proto W e) []"
    assume h: "codec_ok c (?b @ rest)" "cx_mode c = Mode_Proto" "max_frame c = limit"
    then have ok: "proto_ok (cx_proto c)" by (simp add: codec_ok_def)
    have "split_active S c (?b @ rest) = (Inr (Some (FProto (event_proto W e))), c, rest)"
      using proto_split_encode [OF assms(1) ok _ e(2,3), of "[]" rest] ok by (simp add: split_active_def h)
    then show "\<exists>c1. split_active S c (?b @ rest) = (Inr (Some (FProto (event_proto W e))), c1, rest)" by blast
  qed
  with e'(2) show ?thesis by blast
qed

text \<open>An acceptance whose answer finds the queue full is not sent, and the reader has switched.\<close>

lemma unsent_answer_still_switches:
  assumes "try_send TX (cell_chan (cells (h_id (ck_handle k)))) (SwitchToProto a) = (SendFull, chan)"
    and "cs_dropped_consecutive (cell_stats (cells (h_id (ck_handle k)))) + 1 < h_close_after_drops (ck_handle k)"
  shows "\<exists>k' cells'. conn_answer TX (Accepted a) k cells = (k', cells') \<and> cx_mode (ck_codec k') = Mode_Proto \<and>
    cell_chan (cells' (h_id (ck_handle k))) = chan \<and> cell_closing (cells' (h_id (ck_handle k))) = cell_closing (cells (h_id (ck_handle k)))"
  using assms by (simp add: handle_send_def set_mode_def Let_def)

text \<open>
  What serving a client's stream comes to: its XML messages routed as they are, its request accepted in
  the name of the offer, what it then sends routed as what protobuf keeps of it.
\<close>

definition served :: "('x, 'd) wire_lib \<Rightarrow> ustr \<Rightarrow> event list \<Rightarrow> event list \<Rightarrow> frame_fate list \<Rightarrow> bool" where
  "served W uid es fs fates \<longleftrightarrow>
     (\<exists>ds a gs ds'. fates = map2 Routed es ds @ Answered (Accepted a) # map2 Routed gs ds' \<and>
        length ds = length es \<and> ev_uid a = uid \<and> list_all2 (event_kept (wl_f64 W)) fs gs \<and> length ds' = length gs)"

lemma served_from:
  assumes "length ds = length es" and "list_all2 (event_kept (wl_f64 W)) fs gs"
  shows "\<exists>whole. served W uid es fs whole \<and> prefix (map2 Routed es ds) whole"
proof -
  let ?a = "(event_default 0)\<lparr>ev_uid := uid\<rparr>" and ?ds' = "replicate (length gs) undefined"
  have "served W uid es fs (map2 Routed es ds @ Answered (Accepted ?a) # map2 Routed gs ?ds')"
    unfolding served_def by (intro exI [of _ ds] exI [of _ ?a] exI [of _ gs] exI [of _ ?ds']) (simp add: assms)
  then show ?thesis by (metis prefixI)
qed

text \<open>A whole stream, read to the end or until the connection is told to end.\<close>

lemma stream_is_served:
  assumes "search_ok S" and "wire_ok (cd_wire D)" and "turns_fair turns (h_id (ck_handle k))"
    and "ck_codec k = with_limit Mode_Xml limit"
    and "neg_state (ck_neg k) = Offered uid" and "neg_configured (ck_neg k) = Mode_Accept"
    and "\<forall>e \<in> set es. xml_sendable (cd_wire D) limit e \<and> ev_type e \<noteq> TAKP_Q"
    and "xml_sendable (cd_wire D) limit q" and "ev_type q = TAKP_Q" and "parse_request q = Some PROTO_VERSION"
    and "\<forall>e \<in> set fs. proto_sendable (cd_wire D) limit e \<and> ev_type e \<noteq> TAKP_Q"
    and "concat chunks = concat (map (event_xml (cd_wire D)) es) @ event_xml (cd_wire D) q @
      concat (map (\<lambda>e. proto_encode (event_proto (cd_wire D) e) []) fs)"
  shows "\<exists>fates why k' sv' buf' whole. read_loop D S Still_Open turns 0 [] k sv [] chunks = Some (fates, why, k', sv', buf') \<and>
    served (cd_wire D) uid es fs whole \<and> prefix fates whole \<and>
    cx_mode (ck_codec k') = (if length fates \<le> length es then Mode_Xml else Mode_Proto) \<and>
    (case why of
       None \<Rightarrow> fates = whole \<and> buf' = [] \<and> neg_mode (ck_neg k') = Mode_Proto
     | Some r \<Rightarrow> told_to_end D turns (h_id (ck_handle k)) sv' r)"
proof -
  let ?W = "cd_wire D" and ?enc = "\<lambda>e. proto_encode (event_proto (cd_wire D) e) []" and ?loop = "read_loop D S Still_Open turns"
  let ?rest = "concat (map ?enc fs)"
  have xs: "list_all2 (carries S ?W Mode_Xml limit) (map (event_xml ?W) (es @ [q])) (es @ [q])" "list_all (\<lambda>e. ev_type e \<noteq> TAKP_Q) es"
    using assms(7,8) xml_carries [OF assms(1,2)] by (auto simp: list_all2_map1 list_all_iff intro!: list_all2_appendI list.rel_refl_strong)
  obtain g where g: "\<forall>e \<in> set fs. carries S ?W Mode_Proto limit (?enc e) (g e) \<and> event_kept (wl_f64 ?W) e (g e)"
    using proto_carries [OF assms(1,2)] assms(11) by metis
  have gs: "list_all2 (carries S ?W Mode_Proto limit) (map ?enc fs) (map g fs)"
    "list_all2 (event_kept (wl_f64 ?W)) fs (map g fs)"
    using g by (simp_all add: list_all2_map1 list_all2_map2 list.rel_refl_strong)
  have ty: "list_all (\<lambda>e. ev_type e \<noteq> TAKP_Q) (map g fs)"
    using g assms(11) by (auto simp: list_all_iff event_kept_def)
  have c0: "cx_mode (ck_codec k) = Mode_Xml" "max_frame (ck_codec k) = limit" "codec_ok (ck_codec k) []"
    using assms(4) by (simp_all add: with_limit_def proto_ok_def proto_new_def codec_ok_def)
  have "ahead S ?W Mode_Xml limit ?rest (ck_codec k) [] (concat chunks) (es @ [q])"
    by (rule ahead_start [OF c0(3,1,2) _ xs(1)]) (simp add: assms(12))
  from read_loop_routes [OF assms(1) _ assms(3) this xs(2), of "[]" 0 sv] consider
    (cut) ds j where "length ds = length es" "cut_short D turns k (take j (map2 Routed es ds)) (?loop 0 [] k sv [] chunks)" |
    (asks) ds n1 k1 sv1 buf1 chunks1 where "length ds = length es"
      "?loop 0 [] k sv [] chunks = ?loop n1 (map2 Routed es ds) k1 sv1 buf1 chunks1"
      "ahead S ?W Mode_Xml limit ?rest (ck_codec k1) buf1 (concat chunks1) [q]" "ck_neg k1 = ck_neg k" "ck_handle k1 = ck_handle k"
    by auto
  then show ?thesis
  proof cases
    case cut
    then obtain whole where "served ?W uid es fs whole" "prefix (map2 Routed es ds) whole"
      using served_from gs(2) by blast
    moreover have "prefix (take j (map2 Routed es ds)) whole"
      using calculation(2) take_is_prefix prefix_order.trans by blast
    ultimately show ?thesis using cut c0(1) unfolding cut_short_def by (fastforce simp: min_def)
  next
    case asks
    have fair1: "turns_fair turns (h_id (ck_handle k1))" using assms(3) asks(5) by simp
    from read_loop_next [OF assms(1) fair1 asks(3), of "map2 Routed es ds" n1 sv1] consider
      (cut) "cut_short D turns k1 (map2 Routed es ds) (?loop n1 (map2 Routed es ds) k1 sv1 buf1 chunks1)" |
      (asked) f n2 c2 sv2 buf2 chunks2 where "\<forall>m. conn_decode ?W f m = (Some q, m)"
        "?loop n1 (map2 Routed es ds) k1 sv1 buf1 chunks1 =
          (case on_frame D (tn_moment (turns n2)) (tn_instant (turns n2)) f (k1\<lparr>ck_codec := c2\<rparr>) sv2 of
            (fate, k, sv) \<Rightarrow> ?loop (n2 + 1) (map2 Routed es ds @ [fate]) k sv buf2 chunks2)"
        "ahead S ?W Mode_Xml limit ?rest c2 buf2 (concat chunks2) []" by auto
    then show ?thesis
    proof cases
      case cut
      obtain whole where w: "served ?W uid es fs whole" "prefix (map2 Routed es ds) whole"
        using served_from [OF asks(1) gs(2)] by blast
      have "cx_mode (ck_codec k1) = Mode_Xml" using asks(3) by (simp add: ahead_def)
      with cut w asks(1,2,5) show ?thesis unfolding cut_short_def by (fastforce simp: min_def)
    next
      case asked
      obtain a k3 sv3 where o3: "on_frame D (tn_moment (turns n2)) (tn_instant (turns n2)) f (k1\<lparr>ck_codec := c2\<rparr>) sv2 =
          (Answered (Accepted a), k3, sv3)" "ev_uid a = uid"
        "ck_codec k3 = set_mode Mode_Proto c2" "neg_state (ck_neg k3) = Neg_Proto" "ck_handle k3 = ck_handle k1"
        using on_frame_accepts [of D f q "k1\<lparr>ck_codec := c2\<rparr>" uid "tn_moment (turns n2)" "tn_instant (turns n2)" sv2]
          asked(1) assms(5,6,9,10) asks(4) by auto
      let ?past = "map2 Routed es ds @ [Answered (Accepted a)]"
      have "ahead S ?W Mode_Proto limit [] (ck_codec k3) buf2 (concat chunks2) (map g fs @ [])"
        by (rule ahead_start [where bs = "map ?enc fs"])
          (use asked(3) gs(1) in \<open>simp_all add: o3(3) ahead_def set_mode_def codec_ok_def\<close>)
      moreover have "turns_fair turns (h_id (ck_handle k3))" using fair1 o3(5) by simp
      ultimately have after: "(\<exists>ds' j. length ds' = length fs \<and>
            cut_short D turns k3 (?past @ take j (map2 Routed (map g fs) ds')) (?loop (n2 + 1) ?past k3 sv3 buf2 chunks2)) \<or>
          (\<exists>ds' n4 k4 sv4 buf4 chunks4. length ds' = length fs \<and>
            ?loop (n2 + 1) ?past k3 sv3 buf2 chunks2 = ?loop n4 (?past @ map2 Routed (map g fs) ds') k4 sv4 buf4 chunks4 \<and>
            ahead S ?W Mode_Proto limit [] (ck_codec k4) buf4 (concat chunks4) [] \<and> ck_neg k4 = ck_neg k3 \<and> ck_handle k4 = ck_handle k3)"
        using read_loop_routes [OF assms(1), of "[]" "[]" turns k3 D Mode_Proto limit buf2 chunks2 "map g fs" ?past "n2 + 1" sv3] ty
        by auto
      have run: "?loop 0 [] k sv [] chunks = ?loop (n2 + 1) ?past k3 sv3 buf2 chunks2" using asks(2) asked(2) o3(1) by simp
      have whole: "served ?W uid es fs (?past @ map2 Routed (map g fs) ds')" if "length ds' = length fs" for ds'
        unfolding served_def by (intro exI [of _ ds] exI [of _ a] exI [of _ "map g fs"] exI [of _ ds'])
          (simp add: that asks(1) o3(2) gs(2))
      have here: "h_id (ck_handle k3) = h_id (ck_handle k)" "cx_mode (ck_codec k3) = Mode_Proto"
        using o3(3,5) asks(5) by (simp_all add: set_mode_def)
      have end_cut: ?thesis if "cut_short D turns k3 (?past @ take j (map2 Routed (map g fs) ds')) (?loop 0 [] k sv [] chunks)"
        "length ds' = length fs" for j ds'
      proof -
        have "prefix (?past @ take j (map2 Routed (map g fs) ds')) (?past @ map2 Routed (map g fs) ds')"
          by (simp add: take_is_prefix)
        with whole [OF that(2)] that(1) here asks(1) show ?thesis unfolding cut_short_def by fastforce
      qed
      from after show ?thesis
      proof (elim disjE exE conjE)
        fix ds' j assume "length ds' = length fs"
          "cut_short D turns k3 (?past @ take j (map2 Routed (map g fs) ds')) (?loop (n2 + 1) ?past k3 sv3 buf2 chunks2)"
        with end_cut [of j ds'] run show ?thesis by simp
      next
        fix ds' n4 k4 sv4 buf4 chunks4
        assume h: "length ds' = length fs"
          "?loop (n2 + 1) ?past k3 sv3 buf2 chunks2 = ?loop n4 (?past @ map2 Routed (map g fs) ds') k4 sv4 buf4 chunks4"
          "ahead S ?W Mode_Proto limit [] (ck_codec k4) buf4 (concat chunks4) []" "ck_neg k4 = ck_neg k3" "ck_handle k4 = ck_handle k3"
        have fair4: "turns_fair turns (h_id (ck_handle k4))" using assms(3) here(1) h(5) by simp
        have md4: "cx_mode (ck_codec k4) = Mode_Proto" using h(3) by (simp add: ahead_def)
        from read_loop_next [OF assms(1) fair4 h(3), of "?past @ map2 Routed (map g fs) ds'" n4 sv4] consider
          (cut) "cut_short D turns k4 (?past @ map2 Routed (map g fs) ds') (?loop n4 (?past @ map2 Routed (map g fs) ds') k4 sv4 buf4 chunks4)" |
          (rest) c5 sv5 where "cx_mode c5 = Mode_Proto" "?loop n4 (?past @ map2 Routed (map g fs) ds') k4 sv4 buf4 chunks4 =
            Some (?past @ map2 Routed (map g fs) ds', None, k4\<lparr>ck_codec := c5\<rparr>, sv5, [])" by auto
        then show ?thesis
        proof cases
          case cut
          then show ?thesis using end_cut [of "length fs" ds'] h(1,2,5) run here md4 by (simp add: cut_short_def)
        next
          case rest
          have "neg_mode (ck_neg (k4\<lparr>ck_codec := c5\<rparr>)) = Mode_Proto" using h(4) o3(4) by (simp add: neg_mode_def)
          with whole [OF h(1)] rest h(2) run asks(1) show ?thesis by fastforce
        qed
      qed
    qed
  qed
qed

section \<open>Properties\<close>

text \<open>C9: a client's whole stream is served: its XML messages, its request for the newer protocol and
  everything it then sends in protobuf, cut into reads of any sizes and with anything else happening
  on the server in between, are read one by one, in order; each XML message reaches the router
  unchanged, the request is accepted in the name of the offer, and each later message reaches the
  router as what protobuf keeps of it.  The loop has then nothing left in the buffer and waits for
  more; only one thing stops it earlier, and then between two messages: the connection is told to
  close, or found idle when its deadline was looked at, and it ends with just that reason.\<close>

theorem client_stream_is_served:
  assumes "search_ok S" and "wire_ok (cd_wire D)" and "turns_fair turns (h_id (ck_handle k))"
    and "ck_codec k = with_limit Mode_Xml limit"
    and "neg_state (ck_neg k) = Offered uid" and "neg_configured (ck_neg k) = Mode_Accept"
    and "\<forall>e \<in> set es. xml_sendable (cd_wire D) limit e \<and> ev_type e \<noteq> TAKP_Q"
    and "xml_sendable (cd_wire D) limit q" and "ev_type q = TAKP_Q" and "parse_request q = Some PROTO_VERSION"
    and "\<forall>e \<in> set fs. proto_sendable (cd_wire D) limit e \<and> ev_type e \<noteq> TAKP_Q"
    and "concat chunks = concat (map (event_xml (cd_wire D)) es) @ event_xml (cd_wire D) q @
      concat (map (\<lambda>e. proto_encode (event_proto (cd_wire D) e) []) fs)"
  shows "\<exists>fates why k' sv' buf' whole. read_loop D S Still_Open turns 0 [] k sv [] chunks = Some (fates, why, k', sv', buf') \<and>
    served (cd_wire D) uid es fs whole \<and> prefix fates whole \<and>
    cx_mode (ck_codec k') = (if length fates \<le> length es then Mode_Xml else Mode_Proto) \<and>
    (case why of
       None \<Rightarrow> fates = whole \<and> buf' = [] \<and> neg_mode (ck_neg k') = Mode_Proto
     | Some r \<Rightarrow> told_to_end D turns (h_id (ck_handle k)) sv' r)"
  by (rule stream_is_served [OF assms])

definition demo_request :: event where
  "demo_request = request 7 (lit ''u'') PROTO_VERSION 7"

lemma demo_request_eq:
  "demo_request = (event_default 7)\<lparr>ev_uid := lit ''u'', ev_type := TAKP_Q, ev_how := Some (lit ''m-g''), ev_stale := 60007,
     ev_point := NEGOTIATE_POINT, ev_detail := \<lparr>nodes = [Elem (Element (lit ''TakControl'') []
       [Elem (Element (lit ''TakRequest'') [(lit ''version'', lit ''1'')] [])])]\<rparr>\<rparr>"
  by (simp add: demo_request_def request_def set_control_def takcontrol_to_eq tc_request_of_def takcontrol_default_def
     TAKCONTROL_def PROTO_VERSION_def d_set_def d_find_def d_elements_def d_push_def negotiate_envelope_def builder_defs
     event_builder_def event_default_def detail_new_def stale_after_def time_sub_def NEGOTIATE_VALIDITY_def HOW_M_G_def
     sat_i64_def i64_min_def i64_max_def millis_of_def dec_of_nat.simps lit_def)

lemma demo_request_fits:
  "event_clean count_clock demo_request" "framed_nodes (nodes (ev_detail demo_request))" "ev_type demo_request = TAKP_Q"
  by (simp_all add: demo_request_eq event_clean_def event_default_def opt_clean_def attrs_clean_def clean_text_def TAKP_Q_def
      forbidden_def is_scalar_def lit_def is_finite_def NEGOTIATE_POINT_def count_clock_def u64_max_def
      VERSION_def is_name_char_def is_name_start_def in_range_def MAX_DEPTH_def)

definition served_wire :: "(unit, unit) wire_lib" where
  "served_wire = demo_wire\<lparr>wl_decode := \<lambda>b. Inr (event_to_message (plain_xml :: unit quick_xml) bits_f64 demo_position)\<rparr>"

definition demo_deps :: "(outbound list, unit, unit, unit) conn_deps" where
  "demo_deps = \<lparr>cd_router = demo_router, cd_server_version = lit ''1'',
     cd_limits = \<lparr>cl_max_frame = 9, cl_close_after_drops = 9, cl_idle_timeout = 9, cl_negotiate = Mode_Accept\<rparr>,
     cd_wire = served_wire\<rparr>"

definition demo_task :: "nat \<Rightarrow> conn_task" where
  "demo_task limit = \<lparr>ck_handle = \<lparr>h_id = ConnId 1, h_close_after_drops = 9\<rparr>, ck_codec = with_limit Mode_Xml limit,
     ck_counters = counters_new,
     ck_neg = (neg_with_mode Mode_Accept (lit ''1''))\<lparr>neg_state := Offered (lit ''u'')\<rparr>\<rparr>"

definition demo_turn :: "outbound list turn" where
  "demo_turn = \<lparr>tn_moment = demo_moment, tn_instant = 0, tn_others = \<lambda>sv. sv, tn_deadline = None, tn_more = 0, tn_meanwhile = \<lambda>sv. sv\<rparr>"

lemma demo_turns_fair: "turns_fair (\<lambda>n. demo_turn) i"
  by (auto simp: turns_fair_def demo_turn_def)

text \<open>In the demonstration nothing closes the connection, and no deadline passes.\<close>

lemma demo_stream_hyps:
  fixes limit :: nat
  assumes "length (event_xml served_wire demo_message) + length (event_xml served_wire demo_request) + 3 \<le> limit"
  shows "wire_ok served_wire" "xml_sendable served_wire limit demo_message" "xml_sendable served_wire limit demo_request"
    "proto_sendable served_wire limit demo_position" "event_proto served_wire demo_position = [1, 2, 3]"
    "parse_request demo_request = Some PROTO_VERSION" "ev_type demo_message = lit ''a-f-G''" "ev_type demo_position = lit ''a-f-G''"
proof -
  show "wire_ok served_wire" by (simp add: wire_ok_def served_wire_def demo_wire_def quick_xml_ok_plain instances_ok)
  show "ev_type demo_message = lit ''a-f-G''" "ev_type demo_position = lit ''a-f-G''"
    by (simp_all add: demo_message_def demo_position_def)
  show enc: "event_proto served_wire demo_position = [1, 2, 3]" by (simp add: event_proto_def served_wire_def demo_wire_def)
  show "xml_sendable served_wire limit demo_message" "xml_sendable served_wire limit demo_request"
    using demo_message_clean demo_request_fits assms
    by (simp_all add: xml_sendable_def served_wire_def demo_wire_def)
      (simp_all add: demo_message_def lit_def starts_with_def)
  show "proto_sendable served_wire limit demo_position"
    using demo_position_carried assms by (simp add: proto_sendable_def enc) (simp add: served_wire_def demo_wire_def)
  show "parse_request demo_request = Some PROTO_VERSION"
    by (simp add: demo_request_def tc_request_sel)
qed

theorem client_stream_is_served_witness:
  "\<exists>limit bytes fates why k' sv' buf' whole.
    read_loop demo_deps plain_search Still_Open (\<lambda>n. demo_turn) 0 [] (demo_task limit) demo_server []
      [take 9 bytes, drop 9 bytes] = Some (fates, why, k', sv', buf') \<and>
    served served_wire (lit ''u'') [demo_message] [demo_position] whole \<and> prefix fates whole \<and>
    (case why of None \<Rightarrow> fates = whole \<and> buf' = [] \<and> neg_mode (ck_neg k') = Mode_Proto
     | Some r \<Rightarrow> told_to_end demo_deps (\<lambda>n. demo_turn) (ConnId 1) sv' r)"
proof -
  let ?x = "event_xml served_wire"
  define limit where "limit = length (?x demo_message) + length (?x demo_request) + 3"
  define bytes where "bytes = ?x demo_message @ ?x demo_request @ proto_encode [1, 2, 3] []"
  note H = demo_stream_hyps [of limit]
  have wire: "cd_wire demo_deps = served_wire" by (simp add: demo_deps_def)
  have "\<exists>fates why k' sv' buf' whole. read_loop demo_deps plain_search Still_Open (\<lambda>n. demo_turn) 0 [] (demo_task limit) demo_server []
      [take 9 bytes, drop 9 bytes] = Some (fates, why, k', sv', buf') \<and>
    served (cd_wire demo_deps) (lit ''u'') [demo_message] [demo_position] whole \<and> prefix fates whole \<and>
    cx_mode (ck_codec k') = (if length fates \<le> length [demo_message] then Mode_Xml else Mode_Proto) \<and>
    (case why of None \<Rightarrow> fates = whole \<and> buf' = [] \<and> neg_mode (ck_neg k') = Mode_Proto
     | Some r \<Rightarrow> told_to_end demo_deps (\<lambda>n. demo_turn) (h_id (ck_handle (demo_task limit))) sv' r)"
    by (rule client_stream_is_served [where limit = limit and q = demo_request])
      (simp_all add: search_ok_plain wire H [unfolded limit_def] limit_def demo_turns_fair demo_task_def neg_with_mode_def
        demo_request_fits(3), simp_all add: bytes_def TAKP_Q_def lit_def)
  moreover have "h_id (ck_handle (demo_task limit)) = ConnId 1" by (simp add: demo_task_def)
  ultimately show ?thesis unfolding wire by metis
qed

text \<open>Telling the others of a departure touches nobody else.\<close>

lemma departure_told:
  assumes "hub_ok hb" and "unregister i hb = (Some gone, changes, hb')"
    and "on_disconnect TX hb' gone clock uid now cells = (n, cells')"
  shows "cells' i = cells i \<and> (j \<noteq> i \<longrightarrow> cells' j = cells j \<or> (\<exists>c notice. hub_get hb j = Some c \<and> sub_reaches gone c \<and>
    h_id (sub_handle c) = j \<and> ev_type notice = DISCONNECT \<and> cells' j = snd (handle_send TX (sub_handle c) (OutEvent notice) cells) j))"
proof (cases "sub_client_uid gone = None \<or> sub_callsign gone = None")
  case True
  with departure_exact [OF assms] show ?thesis by simp
next
  case False
  with departure_exact [OF assms] obtain notice hs where
    own: "cells' i = cells i" and ty: "ev_type notice = DISCONNECT" and q: "queued_once TX notice hs cells cells'"
    and hs: "set hs = {h. h_id h \<noteq> i \<and> (\<exists>c. hub_get hb (h_id h) = Some c \<and> sub_handle c = h \<and> sub_reaches gone c)}" by auto
  show ?thesis
  proof (cases "j \<in> h_id ` set hs")
    case True
    then obtain h c where h: "h_id h = j" "h \<in> set hs" "hub_get hb j = Some c" "sub_handle c = h" "sub_reaches gone c"
      unfolding hs by auto
    with q have "cells' j = snd (handle_send TX (sub_handle c) (OutEvent notice) cells) j" by (simp add: queued_once_def)
    with h ty own show ?thesis by blast
  next
    case n: False
    with q own show ?thesis by (simp add: queued_once_def)
  qed
qed

text \<open>C10: a connection ends once, for one reason: whatever ended the read loop, the cause is the first that
  any task recorded, it is the one counted, once, and it stands; the registry forgets the connection
  and no other, the gauge of connected clients goes down by one, a writer that had to be cut off is
  counted, and of the other connections only those the departed one could reach are told.\<close>

theorem connection_ends_once:
  assumes "hub_reach (sv_hub sv, P)" and "life_ok (cell_liveness (sv_cells sv i))"
    and "length (m_left (sv_metrics sv)) = length ALL_REASONS" and "h_id (ck_handle k) = i"
    and "conn_finish D why drained uid now k sv = (r, sv')"
  shows "r = (case reason_of (cell_liveness (sv_cells sv i)) of Some first \<Rightarrow> first | None \<Rightarrow> why) \<and>
    reason_of (cell_liveness (sv_cells sv' i)) = Some r \<and> cell_closing (sv_cells sv' i) \<and>
    (\<forall>q. left_get q (m_left (sv_metrics sv')) =
      (if q = r then add_u64 (left_get q (m_left (sv_metrics sv))) 1 else left_get q (m_left (sv_metrics sv)))) \<and>
    m_connected (sv_metrics sv') = m_connected (sv_metrics sv) - 1 \<and>
    m_writer_aborted (sv_metrics sv') = (if drained then m_writer_aborted (sv_metrics sv) else add_u64 (m_writer_aborted (sv_metrics sv)) 1) \<and>
    hub_get (sv_hub sv') = (hub_get (sv_hub sv))(i := None) \<and>
    (\<forall>j. j \<noteq> i \<longrightarrow> sv_cells sv' j = sv_cells sv j \<or>
      (\<exists>gone c notice. hub_get (sv_hub sv) i = Some gone \<and> hub_get (sv_hub sv) j = Some c \<and> sub_reaches gone c \<and>
        ev_type notice = DISCONNECT \<and>
        sv_cells sv' j = snd (handle_send (rt_chan (cd_router D)) (sub_handle c) (OutEvent notice) (sv_cells sv)) j))"
proof -
  let ?TX = "rt_chan (cd_router D)" and ?life = "cell_liveness (sv_cells sv i)"
  have hb: "hub_ok (sv_hub sv)" using hub_reach_ok [OF assms(1)] by simp
  obtain r0 life where e: "ended why ?life = (r0, life)" by force
  have reason: "r0 = (case reason_of ?life of Some first \<Rightarrow> first | None \<Rightarrow> why)" "reason_of life = Some r0" "life_ok life"
    using e ended_stands [OF assms(2), of why] life_ok_step [OF assms(2), of "Ended why"] assms(2)
    by (auto simp: ended_def reason_of_def life_ok_def reason_from_u8_def split: if_splits)
  define cells where "cells = (sv_cells sv)(i := sv_cells sv i\<lparr>cell_liveness := life\<rparr>)"
  obtain gone changes hb' where u: "unregister i (sv_hub sv) = (gone, changes, hb')" by (metis prod_cases3)
  define told where "told = (case gone of Some s \<Rightarrow> snd (on_disconnect ?TX hb' s now uid now cells) | None \<Rightarrow> cells)"
  define closed where "closed = handle_close ?TX r0 (ck_handle k) told"
  have fin: "r = r0" "sv_cells sv' = closed" "sv_hub sv' = hb'"
    "m_left (sv_metrics sv') = left_incr r (m_left (sv_metrics sv))"
    "m_connected (sv_metrics sv') = m_connected (sv_metrics sv) - 1"
    "m_writer_aborted (sv_metrics sv') = (if drained then m_writer_aborted (sv_metrics sv) else add_u64 (m_writer_aborted (sv_metrics sv)) 1)"
    using assms(5) by (auto simp: conn_finish_def Let_def assms(4) update_cell_def e u cells_def told_def closed_def
      counter_decr_def counter_incr_def split: option.splits)
  have told: "told i = cells i \<and> (j \<noteq> i \<longrightarrow> told j = cells j \<or> (\<exists>s c notice. gone = Some s \<and> hub_get (sv_hub sv) j = Some c \<and>
      sub_reaches s c \<and> h_id (sub_handle c) = j \<and> ev_type notice = DISCONNECT \<and>
      told j = snd (handle_send ?TX (sub_handle c) (OutEvent notice) cells) j))" for j
  proof (cases gone)
    case None
    then show ?thesis by (simp add: told_def)
  next
    case (Some s)
    obtain n t where n: "on_disconnect ?TX hb' s now uid now cells = (n, t)" by force
    from departure_told [OF hb u [unfolded Some] n, of j] Some n show ?thesis by (auto simp: told_def)
  qed
  have "reason_of (snd (ended r0 life)) = Some r0" using step_keeps_reason [OF reason(2,3), of "Ended r0"] by simp
  then have here: "reason_of (cell_liveness (closed i)) = Some r0 \<and> cell_closing (closed i)"
    using told [of i] assms(4) by (simp add: closed_def handle_close_def Let_def cells_def split: prod.split)
  have there: "closed j = sv_cells sv j \<or> (\<exists>s c notice. hub_get (sv_hub sv) i = Some s \<and> hub_get (sv_hub sv) j = Some c \<and>
      sub_reaches s c \<and> ev_type notice = DISCONNECT \<and>
      closed j = snd (handle_send ?TX (sub_handle c) (OutEvent notice) (sv_cells sv)) j)" if "j \<noteq> i" for j
  proof -
    have c: "closed j = told j" "cells j = sv_cells sv j"
      using that assms(4) by (simp_all add: closed_def handle_close_def Let_def cells_def split: prod.split)
    have g: "hub_get (sv_hub sv) i = gone" using unregister_sel(1) [of i "sv_hub sv"] u by simp
    have loc: "snd (handle_send ?TX (sub_handle x) out cells) j = snd (handle_send ?TX (sub_handle x) out (sv_cells sv)) j"
      if "h_id (sub_handle x) = j" for x out
      using handle_send_local [of cells "sub_handle x" "sv_cells sv"] that c(2) by simp
    from told [of j] that c g loc show ?thesis by metis
  qed
  have "hub_get hb' = (hub_get (sv_hub sv))(i := None)" using unregister_sel(2) [of i "sv_hub sv"] u by simp
  then show ?thesis using fin reason(1) here there left_get_incr [OF assms(3)] by simp
qed

theorem connection_ends_once_witness:
  "\<exists>sv'. conn_finish demo_deps ClientClosed True (lit ''n'') 5 (demo_task 9) demo_server = (ClientClosed, sv') \<and>
    left_get ClientClosed (m_left (sv_metrics sv')) = 1 \<and> hub_get (sv_hub sv') (ConnId 1) = None"
proof -
  obtain r sv' where run: "conn_finish demo_deps ClientClosed True (lit ''n'') 5 (demo_task 9) demo_server = (r, sv')" by force
  have h: "hub_reach (sv_hub demo_server, {})" "life_ok (cell_liveness (sv_cells demo_server (ConnId 1)))"
    "length (m_left (sv_metrics demo_server)) = length ALL_REASONS" "h_id (ck_handle (demo_task 9)) = ConnId 1"
    using demo_reach by (simp_all add: demo_server_def demo_cells_def metrics_new_def demo_task_def)
  have z: "reason_of (cell_liveness (sv_cells demo_server (ConnId 1))) = None" "left_get ClientClosed (m_left (sv_metrics demo_server)) = 0"
    by (simp_all add: demo_server_def demo_cells_def metrics_new_def liveness_new_def reason_of_def reason_from_u8_def
        left_get_def reason_index_def ALL_REASONS_def)
  note ends = connection_ends_once [OF h run, unfolded z option.case]
  from ends have "r = ClientClosed" "hub_get (sv_hub sv') (ConnId 1) = None" by simp_all
  moreover have "left_get ClientClosed (m_left (sv_metrics sv')) = 1"
    using ends z(2) \<open>r = ClientClosed\<close> by (simp add: add_u64_def)
  ultimately show ?thesis using run by blast
qed

end
