(* ===== verification/Rec_Frame.thy ===== *)
theory Rec_Frame
  imports Varint
begin

unbundle bit_operations_syntax

text \<open>
  The framing of records in an append-only segment file (\<open>rustak-server/src/store/frame.rs\<close>): a
  base-128 length and that many bytes.  The reader stops at the first record that is torn or
  malformed; how far it got is where a file is cut back to.
\<close>

section \<open>Model\<close>

definition MAX_RECORD_BYTES :: nat where
  "MAX_RECORD_BYTES = 4 * 1024 * 1024"

definition MAX_VARINT_BYTES :: nat where
  "MAX_VARINT_BYTES = 10"

function rec_put_varint :: "64 word \<Rightarrow> bytes \<Rightarrow> bytes" where
  "rec_put_varint v buffer =
     (if 0x80 \<le> v then rec_put_varint (drop_bit 7 v) (buffer @ [ucast v OR 0x80]) else buffer @ [ucast v])"
  by pat_completeness auto

lemma big_shift: "0x80 \<le> v \<longleftrightarrow> drop_bit 7 v \<noteq> 0" for v :: "64 word"
proof -
  have "drop_bit 7 v = 0 \<longleftrightarrow> unat v div 128 = 0" by (metis unat_drop_bit_7 unat_eq_zero unat_0)
  also have "\<dots> \<longleftrightarrow> unat v < 128" by (simp add: div_eq_0_iff)
  finally show ?thesis by (simp add: word_le_nat_alt not_less)
qed

termination rec_put_varint
proof (relation "measure (\<lambda>(v, buffer). unat v)")
  fix v :: "64 word" and buffer :: bytes
  assume "0x80 \<le> v"
  then have "128 \<le> unat v" by (simp add: word_le_nat_alt)
  then show "((drop_bit 7 v, buffer @ [ucast v OR 0x80]), v, buffer) \<in> measure (\<lambda>(v, buffer). unat v)"
    by (simp add: unat_drop_bit_7)
qed simp

declare rec_put_varint.simps [simp del]

fun rec_varint_loop :: "nat \<Rightarrow> 64 word \<Rightarrow> bytes \<Rightarrow> (64 word \<times> nat) option" where
  "rec_varint_loop index v [] = None"
| "rec_varint_loop index v (b # bs) =
     (let v = v OR push_bit (index * 7) (ucast (b AND 0x7F))
      in if b AND 0x80 = 0 then Some (v, index + 1) else rec_varint_loop (index + 1) v bs)"

definition rec_read_varint :: "bytes \<Rightarrow> (64 word \<times> nat) option" where
  "rec_read_varint bs = rec_varint_loop 0 0 (take MAX_VARINT_BYTES bs)"

definition encode_frame :: "bytes \<Rightarrow> bytes" where
  "encode_frame payload = rec_put_varint (of_nat (length payload)) [] @ payload"

definition frames_next :: "bytes \<Rightarrow> nat \<Rightarrow> (bytes \<times> nat) option" where
  "frames_next bs offset =
     (if length bs < offset then None
      else case rec_read_varint (drop offset bs) of
        None \<Rightarrow> None
      | Some (len, header) \<Rightarrow>
          if MAX_RECORD_BYTES < unat len then None
          else let start = offset + header; stop = start + unat len
               in if length bs < stop then None else Some (take (stop - start) (drop start bs), stop))"

lemma rec_varint_loop_len: "rec_varint_loop i v bs = Some (w, n) \<Longrightarrow> i < n \<and> n \<le> i + length bs"
  by (induction i v bs rule: rec_varint_loop.induct) (fastforce simp: Let_def split: if_splits)+

lemma frames_next_moves: "frames_next bs offset = Some (p, stop) \<Longrightarrow> offset < stop \<and> stop \<le> length bs"
  using rec_varint_loop_len [of 0 0 "take MAX_VARINT_BYTES (drop offset bs)"]
  by (auto simp: frames_next_def rec_read_varint_def Let_def split: if_splits option.splits)

text \<open>The iterator run to its end: the payloads, and where the last complete record stopped.\<close>

function frames_from :: "bytes \<Rightarrow> nat \<Rightarrow> bytes list \<times> nat" where
  "frames_from bs offset =
     (case frames_next bs offset of
        None \<Rightarrow> ([], offset)
      | Some (p, stop) \<Rightarrow> (case frames_from bs stop of (ps, valid) \<Rightarrow> (p # ps, valid)))"
  by pat_completeness auto
termination frames_from
  by (relation "measure (\<lambda>(bs, offset). length bs - offset)") (auto dest: frames_next_moves)

declare frames_from.simps [simp del]

abbreviation frames :: "bytes \<Rightarrow> bytes list" where
  "frames bs \<equiv> fst (frames_from bs 0)"

abbreviation valid_len :: "bytes \<Rightarrow> nat" where
  "valid_len bs \<equiv> snd (frames_from bs 0)"

section \<open>The length prefix\<close>

text \<open>The writer is the codec's; the reader agrees with it wherever that one reads a value.\<close>

lemma ucast_marked: "(ucast v OR 0x80 :: byte) = ucast (v AND 0x7F) OR 0x80" for v :: "64 word"
  by (rule bit_word_eqI) (auto simp: septet_simps)

lemma ucast_small: "drop_bit 7 v = 0 \<Longrightarrow> v AND 0x7F = v" for v :: "64 word"
  using septet_split [of 0 v] by simp

lemma rec_put_varint_eq: "rec_put_varint v buffer = put_varint v buffer"
proof (induction v buffer rule: put_varint.induct)
  case (1 v buffer)
  show ?case
  proof (cases "drop_bit 7 v = 0")
    case True
    then show ?thesis
      using ucast_small [OF True] by (subst rec_put_varint.simps, subst put_varint.simps) (simp add: big_shift)
  next
    case False
    with 1 show ?thesis
      by (subst rec_put_varint.simps, subst put_varint.simps) (simp add: big_shift Let_def ucast_marked [of v])
  qed
qed

lemma rec_varint_loop_agrees:
  "(\<forall>w n. varint_loop i v bs = Some (Inr (w, n)) \<longrightarrow> rec_varint_loop i v bs = Some (w, n)) \<and>
   (varint_loop i v bs = None \<longrightarrow> rec_varint_loop i v bs = None)"
  by (induction i v bs rule: varint_loop.induct) (auto simp: Let_def mult.commute)

lemma rec_read_put: "rec_read_varint (put_varint v [] @ rest) = Some (v, length (put_varint v []))"
  using read_varint_put [of v rest] rec_varint_loop_agrees [of 0 0 "take MAX_VARINT_BYTES (put_varint v [] @ rest)"]
  by (simp add: read_varint_Some_iff rec_read_varint_def MAX_VARINT_BYTES_def varint_max_len_def)

lemma rec_read_put_prefix: "k < length (put_varint v []) \<Longrightarrow> rec_read_varint (take k (put_varint v [])) = None"
proof -
  assume k: "k < length (put_varint v [])"
  have u: "unat v < 2 ^ 64" using unsigned_less [of v] by simp
  have short: "k \<le> 10" using k length_put_varint_max [of v] by (simp add: varint_max_len_def)
  have "varint_loop 0 0 (take k (put_varint v [])) = None"
    by (rule varint_loop_prefix) (use k u in simp_all)
  then show ?thesis
    using rec_varint_loop_agrees [of 0 0 "take k (put_varint v [])"] short
    by (simp add: rec_read_varint_def MAX_VARINT_BYTES_def)
qed

section \<open>Reading back\<close>

definition fits :: "bytes \<Rightarrow> bool" where
  "fits p \<longleftrightarrow> length p \<le> MAX_RECORD_BYTES"

abbreviation log_bytes :: "bytes list \<Rightarrow> bytes" where
  "log_bytes ps \<equiv> concat (map encode_frame ps)"

lemma encode_frame_eq: "encode_frame p = put_varint (of_nat (length p)) [] @ p"
  by (simp add: encode_frame_def rec_put_varint_eq)

lemma fits_length: "fits p \<Longrightarrow> unat (of_nat (length p) :: 64 word) = length p"
  by (simp add: fits_def MAX_RECORD_BYTES_def unat_of_nat take_bit_nat_eq_self)

lemma frame_nonempty: "0 < length (encode_frame p)"
  by (simp add: encode_frame_eq)

lemma frames_next_encode:
  assumes "fits p"
  shows "frames_next (pre @ encode_frame p @ rest) (length pre) = Some (p, length pre + length (encode_frame p))"
  using assms fits_length [OF assms]
  by (simp add: frames_next_def encode_frame_eq rec_read_put Let_def fits_def)

lemma frames_next_torn:
  assumes "fits p" and "n < length (encode_frame p)"
  shows "frames_next (pre @ take n (encode_frame p)) (length pre) = None"
proof (cases "n < length (put_varint (of_nat (length p)) [])")
  case True
  then show ?thesis by (simp add: frames_next_def encode_frame_eq rec_read_put_prefix)
next
  case False
  with assms show ?thesis
    by (simp add: frames_next_def encode_frame_eq rec_read_put Let_def fits_length)
qed

lemma frames_encode:
  "list_all fits ps \<Longrightarrow> frames_from (pre @ log_bytes ps @ rest) (length pre) =
     (case frames_from (pre @ log_bytes ps @ rest) (length (pre @ log_bytes ps)) of (qs, valid) \<Rightarrow> (ps @ qs, valid))"
proof (induction ps arbitrary: pre)
  case Nil
  then show ?case by simp
next
  case (Cons p ps)
  let ?b = "pre @ log_bytes (p # ps) @ rest"
  have n: "frames_next ?b (length pre) = Some (p, length (pre @ encode_frame p))"
    using frames_next_encode [of p pre "log_bytes ps @ rest"] Cons.prems by simp
  have "frames_from ?b (length pre) =
      (case frames_from ?b (length (pre @ encode_frame p)) of (qs, valid) \<Rightarrow> (p # qs, valid))"
    by (subst frames_from.simps) (simp only: n option.case prod.case)
  also have "\<dots> = (case frames_from ?b (length (pre @ log_bytes (p # ps))) of (qs, valid) \<Rightarrow> ((p # ps) @ qs, valid))"
    using Cons.IH [of "pre @ encode_frame p"] Cons.prems by (simp split: prod.split)
  finally show ?case .
qed

lemma frames_whole:
  assumes "list_all fits ps"
  shows "frames_from (log_bytes ps) 0 = (ps, length (log_bytes ps))"
proof -
  have "frames_next (log_bytes ps) (length (log_bytes ps)) = None"
    by (simp add: frames_next_def rec_read_varint_def)
  then have "frames_from (log_bytes ps) (length (log_bytes ps)) = ([], length (log_bytes ps))"
    by (subst frames_from.simps) simp
  with frames_encode [OF assms, of "[]" "[]"] show ?thesis by simp
qed

lemma frames_torn:
  assumes "list_all fits ps" and "fits p" and "n < length (encode_frame p)"
  shows "frames_from (log_bytes ps @ take n (encode_frame p)) 0 = (ps, length (log_bytes ps))"
proof -
  let ?b = "log_bytes ps @ take n (encode_frame p)"
  have "frames_next ?b (length (log_bytes ps)) = None" by (rule frames_next_torn [OF assms(2,3)])
  then have "frames_from ?b (length (log_bytes ps)) = ([], length (log_bytes ps))"
    by (subst frames_from.simps) simp
  with frames_encode [OF assms(1), of "[]" "take n (encode_frame p)"] show ?thesis by simp
qed

text \<open>However much of a log survives, what is read of it is its first records, as many as are whole.\<close>

lemma prefix_of_log:
  "n \<le> length (log_bytes ps) \<Longrightarrow>
   \<exists>k m. k \<le> length ps \<and> take n (log_bytes ps) = log_bytes (take k ps) @ (if k < length ps then take m (encode_frame (ps ! k)) else []) \<and>
     n = length (log_bytes (take k ps)) + (if k < length ps then m else 0) \<and>
     (k < length ps \<longrightarrow> m < length (encode_frame (ps ! k)))"
proof (induction ps arbitrary: n)
  case Nil
  then show ?case by (intro exI [of _ 0]) simp
next
  case (Cons p ps)
  show ?case
  proof (cases "n < length (encode_frame p)")
    case True
    then show ?thesis by (intro exI [of _ 0] exI [of _ n]) simp
  next
    case False
    with Cons.prems have "n - length (encode_frame p) \<le> length (log_bytes ps)" by simp
    from Cons.IH [OF this] obtain k m where k: "k \<le> length ps"
      "take (n - length (encode_frame p)) (log_bytes ps) = log_bytes (take k ps) @ (if k < length ps then take m (encode_frame (ps ! k)) else [])"
      "n - length (encode_frame p) = length (log_bytes (take k ps)) + (if k < length ps then m else 0)"
      "k < length ps \<longrightarrow> m < length (encode_frame (ps ! k))" by blast
    with False show ?thesis by (intro exI [of _ "Suc k"] exI [of _ m]) auto
  qed
qed

lemma frames_survive:
  assumes "list_all fits ps" and "n \<le> length (log_bytes ps)"
  shows "\<exists>k \<le> length ps. frames_from (take n (log_bytes ps)) 0 = (take k ps, length (log_bytes (take k ps))) \<and>
    length (log_bytes (take k ps)) \<le> n \<and> (k < length ps \<longrightarrow> n < length (log_bytes (take (Suc k) ps)))"
proof -
  from prefix_of_log [OF assms(2)] obtain k m where k: "k \<le> length ps"
    "take n (log_bytes ps) = log_bytes (take k ps) @ (if k < length ps then take m (encode_frame (ps ! k)) else [])"
    "n = length (log_bytes (take k ps)) + (if k < length ps then m else 0)"
    "k < length ps \<longrightarrow> m < length (encode_frame (ps ! k))" by blast
  have f: "list_all fits (take k ps)" using assms(1) by (auto simp: list_all_iff dest: in_set_takeD)
  show ?thesis
  proof (cases "k < length ps")
    case True
    then have "fits (ps ! k)" using assms(1) by (simp add: list_all_length)
    from frames_torn [OF f this, of m] k True show ?thesis
      by (intro exI [of _ k]) (simp add: take_Suc_conv_app_nth)
  next
    case False
    with k frames_whole [OF f] show ?thesis by (intro exI [of _ k]) simp
  qed
qed

end
