(* ===== verification/Seg_Index.thy ===== *)
theory Seg_Index
  imports Prelude "HOL-Library.List_Lexorder"
begin

text \<open>
  The volume the append-only logs live on: their files, and the index over them, the table
  \<open>stream_segments\<close> (\<open>rustak-server/src/db/repos/stream_segments.rs\<close> and its \<open>retention.rs\<close>), whose
  SQL statements are given here as functions on the table's rows.  Rows are kept in the order of
  their ids; a new one gets the id after the largest, as SQLite does for a plain integer key; where an
  \<open>ORDER BY\<close> leaves a tie, the smaller id comes first.  \<open>created_at\<close>, which nothing reads, is left out.  A time is its nanoseconds.
  Every call that can fail takes its fate from \<open>vl_luck\<close>: none left or \<open>None\<close> is success, \<open>Some n\<close> is a
  failure (of a write, after \<open>n\<close> bytes).
\<close>

section \<open>The volume\<close>

record seg_row =
  sr_id :: nat
  sr_kind :: ustr
  sr_key :: ustr
  sr_path :: ustr
  sr_first :: int
  sr_last :: int
  sr_records :: nat
  sr_bytes :: nat
  sr_sealed :: bool

record new_segment =
  ns_kind :: ustr
  ns_key :: ustr
  ns_path :: ustr
  ns_first :: int

record volume =
  vl_files :: "ustr \<rightharpoonup> bytes"
  vl_rows :: "seg_row list"
  vl_luck :: "nat option list"

text \<open>Every \<open>Err\<close> the store makes or passes on.\<close>

datatype log_error =
    BadKey nat | TooLargeRecord nat | NoDirectory ustr | IndexFailed | NotCreated ustr | NotWritten ustr
  | NotRepaired ustr | NotReopened ustr | NotRead ustr | SegmentVanished

definition attempt :: "volume \<Rightarrow> nat option \<times> volume" where
  "attempt v = (case vl_luck v of [] \<Rightarrow> (None, v) | l # ls \<Rightarrow> (l, v\<lparr>vl_luck := ls\<rparr>))"

text \<open>A transaction runs whole or not at all.\<close>

definition db_read :: "(seg_row list \<Rightarrow> 'a) \<Rightarrow> volume \<Rightarrow> (log_error + 'a) \<times> volume" where
  "db_read f v =
     (case attempt v of (None, v) \<Rightarrow> (Inr (f (vl_rows v)), v) | (Some _, v) \<Rightarrow> (Inl IndexFailed, v))"

definition db_write :: "(seg_row list \<Rightarrow> 'a \<times> seg_row list) \<Rightarrow> volume \<Rightarrow> (log_error + 'a) \<times> volume" where
  "db_write f v =
     (case attempt v of
        (None, v) \<Rightarrow> (case f (vl_rows v) of (a, rows) \<Rightarrow> (Inr a, v\<lparr>vl_rows := rows\<rparr>))
      | (Some _, v) \<Rightarrow> (Inl IndexFailed, v))"

section \<open>The index\<close>

text \<open>A time as a column holds it: to the millisecond.\<close>

definition ts_from :: "int \<Rightarrow> int" where
  "ts_from t = t div 1000000 * 1000000"

definition next_row_id :: "seg_row list \<Rightarrow> nat" where
  "next_row_id rows = foldl (\<lambda>m r. max m (sr_id r)) 0 rows + 1"

definition segments_create :: "new_segment \<Rightarrow> volume \<Rightarrow> (log_error + seg_row) \<times> volume" where
  "segments_create new v =
     (case db_write (\<lambda>rows.
          if list_ex (\<lambda>r. sr_path r = ns_path new) rows then (None, rows)
          else let first = ts_from (ns_first new);
                   row = \<lparr>sr_id = next_row_id rows, sr_kind = ns_kind new, sr_key = ns_key new,
                     sr_path = ns_path new, sr_first = first, sr_last = first, sr_records = 0, sr_bytes = 0,
                     sr_sealed = False\<rparr>
               in (Some row, rows @ [row])) v of
        (Inl er, v) \<Rightarrow> (Inl er, v)
      | (Inr None, v) \<Rightarrow> (Inl IndexFailed, v)
      | (Inr (Some row), v) \<Rightarrow> (Inr row, v))"

definition row_append :: "nat \<Rightarrow> int \<Rightarrow> nat \<Rightarrow> nat \<Rightarrow> seg_row list \<Rightarrow> bool \<times> seg_row list" where
  "row_append i last_time records bytes rows =
     (let hit = (\<lambda>r. sr_id r = i \<and> \<not> sr_sealed r)
      in (0 < length (filter hit rows),
          map (\<lambda>r. if hit r then r\<lparr>sr_last := max (sr_last r) (ts_from last_time),
                  sr_records := sr_records r + records, sr_bytes := sr_bytes r + bytes\<rparr> else r) rows))"

definition segments_record_append :: "nat \<Rightarrow> int \<Rightarrow> nat \<Rightarrow> nat \<Rightarrow> volume \<Rightarrow> (log_error + bool) \<times> volume" where
  "segments_record_append i last_time records bytes = db_write (row_append i last_time records bytes)"

definition seal_rows :: "(seg_row \<Rightarrow> bool) \<Rightarrow> seg_row list \<Rightarrow> nat \<times> seg_row list" where
  "seal_rows hit rows =
     (length (filter (\<lambda>r. hit r \<and> \<not> sr_sealed r) rows), map (\<lambda>r. if hit r \<and> \<not> sr_sealed r then r\<lparr>sr_sealed := True\<rparr> else r) rows)"

definition segments_seal :: "nat \<Rightarrow> volume \<Rightarrow> (log_error + bool) \<times> volume" where
  "segments_seal i = db_write (\<lambda>rows. case seal_rows (\<lambda>r. sr_id r = i) rows of (n, rows) \<Rightarrow> (0 < n, rows))"

definition segments_open_segment :: "ustr \<Rightarrow> ustr \<Rightarrow> volume \<Rightarrow> (log_error + seg_row option) \<times> volume" where
  "segments_open_segment kind key = db_read (\<lambda>rows.
     case sort_key (\<lambda>r. - sr_first r) (filter (\<lambda>r. sr_kind r = kind \<and> sr_key r = key \<and> \<not> sr_sealed r) rows) of
       [] \<Rightarrow> None | r # _ \<Rightarrow> Some r)"

definition overlapping_rows :: "ustr \<Rightarrow> ustr \<Rightarrow> int \<Rightarrow> int \<Rightarrow> seg_row list \<Rightarrow> seg_row list" where
  "overlapping_rows kind key start stop rows =
     sort_key sr_first (filter (\<lambda>r. sr_kind r = kind \<and> sr_key r = key \<and> sr_first r < ts_from stop \<and>
       ts_from start \<le> sr_last r) rows)"

definition segments_overlapping :: "ustr \<Rightarrow> ustr \<Rightarrow> int \<Rightarrow> int \<Rightarrow> volume \<Rightarrow> (log_error + seg_row list) \<times> volume" where
  "segments_overlapping kind key start stop = db_read (overlapping_rows kind key start stop)"

definition segments_seal_idle :: "ustr \<Rightarrow> int \<Rightarrow> volume \<Rightarrow> (log_error + nat) \<times> volume" where
  "segments_seal_idle kind before = db_write (seal_rows (\<lambda>r. sr_kind r = kind \<and> sr_last r < ts_from before))"

definition delete_rows :: "nat list \<Rightarrow> seg_row list \<Rightarrow> nat \<times> seg_row list" where
  "delete_rows ids rows =
     (length (filter (\<lambda>r. sr_id r \<in> set ids) rows), filter (\<lambda>r. sr_id r \<notin> set ids) rows)"

definition segments_delete :: "nat \<Rightarrow> volume \<Rightarrow> (log_error + bool) \<times> volume" where
  "segments_delete i = db_write (\<lambda>rows. case delete_rows [i] rows of (n, rows) \<Rightarrow> (0 < n, rows))"

definition segments_delete_many :: "nat list \<Rightarrow> volume \<Rightarrow> (log_error + nat) \<times> volume" where
  "segments_delete_many ids v = (if ids = [] then (Inr 0, v) else db_write (delete_rows ids) v)"

section \<open>What retention reads\<close>

text \<open>Sealed rows, oldest by when they ended.\<close>

definition oldest_rows :: "(seg_row \<Rightarrow> bool) \<Rightarrow> nat \<Rightarrow> seg_row list \<Rightarrow> seg_row list" where
  "oldest_rows which limit rows = take limit (sort_key sr_last (filter (\<lambda>r. sr_sealed r \<and> which r) rows))"

fun take_within :: "seg_row list \<Rightarrow> nat \<Rightarrow> (seg_row \<Rightarrow> nat) \<Rightarrow> nat \<Rightarrow> seg_row list" where
  "take_within [] excess weight running = []"
| "take_within (r # rows) excess weight running =
     (let running = running + weight r
      in if excess < running then [] else r # take_within rows excess weight running)"

definition segments_expired_before :: "int \<Rightarrow> nat \<Rightarrow> volume \<Rightarrow> (log_error + seg_row list) \<times> volume" where
  "segments_expired_before before limit = db_read (oldest_rows (\<lambda>r. sr_last r < ts_from before) limit)"

text \<open>The streams of a kind over the cap, in the order of the index, with what each holds.\<close>

definition over_cap_streams :: "ustr \<Rightarrow> nat \<Rightarrow> seg_row list \<Rightarrow> (ustr \<times> nat) list" where
  "over_cap_streams kind cap rows =
     (let mine = filter (\<lambda>r. sr_kind r = kind) rows
      in filter (\<lambda>(_, held). cap < held)
           (map (\<lambda>key. (key, sum_list (map sr_records (filter (\<lambda>r. sr_key r = key) mine))))
             (sort (remdups (map sr_key mine)))))"

fun row_cap_loop :: "ustr \<Rightarrow> nat \<Rightarrow> nat \<Rightarrow> seg_row list \<Rightarrow> (ustr \<times> nat) list \<Rightarrow> seg_row list \<Rightarrow> seg_row list" where
  "row_cap_loop kind cap limit rows [] surplus = surplus"
| "row_cap_loop kind cap limit rows ((key, held) # streams) surplus =
     (if \<not> length surplus < limit then surplus
      else row_cap_loop kind cap limit rows streams
        (surplus @ take_within (oldest_rows (\<lambda>r. sr_kind r = kind \<and> sr_key r = key) (limit - length surplus) rows)
          (held - cap) sr_records 0))"

definition segments_over_row_cap :: "ustr \<Rightarrow> nat \<Rightarrow> nat \<Rightarrow> volume \<Rightarrow> (log_error + seg_row list) \<times> volume" where
  "segments_over_row_cap kind cap limit =
     db_read (\<lambda>rows. row_cap_loop kind cap limit rows (over_cap_streams kind cap rows) [])"

definition segments_over_byte_cap :: "ustr \<Rightarrow> nat \<Rightarrow> nat \<Rightarrow> volume \<Rightarrow> (log_error + seg_row list) \<times> volume" where
  "segments_over_byte_cap kind max_bytes limit = db_read (\<lambda>rows.
     let held = sum_list (map sr_bytes (filter (\<lambda>r. sr_kind r = kind) rows)); excess = held - max_bytes
     in if 0 < excess then take_within (oldest_rows (\<lambda>r. sr_kind r = kind) limit rows) excess sr_bytes 0 else [])"

end
