(* ===== verification/Append_Log.thy ===== *)
theory Append_Log
  imports Rec_Frame Seg_Index Utf8
begin

text \<open>
  The append-only segment log (\<open>rustak-server/src/store/append_log.rs\<close>, \<open>segment.rs\<close> and
  \<open>prune.rs\<close>): rolling files of framed records, an index row for each, recovery of what the last run
  left, and the removal of old segments.  Every operation takes the volume and gives it back with its
  result.  A file that was unlinked under an open handle takes the bytes written to it with it.
\<close>

section \<open>Files\<close>

definition fs_create_dir :: "ustr \<Rightarrow> volume \<Rightarrow> (log_error + unit) \<times> volume" where
  "fs_create_dir path v =
     (case attempt v of (None, v) \<Rightarrow> (Inr (), v) | (Some _, v) \<Rightarrow> (Inl (NoDirectory path), v))"

definition fs_read :: "ustr \<Rightarrow> volume \<Rightarrow> (log_error + bytes option) \<times> volume" where
  "fs_read path v =
     (case attempt v of (None, v) \<Rightarrow> (Inr (vl_files v path), v) | (Some _, v) \<Rightarrow> (Inl (NotRead path), v))"

definition file_put :: "ustr \<Rightarrow> bytes \<Rightarrow> volume \<Rightarrow> volume" where
  "file_put path bs v =
     (case vl_files v path of None \<Rightarrow> v | Some old \<Rightarrow> v\<lparr>vl_files := (vl_files v)(path \<mapsto> old @ bs)\<rparr>)"

definition fs_append :: "ustr \<Rightarrow> bytes \<Rightarrow> volume \<Rightarrow> (log_error + unit) \<times> volume" where
  "fs_append path bs v =
     (case attempt v of
        (None, v) \<Rightarrow> (Inr (), file_put path bs v)
      | (Some n, v) \<Rightarrow> (Inl (NotWritten path), file_put path (take n bs) v))"

definition fs_remove :: "ustr \<Rightarrow> volume \<Rightarrow> bool \<times> volume" where
  "fs_remove path v =
     (case attempt v of (None, v) \<Rightarrow> (True, v\<lparr>vl_files := (vl_files v)(path := None)\<rparr>) | (Some _, v) \<Rightarrow> (False, v))"

section \<open>Names\<close>

definition SEGMENT_SUFFIX :: ustr where
  "SEGMENT_SUFFIX = lit ''.log''"

definition MAX_STREAM_KEY_BYTES :: nat where
  "MAX_STREAM_KEY_BYTES = 80"

definition key_hex_digit :: "nat \<Rightarrow> uchar" where
  "key_hex_digit nibble = (if nibble \<le> 9 then 48 + nibble else 65 + (nibble - 10))"

definition plain_byte :: "nat \<Rightarrow> nat \<Rightarrow> bool" where
  "plain_byte index c \<longleftrightarrow>
     48 \<le> c \<and> c \<le> 57 \<or> 65 \<le> c \<and> c \<le> 90 \<or> 97 \<le> c \<and> c \<le> 122 \<or> c = 45 \<or> c = 95 \<or> c = 46 \<and> 0 < index"

fun encode_from :: "nat \<Rightarrow> bytes \<Rightarrow> ustr" where
  "encode_from index [] = []"
| "encode_from index (b # bs) =
     (if plain_byte index (unat b) then [unat b]
      else [37, key_hex_digit (unat b div 16), key_hex_digit (unat b mod 16)]) @ encode_from (index + 1) bs"

definition encode_component :: "ustr \<Rightarrow> log_error + ustr" where
  "encode_component value =
     (let bs = utf8 value
      in if bs = [] \<or> MAX_STREAM_KEY_BYTES < length bs then Inl (BadKey (length bs)) else Inr (encode_from 0 bs))"

text \<open>\<open>stamp\<close> is \<open>chrono\<close>'s text of the time, \<open>nonce\<close> the hex digits of the random bytes.\<close>

definition segment_name :: "(int \<Rightarrow> ustr) \<Rightarrow> ustr \<Rightarrow> int \<Rightarrow> ustr" where
  "segment_name stamp nonce opened = stamp opened @ lit ''-'' @ nonce @ SEGMENT_SUFFIX"

section \<open>One segment\<close>

definition INDEX_FLUSH_RECORDS :: nat where
  "INDEX_FLUSH_RECORDS = 256"

definition INDEX_FLUSH_BYTES :: nat where
  "INDEX_FLUSH_BYTES = 256 * 1024"

record segment =
  sg_id :: nat
  sg_relative :: ustr
  sg_bytes :: nat
  sg_first :: int
  sg_last :: int
  sg_pending_records :: nat
  sg_pending_bytes :: nat

record scan =
  sn_records :: nat
  sn_bytes :: nat

definition repair :: "ustr \<Rightarrow> volume \<Rightarrow> (log_error + scan option) \<times> volume" where
  "repair path v =
     (case fs_read path v of
        (Inr (Some bs), v) \<Rightarrow>
          (case frames_from bs 0 of (ps, valid) \<Rightarrow>
             let found = \<lparr>sn_records = length ps, sn_bytes = valid\<rparr>
             in if valid < length bs then
                  (case attempt v of
                     (None, v) \<Rightarrow> (Inr (Some found), v\<lparr>vl_files := (vl_files v)(path \<mapsto> take valid bs)\<rparr>)
                   | (Some _, v) \<Rightarrow> (Inl (NotRepaired path), v))
                else (Inr (Some found), v))
      | (_, v) \<Rightarrow> (Inr None, v))"

definition segment_create :: "ustr \<Rightarrow> ustr \<Rightarrow> ustr \<Rightarrow> (int \<Rightarrow> ustr) \<Rightarrow> ustr \<Rightarrow> int \<Rightarrow> volume \<Rightarrow> (log_error + segment) \<times> volume" where
  "segment_create kind key directory stamp nonce first_time v =
     (let relative = directory @ lit ''/'' @ segment_name stamp nonce first_time
      in case fs_create_dir directory v of
           (Inl er, v) \<Rightarrow> (Inl er, v)
         | (Inr _, v) \<Rightarrow>
             (case segments_create \<lparr>ns_kind = kind, ns_key = key, ns_path = relative, ns_first = first_time\<rparr> v of
                (Inl er, v) \<Rightarrow> (Inl er, v)
              | (Inr row, v) \<Rightarrow>
                  (case attempt v of
                     (luck, v) \<Rightarrow>
                       if luck \<noteq> None \<or> vl_files v relative \<noteq> None
                       then (Inl (NotCreated relative), snd (segments_delete (sr_id row) v))
                       else (Inr \<lparr>sg_id = sr_id row, sg_relative = relative, sg_bytes = 0, sg_first = first_time,
                               sg_last = first_time, sg_pending_records = 0, sg_pending_bytes = 0\<rparr>,
                             v\<lparr>vl_files := (vl_files v)(relative \<mapsto> [])\<rparr>))))"

definition segment_adopt :: "seg_row \<Rightarrow> nat \<Rightarrow> volume \<Rightarrow> (log_error + segment) \<times> volume" where
  "segment_adopt row bs v =
     (case attempt v of
        (luck, v) \<Rightarrow>
          if luck \<noteq> None \<or> vl_files v (sr_path row) = None then (Inl (NotReopened (sr_path row)), v)
          else (Inr \<lparr>sg_id = sr_id row, sg_relative = sr_path row, sg_bytes = bs, sg_first = sr_first row,
                  sg_last = sr_last row, sg_pending_records = 0, sg_pending_bytes = 0\<rparr>, v))"

definition would_overflow :: "nat \<Rightarrow> nat \<Rightarrow> segment \<Rightarrow> bool" where
  "would_overflow len limit s \<longleftrightarrow> 0 < sg_bytes s \<and> limit < sg_bytes s + len"

definition seg_touches :: "int \<Rightarrow> int \<Rightarrow> segment \<Rightarrow> bool" where
  "seg_touches start stop s \<longleftrightarrow> sg_first s < stop \<and> start \<le> sg_last s"

definition segment_write :: "bytes \<Rightarrow> int \<Rightarrow> segment \<Rightarrow> volume \<Rightarrow> (log_error + unit) \<times> segment \<times> volume" where
  "segment_write frame time s v =
     (case fs_append (sg_relative s) frame v of
        (Inl er, v) \<Rightarrow> (Inl er, s, v)
      | (Inr _, v) \<Rightarrow>
          (Inr (), s\<lparr>sg_bytes := sg_bytes s + length frame, sg_pending_bytes := sg_pending_bytes s + length frame,
             sg_pending_records := sg_pending_records s + 1, sg_last := max (sg_last s) time\<rparr>, v))"

definition wants_index_flush :: "segment \<Rightarrow> bool" where
  "wants_index_flush s \<longleftrightarrow> INDEX_FLUSH_RECORDS \<le> sg_pending_records s \<or> INDEX_FLUSH_BYTES \<le> sg_pending_bytes s"

definition take_pending :: "segment \<Rightarrow> (int \<times> nat \<times> nat) option \<times> segment" where
  "take_pending s =
     (if sg_pending_records s = 0 \<and> sg_pending_bytes s = 0 then (None, s)
      else (Some (sg_last s, sg_pending_records s, sg_pending_bytes s), s\<lparr>sg_pending_records := 0, sg_pending_bytes := 0\<rparr>))"

section \<open>The log\<close>

record append_log =
  al_kind :: ustr
  al_key :: ustr
  al_relative :: ustr
  al_max :: nat
  al_current :: "segment option"

definition DEFAULT_SEGMENT_BYTES :: nat where
  "DEFAULT_SEGMENT_BYTES = 8 * 1024 * 1024"

definition log_flush :: "append_log \<Rightarrow> volume \<Rightarrow> (log_error + unit) \<times> append_log \<times> volume" where
  "log_flush l v =
     (case al_current l of
        None \<Rightarrow> (Inr (), l, v)
      | Some s \<Rightarrow>
          (case take_pending s of
             (None, s) \<Rightarrow> (Inr (), l, v)
           | (Some (last_time, records, bs), s) \<Rightarrow>
               let l = l\<lparr>al_current := Some s\<rparr>
               in case segments_record_append (sg_id s) last_time records bs v of
                    (Inl er, v) \<Rightarrow> (Inl er, l, v)
                  | (Inr indexed, v) \<Rightarrow> (Inr (), if indexed then l else l\<lparr>al_current := None\<rparr>, v)))"

definition log_seal :: "append_log \<Rightarrow> volume \<Rightarrow> (log_error + unit) \<times> append_log \<times> volume" where
  "log_seal l v =
     (case log_flush l v of
        (Inl er, l, v) \<Rightarrow> (Inl er, l, v)
      | (Inr _, l, v) \<Rightarrow>
          (case al_current l of
             None \<Rightarrow> (Inr (), l, v)
           | Some s \<Rightarrow>
               (case segments_seal (sg_id s) v of
                  (Inl er, v) \<Rightarrow> (Inl er, l\<lparr>al_current := None\<rparr>, v)
                | (Inr _, v) \<Rightarrow> (Inr (), l\<lparr>al_current := None\<rparr>, v))))"

text \<open>The three stages of an append: make room, have a segment, write.\<close>

definition log_roll :: "nat \<Rightarrow> append_log \<Rightarrow> volume \<Rightarrow> (log_error + unit) \<times> append_log \<times> volume" where
  "log_roll len l v =
     (case al_current l of
        Some s \<Rightarrow> if would_overflow len (al_max l) s then log_seal l v else (Inr (), l, v)
      | None \<Rightarrow> (Inr (), l, v))"

definition log_ensure :: "(int \<Rightarrow> ustr) \<Rightarrow> ustr \<Rightarrow> int \<Rightarrow> append_log \<Rightarrow> volume \<Rightarrow> (log_error + unit) \<times> append_log \<times> volume" where
  "log_ensure stamp nonce time l v =
     (if al_current l \<noteq> None then (Inr (), l, v)
      else case segment_create (al_kind l) (al_key l) (al_relative l) stamp nonce time v of
             (Inl er, v) \<Rightarrow> (Inl er, l, v)
           | (Inr s, v) \<Rightarrow> (Inr (), l\<lparr>al_current := Some s\<rparr>, v))"

definition log_put :: "bytes \<Rightarrow> int \<Rightarrow> append_log \<Rightarrow> volume \<Rightarrow> (log_error + unit) \<times> append_log \<times> volume" where
  "log_put frame time l v =
     (case al_current l of
        None \<Rightarrow> (Inl SegmentVanished, l, v)
      | Some s \<Rightarrow>
          (case segment_write frame time s v of
             (Inl er, s, v) \<Rightarrow> (Inl er, l\<lparr>al_current := Some s\<rparr>, v)
           | (Inr _, s, v) \<Rightarrow>
               let l = l\<lparr>al_current := Some s\<rparr>
               in if wants_index_flush s then log_flush l v else (Inr (), l, v)))"

definition log_append :: "(int \<Rightarrow> ustr) \<Rightarrow> ustr \<Rightarrow> int \<Rightarrow> bytes \<Rightarrow> append_log \<Rightarrow> volume \<Rightarrow> (log_error + unit) \<times> append_log \<times> volume" where
  "log_append stamp nonce time payload l v =
     (if MAX_RECORD_BYTES < length payload then (Inl (TooLargeRecord (length payload)), l, v)
      else let frame = encode_frame payload
           in case log_roll (length frame) l v of
                (Inl er, l, v) \<Rightarrow> (Inl er, l, v)
              | (Inr _, l, v) \<Rightarrow>
                  (case log_ensure stamp nonce time l v of
                     (Inl er, l, v) \<Rightarrow> (Inl er, l, v)
                   | (Inr _, l, v) \<Rightarrow> log_put frame time l v))"

definition read_segment :: "ustr \<Rightarrow> volume \<Rightarrow> (log_error + bytes list) \<times> volume" where
  "read_segment relative v =
     (case fs_read relative v of
        (Inl er, v) \<Rightarrow> (Inl er, v)
      | (Inr None, v) \<Rightarrow> (Inr [], v)
      | (Inr (Some bs), v) \<Rightarrow> (Inr (frames bs), v))"

fun read_segments :: "ustr list \<Rightarrow> bytes list \<Rightarrow> volume \<Rightarrow> (log_error + bytes list) \<times> volume" where
  "read_segments [] records v = (Inr records, v)"
| "read_segments (path # paths) records v =
     (case read_segment path v of
        (Inl er, v) \<Rightarrow> (Inl er, v)
      | (Inr more_records, v) \<Rightarrow> read_segments paths (records @ more_records) v)"

definition log_read_range :: "int \<Rightarrow> int \<Rightarrow> append_log \<Rightarrow> volume \<Rightarrow> (log_error + bytes list) \<times> volume" where
  "log_read_range start stop l v =
     (case segments_overlapping (al_kind l) (al_key l) start stop v of
        (Inl er, v) \<Rightarrow> (Inl er, v)
      | (Inr rows, v) \<Rightarrow>
          (case al_current l of
             None \<Rightarrow> read_segments (map sr_path rows) [] v
           | Some s \<Rightarrow>
               read_segments (map sr_path (filter (\<lambda>r. sr_id r \<noteq> sg_id s) rows) @
                 (if seg_touches start stop s then [sg_relative s] else [])) [] v))"

definition seal_and_stop :: "nat \<Rightarrow> append_log \<Rightarrow> volume \<Rightarrow> (log_error + unit) \<times> append_log \<times> volume" where
  "seal_and_stop i l v =
     (case segments_seal i v of (Inl er, v) \<Rightarrow> (Inl er, l, v) | (Inr _, v) \<Rightarrow> (Inr (), l, v))"

definition adopt_row :: "seg_row \<Rightarrow> nat \<Rightarrow> append_log \<Rightarrow> volume \<Rightarrow> (log_error + unit) \<times> append_log \<times> volume" where
  "adopt_row row bs l v =
     (if al_max l \<le> bs then seal_and_stop (sr_id row) l v
      else case segment_adopt row bs v of
             (Inl er, v) \<Rightarrow> (Inl er, l, v)
           | (Inr s, v) \<Rightarrow> (Inr (), l\<lparr>al_current := Some s\<rparr>, v))"

definition log_reconcile :: "seg_row \<Rightarrow> scan \<Rightarrow> append_log \<Rightarrow> volume \<Rightarrow> (log_error + unit) \<times> append_log \<times> volume" where
  "log_reconcile row found l v =
     (if sn_records found < sr_records row \<or> sn_bytes found < sr_bytes row then seal_and_stop (sr_id row) l v
      else if sr_records row < sn_records found \<or> sr_bytes row < sn_bytes found then
        (case segments_record_append (sr_id row) (sr_last row) (sn_records found - sr_records row)
            (sn_bytes found - sr_bytes row) v of
           (Inl er, v) \<Rightarrow> (Inl er, l, v)
         | (Inr _, v) \<Rightarrow> adopt_row row (sn_bytes found) l v)
      else adopt_row row (sn_bytes found) l v)"

definition log_recover :: "seg_row \<Rightarrow> append_log \<Rightarrow> volume \<Rightarrow> (log_error + unit) \<times> append_log \<times> volume" where
  "log_recover row l v =
     (case attempt v of
        (luck, v) \<Rightarrow>
          if luck = None \<and> map_option length (vl_files v (sr_path row)) = Some (sr_bytes row)
          then adopt_row row (sr_bytes row) l v
          else (case repair (sr_path row) v of
                  (Inl er, v) \<Rightarrow> (Inl er, l, v)
                | (Inr None, v) \<Rightarrow> seal_and_stop (sr_id row) l v
                | (Inr (Some found), v) \<Rightarrow> log_reconcile row found l v))"

definition log_open :: "ustr \<Rightarrow> ustr \<Rightarrow> nat \<Rightarrow> volume \<Rightarrow> (log_error + append_log) \<times> volume" where
  "log_open kind key limit v =
     (case (encode_component kind, encode_component key) of
        (Inl er, _) \<Rightarrow> (Inl er, v)
      | (Inr _, Inl er) \<Rightarrow> (Inl er, v)
      | (Inr k, Inr d) \<Rightarrow>
          let relative = k @ lit ''/'' @ d
          in case fs_create_dir relative v of
               (Inl er, v) \<Rightarrow> (Inl er, v)
             | (Inr _, v) \<Rightarrow>
                 let l = \<lparr>al_kind = kind, al_key = key, al_relative = relative, al_max = limit, al_current = None\<rparr>
                 in case segments_open_segment kind key v of
                      (Inl er, v) \<Rightarrow> (Inl er, v)
                    | (Inr None, v) \<Rightarrow> (Inr l, v)
                    | (Inr (Some row), v) \<Rightarrow>
                        (case log_recover row l v of (Inl er, l, v) \<Rightarrow> (Inl er, v) | (Inr _, l, v) \<Rightarrow> (Inr l, v)))"

section \<open>Retiring segments\<close>

definition PRUNE_PAGE :: nat where
  "PRUNE_PAGE = 10000"

definition REMOVE_BATCH :: nat where
  "REMOVE_BATCH = 500"

datatype surplus = ExpiredBefore int | OverRowCap ustr nat | OverByteCap ustr nat

fun surplus_page :: "surplus \<Rightarrow> nat \<Rightarrow> volume \<Rightarrow> (log_error + seg_row list) \<times> volume" where
  "surplus_page (ExpiredBefore before) limit v = segments_expired_before before limit v"
| "surplus_page (OverRowCap kind rows) limit v = segments_over_row_cap kind rows limit v"
| "surplus_page (OverByteCap kind bs) limit v = segments_over_byte_cap kind bs limit v"

fun unlink_batch :: "seg_row list \<Rightarrow> nat list \<Rightarrow> volume \<Rightarrow> nat list \<times> volume" where
  "unlink_batch [] gone v = (gone, v)"
| "unlink_batch (r # rows) gone v =
     (case fs_remove (sr_path r) v of
        (True, v) \<Rightarrow> unlink_batch rows (gone @ [sr_id r]) v
      | (False, v) \<Rightarrow> unlink_batch rows gone v)"

function remove_batches :: "seg_row list \<Rightarrow> nat \<Rightarrow> volume \<Rightarrow> (log_error + nat) \<times> volume" where
  "remove_batches rows removed v =
     (if rows = [] then (Inr removed, v)
      else case unlink_batch (take REMOVE_BATCH rows) [] v of
             (gone, v) \<Rightarrow>
               (case segments_delete_many gone v of
                  (Inl er, v) \<Rightarrow> (Inl er, v)
                | (Inr n, v) \<Rightarrow> remove_batches (drop REMOVE_BATCH rows) (removed + n) v))"
  by pat_completeness auto
termination remove_batches
  by (relation "measure (\<lambda>(rows, removed, v). length rows)") (auto simp: REMOVE_BATCH_def)

declare remove_batches.simps [simp del]

definition remove_indexed :: "seg_row list \<Rightarrow> volume \<Rightarrow> (log_error + nat) \<times> volume" where
  "remove_indexed rows v = remove_batches rows 0 v"

text \<open>The loop over the pages ends when a page was short or nothing of it went; that it does is shown.\<close>

partial_function (option) remove_pages :: "surplus \<Rightarrow> nat \<Rightarrow> nat \<Rightarrow> volume \<Rightarrow> ((log_error + nat) \<times> volume) option" where
  "remove_pages which page_size removed v =
     (case surplus_page which page_size v of
        (Inl er, v) \<Rightarrow> Some (Inl er, v)
      | (Inr rows, v) \<Rightarrow>
          (case remove_indexed rows v of
             (Inl er, v) \<Rightarrow> Some (Inl er, v)
           | (Inr gone, v) \<Rightarrow>
               if length rows < page_size \<or> gone = 0 then Some (Inr (removed + gone), v)
               else remove_pages which page_size (removed + gone) v))"

definition remove_paged :: "surplus \<Rightarrow> nat \<Rightarrow> volume \<Rightarrow> ((log_error + nat) \<times> volume) option" where
  "remove_paged which page_size v = remove_pages which page_size 0 v"

definition prune_before :: "int \<Rightarrow> volume \<Rightarrow> ((log_error + nat) \<times> volume) option" where
  "prune_before before v = remove_paged (ExpiredBefore before) PRUNE_PAGE v"

end
