(* ===== verification/Log_Props.thy ===== *)
theory Log_Props
  imports Append_Log
begin

text \<open>
  What the log promises: names that stay in their directory, records read back as they were written,
  recovery to the last whole record, and removal of nothing but what is old and finished.
\<close>

section \<open>Names\<close>

lemma key_hex_digit_inj: "a < 16 \<Longrightarrow> b < 16 \<Longrightarrow> key_hex_digit a = key_hex_digit b \<Longrightarrow> a = b"
  by (auto simp: key_hex_digit_def split: if_splits)

lemma plain_not_percent: "plain_byte i c \<Longrightarrow> c \<noteq> 37"
  by (auto simp: plain_byte_def)

lemma byte_div: "unat (b :: byte) div 16 < 16"
proof -
  have "unat b < 2 ^ 8" using unsigned_less [of b] by simp
  then show ?thesis by (simp add: less_mult_imp_div_less)
qed

lemma encode_from_inj: "encode_from i bs = encode_from i cs \<Longrightarrow> bs = cs"
proof (induction bs arbitrary: i cs)
  case Nil
  then show ?case by (cases cs) (auto split: if_splits)
next
  case (Cons b bs)
  then obtain c cs' where cs: "cs = c # cs'" by (cases cs) (auto split: if_splits)
  consider "plain_byte i (unat b)" "plain_byte i (unat c)" | "\<not> plain_byte i (unat b)" "\<not> plain_byte i (unat c)"
    using Cons.prems plain_not_percent by (auto simp: cs split: if_splits)
  then show ?case
  proof cases
    case 1
    with Cons cs show ?thesis by (auto simp: word_unat_eq_iff)
  next
    case 2
    then have "key_hex_digit (unat b div 16) = key_hex_digit (unat c div 16)" "key_hex_digit (unat b mod 16) = key_hex_digit (unat c mod 16)"
      "encode_from (i + 1) bs = encode_from (i + 1) cs'" using Cons.prems cs by simp_all
    then have "unat b div 16 = unat c div 16" "unat b mod 16 = unat c mod 16" "bs = cs'"
      using key_hex_digit_inj byte_div Cons.IH by simp_all
    then have "unat b = unat c" by (metis div_mult_mod_eq)
    with \<open>bs = cs'\<close> cs show ?thesis by (simp add: word_unat_eq_iff)
  qed
qed

definition name_char :: "nat \<Rightarrow> bool" where
  "name_char c \<longleftrightarrow> c = 37 \<or> plain_byte 1 c"

lemma encode_from_chars: "list_all name_char (encode_from i bs)"
proof (induction bs arbitrary: i)
  case (Cons b bs)
  have "name_char (key_hex_digit n)" if "n < 16" for n
    using that by (auto simp: name_char_def plain_byte_def key_hex_digit_def)
  moreover have "name_char (unat b)" if "plain_byte i (unat b)" using that by (auto simp: name_char_def plain_byte_def)
  ultimately show ?case using Cons byte_div by (auto simp: name_char_def)
qed simp

lemma encode_from_length: "length (encode_from i bs) \<le> 3 * length bs"
proof (induction bs arbitrary: i)
  case (Cons b bs)
  have "length (encode_from (i + 1) bs) \<le> 3 * length bs" by (rule Cons)
  then show ?case by simp
qed simp

text \<open>C39: a client's uid names one directory of its own: what it is turned into is a single name of at
  most 240 characters, of letters, digits and \<open>-\<close>, \<open>_\<close>, \<open>.\<close>, \<open>%\<close>, that does not start with a dot, so it
  is neither \<open>.\<close> nor \<open>..\<close> and holds no separator, and no other uid is turned into it.\<close>

theorem uid_names_its_own_directory:
  assumes "encode_component a = Inr x" and "encode_component b = Inr x"
    and "list_all is_scalar a" and "list_all is_scalar b"
  shows "a = b \<and> x \<noteq> [] \<and> length x \<le> 240 \<and> hd x \<noteq> 46 \<and>
    (\<forall>c \<in> set x. c \<in> {48..57} \<union> {65..90} \<union> {97..122} \<union> {45, 95, 46, 37})"
proof -
  have x: "x = encode_from 0 (utf8 a)" "x = encode_from 0 (utf8 b)" "utf8 a \<noteq> []" "length (utf8 a) \<le> 80"
    using assms(1,2) by (auto simp: encode_component_def Let_def MAX_STREAM_KEY_BYTES_def split: if_splits)
  then have "utf8 a = utf8 b" using encode_from_inj by metis
  then have "a = b" using from_utf8_utf8 assms(3,4) by (metis option.inject)
  moreover obtain c cs where c: "utf8 a = c # cs" using x(3) by (cases "utf8 a") auto
  have "x \<noteq> []" "hd x \<noteq> 46" unfolding x(1) c by (auto simp: plain_byte_def)
  moreover have "length x \<le> 240" using x(1,4) encode_from_length [of 0 "utf8 a"] by simp
  moreover have "\<forall>c \<in> set x. name_char c" unfolding x(1) using encode_from_chars [of 0 "utf8 a"] by (simp add: list_all_iff)
  ultimately show ?thesis by (auto simp: name_char_def plain_byte_def)
qed

theorem uid_names_its_own_directory_witness:
  "\<exists>x. encode_component (lit ''..'') = Inr x \<and> hd x \<noteq> 46"
proof -
  have "encode_component (lit ''..'') = Inr (lit ''%2E.'')"
    by (simp add: encode_component_def utf8_lit raw_def MAX_STREAM_KEY_BYTES_def plain_byte_def key_hex_digit_def)
      (simp add: lit_def)
  with uid_names_its_own_directory [OF this this] show ?thesis by (simp add: lit_def is_scalar_def)
qed

section \<open>Removing\<close>

lemma attempt_keeps: "attempt v = (l, v') \<Longrightarrow> vl_files v' = vl_files v \<and> vl_rows v' = vl_rows v \<and> (vl_luck v = [] \<longrightarrow> l = None \<and> v' = v)"
  by (auto simp: attempt_def split: list.splits)

lemma attempt_lucky [simp]: "vl_luck v = [] \<Longrightarrow> attempt v = (None, v)"
  by (simp add: attempt_def)

lemma db_read_result:
  "db_read f v = (r, v') \<Longrightarrow> vl_files v' = vl_files v \<and> vl_rows v' = vl_rows v \<and> (r = Inl IndexFailed \<or> r = Inr (f (vl_rows v))) \<and>
   (vl_luck v = [] \<longrightarrow> r = Inr (f (vl_rows v)) \<and> v' = v)"
  by (auto simp: db_read_def dest: attempt_keeps split: prod.splits option.splits)

lemma db_write_result:
  "db_write f v = (r, v') \<Longrightarrow> vl_files v' = vl_files v \<and>
   (r = Inl IndexFailed \<and> vl_rows v' = vl_rows v \<or> r = Inr (fst (f (vl_rows v))) \<and> vl_rows v' = snd (f (vl_rows v))) \<and>
   (vl_luck v = [] \<longrightarrow> r = Inr (fst (f (vl_rows v))) \<and> v' = v\<lparr>vl_rows := snd (f (vl_rows v))\<rparr>)"
  by (auto simp: db_write_def dest: attempt_keeps split: prod.splits option.splits)

text \<open>Rows of \<open>S\<close> may have gone, each with its file; a file that has gone was one of \<open>S\<close>.\<close>

definition taken :: "seg_row set \<Rightarrow> volume \<Rightarrow> volume \<Rightarrow> bool" where
  "taken S v v' \<longleftrightarrow>
     (\<exists>gone. vl_rows v' = filter (\<lambda>r. r \<notin> gone) (vl_rows v) \<and> gone \<subseteq> S \<and> (\<forall>r \<in> gone. vl_files v' (sr_path r) = None)) \<and>
     (\<forall>p. vl_files v' p = vl_files v p \<or> vl_files v' p = None \<and> p \<in> sr_path ` S)"

lemma taken_refl: "vl_rows v' = vl_rows v \<Longrightarrow> vl_files v' = vl_files v \<Longrightarrow> taken S v v'"
  unfolding taken_def by (intro conjI exI [of _ "{}"]) simp_all

lemma taken_trans:
  assumes "taken S v v1" and "taken S v1 v2"
  shows "taken S v v2"
proof -
  obtain g h where g: "vl_rows v1 = filter (\<lambda>r. r \<notin> g) (vl_rows v)" "g \<subseteq> S" "\<forall>r \<in> g. vl_files v1 (sr_path r) = None"
    and h: "vl_rows v2 = filter (\<lambda>r. r \<notin> h) (vl_rows v1)" "h \<subseteq> S" "\<forall>r \<in> h. vl_files v2 (sr_path r) = None"
    and f: "\<forall>p. vl_files v2 p = vl_files v1 p \<or> vl_files v2 p = None \<and> p \<in> sr_path ` S"
      "\<forall>p. vl_files v1 p = vl_files v p \<or> vl_files v1 p = None \<and> p \<in> sr_path ` S"
    using assms unfolding taken_def by blast
  have "vl_rows v2 = filter (\<lambda>r. r \<notin> g \<union> h) (vl_rows v)" by (auto simp: g(1) h(1) intro: filter_cong)
  moreover have "\<forall>r \<in> g \<union> h. vl_files v2 (sr_path r) = None" using g(3) h(3) f(1) by (metis UnE)
  moreover have "\<forall>p. vl_files v2 p = vl_files v p \<or> vl_files v2 p = None \<and> p \<in> sr_path ` S" using f by metis
  ultimately show ?thesis unfolding taken_def using g(2) h(2) by (intro conjI exI [of _ "g \<union> h"]) auto
qed

lemma taken_mono: "taken S v v' \<Longrightarrow> S \<subseteq> T \<Longrightarrow> taken T v v'"
  unfolding taken_def by (metis (no_types, lifting) image_mono subset_iff)

lemma unlink_batch_result:
  "unlink_batch rows gone v = (gone', v') \<Longrightarrow>
   vl_rows v' = vl_rows v \<and> (\<exists>xs. gone' = gone @ map sr_id xs \<and> set xs \<subseteq> set rows \<and> (\<forall>x \<in> set xs. vl_files v' (sr_path x) = None)) \<and>
   (\<forall>p. vl_files v' p = vl_files v p \<or> vl_files v' p = None \<and> p \<in> sr_path ` set rows) \<and>
   (vl_luck v = [] \<longrightarrow> vl_luck v' = [] \<and> gone' = gone @ map sr_id rows)"
proof (induction rows arbitrary: gone v)
  case Nil
  then show ?case by simp
next
  case (Cons r rows)
  obtain ok v1 where f: "fs_remove (sr_path r) v = (ok, v1)" by force
  then have v1: "vl_rows v1 = vl_rows v" "vl_files v1 = (if ok then (vl_files v)(sr_path r := None) else vl_files v)"
    "vl_luck v = [] \<longrightarrow> ok \<and> vl_luck v1 = []"
    by (auto simp: fs_remove_def dest: attempt_keeps split: prod.splits option.splits)
  let ?gone = "gone @ (if ok then [sr_id r] else [])"
  have u: "unlink_batch rows ?gone v1 = (gone', v')" using Cons.prems f by (cases ok) simp_all
  note IH = Cons.IH [OF u]
  from IH obtain xs where xs: "gone' = ?gone @ map sr_id xs" "set xs \<subseteq> set rows" "\<forall>x \<in> set xs. vl_files v' (sr_path x) = None" by blast
  let ?xs = "(if ok then [r] else []) @ xs"
  have files: "\<forall>p. vl_files v' p = vl_files v1 p \<or> vl_files v' p = None \<and> p \<in> sr_path ` set rows" using IH by blast
  have "gone' = gone @ map sr_id ?xs" "set ?xs \<subseteq> set (r # rows)" using xs(1,2) by auto
  moreover have "\<forall>x \<in> set ?xs. vl_files v' (sr_path x) = None"
  proof -
    have "vl_files v' (sr_path r) = None" if ok using files that v1(2) by (metis fun_upd_same)
    with xs(3) show ?thesis by auto
  qed
  moreover have "\<forall>p. vl_files v' p = vl_files v p \<or> vl_files v' p = None \<and> p \<in> sr_path ` set (r # rows)"
  proof
    fix p
    show "vl_files v' p = vl_files v p \<or> vl_files v' p = None \<and> p \<in> sr_path ` set (r # rows)"
      using files [rule_format, of p] v1(2) by (cases "p = sr_path r"; cases ok) auto
  qed
  moreover have "vl_luck v = [] \<longrightarrow> vl_luck v' = [] \<and> gone' = gone @ map sr_id (r # rows)"
    using IH v1(3) by auto
  ultimately show ?case using IH v1(1) by (intro conjI exI [of _ ?xs]) simp_all
qed

lemma delete_many_result:
  assumes "segments_delete_many (map sr_id xs) v = (r, v')" and "inj_on sr_id U" and "set xs \<subseteq> U" and "set (vl_rows v) \<subseteq> U"
  shows "vl_files v' = vl_files v \<and> (r = Inl IndexFailed \<and> vl_rows v' = vl_rows v \<or>
      vl_rows v' = filter (\<lambda>r. r \<notin> set xs) (vl_rows v) \<and> r = Inr (length (vl_rows v) - length (vl_rows v'))) \<and>
    (vl_luck v = [] \<longrightarrow> vl_luck v' = [] \<and> vl_rows v' = filter (\<lambda>r. r \<notin> set xs) (vl_rows v) \<and> (\<exists>n. r = Inr n))"
proof (cases "xs = []")
  case True
  then show ?thesis using assms(1) by (auto simp: segments_delete_many_def)
next
  case False
  with assms(1) have w: "db_write (delete_rows (map sr_id xs)) v = (r, v')" by (simp add: segments_delete_many_def)
  have mem: "sr_id q \<in> set (map sr_id xs) \<longleftrightarrow> q \<in> set xs" if "q \<in> set (vl_rows v)" for q
    using inj_onD [OF assms(2), of q] assms(3,4) that by auto
  have d: "delete_rows (map sr_id xs) (vl_rows v) = (length (filter (\<lambda>r. r \<in> set xs) (vl_rows v)), filter (\<lambda>r. r \<notin> set xs) (vl_rows v))"
    unfolding delete_rows_def using mem by (auto intro!: arg_cong [where f = length] filter_cong)
  have "length (filter (\<lambda>r. r \<in> set xs) (vl_rows v)) = length (vl_rows v) - length (filter (\<lambda>r. r \<notin> set xs) (vl_rows v))"
    using sum_length_filter_compl [of "\<lambda>r. r \<in> set xs" "vl_rows v"] by simp
  with db_write_result [OF w] d show ?thesis by auto
qed

lemma taken_rows: "taken S v v' \<Longrightarrow> set (vl_rows v') \<subseteq> set (vl_rows v) \<and> length (vl_rows v') \<le> length (vl_rows v)"
  by (auto simp: taken_def)

lemma remove_batches_result:
  "remove_batches rows removed v = (r, v') \<Longrightarrow> inj_on sr_id U \<Longrightarrow> set rows \<subseteq> U \<Longrightarrow> set (vl_rows v) \<subseteq> U \<Longrightarrow>
   taken (set rows) v v' \<and> (\<forall>n. r = Inr n \<longrightarrow> n = removed + (length (vl_rows v) - length (vl_rows v'))) \<and>
   (vl_luck v = [] \<longrightarrow> vl_luck v' = [] \<and> (\<exists>n. r = Inr n) \<and> vl_rows v' = filter (\<lambda>r. r \<notin> set rows) (vl_rows v))"
proof (induction rows removed v rule: remove_batches.induct)
  case (1 rows removed v)
  show ?case
  proof (cases "rows = []")
    case True
    with 1(2) show ?thesis by (auto simp: remove_batches.simps [of "[]"] intro: taken_refl)
  next
    case False
    let ?now = "take REMOVE_BATCH rows" and ?later = "drop REMOVE_BATCH rows"
    have sub: "set ?now \<subseteq> set rows" "set ?later \<subseteq> set rows" by (simp_all add: set_take_subset set_drop_subset)
    obtain gone v1 where u: "unlink_batch ?now [] v = (gone, v1)" by force
    note ur = unlink_batch_result [OF u]
    then obtain xs where xs: "gone = map sr_id xs" "set xs \<subseteq> set ?now" "\<forall>x \<in> set xs. vl_files v1 (sr_path x) = None" by auto
    obtain q v2 where d: "segments_delete_many (map sr_id xs) v1 = (q, v2)" by force
    have U1: "set xs \<subseteq> U" "set (vl_rows v1) \<subseteq> U" using xs(2) sub 1(4,5) ur by auto
    note dr = delete_many_result [OF d 1(3) U1]
    have t: "taken (set rows) v v2"
    proof -
      from dr ur have "vl_rows v2 = filter (\<lambda>r. r \<notin> {}) (vl_rows v) \<or> vl_rows v2 = filter (\<lambda>r. r \<notin> set xs) (vl_rows v)" by auto
      then obtain gs where gs: "vl_rows v2 = filter (\<lambda>r. r \<notin> gs) (vl_rows v)" "gs \<subseteq> set xs" by blast
      have files: "vl_files v2 = vl_files v1" "\<forall>p. vl_files v1 p = vl_files v p \<or> vl_files v1 p = None \<and> p \<in> sr_path ` set ?now"
        using dr ur by simp_all
      then have "\<forall>p. vl_files v2 p = vl_files v p \<or> vl_files v2 p = None \<and> p \<in> sr_path ` set rows"
        using sub(1) by (metis (no_types, lifting) image_mono subset_eq)
      moreover have "gs \<subseteq> set rows" "\<forall>r \<in> gs. vl_files v2 (sr_path r) = None" using gs(2) xs sub(1) files(1) by auto
      ultimately show ?thesis unfolding taken_def using gs(1) by blast
    qed
    have step: "remove_batches rows removed v =
        (case q of Inl er \<Rightarrow> (Inl er, v2) | Inr n \<Rightarrow> remove_batches ?later (removed + n) v2)"
      using False u d xs(1) by (subst remove_batches.simps) (simp split: sum.split)
    show ?thesis
    proof (cases q)
      case (Inl er)
      with step 1(2) have "r = Inl er" "v' = v2" by simp_all
      with t Inl dr ur show ?thesis by auto
    next
      case (Inr n)
      have rows2: "set (vl_rows v2) \<subseteq> U" "length (vl_rows v2) \<le> length (vl_rows v)" using taken_rows [OF t] 1(5) by auto
      have rest: "remove_batches ?later (removed + n) v2 = (r, v')" using step Inr 1(2) by simp
      have later: "set ?later \<subseteq> U" using sub(2) 1(4) by blast
      note IH = 1(1) [OF False u [symmetric] d [unfolded Inr, folded xs(1), symmetric] refl rest 1(3) later rows2(1)]
      have "taken (set rows) v v'" using taken_trans [OF t taken_mono [OF _ sub(2)]] IH by blast
      moreover have n: "n = length (vl_rows v) - length (vl_rows v2)" using dr ur Inr by auto
      have "m = removed + (length (vl_rows v) - length (vl_rows v'))" if "r = Inr m" for m
        using IH that n rows2(2) taken_rows [of "set ?later" v2 v'] by simp
      moreover have "vl_luck v' = [] \<and> (\<exists>n. r = Inr n) \<and> vl_rows v' = filter (\<lambda>r. r \<notin> set rows) (vl_rows v)" if "vl_luck v = []"
      proof -
        have "map sr_id xs = map sr_id ?now" "vl_luck v1 = []" using ur that xs(1) by simp_all
        then have "set xs = set ?now"
          using 1(3,4) xs(2) sub(1) by (metis (no_types, opaque_lifting) inj_on_image_eq_iff list.set_map subset_trans)
        moreover have "vl_luck v2 = []" "vl_rows v2 = filter (\<lambda>r. r \<notin> set xs) (vl_rows v)"
          using dr ur \<open>vl_luck v1 = []\<close> by simp_all
        moreover have "set rows = set ?now \<union> set ?later" by (metis append_take_drop_id set_append)
        ultimately show ?thesis using IH by simp
      qed
      ultimately show ?thesis by blast
    qed
  qed
qed

section \<open>Pages\<close>

lemma take_within_prefix: "\<exists>n. take_within rows excess weight running = take n rows"
proof (induction rows arbitrary: running)
  case (Cons r rows)
  from Cons [of "running + weight r"] obtain n where "take_within rows excess weight (running + weight r) = take n rows" by blast
  then show ?case by (cases "excess < running + weight r") (auto simp: Let_def intro: exI [of _ 0] exI [of _ "Suc n"])
qed (simp add: exI)

lemma take_within_weight:
  "running \<le> excess \<Longrightarrow> running + sum_list (map weight (take_within rows excess weight running)) \<le> excess"
proof (induction rows arbitrary: running)
  case (Cons r rows)
  then show ?case using Cons.IH [of "running + weight r"] by (simp add: Let_def add.assoc)
qed simp

lemma set_oldest: "set (oldest_rows P limit rows) \<subseteq> {r \<in> set rows. sr_sealed r \<and> P r}"
  using set_take_subset [of limit "sort_key sr_last (filter (\<lambda>r. sr_sealed r \<and> P r) rows)"] by (auto simp: oldest_rows_def)

lemma distinct_oldest: "distinct rows \<Longrightarrow> distinct (oldest_rows P limit rows)"
  by (simp add: oldest_rows_def)

lemma take_within_set: "set (take_within rows excess weight running) \<subseteq> set rows"
  using take_within_prefix [of rows excess weight running] set_take_subset by metis

lemma take_within_distinct: "distinct rows \<Longrightarrow> distinct (take_within rows excess weight running)"
  using take_within_prefix [of rows excess weight running] by (metis distinct_take)

text \<open>
  What a limit may remove: only finished segments, past their age, or, of a kind or stream that is over
  its cap, those for which the cap is still held once they and everything older have gone.
\<close>

definition sweep_order :: "(seg_row \<Rightarrow> bool) \<Rightarrow> seg_row list \<Rightarrow> seg_row list" where
  "sweep_order P rows = sort_key sr_last (filter (\<lambda>r. sr_sealed r \<and> P r) rows)"

definition held_of :: "(seg_row \<Rightarrow> bool) \<Rightarrow> (seg_row \<Rightarrow> nat) \<Rightarrow> seg_row list \<Rightarrow> nat" where
  "held_of P weight rows = sum_list (map weight (filter P rows))"

definition through :: "'a \<Rightarrow> 'a list \<Rightarrow> 'a list" where
  "through q xs = takeWhile (\<lambda>r. r \<noteq> q) xs @ [q]"

definition spare :: "nat \<Rightarrow> (seg_row \<Rightarrow> bool) \<Rightarrow> (seg_row \<Rightarrow> nat) \<Rightarrow> seg_row list \<Rightarrow> seg_row \<Rightarrow> bool" where
  "spare cap P weight rows r \<longleftrightarrow> sr_sealed r \<and> P r \<and> cap < held_of P weight rows \<and>
     cap + sum_list (map weight (through r (sweep_order P rows))) \<le> held_of P weight rows"

fun may_go :: "surplus \<Rightarrow> seg_row list \<Rightarrow> seg_row \<Rightarrow> bool" where
  "may_go (ExpiredBefore before) rows r \<longleftrightarrow> sr_sealed r \<and> sr_last r < ts_from before"
| "may_go (OverRowCap kind cap) rows r \<longleftrightarrow> spare cap (\<lambda>q. sr_kind q = kind \<and> sr_key q = sr_key r) sr_records rows r"
| "may_go (OverByteCap kind cap) rows r \<longleftrightarrow> spare cap (\<lambda>q. sr_kind q = kind) sr_bytes rows r"

lemma oldest_sweep: "oldest_rows P limit rows = take limit (sweep_order P rows)"
  by (simp add: oldest_rows_def sweep_order_def)

lemma set_sweep [simp]: "set (sweep_order P rows) = {r \<in> set rows. sr_sealed r \<and> P r}"
  by (simp add: sweep_order_def)

lemma distinct_sweep: "distinct rows \<Longrightarrow> distinct (sweep_order P rows)"
  by (simp add: sweep_order_def)

lemma filter_sweep: "filter Q (sweep_order P rows) = sweep_order P (filter Q rows)"
  unfolding sweep_order_def filter_sort by (simp add: conj_commute)

lemma sum_sort: "sum_list (map w (sort_key f xs)) = sum_list (map w xs)" for w :: "'a \<Rightarrow> nat"
proof -
  have "sum_list (map w (insort_key f x ys)) = w x + sum_list (map w ys)" for x ys by (induction ys) auto
  then show ?thesis by (induction xs) simp_all
qed

lemma sum_filter_split: "sum_list (map w xs) = sum_list (map w (filter Q xs)) + sum_list (map w (filter (\<lambda>x. \<not> Q x) xs))"
  for w :: "'a \<Rightarrow> nat"
  by (induction xs) simp_all

lemma sum_filter_le: "sum_list (map w (filter Q xs)) \<le> sum_list (map w xs)" for w :: "'a \<Rightarrow> nat"
  using sum_filter_split [of w xs Q] by simp

lemma through_filter: "Q q \<Longrightarrow> through q (filter Q xs) = filter Q (through q xs)"
  by (induction xs) (auto simp: through_def)

lemma through_sum: "q \<in> set xs \<Longrightarrow> sum_list (map w (filter Q (through q xs))) \<le> sum_list (map w (filter Q xs))" for w :: "'a \<Rightarrow> nat"
  by (induction xs) (auto simp: through_def)

lemma through_sum_all: "q \<in> set xs \<Longrightarrow> sum_list (map w (through q xs)) \<le> sum_list (map w xs)" for w :: "'a \<Rightarrow> nat"
  using through_sum [of q xs w "\<lambda>_. True"] by simp

lemma through_take: "q \<in> set (take n xs) \<Longrightarrow> through q (take n xs) = through q xs"
  unfolding through_def using takeWhile_append1 [of q "take n xs" "\<lambda>r. r \<noteq> q" "drop n xs"] by simp

text \<open>What may go once other segments have gone could go before.\<close>

lemma spare_later:
  assumes "spare cap P w (filter Q rows) r" and "r \<in> set rows" and "Q r"
  shows "spare cap P w rows r"
proof -
  let ?xs = "sweep_order P rows"
  have r: "sr_sealed r" "P r" "cap < held_of P w (filter Q rows)"
    "cap + sum_list (map w (through r (sweep_order P (filter Q rows)))) \<le> held_of P w (filter Q rows)"
    using assms(1) by (simp_all add: spare_def)
  have "sum_list (map w (through r ?xs)) =
      sum_list (map w (through r (sweep_order P (filter Q rows)))) + sum_list (map w (filter (\<lambda>q. \<not> Q q) (through r ?xs)))"
    using sum_filter_split [of w "through r ?xs" Q] through_filter [of Q r ?xs, OF assms(3)] by (simp add: filter_sweep)
  also have "sum_list (map w (filter (\<lambda>q. \<not> Q q) (through r ?xs))) \<le> sum_list (map w (filter (\<lambda>q. \<not> Q q) ?xs))"
    by (rule through_sum) (use assms(2) r in simp)
  also have "\<dots> = sum_list (map w (filter sr_sealed (filter (\<lambda>q. \<not> Q q) (filter P rows))))"
    unfolding filter_sweep unfolding sweep_order_def sum_sort by (simp add: conj_ac)
  also have "\<dots> \<le> sum_list (map w (filter (\<lambda>q. \<not> Q q) (filter P rows)))"
    by (rule sum_filter_le)
  finally have "sum_list (map w (through r ?xs)) \<le>
      sum_list (map w (through r (sweep_order P (filter Q rows)))) + sum_list (map w (filter (\<lambda>q. \<not> Q q) (filter P rows)))" by simp
  moreover have "held_of P w rows = held_of P w (filter Q rows) + sum_list (map w (filter (\<lambda>q. \<not> Q q) (filter P rows)))"
    using sum_filter_split [of w "filter P rows" Q] by (simp add: held_of_def conj_commute)
  ultimately show ?thesis using r by (simp add: spare_def)
qed

lemma may_go_later:
  "may_go which (filter Q rows) r \<Longrightarrow> r \<in> set (filter Q rows) \<Longrightarrow> may_go which rows r"
  by (cases which) (auto intro: spare_later)

lemma may_go_sealed: "may_go which rows r \<Longrightarrow> sr_sealed r"
  by (cases which) (auto simp: spare_def)

text \<open>A page takes what may go, and all of it when it is not full.\<close>

lemma take_within_stop:
  "\<exists>n \<le> length rows. take_within rows excess weight running = take n rows \<and>
     (n < length rows \<longrightarrow> excess < running + sum_list (map weight (take (Suc n) rows)))"
proof (induction rows arbitrary: running)
  case (Cons r rows)
  show ?case
  proof (cases "excess < running + weight r")
    case True
    then show ?thesis by (intro exI [of _ 0]) simp
  next
    case False
    from Cons [of "running + weight r"] obtain n where "n \<le> length rows"
      "take_within rows excess weight (running + weight r) = take n rows"
      "n < length rows \<longrightarrow> excess < running + weight r + sum_list (map weight (take (Suc n) rows))" by blast
    with False show ?thesis by (intro exI [of _ "Suc n"]) (simp add: Let_def add.assoc)
  qed
qed simp

lemma within_spare:
  assumes "q \<in> set (take_within (oldest_rows P limit rows) (held_of P w rows - cap) w 0)" and "cap < held_of P w rows"
  shows "spare cap P w rows q"
proof -
  let ?ys = "take_within (oldest_rows P limit rows) (held_of P w rows - cap) w 0"
  obtain n where "?ys = take n (oldest_rows P limit rows)" using take_within_prefix by blast
  then have n: "?ys = take (min n limit) (sweep_order P rows)" by (simp add: oldest_sweep)
  have "sum_list (map w (through q (sweep_order P rows))) = sum_list (map w (through q ?ys))"
    unfolding n using assms(1) by (subst through_take) (simp_all add: n)
  also have "\<dots> \<le> sum_list (map w ?ys)" by (rule through_sum_all [OF assms(1)])
  also have "\<dots> \<le> held_of P w rows - cap" using take_within_weight [of 0 "held_of P w rows - cap" w "oldest_rows P limit rows"] by simp
  finally show ?thesis
    using assms set_mp [OF order_trans [OF take_within_set set_oldest] assms(1)] by (simp add: spare_def)
qed

lemma within_all:
  assumes "ys = take_within (oldest_rows P limit rows) (held_of P w rows - cap) w 0" and "cap < held_of P w rows"
    and "length ys < limit" and "distinct rows" and "\<And>r. r \<in> set rows \<Longrightarrow> P r \<Longrightarrow> Q r \<longleftrightarrow> r \<notin> set ys" and "q \<in> set (filter Q rows)"
  shows "\<not> spare cap P w (filter Q rows) q"
proof
  let ?xs = "sweep_order P rows" and ?e = "held_of P w rows - cap"
  assume s: "spare cap P w (filter Q rows) q"
  then have q: "sr_sealed q" "P q" by (simp_all add: spare_def)
  obtain n where n: "n \<le> length (take limit ?xs)" "take_within (take limit ?xs) ?e w 0 = take n (take limit ?xs)"
    "n < length (take limit ?xs) \<longrightarrow> ?e < 0 + sum_list (map w (take (Suc n) (take limit ?xs)))"
    using take_within_stop by blast
  then have ys: "ys = take n (take limit ?xs)" by (simp add: assms(1) oldest_sweep)
  with n(1) assms(3) have "n < limit" by auto
  with ys have n': "n < limit" "ys = take n ?xs" by simp_all
  have d: "distinct ?xs" using assms(4) by (rule distinct_sweep)
  have left: "sweep_order P (filter Q rows) = drop n ?xs"
  proof -
    have "sweep_order P (filter Q rows) = filter (\<lambda>r. r \<notin> set ys) ?xs"
      unfolding filter_sweep [symmetric] using assms(5) by (intro filter_cong) auto
    also have "\<dots> = filter (\<lambda>r. r \<notin> set ys) (take n ?xs @ drop n ?xs)" by simp
    also have "\<dots> = drop n ?xs" unfolding filter_append n'(2)
      using set_take_disj_set_drop_if_distinct [OF d, of n n] by (auto intro!: filter_True filter_False)
    finally show ?thesis .
  qed
  have "q \<in> set (drop n ?xs)" using assms(6) q unfolding left [symmetric] by simp
  then have len: "n < length ?xs" by (cases "n < length ?xs") auto
  then obtain x rest where x: "drop n ?xs = x # rest" "take (Suc n) ?xs = take n ?xs @ [x]"
    by (metis Cons_nth_drop_Suc take_Suc_conv_app_nth)
  have "w x \<le> sum_list (map w (through q (drop n ?xs)))" unfolding x by (auto simp: through_def)
  moreover have "?e < sum_list (map w ys) + w x" using n(3) len n'(1) x(2) by (simp add: n'(2))
  moreover have "held_of P w rows = held_of P w (filter Q rows) + sum_list (map w ys)"
  proof -
    have "held_of P w rows = held_of P w (filter Q rows) + sum_list (map w (filter (\<lambda>q. \<not> Q q) (filter P rows)))"
      using sum_filter_split [of w "filter P rows" Q] by (simp add: held_of_def conj_commute)
    moreover have ys: "set ys \<subseteq> {r \<in> set rows. P r}" using set_take_subset [of n ?xs] by (auto simp: n'(2))
    have "sum_list (map w (filter (\<lambda>q. \<not> Q q) (filter P rows))) = sum w (set (filter (\<lambda>q. \<not> Q q) (filter P rows)))"
      using assms(4) by (simp add: sum_list_distinct_conv_sum_set)
    moreover have "set (filter (\<lambda>q. \<not> Q q) (filter P rows)) = set ys" using ys assms(5) by auto
    moreover have "sum w (set ys) = sum_list (map w ys)" using d n'(2) by (simp add: sum_list_distinct_conv_sum_set)
    ultimately show ?thesis by simp
  qed
  moreover have "cap + sum_list (map w (through q (drop n ?xs))) \<le> held_of P w (filter Q rows)" using s by (simp add: spare_def left)
  ultimately show False using assms(2) by linarith
qed

lemma over_cap_iff:
  "(key, held) \<in> set (over_cap_streams kind cap rows) \<longleftrightarrow>
     held = held_of (\<lambda>q. sr_kind q = kind \<and> sr_key q = key) sr_records rows \<and> cap < held"
proof -
  have "\<exists>q \<in> set rows. sr_kind q = kind \<and> sr_key q = key" if "0 < held_of (\<lambda>q. sr_kind q = kind \<and> sr_key q = key) sr_records rows"
  proof (rule ccontr)
    assume "\<not> ?thesis"
    then have "filter (\<lambda>q. sr_kind q = kind \<and> sr_key q = key) rows = []" by (simp add: filter_empty_conv)
    with that show False by (simp add: held_of_def)
  qed
  moreover have "filter (\<lambda>r. sr_key r = key) (filter (\<lambda>r. sr_kind r = kind) rows) = filter (\<lambda>q. sr_kind q = kind \<and> sr_key q = key) rows" for key
    by simp
  then have "(key, held) \<in> set (over_cap_streams kind cap rows) \<longleftrightarrow>
      cap < held \<and> held = held_of (\<lambda>q. sr_kind q = kind \<and> sr_key q = key) sr_records rows \<and> (\<exists>q \<in> set rows. sr_kind q = kind \<and> sr_key q = key)"
    unfolding over_cap_streams_def Let_def held_of_def by (auto simp del: filter_filter)
  ultimately show ?thesis by auto
qed

lemma over_cap_distinct: "distinct (map fst (over_cap_streams kind cap rows))"
proof -
  have "distinct (map fst (map (\<lambda>key. (key, f key)) (sort (remdups keys))))" for f :: "ustr \<Rightarrow> nat" and keys
    by (simp add: comp_def)
  then show ?thesis unfolding over_cap_streams_def Let_def by (rule distinct_map_filter)
qed

text \<open>What the loop over the streams takes, stream by stream, and that a page it does not fill cuts none of them short.\<close>

lemma row_cap_loop_spare:
  "(\<And>key held. (key, held) \<in> set streams \<Longrightarrow>
      held = held_of (\<lambda>q. sr_kind q = kind \<and> sr_key q = key) sr_records rows \<and> cap < held) \<Longrightarrow>
   q \<in> set (row_cap_loop kind cap limit rows streams surplus) \<Longrightarrow>
   q \<in> set surplus \<or> q \<in> set rows \<and> may_go (OverRowCap kind cap) rows q"
proof (induction streams arbitrary: surplus)
  case (Cons s streams)
  obtain key held where s: "s = (key, held)" by force
  let ?P = "\<lambda>q. sr_kind q = kind \<and> sr_key q = key"
  let ?new = "take_within (oldest_rows ?P (limit - length surplus) rows) (held - cap) sr_records 0"
  have h: "held = held_of ?P sr_records rows" "cap < held" using Cons.prems(1) [of key held] s by simp_all
  have new: "q \<in> set rows \<and> may_go (OverRowCap kind cap) rows q" if "q \<in> set ?new"
  proof -
    have "spare cap ?P sr_records rows q" using that h by (intro within_spare) simp_all
    then show ?thesis using set_mp [OF order_trans [OF take_within_set set_oldest] that] by auto
  qed
  show ?case
    using Cons.IH [of "surplus @ ?new"] Cons.prems new s by (auto split: if_splits)
qed simp

lemma row_cap_loop_stream:
  "distinct (map fst streams) \<Longrightarrow> length (row_cap_loop kind cap limit rows streams surplus) < limit \<Longrightarrow>
   (key, held) \<in> set streams \<Longrightarrow> filter (\<lambda>q. sr_kind q = kind \<and> sr_key q = key) surplus = [] \<Longrightarrow>
   \<exists>room ys. ys = take_within (oldest_rows (\<lambda>q. sr_kind q = kind \<and> sr_key q = key) room rows) (held - cap) sr_records 0 \<and>
     length ys < room \<and>
     filter (\<lambda>q. sr_kind q = kind \<and> sr_key q = key) (row_cap_loop kind cap limit rows streams surplus) = ys"
proof (induction streams arbitrary: surplus)
  case (Cons s streams)
  obtain k h where s: "s = (k, h)" by force
  let ?P = "\<lambda>k q. sr_kind q = kind \<and> sr_key q = k"
  let ?new = "take_within (oldest_rows (?P k) (limit - length surplus) rows) (h - cap) sr_records 0"
  have grow: "length sp \<le> length (row_cap_loop kind cap limit rows ss sp)" for ss sp
  proof (induction ss arbitrary: sp)
    case (Cons t ss)
    obtain a b where "t = (a, b)" by force
    moreover have "length sp \<le> length (row_cap_loop kind cap limit rows ss (sp @ new))" for new using Cons.IH [of "sp @ new"] by simp
    ultimately show ?case by simp
  qed simp
  have other: "filter (?P key) (row_cap_loop kind cap limit rows ss sp) = filter (?P key) sp" if "key \<notin> fst ` set ss" for ss sp
    using that
  proof (induction ss arbitrary: sp)
    case (Cons t ss)
    obtain a b where t: "t = (a, b)" by force
    have "filter (?P key) (take_within (oldest_rows (?P a) (limit - length sp) rows) (b - cap) sr_records 0) = []"
      using order_trans [OF take_within_set set_oldest, of "?P a" "limit - length sp" rows "b - cap" sr_records 0] Cons.prems t
      by (fastforce simp: filter_empty_conv)
    with Cons t show ?case by simp
  qed simp
  have room: "length surplus < limit"
    using grow [of surplus "s # streams"] Cons.prems(2) by simp
  then have loop: "row_cap_loop kind cap limit rows (s # streams) surplus = row_cap_loop kind cap limit rows streams (surplus @ ?new)"
    by (simp add: s)
  have new: "set ?new \<subseteq> {q. ?P k q}" using order_trans [OF take_within_set set_oldest] by blast
  show ?case
  proof (cases "k = key")
    case True
    then have "key \<notin> fst ` set streams" "held = h" using Cons.prems(1,3) s by (auto simp: image_iff)
    have "filter (?P key) ?new = ?new" using new True by (intro filter_True) auto
    moreover have "length (surplus @ ?new) < limit" using grow [of "surplus @ ?new" streams] Cons.prems(2) unfolding loop by simp
    ultimately show ?thesis unfolding loop
      using other [OF \<open>key \<notin> fst ` set streams\<close>] Cons.prems(4) True \<open>held = h\<close>
      by (intro exI [of _ "limit - length surplus"] exI [of _ ?new]) simp
  next
    case False
    then have "filter (?P key) (surplus @ ?new) = []" using Cons.prems(4) new by (auto simp: filter_empty_conv)
    then show ?thesis
      using Cons.IH [of "surplus @ ?new"] Cons.prems(1-3) False s unfolding loop by auto
  qed
qed simp

lemma surplus_page_result:
  assumes "surplus_page which limit v = (r, v')"
  shows "vl_rows v' = vl_rows v \<and> vl_files v' = vl_files v \<and> (vl_luck v = [] \<longrightarrow> v' = v \<and> (\<exists>rows. r = Inr rows)) \<and>
    (\<forall>rows. r = Inr rows \<longrightarrow> set rows \<subseteq> {q \<in> set (vl_rows v). may_go which (vl_rows v) q})"
proof (cases which)
  case (ExpiredBefore before)
  with assms have "db_read (oldest_rows (\<lambda>r. sr_last r < ts_from before) limit) v = (r, v')"
    by (simp add: segments_expired_before_def)
  from db_read_result [OF this] set_oldest [of "\<lambda>r. sr_last r < ts_from before" limit "vl_rows v"] show ?thesis
    using ExpiredBefore by auto
next
  case (OverRowCap kind cap)
  with assms have "db_read (\<lambda>rows. row_cap_loop kind cap limit rows (over_cap_streams kind cap rows) []) v = (r, v')"
    by (simp add: segments_over_row_cap_def)
  from db_read_result [OF this] row_cap_loop_spare [of "over_cap_streams kind cap (vl_rows v)" kind "vl_rows v" cap _ limit "[]"]
  show ?thesis using OverRowCap by (fastforce simp: over_cap_iff)
next
  case (OverByteCap kind cap)
  let ?P = "\<lambda>r. sr_kind r = kind"
  let ?f = "\<lambda>rows. let held = sum_list (map sr_bytes (filter ?P rows)); excess = held - cap
     in if 0 < excess then take_within (oldest_rows ?P limit rows) excess sr_bytes 0 else []"
  from OverByteCap assms have "db_read ?f v = (r, v')" by (simp add: segments_over_byte_cap_def)
  moreover have "set (?f (vl_rows v)) \<subseteq> {q \<in> set (vl_rows v). spare cap ?P sr_bytes (vl_rows v) q}"
  proof
    fix q assume q: "q \<in> set (?f (vl_rows v))"
    have f: "?f (vl_rows v) = (if cap < held_of ?P sr_bytes (vl_rows v)
        then take_within (oldest_rows ?P limit (vl_rows v)) (held_of ?P sr_bytes (vl_rows v) - cap) sr_bytes 0 else [])"
      by (simp add: Let_def held_of_def)
    then have "cap < held_of ?P sr_bytes (vl_rows v)"
      "q \<in> set (take_within (oldest_rows ?P limit (vl_rows v)) (held_of ?P sr_bytes (vl_rows v) - cap) sr_bytes 0)"
      using q by (auto split: if_splits)
    with within_spare [OF this(2,1)] set_mp [OF order_trans [OF take_within_set set_oldest] this(2)]
    show "q \<in> {q \<in> set (vl_rows v). spare cap ?P sr_bytes (vl_rows v) q}" by simp
  qed
  ultimately show ?thesis using db_read_result [of ?f v r v'] OverByteCap by auto
qed

text \<open>A page that is not full, once gone, leaves nothing that may go.\<close>

lemma page_leaves_nothing:
  assumes p: "surplus_page which k v = (Inr rows, v')" and "length rows < k" and "distinct (vl_rows v)"
    and "q \<in> set (filter (\<lambda>r. r \<notin> set rows) (vl_rows v))"
  shows "\<not> may_go which (filter (\<lambda>r. r \<notin> set rows) (vl_rows v)) q"
proof (cases which)
  case (ExpiredBefore before)
  with p have "rows = oldest_rows (\<lambda>r. sr_last r < ts_from before) k (vl_rows v)"
    using db_read_result [of _ v "Inr rows" v'] by (fastforce simp: segments_expired_before_def)
  with assms(2) have "rows = sort_key sr_last (filter (\<lambda>r. sr_sealed r \<and> sr_last r < ts_from before) (vl_rows v))"
    by (auto simp: oldest_rows_def)
  with assms(4) ExpiredBefore show ?thesis by auto
next
  case (OverRowCap kind cap)
  let ?P = "\<lambda>r. sr_kind r = kind \<and> sr_key r = sr_key q" and ?Q = "\<lambda>r. r \<notin> set rows"
  have rows: "rows = row_cap_loop kind cap k (vl_rows v) (over_cap_streams kind cap (vl_rows v)) []"
    using p OverRowCap db_read_result by (fastforce simp: segments_over_row_cap_def)
  show ?thesis
  proof (cases "cap < held_of ?P sr_records (vl_rows v)")
    case True
    then have "(sr_key q, held_of ?P sr_records (vl_rows v)) \<in> set (over_cap_streams kind cap (vl_rows v))"
      by (simp add: over_cap_iff)
    from row_cap_loop_stream [OF over_cap_distinct _ this, of kind cap k "vl_rows v" "[]"] rows assms(2)
    obtain room ys where ys: "ys = take_within (oldest_rows ?P room (vl_rows v)) (held_of ?P sr_records (vl_rows v) - cap) sr_records 0"
      "length ys < room" "filter ?P rows = ys" by auto
    have "?Q r \<longleftrightarrow> r \<notin> set ys" if "?P r" for r using that ys(3) by auto
    from within_all [OF ys(1) True ys(2) assms(3) this assms(4)] show ?thesis using OverRowCap by simp
  next
    case False
    have "held_of ?P sr_records (filter ?Q (vl_rows v)) \<le> held_of ?P sr_records (vl_rows v)"
      using sum_filter_le [of sr_records ?Q "filter ?P (vl_rows v)"] by (simp add: held_of_def conj_commute)
    with False OverRowCap show ?thesis by (simp add: spare_def)
  qed
next
  case (OverByteCap kind cap)
  let ?P = "\<lambda>r. sr_kind r = kind" and ?Q = "\<lambda>r. r \<notin> set rows"
  let ?h = "held_of ?P sr_bytes (vl_rows v)"
  have rows: "rows = (if cap < ?h then take_within (oldest_rows ?P k (vl_rows v)) (?h - cap) sr_bytes 0 else [])"
    using p OverByteCap db_read_result by (fastforce simp: segments_over_byte_cap_def Let_def held_of_def)
  show ?thesis
  proof (cases "cap < ?h")
    case True
    with rows have "rows = take_within (oldest_rows ?P k (vl_rows v)) (?h - cap) sr_bytes 0" by simp
    from within_all [OF this True assms(2,3) _ assms(4)] show ?thesis using OverByteCap by simp
  next
    case False
    with rows OverByteCap show ?thesis by (simp add: spare_def)
  qed
qed

text \<open>A sweep ends, and keeps what each page and what was taken of it keep.\<close>

lemma remove_pages_end:
  assumes inj: "inj_on sr_id U"
    and same: "\<And>v v1. I v \<Longrightarrow> vl_rows v1 = vl_rows v \<Longrightarrow> vl_files v1 = vl_files v \<Longrightarrow> I v1"
    and step: "\<And>v rows v1 v2. I v \<Longrightarrow> surplus_page which k v = (Inr rows, v1) \<Longrightarrow> taken (set rows) v v2 \<Longrightarrow> I v2"
  shows "set (vl_rows v) \<subseteq> U \<Longrightarrow> distinct (vl_rows v) \<Longrightarrow> I v \<Longrightarrow> \<exists>r v'. remove_pages which k n v = Some (r, v') \<and> I v' \<and>
    (vl_luck v = [] \<longrightarrow> vl_luck v' = [] \<and> (\<exists>m. r = Inr m) \<and>
      (0 < k \<longrightarrow> (\<forall>q \<in> set (vl_rows v'). \<not> may_go which (vl_rows v') q)))"
proof (induction "length (vl_rows v)" arbitrary: v n rule: less_induct)
  case less
  obtain p v1 where p: "surplus_page which k v = (p, v1)" by force
  note pr = surplus_page_result [OF p]
  show ?case
  proof (cases p)
    case (Inl er)
    then have "remove_pages which k n v = Some (Inl er, v1)" using p by (simp add: remove_pages.simps [of which k n v])
    moreover have "I v1" using same less(4) pr by blast
    ultimately show ?thesis using pr Inl by auto
  next
    case (Inr rows)
    obtain g v2 where g: "remove_indexed rows v1 = (g, v2)" by force
    have U: "set rows \<subseteq> U" "set (vl_rows v1) \<subseteq> U" using pr Inr less(2) by auto
    note gr = remove_batches_result [OF g [unfolded remove_indexed_def] inj U]
    have t: "taken (set rows) v v2" using gr pr by (simp add: taken_def)
    have I2: "I v2" by (rule step [OF less(4) p [unfolded Inr] t])
    show ?thesis
    proof (cases g)
      case (Inl er)
      then have "remove_pages which k n v = Some (Inl er, v2)" using p Inr g by (simp add: remove_pages.simps [of which k n v])
      with I2 gr pr Inl show ?thesis by auto
    next
      case g': (Inr m)
      then have m: "m = length (vl_rows v) - length (vl_rows v2)" using gr pr by simp
      have unfolded: "remove_pages which k n v =
          (if length rows < k \<or> m = 0 then Some (Inr (n + m), v2) else remove_pages which k (n + m) v2)"
        using p Inr g g' by (simp add: remove_pages.simps [of which k n v])
      show ?thesis
      proof (cases "length rows < k \<or> m = 0")
        case True
        have "\<forall>q \<in> set (vl_rows v2). \<not> may_go which (vl_rows v2) q" if lucky: "vl_luck v = []" and k: "0 < k"
        proof -
          have v2: "vl_rows v2 = filter (\<lambda>r. r \<notin> set rows) (vl_rows v)" using gr pr lucky by simp
          have "length rows < k"
          proof (rule ccontr)
            assume full: "\<not> length rows < k"
            with True m have "length (vl_rows v2) = length (vl_rows v)" using taken_rows [OF t] by simp
            then have "\<forall>r \<in> set (vl_rows v). r \<notin> set rows" unfolding v2 by (metis filter_id_conv length_filter_less nless_le)
            then have "rows = []" using pr Inr by (cases rows) auto
            with full k show False by simp
          qed
          from page_leaves_nothing [OF p [unfolded Inr] this less(3)] show ?thesis unfolding v2 by blast
        qed
        with True unfolded I2 gr pr show ?thesis by auto
      next
        case False
        then have "length (vl_rows v2) < length (vl_rows v)" using m taken_rows [OF t] by simp
        moreover have "set (vl_rows v2) \<subseteq> U" using taken_rows [OF t] less(2) by blast
        moreover have "distinct (vl_rows v2)" using t less(3) by (auto simp: taken_def)
        ultimately obtain r v' where "remove_pages which k (n + m) v2 = Some (r, v')" "I v'"
          "vl_luck v2 = [] \<longrightarrow> vl_luck v' = [] \<and> (\<exists>m. r = Inr m) \<and>
            (0 < k \<longrightarrow> (\<forall>q \<in> set (vl_rows v'). \<not> may_go which (vl_rows v') q))"
          using less(1) [of v2 "n + m"] I2 by blast
        with False unfolded gr pr show ?thesis by auto
      qed
    qed
  qed
qed

text \<open>C37: a retention sweep ends and takes only what it may, whatever calls of it fail: a segment still
  being written to, not past its age, or without which (and everything finished that is older) less
  than the cap would be held of its kind or stream, stays, its row and its file untouched; what may go
  is judged by the index as it was at the start, however many pages the sweep takes; a row that is
  gone took its file with it; and when nothing fails the sweep leaves nothing that may go.\<close>

theorem retention_takes_only_what_it_may:
  assumes "distinct (map sr_id (vl_rows v))" and "distinct (map sr_path (vl_rows v))"
  shows "\<exists>r v'. remove_paged which k v = Some (r, v') \<and> set (vl_rows v') \<subseteq> set (vl_rows v) \<and>
    (\<forall>q \<in> set (vl_rows v). \<not> may_go which (vl_rows v) q \<longrightarrow> q \<in> set (vl_rows v') \<and> vl_files v' (sr_path q) = vl_files v (sr_path q)) \<and>
    (\<forall>q \<in> set (vl_rows v) - set (vl_rows v'). vl_files v' (sr_path q) = None) \<and>
    (vl_luck v = [] \<longrightarrow> 0 < k \<longrightarrow> (\<forall>q \<in> set (vl_rows v'). \<not> may_go which (vl_rows v') q))"
proof -
  let ?S = "{q \<in> set (vl_rows v). may_go which (vl_rows v) q}"
  have inj: "inj_on sr_id (set (vl_rows v))" "inj_on sr_path (set (vl_rows v))" using assms by (simp_all add: distinct_map)
  have dist: "distinct (vl_rows v)" using assms(1) by (simp add: distinct_map)
  have step: "taken ?S v v2" if I: "taken ?S v u" and p: "surplus_page which k u = (Inr rows, v1)" and t: "taken (set rows) u v2" for u rows v1 v2
  proof (rule taken_trans [OF I taken_mono [OF t]])
    from I obtain gone where "vl_rows u = filter (\<lambda>r. r \<notin> gone) (vl_rows v)" unfolding taken_def by blast
    with surplus_page_result [OF p] may_go_later [of which "\<lambda>r. r \<notin> gone" "vl_rows v"]
    show "set rows \<subseteq> ?S" by auto
  qed
  have same: "taken ?S v u1" if "taken ?S v u" "vl_rows u1 = vl_rows u" "vl_files u1 = vl_files u" for u u1
    using that by (simp add: taken_def)
  have "\<exists>r v'. remove_pages which k 0 v = Some (r, v') \<and> taken ?S v v' \<and> (vl_luck v = [] \<longrightarrow> vl_luck v' = [] \<and> (\<exists>m. r = Inr m) \<and>
      (0 < k \<longrightarrow> (\<forall>q \<in> set (vl_rows v'). \<not> may_go which (vl_rows v') q)))"
    by (rule remove_pages_end [OF inj(1)]) (fact same, fact step, use dist in \<open>simp_all add: taken_refl\<close>)
  then obtain r v' where r: "remove_paged which k v = Some (r, v')" "taken ?S v v'"
    "vl_luck v = [] \<longrightarrow> 0 < k \<longrightarrow> (\<forall>q \<in> set (vl_rows v'). \<not> may_go which (vl_rows v') q)"
    unfolding remove_paged_def by blast
  from r(2) obtain gone where gone: "vl_rows v' = filter (\<lambda>r. r \<notin> gone) (vl_rows v)" "gone \<subseteq> ?S" "\<forall>q \<in> gone. vl_files v' (sr_path q) = None"
    and files: "\<forall>p. vl_files v' p = vl_files v p \<or> vl_files v' p = None \<and> p \<in> sr_path ` ?S"
    unfolding taken_def by blast
  have "q \<in> set (vl_rows v') \<and> vl_files v' (sr_path q) = vl_files v (sr_path q)" if q: "q \<in> set (vl_rows v)" "\<not> may_go which (vl_rows v) q" for q
  proof -
    have "sr_path q \<notin> sr_path ` ?S" using q inj(2) by (auto dest: inj_onD)
    then show ?thesis using q gone(1,2) files by auto
  qed
  moreover have "\<forall>q \<in> set (vl_rows v) - set (vl_rows v'). vl_files v' (sr_path q) = None" using gone by auto
  ultimately show ?thesis using r taken_rows [OF r(2)] by blast
qed

text \<open>What is held after rows have gone.\<close>

lemma sum_set_le: "sum w (set xs) \<le> sum_list (map w xs)" for w :: "'a \<Rightarrow> nat"
  by (induction xs) (auto simp: sum.insert_if)

lemma held_after:
  fixes w :: "'a \<Rightarrow> nat"
  assumes "distinct xs" and "gone \<subseteq> set rows"
  shows "sum_list (map w (filter P xs)) \<le>
    sum_list (map w (filter P (filter (\<lambda>r. r \<notin> gone) xs))) + sum_list (map w (filter P rows))"
proof -
  have "sum_list (map w (filter P xs)) = sum w (set (filter P xs))"
    using assms(1) by (simp add: sum_list_distinct_conv_sum_set)
  also have "\<dots> \<le> sum w (set (filter P (filter (\<lambda>r. r \<notin> gone) xs)) \<union> set (filter P rows))"
    using assms(2) by (intro sum_mono2) auto
  also have "\<dots> \<le> sum w (set (filter P (filter (\<lambda>r. r \<notin> gone) xs))) + sum w (set (filter P rows))"
    using sum.union_inter [of "set (filter P (filter (\<lambda>r. r \<notin> gone) xs))" "set (filter P rows)" w] by simp
  also have "sum w (set (filter P (filter (\<lambda>r. r \<notin> gone) xs))) = sum_list (map w (filter P (filter (\<lambda>r. r \<notin> gone) xs)))"
    using assms(1) by (simp add: sum_list_distinct_conv_sum_set)
  also have "sum w (set (filter P rows)) \<le> sum_list (map w (filter P rows))"
    by (rule sum_set_le)
  finally show ?thesis by simp
qed

definition kind_bytes :: "ustr \<Rightarrow> volume \<Rightarrow> nat" where
  "kind_bytes kind v = sum_list (map sr_bytes (filter (\<lambda>r. sr_kind r = kind) (vl_rows v)))"

definition stream_records :: "ustr \<Rightarrow> ustr \<Rightarrow> volume \<Rightarrow> nat" where
  "stream_records kind key v = sum_list (map sr_records (filter (\<lambda>r. sr_kind r = kind \<and> sr_key r = key) (vl_rows v)))"

lemma byte_page:
  assumes "surplus_page (OverByteCap kind cap) limit v = (Inr rows, v1)" and "min h cap \<le> kind_bytes kind v"
  shows "sum_list (map sr_bytes (filter (\<lambda>r. sr_kind r = kind) rows)) + min h cap \<le> kind_bytes kind v"
proof -
  let ?old = "oldest_rows (\<lambda>r. sr_kind r = kind) limit (vl_rows v)"
  have r: "rows = (if cap < kind_bytes kind v then take_within ?old (kind_bytes kind v - cap) sr_bytes 0 else [])"
    using assms(1) db_read_result by (fastforce simp: segments_over_byte_cap_def Let_def kind_bytes_def)
  show ?thesis
  proof (cases "cap < kind_bytes kind v")
    case True
    have "filter (\<lambda>r. sr_kind r = kind) rows = rows"
      using r True take_within_set [of ?old] set_oldest [of "\<lambda>r. sr_kind r = kind" limit "vl_rows v"]
      by (intro filter_True) fastforce
    then show ?thesis
      using take_within_weight [of 0 "kind_bytes kind v - cap" sr_bytes ?old] r True by simp
  next
    case False
    with r assms(2) show ?thesis by simp
  qed
qed

lemma row_cap_loop_weight:
  "distinct (map fst streams) \<Longrightarrow>
   sum_list (map sr_records (filter (\<lambda>r. sr_kind r = kind \<and> sr_key r = key) (row_cap_loop kind cap limit rows streams surplus))) \<le>
   sum_list (map sr_records (filter (\<lambda>r. sr_kind r = kind \<and> sr_key r = key) surplus)) +
   (case map_of streams key of Some held \<Rightarrow> held - cap | None \<Rightarrow> 0)"
proof (induction streams arbitrary: surplus)
  case (Cons s streams)
  obtain k held where s: "s = (k, held)" by force
  let ?old = "oldest_rows (\<lambda>r. sr_kind r = kind \<and> sr_key r = k) (limit - length surplus) rows"
  let ?new = "take_within ?old (held - cap) sr_records 0"
  have new: "set ?new \<subseteq> {r. sr_kind r = kind \<and> sr_key r = k}"
    using order_trans [OF take_within_set set_oldest] by blast
  have w: "sum_list (map sr_records ?new) \<le> held - cap" using take_within_weight [of 0 "held - cap" sr_records ?old] by simp
  have mine: "filter (\<lambda>r. sr_kind r = kind \<and> sr_key r = key) ?new = (if k = key then ?new else [])"
    using new by (auto intro!: filter_True filter_False)
  have none: "map_of streams k = None" using Cons.prems s by (simp add: map_of_eq_None_iff)
  have d: "distinct (map fst streams)" using Cons.prems by simp
  note IH = Cons.IH [OF d, of "surplus @ ?new"]
  show ?case
  proof (cases "length surplus < limit")
    case False
    then show ?thesis by (simp add: s)
  next
    case True
    then have loop: "row_cap_loop kind cap limit rows (s # streams) surplus = row_cap_loop kind cap limit rows streams (surplus @ ?new)"
      by (simp add: s)
    show ?thesis
    proof (cases "k = key")
      case True
      then have "(case map_of (s # streams) key of Some held \<Rightarrow> held - cap | None \<Rightarrow> 0) = held - cap"
        "(case map_of streams key of Some held \<Rightarrow> held - cap | None \<Rightarrow> 0) = 0" using none by (simp_all add: s)
      moreover have "sum_list (map sr_records (filter (\<lambda>r. sr_kind r = kind \<and> sr_key r = key) (surplus @ ?new))) =
          sum_list (map sr_records (filter (\<lambda>r. sr_kind r = kind \<and> sr_key r = key) surplus)) + sum_list (map sr_records ?new)"
        unfolding filter_append mine if_P [OF True] by simp
      ultimately show ?thesis using IH w unfolding loop by linarith
    next
      case False
      then have "map_of (s # streams) key = map_of streams key" by (simp add: s)
      moreover have "filter (\<lambda>r. sr_kind r = kind \<and> sr_key r = key) (surplus @ ?new) = filter (\<lambda>r. sr_kind r = kind \<and> sr_key r = key) surplus"
        unfolding filter_append mine if_not_P [OF False] by simp
      ultimately show ?thesis using IH unfolding loop by simp
    qed
  qed
qed simp

lemma row_page:
  assumes "surplus_page (OverRowCap kind cap) limit v = (Inr rows, v1)" and "min h cap \<le> stream_records kind key v"
  shows "sum_list (map sr_records (filter (\<lambda>r. sr_kind r = kind \<and> sr_key r = key) rows)) + min h cap \<le> stream_records kind key v"
proof -
  let ?ss = "over_cap_streams kind cap (vl_rows v)"
  have r: "rows = row_cap_loop kind cap limit (vl_rows v) ?ss []"
    using assms(1) db_read_result by (fastforce simp: segments_over_row_cap_def)
  have "distinct (map fst (map (\<lambda>key. (key, f key)) (sort (remdups keys))))" for f :: "ustr \<Rightarrow> nat" and keys
    by (simp add: comp_def)
  then have d: "distinct (map fst ?ss)" unfolding over_cap_streams_def Let_def by (rule distinct_map_filter)
  have "map_of ?ss key = Some held \<Longrightarrow> held = stream_records kind key v \<and> cap < held" for held
    by (auto dest!: map_of_SomeD simp: over_cap_streams_def Let_def stream_records_def conj_commute)
  then have "(case map_of ?ss key of Some held \<Rightarrow> held - cap | None \<Rightarrow> 0) + min h cap \<le> stream_records kind key v"
    using assms(2) by (cases "map_of ?ss key") fastforce+
  with row_cap_loop_weight [OF d, of kind key cap limit "vl_rows v" "[]"] show ?thesis
    unfolding r list.map filter.simps sum_list.Nil by linarith
qed

text \<open>C38: a cap is a floor as well: a sweep by bytes leaves a kind at least what its cap allows (or all it
  had), and a sweep by records leaves every stream at least its cap's worth, so that one talkative
  source evicts nobody else; whatever fails, and however many pages it takes.\<close>

theorem retention_keeps_the_cap:
  assumes "distinct (map sr_id (vl_rows v))"
  shows "(\<forall>r v'. remove_paged (OverByteCap kind cap) k v = Some (r, v') \<longrightarrow> min (kind_bytes kind v) cap \<le> kind_bytes kind v') \<and>
    (\<forall>r v' key. remove_paged (OverRowCap kind cap) k v = Some (r, v') \<longrightarrow>
      min (stream_records kind key v) cap \<le> stream_records kind key v')"
proof -
  have inj: "inj_on sr_id (set (vl_rows v))" using assms by (simp add: distinct_map)
  have dist: "distinct (vl_rows v)" using assms by (simp add: distinct_map)
  let ?B = "\<lambda>u. distinct (vl_rows u) \<and> min (kind_bytes kind v) cap \<le> kind_bytes kind u"
  have "\<exists>r v'. remove_pages (OverByteCap kind cap) k 0 v = Some (r, v') \<and> ?B v' \<and> (vl_luck v = [] \<longrightarrow> vl_luck v' = [] \<and> (\<exists>m. r = Inr m) \<and>
      (0 < k \<longrightarrow> (\<forall>q \<in> set (vl_rows v'). \<not> may_go (OverByteCap kind cap) (vl_rows v') q)))"
  proof (rule remove_pages_end [OF inj])
    fix u rows v1 v2
    assume I: "?B u" and p: "surplus_page (OverByteCap kind cap) k u = (Inr rows, v1)" and t: "taken (set rows) u v2"
    from t obtain gone where g: "vl_rows v2 = filter (\<lambda>r. r \<notin> gone) (vl_rows u)" "gone \<subseteq> set rows" unfolding taken_def by blast
    have "kind_bytes kind u \<le> kind_bytes kind v2 + sum_list (map sr_bytes (filter (\<lambda>r. sr_kind r = kind) rows))"
      using held_after [OF _ g(2), of "vl_rows u" sr_bytes "\<lambda>r. sr_kind r = kind"] I unfolding kind_bytes_def g(1) by blast
    then show "?B v2" using byte_page [OF p, of "kind_bytes kind v"] I by (simp add: g(1))
  qed (use dist in \<open>simp_all add: kind_bytes_def\<close>)
  moreover have "\<exists>r v'. remove_pages (OverRowCap kind cap) k 0 v = Some (r, v') \<and>
      (distinct (vl_rows v') \<and> min (stream_records kind key v) cap \<le> stream_records kind key v') \<and>
      (vl_luck v = [] \<longrightarrow> vl_luck v' = [] \<and> (\<exists>m. r = Inr m) \<and>
      (0 < k \<longrightarrow> (\<forall>q \<in> set (vl_rows v'). \<not> may_go (OverRowCap kind cap) (vl_rows v') q)))" for key
  proof (rule remove_pages_end [OF inj])
    fix u rows v1 v2
    assume I: "distinct (vl_rows u) \<and> min (stream_records kind key v) cap \<le> stream_records kind key u"
      and p: "surplus_page (OverRowCap kind cap) k u = (Inr rows, v1)" and t: "taken (set rows) u v2"
    from t obtain gone where g: "vl_rows v2 = filter (\<lambda>r. r \<notin> gone) (vl_rows u)" "gone \<subseteq> set rows" unfolding taken_def by blast
    have "stream_records kind key u \<le> stream_records kind key v2 +
        sum_list (map sr_records (filter (\<lambda>r. sr_kind r = kind \<and> sr_key r = key) rows))"
      using held_after [OF _ g(2), of "vl_rows u" sr_records "\<lambda>r. sr_kind r = kind \<and> sr_key r = key"] I
      unfolding stream_records_def g(1) by blast
    then show "distinct (vl_rows v2) \<and> min (stream_records kind key v) cap \<le> stream_records kind key v2"
      using row_page [OF p, of "stream_records kind key v" key] I by (simp add: g(1))
  qed (use dist in \<open>simp_all add: stream_records_def\<close>)
  ultimately show ?thesis unfolding remove_paged_def by fastforce
qed

end
