(* ===== verification/Log_Run.thy ===== *)
theory Log_Run
  imports Log_Props
begin

section \<open>Recovery\<close>

lemma db_write_lucky [simp]:
  "vl_luck v = [] \<Longrightarrow> db_write f v = (Inr (fst (f (vl_rows v))), v\<lparr>vl_rows := snd (f (vl_rows v))\<rparr>)"
  by (simp add: db_write_def split: prod.split)

lemma db_read_lucky [simp]: "vl_luck v = [] \<Longrightarrow> db_read f v = (Inr (f (vl_rows v)), v)"
  by (simp add: db_read_def)

lemma fs_read_lucky [simp]: "vl_luck v = [] \<Longrightarrow> fs_read path v = (Inr (vl_files v path), v)"
  by (simp add: fs_read_def)

lemma seal_lucky:
  "vl_luck v = [] \<Longrightarrow> segments_seal i v = (Inr (0 < length (filter (\<lambda>r. sr_id r = i \<and> \<not> sr_sealed r) (vl_rows v))),
     v\<lparr>vl_rows := map (\<lambda>r. if sr_id r = i \<and> \<not> sr_sealed r then r\<lparr>sr_sealed := True\<rparr> else r) (vl_rows v)\<rparr>)"
  by (simp add: segments_seal_def seal_rows_def)

text \<open>The row of a segment, if it is still in the index.\<close>

definition row_of :: "nat \<Rightarrow> volume \<Rightarrow> seg_row option" where
  "row_of i v = find (\<lambda>r. sr_id r = i) (vl_rows v)"

lemma row_of_map:
  "(\<And>r. sr_id (f r) = sr_id r) \<Longrightarrow> row_of i (v\<lparr>vl_rows := map f (vl_rows v)\<rparr>) = map_option f (row_of i v)"
proof -
  assume f: "\<And>r. sr_id (f r) = sr_id r"
  have "find (\<lambda>r. sr_id r = i) (map f rs) = map_option f (find (\<lambda>r. sr_id r = i) rs)" for rs
    by (induction rs) (simp_all add: f)
  then show ?thesis by (simp add: row_of_def)
qed

lemma row_of_Some: "row_of i v = Some r \<Longrightarrow> sr_id r = i \<and> r \<in> set (vl_rows v)"
  by (auto simp: row_of_def find_Some_iff)

text \<open>What a recovery leaves: the file cut to its whole records, and a row that says what is in it, closed
  when the log may not go on with it.\<close>

definition recovered :: "seg_row \<Rightarrow> bytes list \<Rightarrow> nat \<Rightarrow> append_log \<Rightarrow> append_log \<Rightarrow> volume \<Rightarrow> volume \<Rightarrow> bool" where
  "recovered row qs limit l l' v v' \<longleftrightarrow>
     vl_files v' = (vl_files v)(sr_path row \<mapsto> log_bytes qs) \<and>
     (if length qs < sr_records row \<or> length (log_bytes qs) < sr_bytes row
      then row_of (sr_id row) v' = Some (row\<lparr>sr_sealed := True\<rparr>) \<and> l' = l
      else row_of (sr_id row) v' = Some (row\<lparr>sr_records := length qs, sr_bytes := length (log_bytes qs),
             sr_sealed := limit \<le> length (log_bytes qs)\<rparr>) \<and>
        (if limit \<le> length (log_bytes qs) then l' = l
         else l' = l\<lparr>al_current := Some \<lparr>sg_id = sr_id row, sg_relative = sr_path row, sg_bytes = length (log_bytes qs),
           sg_first = sr_first row, sg_last = sr_last row, sg_pending_records = 0, sg_pending_bytes = 0\<rparr>\<rparr>))"

lemma seal_stop:
  assumes "vl_luck v = []" and "row_of i v = Some r" and "\<not> sr_sealed r"
  shows "\<exists>v1. seal_and_stop i l v = (Inr (), l, v1) \<and> vl_files v1 = vl_files v \<and> row_of i v1 = Some (r\<lparr>sr_sealed := True\<rparr>)"
proof -
  let ?f = "\<lambda>r. if sr_id r = i \<and> \<not> sr_sealed r then r\<lparr>sr_sealed := True\<rparr> else r"
  have "row_of i (v\<lparr>vl_rows := map ?f (vl_rows v)\<rparr>) = Some (r\<lparr>sr_sealed := True\<rparr>)"
    using assms(2,3) row_of_Some [OF assms(2)] by (subst row_of_map) simp_all
  then show ?thesis by (simp add: seal_and_stop_def seal_lucky [OF assms(1)])
qed

lemma adopt_ok:
  assumes "vl_luck v = []" and "row_of (sr_id row) v = Some r" and "\<not> sr_sealed r" and "vl_files v (sr_path row) \<noteq> None"
  shows "\<exists>l' v1. adopt_row row n l v = (Inr (), l', v1) \<and> vl_files v1 = vl_files v \<and>
    row_of (sr_id row) v1 = Some (r\<lparr>sr_sealed := al_max l \<le> n\<rparr>) \<and>
    l' = (if al_max l \<le> n then l else l\<lparr>al_current := Some \<lparr>sg_id = sr_id row, sg_relative = sr_path row, sg_bytes = n,
           sg_first = sr_first row, sg_last = sr_last row, sg_pending_records = 0, sg_pending_bytes = 0\<rparr>\<rparr>)"
proof (cases "al_max l \<le> n")
  case True
  with seal_stop [OF assms(1-3), of l] show ?thesis by (auto simp: adopt_row_def)
next
  case False
  moreover have "r = r\<lparr>sr_sealed := False\<rparr>" using assms(3) by simp
  ultimately show ?thesis using assms by (simp add: adopt_row_def segment_adopt_def)
qed

lemma recover_result:
  assumes "vl_luck v = []" and "row_of (sr_id row) v = Some row" and "\<not> sr_sealed row" and "al_max l = limit"
    and "vl_files v (sr_path row) = Some bs" and "frames_from bs 0 = (qs, length (log_bytes qs))"
    and "take (length (log_bytes qs)) bs = log_bytes qs" and "length (log_bytes qs) \<le> length bs"
    and "sr_last row = ts_from (sr_last row)"
    and "length bs = sr_bytes row \<Longrightarrow> bs = log_bytes qs \<and> length qs = sr_records row"
  shows "\<exists>l' v'. log_recover row l v = (Inr (), l', v') \<and> recovered row qs limit l l' v v'"
proof (cases "length bs = sr_bytes row")
  case True
  with assms(10) have b: "bs = log_bytes qs" "length qs = sr_records row" by simp_all
  have same: "row\<lparr>sr_records := length qs, sr_bytes := length (log_bytes qs), sr_sealed := s\<rparr> = row\<lparr>sr_sealed := s\<rparr>" for s
    using True b by simp
  have "vl_files v = (vl_files v)(sr_path row \<mapsto> log_bytes qs)" using assms(5) b by (simp add: fun_upd_idem)
  moreover have "vl_files v (sr_path row) \<noteq> None" using assms(5) by simp
  from adopt_ok [OF assms(1-3) this, of "sr_bytes row" l] obtain l' v1 where
    a: "adopt_row row (sr_bytes row) l v = (Inr (), l', v1)" "vl_files v1 = vl_files v"
      "row_of (sr_id row) v1 = Some (row\<lparr>sr_sealed := limit \<le> sr_bytes row\<rparr>)"
      "l' = (if limit \<le> sr_bytes row then l else l\<lparr>al_current := Some \<lparr>sg_id = sr_id row, sg_relative = sr_path row, sg_bytes = sr_bytes row,
           sg_first = sr_first row, sg_last = sr_last row, sg_pending_records = 0, sg_pending_bytes = 0\<rparr>\<rparr>)"
    using assms(4) by blast
  moreover have "log_recover row l v = (Inr (), l', v1)" using a(1) True assms(1,5) by (simp add: log_recover_def)
  ultimately show ?thesis using True b unfolding recovered_def same by auto
next
  case False
  let ?L = "log_bytes qs"
  define v1 where "v1 = v\<lparr>vl_files := (vl_files v)(sr_path row \<mapsto> ?L)\<rparr>"
  have rep: "repair (sr_path row) v = (Inr (Some \<lparr>sn_records = length qs, sn_bytes = length ?L\<rparr>), v1)"
  proof (cases "length ?L < length bs")
    case True
    then show ?thesis using assms(1,5-7) by (simp add: repair_def v1_def)
  next
    case n: False
    with assms(7,8) have "bs = ?L" by (metis le_neq_implies_less take_all_iff order_refl)
    then have "v1 = v" using assms(5) by (simp add: v1_def fun_upd_idem)
    then show ?thesis using assms(1,5,6) n by (simp add: repair_def)
  qed
  have v1: "vl_luck v1 = []" "row_of (sr_id row) v1 = Some row" "vl_files v1 (sr_path row) \<noteq> None"
    "vl_files v1 = (vl_files v)(sr_path row \<mapsto> ?L)" using assms(1,2) by (simp_all add: v1_def row_of_def)
  have rec: "log_recover row l v = log_reconcile row \<lparr>sn_records = length qs, sn_bytes = length ?L\<rparr> l v1"
    using False assms(1,5) rep by (simp add: log_recover_def)
  show ?thesis
  proof (cases "length qs < sr_records row \<or> length ?L < sr_bytes row")
    case True
    with rec seal_stop [OF v1(1,2) assms(3), of l] v1(4) show ?thesis
      by (auto simp: log_reconcile_def recovered_def)
  next
    case enough: False
    let ?row = "row\<lparr>sr_records := length qs, sr_bytes := length ?L\<rparr>"
    obtain v2 where v2: "log_recover row l v = adopt_row row (length ?L) l v2" "vl_luck v2 = []" "vl_files v2 = vl_files v1"
      "row_of (sr_id row) v2 = Some ?row"
    proof (cases "sr_records row < length qs \<or> sr_bytes row < length ?L")
      case True
      let ?f = "\<lambda>r. if sr_id r = sr_id row \<and> \<not> sr_sealed r then r\<lparr>sr_last := max (sr_last r) (ts_from (sr_last row)),
          sr_records := sr_records r + (length qs - sr_records row), sr_bytes := sr_bytes r + (length ?L - sr_bytes row)\<rparr> else r"
      let ?v2 = "v1\<lparr>vl_rows := map ?f (vl_rows v1)\<rparr>"
      have "log_recover row l v = adopt_row row (length ?L) l ?v2"
        using True enough rec v1(1) by (simp add: log_reconcile_def segments_record_append_def row_append_def Let_def)
      moreover have "row_of (sr_id row) ?v2 = Some ?row"
        using v1(2) assms(3) enough assms(9) by (subst row_of_map) simp_all
      ultimately show ?thesis using that [of ?v2] v1(1) by simp
    next
      case False
      with enough have e: "length qs = sr_records row" "length ?L = sr_bytes row" by auto
      then have "?row = row" by simp
      moreover have "log_recover row l v = adopt_row row (length ?L) l v1" using e rec by (simp add: log_reconcile_def)
      ultimately show ?thesis using that [of v1] v1(1,2) by simp
    qed
    have p: "vl_files v2 (sr_path row) \<noteq> None" using v2(3) v1(3) by simp
    have ns: "\<not> sr_sealed ?row" using assms(3) by simp
    from adopt_ok [OF v2(2,4) ns p, of "length ?L" l] obtain l' v3 where
      a: "adopt_row row (length ?L) l v2 = (Inr (), l', v3)" "vl_files v3 = vl_files v2"
        "row_of (sr_id row) v3 = Some (?row\<lparr>sr_sealed := limit \<le> length ?L\<rparr>)"
        "l' = (if limit \<le> length ?L then l else l\<lparr>al_current := Some \<lparr>sg_id = sr_id row, sg_relative = sr_path row, sg_bytes = length ?L,
           sg_first = sr_first row, sg_last = sr_last row, sg_pending_records = 0, sg_pending_bytes = 0\<rparr>\<rparr>)"
      unfolding assms(4) by blast
    have "log_recover row l v = (Inr (), l', v3)" using v2(1) a(1) by simp
    moreover have "recovered row qs limit l l' v v3" using enough a(2-4) v2(3) v1(4) by (simp add: recovered_def)
    ultimately show ?thesis by blast
  qed
qed

lemma row_of_member: "distinct (map sr_id (vl_rows v)) \<Longrightarrow> r \<in> set (vl_rows v) \<Longrightarrow> row_of (sr_id r) v = Some r"
proof -
  have "distinct (map sr_id rs) \<Longrightarrow> r \<in> set rs \<Longrightarrow> find (\<lambda>q. sr_id q = sr_id r) rs = Some r" for rs
  proof (induction rs)
    case (Cons a rs)
    show ?case
    proof (cases "sr_id a = sr_id r")
      case True
      then have "r \<notin> set rs" using Cons.prems(1) by (auto simp: image_iff)
      then show ?thesis using Cons.prems(2) by simp
    next
      case False
      then show ?thesis using Cons by auto
    qed
  qed simp
  then show "distinct (map sr_id (vl_rows v)) \<Longrightarrow> r \<in> set (vl_rows v) \<Longrightarrow> row_of (sr_id r) v = Some r"
    by (simp add: row_of_def)
qed

lemma open_segment_row:
  assumes "segments_open_segment kind key v = (Inr (Some row), v')"
  shows "row \<in> set (vl_rows v) \<and> sr_kind row = kind \<and> sr_key row = key \<and> \<not> sr_sealed row"
proof -
  let ?mine = "filter (\<lambda>r. sr_kind r = kind \<and> sr_key r = key \<and> \<not> sr_sealed r) (vl_rows v)"
  let ?f = "\<lambda>rows. case sort_key (\<lambda>r. - sr_first r) (filter (\<lambda>r. sr_kind r = kind \<and> sr_key r = key \<and> \<not> sr_sealed r) rows) of
      [] \<Rightarrow> None | r # _ \<Rightarrow> Some r"
  from assms have "?f (vl_rows v) = Some row"
    using db_read_result [of ?f v "Inr (Some row)" v'] by (auto simp: segments_open_segment_def)
  then obtain rest where "sort_key (\<lambda>r. - sr_first r) ?mine = row # rest" by (auto split: list.splits)
  then have "row \<in> set ?mine" by (metis list.set_intros(1) set_sort)
  then show ?thesis by simp
qed

lemma log_bytes_take_less:
  "a < b \<Longrightarrow> b \<le> length ps \<Longrightarrow> length (log_bytes (take a ps)) < length (log_bytes (take b ps))"
proof -
  assume ab: "a < b" "b \<le> length ps"
  then have "take b ps = take a ps @ ps ! a # take (b - Suc a) (drop (Suc a) ps)"
    by (metis Suc_leI append.assoc append_Cons append_Nil le_add_diff_inverse less_le_trans take_Suc_conv_app_nth take_add)
  then show ?thesis using frame_nonempty [of "ps ! a"] by simp
qed

text \<open>C35: an unclean stop costs only what had not reached the disk: if any number of bytes of a segment
  survive, opening the log cuts its file back to the longest run of whole records among them, every
  one of which is read back, and no other file changes.  A row that claimed no more than survived is
  made exact and is written on to until it is full; a row that claimed more is closed, so that the
  log starts a fresh segment, but its counts are left as they were and go on claiming the records
  that were lost.\<close>

theorem crash_keeps_whole_records:
  assumes "vl_luck v = []" and "encode_component kind = Inr k" and "encode_component key = Inr d"
    and "segments_open_segment kind key v = (Inr (Some row), v)" and "distinct (map sr_id (vl_rows v))"
    and "sr_last row = ts_from (sr_last row)" and "list_all fits ps" and "j \<le> length ps"
    and "sr_records row = j" and "sr_bytes row = length (log_bytes (take j ps))"
    and "n \<le> length (log_bytes ps)" and "vl_files v (sr_path row) = Some (take n (log_bytes ps))"
  shows "\<exists>m l v'. log_open kind key limit v = (Inr l, v') \<and> m \<le> length ps \<and> length (log_bytes (take m ps)) \<le> n \<and>
    (m < length ps \<longrightarrow> n < length (log_bytes (take (Suc m) ps))) \<and>
    vl_files v' = (vl_files v)(sr_path row \<mapsto> log_bytes (take m ps)) \<and> frames (log_bytes (take m ps)) = take m ps \<and>
    (if m < j then row_of (sr_id row) v' = Some (row\<lparr>sr_sealed := True\<rparr>) \<and> al_current l = None
     else row_of (sr_id row) v' = Some (row\<lparr>sr_records := m, sr_bytes := length (log_bytes (take m ps)),
            sr_sealed := limit \<le> length (log_bytes (take m ps))\<rparr>) \<and>
       (al_current l = None \<longleftrightarrow> limit \<le> length (log_bytes (take m ps))) \<and>
       (\<forall>s. al_current l = Some s \<longrightarrow> sg_id s = sr_id row \<and> sg_relative s = sr_path row \<and>
          sg_bytes s = length (log_bytes (take m ps)) \<and> take_pending s = (None, s)))"
proof -
  let ?bs = "take n (log_bytes ps)"
  from frames_survive [OF assms(7,11)] obtain m where m: "m \<le> length ps"
    "frames_from ?bs 0 = (take m ps, length (log_bytes (take m ps)))" "length (log_bytes (take m ps)) \<le> n"
    "m < length ps \<longrightarrow> n < length (log_bytes (take (Suc m) ps))" by blast
  let ?qs = "take m ps" and ?L = "log_bytes (take m ps)"
  have row: "row \<in> set (vl_rows v)" "\<not> sr_sealed row" using open_segment_row [OF assms(4)] by simp_all
  have "log_bytes ps = ?L @ log_bytes (drop m ps)" by (metis append_take_drop_id concat_append map_append)
  then have cut: "take (length ?L) ?bs = ?L" using m(3) by (simp add: min_def)
  have len: "length ?bs = n" using assms(11) by simp
  have fast: "?bs = ?L \<and> length ?qs = sr_records row" if "length ?bs = sr_bytes row"
  proof -
    have nj: "n = length (log_bytes (take j ps))" using that assms(10) len by simp
    have "\<not> j < m" using log_bytes_take_less [of j m ps] m(1,3) nj by auto
    moreover have "\<not> m < j"
    proof
      assume mj: "m < j"
      then have "length (log_bytes (take (Suc m) ps)) \<le> length (log_bytes (take j ps))"
        using log_bytes_take_less [of "Suc m" j ps] assms(8) by (cases "Suc m = j") auto
      with m(4) mj assms(8) nj show False by simp
    qed
    ultimately have "m = j" by simp
    with nj cut len m(1) assms(9) show ?thesis by auto
  qed
  let ?l = "\<lparr>al_kind = kind, al_key = key, al_relative = k @ lit ''/'' @ d, al_max = limit, al_current = None\<rparr>"
  have len_le: "length ?L \<le> length ?bs" using m(3) len by simp
  have am: "al_max ?l = limit" by simp
  from recover_result [OF assms(1) row_of_member [OF assms(5) row(1)] row(2) am assms(12) m(2) cut len_le assms(6) fast]
  obtain l' v' where r: "log_recover row ?l v = (Inr (), l', v')" "recovered row ?qs limit ?l l' v v'" by blast
  have "log_open kind key limit v = (Inr l', v')"
    using assms(1-4) r(1) by (simp add: log_open_def fs_create_dir_def)
  moreover have "(length ?qs < sr_records row \<or> length ?L < sr_bytes row) \<longleftrightarrow> m < j"
  proof (cases "m < j")
    case True
    then show ?thesis using m(1) assms(9) by simp
  next
    case False
    then show ?thesis using m(1) assms(8-10) log_bytes_take_less [of j m ps] by (cases "j = m") auto
  qed
  moreover have "list_all fits ?qs" using assms(7) by (auto simp: list_all_iff dest: in_set_takeD)
  then have "frames ?L = ?qs" using frames_whole by simp
  moreover have "length ?qs = m" using m(1) by simp
  moreover have "if m < j then row_of (sr_id row) v' = Some (row\<lparr>sr_sealed := True\<rparr>) \<and> al_current l' = None
     else row_of (sr_id row) v' = Some (row\<lparr>sr_records := m, sr_bytes := length ?L, sr_sealed := limit \<le> length ?L\<rparr>) \<and>
       (al_current l' = None \<longleftrightarrow> limit \<le> length ?L) \<and>
       (\<forall>s. al_current l' = Some s \<longrightarrow> sg_id s = sr_id row \<and> sg_relative s = sr_path row \<and>
          sg_bytes s = length ?L \<and> take_pending s = (None, s))"
  proof (cases "m < j")
    case True
    with r(2) calculation(2) show ?thesis by (simp add: recovered_def)
  next
    case False
    with r(2) calculation(2,4) show ?thesis
      by (cases "limit \<le> length ?L") (simp_all add: recovered_def take_pending_def)
  qed
  moreover have "vl_files v' = (vl_files v)(sr_path row \<mapsto> ?L)" using r(2) by (simp add: recovered_def)
  ultimately show ?thesis using m(1,3,4) by blast
qed

end
