(* ===== verification/Log_Append.thy ===== *)
theory Log_Append
  imports Log_Run
begin

text \<open>
  The log as its readers see it: a list of records.  An append that nothing disturbs adds one at the
  end, and reading a range that covers the log gives the list.
\<close>

section \<open>The records of a log\<close>

definition own_rows :: "append_log \<Rightarrow> seg_row list \<Rightarrow> seg_row list" where
  "own_rows l rows = filter (\<lambda>r. sr_kind r = al_kind l \<and> sr_key r = al_key l) rows"

definition log_paths :: "append_log \<Rightarrow> volume \<Rightarrow> ustr list" where
  "log_paths l v =
     (case al_current l of
        None \<Rightarrow> map sr_path (sort_key sr_first (own_rows l (vl_rows v)))
      | Some s \<Rightarrow> map sr_path (filter (\<lambda>r. sr_id r \<noteq> sg_id s) (sort_key sr_first (own_rows l (vl_rows v)))) @ [sg_relative s])"

definition file_records :: "volume \<Rightarrow> ustr \<Rightarrow> bytes list" where
  "file_records v path = (case vl_files v path of None \<Rightarrow> [] | Some bs \<Rightarrow> frames bs)"

definition log_records :: "append_log \<Rightarrow> volume \<Rightarrow> bytes list" where
  "log_records l v = concat (map (file_records v) (log_paths l v))"

text \<open>A log in order: its open segment is the newest of its rows, and its file holds whole records only.\<close>

definition in_order :: "append_log \<Rightarrow> volume \<Rightarrow> bool" where
  "in_order l v \<longleftrightarrow>
     vl_luck v = [] \<and> distinct (map sr_id (vl_rows v)) \<and> distinct (map sr_path (vl_rows v)) \<and>
     (\<forall>s. al_current l = Some s \<longrightarrow>
        (\<exists>xs c. own_rows l (vl_rows v) = xs @ [c] \<and> sr_id c = sg_id s \<and> sr_path c = sg_relative s \<and>
           \<not> sr_sealed c \<and> (\<forall>x \<in> set xs. sr_first x \<le> sr_first c)) \<and>
        (\<exists>ps. list_all fits ps \<and> vl_files v (sg_relative s) = Some (log_bytes ps) \<and> sg_bytes s = length (log_bytes ps)))"

text \<open>The range takes in every segment.\<close>

definition covers :: "int \<Rightarrow> int \<Rightarrow> append_log \<Rightarrow> volume \<Rightarrow> bool" where
  "covers start stop l v \<longleftrightarrow>
     (\<forall>r \<in> set (own_rows l (vl_rows v)). ts_from start \<le> sr_last r \<and> sr_first r < ts_from stop) \<and>
     (\<forall>s. al_current l = Some s \<longrightarrow> seg_touches start stop s)"

section \<open>Sorting\<close>

lemma sort_key_map: "(\<And>r. g (f r) = g r) \<Longrightarrow> sort_key g (map f xs) = map f (sort_key g xs)" for g :: "'a \<Rightarrow> 'b :: linorder"
proof -
  assume g: "\<And>r. g (f r) = g r"
  have "insort_key g (f x) (map f ys) = map f (insort_key g x ys)" for x ys by (induction ys) (simp_all add: g)
  then show ?thesis by (induction xs) simp_all
qed

lemma sort_key_snoc: "\<forall>x \<in> set xs. g x \<le> g c \<Longrightarrow> sort_key g (xs @ [c]) = sort_key g xs @ [c]" for g :: "'a \<Rightarrow> 'b :: linorder"
proof (induction xs)
  case (Cons x xs)
  have "insort_key g x (ys @ [c]) = insort_key g x ys @ [c]" if "g x \<le> g c" for ys
    using that by (induction ys) auto
  with Cons show ?case by simp
qed simp

section \<open>Reading\<close>

lemma read_segments_lucky:
  "vl_luck v = [] \<Longrightarrow> read_segments paths records v = (Inr (records @ concat (map (file_records v) paths)), v)"
proof (induction paths arbitrary: records)
  case (Cons p paths)
  then show ?case by (cases "vl_files v p") (simp_all add: read_segment_def file_records_def)
qed simp

lemma read_covering:
  assumes "vl_luck v = []" and "covers start stop l v"
  shows "log_read_range start stop l v = (Inr (log_records l v), v)"
proof -
  have "filter (\<lambda>r. sr_kind r = al_kind l \<and> sr_key r = al_key l \<and> sr_first r < ts_from stop \<and> ts_from start \<le> sr_last r) (vl_rows v)
      = own_rows l (vl_rows v)"
    using assms(2) unfolding own_rows_def covers_def by (intro filter_cong) auto
  then have "segments_overlapping (al_kind l) (al_key l) start stop v = (Inr (sort_key sr_first (own_rows l (vl_rows v))), v)"
    using assms(1) by (simp add: segments_overlapping_def overlapping_rows_def)
  then show ?thesis
    using assms by (cases "al_current l")
      (auto simp: log_read_range_def log_records_def log_paths_def read_segments_lucky covers_def)
qed

section \<open>The stages of an append\<close>

text \<open>What a stage leaves alone.\<close>

definition same_log :: "append_log \<Rightarrow> append_log \<Rightarrow> bool" where
  "same_log l l' \<longleftrightarrow> al_kind l' = al_kind l \<and> al_key l' = al_key l \<and> al_relative l' = al_relative l \<and> al_max l' = al_max l"

text \<open>An update of rows that leaves what names and orders them.\<close>

definition row_keeps :: "(seg_row \<Rightarrow> seg_row) \<Rightarrow> bool" where
  "row_keeps f \<longleftrightarrow> (\<forall>r. sr_id (f r) = sr_id r \<and> sr_kind (f r) = sr_kind r \<and> sr_key (f r) = sr_key r \<and>
     sr_path (f r) = sr_path r \<and> sr_first (f r) = sr_first r)"

lemma own_rows_map: "row_keeps f \<Longrightarrow> own_rows l (map f rows) = map f (own_rows l rows)"
  by (simp add: own_rows_def filter_map comp_def row_keeps_def)

lemma row_keeps_lists:
  "row_keeps f \<Longrightarrow> map sr_path (map f rows) = map sr_path rows \<and>
     map sr_first (own_rows l (map f rows)) = map sr_first (own_rows l rows)"
  by (simp add: own_rows_map row_keeps_def)

lemma own_rows_same: "same_log l l' \<Longrightarrow> own_rows l' rows = own_rows l rows"
  by (simp add: own_rows_def same_log_def)

lemma own_rows_al [simp]: "own_rows (l\<lparr>al_current := s\<rparr>) rows = own_rows l rows"
  by (simp add: own_rows_def)

lemma log_paths_map:
  "row_keeps f \<Longrightarrow> log_paths l (v\<lparr>vl_rows := map f (vl_rows v)\<rparr>) = log_paths l v"
  by (simp add: log_paths_def own_rows_map sort_key_map row_keeps_def filter_map comp_def split: option.splits)

lemma in_order_map:
  assumes "row_keeps f" and "\<And>r. sr_sealed (f r) = sr_sealed r" and "in_order l v"
  shows "in_order l (v\<lparr>vl_rows := map f (vl_rows v)\<rparr>)"
proof -
  have m: "sr_id \<circ> f = sr_id" "sr_path \<circ> f = sr_path" using assms(1) by (auto simp: row_keeps_def)
  have "\<exists>ys d. map f (own_rows l (vl_rows v)) = ys @ [d] \<and> sr_id d = sg_id s \<and> sr_path d = sg_relative s \<and>
      \<not> sr_sealed d \<and> (\<forall>x \<in> set ys. sr_first x \<le> sr_first d)" if cur: "al_current l = Some s" for s
  proof -
    from assms(3) cur obtain xs c where c: "own_rows l (vl_rows v) = xs @ [c]" "sr_id c = sg_id s" "sr_path c = sg_relative s"
      "\<not> sr_sealed c" "\<forall>x \<in> set xs. sr_first x \<le> sr_first c" unfolding in_order_def by blast
    then show ?thesis
      using assms(1,2) by (intro exI [of _ "map f xs"] exI [of _ "f c"]) (simp add: row_keeps_def)
  qed
  then show ?thesis
    using assms(3) m unfolding in_order_def by (simp add: own_rows_map [OF assms(1)])
qed

lemma flush_stage:
  assumes "in_order l v"
  shows "\<exists>l' f. log_flush l v = (Inr (), l', v\<lparr>vl_rows := map f (vl_rows v)\<rparr>) \<and> row_keeps f \<and> (\<forall>r. sr_sealed (f r) = sr_sealed r) \<and>
    same_log l l' \<and>
    map_option (\<lambda>s. (sg_id s, sg_relative s, sg_bytes s)) (al_current l') = map_option (\<lambda>s. (sg_id s, sg_relative s, sg_bytes s)) (al_current l)"
proof (cases "al_current l")
  case None
  then show ?thesis by (intro exI [of _ l] exI [of _ id]) (simp add: log_flush_def same_log_def row_keeps_def)
next
  case (Some s)
  show ?thesis
  proof (cases "sg_pending_records s = 0 \<and> sg_pending_bytes s = 0")
    case True
    with Some show ?thesis
      by (intro exI [of _ l] exI [of _ id]) (simp add: log_flush_def take_pending_def same_log_def row_keeps_def)
  next
    case False
    let ?f = "\<lambda>r. if sr_id r = sg_id s \<and> \<not> sr_sealed r then r\<lparr>sr_last := max (sr_last r) (ts_from (sg_last s)),
                  sr_records := sr_records r + sg_pending_records s, sr_bytes := sr_bytes r + sg_pending_bytes s\<rparr> else r"
    from assms Some obtain xs c where c: "own_rows l (vl_rows v) = xs @ [c]" "sr_id c = sg_id s" "\<not> sr_sealed c"
      unfolding in_order_def by blast
    from c(1) have "c \<in> set (own_rows l (vl_rows v))" by simp
    then have "c \<in> set (vl_rows v)" by (simp add: own_rows_def)
    with c have hit: "filter (\<lambda>r. sr_id r = sg_id s \<and> \<not> sr_sealed r) (vl_rows v) \<noteq> []"
      by (auto simp: filter_empty_conv)
    let ?p = "s\<lparr>sg_pending_records := 0, sg_pending_bytes := 0\<rparr>"
    have "vl_luck v = []" using assms by (simp add: in_order_def)
    then have "segments_record_append (sg_id s) (sg_last s) (sg_pending_records s) (sg_pending_bytes s) v =
        (Inr True, v\<lparr>vl_rows := map ?f (vl_rows v)\<rparr>)"
      using hit by (simp add: segments_record_append_def row_append_def Let_def)
    moreover have "take_pending s = (Some (sg_last s, sg_pending_records s, sg_pending_bytes s), ?p)"
      using False by (auto simp: take_pending_def)
    ultimately have "log_flush l v = (Inr (), l\<lparr>al_current := Some ?p\<rparr>, v\<lparr>vl_rows := map ?f (vl_rows v)\<rparr>)"
      using Some by (simp add: log_flush_def)
    then show ?thesis using Some
      by (intro exI [of _ "l\<lparr>al_current := Some ?p\<rparr>"] exI [of _ ?f]) (auto simp: same_log_def row_keeps_def)
  qed
qed

lemma in_order_current:
  assumes "in_order l v" and "map_option (\<lambda>s. (sg_id s, sg_relative s, sg_bytes s)) (al_current l') =
      map_option (\<lambda>s. (sg_id s, sg_relative s, sg_bytes s)) (al_current l)" and "same_log l l'"
  shows "in_order l' v \<and> log_paths l' v = log_paths l v"
proof -
  have own: "own_rows l' rows = own_rows l rows" for rows using assms(3) by (simp add: own_rows_def same_log_def)
  show ?thesis
    using assms(1,2) unfolding in_order_def log_paths_def own
    by (cases "al_current l"; cases "al_current l'") auto
qed

lemma seal_stage:
  assumes "in_order l v"
  shows "\<exists>l' v'. log_seal l v = (Inr (), l', v') \<and> in_order l' v' \<and> log_paths l' v' = log_paths l v \<and>
    vl_files v' = vl_files v \<and> same_log l l' \<and> al_current l' = None \<and> map sr_path (vl_rows v') = map sr_path (vl_rows v) \<and>
    map sr_first (own_rows l' (vl_rows v')) = map sr_first (own_rows l (vl_rows v))"
proof -
  from flush_stage [OF assms] obtain l1 f where f: "log_flush l v = (Inr (), l1, v\<lparr>vl_rows := map f (vl_rows v)\<rparr>)"
    "row_keeps f" "\<And>r. sr_sealed (f r) = sr_sealed r" "same_log l l1"
    "map_option (\<lambda>s. (sg_id s, sg_relative s, sg_bytes s)) (al_current l1) = map_option (\<lambda>s. (sg_id s, sg_relative s, sg_bytes s)) (al_current l)"
    by blast
  define v1 where "v1 = v\<lparr>vl_rows := map f (vl_rows v)\<rparr>"
  have i1: "in_order l1 v1" "log_paths l1 v1 = log_paths l v"
    using in_order_current [OF in_order_map [OF f(2,3) assms] f(5,4)] log_paths_map [OF f(2), of l v] by (simp_all add: v1_def)
  have keep: "map sr_path (vl_rows v1) = map sr_path (vl_rows v)" "map sr_first (own_rows l (vl_rows v1)) = map sr_first (own_rows l (vl_rows v))"
    using row_keeps_lists [OF f(2)] by (simp_all add: v1_def)
  show ?thesis
  proof (cases "al_current l1")
    case None
    have "log_seal l v = (Inr (), l1, v1)" using None f(1) by (simp add: log_seal_def v1_def)
    then show ?thesis using i1 keep f(4) None by (intro exI [of _ l1] exI [of _ v1]) (simp add: v1_def same_log_def own_rows_def)
  next
    case (Some s)
    let ?g = "\<lambda>r. if sr_id r = sg_id s \<and> \<not> sr_sealed r then r\<lparr>sr_sealed := True\<rparr> else r"
    let ?l = "l1\<lparr>al_current := None\<rparr>" and ?v = "v1\<lparr>vl_rows := map ?g (vl_rows v1)\<rparr>"
    have g: "row_keeps ?g" by (simp add: row_keeps_def)
    have luck: "vl_luck v1 = []" using i1(1) by (simp add: in_order_def)
    from i1(1) Some obtain xs c where c: "own_rows l1 (vl_rows v1) = xs @ [c]" "sr_id c = sg_id s" "sr_path c = sg_relative s"
      "\<forall>x \<in> set xs. sr_first x \<le> sr_first c" unfolding in_order_def by blast
    have "distinct (map sr_id (own_rows l1 (vl_rows v1)))"
      using i1(1) by (auto simp: in_order_def own_rows_def distinct_map_filter)
    then have "\<forall>x \<in> set xs. sr_id x \<noteq> sg_id s" using c(1,2) by force
    then have "filter (\<lambda>r. sr_id r \<noteq> sg_id s) (sort_key sr_first xs) = sort_key sr_first xs" by (auto simp: filter_id_conv)
    then have "log_paths ?l v1 = log_paths l1 v1"
      using Some c by (simp add: log_paths_def sort_key_snoc)
    then have p: "log_paths ?l ?v = log_paths l v" using log_paths_map [OF g, of ?l v1] i1(2) by simp
    have m: "sr_id \<circ> ?g = sr_id" "sr_path \<circ> ?g = sr_path" "sr_first \<circ> ?g = sr_first" by auto
    have o': "in_order ?l ?v" using i1(1) unfolding in_order_def by (simp add: m del: map_eq_conv)
    have "log_seal l v = (Inr (), ?l, ?v)" using Some f(1) luck by (simp add: log_seal_def v1_def [symmetric] seal_lucky)
    moreover have "map sr_path (vl_rows ?v) = map sr_path (vl_rows v)"
      using row_keeps_lists [OF g, of "vl_rows v1"] keep(1) by simp
    moreover have "map sr_first (own_rows ?l (vl_rows ?v)) = map sr_first (own_rows l (vl_rows v))"
      using row_keeps_lists [OF g, of "vl_rows v1" l] keep(2) own_rows_same [OF f(4)] by simp
    moreover have "vl_files ?v = vl_files v" "same_log l ?l" "al_current ?l = None" using f(4) by (simp_all add: v1_def same_log_def)
    ultimately show ?thesis using p o' by blast
  qed
qed

lemma next_row_id_new: "r \<in> set rows \<Longrightarrow> sr_id r < next_row_id rows"
proof -
  have "m \<le> foldl (\<lambda>m r. max m (sr_id r)) m rs \<and> (\<forall>r \<in> set rs. sr_id r \<le> foldl (\<lambda>m r. max m (sr_id r)) m rs)" for m rs
  proof (induction rs arbitrary: m)
    case (Cons a rs)
    from Cons.IH [of "max m (sr_id a)"] show ?case by auto
  qed simp
  then show "r \<in> set rows \<Longrightarrow> sr_id r < next_row_id rows" by (auto simp: next_row_id_def less_Suc_eq_le)
qed

text \<open>The name an append would give a new segment is free.\<close>

definition fresh_segment :: "ustr \<Rightarrow> volume \<Rightarrow> bool" where
  "fresh_segment path v \<longleftrightarrow> path \<notin> set (map sr_path (vl_rows v)) \<and> vl_files v path = None"

abbreviation new_path :: "(int \<Rightarrow> ustr) \<Rightarrow> ustr \<Rightarrow> int \<Rightarrow> append_log \<Rightarrow> ustr" where
  "new_path stamp nonce time l \<equiv> al_relative l @ lit ''/'' @ segment_name stamp nonce time"

lemma ensure_stage:
  assumes "in_order l v" and "al_current l = None" and "fresh_segment (new_path stamp nonce time l) v"
    and "\<forall>t \<in> set (map sr_first (own_rows l (vl_rows v))). t \<le> ts_from time"
  shows "\<exists>l' v' s. log_ensure stamp nonce time l v = (Inr (), l', v') \<and> in_order l' v' \<and> same_log l l' \<and>
    al_current l' = Some s \<and> sg_bytes s = 0 \<and> log_paths l' v' = log_paths l v @ [sg_relative s] \<and>
    sg_relative s = new_path stamp nonce time l \<and> vl_files v' = (vl_files v)(sg_relative s \<mapsto> [])"
proof -
  let ?path = "new_path stamp nonce time l"
  define row where "row = \<lparr>sr_id = next_row_id (vl_rows v), sr_kind = al_kind l, sr_key = al_key l, sr_path = ?path,
    sr_first = ts_from time, sr_last = ts_from time, sr_records = 0, sr_bytes = 0, sr_sealed = False\<rparr>"
  define s where "s = \<lparr>sg_id = sr_id row, sg_relative = ?path, sg_bytes = 0, sg_first = time, sg_last = time,
    sg_pending_records = 0, sg_pending_bytes = 0\<rparr>"
  let ?l = "l\<lparr>al_current := Some s\<rparr>" and ?v = "v\<lparr>vl_rows := vl_rows v @ [row], vl_files := (vl_files v)(?path \<mapsto> [])\<rparr>"
  have luck: "vl_luck v = []" using assms(1) by (simp add: in_order_def)
  have unused: "\<not> list_ex (\<lambda>r. sr_path r = ?path) (vl_rows v)" and nofile: "vl_files v ?path = None"
    using assms(3) by (auto simp: fresh_segment_def list_ex_iff image_iff)
  have "segments_create \<lparr>ns_kind = al_kind l, ns_key = al_key l, ns_path = ?path, ns_first = time\<rparr> v = (Inr row, v\<lparr>vl_rows := vl_rows v @ [row]\<rparr>)"
    using luck unused by (simp add: segments_create_def Let_def row_def)
  then have run: "log_ensure stamp nonce time l v = (Inr (), ?l, ?v)"
    using assms(2) luck nofile by (simp add: log_ensure_def segment_create_def fs_create_dir_def Let_def s_def)
  have own: "own_rows l (vl_rows ?v) = own_rows l (vl_rows v) @ [row]" by (simp add: own_rows_def row_def)
  have new: "\<forall>r \<in> set (vl_rows v). sr_id r \<noteq> sr_id row \<and> sr_path r \<noteq> ?path"
    using next_row_id_new unused by (fastforce simp: row_def list_ex_iff)
  have first: "\<forall>x \<in> set (own_rows l (vl_rows v)). sr_first x \<le> sr_first row" using assms(4) by (simp add: row_def)
  have "sr_path row = ?path" "\<not> sr_sealed row" by (simp_all add: row_def)
  moreover have "distinct (map sr_id (vl_rows ?v))" "distinct (map sr_path (vl_rows ?v))"
    using assms(1) new calculation(1) by (auto simp: in_order_def)
  moreover have "list_all fits []" "log_bytes [] = []" by simp_all
  ultimately have "in_order ?l ?v"
    using luck own first unfolding in_order_def by (auto simp: s_def intro: exI [of _ "[] :: bytes list"])
  moreover have "filter (\<lambda>r. sr_id r \<noteq> sr_id row) (sort_key sr_first (own_rows l (vl_rows v))) = sort_key sr_first (own_rows l (vl_rows v))"
    using new by (auto simp: filter_id_conv own_rows_def)
  then have "log_paths ?l ?v = log_paths l v @ [?path]"
    using assms(2) own sort_key_snoc [OF first] by (simp add: log_paths_def s_def)
  ultimately show ?thesis using run by (intro exI [of _ ?l] exI [of _ ?v] exI [of _ s]) (simp add: same_log_def s_def)
qed

lemma own_path_last:
  assumes "in_order l v" and "al_current l = Some s"
  shows "\<exists>before. log_paths l v = before @ [sg_relative s] \<and> sg_relative s \<notin> set before"
proof -
  from assms obtain xs c where c: "own_rows l (vl_rows v) = xs @ [c]" "sr_id c = sg_id s" "sr_path c = sg_relative s"
    "\<forall>x \<in> set xs. sr_first x \<le> sr_first c" unfolding in_order_def by blast
  have "distinct (map sr_path (own_rows l (vl_rows v)))" using assms(1) by (auto simp: in_order_def own_rows_def distinct_map_filter)
  then have "\<forall>x \<in> set xs. sr_path x \<noteq> sg_relative s" using c(1,3) by force
  moreover have "log_paths l v = map sr_path (filter (\<lambda>r. sr_id r \<noteq> sg_id s) (sort_key sr_first xs)) @ [sg_relative s]"
    using assms(2) c by (simp add: log_paths_def sort_key_snoc)
  ultimately show ?thesis by (intro exI [of _ "map sr_path (filter (\<lambda>r. sr_id r \<noteq> sg_id s) (sort_key sr_first xs))"]) auto
qed

lemma put_stage:
  assumes "in_order l v" and "al_current l = Some s" and "fits payload"
  shows "\<exists>l' v'. log_put (encode_frame payload) time l v = (Inr (), l', v') \<and> in_order l' v' \<and> same_log l l' \<and>
    log_paths l' v' = log_paths l v \<and> log_records l' v' = log_records l v @ [payload] \<and>
    (\<forall>q. q \<noteq> sg_relative s \<longrightarrow> vl_files v' q = vl_files v q) \<and>
    (\<exists>ps. sg_bytes s = length (log_bytes ps) \<and> file_records v' (sg_relative s) = ps @ [payload]) \<and>
    map_option (\<lambda>s. (sg_id s, sg_relative s, sg_bytes s)) (al_current l') =
      Some (sg_id s, sg_relative s, sg_bytes s + length (encode_frame payload))"
proof -
  from assms(1,2) obtain ps where ps: "list_all fits ps" "vl_files v (sg_relative s) = Some (log_bytes ps)" "sg_bytes s = length (log_bytes ps)"
    unfolding in_order_def by blast
  define s1 where "s1 = s\<lparr>sg_bytes := sg_bytes s + length (encode_frame payload),
    sg_pending_bytes := sg_pending_bytes s + length (encode_frame payload), sg_pending_records := sg_pending_records s + 1, sg_last := max (sg_last s) time\<rparr>"
  let ?l = "l\<lparr>al_current := Some s1\<rparr>" and ?v = "v\<lparr>vl_files := (vl_files v)(sg_relative s \<mapsto> log_bytes (ps @ [payload]))\<rparr>"
  have s1: "sg_id s1 = sg_id s" "sg_relative s1 = sg_relative s" "sg_bytes s1 = length (log_bytes (ps @ [payload]))" using ps(3) by (simp_all add: s1_def)
  have luck: "vl_luck v = []" using assms(1) by (simp add: in_order_def)
  have w: "segment_write (encode_frame payload) time s v = (Inr (), s1, ?v)"
    using luck ps(2) by (simp add: segment_write_def fs_append_def file_put_def s1_def)
  have fits: "list_all fits (ps @ [payload])" using ps(1) assms(3) by simp
  have i: "in_order ?l ?v" using assms(1,2) fits s1 unfolding in_order_def
    by (intro conjI allI impI) (auto intro!: exI [of _ "ps @ [payload]"])
  have paths: "log_paths ?l ?v = log_paths l v" using assms(2) s1 by (simp add: log_paths_def)
  from own_path_last [OF assms(1,2)] obtain qs where qs: "log_paths l v = qs @ [sg_relative s]" "sg_relative s \<notin> set qs" by blast
  then have "concat (map (file_records ?v) qs) = concat (map (file_records v) qs)"
    by (intro arg_cong [where f = concat] map_cong) (auto simp: file_records_def)
  moreover have last: "file_records ?v (sg_relative s) = ps @ [payload]" using frames_whole [OF fits] by (simp add: file_records_def)
  moreover have "file_records v (sg_relative s) = ps" using frames_whole [OF ps(1)] ps(2) by (simp add: file_records_def)
  ultimately have rec: "log_records ?l ?v = log_records l v @ [payload]" using qs(1) paths by (simp add: log_records_def)
  show ?thesis
  proof (cases "wants_index_flush s1")
    case False
    then have "log_put (encode_frame payload) time l v = (Inr (), ?l, ?v)" using assms(2) w by (simp add: log_put_def)
    moreover have "\<exists>ps. sg_bytes s = length (log_bytes ps) \<and> file_records ?v (sg_relative s) = ps @ [payload]"
      using last ps(3) by blast
    moreover have "\<forall>q. q \<noteq> sg_relative s \<longrightarrow> vl_files ?v q = vl_files v q" "same_log l ?l" by (simp_all add: same_log_def)
    moreover have "map_option (\<lambda>s. (sg_id s, sg_relative s, sg_bytes s)) (al_current ?l) =
        Some (sg_id s, sg_relative s, sg_bytes s + length (encode_frame payload))" using s1 ps(3) by simp
    ultimately show ?thesis using i paths rec by blast
  next
    case True
    from flush_stage [OF i] obtain l' f where f: "log_flush ?l ?v = (Inr (), l', ?v\<lparr>vl_rows := map f (vl_rows ?v)\<rparr>)"
      "row_keeps f" "\<And>r. sr_sealed (f r) = sr_sealed r" "same_log ?l l'"
      "map_option (\<lambda>s. (sg_id s, sg_relative s, sg_bytes s)) (al_current l') = map_option (\<lambda>s. (sg_id s, sg_relative s, sg_bytes s)) (al_current ?l)"
      by blast
    define v' where "v' = ?v\<lparr>vl_rows := map f (vl_rows ?v)\<rparr>"
    have io: "in_order l' v'" "log_paths l' v' = log_paths l v"
      using in_order_current [OF in_order_map [OF f(2,3) i] f(5,4)] log_paths_map [OF f(2), of ?l ?v] paths by (simp_all add: v'_def)
    have files: "vl_files v' = vl_files ?v" by (simp add: v'_def)
    then have "file_records v' = file_records ?v" by (simp add: file_records_def fun_eq_iff)
    then have "log_records l' v' = log_records l v @ [payload]" using rec io(2) paths by (simp add: log_records_def)
    moreover have "log_put (encode_frame payload) time l v = (Inr (), l', v')" using assms(2) w True f(1) by (simp add: log_put_def v'_def)
    moreover have "\<exists>ps. sg_bytes s = length (log_bytes ps) \<and> file_records v' (sg_relative s) = ps @ [payload]"
      using last ps(3) \<open>file_records v' = file_records ?v\<close> by metis
    moreover have "\<forall>q. q \<noteq> sg_relative s \<longrightarrow> vl_files v' q = vl_files v q" "same_log l l'" using files f(4) by (simp_all add: same_log_def)
    moreover have "map_option (\<lambda>s. (sg_id s, sg_relative s, sg_bytes s)) (al_current l') =
        Some (sg_id s, sg_relative s, sg_bytes s + length (encode_frame payload))" using f(5) s1 ps(3) by simp
    ultimately show ?thesis using io by blast
  qed
qed

lemma in_order_same_paths:
  assumes "vl_files v' = vl_files v" and "log_paths l' v' = log_paths l v"
  shows "log_records l' v' = log_records l v"
  using assms by (simp add: log_records_def file_records_def [abs_def])

text \<open>C36: appending to a log refines adding to the end of a list: with every call succeeding and the
  clock not behind the log's newest segment, an append, whether it goes on with the open segment or
  closes it and starts the next, adds its payload after all the records there were; the log stays in
  order; a read of a range that covers the log gives exactly that list; no other file of the volume
  changes; and a segment outgrows the limit only by holding a single record.\<close>

theorem append_adds_one_record:
  assumes "in_order l v" and "length payload \<le> MAX_RECORD_BYTES"
    and "fresh_segment (al_relative l @ lit ''/'' @ segment_name stamp nonce time) v"
    and "\<forall>t \<in> set (map sr_first (own_rows l (vl_rows v))). t \<le> ts_from time"
  shows "\<exists>l' v'. log_append stamp nonce time payload l v = (Inr (), l', v') \<and> in_order l' v' \<and> same_log l l' \<and>
    log_records l' v' = log_records l v @ [payload] \<and>
    (\<forall>start stop. covers start stop l' v' \<longrightarrow> log_read_range start stop l' v' = (Inr (log_records l v @ [payload]), v')) \<and>
    (\<forall>q. q \<notin> set (log_paths l' v') \<longrightarrow> vl_files v' q = vl_files v q) \<and>
    (\<exists>s. al_current l' = Some s \<and> (sg_bytes s \<le> al_max l \<or> file_records v' (sg_relative s) = [payload]))"
proof -
  have fits: "fits payload" using assms(2) by (simp add: fits_def)
  let ?frame = "encode_frame payload" and ?path = "al_relative l @ lit ''/'' @ segment_name stamp nonce time"
  obtain l1 v1 where roll: "log_roll (length ?frame) l v = (Inr (), l1, v1)" "in_order l1 v1" "log_paths l1 v1 = log_paths l v"
    "vl_files v1 = vl_files v" "same_log l l1" "map sr_path (vl_rows v1) = map sr_path (vl_rows v)"
    "map sr_first (own_rows l1 (vl_rows v1)) = map sr_first (own_rows l (vl_rows v))"
    "\<forall>s. al_current l1 = Some s \<longrightarrow> \<not> would_overflow (length ?frame) (al_max l) s"
  proof (cases "\<exists>s. al_current l = Some s \<and> would_overflow (length ?frame) (al_max l) s")
    case True
    with seal_stage [OF assms(1)] that show ?thesis by (auto simp: log_roll_def)
  next
    case False
    have "log_roll (length ?frame) l v = (Inr (), l, v)" using False by (auto simp: log_roll_def split: option.split)
    then show ?thesis using False assms(1) by (intro that [of l v]) (auto simp: same_log_def)
  qed
  have rel: "al_relative l1 = al_relative l" "al_max l1 = al_max l" using roll(5) by (simp_all add: same_log_def)
  obtain l2 v2 s where ens: "log_ensure stamp nonce time l1 v1 = (Inr (), l2, v2)" "in_order l2 v2" "same_log l1 l2"
    "al_current l2 = Some s" "log_records l2 v2 = log_records l v" "\<forall>q. q \<noteq> sg_relative s \<longrightarrow> vl_files v2 q = vl_files v q"
    "sg_bytes s = 0 \<or> sg_bytes s + length ?frame \<le> al_max l"
  proof (cases "al_current l1")
    case None
    have "fresh_segment (new_path stamp nonce time l1) v1" using assms(3) roll(4,6) rel by (simp add: fresh_segment_def)
    moreover have "\<forall>t \<in> set (map sr_first (own_rows l1 (vl_rows v1))). t \<le> ts_from time" using assms(4) roll(7) by metis
    ultimately obtain l2 v2 s where e: "log_ensure stamp nonce time l1 v1 = (Inr (), l2, v2)" "in_order l2 v2" "same_log l1 l2"
      "al_current l2 = Some s" "sg_bytes s = 0" "log_paths l2 v2 = log_paths l1 v1 @ [sg_relative s]"
      "sg_relative s = new_path stamp nonce time l1" "vl_files v2 = (vl_files v1)(sg_relative s \<mapsto> [])"
      using ensure_stage [OF roll(2) None] by blast
    have "frames [] = []" using frames_whole [of "[]"] by simp
    moreover have "vl_files v1 (sg_relative s) = None" using e(7) assms(3) roll(4) rel by (simp add: fresh_segment_def)
    ultimately have "file_records v2 = file_records v1" using e(8) by (simp add: file_records_def fun_eq_iff)
    moreover have "file_records v1 (sg_relative s) = []" using \<open>vl_files v1 (sg_relative s) = None\<close> by (simp add: file_records_def)
    ultimately have "log_records l2 v2 = log_records l1 v1" using e(6) by (simp add: log_records_def)
    then have "log_records l2 v2 = log_records l v" using in_order_same_paths [OF roll(4,3)] by simp
    then show ?thesis using e roll(4) by (intro that [of l2 v2 s]) auto
  next
    case (Some s)
    then show ?thesis using roll in_order_same_paths [OF roll(4,3)]
      by (intro that [of l1 v1 s]) (auto simp: log_ensure_def same_log_def would_overflow_def)
  qed
  from put_stage [OF ens(2,4) fits, of time] obtain l' v' ps where put: "log_put ?frame time l2 v2 = (Inr (), l', v')" "in_order l' v'"
    "same_log l2 l'" "log_paths l' v' = log_paths l2 v2" "log_records l' v' = log_records l2 v2 @ [payload]"
    "\<forall>q. q \<noteq> sg_relative s \<longrightarrow> vl_files v' q = vl_files v2 q"
    "sg_bytes s = length (log_bytes ps)" "file_records v' (sg_relative s) = ps @ [payload]"
    "map_option (\<lambda>s. (sg_id s, sg_relative s, sg_bytes s)) (al_current l') = Some (sg_id s, sg_relative s, sg_bytes s + length ?frame)"
    by blast
  from put(9) obtain t where t: "al_current l' = Some t" "sg_relative t = sg_relative s" "sg_bytes t = sg_bytes s + length ?frame" by auto
  have "log_append stamp nonce time payload l v = (Inr (), l', v')"
    using assms(2) roll(1) ens(1) put(1) by (simp add: log_append_def Let_def)
  moreover have "same_log l l'" using roll(5) ens(3) put(3) by (simp add: same_log_def)
  moreover have rec: "log_records l' v' = log_records l v @ [payload]" using put(5) ens(5) by simp
  moreover have "log_read_range start stop l' v' = (Inr (log_records l v @ [payload]), v')" if "covers start stop l' v'" for start stop
    using read_covering [OF _ that] put(2) rec by (simp add: in_order_def)
  moreover have "sg_relative s \<in> set (log_paths l' v')" using own_path_last [OF put(2) t(1)] t(2) by auto
  then have "\<forall>q. q \<notin> set (log_paths l' v') \<longrightarrow> vl_files v' q = vl_files v q" using put(6) ens(6) by metis
  moreover have "ps = []" if "sg_bytes s = 0" using that put(7) frame_nonempty by (cases ps) auto
  then have "sg_bytes t \<le> al_max l \<or> file_records v' (sg_relative t) = [payload]" using ens(7) put(8) t by auto
  ultimately show ?thesis using put(2) t(1) by blast
qed

end
