(* ===== verification/Log_Examples.thy ===== *)
theory Log_Examples
  imports Log_Append
begin

definition demo_segment :: segment where
  "demo_segment = \<lparr>sg_id = 1, sg_relative = lit ''a'', sg_bytes = 2, sg_first = 0, sg_last = 0, sg_pending_records = 0, sg_pending_bytes = 0\<rparr>"

definition demo_row :: seg_row where
  "demo_row = \<lparr>sr_id = 1, sr_kind = lit ''cot'', sr_key = lit ''u'', sr_path = lit ''a'', sr_first = 0, sr_last = 0,
     sr_records = 1, sr_bytes = 2, sr_sealed = False\<rparr>"

definition demo_log :: append_log where
  "demo_log = \<lparr>al_kind = lit ''cot'', al_key = lit ''u'', al_relative = lit ''d'', al_max = 3, al_current = Some demo_segment\<rparr>"

definition demo_volume :: volume where
  "demo_volume = \<lparr>vl_files = [lit ''a'' \<mapsto> [1, 7]], vl_rows = [demo_row], vl_luck = []\<rparr>"

lemma small_frame: "length p < 128 \<Longrightarrow> encode_frame p = of_nat (length p) # p"
proof -
  assume p: "length p < 128"
  have n: "unat (of_nat (length p) :: 64 word) = length p" using p by (simp add: unat_of_nat take_bit_nat_eq_self)
  then have "\<not> (0x80 :: 64 word) \<le> of_nat (length p)" using p by (simp add: word_le_nat_alt)
  moreover have "(ucast (of_nat (length p) :: 64 word) :: byte) = of_nat (length p)"
    by (metis n of_nat_unat)
  ultimately show ?thesis by (simp add: encode_frame_def rec_put_varint.simps)
qed

lemma demo_in_order: "in_order demo_log demo_volume"
  by (simp add: in_order_def demo_log_def demo_volume_def demo_segment_def own_rows_def demo_row_def)
    (intro exI [of _ "[[7]]"], simp add: small_frame fits_def MAX_RECORD_BYTES_def)

theorem append_adds_one_record_witness:
  "\<exists>l' v'. log_append (\<lambda>_. lit ''t'') (lit ''n'') 5000000 [8, 9] demo_log demo_volume = (Inr (), l', v') \<and>
     log_records l' v' = [[7], [8, 9]]"
proof -
  have "log_records demo_log demo_volume = [[7]]"
    using frames_whole [of "[[7]]"]
    by (simp add: log_records_def log_paths_def file_records_def own_rows_def demo_log_def demo_volume_def demo_segment_def
        demo_row_def small_frame fits_def MAX_RECORD_BYTES_def)
  moreover have "length [8, 9 :: byte] \<le> MAX_RECORD_BYTES" by (simp add: MAX_RECORD_BYTES_def)
  moreover have "fresh_segment (al_relative demo_log @ lit ''/'' @ segment_name (\<lambda>_. lit ''t'') (lit ''n'') 5000000) demo_volume"
    by (simp add: fresh_segment_def demo_log_def demo_volume_def demo_row_def segment_name_def SEGMENT_SUFFIX_def lit_def)
  moreover have "\<forall>t \<in> set (map sr_first (own_rows demo_log (vl_rows demo_volume))). t \<le> ts_from 5000000"
    by (simp add: own_rows_def demo_log_def demo_volume_def demo_row_def ts_from_def)
  ultimately show ?thesis using append_adds_one_record [OF demo_in_order] by fastforce
qed

text \<open>A write that failed part way leaves its bytes, and the log goes on after them: what is read back
  is not what was written.\<close>

lemma torn_write_misleads_reader:
  "\<exists>v1 l2 v2. log_append stamp nonce 0 [7, 7, 7] (demo_log\<lparr>al_max := 9\<rparr>) (demo_volume\<lparr>vl_luck := [Some 1]\<rparr>) = 
      (Inl (NotWritten (lit ''a'')), (demo_log\<lparr>al_max := 9\<rparr>), v1) \<and>
     log_append stamp nonce 0 [4, 5] (demo_log\<lparr>al_max := 9\<rparr>) v1 = (Inr (), l2, v2) \<and>
     file_records v2 (lit ''a'') = [[7], [2, 4, 5]]"
proof -
  have f: "frames [1, 7, 3, 2, 4, 5] = [[7], [2, 4, 5]]"
    using frames_whole [of "[[7], [2, 4, 5]]"] by (simp add: small_frame fits_def MAX_RECORD_BYTES_def)
  show ?thesis
    by (simp add: log_append_def Let_def small_frame MAX_RECORD_BYTES_def log_roll_def demo_log_def demo_segment_def would_overflow_def
        log_ensure_def log_put_def segment_write_def fs_append_def attempt_def demo_volume_def file_put_def wants_index_flush_def
        INDEX_FLUSH_RECORDS_def INDEX_FLUSH_BYTES_def file_records_def f)
qed

text \<open>A row deleted under an open segment frees its number: the next segment, of any log, has it, and
  the first log's flush is counted there.\<close>

lemma reused_row_takes_other_counts:
  "\<exists>v1 l2 v2 l3 v3 row. segments_delete 1 demo_volume = (Inr True, v1) \<and>
     log_append (\<lambda>_. lit ''t'') (lit ''n'') 0 [4] (demo_log\<lparr>al_key := lit ''w'', al_current := None\<rparr>) v1 = (Inr (), l2, v2) \<and>
     log_flush (demo_log\<lparr>al_current := Some (demo_segment\<lparr>sg_pending_records := 5, sg_pending_bytes := 60\<rparr>)\<rparr>) v2 = (Inr (), l3, v3) \<and>
     vl_rows v3 = [row] \<and> sr_key row = lit ''w'' \<and> sr_records row = 5 \<and> sr_bytes row = 60"
  by (simp add: segments_delete_def delete_rows_def demo_volume_def demo_row_def demo_log_def demo_segment_def log_append_def Let_def small_frame
      MAX_RECORD_BYTES_def log_roll_def log_ensure_def segment_create_def fs_create_dir_def segments_create_def next_row_id_def
      log_put_def segment_write_def fs_append_def file_put_def wants_index_flush_def INDEX_FLUSH_RECORDS_def INDEX_FLUSH_BYTES_def
      log_flush_def take_pending_def segments_record_append_def row_append_def segment_name_def SEGMENT_SUFFIX_def lit_def)

text \<open>Three bytes of four survive: the first record does, and half of the second is cut.\<close>

theorem crash_keeps_whole_records_witness:
  "\<exists>l v'. log_open (lit ''cot'') (lit ''u'') 9 (demo_volume\<lparr>vl_files := [lit ''a'' \<mapsto> [1, 7, 1]]\<rparr>) = (Inr l, v') \<and>
     vl_files v' (lit ''a'') = Some [1, 7]"
proof -
  let ?v = "demo_volume\<lparr>vl_files := [lit ''a'' \<mapsto> [1, 7, 1]]\<rparr>" and ?ps = "[[7], [8]] :: bytes list"
  have bytes: "log_bytes ?ps = [1, 7, 1, 8]" by (simp add: small_frame)
  have lit: "encode_component (lit ''cot'') = Inr (lit ''cot'')" "encode_component (lit ''u'') = Inr (lit ''u'')"
    by (simp_all add: encode_component_def utf8_lit raw_def MAX_STREAM_KEY_BYTES_def plain_byte_def) (simp_all add: lit_def)
  have "\<exists>m l v'. log_open (lit ''cot'') (lit ''u'') 9 ?v = (Inr l, v') \<and> m \<le> 2 \<and> length (log_bytes (take m ?ps)) \<le> 3 \<and>
      (m < 2 \<longrightarrow> 3 < length (log_bytes (take (Suc m) ?ps))) \<and> vl_files v' = (vl_files ?v)(lit ''a'' \<mapsto> log_bytes (take m ?ps))"
  proof -
    have "segments_open_segment (lit ''cot'') (lit ''u'') ?v = (Inr (Some demo_row), ?v)"
      by (simp add: segments_open_segment_def demo_volume_def demo_row_def)
    moreover have "vl_luck ?v = []" "distinct (map sr_id (vl_rows ?v))" "sr_last demo_row = ts_from (sr_last demo_row)"
      "sr_records demo_row = 1" by (simp_all add: demo_volume_def demo_row_def ts_from_def)
    moreover have "list_all fits ?ps" "(1 :: nat) \<le> length ?ps" by (simp_all add: fits_def MAX_RECORD_BYTES_def)
    moreover have "sr_bytes demo_row = length (log_bytes (take 1 ?ps))" by (simp add: demo_row_def small_frame)
    moreover have "3 \<le> length (log_bytes ?ps)" by (simp add: small_frame)
    moreover have path: "sr_path demo_row = lit ''a''" by (simp add: demo_row_def)
    moreover have "vl_files ?v (sr_path demo_row) = Some (take 3 (log_bytes ?ps))" by (simp add: path small_frame)
    ultimately have "\<exists>m l v'. log_open (lit ''cot'') (lit ''u'') 9 ?v = (Inr l, v') \<and> m \<le> length ?ps \<and> length (log_bytes (take m ?ps)) \<le> 3 \<and>
        (m < length ?ps \<longrightarrow> 3 < length (log_bytes (take (Suc m) ?ps))) \<and>
        vl_files v' = (vl_files ?v)(sr_path demo_row \<mapsto> log_bytes (take m ?ps))"
      using crash_keeps_whole_records [of ?v "lit ''cot''" "lit ''cot''" "lit ''u''" "lit ''u''" demo_row ?ps 1 3 9, OF _ lit] by blast
    then show ?thesis unfolding path by (simp add: numeral_2_eq_2)
  qed
  then obtain m l v' where m: "log_open (lit ''cot'') (lit ''u'') 9 ?v = (Inr l, v')" "m \<le> 2" "length (log_bytes (take m ?ps)) \<le> 3"
    "m < 2 \<longrightarrow> 3 < length (log_bytes (take (Suc m) ?ps))" "vl_files v' = (vl_files ?v)(lit ''a'' \<mapsto> log_bytes (take m ?ps))" by blast
  have "m = 0 \<or> m = 1 \<or> m = 2" using m(2) by auto
  then have "m = 1" using m(3,4) by (auto simp: small_frame)
  with m(1,5) show ?thesis by (simp add: small_frame)
qed

text \<open>Two finished segments of two bytes each and a cap of one: without the newer nothing would be held, so it stays.\<close>

theorem retention_takes_only_what_it_may_witness:
  "\<exists>r v'. remove_paged (OverByteCap (lit ''cot'') 1) 5
       (demo_volume\<lparr>vl_rows := [demo_row\<lparr>sr_sealed := True\<rparr>, demo_row\<lparr>sr_id := 2, sr_path := lit ''b'', sr_sealed := True\<rparr>]\<rparr>) = Some (r, v') \<and>
     demo_row\<lparr>sr_id := 2, sr_path := lit ''b'', sr_sealed := True\<rparr> \<in> set (vl_rows v')"
proof -
  let ?q = "demo_row\<lparr>sr_id := 2, sr_path := lit ''b'', sr_sealed := True\<rparr>"
  let ?v = "demo_volume\<lparr>vl_rows := [demo_row\<lparr>sr_sealed := True\<rparr>, ?q]\<rparr>"
  have "\<not> may_go (OverByteCap (lit ''cot'') 1) (vl_rows ?v) ?q"
    by (simp add: spare_def held_of_def sweep_order_def through_def demo_row_def)
  moreover have "distinct (map sr_id (vl_rows ?v))" "distinct (map sr_path (vl_rows ?v))" by (simp_all add: demo_row_def lit_def)
  moreover have "?q \<in> set (vl_rows ?v)" by simp
  ultimately show ?thesis using retention_takes_only_what_it_may [of ?v "OverByteCap (lit ''cot'') 1" 5] by blast
qed

text \<open>Two finished segments of two bytes each and a cap of one: the older goes, the newer stays.\<close>

theorem retention_keeps_the_cap_witness:
  "\<exists>r v'. remove_paged (OverByteCap (lit ''cot'') 1) 5
       (demo_volume\<lparr>vl_rows := [demo_row\<lparr>sr_sealed := True\<rparr>, demo_row\<lparr>sr_id := 2, sr_path := lit ''b'', sr_sealed := True\<rparr>]\<rparr>) = Some (r, v') \<and>
     1 \<le> kind_bytes (lit ''cot'') v'"
proof -
  let ?v = "demo_volume\<lparr>vl_rows := [demo_row\<lparr>sr_sealed := True\<rparr>, demo_row\<lparr>sr_id := 2, sr_path := lit ''b'', sr_sealed := True\<rparr>]\<rparr>"
  have "kind_bytes (lit ''cot'') ?v = 4" by (simp add: kind_bytes_def demo_volume_def demo_row_def)
  moreover have "distinct (map sr_id (vl_rows ?v))" by (simp add: demo_row_def)
  moreover have "\<exists>r v'. remove_paged (OverByteCap (lit ''cot'') 1) 5 ?v = Some (r, v')"
    unfolding remove_paged_def
    by (subst remove_pages.simps)
      (simp add: segments_over_byte_cap_def demo_volume_def demo_row_def Let_def oldest_rows_def remove_indexed_def
        remove_batches.simps REMOVE_BATCH_def fs_remove_def segments_delete_many_def delete_rows_def)
  ultimately show ?thesis using retention_keeps_the_cap [of ?v "lit ''cot''" 1 5] by fastforce
qed

end
