(* ===== verification/Limit_Keys.thy ===== *)
theory Limit_Keys
  imports Utf8
begin

unbundle bit_operations_syntax

text \<open>
  What the sign-in limiter counts (\<open>rustak-server/src/auth/ratelimit/key.rs\<close> and \<open>class.rs\<close>):
  addresses cut to a prefix, folded subjects, the bytes the keyed hash is fed, and the class a
  subject is shown under.  SipHash and \<open>char::to_lowercase\<close> are parameters; so is the text of an IP
  address, of which only that parsing undoes printing is used.
\<close>

section \<open>Addresses\<close>

text \<open>By their octets, four or sixteen.\<close>

datatype ip = V4 bytes | V6 bytes

fun ip_ok :: "ip \<Rightarrow> bool" where
  "ip_ok (V4 bs) \<longleftrightarrow> length bs = 4"
| "ip_ok (V6 bs) \<longleftrightarrow> length bs = 16"

definition to_ipv4_mapped :: "bytes \<Rightarrow> bytes option" where
  "to_ipv4_mapped bs = (if length bs = 16 \<and> take 12 bs = replicate 10 0 @ [0xFF, 0xFF] then Some (drop 12 bs) else None)"

fun canonical :: "ip \<Rightarrow> ip" where
  "canonical (V6 bs) = (case to_ipv4_mapped bs of None \<Rightarrow> V6 bs | Some v4 \<Rightarrow> V4 v4)"
| "canonical (V4 bs) = V4 bs"

record source =
  so_network :: "ip option"
  so_prefix :: nat

definition IPV4_HOST :: nat where "IPV4_HOST = 32"
definition IPV6_HOST :: nat where "IPV6_HOST = 64"
definition IPV6_NETWORK :: nat where "IPV6_NETWORK = 48"

definition source_v4 :: "bytes \<Rightarrow> source" where
  "source_v4 octets = \<lparr>so_network = Some (V4 octets), so_prefix = IPV4_HOST\<rparr>"

definition source_v6 :: "bytes \<Rightarrow> nat \<Rightarrow> source" where
  "source_v6 octets prefix =
     \<lparr>so_network = Some (V6 (take (prefix div 8) octets @ replicate (length octets - prefix div 8) 0)), so_prefix = prefix\<rparr>"

definition source_host :: "ip option \<Rightarrow> source" where
  "source_host address =
     (case map_option canonical address of
        Some (V4 v4) \<Rightarrow> source_v4 v4
      | Some (V6 v6) \<Rightarrow> source_v6 v6 IPV6_HOST
      | None \<Rightarrow> \<lparr>so_network = None, so_prefix = 0\<rparr>)"

definition source_network :: "ip option \<Rightarrow> source option" where
  "source_network address =
     (case map_option canonical address of
        Some (V6 v6) \<Rightarrow> Some (source_v6 v6 IPV6_NETWORK)
      | _ \<Rightarrow> None)"

definition source_prefix :: "source \<Rightarrow> nat option" where
  "source_prefix s = map_option (\<lambda>_. so_prefix s) (so_network s)"

datatype domain = Host | Network | Pair

fun domain_byte :: "domain \<Rightarrow> byte" where
  "domain_byte Host = 1"
| "domain_byte Network = 2"
| "domain_byte Pair = 3"

definition source_domain :: "source \<Rightarrow> domain" where
  "source_domain s = (if so_prefix s = IPV6_NETWORK then Network else Host)"

text \<open>The text of an address, as the standard library has it.\<close>

record ip_text =
  show_ip :: "ip \<Rightarrow> ustr"
  parse_ip :: "ustr \<Rightarrow> ip option"

definition source_shown :: "ip_text \<Rightarrow> source \<Rightarrow> ustr" where
  "source_shown A s =
     (case so_network s of
        Some network \<Rightarrow> show_ip A network @ lit ''/'' @ dec_of_nat (so_prefix s)
      | None \<Rightarrow> lit ''unknown'')"

definition split_slash :: "ustr \<Rightarrow> (ustr \<times> ustr) option" where
  "split_slash s = (if 47 \<in> set s then Some (takeWhile (\<lambda>c. c \<noteq> 47) s, tl (dropWhile (\<lambda>c. c \<noteq> 47) s)) else None)"

definition parse_shown :: "ip_text \<Rightarrow> ustr \<Rightarrow> source option" where
  "parse_shown A shown =
     (if shown = lit ''unknown'' then Some (source_host None)
      else case split_slash shown of
        None \<Rightarrow> None
      | Some (address, prefix) \<Rightarrow>
          (case (parse_ip A address, parse_uint 255 prefix) of
             (Some address, Some prefix) \<Rightarrow>
               let source = (case canonical address of
                     V4 v4 \<Rightarrow> if prefix = IPV4_HOST then Some (source_v4 v4) else None
                   | V6 v6 \<Rightarrow> if prefix = IPV6_HOST \<or> prefix = IPV6_NETWORK then Some (source_v6 v6 prefix) else None)
               in (case source of None \<Rightarrow> None | Some s \<Rightarrow> if so_network s = Some address then Some s else None)
           | _ \<Rightarrow> None))"

section \<open>Subjects\<close>

definition fold_subject :: "(uchar \<Rightarrow> ustr) \<Rightarrow> ustr \<Rightarrow> ustr" where
  "fold_subject lower subject = concat (map lower (trim subject))"

definition SHOWN_BYTES :: nat where "SHOWN_BYTES = 96"

record shown_key =
  sk_text :: ustr
  sk_cut :: bool

text \<open>Whole characters while they fit; after the first that does not, none.\<close>

definition keep_char :: "shown_key \<Rightarrow> uchar \<Rightarrow> shown_key" where
  "keep_char shown c =
     (if sk_cut shown \<or> SHOWN_BYTES < length (utf8 (sk_text shown)) + length (utf8_char c) then shown\<lparr>sk_cut := True\<rparr>
      else shown\<lparr>sk_text := sk_text shown @ [c]\<rparr>)"

definition shown_of :: "(uchar \<Rightarrow> ustr) \<Rightarrow> ustr \<Rightarrow> shown_key" where
  "shown_of lower subject = foldl keep_char \<lparr>sk_text = [], sk_cut = False\<rparr> (fold_subject lower subject)"

section \<open>The hash\<close>

text \<open>SipHash-2-4 under two key words, of the bytes written to it.\<close>

type_synonym sip = "64 word \<Rightarrow> 64 word \<Rightarrow> bytes \<Rightarrow> 64 word"

record keyed_hash =
  kh_k0 :: "64 word"
  kh_k1 :: "64 word"

definition source_write :: "source \<Rightarrow> bytes" where
  "source_write s =
     (case so_network s of
        Some (V4 v4) \<Rightarrow> 4 # v4
      | Some (V6 v6) \<Rightarrow> 6 # v6
      | None \<Rightarrow> [0]) @ [of_nat (so_prefix s)]"

definition source_input :: "source \<Rightarrow> bytes" where
  "source_input s = domain_byte (source_domain s) # source_write s"

definition pair_input :: "(uchar \<Rightarrow> ustr) \<Rightarrow> source \<Rightarrow> ustr \<Rightarrow> bytes" where
  "pair_input lower s subject = domain_byte Pair # source_write s @ utf8 (fold_subject lower subject)"

definition keyed_source :: "sip \<Rightarrow> keyed_hash \<Rightarrow> source \<Rightarrow> 64 word" where
  "keyed_source H k s = H (kh_k0 k) (kh_k1 k) (source_input s)"

definition keyed_pair :: "sip \<Rightarrow> (uchar \<Rightarrow> ustr) \<Rightarrow> keyed_hash \<Rightarrow> source \<Rightarrow> ustr \<Rightarrow> 64 word" where
  "keyed_pair H lower k s subject = H (kh_k0 k) (kh_k1 k) (pair_input lower s subject)"

section \<open>Classes\<close>

datatype lockout_class = Cl_Address | Cl_Account | Cl_Client | Cl_Source

fun class_index :: "lockout_class \<Rightarrow> nat" where
  "class_index Cl_Address = 0"
| "class_index Cl_Account = 1"
| "class_index Cl_Client = 2"
| "class_index Cl_Source = 3"

definition all_classes :: "lockout_class list" where
  "all_classes = [Cl_Address, Cl_Account, Cl_Client, Cl_Source]"

definition endpoint_subjects :: "ustr list" where
  "endpoint_subjects = [lit ''passkey'', lit ''setup-token'', lit ''auth-token'', lit ''oauth-token'', lit ''workload-identity'']"

definition CLIENT_PREFIX :: ustr where "CLIENT_PREFIX = lit ''oauth-client:''"

definition classify :: "ustr \<Rightarrow> lockout_class \<times> ustr" where
  "classify subject =
     (if subject \<in> set endpoint_subjects then (Cl_Address, subject)
      else case strip_prefix CLIENT_PREFIX subject of
        Some client \<Rightarrow> (Cl_Client, client)
      | None \<Rightarrow> (Cl_Account, subject))"

definition subject_for :: "lockout_class \<Rightarrow> ustr \<Rightarrow> ustr option" where
  "subject_for cls key =
     (case cls of
        Cl_Source \<Rightarrow> None
      | Cl_Client \<Rightarrow> if classify (CLIENT_PREFIX @ key) = (cls, key) then Some (CLIENT_PREFIX @ key) else None
      | _ \<Rightarrow> if classify key = (cls, key) then Some key else None)"

record class_counters =
  cc_refusals :: "64 word list"
  cc_lockouts :: "64 word list"

definition counters_none :: class_counters where
  "counters_none = \<lparr>cc_refusals = replicate (length all_classes) 0, cc_lockouts = replicate (length all_classes) 0\<rparr>"

definition class_refused :: "lockout_class \<Rightarrow> class_counters \<Rightarrow> class_counters" where
  "class_refused cls c = c\<lparr>cc_refusals := (cc_refusals c)[class_index cls := cc_refusals c ! class_index cls + 1]\<rparr>"

definition class_locked :: "lockout_class \<Rightarrow> class_counters \<Rightarrow> class_counters" where
  "class_locked cls c = c\<lparr>cc_lockouts := (cc_lockouts c)[class_index cls := cc_lockouts c ! class_index cls + 1]\<rparr>"

definition class_snapshot :: "class_counters \<Rightarrow> (lockout_class \<times> 64 word \<times> 64 word) list" where
  "class_snapshot c = map (\<lambda>cls. (cls, cc_refusals c ! class_index cls, cc_lockouts c ! class_index cls)) all_classes"

section \<open>Which keys are told apart\<close>

lemma strip_client: "strip_prefix CLIENT_PREFIX (CLIENT_PREFIX @ t) = Some t"
  by (simp add: strip_prefix_def)

lemma strip_client_Some: "strip_prefix CLIENT_PREFIX s = Some t \<Longrightarrow> s = CLIENT_PREFIX @ t"
  by (auto simp: strip_prefix_def starts_with_iff split: if_splits)

lemma class_of_subject: "subject_for cls key = Some subject \<longleftrightarrow> classify subject = (cls, key)"
  by (cases cls) (auto simp: subject_for_def classify_def strip_client dest: strip_client_Some split: option.splits if_splits)

lemma source_write_inj:
  assumes "list_all ip_ok (map the (filter (\<lambda>n. n \<noteq> None) [so_network s, so_network s']))"
    and "so_prefix s < 256" and "so_prefix s' < 256" and "source_write s @ a = source_write s' @ b"
  shows "s = s' \<and> a = b"
proof -
  have p: "so_prefix s = so_prefix s'" if "(of_nat (so_prefix s) :: byte) = of_nat (so_prefix s')"
    using arg_cong [OF that, of unat] assms(2,3) by (simp add: unat_of_nat take_bit_nat_eq_self)
  show ?thesis
  proof (cases "so_network s")
    case None
    with assms(1,4) p show ?thesis
      by (cases "so_network s'") (auto simp: source_write_def intro: source.equality split: ip.splits)
  next
    case (Some n)
    with assms(1,4) p show ?thesis
      by (cases "so_network s'"; cases n; cases "the (so_network s')")
        (auto simp: source_write_def intro: source.equality split: ip.splits)
  qed
qed

lemma source_write_inj':
  assumes "\<forall>n. so_network s = Some n \<longrightarrow> ip_ok n" and "\<forall>n. so_network s' = Some n \<longrightarrow> ip_ok n"
    and "so_prefix s < 256" and "so_prefix s' < 256"
  shows "source_write s @ a = source_write s' @ b \<longleftrightarrow> s = s' \<and> a = b"
  using source_write_inj [of s s' a b] assms by auto

lemma source_host_ok: "(\<forall>i. a = Some i \<longrightarrow> ip_ok i) \<Longrightarrow> (\<forall>n. so_network (source_host a) = Some n \<longrightarrow> ip_ok n) \<and> so_prefix (source_host a) \<in> {0, 32, 64}"
  by (cases a; cases "the a") (auto simp: source_host_def source_v4_def source_v6_def to_ipv4_mapped_def IPV4_HOST_def IPV6_HOST_def split: option.splits)

lemma source_network_ok:
  "(\<forall>i. a = Some i \<longrightarrow> ip_ok i) \<Longrightarrow> source_network a = Some s \<Longrightarrow> (\<forall>n. so_network s = Some n \<longrightarrow> ip_ok n) \<and> so_prefix s = 48"
  by (cases a; cases "the a") (auto simp: source_network_def source_v6_def to_ipv4_mapped_def IPV6_NETWORK_def split: option.splits)

text \<open>C34: what the limiter counts apart the hash is fed apart: two addresses are one key exactly when they
  are the same IPv4 address, mapped or not, or share the first 64 bits; two networks are one exactly
  when they share the first 48; a /48 is never a /64; a pair is never an address, a /64 or a /48; and
  two pairs are one exactly when the cut addresses and the folded subjects agree.\<close>

theorem keys_are_told_apart:
  assumes "\<forall>i. a = Some i \<longrightarrow> ip_ok i" and "\<forall>i. b = Some i \<longrightarrow> ip_ok i"
    and "list_all is_scalar (fold_subject lower s)" and "list_all is_scalar (fold_subject lower t)"
  shows "(source_input (source_host a) = source_input (source_host b) \<longleftrightarrow> source_host a = source_host b) \<and>
    (\<forall>n. source_network b = Some n \<longrightarrow> source_input (source_host a) \<noteq> source_input n \<and>
       source_input n \<noteq> pair_input lower (source_host a) s) \<and>
    (\<forall>m n. source_network a = Some m \<and> source_network b = Some n \<longrightarrow> (source_input m = source_input n \<longleftrightarrow> m = n)) \<and>
    source_input (source_host a) \<noteq> pair_input lower (source_host b) s \<and>
    (pair_input lower (source_host a) s = pair_input lower (source_host b) t \<longleftrightarrow>
       source_host a = source_host b \<and> fold_subject lower s = fold_subject lower t) \<and>
    (\<forall>x y. a = Some (V6 x) \<and> b = Some (V6 y) \<and> to_ipv4_mapped x = None \<and> to_ipv4_mapped y = None \<longrightarrow>
       (source_host a = source_host b \<longleftrightarrow> take 8 x = take 8 y) \<and>
       (\<exists>m n. source_network a = Some m \<and> source_network b = Some n \<and> (m = n \<longleftrightarrow> take 6 x = take 6 y))) \<and>
    (\<forall>x y. a = Some (V4 x) \<and> b = Some (V6 (replicate 10 0 @ [0xFF, 0xFF] @ y)) \<longrightarrow> (source_host a = source_host b \<longleftrightarrow> x = y))"
proof -
  note ok = source_host_ok [OF assms(1)] source_host_ok [OF assms(2)]
  have lt: "so_prefix (source_host a) < 256" "so_prefix (source_host b) < 256" using ok by auto
  have dom: "source_domain (source_host c) = Host" for c
    by (auto simp: source_host_def source_domain_def source_v4_def source_v6_def IPV4_HOST_def IPV6_HOST_def IPV6_NETWORK_def split: option.splits ip.splits)
  have "source_input (source_host a) = source_input (source_host b) \<longleftrightarrow> source_host a = source_host b"
    using source_write_inj' [of "source_host a" "source_host b" "[]" "[]"] ok lt by (auto simp: source_input_def)
  moreover have "source_input (source_host a) \<noteq> source_input n \<and> source_input n \<noteq> pair_input lower (source_host a) s"
    if "source_network b = Some n" for n
  proof -
    have "source_domain n = Network" using source_network_ok [OF assms(2) that] by (simp add: source_domain_def IPV6_NETWORK_def)
    then show ?thesis by (simp add: source_input_def pair_input_def dom)
  qed
  moreover have "source_input m = source_input n \<longleftrightarrow> m = n" if "source_network a = Some m" "source_network b = Some n" for m n
    using source_write_inj' [of m n "[]" "[]"] source_network_ok [OF assms(1) that(1)] source_network_ok [OF assms(2) that(2)]
    by (auto simp: source_input_def)
  moreover have "source_input (source_host a) \<noteq> pair_input lower (source_host b) s"
    by (simp add: source_input_def pair_input_def dom)
  moreover have "utf8 (fold_subject lower s) = utf8 (fold_subject lower t) \<longleftrightarrow> fold_subject lower s = fold_subject lower t"
    using from_utf8_utf8 assms(3,4) by (metis option.inject)
  then have "pair_input lower (source_host a) s = pair_input lower (source_host b) t \<longleftrightarrow>
       source_host a = source_host b \<and> fold_subject lower s = fold_subject lower t"
    using source_write_inj' [of "source_host a" "source_host b" "utf8 (fold_subject lower s)" "utf8 (fold_subject lower t)"] ok lt
    by (auto simp: pair_input_def)
  moreover have "source_host a = source_host b \<longleftrightarrow> take 8 x = take 8 y"
    if "a = Some (V6 x)" "b = Some (V6 y)" "to_ipv4_mapped x = None" "to_ipv4_mapped y = None" for x y
    using assms(1,2) that by (auto simp: source_host_def source_v6_def IPV6_HOST_def)
  moreover have "\<exists>m n. source_network a = Some m \<and> source_network b = Some n \<and> (m = n \<longleftrightarrow> take 6 x = take 6 y)"
    if "a = Some (V6 x)" "b = Some (V6 y)" "to_ipv4_mapped x = None" "to_ipv4_mapped y = None" for x y
    using assms(1,2) that by (auto simp: source_network_def source_v6_def IPV6_NETWORK_def)
  moreover have "source_host a = source_host b \<longleftrightarrow> x = y"
    if "a = Some (V4 x)" "b = Some (V6 (replicate 10 0 @ [0xFF, 0xFF] @ y))" for x y
    using assms(1,2) that by (auto simp: source_host_def source_v4_def to_ipv4_mapped_def)
  ultimately show ?thesis by blast
qed

theorem keys_are_told_apart_witness:
  "source_input (source_v6 (replicate 16 9) IPV6_NETWORK) \<noteq> pair_input (\<lambda>c. [c]) (source_host (Some (V4 [192, 0, 2, 1]))) (lit ''ada'') \<and>
   pair_input (\<lambda>c. [c]) (source_host (Some (V4 [192, 0, 2, 1]))) (lit ''ada'') \<noteq>
   pair_input (\<lambda>c. [c]) (source_host (Some (V4 [192, 0, 2, 1]))) (lit ''bob'')"
proof -
  have f: "fold_subject (\<lambda>c. [c]) (lit ''ada'') = lit ''ada''" "fold_subject (\<lambda>c. [c]) (lit ''bob'') = lit ''bob''"
    by (simp_all add: fold_subject_def trim_def is_whitespace_def lit_def)
  have "list_all is_scalar (lit ''ada'')" "list_all is_scalar (lit ''bob'')" by (simp_all add: lit_def is_scalar_def)
  with f have s: "list_all is_scalar (fold_subject (\<lambda>c. [c]) (lit ''ada''))" "list_all is_scalar (fold_subject (\<lambda>c. [c]) (lit ''bob''))"
    by simp_all
  have n: "source_network (Some (V6 (replicate 16 9))) = Some (source_v6 (replicate 16 9) IPV6_NETWORK)"
    by (auto simp: source_network_def to_ipv4_mapped_def dest: arg_cong [of _ _ hd])
  from s f keys_are_told_apart [of "Some (V4 [192, 0, 2, 1])" "Some (V4 [192, 0, 2, 1])" "\<lambda>c. [c]" "lit ''ada''" "lit ''bob''"]
  have "pair_input (\<lambda>c. [c]) (source_host (Some (V4 [192, 0, 2, 1]))) (lit ''ada'') \<noteq>
   pair_input (\<lambda>c. [c]) (source_host (Some (V4 [192, 0, 2, 1]))) (lit ''bob'')" by simp
  moreover from s n keys_are_told_apart [of "Some (V4 [192, 0, 2, 1])" "Some (V6 (replicate 16 9))" "\<lambda>c. [c]" "lit ''ada''" "lit ''bob''"]
  have "source_input (source_v6 (replicate 16 9) IPV6_NETWORK) \<noteq> pair_input (\<lambda>c. [c]) (source_host (Some (V4 [192, 0, 2, 1]))) (lit ''ada'')"
    by simp
  ultimately show ?thesis by simp
qed

text \<open>A prefix is read as any unsigned number is, so more is read than was ever shown.\<close>

lemma parse_shown_reads_more:
  assumes "parse_ip A (lit ''192.0.2.1'') = Some (V4 [192, 0, 2, 1])"
  shows "parse_shown A (lit ''192.0.2.1/+032'') = Some (source_v4 [192, 0, 2, 1])"
proof -
  have "split_slash (lit ''192.0.2.1/+032'') = Some (lit ''192.0.2.1'', lit ''+032'')"
    by (simp add: split_slash_def lit_def)
  moreover have "parse_uint 255 (lit ''+032'') = Some 32"
    by (simp add: parse_uint_def lit_def is_digit_def digits_value_def)
  ultimately show ?thesis using assms
    by (simp add: parse_shown_def Let_def IPV4_HOST_def source_v4_def)
qed

end
