(* ===== verification/Limit_Sketch.thy ===== *)
theory Limit_Sketch
  imports Prelude
begin

unbundle bit_operations_syntax

text \<open>
  One tier of the sign-in limiter (\<open>rustak-server/src/auth/ratelimit/sketch.rs\<close> and \<open>clock.rs\<close>):
  a count-min sketch whose cells also lock.  A cell is one 64-bit word, \<open>until:32 | count:16 |
  window:16\<close>, and every access to it one atomic step; \<open>record_step\<close> is what a thread recording a
  failure does in one of them, so that threads interleave as a schedule says.  \<open>table_record\<close> is the
  same with nobody else about.
\<close>

section \<open>Time\<close>

text \<open>A moment is its nanoseconds; the limiter counts whole seconds from its epoch.\<close>

record stamp =
  st_secs :: "32 word"
  st_window :: "16 word"

record clock =
  ck_epoch :: int
  ck_window :: "32 word"
  ck_lockout :: "32 word"

definition secs_u32 :: "int \<Rightarrow> 32 word" where
  "secs_u32 n = of_int (min n (2 ^ 32 - 1))"

text \<open>\<open>num_milliseconds\<close> and \<open>num_seconds\<close> truncate toward zero; what is negative is cut to zero.\<close>

definition clock_new :: "int \<Rightarrow> int \<Rightarrow> int \<Rightarrow> clock" where
  "clock_new epoch window lockout =
     (let whole = (\<lambda>duration round_up. let millis = max 0 duration div 1000000
            in max 1 (secs_u32 (if round_up then (millis + 999) div 1000 else millis div 1000)))
      in \<lparr>ck_epoch = epoch, ck_window = whole window False, ck_lockout = whole lockout True\<rparr>)"

definition clock_stamp :: "clock \<Rightarrow> int \<Rightarrow> stamp" where
  "clock_stamp c now =
     (let secs = secs_u32 (max 0 (now - ck_epoch c) div 1000000000)
      in \<lparr>st_secs = secs, st_window = ucast ((secs div ck_window c) AND 0xFFFF)\<rparr>)"

definition lockout_ends :: "clock \<Rightarrow> stamp \<Rightarrow> 32 word" where
  "lockout_ends c s = (if unat (st_secs s) + unat (ck_lockout c) < 2 ^ 32 then st_secs s + ck_lockout c else - 1)"

definition clock_at :: "clock \<Rightarrow> 32 word \<Rightarrow> int" where
  "clock_at c secs = ck_epoch c + uint secs * 1000000000"

section \<open>A cell\<close>

definition DEPTH :: nat where
  "DEPTH = 4"

definition WIDTH :: nat where
  "WIDTH = 65536"

definition AHEAD :: "16 word" where
  "AHEAD = 2"

definition SAMPLE :: nat where
  "SAMPLE = 4096"

record cell =
  ce_until :: "32 word"
  ce_count :: "16 word"
  ce_window :: "16 word"

definition cell_pack :: "cell \<Rightarrow> 64 word" where
  "cell_pack c = ucast (ce_until c) OR push_bit 32 (ucast (ce_count c)) OR push_bit 48 (ucast (ce_window c))"

definition cell_unpack :: "64 word \<Rightarrow> cell" where
  "cell_unpack w = \<lparr>ce_until = ucast (w AND 0xFFFFFFFF), ce_count = ucast (drop_bit 32 w AND 0xFFFF), ce_window = ucast (drop_bit 48 w)\<rparr>"

definition in_window :: "16 word \<Rightarrow> cell \<Rightarrow> cell" where
  "in_window window c = (if ce_window c - window \<le> AHEAD then c else c\<lparr>ce_count := 0, ce_window := window\<rparr>)"

section \<open>The table\<close>

record table =
  tb_cells :: "64 word list"
  tb_width :: nat

definition table_new :: "nat \<Rightarrow> table" where
  "table_new width = \<lparr>tb_cells = replicate (DEPTH * width) 0, tb_width = width\<rparr>"

definition slot :: "nat \<Rightarrow> 64 word \<Rightarrow> nat \<Rightarrow> nat" where
  "slot width hash row =
     (let first = hash AND 0xFFFFFFFF; step = drop_bit 32 hash OR 1; mask = of_nat (width - 1)
      in row * width + unat ((first + of_nat row * step) AND mask))"

definition slots :: "table \<Rightarrow> 64 word \<Rightarrow> nat list" where
  "slots t hash = map (slot (tb_width t) hash) [0..<DEPTH]"

definition table_read :: "table \<Rightarrow> nat list \<Rightarrow> 64 word list" where
  "table_read t sl = map (\<lambda>s. tb_cells t ! s) sl"

text \<open>The least of the values, as \<open>Iterator::min\<close> with \<open>unwrap_or_default\<close>.\<close>

fun least :: "'a :: {linorder, zero} list \<Rightarrow> 'a" where
  "least [] = 0"
| "least [x] = x"
| "least (x # y # ys) = min x (least (y # ys))"

definition locked_until :: "table \<Rightarrow> 64 word \<Rightarrow> stamp \<Rightarrow> 32 word option" where
  "locked_until t hash now =
     (let until = least (map (\<lambda>w. ce_until (cell_unpack w)) (table_read t (slots t hash)))
      in if st_secs now < until then Some until else None)"

definition estimate :: "table \<Rightarrow> 64 word \<Rightarrow> 16 word \<Rightarrow> 16 word" where
  "estimate t hash window = least (map (\<lambda>w. ce_count (in_window window (cell_unpack w))) (table_read t (slots t hash)))"

record recorded =
  rc_estimate :: "16 word"
  rc_began :: "32 word option"

text \<open>What a failure makes of the cells it read: the estimate, and the lock it starts.\<close>

definition judge :: "stamp \<Rightarrow> 16 word \<Rightarrow> 32 word \<Rightarrow> 64 word list \<Rightarrow> recorded" where
  "judge now threshold until seen =
     (let cells = map (\<lambda>w. in_window (st_window now) (cell_unpack w)) seen;
          low = least (map ce_count cells);
          locked = st_secs now < least (map ce_until cells);
          est = (if low = - 1 then - 1 else low + 1)
      in \<lparr>rc_estimate = est, rc_began = (if \<not> locked \<and> threshold \<le> est then Some until else None)\<rparr>)"

definition raised :: "16 word \<Rightarrow> recorded \<Rightarrow> 64 word \<Rightarrow> 64 word" where
  "raised window r w =
     (let next = in_window window (cell_unpack w);
          next = next\<lparr>ce_count := max (ce_count next) (rc_estimate r)\<rparr>
      in cell_pack (case rc_began r of None \<Rightarrow> next | Some until \<Rightarrow> next\<lparr>ce_until := max (ce_until next) until\<rparr>))"

definition raise_row :: "16 word \<Rightarrow> recorded \<Rightarrow> 64 word list \<Rightarrow> nat list \<Rightarrow> nat \<Rightarrow> 64 word list \<Rightarrow> bool \<times> 64 word list" where
  "raise_row window r seen sl row cells =
     (let next = raised window r (seen ! row)
      in if next = seen ! row then (True, cells)
         else if cells ! (sl ! row) = seen ! row then (True, cells[sl ! row := next])
         else (False, cells))"

subsection \<open>A thread recording a failure\<close>

record job =
  jb_hash :: "64 word"
  jb_now :: stamp
  jb_threshold :: "16 word"
  jb_until :: "32 word"

datatype phase = Reading "64 word list" | Raising "64 word list" nat | Recorded recorded

fun record_step :: "job \<Rightarrow> nat list \<Rightarrow> phase \<Rightarrow> 64 word list \<Rightarrow> phase \<times> 64 word list" where
  "record_step j sl (Reading seen) cells =
     (let seen = seen @ [cells ! (sl ! length seen)]
      in (if length seen < DEPTH then Reading seen else Raising seen 0, cells))"
| "record_step j sl (Raising seen row) cells =
     (let r = judge (jb_now j) (jb_threshold j) (jb_until j) seen
      in case raise_row (st_window (jb_now j)) r seen sl row cells of
           (False, cells) \<Rightarrow> (Reading [], cells)
         | (True, cells) \<Rightarrow> (if row + 1 < DEPTH then Raising seen (row + 1) else Recorded r, cells))"
| "record_step j sl (Recorded r) cells = (Recorded r, cells)"

text \<open>Threads over one table; a schedule is who goes next.\<close>

definition thread_step :: "nat \<Rightarrow> (job \<times> phase) list \<times> 64 word list \<Rightarrow> nat \<Rightarrow> (job \<times> phase) list \<times> 64 word list" where
  "thread_step width = (\<lambda>(ts, cells) i.
     if i < length ts then
       (case ts ! i of (j, p) \<Rightarrow>
         (case record_step j (map (slot width (jb_hash j)) [0..<DEPTH]) p cells of
            (p, cells) \<Rightarrow> (ts[i := (j, p)], cells)))
     else (ts, cells))"

definition interleave :: "nat \<Rightarrow> job list \<Rightarrow> 64 word list \<Rightarrow> nat list \<Rightarrow> (job \<times> phase) list \<times> 64 word list" where
  "interleave width jobs cells schedule = foldl (thread_step width) (map (\<lambda>j. (j, Reading [])) jobs, cells) schedule"

subsection \<open>The same alone\<close>

fun raise_from :: "16 word \<Rightarrow> recorded \<Rightarrow> 64 word list \<Rightarrow> nat list \<Rightarrow> nat list \<Rightarrow> 64 word list \<Rightarrow> bool \<times> 64 word list" where
  "raise_from window r seen sl [] cells = (True, cells)"
| "raise_from window r seen sl (row # rows) cells =
     (case raise_row window r seen sl row cells of
        (False, cells) \<Rightarrow> (False, cells)
      | (True, cells) \<Rightarrow> raise_from window r seen sl rows cells)"

definition table_record :: "table \<Rightarrow> 64 word \<Rightarrow> stamp \<Rightarrow> 16 word \<Rightarrow> 32 word \<Rightarrow> recorded \<times> table" where
  "table_record t hash now threshold until =
     (let sl = slots t hash; seen = table_read t sl; r = judge now threshold until seen
      in (r, t\<lparr>tb_cells := snd (raise_from (st_window now) r seen sl [0..<DEPTH] (tb_cells t))\<rparr>))"

definition table_clear :: "64 word \<Rightarrow> table \<Rightarrow> table" where
  "table_clear hash t = t\<lparr>tb_cells := foldl (\<lambda>cells s. cells[s := 0]) (tb_cells t) (slots t hash)\<rparr>"

definition locked_sample :: "table \<Rightarrow> stamp \<Rightarrow> nat \<times> nat" where
  "locked_sample t now =
     (let total = length (tb_cells t); sampled = min SAMPLE total; stride = total div sampled;
          locked = length (filter (\<lambda>index. st_secs now < ce_until (cell_unpack (tb_cells t ! (index * stride)))) [0..<sampled])
      in (locked, sampled))"

section \<open>Cells\<close>

lemma cell_masks: "(0xFFFFFFFF :: 64 word) = mask 32" "(0xFFFF :: 64 word) = mask 16"
  by (simp_all add: mask_eq_exp_minus_1)

lemma unpack_pack [simp]: "cell_unpack (cell_pack c) = c"
proof -
  have out: "\<not> bit (ce_until c) (32 + n)" "\<not> bit (ce_until c) (48 + n)" "\<not> bit (ce_count c) (16 + n)" for n
    by (auto dest: bit_imp_le_length)
  have "ce_until (cell_unpack (cell_pack c)) = ce_until c"
    by (rule bit_word_eqI) (auto simp: cell_unpack_def cell_pack_def cell_masks bit_simps)
  moreover have "ce_count (cell_unpack (cell_pack c)) = ce_count c"
    by (rule bit_word_eqI) (auto simp: cell_unpack_def cell_pack_def cell_masks bit_simps out)
  moreover have "ce_window (cell_unpack (cell_pack c)) = ce_window c"
    by (rule bit_word_eqI) (auto simp: cell_unpack_def cell_pack_def cell_masks bit_simps out)
  ultimately show ?thesis by simp
qed

lemma pack_unpack [simp]: "cell_pack (cell_unpack w) = w"
proof (rule bit_word_eqI)
  fix n
  assume "n < LENGTH(64)"
  then consider "n < 32" | "32 \<le> n" "n < 48" | "48 \<le> n" "n < 64" by force
  then show "bit (cell_pack (cell_unpack w)) n \<longleftrightarrow> bit w n"
    by cases (auto simp: cell_unpack_def cell_pack_def cell_masks bit_simps)
qed

section \<open>Slots\<close>

lemma slot_bounds: "0 < width \<Longrightarrow> width \<le> 2 ^ 64 \<Longrightarrow> row * width \<le> slot width hash row \<and> slot width hash row < (row + 1) * width"
proof -
  assume w: "0 < width" "width \<le> 2 ^ 64"
  have "unat (x AND of_nat (width - 1)) \<le> width - 1" for x :: "64 word"
  proof -
    have "unat (x AND of_nat (width - 1)) \<le> unat (of_nat (width - 1) :: 64 word)"
      using word_and_le1 [of x "of_nat (width - 1)"] by (simp add: word_le_nat_alt)
    also have "\<dots> = width - 1" using w by (simp add: unat_of_nat take_bit_nat_eq_self del: of_nat_diff)
    finally show ?thesis .
  qed
  from this [of "(hash AND 0xFFFFFFFF) + of_nat row * (drop_bit 32 hash OR 1)"] w(1) show ?thesis
    by (simp add: slot_def Let_def)
qed

lemma slot_inj:
  assumes "0 < width" and "width \<le> 2 ^ 64" and "slot width h r = slot width h' r'"
  shows "r = r'"
proof (rule ccontr)
  assume "r \<noteq> r'"
  then have "(r + 1) * width \<le> r' * width \<or> (r' + 1) * width \<le> r * width" 
    using mult_le_mono1 [of "r + 1" r' width] mult_le_mono1 [of "r' + 1" r width] by (cases "r < r'") auto
  then show False using slot_bounds [OF assms(1,2), of r h] slot_bounds [OF assms(1,2), of r' h'] assms(3) by linarith
qed

lemma length_slots [simp]: "length (slots t hash) = DEPTH"
  by (simp add: slots_def)

section \<open>The least value\<close>

lemma least_le: "x \<in> set xs \<Longrightarrow> least xs \<le> x" for x :: "'a :: {linorder, zero}"
  by (induction xs rule: least.induct) (auto intro: min.coboundedI1 min.coboundedI2)

lemma least_mem: "xs \<noteq> [] \<Longrightarrow> least xs \<in> set xs" for xs :: "'a :: {linorder, zero} list"
  by (induction xs rule: least.induct) (auto simp: min_def)

lemma least_gt: "xs \<noteq> [] \<Longrightarrow> a < least xs \<longleftrightarrow> (\<forall>x \<in> set xs. a < x)" for a :: "'a :: {linorder, zero}"
  using least_le least_mem by (metis less_le_trans)

lemma least_ge: "xs \<noteq> [] \<Longrightarrow> a \<le> least xs \<longleftrightarrow> (\<forall>x \<in> set xs. a \<le> x)" for a :: "'a :: {linorder, zero}"
  using least_le least_mem by (metis order_trans)

end
