(* ===== verification/Sketch_Props.thy ===== *)
theory Sketch_Props
  imports Limit_Sketch
begin

unbundle bit_operations_syntax

text \<open>
  The sketch never undercounts: threads recording failures at once, interleaved at every load and
  every compare-and-swap, leave each cell of a key with at least as many as completed.  Two updates
  that read the same least count cannot both complete; the invariant follows the one that still can.
\<close>

section \<open>Growth\<close>

abbreviation held :: "16 word \<Rightarrow> 64 word \<Rightarrow> 16 word" where
  "held u w \<equiv> ce_count (in_window u (cell_unpack w))"

abbreviation lock_of :: "64 word \<Rightarrow> 32 word" where
  "lock_of w \<equiv> ce_until (cell_unpack w)"

text \<open>No cell is in a window still to come, and no writer lags by more than the code allows.\<close>

definition ahead_free :: "16 word \<Rightarrow> 64 word \<Rightarrow> bool" where
  "ahead_free u w \<longleftrightarrow> ce_window (cell_unpack w) = u \<or> AHEAD < ce_window (cell_unpack w) - u"

definition on_time :: "16 word \<Rightarrow> 16 word \<Rightarrow> bool" where
  "on_time u v \<longleftrightarrow> u - v \<le> AHEAD"

lemma small_lag: "(e :: 16 word) \<le> 2 \<Longrightarrow> e = 0 \<or> e = 1 \<or> e = 2"
proof -
  assume "e \<le> 2"
  then have "unat e \<le> 2" by (simp add: word_le_nat_alt)
  then have "unat e = 0 \<or> unat e = 1 \<or> unat e = 2" by linarith
  then show ?thesis by (auto simp: word_unat_eq_iff)
qed

lemma behind_zero: "(2 :: 16 word) < - 1" "(2 :: 16 word) < - 2"
  by code_simp+

lemma lag_window: "on_time u v \<Longrightarrow> v = u \<or> AHEAD < v - u"
proof -
  assume "on_time u v"
  then consider "u - v = 0" | "u - v = 1" | "u - v = 2" using small_lag [of "u - v"] by (auto simp: on_time_def AHEAD_def)
  then have "v = u \<or> v - u = - 1 \<or> v - u = - 2" by cases (metis eq_iff_diff_eq_0 minus_diff_eq)+
  then show ?thesis using behind_zero by (auto simp: AHEAD_def)
qed

lemma raised_grows:
  assumes "on_time u v" and "ahead_free u w"
  shows "ahead_free u (raised v r w)" and "held u w \<le> held u (raised v r w)" and "lock_of w \<le> lock_of (raised v r w)"
proof -
  define c where "c = cell_unpack w"
  define n where "n = in_window v c"
  let ?n = "n\<lparr>ce_count := max (ce_count n) (rc_estimate r)\<rparr>"
  have new: "ce_window (cell_unpack (raised v r w)) = ce_window n" "ce_count (cell_unpack (raised v r w)) = max (ce_count n) (rc_estimate r)"
    "ce_until n \<le> lock_of (raised v r w)"
    by (auto simp: raised_def Let_def n_def c_def split: option.split)
  have "ce_until n = ce_until c" by (simp add: n_def in_window_def)
  then show "lock_of w \<le> lock_of (raised v r w)" using new(3) by (simp add: c_def)
  have kept: "n = c" if "ce_window c = u" using assms(1) that by (simp add: n_def in_window_def on_time_def)
  have win: "ce_window n = u \<or> AHEAD < ce_window n - u"
    using assms(2) lag_window [OF assms(1)] by (auto simp: n_def in_window_def ahead_free_def c_def)
  then show "ahead_free u (raised v r w)" using new(1) by (simp add: ahead_free_def)
  show "held u w \<le> held u (raised v r w)"
  proof (cases "ce_window c = u")
    case True
    with kept new show ?thesis by (simp add: in_window_def c_def [symmetric])
  next
    case False
    with assms(2) have "AHEAD < ce_window c - u" by (simp add: ahead_free_def c_def)
    then have "\<not> ce_window c - u \<le> AHEAD" by simp
    then have "held u w = 0" by (simp add: in_window_def c_def [symmetric])
    then show ?thesis by simp
  qed
qed

lemma raised_reaches: "rc_estimate r \<le> held u (raised u r w)"
proof -
  have "ce_window (cell_unpack (raised u r w)) = ce_window (in_window u (cell_unpack w))"
    by (simp add: raised_def Let_def split: option.split)
  then have "ce_window (cell_unpack (raised u r w)) - u \<le> AHEAD" by (auto simp: in_window_def AHEAD_def)
  moreover have "rc_estimate r \<le> ce_count (cell_unpack (raised u r w))" by (simp add: raised_def Let_def split: option.split)
  ultimately show ?thesis by (simp add: in_window_def)
qed

lemma raised_locks: "rc_began r = Some t \<Longrightarrow> t \<le> lock_of (raised u r w)"
  by (simp add: raised_def Let_def)

text \<open>One table after another: every cell counts and locks at least as much.\<close>

definition grows :: "16 word \<Rightarrow> 64 word list \<Rightarrow> 64 word list \<Rightarrow> bool" where
  "grows u cells cells' \<longleftrightarrow> length cells' = length cells \<and> (\<forall>q. held u (cells ! q) \<le> held u (cells' ! q) \<and> lock_of (cells ! q) \<le> lock_of (cells' ! q))"

lemma grows_refl [simp]: "grows u cells cells"
  by (simp add: grows_def)

lemma grows_trans: "grows u a b \<Longrightarrow> grows u b c \<Longrightarrow> grows u a c"
  unfolding grows_def by (auto intro: order_trans)

lemma raise_row_grows:
  assumes "on_time u v" and "\<forall>w \<in> set cells. ahead_free u w" and "raise_row v r seen sl row cells = (ok, cells')"
  shows "grows u cells cells' \<and> (\<forall>w \<in> set cells'. ahead_free u w)"
proof (cases "cells' = cells")
  case True
  with assms(2) show ?thesis by simp
next
  case False
  let ?p = "sl ! row" and ?w = "seen ! row"
  from assms(3) False have c: "cells ! ?p = ?w" "cells' = cells[?p := raised v r ?w]"
    by (auto simp: raise_row_def Let_def split: if_splits)
  show ?thesis
  proof (cases "?p < length cells")
    case True
    with c(1) assms(2) have "ahead_free u ?w" by (metis nth_mem)
    note up = raised_grows [OF assms(1) this, of r]
    have "held u (cells ! q) \<le> held u (cells' ! q) \<and> lock_of (cells ! q) \<le> lock_of (cells' ! q)" for q
    proof -
      have "cells' ! q = (if q = ?p then raised v r ?w else cells ! q)" using True c(2) by simp
      then show ?thesis using up(2,3) c(1) by auto
    qed
    moreover have "\<forall>w \<in> set cells'. ahead_free u w"
      using assms(2) up(1) set_update_subset_insert [of cells ?p] by (auto simp: c(2))
    ultimately show ?thesis using c(2) by (simp add: grows_def)
  next
    case False
    then have "cells' = cells" using c(2) by (simp add: list_update_beyond not_less)
    with assms(2) show ?thesis by simp
  qed
qed

lemma record_step_grows:
  assumes "on_time u (st_window (jb_now j))" and "\<forall>w \<in> set cells. ahead_free u w" and "record_step j sl p cells = (p', cells')"
  shows "grows u cells cells' \<and> (\<forall>w \<in> set cells'. ahead_free u w)"
proof (cases p)
  case (Raising seen row)
  let ?r = "judge (jb_now j) (jb_threshold j) (jb_until j) seen"
  obtain ok c where "raise_row (st_window (jb_now j)) ?r seen sl row cells = (ok, c)" by force
  with assms(3) Raising raise_row_grows [OF assms(1,2) this] show ?thesis
    by (auto simp: Let_def split: bool.splits if_splits)
qed (use assms in \<open>auto simp: Let_def\<close>)

section \<open>One thread\<close>

text \<open>What a thread counting a key in the window knows of the key's cells, and that it may still complete.\<close>

definition next_count :: "16 word \<Rightarrow> 16 word" where
  "next_count m = (if m = - 1 then - 1 else m + 1)"

abbreviation low :: "16 word \<Rightarrow> 64 word list \<Rightarrow> 16 word" where
  "low u seen \<equiv> least (map (held u) seen)"

fun sound :: "16 word \<Rightarrow> nat list \<Rightarrow> 64 word list \<Rightarrow> job \<Rightarrow> phase \<Rightarrow> bool" where
  "sound u sl cells j (Reading seen) \<longleftrightarrow> length seen < DEPTH \<and> (\<forall>r < length seen. held u (seen ! r) \<le> held u (cells ! (sl ! r)) \<and>
     lock_of (seen ! r) \<le> lock_of (cells ! (sl ! r)))"
| "sound u sl cells j (Raising seen row) \<longleftrightarrow> length seen = DEPTH \<and> row < DEPTH \<and>
     (\<forall>r < DEPTH. held u (seen ! r) \<le> held u (cells ! (sl ! r)) \<and> lock_of (seen ! r) \<le> lock_of (cells ! (sl ! r))) \<and>
     (\<forall>r < row. next_count (low u seen) \<le> held u (cells ! (sl ! r)) \<and>
        (\<forall>t. rc_began (judge (jb_now j) (jb_threshold j) (jb_until j) seen) = Some t \<longrightarrow> t \<le> lock_of (cells ! (sl ! r))))"
| "sound u sl cells j (Recorded r) \<longleftrightarrow> rc_estimate r \<noteq> 0 \<and> (\<forall>q < DEPTH. rc_estimate r \<le> held u (cells ! (sl ! q)) \<and>
     (jb_threshold j \<le> rc_estimate r \<longrightarrow> st_secs (jb_now j) < lock_of (cells ! (sl ! q))))"

fun may_complete :: "16 word \<Rightarrow> nat list \<Rightarrow> 64 word list \<Rightarrow> 16 word \<Rightarrow> phase \<Rightarrow> bool" where
  "may_complete u sl cells m (Reading seen) \<longleftrightarrow> False"
| "may_complete u sl cells m (Raising seen row) \<longleftrightarrow> low u seen = m \<and> (\<exists>r < row. held u (seen ! r) = m) \<and>
     (\<forall>r < DEPTH. row \<le> r \<and> held u (seen ! r) = m \<longrightarrow> held u (cells ! (sl ! r)) = m)"
| "may_complete u sl cells m (Recorded r) \<longleftrightarrow> rc_estimate r = m + 1"

text \<open>The cell at which a step took the count past \<open>m\<close>.\<close>

definition struck :: "16 word \<Rightarrow> nat list \<Rightarrow> 64 word list \<Rightarrow> 64 word list \<Rightarrow> 16 word \<Rightarrow> bool" where
  "struck u sl cells cells' m \<longleftrightarrow> (\<exists>r < DEPTH. held u (cells ! (sl ! r)) = m \<and> m < held u (cells' ! (sl ! r)))"

lemma grows_at: "grows u cells cells' \<Longrightarrow> held u (cells ! q) \<le> held u (cells' ! q)" "grows u cells cells' \<Longrightarrow> lock_of (cells ! q) \<le> lock_of (cells' ! q)"
  by (simp_all add: grows_def)

lemma sound_grows:
  assumes "sound u sl cells j p" and g: "grows u cells cells'"
  shows "sound u sl cells' j p"
proof (cases p)
  case (Reading seen)
  with assms(1) show ?thesis by (auto intro: order_trans [OF _ grows_at(1) [OF g]] order_trans [OF _ grows_at(2) [OF g]])
next
  case (Raising seen row)
  with assms(1) show ?thesis by (auto intro: order_trans [OF _ grows_at(1) [OF g]] order_trans [OF _ grows_at(2) [OF g]])
next
  case (Recorded r)
  with assms(1) show ?thesis by (auto intro: order_trans [OF _ grows_at(1) [OF g]] less_le_trans [OF _ grows_at(2) [OF g]])
qed

lemma may_complete_grows:
  assumes "sound u sl cells j p" and g: "grows u cells cells'" and "may_complete u sl cells' m p"
  shows "may_complete u sl cells m p"
proof (cases p)
  case (Raising seen row)
  have "held u (cells ! (sl ! r)) = m" if r: "r < DEPTH" "row \<le> r" "held u (seen ! r) = m" for r
  proof (rule antisym)
    show "held u (cells ! (sl ! r)) \<le> m" using grows_at(1) [OF g, of "sl ! r"] assms(3) Raising r by simp
    show "m \<le> held u (cells ! (sl ! r))" using assms(1) Raising r by auto
  qed
  with assms(3) Raising show ?thesis by simp
qed (use assms(3) in auto)

lemma next_count_less: "m \<noteq> - 1 \<Longrightarrow> m < next_count m"
proof -
  assume m: "m \<noteq> - 1"
  have "unat m \<noteq> 65535"
  proof
    assume "unat m = 65535"
    then have "of_nat (unat m) = (of_nat 65535 :: 16 word)" by simp
    then show False using m by simp
  qed
  moreover have "unat m < 65536" by (rule order_less_le_trans [OF unsigned_less]) simp
  ultimately have "unat m + 1 < 65536" by simp
  then have "unat (m + 1) = unat m + 1" by (simp add: unat_word_ariths(1))
  then show ?thesis using m by (simp add: next_count_def word_less_nat_alt)
qed

lemma next_count_nonzero: "next_count m \<noteq> 0"
  by (simp add: next_count_def) (metis add.inverse_inverse eq_neg_iff_add_eq_0)

lemma low_le: "length seen = DEPTH \<Longrightarrow> r < DEPTH \<Longrightarrow> low u seen \<le> held u (seen ! r)"
  by (rule least_le) simp

lemma others_die:
  assumes "sound u sl cells j p" and "struck u sl cells cells' m" and "m \<noteq> - 1"
  shows "\<not> may_complete u sl cells' m p"
proof
  assume l: "may_complete u sl cells' m p"
  from assms(2) obtain r where r: "r < DEPTH" "held u (cells ! (sl ! r)) = m" "m < held u (cells' ! (sl ! r))"
    unfolding struck_def by blast
  show False
  proof (cases p)
    case (Raising seen row)
    with l assms(1) r have len: "length seen = DEPTH" "low u seen = m" "held u (seen ! r) \<le> m" by auto
    then have seen: "held u (seen ! r) = m" using low_le [OF len(1) r(1), of u] by simp
    show False
    proof (cases "r < row")
      case True
      with assms(1) Raising len(2) r(2) have "next_count m \<le> m" by auto
      then show False using next_count_less [OF assms(3)] by simp
    next
      case False
      with l Raising r seen show False by auto
    qed
  next
    case (Recorded rc)
    with l assms(1) r have "m + 1 \<le> m" by auto
    then show False using next_count_less [OF assms(3)] assms(3) by (simp add: next_count_def)
  qed (use l in simp)
qed

text \<open>A step of a thread counting the key: it stays sound, and it may complete with a least count it could
  not complete with before only by taking a cell past that count.\<close>

lemma judge_estimate: "rc_estimate (judge now th until seen) = next_count (low (st_window now) seen)"
  by (simp add: judge_def Let_def next_count_def comp_def)

lemma judge_locks:
  "th \<le> rc_estimate (judge now th until seen) \<Longrightarrow> st_secs now < least (map lock_of seen) \<or> rc_began (judge now th until seen) = Some until"
proof -
  have "ce_until (in_window v c) = ce_until c" for v c by (simp add: in_window_def)
  then show "th \<le> rc_estimate (judge now th until seen) \<Longrightarrow> ?thesis" by (auto simp: judge_def Let_def comp_def)
qed

lemma own_step:
  assumes "record_step j sl p cells = (p', cells')" and "sound u sl cells j p" and "st_window (jb_now j) = u"
    and "\<forall>w \<in> set cells. ahead_free u w" and "\<forall>r < DEPTH. sl ! r < length cells" and "st_secs (jb_now j) < jb_until j"
  shows "sound u sl cells' j p' \<and> (\<forall>m. m \<noteq> - 1 \<and> m + 1 \<noteq> - 1 \<and> may_complete u sl cells' m p' \<longrightarrow> may_complete u sl cells m p \<or> struck u sl cells cells' m)"
proof -
  have time: "on_time u (st_window (jb_now j))" using assms(3) by (simp add: on_time_def AHEAD_def)
  have g: "grows u cells cells'" using record_step_grows [OF time assms(4,1)] by simp
  show ?thesis
  proof (cases p)
    case (Reading seen)
    let ?seen = "seen @ [cells ! (sl ! length seen)]"
    have len: "length seen < DEPTH" using assms(2) Reading by simp
    have p': "p' = (if length ?seen < DEPTH then Reading ?seen else Raising ?seen 0)" "cells' = cells"
      using assms(1) Reading by (auto simp: Let_def)
    have old: "held u (?seen ! r) \<le> held u (cells ! (sl ! r)) \<and> lock_of (?seen ! r) \<le> lock_of (cells ! (sl ! r))" if "r < length ?seen" for r
      using that assms(2) Reading by (cases "r < length seen") (auto simp: nth_append less_Suc_eq)
    show ?thesis using p' len old by (auto simp: Suc_le_eq [symmetric])
  next
    case (Recorded r)
    with assms(1,2) show ?thesis by simp
  next
    case (Raising seen row)
    define r where "r = judge (jb_now j) (jb_threshold j) (jb_until j) seen"
    obtain ok c where rr: "raise_row u r seen sl row cells = (ok, c)" by force
    have len: "length seen = DEPTH" "row < DEPTH" using assms(2) Raising by simp_all
    have est: "rc_estimate r = next_count (low u seen)" using assms(3) by (simp add: r_def judge_estimate)
    show ?thesis
    proof (cases ok)
      case False
      then have "p' = Reading []" using assms(1,3) Raising rr by (auto simp: Let_def r_def)
      then show ?thesis by (simp add: DEPTH_def)
    next
      case True
      have p': "p' = (if row + 1 < DEPTH then Raising seen (row + 1) else Recorded r)" "cells' = c"
        using assms(1,3) Raising rr True by (auto simp: Let_def r_def)
      let ?next = "raised u r (seen ! row)"
      have at: "held u ?next \<le> held u (c ! (sl ! row)) \<and> lock_of ?next \<le> lock_of (c ! (sl ! row))"
      proof (cases "?next = seen ! row")
        case True
        with rr assms(2) Raising len show ?thesis by (auto simp: raise_row_def Let_def)
      next
        case False
        with rr True have "c = cells[sl ! row := ?next]" by (auto simp: raise_row_def Let_def split: if_splits)
        then show ?thesis using assms(5) len(2) by simp
      qed
      have done_row: "next_count (low u seen) \<le> held u (c ! (sl ! row)) \<and> (\<forall>t. rc_began r = Some t \<longrightarrow> t \<le> lock_of (c ! (sl ! row)))"
      proof (intro conjI allI impI)
        show "next_count (low u seen) \<le> held u (c ! (sl ! row))"
          using raised_reaches [of r u "seen ! row"] at unfolding est by (rule order_trans [OF _ conjunct1])
        show "t \<le> lock_of (c ! (sl ! row))" if "rc_began r = Some t" for t
          using raised_locks [OF that, of u "seen ! row"] at by (rule order_trans [OF _ conjunct2])
      qed
      have s: "sound u sl c j p" using sound_grows [OF assms(2) g] p'(2) by simp
      have rows: "next_count (low u seen) \<le> held u (c ! (sl ! q)) \<and> (\<forall>t. rc_began r = Some t \<longrightarrow> t \<le> lock_of (c ! (sl ! q)))"
        if "q < row + 1" for q using that done_row s Raising r_def by (cases "q = row") auto
      have snd: "sound u sl c j p'"
      proof (cases "row + 1 < DEPTH")
        case True
        with p' s Raising len rows r_def show ?thesis by auto
      next
        case False
        have "st_secs (jb_now j) < lock_of (c ! (sl ! q))" if q: "q < DEPTH" "jb_threshold j \<le> rc_estimate r" for q
        proof (cases "rc_began r = Some (jb_until j)")
          case True
          with rows [of q] q False assms(6) show ?thesis by (auto intro: less_le_trans)
        next
          case no: False
          with judge_locks [of "jb_threshold j" "jb_now j" "jb_until j" seen] q(2) r_def
          have "st_secs (jb_now j) < least (map lock_of seen)" by blast
          also have "\<dots> \<le> lock_of (seen ! q)" using len(1) q(1) by (intro least_le) simp
          also have "\<dots> \<le> lock_of (c ! (sl ! q))" using s Raising q(1) by auto
          finally show ?thesis .
        qed
        moreover have "rc_estimate r \<le> held u (c ! (sl ! q))" if "q < DEPTH" for q using rows [of q] that False est by auto
        moreover have "rc_estimate r \<noteq> 0" using est by (simp add: next_count_nonzero)
        ultimately show ?thesis using p' False by simp
      qed
      have "may_complete u sl cells m p \<or> struck u sl cells cells' m"
        if m: "m \<noteq> - 1" "m + 1 \<noteq> - 1" and l: "may_complete u sl cells' m p'" for m
      proof -
        have "low u seen = m \<and> (\<exists>q < row + 1. held u (seen ! q) = m) \<and>
            (\<forall>q < DEPTH. row + 1 \<le> q \<and> held u (seen ! q) = m \<longrightarrow> held u (c ! (sl ! q)) = m)"
        proof (cases "row + 1 < DEPTH")
          case True
          with l p' show ?thesis by simp
        next
          case False
          with l p' have "next_count (low u seen) = m + 1" using est by simp
          then have "low u seen = m" using m by (auto simp: next_count_def split: if_splits)
          moreover have "low u seen \<in> set (map (held u) seen)" using len by (intro least_mem) (auto simp: DEPTH_def)
          then obtain q where "q < DEPTH" "held u (seen ! q) = low u seen" using len(1) by (auto simp: in_set_conv_nth)
          ultimately show ?thesis using False len by (intro conjI exI [of _ q]) auto
        qed
        then have a: "low u seen = m" "\<exists>q < row + 1. held u (seen ! q) = m"
          "\<forall>q < DEPTH. row + 1 \<le> q \<and> held u (seen ! q) = m \<longrightarrow> held u (c ! (sl ! q)) = m" by blast+
        show ?thesis
        proof (cases "held u (seen ! row) = m")
          case True
          have up: "m < held u ?next" using raised_reaches [of r u "seen ! row"] next_count_less [OF m(1)] a(1) est by simp
          then have "?next \<noteq> seen ! row" using True by auto
          with rr \<open>ok\<close> have "cells ! (sl ! row) = seen ! row" "c = cells[sl ! row := ?next]"
            by (auto simp: raise_row_def Let_def split: if_splits)
          then have "struck u sl cells cells' m"
            unfolding struck_def using up True len(2) assms(5) p'(2) by (intro exI [of _ row]) simp
          then show ?thesis ..
        next
          case False
          have "may_complete u sl c m p" using Raising a False by (auto simp: less_Suc_eq le_eq_less_or_eq Suc_le_eq)
          then have "may_complete u sl cells m p" using may_complete_grows [OF assms(2) g] p'(2) by simp
          then show ?thesis ..
        qed
      qed
      with snd p'(2) show ?thesis by blast
    qed
  qed
qed

section \<open>All threads\<close>

definition counts :: "64 word \<Rightarrow> 16 word \<Rightarrow> job \<Rightarrow> bool" where
  "counts key u j \<longleftrightarrow> jb_hash j = key \<and> st_window (jb_now j) = u"

definition completed :: "64 word \<Rightarrow> 16 word \<Rightarrow> (job \<times> phase) list \<Rightarrow> nat" where
  "completed key u ts = length (filter (\<lambda>(j, p). counts key u j \<and> (case p of Recorded r \<Rightarrow> True | _ \<Rightarrow> False)) ts)"

definition threads_inv :: "nat \<Rightarrow> 64 word \<Rightarrow> 16 word \<Rightarrow> job list \<Rightarrow> (job \<times> phase) list \<times> 64 word list \<Rightarrow> bool" where
  "threads_inv width key u jobs = (\<lambda>(ts, cells).
     let sl = map (slot width key) [0..<DEPTH]
     in map fst ts = jobs \<and> length cells = DEPTH * width \<and> (\<forall>w \<in> set cells. ahead_free u w) \<and>
        (\<forall>i < length ts. counts key u (fst (ts ! i)) \<longrightarrow> sound u sl cells (fst (ts ! i)) (snd (ts ! i))) \<and>
        (\<forall>i < length ts. \<forall>k < length ts. \<forall>m. i \<noteq> k \<and> counts key u (fst (ts ! i)) \<and> counts key u (fst (ts ! k)) \<and>
           m \<noteq> - 1 \<and> m + 1 \<noteq> - 1 \<longrightarrow> \<not> (may_complete u sl cells m (snd (ts ! i)) \<and> may_complete u sl cells m (snd (ts ! k)))))"

lemma thread_step_inv:
  assumes w: "0 < width" "width \<le> 2 ^ 64"
    and jobs: "\<forall>j \<in> set jobs. on_time u (st_window (jb_now j)) \<and> st_secs (jb_now j) < jb_until j"
    and inv: "threads_inv width key u jobs S"
  shows "threads_inv width key u jobs (thread_step width S i)"
proof -
  obtain ts cells where S: "S = (ts, cells)" by force
  let ?sl = "map (slot width key) [0..<DEPTH]"
  show ?thesis
  proof (cases "i < length ts")
    case False
    with inv S show ?thesis by (simp add: thread_step_def)
  next
    case True
    obtain j p where jp: "ts ! i = (j, p)" by force
    obtain p' cells' where st: "record_step j (map (slot width (jb_hash j)) [0..<DEPTH]) p cells = (p', cells')" by force
    have I: "map fst ts = jobs" "length cells = DEPTH * width" "\<forall>w \<in> set cells. ahead_free u w"
      "\<And>i. i < length ts \<Longrightarrow> counts key u (fst (ts ! i)) \<Longrightarrow> sound u ?sl cells (fst (ts ! i)) (snd (ts ! i))"
      "\<And>i k m. i < length ts \<Longrightarrow> k < length ts \<Longrightarrow> i \<noteq> k \<Longrightarrow> counts key u (fst (ts ! i)) \<Longrightarrow> counts key u (fst (ts ! k)) \<Longrightarrow>
         m \<noteq> - 1 \<Longrightarrow> m + 1 \<noteq> - 1 \<Longrightarrow> \<not> (may_complete u ?sl cells m (snd (ts ! i)) \<and> may_complete u ?sl cells m (snd (ts ! k)))"
      using inv unfolding S threads_inv_def Let_def by auto
    have "j \<in> set jobs" using I(1) jp True by (metis fst_conv in_set_conv_nth length_map nth_map)
    then have j: "on_time u (st_window (jb_now j))" "st_secs (jb_now j) < jb_until j" using jobs by auto
    have g: "grows u cells cells'" "\<forall>w \<in> set cells'. ahead_free u w" using record_step_grows [OF j(1) I(3) st] by auto
    have new: "thread_step width S i = (ts[i := (j, p')], cells')" using True jp st by (simp add: thread_step_def S)
    have in_table: "\<forall>r < DEPTH. ?sl ! r < length cells"
    proof (intro allI impI)
      fix r assume r: "r < DEPTH"
      have "slot width key r < (r + 1) * width" using slot_bounds [OF w] by blast
      also have "\<dots> \<le> DEPTH * width" using r by (intro mult_le_mono1) simp
      finally show "?sl ! r < length cells" using r I(2) by simp
    qed
    have own: "sound u ?sl cells' j p' \<and> (\<forall>m. m \<noteq> - 1 \<and> m + 1 \<noteq> - 1 \<and> may_complete u ?sl cells' m p' \<longrightarrow> may_complete u ?sl cells m p \<or> struck u ?sl cells cells' m)"
      if "counts key u j"
    proof (rule own_step)
      show "record_step j ?sl p cells = (p', cells')" using st that by (simp add: counts_def)
      show "sound u ?sl cells j p" using I(4) [OF True] jp that by simp
    qed (use that I(3) in_table j(2) in \<open>auto simp: counts_def\<close>)
    have others: "sound u ?sl cells' (fst (ts ! k)) (snd (ts ! k))" "may_complete u ?sl cells' m (snd (ts ! k)) \<Longrightarrow> may_complete u ?sl cells m (snd (ts ! k))"
      "struck u ?sl cells cells' m \<Longrightarrow> m \<noteq> - 1 \<Longrightarrow> \<not> may_complete u ?sl cells' m (snd (ts ! k))"
      if "k < length ts" "counts key u (fst (ts ! k))" for k m
      using sound_grows [OF I(4) [OF that] g(1)] may_complete_grows [OF I(4) [OF that] g(1)] others_die [OF I(4) [OF that]] by blast+
    have "map fst (ts[i := (j, p')]) = jobs" using I(1) jp True
      by (metis fst_conv list_update_id map_update)
    moreover have "length cells' = DEPTH * width" using g(1) I(2) by (simp add: grows_def)
    moreover have "sound u ?sl cells' (fst (ts[i := (j, p')] ! k)) (snd (ts[i := (j, p')] ! k))"
      if "k < length ts" "counts key u (fst (ts[i := (j, p')] ! k))" for k
      using that own others(1) [of k] by (cases "k = i") auto
    moreover have "\<not> (may_complete u ?sl cells' m (snd (ts[i := (j, p')] ! k)) \<and> may_complete u ?sl cells' m (snd (ts[i := (j, p')] ! l)))"
      if kl: "k < length ts" "l < length ts" "k \<noteq> l" "counts key u (fst (ts[i := (j, p')] ! k))" "counts key u (fst (ts[i := (j, p')] ! l))"
        "m \<noteq> - 1" "m + 1 \<noteq> - 1" for k l m
    proof -
      have one: "\<not> (may_complete u ?sl cells' m p' \<and> may_complete u ?sl cells' m (snd (ts ! k)))"
        if "k < length ts" "k \<noteq> i" "counts key u (fst (ts ! k))" "counts key u j" for k
        using own [OF that(4)] others(2,3) [OF that(1,3), of m] I(5) [OF that(1) True that(2,3), of m] kl(6,7) that(4) jp by auto
      show ?thesis
      proof (cases "k = i \<or> l = i")
        case True
        with kl one [of k] one [of l] show ?thesis by auto
      next
        case False
        with kl I(5) [OF kl(1-3), of m] others(2) [of k m] others(2) [of l m] show ?thesis by auto
      qed
    qed
    ultimately show ?thesis unfolding new threads_inv_def Let_def using g(2) by auto
  qed
qed

lemma interleave_inv:
  assumes "0 < width" and "width \<le> 2 ^ 64"
    and "\<forall>j \<in> set jobs. on_time u (st_window (jb_now j)) \<and> st_secs (jb_now j) < jb_until j"
    and "length cells = DEPTH * width" and "\<forall>w \<in> set cells. ahead_free u w"
  shows "threads_inv width key u jobs (interleave width jobs cells schedule)"
proof -
  have "threads_inv width key u jobs (foldl (thread_step width) S schedule)" if "threads_inv width key u jobs S" for S
    using that thread_step_inv [OF assms(1-3)] by (induction schedule arbitrary: S) simp_all
  moreover have "map (fst \<circ> (\<lambda>j. (j, Reading []))) jobs = jobs" by (simp add: comp_def)
  then have "threads_inv width key u jobs (map (\<lambda>j. (j, Reading [])) jobs, cells)"
    using assms(4,5) by (simp add: threads_inv_def Let_def DEPTH_def)
  ultimately show ?thesis by (simp add: interleave_def)
qed

lemma completed_card:
  "completed key u ts = card {i. i < length ts \<and> counts key u (fst (ts ! i)) \<and> (\<exists>r. snd (ts ! i) = Recorded r)}"
proof -
  have "completed key u ts = card {i. i < length ts \<and> (case ts ! i of (j, p) \<Rightarrow> counts key u j \<and> (case p of Recorded r \<Rightarrow> True | _ \<Rightarrow> False))}"
    by (simp add: completed_def length_filter_conv_card)
  moreover have "(case ts ! i of (j, p) \<Rightarrow> counts key u j \<and> (case p of Recorded r \<Rightarrow> True | _ \<Rightarrow> False)) \<longleftrightarrow>
      counts key u (fst (ts ! i)) \<and> (\<exists>r. snd (ts ! i) = Recorded r)" for i
    by (cases "ts ! i"; cases "snd (ts ! i)") auto
  ultimately show ?thesis by simp
qed

text \<open>C31: the sketch never undercounts.  However threads recording failures interleave, at every load and
  every compare-and-swap, whatever keys they count and whatever the cells held, a key's estimate is
  afterwards at least the number of its failures recorded in the window, up to the 16 bits of a
  count; and once its allowance of them has completed it is refused at the moment of one of them.
  No writer is more than two windows late and no cell is in a window to come.\<close>

theorem sketch_never_undercounts:
  assumes "0 < width" and "width \<le> 2 ^ 64" and "length cells = DEPTH * width" and "\<forall>w \<in> set cells. ahead_free u w"
    and "\<forall>j \<in> set jobs. on_time u (st_window (jb_now j)) \<and> st_secs (jb_now j) < jb_until j"
    and "interleave width jobs cells schedule = (ts, cells')"
  shows "min (completed key u ts) 65535 \<le> unat (estimate \<lparr>tb_cells = cells', tb_width = width\<rparr> key u) \<and>
    ((\<forall>j \<in> set jobs. counts key u j \<longrightarrow> jb_threshold j = th) \<and> 0 < th \<and> unat th \<le> completed key u ts \<longrightarrow>
      (\<exists>j \<in> set jobs. counts key u j \<and> locked_until \<lparr>tb_cells = cells', tb_width = width\<rparr> key (jb_now j) \<noteq> None))"
proof -
  let ?t = "\<lparr>tb_cells = cells', tb_width = width\<rparr>" and ?sl = "map (slot width key) [0..<DEPTH]"
  let ?I = "{i. i < length ts \<and> counts key u (fst (ts ! i)) \<and> (\<exists>r. snd (ts ! i) = Recorded r)}"
  define e where "e i = (case snd (ts ! i) of Recorded r \<Rightarrow> rc_estimate r | _ \<Rightarrow> 0)" for i
  have inv: "threads_inv width key u jobs (ts, cells')" using interleave_inv [OF assms(1,2,5,3,4)] assms(6) by metis
  have fin: "finite ?I" by simp
  have reads: "table_read ?t (slots ?t key) = map (\<lambda>r. cells' ! (?sl ! r)) [0..<DEPTH]"
    by (simp add: table_read_def slots_def)
  have know: "e i \<noteq> 0 \<and> (\<forall>q < DEPTH. e i \<le> held u (cells' ! (?sl ! q)) \<and>
      (jb_threshold (fst (ts ! i)) \<le> e i \<longrightarrow> st_secs (jb_now (fst (ts ! i))) < lock_of (cells' ! (?sl ! q))))" if i: "i \<in> ?I" for i
  proof -
    from i obtain r where r: "snd (ts ! i) = Recorded r" by blast
    have "sound u ?sl cells' (fst (ts ! i)) (snd (ts ! i))" using inv i unfolding threads_inv_def Let_def by blast
    then show ?thesis by (simp add: e_def r)
  qed
  have inj: "i = k" if ik: "i \<in> ?I" "k \<in> ?I" "e i = e k" "e i \<noteq> - 1" for i k
  proof (rule ccontr)
    assume "i \<noteq> k"
    moreover have "e i - 1 \<noteq> - 1" "e i - 1 + 1 \<noteq> - 1" using know [OF ik(1)] ik(4) by simp_all
    ultimately have "\<not> (may_complete u ?sl cells' (e i - 1) (snd (ts ! i)) \<and> may_complete u ?sl cells' (e i - 1) (snd (ts ! k)))"
      using inv ik(1,2) unfolding threads_inv_def Let_def by blast
    moreover obtain r r' where "snd (ts ! i) = Recorded r" "snd (ts ! k) = Recorded r'" using ik(1,2) by blast
    ultimately show False using ik(3) by (simp add: e_def)
  qed
  have bound: "card ?I \<le> n" if "\<forall>i \<in> ?I. e i \<noteq> - 1 \<and> unat (e i) \<le> n" for n
  proof -
    have "inj_on (\<lambda>i. unat (e i)) ?I" 
    proof (rule inj_onI)
      fix i k assume ik: "i \<in> ?I" "k \<in> ?I" "unat (e i) = unat (e k)"
      have "e i = e k" using ik(3) by (simp add: word_unat_eq_iff)
      moreover have "e i \<noteq> - 1" using that ik(1) by blast
      ultimately show "i = k" using inj [OF ik(1,2)] by blast
    qed
    moreover have "(\<lambda>i. unat (e i)) ` ?I \<subseteq> {1..n}" using that know by (force simp: Suc_le_eq unat_gt_0)
    ultimately have "card ?I \<le> card {1..n}" by (intro card_inj_on_le) auto
    then show ?thesis by simp
  qed
  have low: "min (card ?I) 65535 \<le> unat (held u (cells' ! (?sl ! q)))" if q: "q < DEPTH" for q
  proof (cases "\<exists>i \<in> ?I. e i = - 1")
    case True
    then obtain i where i: "i \<in> ?I" "e i = - 1" by blast
    have "e i \<le> held u (cells' ! (?sl ! q))" using know [OF i(1)] q by blast
    then have "(- 1 :: 16 word) \<le> held u (cells' ! (?sl ! q))" unfolding i(2) .
    then have "unat (- 1 :: 16 word) \<le> unat (held u (cells' ! (?sl ! q)))" unfolding word_le_nat_alt .
    moreover have "65535 = unat (- 1 :: 16 word)" by (simp add: unsigned_minus_1_eq_mask mask_eq_exp_minus_1)
    ultimately have "65535 \<le> unat (held u (cells' ! (?sl ! q)))" by (rule ord_eq_le_trans [rotated])
    then show ?thesis by (rule min.coboundedI2)
  next
    case False
    then have "card ?I \<le> unat (held u (cells' ! (?sl ! q)))" using know q by (intro bound) (auto simp: word_le_nat_alt)
    then show ?thesis by simp
  qed
  have "estimate ?t key u \<in> set (map (\<lambda>w. held u w) (table_read ?t (slots ?t key)))"
    unfolding estimate_def reads by (intro least_mem) (simp add: DEPTH_def)
  then have first: "min (completed key u ts) 65535 \<le> unat (estimate ?t key u)" using low unfolding reads completed_card by auto
  have second: "\<exists>j \<in> set jobs. counts key u j \<and> locked_until ?t key (jb_now j) \<noteq> None"
    if th: "\<forall>j \<in> set jobs. counts key u j \<longrightarrow> jb_threshold j = th" "0 < th" "unat th \<le> completed key u ts"
  proof -
  have "\<exists>i \<in> ?I. th \<le> e i"
  proof (rule ccontr)
    assume "\<not> (\<exists>i \<in> ?I. th \<le> e i)"
    then have small: "\<forall>i \<in> ?I. e i < th" by auto
    have "e i \<noteq> - 1 \<and> unat (e i) \<le> unat th - 1" if "i \<in> ?I" for i
    proof -
      have "e i < th" using small that by blast
      moreover from this have "e i \<noteq> - 1" using word_order.extremum_strict [of th] by (auto simp: max_word_max)
      ultimately show ?thesis by (simp add: word_less_nat_alt)
    qed
    then have "\<forall>i \<in> ?I. e i \<noteq> - 1 \<and> unat (e i) \<le> unat th - 1" by blast
    then have "card ?I \<le> unat th - 1" by (rule bound)
    moreover have "0 < unat th" using th(2) by (simp add: unat_gt_0)
    ultimately show False using th(3) unfolding completed_card by linarith
  qed
  then obtain i where i: "i \<in> ?I" "th \<le> e i" by blast
  have "map fst ts = jobs" using inv by (simp add: threads_inv_def Let_def)
  then have job: "fst (ts ! i) \<in> set jobs" using i(1) by (metis (mono_tags, lifting) in_set_conv_nth length_map mem_Collect_eq nth_map)
  then have "jb_threshold (fst (ts ! i)) \<le> e i" using th(1) i by auto
  then have "\<forall>q < DEPTH. st_secs (jb_now (fst (ts ! i))) < lock_of (cells' ! (?sl ! q))" using know [OF i(1)] by blast
  then have "st_secs (jb_now (fst (ts ! i))) < least (map lock_of (table_read ?t (slots ?t key)))"
    unfolding reads by (subst least_gt) (auto simp: DEPTH_def)
  then have "locked_until ?t key (jb_now (fst (ts ! i))) \<noteq> None" by (simp add: locked_until_def Let_def)
  then show ?thesis using job i(1) by blast
  qed
  show ?thesis using first second by blast
qed

text \<open>Two threads race for one key in a table of one column, each seeing the other's cells half written.\<close>

theorem sketch_never_undercounts_witness:
  "\<exists>ts cells'. interleave 1 (replicate 2 \<lparr>jb_hash = 7, jb_now = \<lparr>st_secs = 5, st_window = 0\<rparr>, jb_threshold = 2, jb_until = 65\<rparr>)
       (replicate 4 0) [0, 0, 1, 1, 0, 0, 1, 1, 0, 1, 1, 0, 0, 1, 1, 1, 0] = (ts, cells') \<and>
     min (completed 7 0 ts) 65535 \<le> unat (estimate \<lparr>tb_cells = cells', tb_width = 1\<rparr> 7 0)"
proof -
  let ?j = "\<lparr>jb_hash = 7, jb_now = \<lparr>st_secs = 5, st_window = 0\<rparr>, jb_threshold = 2, jb_until = 65\<rparr>"
  obtain ts cells' where i: "interleave 1 (replicate 2 ?j) (replicate 4 0) [0, 0, 1, 1, 0, 0, 1, 1, 0, 1, 1, 0, 0, 1, 1, 1, 0] = (ts, cells')"
    by force
  have "min (completed 7 0 ts) 65535 \<le> unat (estimate \<lparr>tb_cells = cells', tb_width = 1\<rparr> 7 0)"
    by (rule conjunct1, rule sketch_never_undercounts [OF _ _ _ _ _ i, where th = 0])
      (simp_all add: DEPTH_def ahead_free_def cell_unpack_def on_time_def AHEAD_def)
  with i show ?thesis by blast
qed

end
