(* ===== verification/Sketch_Alone.thy ===== *)
theory Sketch_Alone
  imports Sketch_Props
begin

unbundle bit_operations_syntax

text \<open>
  One failure recorded with nobody else about: what it makes of every cell, and that the thread's
  steps alone come to the same without a retry.
\<close>

definition table_ok :: "table \<Rightarrow> bool" where
  "table_ok t \<longleftrightarrow> 0 < tb_width t \<and> tb_width t \<le> 2 ^ 64 \<and> length (tb_cells t) = DEPTH * tb_width t"

lemma table_new_ok: "0 < width \<Longrightarrow> width \<le> 2 ^ 64 \<Longrightarrow> table_ok (table_new width)"
  by (simp add: table_ok_def table_new_def)

lemma slot_in_table: "table_ok t \<Longrightarrow> row < DEPTH \<Longrightarrow> slot (tb_width t) h row < length (tb_cells t)"
proof -
  assume t: "table_ok t" and row: "row < DEPTH"
  have "slot (tb_width t) h row < (row + 1) * tb_width t" using slot_bounds t by (simp add: table_ok_def)
  also have "\<dots> \<le> DEPTH * tb_width t" using row by (intro mult_le_mono1) simp
  finally show ?thesis using t by (simp add: table_ok_def)
qed

lemma raise_from_result:
  assumes "distinct (map (\<lambda>row. sl ! row) rows)" and "\<forall>row \<in> set rows. sl ! row < length cells \<and> cells ! (sl ! row) = seen ! row"
  shows "\<exists>cells'. raise_from u r seen sl rows cells = (True, cells') \<and> length cells' = length cells \<and>
    (\<forall>row \<in> set rows. cells' ! (sl ! row) = raised u r (seen ! row)) \<and> (\<forall>p. p \<notin> (\<lambda>row. sl ! row) ` set rows \<longrightarrow> cells' ! p = cells ! p)"
  using assms
proof (induction rows arbitrary: cells)
  case (Cons row rows)
  let ?next = "raised u r (seen ! row)"
  let ?c = "cells[sl ! row := ?next]"
  have step: "raise_row u r seen sl row cells = (True, ?c)"
  proof (cases "?next = seen ! row")
    case True
    with Cons.prems(2) have "?c = cells" by (metis list.set_intros(1) list_update_id)
    with True show ?thesis by (simp add: raise_row_def Let_def)
  qed (use Cons.prems(2) in \<open>simp add: raise_row_def Let_def\<close>)
  have "\<forall>k \<in> set rows. sl ! k < length ?c \<and> ?c ! (sl ! k) = seen ! k" using Cons.prems by (auto simp: image_iff)
  moreover have "distinct (map (\<lambda>row. sl ! row) rows)" using Cons.prems(1) by simp
  ultimately obtain c where c: "raise_from u r seen sl rows ?c = (True, c)" "length c = length ?c"
    "\<forall>k \<in> set rows. c ! (sl ! k) = raised u r (seen ! k)" "\<forall>p. p \<notin> (\<lambda>row. sl ! row) ` set rows \<longrightarrow> c ! p = ?c ! p"
    using Cons.IH [of ?c] by blast
  have "c ! (sl ! row) = ?next" using c(4) Cons.prems by simp
  moreover have "c ! p = cells ! p" if "p \<notin> (\<lambda>row. sl ! row) ` set (row # rows)" for p using that c(4) by simp
  ultimately show ?case using step c(1-3) by (intro exI [of _ c]) simp
qed simp

lemma table_record_result:
  assumes t: "table_ok t" and rec: "table_record t h now th until = (r, t')"
  shows "r = judge now th until (table_read t (slots t h))" and "table_ok t'" and "tb_width t' = tb_width t"
    and "\<And>row. row < DEPTH \<Longrightarrow> tb_cells t' ! slot (tb_width t) h row = raised (st_window now) r (tb_cells t ! slot (tb_width t) h row)"
    and "\<And>p. p \<notin> set (slots t h) \<Longrightarrow> tb_cells t' ! p = tb_cells t ! p"
proof -
  let ?sl = "slots t h" and ?seen = "table_read t (slots t h)"
  show r: "r = judge now th until ?seen" using rec by (simp add: table_record_def Let_def)
  have sl: "?sl ! row = slot (tb_width t) h row" if "row < DEPTH" for row using that by (simp add: slots_def)
  have "distinct (map (\<lambda>row. ?sl ! row) [0..<DEPTH])"
    using slot_inj [of "tb_width t" h _ h] t by (auto simp: distinct_map inj_on_def sl table_ok_def)
  moreover have "\<forall>row \<in> set [0..<DEPTH]. ?sl ! row < length (tb_cells t) \<and> tb_cells t ! (?sl ! row) = ?seen ! row"
    using slot_in_table [OF t] sl by (auto simp: table_read_def slots_def)
  ultimately obtain c where c: "raise_from (st_window now) r ?seen ?sl [0..<DEPTH] (tb_cells t) = (True, c)" "length c = length (tb_cells t)"
    "\<forall>row \<in> set [0..<DEPTH]. c ! (?sl ! row) = raised (st_window now) r (?seen ! row)"
    "\<forall>p. p \<notin> (\<lambda>row. ?sl ! row) ` set [0..<DEPTH] \<longrightarrow> c ! p = tb_cells t ! p"
    using raise_from_result by blast
  have t': "t' = t\<lparr>tb_cells := c\<rparr>" using rec c(1) r by (simp add: table_record_def Let_def)
  show "table_ok t'" "tb_width t' = tb_width t" using t t' c(2) by (simp_all add: table_ok_def)
  show "tb_cells t' ! slot (tb_width t) h row = raised (st_window now) r (tb_cells t ! slot (tb_width t) h row)" if "row < DEPTH" for row
    using c(3) that sl t' by (simp add: table_read_def slots_def)
  show "tb_cells t' ! p = tb_cells t ! p" if "p \<notin> set (slots t h)" for p
    using c(4) that t' by (auto simp: slots_def)
qed

text \<open>A thread that is alone never retries: its eight steps, four loads and four swaps, are one call of
  the sequential operation.\<close>

theorem undisturbed_record_is_sequential:
  assumes "table_ok t" and "tb_width t = width"
  shows "interleave width [j] (tb_cells t) (replicate 8 0) =
    (case table_record t (jb_hash j) (jb_now j) (jb_threshold j) (jb_until j) of (r, t') \<Rightarrow> ([(j, Recorded r)], tb_cells t'))"
proof -
  let ?sl = "slots t (jb_hash j)" and ?u = "st_window (jb_now j)"
  let ?seen = "table_read t (slots t (jb_hash j))"
  let ?r = "judge (jb_now j) (jb_threshold j) (jb_until j) ?seen"
  have sl: "map (slot width (jb_hash j)) [0..<DEPTH] = ?sl" using assms(2) by (simp add: slots_def)
  have seen: "?seen = [tb_cells t ! (?sl ! 0), tb_cells t ! (?sl ! 1), tb_cells t ! (?sl ! 2), tb_cells t ! (?sl ! 3)]"
    by (simp add: table_read_def slots_def DEPTH_def upt_rec)
  define c1 where "c1 = (tb_cells t)[?sl ! 0 := raised ?u ?r (?seen ! 0)]"
  define c2 where "c2 = c1[?sl ! 1 := raised ?u ?r (?seen ! 1)]"
  define c3 where "c3 = c2[?sl ! 2 := raised ?u ?r (?seen ! 2)]"
  define c4 where "c4 = c3[?sl ! 3 := raised ?u ?r (?seen ! 3)]"
  have ne: "?sl ! a \<noteq> ?sl ! b" if "a < DEPTH" "b < DEPTH" "a \<noteq> b" for a b
    using slot_inj [of "tb_width t" "jb_hash j" a "jb_hash j" b] that assms(1) by (auto simp: slots_def table_ok_def)
  have ne': "?sl ! 0 \<noteq> ?sl ! 1" "?sl ! 0 \<noteq> ?sl ! 2" "?sl ! 0 \<noteq> ?sl ! 3" "?sl ! 1 \<noteq> ?sl ! 2" "?sl ! 1 \<noteq> ?sl ! 3" "?sl ! 2 \<noteq> ?sl ! 3"
    by (rule ne; simp add: DEPTH_def)+
  have rows: "raise_row ?u ?r ?seen ?sl 0 (tb_cells t) = (True, c1)" "raise_row ?u ?r ?seen ?sl 1 c1 = (True, c2)"
    "raise_row ?u ?r ?seen ?sl 2 c2 = (True, c3)" "raise_row ?u ?r ?seen ?sl 3 c3 = (True, c4)"
    using ne' unfolding seen by (auto simp: raise_row_def Let_def c1_def c2_def c3_def c4_def seen list_update_same_conv list_update_swap)
  let ?a = "tb_cells t ! (?sl ! 0)" and ?b = "tb_cells t ! (?sl ! 1)" and ?c = "tb_cells t ! (?sl ! 2)"
  have loads: "record_step j ?sl (Reading []) (tb_cells t) = (Reading [?a], tb_cells t)"
    "record_step j ?sl (Reading [?a]) (tb_cells t) = (Reading [?a, ?b], tb_cells t)"
    "record_step j ?sl (Reading [?a, ?b]) (tb_cells t) = (Reading [?a, ?b, ?c], tb_cells t)"
    "record_step j ?sl (Reading [?a, ?b, ?c]) (tb_cells t) = (Raising ?seen 0, tb_cells t)"
    by (simp_all add: DEPTH_def seen eval_nat_numeral)
  have swaps: "record_step j ?sl (Raising ?seen 0) (tb_cells t) = (Raising ?seen 1, c1)"
    "record_step j ?sl (Raising ?seen 1) c1 = (Raising ?seen 2, c2)" "record_step j ?sl (Raising ?seen 2) c2 = (Raising ?seen 3, c3)"
    "record_step j ?sl (Raising ?seen 3) c3 = (Recorded ?r, c4)"
    using rows by (simp_all add: DEPTH_def Let_def)
  have step: "thread_step width ([(j, p)], c) 0 = (case record_step j ?sl p c of (p, c) \<Rightarrow> ([(j, p)], c))" for p c
    by (simp add: thread_step_def sl split: prod.split)
  have eight: "replicate 8 (0 :: nat) = [0, 0, 0, 0, 0, 0, 0, 0]" by (simp add: numeral_eq_Suc)
  have "interleave width [j] (tb_cells t) (replicate 8 0) = ([(j, Recorded ?r)], c4)"
    unfolding interleave_def eight by (simp only: list.map foldl.simps step loads swaps prod.case)
  moreover have "raise_from ?u ?r ?seen ?sl [0..<DEPTH] (tb_cells t) = (True, c4)"
  proof -
    have "[0..<DEPTH] = [0, 1, 2, 3]" by (simp add: DEPTH_def upt_rec)
    then show ?thesis using rows by (simp only: raise_from.simps prod.case bool.case)
  qed
  then have "table_record t (jb_hash j) (jb_now j) (jb_threshold j) (jb_until j) = (?r, t\<lparr>tb_cells := c4\<rparr>)"
    by (simp add: table_record_def Let_def)
  ultimately show ?thesis by simp
qed

end
