(* ===== verification/Rate_Limit.thy ===== *)
theory Rate_Limit
  imports Limit_Keys Sketch_Alone
begin

unbundle bit_operations_syntax

text \<open>
  The sign-in limiter (\<open>rustak-server/src/auth/ratelimit.rs\<close>, \<open>events.rs\<close> and \<open>view.rs\<close>): two sketches, one
  of addresses and one of addresses with subjects; what checks, counts, lists and clears them.  One
  call is one step here; what threads do to a sketch at once is the sketch's own theory.
\<close>

section \<open>Lockouts that began\<close>

definition CAPACITY :: nat where "CAPACITY = 256"
definition TRIES :: nat where "TRIES = 4"

datatype tier = Tier_Source | Tier_Pair

record counted =
  cn_tier :: tier
  cn_hash :: "64 word"
  cn_class :: lockout_class
  cn_source :: source
  cn_subject :: "shown_key option"

record lock_event =
  le_seq :: "64 word"
  le_key :: counted
  le_since :: int
  le_estimate :: "16 word"
  le_cleared :: bool

definition lock_event_new :: "counted \<Rightarrow> int \<Rightarrow> 16 word \<Rightarrow> lock_event" where
  "lock_event_new key since est = \<lparr>le_seq = 0, le_key = key, le_since = since, le_estimate = est, le_cleared = False\<rparr>"

record ring =
  rg_slots :: "lock_event option list"
  rg_next :: "64 word"
  rg_dropped :: "64 word"

definition ring_new :: ring where
  "ring_new = \<lparr>rg_slots = replicate CAPACITY None, rg_next = 0, rg_dropped = 0\<rparr>"

text \<open>\<open>busy\<close> says which slots another holds.\<close>

fun ring_push_tries :: "nat \<Rightarrow> (nat \<Rightarrow> bool) \<Rightarrow> lock_event \<Rightarrow> ring \<Rightarrow> ring" where
  "ring_push_tries 0 busy e r = r\<lparr>rg_dropped := rg_dropped r + 1\<rparr>"
| "ring_push_tries (Suc n) busy e r =
     (let seq = rg_next r; r = r\<lparr>rg_next := seq + 1\<rparr>; index = unat seq mod CAPACITY
      in if busy index then ring_push_tries n busy e r
         else r\<lparr>rg_slots := (rg_slots r)[index := Some (e\<lparr>le_seq := seq\<rparr>)]\<rparr>)"

definition ring_push :: "(nat \<Rightarrow> bool) \<Rightarrow> lock_event \<Rightarrow> ring \<Rightarrow> ring" where
  "ring_push = ring_push_tries TRIES"

definition newest_first :: "ring \<Rightarrow> lock_event list" where
  "newest_first r = rev (sort_key le_seq (List.map_filter id (rg_slots r)))"

definition ring_hit :: "tier \<Rightarrow> 64 word \<Rightarrow> lock_event \<Rightarrow> bool" where
  "ring_hit t hash e \<longleftrightarrow> cn_tier (le_key e) = t \<and> cn_hash (le_key e) = hash \<and> \<not> le_cleared e"

fun ring_clear_slots :: "tier \<Rightarrow> 64 word \<Rightarrow> lock_event option list \<Rightarrow> lock_event option \<Rightarrow> lock_event option list \<times> lock_event option" where
  "ring_clear_slots t hash [] newest = ([], newest)"
| "ring_clear_slots t hash (None # sl) newest = (case ring_clear_slots t hash sl newest of (sl, newest) \<Rightarrow> (None # sl, newest))"
| "ring_clear_slots t hash (Some e # sl) newest =
     (if ring_hit t hash e then
        (let e = e\<lparr>le_cleared := True\<rparr>;
             newest = (case newest of Some best \<Rightarrow> if le_seq best < le_seq e then Some e else newest | None \<Rightarrow> Some e)
         in case ring_clear_slots t hash sl newest of (sl, newest) \<Rightarrow> (Some e # sl, newest))
      else case ring_clear_slots t hash sl newest of (sl, newest) \<Rightarrow> (Some e # sl, newest))"

definition ring_clear :: "tier \<Rightarrow> 64 word \<Rightarrow> ring \<Rightarrow> lock_event option \<times> ring" where
  "ring_clear t hash r = (case ring_clear_slots t hash (rg_slots r) None of (sl, newest) \<Rightarrow> (newest, r\<lparr>rg_slots := sl\<rparr>))"

section \<open>The limiter\<close>

text \<open>What the process cannot choose: the hash, the folding, the text of addresses.\<close>

record limit_env =
  ev_sip :: sip
  ev_lower :: "uchar \<Rightarrow> ustr"
  ev_text :: ip_text

record limit_config =
  lc_attempts :: nat
  lc_address_attempts :: nat
  lc_network_attempts :: nat
  lc_window :: int
  lc_lockout :: int

record limits =
  li_host :: "16 word"
  li_network :: "16 word"
  li_pair :: "16 word"

record limiter =
  lm_keyed :: keyed_hash
  lm_sources :: table
  lm_pairs :: table
  lm_clock :: clock
  lm_limits :: limits
  lm_lockout :: int
  lm_ring :: ring
  lm_counters :: class_counters
  lm_created :: int

definition allowance :: "nat \<Rightarrow> 16 word" where
  "allowance attempts = max 1 (of_nat (min attempts 65535))"

definition limiter_build :: "limit_config \<Rightarrow> nat \<Rightarrow> keyed_hash \<Rightarrow> int \<Rightarrow> limiter" where
  "limiter_build config width keyed now =
     \<lparr>lm_keyed = keyed, lm_sources = table_new width, lm_pairs = table_new width,
      lm_clock = clock_new now (lc_window config) (lc_lockout config),
      lm_limits = \<lparr>li_host = allowance (lc_address_attempts config), li_network = allowance (lc_network_attempts config),
        li_pair = allowance (lc_attempts config)\<rparr>,
      lm_lockout = lc_lockout config, lm_ring = ring_new, lm_counters = counters_none, lm_created = now\<rparr>"

definition limiter_new :: "limit_config \<Rightarrow> keyed_hash \<Rightarrow> int \<Rightarrow> limiter" where
  "limiter_new config keyed now = limiter_build config WIDTH keyed now"

definition limiter_table :: "tier \<Rightarrow> limiter \<Rightarrow> table" where
  "limiter_table t l = (case t of Tier_Source \<Rightarrow> lm_sources l | Tier_Pair \<Rightarrow> lm_pairs l)"

definition set_table :: "tier \<Rightarrow> table \<Rightarrow> limiter \<Rightarrow> limiter" where
  "set_table t tb l = (case t of Tier_Source \<Rightarrow> l\<lparr>lm_sources := tb\<rparr> | Tier_Pair \<Rightarrow> l\<lparr>lm_pairs := tb\<rparr>)"

fun opt_max :: "'a :: linorder option \<Rightarrow> 'a option \<Rightarrow> 'a option" where
  "opt_max None b = b"
| "opt_max a None = a"
| "opt_max (Some a) (Some b) = Some (max a b)"

text \<open>How long a caller is refused for, in either tier; \<open>None\<close> is not at all.\<close>

definition source_lock :: "limit_env \<Rightarrow> int \<Rightarrow> ip option \<Rightarrow> limiter \<Rightarrow> 32 word option" where
  "source_lock E now client l =
     (let st = clock_stamp (lm_clock l) now;
          lock = (\<lambda>s. locked_until (lm_sources l) (keyed_source (ev_sip E) (lm_keyed l) s) st)
      in opt_max (lock (source_host client)) (case source_network client of None \<Rightarrow> None | Some s \<Rightarrow> lock s))"

definition pair_lock :: "limit_env \<Rightarrow> int \<Rightarrow> ip option \<Rightarrow> ustr \<Rightarrow> limiter \<Rightarrow> 32 word option" where
  "pair_lock E now client subject l =
     locked_until (lm_pairs l) (keyed_pair (ev_sip E) (ev_lower E) (lm_keyed l) (source_host client) subject) (clock_stamp (lm_clock l) now)"

definition check_at :: "limit_env \<Rightarrow> int \<Rightarrow> ip option \<Rightarrow> ustr \<Rightarrow> limiter \<Rightarrow> (int + unit) \<times> limiter" where
  "check_at E now client subject l =
     (let source = source_lock E now client l; pair = pair_lock E now client subject l
      in case opt_max source pair of
           None \<Rightarrow> (Inr (), l)
         | Some until \<Rightarrow>
             (Inl (clock_at (lm_clock l) until - now),
              l\<lparr>lm_counters := class_refused (case source of Some _ \<Rightarrow> Cl_Source
                  | None \<Rightarrow> fst (classify (sk_text (shown_of (ev_lower E) subject)))) (lm_counters l)\<rparr>))"

definition source_key :: "limit_env \<Rightarrow> source \<Rightarrow> limiter \<Rightarrow> counted" where
  "source_key E s l =
     \<lparr>cn_tier = Tier_Source, cn_hash = keyed_source (ev_sip E) (lm_keyed l) s, cn_class = Cl_Source, cn_source = s, cn_subject = None\<rparr>"

definition pair_key :: "limit_env \<Rightarrow> source \<Rightarrow> ustr \<Rightarrow> limiter \<Rightarrow> counted" where
  "pair_key E host subject l =
     (let shown = shown_of (ev_lower E) subject
      in \<lparr>cn_tier = Tier_Pair, cn_hash = keyed_pair (ev_sip E) (ev_lower E) (lm_keyed l) host subject,
          cn_class = fst (classify (sk_text shown)), cn_source = host, cn_subject = Some shown\<rparr>)"

definition limiter_count :: "(nat \<Rightarrow> bool) \<Rightarrow> counted \<Rightarrow> 16 word \<Rightarrow> int \<Rightarrow> limiter \<Rightarrow> bool \<times> limiter" where
  "limiter_count busy key allow now l =
     (let st = clock_stamp (lm_clock l) now
      in case table_record (limiter_table (cn_tier key) l) (cn_hash key) st allow (lockout_ends (lm_clock l) st) of
           (r, tb) \<Rightarrow>
             let l = set_table (cn_tier key) tb l
             in if rc_began r = None then (False, l)
                else (True, l\<lparr>lm_counters := class_locked (cn_class key) (lm_counters l),
                        lm_ring := ring_push busy (lock_event_new key now (rc_estimate r)) (lm_ring l)\<rparr>))"

text \<open>The keys one failed attempt counts, in the order the code counts them.\<close>

definition failure_keys :: "limit_env \<Rightarrow> ip option \<Rightarrow> ustr list \<Rightarrow> limiter \<Rightarrow> (counted \<times> 16 word) list" where
  "failure_keys E client subjects l =
     (let host = source_host client
      in (source_key E host l, li_host (lm_limits l)) #
         (case source_network client of None \<Rightarrow> [] | Some s \<Rightarrow> [(source_key E s l, li_network (lm_limits l))]) @
         map (\<lambda>subject. (pair_key E host subject l, li_pair (lm_limits l))) subjects)"

fun count_all :: "(nat \<Rightarrow> bool) \<Rightarrow> (counted \<times> 16 word) list \<Rightarrow> int \<Rightarrow> bool \<times> limiter \<Rightarrow> bool \<times> limiter" where
  "count_all busy [] now (began, l) = (began, l)"
| "count_all busy ((key, allow) # keys) now (began, l) =
     (case limiter_count busy key allow now l of (b, l) \<Rightarrow> count_all busy keys now (began \<or> b, l))"

definition record_failures_at :: "limit_env \<Rightarrow> (nat \<Rightarrow> bool) \<Rightarrow> int \<Rightarrow> ip option \<Rightarrow> ustr list \<Rightarrow> limiter \<Rightarrow> int option \<times> limiter" where
  "record_failures_at E busy now client subjects l =
     (case count_all busy (failure_keys E client subjects l) now (False, l) of
        (began, l) \<Rightarrow> (if began then Some (lm_lockout l) else None, l))"

definition record_success :: "ip option \<Rightarrow> ustr \<Rightarrow> limiter \<Rightarrow> limiter" where
  "record_success client subject l = l"

section \<open>What an administrator sees\<close>

datatype unclearable = NotAKey | NotLocked

record lockout =
  lo_class :: lockout_class
  lo_address :: "ip option"
  lo_prefix :: "nat option"
  lo_key :: ustr
  lo_started :: int
  lo_ends :: int
  lo_failures :: nat

definition describe :: "limit_env \<Rightarrow> counted \<Rightarrow> int \<Rightarrow> 32 word \<Rightarrow> 16 word \<Rightarrow> limiter \<Rightarrow> lockout" where
  "describe E key since until est l =
     (case (case cn_subject key of
              Some subject \<Rightarrow> (case classify (sk_text subject) of (cls, shown) \<Rightarrow> (cls, shown @ (if sk_cut subject then [0x2026] else [])))
            | None \<Rightarrow> (Cl_Source, source_shown (ev_text E) (cn_source key))) of
        (cls, shown) \<Rightarrow>
          \<lparr>lo_class = cls, lo_address = so_network (cn_source key), lo_prefix = source_prefix (cn_source key), lo_key = shown,
           lo_started = since, lo_ends = clock_at (lm_clock l) until, lo_failures = unat est\<rparr>)"

fun first_of_each :: "(tier \<times> 64 word) set \<Rightarrow> lock_event list \<Rightarrow> lock_event list" where
  "first_of_each seen [] = []"
| "first_of_each seen (e # es) =
     (let k = (cn_tier (le_key e), cn_hash (le_key e))
      in if \<not> le_cleared e \<and> k \<notin> seen then e # first_of_each (insert k seen) es else first_of_each seen es)"

record lockouts =
  ls_lockouts :: "lockout list"
  ls_total :: nat
  ls_counters :: "(lockout_class \<times> 64 word \<times> 64 word) list"
  ls_since :: int
  ls_tiers :: "(tier \<times> nat \<times> nat \<times> nat) list"

definition lockouts_at :: "limit_env \<Rightarrow> int \<Rightarrow> nat \<Rightarrow> limiter \<Rightarrow> lockouts" where
  "lockouts_at E now limit l =
     (let st = clock_stamp (lm_clock l) now;
          alive = List.map_filter (\<lambda>e. map_option (\<lambda>until. describe E (le_key e) (le_since e) until (le_estimate e) l)
              (locked_until (limiter_table (cn_tier (le_key e)) l) (cn_hash (le_key e)) st))
            (first_of_each {} (newest_first (lm_ring l)))
      in \<lparr>ls_lockouts = take limit alive, ls_total = min (length alive) (2 ^ 32 - 1), ls_counters = class_snapshot (lm_counters l),
          ls_since = lm_created l,
          ls_tiers = map (\<lambda>t. case locked_sample (limiter_table t l) st of (locked, sampled) \<Rightarrow> (t, sampled, locked, DEPTH))
            [Tier_Source, Tier_Pair]\<rparr>)"

definition clear_counted :: "limit_env \<Rightarrow> int \<Rightarrow> counted \<Rightarrow> limiter \<Rightarrow> (unclearable + lockout) \<times> limiter" where
  "clear_counted E now key l =
     (let st = clock_stamp (lm_clock l) now; tb = limiter_table (cn_tier key) l
      in case locked_until tb (cn_hash key) st of
           None \<Rightarrow> (Inl NotLocked, l)
         | Some until \<Rightarrow>
             let est = estimate tb (cn_hash key) (st_window st);
                 l = set_table (cn_tier key) (table_clear (cn_hash key) tb) l
             in case ring_clear (cn_tier key) (cn_hash key) (lm_ring l) of
                  (newest, rg) \<Rightarrow>
                    let l = l\<lparr>lm_ring := rg\<rparr>; c = lm_clock l;
                        started = (case newest of Some e \<Rightarrow> e
                          | None \<Rightarrow> lock_event_new key (clock_at c (if until < ck_lockout c then 0 else until - ck_lockout c)) est)
                    in (Inr (describe E key (le_since started) until (le_estimate started) l), l))"

definition clear_at :: "limit_env \<Rightarrow> int \<Rightarrow> lockout_class \<Rightarrow> ip option \<Rightarrow> ustr \<Rightarrow> limiter \<Rightarrow> (unclearable + lockout) \<times> limiter" where
  "clear_at E now cls address key l =
     (case (case cls of
              Cl_Source \<Rightarrow>
                (case parse_shown (ev_text E) key of
                   None \<Rightarrow> None
                 | Some s \<Rightarrow> if so_network s \<noteq> address then None else Some (source_key E s l))
            | _ \<Rightarrow>
                (case subject_for cls key of
                   None \<Rightarrow> None
                 | Some subject \<Rightarrow> Some (pair_key E (source_host address) subject l))) of
        None \<Rightarrow> (Inl NotAKey, l)
      | Some counted \<Rightarrow> clear_counted E now counted l)"

end
