(* ===== verification/Limit_Props.thy ===== *)
theory Limit_Props
  imports Rate_Limit
begin

text \<open>
  What the limiter promises its callers: whoever has failed too often is refused, for as long as it
  was told and no longer, and forgiving one key lets nobody else be refused.
\<close>

section \<open>A run of failures on one table\<close>

definition table_run :: "table \<Rightarrow> job list \<Rightarrow> table" where
  "table_run = foldl (\<lambda>t j. snd (table_record t (jb_hash j) (jb_now j) (jb_threshold j) (jb_until j)))"

lemma raised_lock: "lock_of (raised v r w) = (case rc_began r of None \<Rightarrow> lock_of w | Some t \<Rightarrow> max (lock_of w) t)"
  by (simp add: raised_def Let_def in_window_def split: option.split)

text \<open>What one record does to every cell, whichever window it is in.\<close>

lemma record_cell:
  assumes "table_ok t" and "table_record t h now th until = (r, t')"
  shows "tb_cells t' ! p = tb_cells t ! p \<or> tb_cells t' ! p = raised (st_window now) r (tb_cells t ! p)"
proof (cases "p \<in> set (slots t h)")
  case True
  then obtain row where "row < DEPTH" "p = slot (tb_width t) h row" by (auto simp: slots_def)
  with table_record_result(4) [OF assms] show ?thesis by blast
qed (use table_record_result(5) [OF assms] in blast)

lemma run_ok: "table_ok t \<Longrightarrow> table_ok (table_run t js) \<and> tb_width (table_run t js) = tb_width t"
proof (induction js arbitrary: t)
  case (Cons j js)
  obtain r t1 where r: "table_record t (jb_hash j) (jb_now j) (jb_threshold j) (jb_until j) = (r, t1)" by force
  from table_record_result(2,3) [OF Cons.prems r] Cons.IH [of t1] r show ?case by (simp add: table_run_def)
qed (simp add: table_run_def)

lemma run_locks:
  assumes "table_ok t"
  shows "lock_of (tb_cells t ! p) \<le> lock_of (tb_cells (table_run t js) ! p)"
    and "(\<forall>j \<in> set js. jb_until j \<le> T) \<Longrightarrow> lock_of (tb_cells t ! p) \<le> T \<Longrightarrow> lock_of (tb_cells (table_run t js) ! p) \<le> T"
proof -
  have "lock_of (tb_cells t ! p) \<le> lock_of (tb_cells (table_run t js) ! p) \<and>
    ((\<forall>j \<in> set js. jb_until j \<le> T) \<longrightarrow> lock_of (tb_cells t ! p) \<le> T \<longrightarrow> lock_of (tb_cells (table_run t js) ! p) \<le> T)"
    using assms
  proof (induction js arbitrary: t)
    case (Cons j js)
    obtain r t1 where r: "table_record t (jb_hash j) (jb_now j) (jb_threshold j) (jb_until j) = (r, t1)" by force
    have run: "table_run t (j # js) = table_run t1 js" by (simp add: table_run_def r)
    have "rc_began r = None \<or> rc_began r = Some (jb_until j)"
      using table_record_result(1) [OF Cons.prems r] by (simp add: judge_def Let_def)
    then have "lock_of (tb_cells t ! p) \<le> lock_of (tb_cells t1 ! p) \<and>
        (jb_until j \<le> T \<longrightarrow> lock_of (tb_cells t ! p) \<le> T \<longrightarrow> lock_of (tb_cells t1 ! p) \<le> T)"
      using record_cell [OF Cons.prems r, of p] by (auto simp: raised_lock)
    with Cons.IH [OF table_record_result(2) [OF Cons.prems r]] show ?case
      unfolding run by (auto intro: order_trans)
  qed (simp add: table_run_def)
  then show "lock_of (tb_cells t ! p) \<le> lock_of (tb_cells (table_run t js) ! p)"
    "(\<forall>j \<in> set js. jb_until j \<le> T) \<Longrightarrow> lock_of (tb_cells t ! p) \<le> T \<Longrightarrow> lock_of (tb_cells (table_run t js) ! p) \<le> T" by blast+
qed

lemma locked_iff: "locked_until t h now = Some until \<longleftrightarrow>
    st_secs now < until \<and> until = least (map (\<lambda>row. lock_of (tb_cells t ! slot (tb_width t) h row)) [0..<DEPTH])"
  by (auto simp: locked_until_def Let_def table_read_def slots_def comp_def)

lemma locked_some: "(\<exists>until. locked_until t h now = Some until) \<longleftrightarrow>
    (\<forall>row < DEPTH. st_secs now < lock_of (tb_cells t ! slot (tb_width t) h row))"
proof -
  have "(\<exists>until. locked_until t h now = Some until) \<longleftrightarrow>
      st_secs now < least (map (\<lambda>row. lock_of (tb_cells t ! slot (tb_width t) h row)) [0..<DEPTH])"
    unfolding locked_iff by blast
  also have "\<dots> \<longleftrightarrow> (\<forall>row < DEPTH. st_secs now < lock_of (tb_cells t ! slot (tb_width t) h row))"
    by (subst least_gt) (auto simp: DEPTH_def)
  finally show ?thesis .
qed

lemma u16_less: "unat (m :: 16 word) < 65536"
  by (rule order_less_le_trans [OF unsigned_less]) simp

lemma unat_next_count: "unat (next_count m) = min (unat m + 1) 65535"
proof (cases "m = - 1")
  case True
  then show ?thesis by (simp add: next_count_def unsigned_minus_1_eq_mask mask_eq_exp_minus_1)
next
  case False
  then have "unat m < unat (next_count m)" using next_count_less by (simp add: word_less_nat_alt)
  then have "unat m + 1 < 65536" using u16_less [of "next_count m"] by simp
  then have "unat (m + 1) = unat m + 1" by (simp add: unat_word_ariths(1))
  then show ?thesis using False \<open>unat m + 1 < 65536\<close> by (simp add: next_count_def)
qed

text \<open>Once the allowance of a key has been recorded in a window, it is refused at one of those moments.\<close>

definition charged :: "64 word \<Rightarrow> 16 word \<Rightarrow> 16 word \<Rightarrow> job \<Rightarrow> bool" where
  "charged key u th j \<longleftrightarrow> counts key u j \<and> jb_threshold j = th"

lemma run_refuses:
  assumes "table_ok t" and "\<forall>w \<in> set (tb_cells t). ahead_free u w"
    and "\<forall>j \<in> set js. on_time u (st_window (jb_now j)) \<and> st_secs (jb_now j) < jb_until j"
  shows "(\<forall>w \<in> set (tb_cells (table_run t js)). ahead_free u w) \<and>
    (\<forall>row < DEPTH. min (length (filter (charged key u th) js)) 65535 \<le> unat (held u (tb_cells (table_run t js) ! slot (tb_width t) key row))) \<and>
    (0 < th \<and> unat th \<le> length (filter (charged key u th) js) \<longrightarrow>
       (\<exists>j \<in> set js. charged key u th j \<and> (\<exists>until. locked_until (table_run t js) key (jb_now j) = Some until)))"
  using assms(3)
proof (induction js rule: rev_induct)
  case Nil
  then show ?case using assms(2) by (auto simp: table_run_def unat_gt_0)
next
  case (snoc j js)
  let ?t = "table_run t js"
  have ok: "table_ok ?t" "tb_width ?t = tb_width t" using run_ok [OF assms(1)] by simp_all
  obtain r t1 where r: "table_record ?t (jb_hash j) (jb_now j) (jb_threshold j) (jb_until j) = (r, t1)" by force
  have run: "table_run t (js @ [j]) = t1" using r by (simp add: table_run_def)
  note res = table_record_result [OF ok(1) r]
  have IH: "\<forall>w \<in> set (tb_cells ?t). ahead_free u w"
    "\<forall>row < DEPTH. min (length (filter (charged key u th) js)) 65535 \<le> unat (held u (tb_cells ?t ! slot (tb_width t) key row))"
    "0 < th \<and> unat th \<le> length (filter (charged key u th) js) \<Longrightarrow>
       \<exists>j \<in> set js. charged key u th j \<and> (\<exists>until. locked_until ?t key (jb_now j) = Some until)"
    using snoc.IH snoc.prems by auto
  have time: "on_time u (st_window (jb_now j))" using snoc.prems by simp
  have up: "ahead_free u (tb_cells t1 ! p) \<and> held u (tb_cells ?t ! p) \<le> held u (tb_cells t1 ! p)" if p: "p < length (tb_cells ?t)" for p
    using record_cell [OF ok(1) r, of p] raised_grows(1,2) [OF time, of "tb_cells ?t ! p" r] IH(1) p by auto
  have len: "length (tb_cells t1) = length (tb_cells ?t)" using res(2,3) ok(1) by (simp add: table_ok_def)
  have lock: "lock_of (tb_cells ?t ! p) \<le> lock_of (tb_cells t1 ! p)" for p
    using run_locks(1) [OF assms(1), of p "js @ [j]"] record_cell [OF ok(1) r, of p] by (auto simp: raised_lock split: option.splits)
  have still: "\<exists>until. locked_until t1 key now = Some until" if "\<exists>until. locked_until ?t key now = Some until" for now
    using that lock unfolding locked_some res(3) by (meson less_le_trans)
  have "\<forall>w \<in> set (tb_cells t1). ahead_free u w" using up len by (metis in_set_conv_nth)
  moreover have "(\<forall>row < DEPTH. min (length (filter (charged key u th) (js @ [j]))) 65535 \<le> unat (held u (tb_cells t1 ! slot (tb_width t) key row))) \<and>
    (0 < th \<and> unat th \<le> length (filter (charged key u th) (js @ [j])) \<longrightarrow>
       (\<exists>j \<in> set (js @ [j]). charged key u th j \<and> (\<exists>until. locked_until t1 key (jb_now j) = Some until)))"
  proof (cases "charged key u th j")
    case False
    have "unat (held u (tb_cells ?t ! slot (tb_width t) key row)) \<le> unat (held u (tb_cells t1 ! slot (tb_width t) key row))" if "row < DEPTH" for row
      using up [OF slot_in_table [OF ok(1) that]] ok(2) by (simp add: word_le_nat_alt)
    with IH(2) False have "\<forall>row < DEPTH. min (length (filter (charged key u th) (js @ [j]))) 65535 \<le> unat (held u (tb_cells t1 ! slot (tb_width t) key row))"
      by (simp del: min_le_iff_disj) (meson order_trans)
    moreover have "\<exists>j \<in> set (js @ [j]). charged key u th j \<and> (\<exists>until. locked_until t1 key (jb_now j) = Some until)"
      if "0 < th \<and> unat th \<le> length (filter (charged key u th) (js @ [j]))"
      using IH(3) that False still by fastforce
    ultimately show ?thesis by blast
  next
    case True
    then have j: "jb_hash j = key" "st_window (jb_now j) = u" "jb_threshold j = th" "st_secs (jb_now j) < jb_until j"
      using snoc.prems by (auto simp: charged_def counts_def)
    let ?seen = "table_read ?t (slots ?t key)"
    have seen: "?seen = map (\<lambda>row. tb_cells ?t ! slot (tb_width t) key row) [0..<DEPTH]"
      by (simp add: table_read_def slots_def ok(2))
    have est: "rc_estimate r = next_count (low u ?seen)" using res(1) j by (simp add: judge_estimate)
    have "low u ?seen \<in> set (map (held u) ?seen)" by (intro least_mem) (simp add: seen DEPTH_def)
    then have "min (length (filter (charged key u th) js)) 65535 \<le> unat (low u ?seen)" using IH(2) by (auto simp: seen)
    then have n: "min (length (filter (charged key u th) (js @ [j]))) 65535 \<le> unat (rc_estimate r)"
      using True unfolding est unat_next_count by simp
    have row: "tb_cells t1 ! slot (tb_width t) key row = raised u r (tb_cells ?t ! slot (tb_width t) key row)" if "row < DEPTH" for row
      using res(4) [OF that] ok(2) j by simp
    have "unat (rc_estimate r) \<le> unat (held u (tb_cells t1 ! slot (tb_width t) key row))" if "row < DEPTH" for row
      using raised_reaches [of r u] row [OF that] by (simp add: word_le_nat_alt)
    with n have one: "\<forall>row < DEPTH. min (length (filter (charged key u th) (js @ [j]))) 65535 \<le> unat (held u (tb_cells t1 ! slot (tb_width t) key row))"
      by (meson order_trans)
    have "\<exists>until. locked_until t1 key (jb_now j) = Some until" if th: "unat th \<le> length (filter (charged key u th) (js @ [j]))"
    proof -
      have "unat th \<le> 65535" using u16_less [of th] by simp
      then have "th \<le> rc_estimate r" using n th by (simp add: word_le_nat_alt)
      then consider "st_secs (jb_now j) < least (map lock_of ?seen)" | "rc_began r = Some (jb_until j)"
        using judge_locks [of th "jb_now j" "jb_until j" ?seen] res(1) j by auto
      then have "\<forall>row < DEPTH. st_secs (jb_now j) < lock_of (tb_cells t1 ! slot (tb_width t) key row)"
      proof cases
        case 1
        then have "\<forall>w \<in> set ?seen. st_secs (jb_now j) < lock_of w" by (subst (asm) least_gt) (auto simp: seen DEPTH_def)
        then show ?thesis by (auto simp: seen intro!: less_le_trans [OF _ lock])
      next
        case 2
        then show ?thesis using row j(4) raised_locks [OF 2, of u] by (metis less_le_trans)
      qed
      then show ?thesis unfolding locked_some res(3) ok(2) .
    qed
    then have "0 < th \<and> unat th \<le> length (filter (charged key u th) (js @ [j])) \<longrightarrow>
       (\<exists>j \<in> set (js @ [j]). charged key u th j \<and> (\<exists>until. locked_until t1 key (jb_now j) = Some until))" using True by auto
    with one show ?thesis by blast
  qed
  ultimately show ?case unfolding run by blast
qed

section \<open>A run of failures on the limiter\<close>

type_synonym failure = "int \<times> ip option \<times> ustr list"

definition record_all :: "limit_env \<Rightarrow> (nat \<Rightarrow> bool) \<Rightarrow> failure list \<Rightarrow> limiter \<Rightarrow> limiter" where
  "record_all E busy fs l = foldl (\<lambda>l (now, client, subjects). snd (record_failures_at E busy now client subjects l)) l fs"

definition limiter_ok :: "limiter \<Rightarrow> bool" where
  "limiter_ok l \<longleftrightarrow> table_ok (lm_sources l) \<and> table_ok (lm_pairs l)"

definition same_limiter :: "limiter \<Rightarrow> limiter \<Rightarrow> bool" where
  "same_limiter l l' \<longleftrightarrow> lm_keyed l' = lm_keyed l \<and> lm_clock l' = lm_clock l \<and> lm_limits l' = lm_limits l \<and> lm_lockout l' = lm_lockout l"

definition key_job :: "clock \<Rightarrow> int \<Rightarrow> counted \<times> 16 word \<Rightarrow> job" where
  "key_job c now = (\<lambda>(key, allow). \<lparr>jb_hash = cn_hash key, jb_now = clock_stamp c now, jb_threshold = allow,
     jb_until = lockout_ends c (clock_stamp c now)\<rparr>)"

definition tier_jobs :: "tier \<Rightarrow> clock \<Rightarrow> int \<Rightarrow> (counted \<times> 16 word) list \<Rightarrow> job list" where
  "tier_jobs t c now keys = map (key_job c now) (filter (\<lambda>(key, allow). cn_tier key = t) keys)"

definition run_jobs :: "limit_env \<Rightarrow> tier \<Rightarrow> limiter \<Rightarrow> failure list \<Rightarrow> job list" where
  "run_jobs E t l fs = concat (map (\<lambda>(now, client, subjects). tier_jobs t (lm_clock l) now (failure_keys E client subjects l)) fs)"

lemma limiter_count_table:
  "limiter_count busy key allow now l = (b, l') \<Longrightarrow>
     limiter_table t l' = table_run (limiter_table t l) (tier_jobs t (lm_clock l) now [(key, allow)]) \<and> same_limiter l l'"
  by (cases t; cases "cn_tier key")
    (auto simp: limiter_count_def tier_jobs_def key_job_def table_run_def limiter_table_def set_table_def same_limiter_def Let_def
      split: prod.splits if_splits)

lemma table_run_append: "table_run t (js @ js') = table_run (table_run t js) js'"
  by (simp add: table_run_def)

lemma count_all_table:
  "count_all busy keys now (b, l) = (b', l') \<Longrightarrow>
     limiter_table t l' = table_run (limiter_table t l) (tier_jobs t (lm_clock l) now keys) \<and> same_limiter l l'"
proof (induction keys arbitrary: b l)
  case Nil
  then show ?case by (simp add: tier_jobs_def table_run_def same_limiter_def)
next
  case (Cons k keys)
  obtain key allow where k: "k = (key, allow)" by force
  obtain c l1 where c: "limiter_count busy key allow now l = (c, l1)" by force
  with Cons.prems k have rest: "count_all busy keys now (b \<or> c, l1) = (b', l')" by simp
  have "tier_jobs t (lm_clock l) now (k # keys) = tier_jobs t (lm_clock l) now [(key, allow)] @ tier_jobs t (lm_clock l) now keys"
    by (simp add: tier_jobs_def k)
  then show ?case using limiter_count_table [OF c, of t] Cons.IH [OF rest] by (auto simp: table_run_append same_limiter_def)
qed

lemma failure_keys_same: "same_limiter l l' \<Longrightarrow> failure_keys E client subjects l' = failure_keys E client subjects l"
  by (simp add: failure_keys_def source_key_def pair_key_def same_limiter_def Let_def split: option.split)

lemma record_all_table:
  "limiter_table t (record_all E busy fs l) = table_run (limiter_table t l) (run_jobs E t l fs) \<and> same_limiter l (record_all E busy fs l)"
proof (induction fs arbitrary: l)
  case Nil
  then show ?case by (simp add: record_all_def run_jobs_def table_run_def same_limiter_def)
next
  case (Cons f fs)
  obtain now client subjects where f: "f = (now, client, subjects)" by (cases f)
  obtain b l1 where c: "count_all busy (failure_keys E client subjects l) now (False, l) = (b, l1)" by force
  then have l1: "snd (record_failures_at E busy now client subjects l) = l1" by (simp add: record_failures_at_def)
  note one = count_all_table [OF c, of t]
  have "run_jobs E t l1 fs = run_jobs E t l fs"
    using one failure_keys_same [of l l1 E] by (simp add: run_jobs_def same_limiter_def)
  moreover have "record_all E busy (f # fs) l = record_all E busy fs l1" by (simp add: record_all_def f l1)
  moreover have "run_jobs E t l (f # fs) = tier_jobs t (lm_clock l) now (failure_keys E client subjects l) @ run_jobs E t l fs"
    by (simp add: run_jobs_def f)
  ultimately show ?case using one Cons.IH [of l1] by (auto simp: table_run_append same_limiter_def)
qed

lemma check_refuses:
  "(\<exists>wait. fst (check_at E now client subject l) = Inl wait) \<longleftrightarrow> source_lock E now client l \<noteq> None \<or> pair_lock E now client subject l \<noteq> None"
  by (cases "source_lock E now client l"; cases "pair_lock E now client subject l") (simp_all add: check_at_def Let_def)

lemma opt_max_None [simp]: "opt_max a b = None \<longleftrightarrow> a = None \<and> b = None"
  by (cases a; cases b) simp_all

lemma source_lock_host:
  "locked_until (lm_sources l) (keyed_source (ev_sip E) (lm_keyed l) (source_host client)) (clock_stamp (lm_clock l) now) = Some until \<Longrightarrow>
     source_lock E now client l \<noteq> None"
  by (simp add: source_lock_def Let_def del: not_None_eq)

text \<open>The failures of a window by one host, and those of them that named a subject.\<close>

definition by_host :: "limiter \<Rightarrow> 16 word \<Rightarrow> ip option \<Rightarrow> failure \<Rightarrow> bool" where
  "by_host l u client = (\<lambda>(now, c, ss). st_window (clock_stamp (lm_clock l) now) = u \<and> source_host c = source_host client)"

definition naming :: "limit_env \<Rightarrow> limiter \<Rightarrow> 16 word \<Rightarrow> ip option \<Rightarrow> ustr \<Rightarrow> failure \<Rightarrow> bool" where
  "naming E l u client subject = (\<lambda>(now, c, ss). by_host l u client (now, c, ss) \<and>
     (\<exists>s \<in> set ss. fold_subject (ev_lower E) s = fold_subject (ev_lower E) subject))"

lemma filter_concat_length:
  "(\<And>x. P x \<Longrightarrow> \<exists>y \<in> set (f x). Q y) \<Longrightarrow> length (filter P xs) \<le> length (filter Q (concat (map f xs)))"
proof (induction xs)
  case (Cons x xs)
  have "filter Q (f x) \<noteq> []" if "P x" using Cons.prems [OF that] by (auto simp: filter_empty_conv)
  then have "P x \<Longrightarrow> 1 \<le> length (filter Q (f x))" by (simp add: Suc_le_eq)
  with Cons show ?case by fastforce
qed simp

lemma lockout_ends_after: "0 < ck_lockout c \<Longrightarrow> st_secs st \<noteq> - 1 \<Longrightarrow> st_secs st < lockout_ends c st"
proof (cases "unat (st_secs st) + unat (ck_lockout c) < 2 ^ 32")
  case True
  assume "0 < ck_lockout c"
  then have "0 < unat (ck_lockout c)" by (simp add: unat_gt_0)
  moreover have "unat (st_secs st + ck_lockout c) = unat (st_secs st) + unat (ck_lockout c)" using True by (simp add: unat_word_ariths(1))
  ultimately show ?thesis using True by (simp add: lockout_ends_def word_less_nat_alt)
next
  case False
  assume "st_secs st \<noteq> - 1"
  then show ?thesis using False word_order.not_eq_extremum [of "st_secs st"] by (simp add: lockout_ends_def)
qed

lemma naming_charged:
  assumes "naming E l u client subject f"
  shows "\<exists>j \<in> set (run_jobs E Tier_Pair l [f]).
    charged (keyed_pair (ev_sip E) (ev_lower E) (lm_keyed l) (source_host client) subject) u (li_pair (lm_limits l)) j"
proof -
  obtain now c ss where f: "f = (now, c, ss)" by (cases f)
  with assms obtain s where s: "s \<in> set ss" "fold_subject (ev_lower E) s = fold_subject (ev_lower E) subject"
    "st_window (clock_stamp (lm_clock l) now) = u" "source_host c = source_host client"
    by (auto simp: naming_def by_host_def)
  then have "keyed_pair (ev_sip E) (ev_lower E) (lm_keyed l) (source_host c) s = keyed_pair (ev_sip E) (ev_lower E) (lm_keyed l) (source_host client) subject"
    by (simp add: keyed_pair_def pair_input_def)
  moreover have "key_job (lm_clock l) now (pair_key E (source_host c) s l, li_pair (lm_limits l)) \<in> set (run_jobs E Tier_Pair l [f])"
    using s(1) by (auto simp: run_jobs_def f tier_jobs_def failure_keys_def Let_def source_key_def pair_key_def)
  ultimately show ?thesis using s(3)
    by (intro bexI) (auto simp: charged_def counts_def key_job_def pair_key_def Let_def)
qed

lemma by_host_charged:
  assumes "by_host l u client f"
  shows "\<exists>j \<in> set (run_jobs E Tier_Source l [f]). charged (keyed_source (ev_sip E) (lm_keyed l) (source_host client)) u (li_host (lm_limits l)) j"
proof -
  obtain now c ss where f: "f = (now, c, ss)" by (cases f)
  with assms have s: "st_window (clock_stamp (lm_clock l) now) = u" "source_host c = source_host client" by (auto simp: by_host_def)
  have "key_job (lm_clock l) now (source_key E (source_host c) l, li_host (lm_limits l)) \<in> set (run_jobs E Tier_Source l [f])"
    by (auto simp: run_jobs_def f tier_jobs_def failure_keys_def Let_def source_key_def pair_key_def)
  then show ?thesis using s by (intro bexI) (auto simp: charged_def counts_def key_job_def source_key_def)
qed

lemma run_jobs_times:
  "j \<in> set (run_jobs E t l fs) \<Longrightarrow> \<exists>(now, c, ss) \<in> set fs. jb_now j = clock_stamp (lm_clock l) now \<and>
     jb_until j = lockout_ends (lm_clock l) (clock_stamp (lm_clock l) now)"
  by (fastforce simp: run_jobs_def tier_jobs_def key_job_def)

text \<open>C32: guessing is stopped.  If within one window an address fails, against anything, as often as its
  allowance, or against one subject, however it is written, as often as a pair's, then whatever else
  is recorded in between and whatever keys share its cells, that caller is refused at the moment of
  one of those failures, for any subject in the first case and for that one in the second.\<close>

theorem guesser_is_refused:
  assumes "limiter_ok l" and "0 < ck_lockout (lm_clock l)"
    and "\<forall>w \<in> set (tb_cells (lm_sources l)) \<union> set (tb_cells (lm_pairs l)). ahead_free u w"
    and "\<forall>(now, c, ss) \<in> set fs. on_time u (st_window (clock_stamp (lm_clock l) now)) \<and> st_secs (clock_stamp (lm_clock l) now) \<noteq> - 1"
    and "0 < li_host (lm_limits l)" and "0 < li_pair (lm_limits l)"
  shows "(unat (li_host (lm_limits l)) \<le> length (filter (by_host l u client) fs) \<longrightarrow>
      (\<exists>(now, c, ss) \<in> set fs. \<forall>any. \<exists>wait. fst (check_at E now client any (record_all E busy fs l)) = Inl wait)) \<and>
    (unat (li_pair (lm_limits l)) \<le> length (filter (naming E l u client subject) fs) \<longrightarrow>
      (\<exists>(now, c, ss) \<in> set fs. \<exists>wait. fst (check_at E now client subject (record_all E busy fs l)) = Inl wait))"
proof -
  let ?l = "record_all E busy fs l"
  have same: "same_limiter l ?l" using record_all_table by blast
  have jobs: "\<forall>j \<in> set (run_jobs E t l fs). on_time u (st_window (jb_now j)) \<and> st_secs (jb_now j) < jb_until j" for t
    using run_jobs_times [of _ E t l fs] assms(4) lockout_ends_after [OF assms(2)] by fastforce
  have src: "lm_sources ?l = table_run (lm_sources l) (run_jobs E Tier_Source l fs)"
    using record_all_table [where t = Tier_Source and fs = fs and l = l and E = E and busy = busy] by (simp add: limiter_table_def)
  have prs: "lm_pairs ?l = table_run (lm_pairs l) (run_jobs E Tier_Pair l fs)"
    using record_all_table [where t = Tier_Pair and fs = fs and l = l and E = E and busy = busy] by (simp add: limiter_table_def)
  have parts: "run_jobs E t l fs = concat (map (\<lambda>f. run_jobs E t l [f]) fs)" for t
    by (induction fs) (simp_all add: run_jobs_def)
  show ?thesis
  proof (intro conjI impI)
    let ?key = "keyed_source (ev_sip E) (lm_keyed l) (source_host client)"
    assume "unat (li_host (lm_limits l)) \<le> length (filter (by_host l u client) fs)"
    also have "\<dots> \<le> length (filter (charged ?key u (li_host (lm_limits l))) (run_jobs E Tier_Source l fs))"
      unfolding parts [of Tier_Source] by (rule filter_concat_length) (rule by_host_charged)
    finally obtain j until where j: "j \<in> set (run_jobs E Tier_Source l fs)" "locked_until (lm_sources ?l) ?key (jb_now j) = Some until"
      using run_refuses [of "lm_sources l" u "run_jobs E Tier_Source l fs" ?key "li_host (lm_limits l)"] assms(1,3,5) jobs
      unfolding src by (auto simp: limiter_ok_def)
    from run_jobs_times [OF j(1)] obtain now c ss where f: "(now, c, ss) \<in> set fs" "jb_now j = clock_stamp (lm_clock l) now" by blast
    then have "source_lock E now client ?l \<noteq> None" using source_lock_host [of ?l E client now until] j(2) same by (simp add: same_limiter_def)
    then show "\<exists>(now, c, ss) \<in> set fs. \<forall>any. \<exists>wait. fst (check_at E now client any ?l) = Inl wait"
      using f(1) check_refuses by blast
  next
    let ?key = "keyed_pair (ev_sip E) (ev_lower E) (lm_keyed l) (source_host client) subject"
    assume "unat (li_pair (lm_limits l)) \<le> length (filter (naming E l u client subject) fs)"
    also have "\<dots> \<le> length (filter (charged ?key u (li_pair (lm_limits l))) (run_jobs E Tier_Pair l fs))"
      unfolding parts [of Tier_Pair] by (rule filter_concat_length) (rule naming_charged)
    finally obtain j until where j: "j \<in> set (run_jobs E Tier_Pair l fs)" "locked_until (lm_pairs ?l) ?key (jb_now j) = Some until"
      using run_refuses [of "lm_pairs l" u "run_jobs E Tier_Pair l fs" ?key "li_pair (lm_limits l)"] assms(1,3,6) jobs
      unfolding prs by (auto simp: limiter_ok_def)
    from run_jobs_times [OF j(1)] obtain now c ss where f: "(now, c, ss) \<in> set fs" "jb_now j = clock_stamp (lm_clock l) now" by blast
    then have "pair_lock E now client subject ?l \<noteq> None" using j(2) same by (simp add: pair_lock_def same_limiter_def)
    then show "\<exists>(now, c, ss) \<in> set fs. \<exists>wait. fst (check_at E now client subject ?l) = Inl wait"
      using f(1) check_refuses by blast
  qed
qed

section \<open>How long a refusal lasts\<close>

lemma uint_secs: "0 \<le> n \<Longrightarrow> uint (secs_u32 n) = min n (2 ^ 32 - 1)"
  by (simp add: secs_u32_def uint_word_of_int take_bit_int_eq_self_iff)

lemma stamp_before: "st_secs (clock_stamp c now) < until \<longleftrightarrow> now < clock_at c until \<and> 0 < until"
proof -
  let ?n = "max 0 (now - ck_epoch c) div 1000000000"
  have u: "uint until \<le> 2 ^ 32 - 1" "0 \<le> uint until" using uint_lt2p [of until] by simp_all
  have "st_secs (clock_stamp c now) < until \<longleftrightarrow> min ?n (2 ^ 32 - 1) < uint until"
    by (simp add: clock_stamp_def Let_def word_less_def uint_secs)
  also have "\<dots> \<longleftrightarrow> ?n < uint until" using u by auto
  also have "\<dots> \<longleftrightarrow> max 0 (now - ck_epoch c) < uint until * 1000000000" 
  proof -
    have "x div 1000000000 < y \<longleftrightarrow> x < y * 1000000000" for x y :: int by arith
    then show ?thesis .
  qed
  also have "\<dots> \<longleftrightarrow> now < clock_at c until \<and> 0 < until" using u by (auto simp: clock_at_def word_less_def)
  finally show ?thesis .
qed

lemma locked_later:
  assumes "table_ok t" and "locked_until t h st = Some until" and "st_secs now < until"
  shows "locked_until (table_run t js) h now \<noteq> None"
proof -
  have w: "tb_width (table_run t js) = tb_width t" using run_ok [OF assms(1)] by simp
  have "st_secs now < lock_of (tb_cells (table_run t js) ! slot (tb_width t) h row)" if "row < DEPTH" for row
  proof -
    have "until \<le> lock_of (tb_cells t ! slot (tb_width t) h row)"
      using assms(2) that unfolding locked_iff by (auto intro!: least_le)
    then show ?thesis using assms(3) run_locks(1) [OF assms(1)] by (meson less_le_trans order_trans)
  qed
  then show ?thesis using locked_some [of "table_run t js" h now] w by auto
qed

lemma opt_max_is: "opt_max a b = Some m \<Longrightarrow> a = Some m \<or> b = Some m"
  by (cases a; cases b) (auto simp: max_def split: if_splits)

text \<open>The lock a key's cells hold, whatever the moment; \<open>seen_lock\<close> is the part of it that is seen at one.\<close>

definition seen_lock :: "32 word \<Rightarrow> 32 word \<Rightarrow> 32 word option" where
  "seen_lock s until = (if s < until then Some until else None)"

lemma opt_max_seen: "opt_max (seen_lock s a) (seen_lock s b) = seen_lock s (max a b)"
  by (auto simp: seen_lock_def max_def)

lemma locked_seen: "\<exists>u. \<forall>st. locked_until t h st = seen_lock (st_secs st) u"
  by (auto simp: locked_until_def seen_lock_def Let_def)

lemma seen_zero: "seen_lock s 0 = None"
  by (simp add: seen_lock_def)

text \<open>Every tier's lock taken together is one time, and a check answers by it alone.\<close>

lemma check_by_one_lock:
  "\<exists>u. (\<forall>t. opt_max (source_lock E t client l) (pair_lock E t client subject l) = seen_lock (st_secs (clock_stamp (lm_clock l) t)) u) \<and>
     (\<forall>t. fst (check_at E t client subject l) =
       (if t < clock_at (lm_clock l) u \<and> 0 < u then Inl (clock_at (lm_clock l) u - t) else Inr ()))"
proof -
  obtain h where h: "\<And>st. locked_until (lm_sources l) (keyed_source (ev_sip E) (lm_keyed l) (source_host client)) st = seen_lock (st_secs st) h"
    using locked_seen by blast
  obtain n where n: "\<And>st. (case source_network client of None \<Rightarrow> None
      | Some s \<Rightarrow> locked_until (lm_sources l) (keyed_source (ev_sip E) (lm_keyed l) s) st) = seen_lock (st_secs st) n"
    using locked_seen by (cases "source_network client") (simp, metis seen_zero, simp, metis)
  obtain p where p: "\<And>st. locked_until (lm_pairs l) (keyed_pair (ev_sip E) (ev_lower E) (lm_keyed l) (source_host client) subject) st = seen_lock (st_secs st) p"
    using locked_seen by blast
  have all: "opt_max (source_lock E t client l) (pair_lock E t client subject l) =
      seen_lock (st_secs (clock_stamp (lm_clock l) t)) (max (max h n) p)" for t
    by (simp add: source_lock_def pair_lock_def Let_def h n p opt_max_seen)
  moreover have "fst (check_at E t client subject l) =
      (if t < clock_at (lm_clock l) (max (max h n) p) \<and> 0 < max (max h n) p
       then Inl (clock_at (lm_clock l) (max (max h n) p) - t) else Inr ())" for t
    using stamp_before [of "lm_clock l" t "max (max h n) p"] by (simp add: check_at_def Let_def all seen_lock_def)
  ultimately show ?thesis by blast
qed

text \<open>C33: a refusal lasts as long as it says and no longer.  A caller told to wait is refused for exactly
  that long when nothing more is recorded, and told what is left of it at every moment; whatever
  failures anybody adds meanwhile, in whatever window, the refusal is not shortened; and once every
  lock there was and every lockout a failure could have begun has run out, everybody is let in, with
  nothing to sweep.\<close>

theorem lockout_holds_then_ends:
  assumes "limiter_ok l"
  shows "(\<forall>now wait l1. check_at E now client subject l = (Inl wait, l1) \<longrightarrow> 0 < wait \<and>
      (\<forall>t. fst (check_at E t client subject l1) = (if t < now + wait then Inl (now + wait - t) else Inr ())) \<and>
      (\<forall>t. now \<le> t \<and> t < now + wait \<longrightarrow> (\<exists>w. fst (check_at E t client subject (record_all E busy fs l1)) = Inl w))) \<and>
    (\<forall>T t any other. (\<forall>w \<in> set (tb_cells (lm_sources l)) \<union> set (tb_cells (lm_pairs l)). lock_of w \<le> T) \<and>
      (\<forall>(now, c, ss) \<in> set fs. lockout_ends (lm_clock l) (clock_stamp (lm_clock l) now) \<le> T) \<and>
      T \<le> st_secs (clock_stamp (lm_clock l) t) \<longrightarrow> fst (check_at E t any other (record_all E busy fs l)) = Inr ())"
proof (intro conjI allI impI)
  fix now wait l1
  assume c: "check_at E now client subject l = (Inl wait, l1)"
  have same: "lm_sources l1 = lm_sources l" "lm_pairs l1 = lm_pairs l" "lm_clock l1 = lm_clock l" "lm_keyed l1 = lm_keyed l"
    using c by (auto simp: check_at_def Let_def split: option.splits)
  obtain u where u: "\<And>t. fst (check_at E t client subject l) =
      (if t < clock_at (lm_clock l) u \<and> 0 < u then Inl (clock_at (lm_clock l) u - t) else Inr ())"
    using check_by_one_lock by metis
  from c u [of now] have w: "0 < u" "now + wait = clock_at (lm_clock l) u" "0 < wait" by (auto split: if_splits)
  show "0 < wait" by (rule w(3))
  have "fst (check_at E t client subject l1) = fst (check_at E t client subject l)" for t
    by (simp add: check_at_def Let_def source_lock_def pair_lock_def same split: option.split)
  then show "fst (check_at E t client subject l1) = (if t < now + wait then Inl (now + wait - t) else Inr ())" for t
    using u w by simp
next
  fix now wait l1 t
  assume c: "check_at E now client subject l = (Inl wait, l1)" and t: "now \<le> t \<and> t < now + wait"
  then obtain until where u: "opt_max (source_lock E now client l) (pair_lock E now client subject l) = Some until"
    "wait = clock_at (lm_clock l) until - now"
    by (auto simp: check_at_def Let_def split: option.splits)
  have l1: "same_limiter l l1" "lm_sources l1 = lm_sources l" "lm_pairs l1 = lm_pairs l"
    using c by (auto simp: check_at_def Let_def same_limiter_def split: option.splits)
  obtain h tr where h: "locked_until (limiter_table tr l) h (clock_stamp (lm_clock l) now) = Some until"
    "\<And>l'. same_limiter l l' \<Longrightarrow> locked_until (limiter_table tr l') h (clock_stamp (lm_clock l) t) \<noteq> None \<Longrightarrow>
       source_lock E t client l' \<noteq> None \<or> pair_lock E t client subject l' \<noteq> None"
  proof -
    from opt_max_is [OF u(1)] consider (src) "source_lock E now client l = Some until" | (pair) "pair_lock E now client subject l = Some until" by blast
    then show ?thesis
    proof cases
      case src
      then consider (host) "locked_until (lm_sources l) (keyed_source (ev_sip E) (lm_keyed l) (source_host client)) (clock_stamp (lm_clock l) now) = Some until"
        | (net) n where "source_network client = Some n"
          "locked_until (lm_sources l) (keyed_source (ev_sip E) (lm_keyed l) n) (clock_stamp (lm_clock l) now) = Some until"
        by (cases "source_network client") (auto simp: source_lock_def Let_def dest: opt_max_is)
      then show ?thesis
      proof cases
        case host
        then show ?thesis
          by (intro that [of Tier_Source]) (auto simp: limiter_table_def source_lock_def Let_def same_limiter_def simp del: not_None_eq)
      next
        case net
        then show ?thesis
          by (intro that [of Tier_Source]) (auto simp: limiter_table_def source_lock_def Let_def same_limiter_def simp del: not_None_eq)
      qed
    next
      case pair
      then show ?thesis
        by (intro that [of Tier_Pair]) (auto simp: limiter_table_def pair_lock_def same_limiter_def simp del: not_None_eq)
    qed
  qed
  have "st_secs (clock_stamp (lm_clock l) now) < until" using h(1) unfolding locked_iff by blast
  then have at: "now < clock_at (lm_clock l) until" "0 < until" using stamp_before by blast+
  show "\<exists>w. fst (check_at E t client subject (record_all E busy fs l1)) = Inl w"
  proof -
    have "st_secs (clock_stamp (lm_clock l) t) < until" using t u(2) at(2) stamp_before by simp
    moreover have "table_ok (limiter_table tr l)" using assms by (cases tr) (simp_all add: limiter_ok_def limiter_table_def)
    moreover have "limiter_table tr l1 = limiter_table tr l" using l1 by (cases tr) (simp_all add: limiter_table_def)
    ultimately have "locked_until (limiter_table tr (record_all E busy fs l1)) h (clock_stamp (lm_clock l) t) \<noteq> None"
      using record_all_table [of tr E busy fs l1] locked_later [OF _ h(1)] by simp
    moreover have "same_limiter l (record_all E busy fs l1)"
      using record_all_table [of tr E busy fs l1] l1(1) by (simp add: same_limiter_def)
    ultimately show ?thesis using h(2) check_refuses by blast
  qed
next
  fix T t any other
  assume a: "(\<forall>w \<in> set (tb_cells (lm_sources l)) \<union> set (tb_cells (lm_pairs l)). lock_of w \<le> T) \<and>
      (\<forall>(now, c, ss) \<in> set fs. lockout_ends (lm_clock l) (clock_stamp (lm_clock l) now) \<le> T) \<and>
      T \<le> st_secs (clock_stamp (lm_clock l) t)"
  let ?l = "record_all E busy fs l"
  have free: "locked_until (limiter_table tr ?l) h (clock_stamp (lm_clock l) t) = None" for tr h
  proof -
    have ok: "table_ok (limiter_table tr l)" using assms by (cases tr) (simp_all add: limiter_ok_def limiter_table_def)
    have run: "limiter_table tr ?l = table_run (limiter_table tr l) (run_jobs E tr l fs)" using record_all_table by blast
    have small: "\<forall>j \<in> set (run_jobs E tr l fs). jb_until j \<le> T" using run_jobs_times [of _ E tr l fs] a by fastforce
    let ?p = "slot (tb_width (limiter_table tr l)) h 0"
    have "?p < length (tb_cells (limiter_table tr l))" by (rule slot_in_table [OF ok]) (simp add: DEPTH_def)
    then have "lock_of (tb_cells (limiter_table tr l) ! ?p) \<le> T" using a by (cases tr) (auto simp: limiter_table_def)
    then have "lock_of (tb_cells (limiter_table tr ?l) ! ?p) \<le> T" unfolding run by (rule run_locks(2) [OF ok small])
    then have "\<not> st_secs (clock_stamp (lm_clock l) t) < lock_of (tb_cells (limiter_table tr ?l) ! ?p)" using a by auto
    moreover have "tb_width (limiter_table tr ?l) = tb_width (limiter_table tr l)" using run run_ok [OF ok] by simp
    moreover have "(0 :: nat) < DEPTH" by (simp add: DEPTH_def)
    ultimately have "\<not> (\<exists>until. locked_until (limiter_table tr ?l) h (clock_stamp (lm_clock l) t) = Some until)"
      unfolding locked_some by metis
    then show ?thesis by (metis not_None_eq)
  qed
  have "lm_clock ?l = lm_clock l" using record_all_table [of Tier_Pair E busy fs l] by (simp add: same_limiter_def)
  then have "source_lock E t any ?l = None" "pair_lock E t any other ?l = None"
    using free [of Tier_Source] free [of Tier_Pair] by (simp_all add: source_lock_def pair_lock_def Let_def limiter_table_def split: option.split)
  then show "fst (check_at E t any other ?l) = Inr ()" by (simp add: check_at_def)
qed

section \<open>Forgiving\<close>

lemma clear_cells:
  assumes "table_ok t"
  shows "table_ok (table_clear h t) \<and> tb_width (table_clear h t) = tb_width t \<and>
    (\<forall>p. tb_cells (table_clear h t) ! p = tb_cells t ! p \<or> tb_cells (table_clear h t) ! p = 0) \<and>
    (\<forall>row < DEPTH. tb_cells (table_clear h t) ! slot (tb_width t) h row = 0)"
proof -
  have f: "length (foldl (\<lambda>cells s. cells[s := 0]) cells sl) = length cells \<and>
      (\<forall>p. foldl (\<lambda>cells s. cells[s := 0]) cells sl ! p = cells ! p \<or> foldl (\<lambda>cells s. cells[s := 0]) cells sl ! p = 0) \<and>
      (\<forall>p. (p \<in> set sl \<or> cells ! p = 0) \<and> p < length cells \<longrightarrow> foldl (\<lambda>cells s. cells[s := 0]) cells sl ! p = 0)" for cells :: "64 word list" and sl
  proof (induction sl arbitrary: cells)
    case (Cons s sl)
    have u: "cells[s := 0] ! p = (if p = s \<and> s < length cells then 0 else cells ! p)" for p
      by (cases "s < length cells") (simp_all add: nth_list_update list_update_beyond)
    from Cons.IH [of "cells[s := 0]"] show ?case unfolding u foldl.simps by (auto split: if_splits)
  qed simp
  have "slot (tb_width t) h row \<in> set (slots t h)" if "row < DEPTH" for row using that by (auto simp: slots_def)
  with f [of "tb_cells t" "slots t h"] slot_in_table [OF assms] assms show ?thesis
    by (auto simp: table_clear_def table_ok_def)
qed

lemma zero_cell [simp]: "lock_of 0 = 0"
  by (simp add: cell_unpack_def)

lemma clear_unlocks:
  assumes "table_ok t"
  shows "locked_until (table_clear h t) h now = None"
    and "locked_until (table_clear h t) h' now \<noteq> None \<Longrightarrow> locked_until t h' now \<noteq> None"
proof -
  note c = clear_cells [OF assms, of h]
  have "(0 :: nat) < DEPTH" by (simp add: DEPTH_def)
  then have "\<not> (\<exists>until. locked_until (table_clear h t) h now = Some until)"
    unfolding locked_some using c by (metis zero_cell word_not_simps(1))
  then show "locked_until (table_clear h t) h now = None" by (metis not_None_eq)
  assume "locked_until (table_clear h t) h' now \<noteq> None"
  then have l: "\<forall>row < DEPTH. st_secs now < lock_of (tb_cells (table_clear h t) ! slot (tb_width t) h' row)"
    using locked_some [of "table_clear h t" h' now] c by auto
  have "st_secs now < lock_of (tb_cells t ! slot (tb_width t) h' row)" if "row < DEPTH" for row
    using l that c by (metis zero_cell word_not_simps(1))
  then show "locked_until t h' now \<noteq> None" using locked_some [of t h' now] by auto
qed

text \<open>Forgiving is exact: only a key the limiter could have counted and refuses now is cleared, anything
  else changes nothing; a cleared key is not refused at any moment; and clearing lets nobody be
  refused who was not.\<close>

theorem clear_forgives_one_key:
  assumes "limiter_ok l" and "clear_at E now cls address key l = (r, l')"
  shows "(\<forall>why. r = Inl why \<longrightarrow> l' = l) \<and>
    (\<forall>lo. r = Inr lo \<longrightarrow> (\<exists>tr h. locked_until (limiter_table tr l) h (clock_stamp (lm_clock l) now) \<noteq> None \<and>
       (\<forall>st. locked_until (limiter_table tr l') h st = None) \<and>
       (\<forall>subject. cls \<noteq> Cl_Source \<and> subject_for cls key = Some subject \<longrightarrow>
          (\<forall>t. pair_lock E t address subject l' = None)))) \<and>
    (\<forall>t client subject wait. fst (check_at E t client subject l') = Inl wait \<longrightarrow> (\<exists>w. fst (check_at E t client subject l) = Inl w))"
proof -
  have ok: "table_ok (limiter_table tr l)" for tr using assms(1) by (cases tr) (simp_all add: limiter_ok_def limiter_table_def)
  show ?thesis
  proof (cases r)
    case (Inl why)
    then have "l' = l" using assms(2) by (auto simp: clear_at_def clear_counted_def Let_def split: lockout_class.splits option.splits prod.splits if_splits)
    with Inl show ?thesis by auto
  next
    case (Inr lo)
    then obtain k where k: "clear_counted E now k l = (Inr lo, l')"
      "\<And>subject. cls \<noteq> Cl_Source \<Longrightarrow> subject_for cls key = Some subject \<Longrightarrow> k = pair_key E (source_host address) subject l"
      using assms(2) by (auto simp: clear_at_def split: lockout_class.splits option.splits if_splits)
    let ?tr = "cn_tier k" and ?h = "cn_hash k"
    obtain newest rg where rg: "ring_clear ?tr ?h (lm_ring l) = (newest, rg)" by force
    have l': "l' = (set_table ?tr (table_clear ?h (limiter_table ?tr l)) l)\<lparr>lm_ring := rg\<rparr>"
      and lock: "locked_until (limiter_table ?tr l) ?h (clock_stamp (lm_clock l) now) \<noteq> None"
      using k(1) rg by (cases ?tr; auto simp: clear_counted_def Let_def set_table_def split: option.splits)+
    have same: "same_limiter l l'" using l' by (cases ?tr) (simp_all add: same_limiter_def set_table_def)
    have tab: "limiter_table tr l' = (if tr = ?tr then table_clear ?h (limiter_table tr l) else limiter_table tr l)" for tr
      using l' by (cases ?tr; cases tr) (simp_all add: set_table_def limiter_table_def)
    have free: "locked_until (limiter_table ?tr l') ?h st = None" for st using clear_unlocks(1) [OF ok] tab [of ?tr] by simp
    have less: "locked_until (limiter_table tr l') h st \<noteq> None \<Longrightarrow> locked_until (limiter_table tr l) h st \<noteq> None" for tr h st
      using clear_unlocks(2) [OF ok [of tr], of ?h h st] tab [of tr] by (simp split: if_splits)
    have src: "source_lock E t client l' \<noteq> None \<Longrightarrow> source_lock E t client l \<noteq> None" for t client
      using less [of Tier_Source] same
      by (cases "source_network client") (auto simp: source_lock_def Let_def limiter_table_def same_limiter_def simp del: not_None_eq)
    have pair: "pair_lock E t client subject l' \<noteq> None \<Longrightarrow> pair_lock E t client subject l \<noteq> None" for t client subject
      using less [of Tier_Pair] same by (simp add: pair_lock_def limiter_table_def same_limiter_def del: not_None_eq)
    have "pair_lock E t address subject l' = None" if "cls \<noteq> Cl_Source" "subject_for cls key = Some subject" for t subject
      using free [of "clock_stamp (lm_clock l) t"] k(2) [OF that] same
      by (simp add: pair_key_def Let_def pair_lock_def limiter_table_def same_limiter_def)
    moreover have "\<exists>w. fst (check_at E t client subject l) = Inl w" if "fst (check_at E t client subject l') = Inl wait" for t client subject wait
      using that check_refuses src pair by blast
    ultimately show ?thesis using Inr lock free by blast
  qed
qed

end
