(* ===== verification/Limit_Examples.thy ===== *)
theory Limit_Examples
  imports Limit_Props
begin

text \<open>The limiter at work: a table of one column, where every key shares every cell, and an allowance of one.\<close>

definition demo_env :: limit_env where
  "demo_env = \<lparr>ev_sip = (\<lambda>_ _ _. 0), ev_lower = (\<lambda>c. [c]), ev_text = \<lparr>show_ip = (\<lambda>_. []), parse_ip = (\<lambda>_. None)\<rparr>\<rparr>"

definition demo_limiter :: limiter where
  "demo_limiter = limiter_build \<lparr>lc_attempts = 1, lc_address_attempts = 9, lc_network_attempts = 9, lc_window = 60000000000,
     lc_lockout = 900000000000\<rparr> 1 \<lparr>kh_k0 = 0, kh_k1 = 0\<rparr> 0"

lemma demo_tables: "lm_sources demo_limiter = \<lparr>tb_cells = replicate 4 0, tb_width = 1\<rparr>" "lm_pairs demo_limiter = \<lparr>tb_cells = replicate 4 0, tb_width = 1\<rparr>"
  "lm_clock demo_limiter = \<lparr>ck_epoch = 0, ck_window = 60, ck_lockout = 900\<rparr>" "li_pair (lm_limits demo_limiter) = 1" "li_host (lm_limits demo_limiter) = 9"
  by (simp_all add: demo_limiter_def limiter_build_def table_new_def DEPTH_def clock_new_def Let_def secs_u32_def allowance_def max_def)

lemma demo_tables_ok: "limiter_ok demo_limiter"
  by (simp add: limiter_ok_def demo_tables table_ok_def DEPTH_def)

theorem undisturbed_record_is_sequential_witness:
  "interleave 1 [\<lparr>jb_hash = 7, jb_now = \<lparr>st_secs = 5, st_window = 0\<rparr>, jb_threshold = 2, jb_until = 65\<rparr>] (tb_cells (table_new 1)) (replicate 8 0) =
     (case table_record (table_new 1) 7 \<lparr>st_secs = 5, st_window = 0\<rparr> 2 65 of
        (r, t') \<Rightarrow> ([(\<lparr>jb_hash = 7, jb_now = \<lparr>st_secs = 5, st_window = 0\<rparr>, jb_threshold = 2, jb_until = 65\<rparr>, Recorded r)], tb_cells t'))"
  using undisturbed_record_is_sequential [of "table_new 1" 1 "\<lparr>jb_hash = 7, jb_now = \<lparr>st_secs = 5, st_window = 0\<rparr>, jb_threshold = 2, jb_until = 65\<rparr>"]
  by (simp add: table_new_ok) (simp add: table_new_def)

theorem guesser_is_refused_witness:
  "\<exists>wait. fst (check_at demo_env 0 None (lit ''ada'') (record_all demo_env (\<lambda>_. False) [(0, None, [lit ''ada''])] demo_limiter)) = Inl wait"
proof -
  have st: "clock_stamp (lm_clock demo_limiter) 0 = \<lparr>st_secs = 0, st_window = 0\<rparr>"
    by (simp add: demo_tables clock_stamp_def Let_def secs_u32_def)
  have n: "filter (naming demo_env demo_limiter 0 None (lit ''ada'')) [(0, None, [lit ''ada''])] = [(0, None, [lit ''ada''])]"
    by (simp add: naming_def by_host_def st)
  have "\<forall>w \<in> set (tb_cells (lm_sources demo_limiter)) \<union> set (tb_cells (lm_pairs demo_limiter)). ahead_free 0 w"
    by (simp add: demo_tables ahead_free_def cell_unpack_def)
  moreover have "0 < ck_lockout (lm_clock demo_limiter)" "0 < li_host (lm_limits demo_limiter)" "0 < li_pair (lm_limits demo_limiter)"
    by (simp_all add: demo_tables)
  moreover have "\<forall>(now, c, ss) \<in> set [(0, None :: ip option, [lit ''ada''])].
      on_time 0 (st_window (clock_stamp (lm_clock demo_limiter) now)) \<and> st_secs (clock_stamp (lm_clock demo_limiter) now) \<noteq> - 1"
    by (simp add: st on_time_def AHEAD_def)
  moreover have "unat (li_pair (lm_limits demo_limiter)) \<le> length (filter (naming demo_env demo_limiter 0 None (lit ''ada'')) [(0, None, [lit ''ada''])])"
    unfolding n demo_tables by simp
  ultimately have "\<exists>(now, c, ss) \<in> set [(0, None :: ip option, [lit ''ada''])]. \<exists>wait. fst (check_at demo_env now None (lit ''ada'')
      (record_all demo_env (\<lambda>_. False) [(0, None, [lit ''ada''])] demo_limiter)) = Inl wait"
    using guesser_is_refused [OF demo_tables_ok] by blast
  then show ?thesis by simp
qed

text \<open>One whose pair cells are locked for a quarter of an hour.\<close>

definition demo_locked :: limiter where
  "demo_locked = demo_limiter\<lparr>lm_pairs := \<lparr>tb_cells = replicate 4 900, tb_width = 1\<rparr>\<rparr>"

lemma demo_locked_check: "fst (check_at demo_env 0 None (lit ''ada'') demo_locked) = Inl 900000000000"
proof -
  have c: "ce_until (cell_unpack 900) = 900" by (simp add: cell_unpack_def)
  have s: "st_secs (clock_stamp \<lparr>ck_epoch = 0, ck_window = 60, ck_lockout = 900\<rparr> 0) = 0"
    by (simp add: clock_stamp_def Let_def secs_u32_def)
  show ?thesis
    by (simp add: demo_locked_def check_at_def Let_def source_lock_def pair_lock_def source_network_def demo_tables locked_until_def s
        table_read_def slots_def slot_def DEPTH_def upt_rec c clock_at_def)
qed

text \<open>Refused for a quarter of an hour: a second less is left a second later; refused to the end of it
  whatever is added; let in at the end of it.\<close>

theorem lockout_holds_then_ends_witness:
  "\<exists>l1. check_at demo_env 0 None (lit ''ada'') demo_locked = (Inl 900000000000, l1) \<and>
     fst (check_at demo_env 1000000000 None (lit ''ada'') l1) = Inl 899000000000 \<and>
     fst (check_at demo_env 900000000000 None (lit ''ada'') l1) = Inr () \<and>
     (\<exists>w. fst (check_at demo_env 899000000000 None (lit ''ada'')
         (record_all demo_env (\<lambda>_. False) [(800000000000, None, [lit ''ada''])] l1)) = Inl w)"
proof -
  obtain l1 where l1: "check_at demo_env 0 None (lit ''ada'') demo_locked = (Inl 900000000000, l1)"
    using demo_locked_check by (metis prod.collapse)
  have ok: "limiter_ok demo_locked" by (simp add: limiter_ok_def demo_locked_def demo_tables table_ok_def DEPTH_def)
  note h = conjunct1 [OF lockout_holds_then_ends [OF ok, where fs = "[(800000000000, None, [lit ''ada''])]" and busy = "\<lambda>_. False"
    and E = demo_env and client = None and subject = "lit ''ada''"], rule_format, OF l1]
  from h have "\<And>t. fst (check_at demo_env t None (lit ''ada'') l1) =
      (if t < 0 + 900000000000 then Inl (0 + 900000000000 - t) else Inr ())" by blast
  from this [of 1000000000] this [of 900000000000] h l1 show ?thesis by auto
qed

theorem clear_forgives_one_key_witness:
  "snd (clear_at demo_env 0 Cl_Account None (lit ''ada'') demo_limiter) = demo_limiter"
proof -
  have c: "subject_for Cl_Account (lit ''ada'') = Some (lit ''ada'')"
    by (simp add: class_of_subject classify_def endpoint_subjects_def strip_prefix_def starts_with_def CLIENT_PREFIX_def take_lit)
  have "fst (clear_at demo_env 0 Cl_Account None (lit ''ada'') demo_limiter) = Inl NotLocked"
    by (simp add: clear_at_def c clear_counted_def Let_def pair_key_def limiter_table_def demo_tables locked_until_def table_read_def
        slots_def slot_def DEPTH_def upt_rec cell_unpack_def)
  then obtain l' where "clear_at demo_env 0 Cl_Account None (lit ''ada'') demo_limiter = (Inl NotLocked, l')" by (metis prod.collapse)
  with clear_forgives_one_key [OF demo_tables_ok this] show ?thesis by simp
qed

end
