(* ===== verification/Announce.thy ===== *)
theory Announce
  imports Prelude
begin

text \<open>
  What the client library promises an operator about a thing that keeps failing: said once when it
  starts, once in a while as long as it lasts, and once when it is over.  Two modules keep such a
  record, the control link (\<open>rustak-client/src/sidecar/link_health.rs\<close>) and a feed's upstream
  (\<open>rustak-client/src/feed/upstream/notice.rs\<close>); the contract is a locale, and what follows from it is
  proved here once for both.  An instant is its nanoseconds, a duration too.
\<close>

section \<open>Durations\<close>

definition secs :: "nat \<Rightarrow> nat" where
  "secs n = n * 10 ^ 9"

text \<open>\<open>Duration::MAX\<close>, and \<open>saturating_mul\<close> on durations.\<close>

definition duration_max :: nat where
  "duration_max = secs (2 ^ 64) - 1"

definition dur_mul :: "nat \<Rightarrow> nat \<Rightarrow> nat" where
  "dur_mul d k = min duration_max (d * k)"

text \<open>\<open>now - before\<close>, never negative.\<close>

definition elapsed :: "int \<Rightarrow> int \<Rightarrow> nat" where
  "elapsed before now = nat (now - before)"

definition add_u32 :: "nat \<Rightarrow> nat" where
  "add_u32 n = min (2 ^ 32 - 1) (n + 1)"

lemma elapsed_less: "0 < d \<Longrightarrow> elapsed b t < d \<longleftrightarrow> t - b < int d"
  by (auto simp: elapsed_def)

text \<open>\<open>REMIND_EVERY\<close> of both modules.\<close>

definition REMIND_EVERY :: nat where
  "REMIND_EVERY = secs 300"

lemma remind_pos [simp]: "0 < REMIND_EVERY"
  by (simp add: REMIND_EVERY_def secs_def)

section \<open>Attempts and what is said about them\<close>

datatype 'k trial = Worked int | Failing 'k int

fun att_time :: "'k trial \<Rightarrow> int" where
  "att_time (Worked t) = t"
| "att_time (Failing k t) = t"

fun told_in_order :: "int \<Rightarrow> int \<Rightarrow> 'k trial list \<Rightarrow> bool" where
  "told_in_order t0 t1 [] \<longleftrightarrow> t0 \<le> t1"
| "told_in_order t0 t1 (a # as) \<longleftrightarrow> t0 \<le> att_time a \<and> told_in_order (att_time a) t1 as"

lemma in_order_le: "told_in_order t0 t1 as \<Longrightarrow> t0 \<le> t1"
  by (induction t0 t1 as rule: told_in_order.induct) auto

text \<open>A saying is what matters about a report: nothing, a start, a reminder, or an end and how long it took.\<close>

datatype saying = Hush | Started | Still | Over nat

text \<open>What a record says about a list of attempts, and what it is afterwards.\<close>

fun told_step :: "('k \<Rightarrow> int \<Rightarrow> 's \<Rightarrow> 'r \<times> 's) \<Rightarrow> (int \<Rightarrow> 's \<Rightarrow> 'r \<times> 's) \<Rightarrow> 'k trial \<Rightarrow> 's \<Rightarrow> 'r \<times> 's" where
  "told_step fail work (Worked t) s = work t s"
| "told_step fail work (Failing k t) s = fail k t s"

fun said_of :: "('k \<Rightarrow> int \<Rightarrow> 's \<Rightarrow> 'r \<times> 's) \<Rightarrow> (int \<Rightarrow> 's \<Rightarrow> 'r \<times> 's) \<Rightarrow> 'k trial list \<Rightarrow> 's \<Rightarrow> 'r list \<times> 's" where
  "said_of fail work [] s = ([], s)"
| "said_of fail work (a # as) s =
     (let (r, s) = told_step fail work a s; (rs, s) = said_of fail work as s in (r # rs, s))"

lemma said_of_Cons:
  "said_of fail work (a # as) s =
     (fst (told_step fail work a s) # fst (said_of fail work as (snd (told_step fail work a s))),
      snd (said_of fail work as (snd (told_step fail work a s))))"
  by (simp add: Let_def split: prod.split)

declare said_of.simps(2) [simp del]
declare said_of_Cons [simp]

lemma said_of_append:
  "said_of fail work (as @ bs) s =
     (fst (said_of fail work as s) @ fst (said_of fail work bs (snd (said_of fail work as s))),
      snd (said_of fail work bs (snd (said_of fail work as s))))"
  by (induction as arbitrary: s) simp_all

lemma length_said_of [simp]: "length (fst (said_of fail work as s)) = length as"
  by (induction as arbitrary: s) simp_all

text \<open>
  What must be said.  A run is when it began, its latest failure and when it was last mentioned; it is
  over once an attempt works after \<open>settle\<close> without a failure.  So a failure starts a run, or is kept
  quiet for five minutes after the last mention, and then is a reminder; an attempt that works ends the
  run and names the time since it began, or is kept quiet while the run is too fresh.
\<close>

type_synonym spell = "int \<times> int \<times> int"

fun tell :: "nat \<Rightarrow> spell option \<Rightarrow> 'k trial \<Rightarrow> saying \<times> spell option" where
  "tell settle None (Failing k t) = (Started, Some (t, t, t))"
| "tell settle (Some (b, l, m)) (Failing k t) =
     (if elapsed m t < REMIND_EVERY then (Hush, Some (b, t, m)) else (Still, Some (b, t, t)))"
| "tell settle None (Worked t) = (Hush, None)"
| "tell settle (Some (b, l, m)) (Worked t) =
     (if elapsed l t < settle then (Hush, Some (b, l, m)) else (Over (elapsed b t), None))"

fun telling :: "nat \<Rightarrow> spell option \<Rightarrow> 'k trial list \<Rightarrow> saying list" where
  "telling settle r [] = []"
| "telling settle r (a # as) = fst (tell settle r a) # telling settle (snd (tell settle r a)) as"

definition spell_after :: "nat \<Rightarrow> spell option \<Rightarrow> 'k trial list \<Rightarrow> spell option" where
  "spell_after settle r as = fold (\<lambda>a r. snd (tell settle r a)) as r"

lemma spell_after_simps [simp]:
  "spell_after settle r [] = r" "spell_after settle r (a # as) = spell_after settle (snd (tell settle r a)) as"
  by (simp_all add: spell_after_def)

text \<open>Every run is started once and ended once, the one going on excepted.\<close>

lemma telling_starts:
  "count_list (telling settle r as) Started + (if r = None then 0 else 1) =
     length (filter (\<lambda>w. \<exists>d. w = Over d) (telling settle r as)) + (if spell_after settle r as = None then 0 else 1)"
proof (induction as arbitrary: r)
  case (Cons a as)
  show ?case using Cons.IH [of "snd (tell settle r a)"] by (cases "(settle, r, a)" rule: tell.cases) auto
qed simp

text \<open>The reminders of any stretch of time are as many as it has reminder periods.\<close>

fun mentioned :: "int \<Rightarrow> spell option \<Rightarrow> int" where
  "mentioned t (Some (b, l, m)) = m"
| "mentioned t None = t"

lemma telling_reminds:
  "told_in_order t0 t1 as \<Longrightarrow> mentioned t0 r \<le> t0 \<Longrightarrow>
   int (count_list (telling settle r as) Still) * int REMIND_EVERY \<le> t1 - mentioned t0 r"
proof (induction as arbitrary: r t0)
  case Nil
  then show ?case by (cases r rule: mentioned.cases [of "(t0, r)" for r]) auto
next
  case (Cons a as)
  note IH = Cons.IH [of "att_time a" "snd (tell settle r a)"]
  have late: "REMIND_EVERY \<le> elapsed m t \<Longrightarrow> int REMIND_EVERY \<le> t - m" for m t
    using elapsed_less [OF remind_pos, of m t] by linarith
  show ?case
  proof (cases "(settle, r, a)" rule: tell.cases)
    case (2 settle' b l m k t)
    then show ?thesis using IH Cons.prems late [of m t] by (auto simp: algebra_simps not_less split: if_splits)
  qed (use IH Cons.prems in auto)
qed

section \<open>The contract\<close>

text \<open>
  A record keeps a run when each of its two operations says what must be said and keeps the run there is
  then.  \<open>runs\<close> relates the record to the run it stands for.
\<close>

locale announcer =
  fixes fail :: "'k \<Rightarrow> int \<Rightarrow> 's \<Rightarrow> 'r \<times> 's"
    and work :: "int \<Rightarrow> 's \<Rightarrow> 'r \<times> 's"
    and runs :: "'s \<Rightarrow> spell option \<Rightarrow> bool"
    and say :: "'r \<Rightarrow> saying"
    and settle :: nat
  assumes fail_tells: "runs s r \<Longrightarrow> tell settle r (Failing k t) = (w, r') \<Longrightarrow>
      say (fst (fail k t s)) = w \<and> runs (snd (fail k t s)) r'"
    and work_tells: "runs s r \<Longrightarrow> tell settle r (Worked t :: 'k trial) = (w, r') \<Longrightarrow>
      say (fst (work t s)) = w \<and> runs (snd (work t s)) r'"
begin

lemma step_tells:
  "runs s r \<Longrightarrow> say (fst (told_step fail work a s)) = fst (tell settle r a) \<and> runs (snd (told_step fail work a s)) (snd (tell settle r a))"
  using fail_tells [of s r] work_tells [of s r] by (cases a) (auto simp: prod_eq_iff)

lemma tells:
  "runs s r \<Longrightarrow> map say (fst (said_of fail work as s)) = telling settle r as \<and>
     runs (snd (said_of fail work as s)) (spell_after settle r as)"
  by (induction as arbitrary: s r) (auto simp: step_tells)

end

end
