(* ===== verification/Link_Health.thy ===== *)
theory Link_Health
  imports Announce "HOL-Library.Sublist"
begin

text \<open>
  Whether the control link is up, when the next call is worth making, and what an operator is told
  (\<open>rustak-client/src/sidecar/link_health.rs\<close>).  The clock is an argument of every operation; the
  mutex of \<open>LinkHealth\<close> makes each of them one step.
\<close>

section \<open>The link\<close>

definition RETRY_MIN :: nat where "RETRY_MIN = secs 1"
definition RETRY_MAX :: nat where "RETRY_MAX = secs 60"
definition CHURN_CLOSES :: nat where "CHURN_CLOSES = 5"

datatype link_failure = Unreachable | Refused_Call

datatype link_report =
    Link_Quiet
  | Link_First
  | Link_Reminder nat
  | Link_Recovered nat

record link_view =
  lk_down :: bool
  lk_outages :: nat

record link_state =
  failing_since :: "int option"
  mentioned_at :: "int option"
  unreachable_now :: bool
  link_failures :: nat
  link_outages :: nat
  retry_at :: "int option"

definition link_new :: link_state where
  "link_new = \<lparr>failing_since = None, mentioned_at = None, unreachable_now = False, link_failures = 0,
     link_outages = 0, retry_at = None\<rparr>"

definition link_backoff :: "nat \<Rightarrow> nat" where
  "link_backoff failures = (let doublings = min 16 (failures - 1) in min RETRY_MAX (dur_mul RETRY_MIN (2 ^ doublings)))"

definition link_due :: "int \<Rightarrow> link_state \<Rightarrow> bool" where
  "link_due now s = (case retry_at s of Some at \<Rightarrow> at \<le> now | None \<Rightarrow> True)"

definition link_reached :: "link_state \<Rightarrow> link_state" where
  "link_reached s = s\<lparr>unreachable_now := False, link_failures := 0, retry_at := None\<rparr>"

definition link_mention :: "int \<Rightarrow> link_state \<Rightarrow> link_report \<times> link_state" where
  "link_mention now s =
     (case failing_since s of
        None \<Rightarrow> (Link_First, s\<lparr>failing_since := Some now, mentioned_at := Some now\<rparr>)
      | Some since \<Rightarrow>
          let quiet_for = (case mentioned_at s of None \<Rightarrow> REMIND_EVERY | Some at \<Rightarrow> elapsed at now)
          in if quiet_for < REMIND_EVERY then (Link_Quiet, s)
             else (Link_Reminder (elapsed since now), s\<lparr>mentioned_at := Some now\<rparr>))"

definition link_count :: "link_failure \<Rightarrow> int \<Rightarrow> link_state \<Rightarrow> link_state" where
  "link_count f now s =
     (case f of
        Unreachable \<Rightarrow>
          let s = (if \<not> unreachable_now s then s\<lparr>link_outages := (link_outages s + 1) mod 2 ^ 64\<rparr> else s);
              n = add_u32 (link_failures s)
          in s\<lparr>unreachable_now := True, link_failures := n, retry_at := Some (now + int (link_backoff n))\<rparr>
      | Refused_Call \<Rightarrow> link_reached s)"

definition link_failed :: "link_failure \<Rightarrow> int \<Rightarrow> link_state \<Rightarrow> link_report \<times> link_state" where
  "link_failed f now s = link_mention now (link_count f now s)"

definition link_succeeded :: "int \<Rightarrow> link_state \<Rightarrow> link_report \<times> link_state" where
  "link_succeeded now s =
     (let s = (link_reached s)\<lparr>mentioned_at := None\<rparr>
      in case failing_since s of
           Some since \<Rightarrow> (Link_Recovered (elapsed since now), s\<lparr>failing_since := None\<rparr>)
         | None \<Rightarrow> (Link_Quiet, s))"

definition link_of :: "link_state \<Rightarrow> link_view" where
  "link_of s = \<lparr>lk_down = unreachable_now s, lk_outages = link_outages s\<rparr>"

text \<open>What a failed call is: \<open>is_transport\<close> of \<open>rustak-client/src/http.rs\<close> is the argument.\<close>

definition link_note :: "('e \<Rightarrow> bool) \<Rightarrow> 'e \<Rightarrow> int \<Rightarrow> link_state \<Rightarrow> link_report \<times> link_state" where
  "link_note is_transport err now s = link_failed (if is_transport err then Unreachable else Refused_Call) now s"

section \<open>The server-event feed\<close>

datatype opened_report = Open_Announce | Open_Quiet | Churning nat nat

record reopenings =
  opened_once :: bool
  seen_outages :: nat
  pending_close :: "int option"
  feed_closes :: "int list"
  warned_at :: "int option"

definition reopenings_new :: reopenings where
  "reopenings_new = \<lparr>opened_once = False, seen_outages = 0, pending_close = None, feed_closes = [], warned_at = None\<rparr>"

definition feed_outage :: "link_view \<Rightarrow> reopenings \<Rightarrow> bool \<times> reopenings" where
  "feed_outage l r = (lk_outages l \<noteq> seen_outages r, r\<lparr>seen_outages := lk_outages l\<rparr>)"

definition feed_forget :: "reopenings \<Rightarrow> reopenings" where
  "feed_forget r = r\<lparr>pending_close := None, feed_closes := []\<rparr>"

definition feed_prune :: "int \<Rightarrow> reopenings \<Rightarrow> reopenings" where
  "feed_prune now r = r\<lparr>feed_closes := dropWhile (\<lambda>at. REMIND_EVERY < elapsed at now) (feed_closes r)\<rparr>"

definition feed_closed :: "link_view \<Rightarrow> int \<Rightarrow> reopenings \<Rightarrow> reopenings" where
  "feed_closed l now r =
     (let (outage, r) = feed_outage l r
      in if outage \<or> lk_down l then feed_forget r else r\<lparr>pending_close := Some now\<rparr>)"

definition feed_failed :: "link_view \<Rightarrow> reopenings \<Rightarrow> reopenings" where
  "feed_failed l r = (let (outage, r) = feed_outage l r in if outage \<or> lk_down l then feed_forget r else r)"

definition feed_opened :: "bool \<Rightarrow> link_view \<Rightarrow> int \<Rightarrow> reopenings \<Rightarrow> opened_report \<times> reopenings" where
  "feed_opened recovered l now r =
     (let (outage, r) = feed_outage l r
      in if \<not> opened_once r then (Open_Announce, feed_forget (r\<lparr>opened_once := True\<rparr>))
         else if recovered \<or> outage then (if recovered then Open_Announce else Open_Quiet, feed_forget r)
         else
           let r = (case pending_close r of
                 Some at \<Rightarrow> r\<lparr>pending_close := None, feed_closes := feed_closes r @ [at]\<rparr> | None \<Rightarrow> r);
               r = feed_prune now r;
               quiet_for = (case warned_at r of None \<Rightarrow> REMIND_EVERY | Some at \<Rightarrow> elapsed at now)
           in if CHURN_CLOSES < length (feed_closes r) \<and> REMIND_EVERY \<le> quiet_for
              then (Churning (length (feed_closes r)) REMIND_EVERY, r\<lparr>warned_at := Some now\<rparr>)
              else (Open_Quiet, r))"

section \<open>An outage is told once\<close>

fun link_say :: "link_report \<Rightarrow> saying" where
  "link_say Link_Quiet = Hush"
| "link_say Link_First = Started"
| "link_say (Link_Reminder _) = Still"
| "link_say (Link_Recovered d) = Over d"

definition link_runs :: "link_state \<Rightarrow> spell option \<Rightarrow> bool" where
  "link_runs s r \<longleftrightarrow>
     failing_since s = map_option (\<lambda>(b, l, m). b) r \<and> mentioned_at s = map_option (\<lambda>(b, l, m). m) r"

lemma link_count_told [simp]:
  "failing_since (link_count f t s) = failing_since s" "mentioned_at (link_count f t s) = mentioned_at s"
  by (cases f; simp add: link_count_def link_reached_def Let_def)+

interpretation link: announcer link_failed link_succeeded link_runs link_say 0
proof
  fix s r f t w r'
  assume r: "link_runs s r"
  show "link_say (fst (link_failed f t s)) = w \<and> link_runs (snd (link_failed f t s)) r'"
    if "tell 0 r (Failing f t) = (w, r')"
    using that r by (cases r) (auto simp: link_failed_def link_mention_def link_runs_def Let_def split: if_splits)
  show "link_say (fst (link_succeeded t s)) = w \<and> link_runs (snd (link_succeeded t s)) r'"
    if "tell 0 r (Worked t :: link_failure trial) = (w, r')"
    using that r by (cases r) (auto simp: link_succeeded_def link_reached_def link_runs_def Let_def)
qed

text \<open>C16: Over any history of the control link's calls, in any order of refusals, outages and successes,
  what is said of each call is exactly what must be: the first failure of a run announces it, the first
  success after it ends it and names the time since that announcement, a failure in between is told as a
  reminder when five minutes have passed since the last mention and otherwise kept quiet, and a success
  with no run is kept quiet.  So a run is announced once; the announcements are as many as the
  recoveries, one more while a run is going on; and there is at most one reminder for every five
  minutes.\<close>

theorem outage_is_told_once:
  assumes "told_in_order t0 t1 as"
    and "said_of link_failed link_succeeded as link_new = (rs, s)"
  shows "map link_say rs = telling 0 None as \<and>
    count_list rs Link_First = length (filter (\<lambda>r. \<exists>d. r = Link_Recovered d) rs) + (if failing_since s = None then 0 else 1) \<and>
    int (length (filter (\<lambda>r. \<exists>d. r = Link_Reminder d) rs)) * int REMIND_EVERY \<le> t1 - t0"
proof -
  have T: "map link_say rs = telling 0 None as" "link_runs s (spell_after 0 None as)"
    using link.tells [of link_new None as] assms(2) by (simp_all add: link_runs_def link_new_def)
  have counts: "count_list (map link_say rs) Started = count_list rs Link_First"
    "count_list (map link_say rs) Still = length (filter (\<lambda>r. \<exists>d. r = Link_Reminder d) rs)"
    "length (filter (\<lambda>w. \<exists>d. w = Over d) (map link_say rs)) = length (filter (\<lambda>r. \<exists>d. r = Link_Recovered d) rs)" for rs
    by (induction rs) (auto elim: link_say.elims)
  show ?thesis
    using T telling_starts [of 0 None as] telling_reminds [OF assms(1), of None 0] counts [of rs]
    by (auto simp: link_runs_def)
qed

text \<open>An outage of three calls that lasts seven minutes, told in three lines and over with a success.\<close>

lemma outage_is_told_once_witness:
  "\<exists>rs s. said_of link_failed link_succeeded
       [Failing Unreachable 0, Failing Refused_Call 1000, Failing Unreachable (420 * 10 ^ 9), Worked (500 * 10 ^ 9)] link_new = (rs, s) \<and>
     rs = [Link_First, Link_Quiet, Link_Reminder (420 * 10 ^ 9), Link_Recovered (500 * 10 ^ 9)] \<and>
     count_list rs Link_First = length (filter (\<lambda>r. \<exists>d. r = Link_Recovered d) rs)"
proof -
  let ?as = "[Failing Unreachable 0, Failing Refused_Call 1000, Failing Unreachable (420 * 10 ^ 9), Worked (500 * 10 ^ 9)]"
  obtain rs s where s: "said_of link_failed link_succeeded ?as link_new = (rs, s)" by force
  have "rs = [Link_First, Link_Quiet, Link_Reminder (420 * 10 ^ 9), Link_Recovered (500 * 10 ^ 9)] \<and> failing_since s = None"
    using s by (auto simp: link_failed_def link_count_def link_mention_def link_succeeded_def link_reached_def link_new_def
        REMIND_EVERY_def secs_def elapsed_def Let_def)
  moreover have "told_in_order 0 (500 * 10 ^ 9) ?as" by simp
  ultimately show ?thesis using outage_is_told_once [OF _ s] s by auto
qed

section \<open>Calls are held back while the server is out of reach, and only then\<close>

text \<open>How many of the last calls in a row did not reach the server.\<close>

definition outage_len :: "link_failure trial list \<Rightarrow> nat" where
  "outage_len as = length (takeWhile (\<lambda>a. \<exists>t. a = Failing Unreachable t) (rev as))"

lemma link_backoff_eq: "link_backoff (Suc n) = min (secs 60) (secs (2 ^ n))"
proof (cases "n \<le> 16")
  case True
  then have "(2::nat) ^ n \<le> 2 ^ 16" by (intro power_increasing) auto
  then show ?thesis
    using True by (simp add: link_backoff_def RETRY_MIN_def RETRY_MAX_def dur_mul_def duration_max_def secs_def Let_def min_def)
next
  case False
  then have "(2::nat) ^ 16 \<le> 2 ^ n" by (intro power_increasing) auto
  then show ?thesis
    using False by (simp add: link_backoff_def RETRY_MIN_def RETRY_MAX_def dur_mul_def duration_max_def secs_def Let_def min_def)
qed

lemma link_retry:
  assumes "s = snd (said_of link_failed link_succeeded as link_new)"
  shows "link_failures s = min (2 ^ 32 - 1) (outage_len as) \<and>
    retry_at s = (if outage_len as = 0 then None
      else Some (att_time (last as) + int (min (secs 60) (secs (2 ^ (outage_len as - 1))))))"
  using assms
proof (induction as arbitrary: s rule: rev_induct)
  case Nil
  then show ?case by (simp add: outage_len_def link_new_def)
next
  case (snoc a as)
  let ?s = "snd (said_of link_failed link_succeeded as link_new)"
  note IH = snoc.IH [OF refl]
  have step: "s = snd (told_step link_failed link_succeeded a ?s)"
    using snoc.prems by (simp add: said_of_append)
  have cap: "min (secs 60) (secs (2 ^ n)) = secs 60" if "6 \<le> n" for n
  proof -
    have "(2::nat) ^ 6 \<le> 2 ^ n" using that by (intro power_increasing) auto
    then show ?thesis by (simp add: secs_def)
  qed
  have big: "link_backoff (add_u32 (min (2 ^ 32 - 1) n)) = min (secs 60) (secs (2 ^ n))" for n
  proof (cases "n < 2 ^ 32 - 1")
    case True
    then show ?thesis by (simp add: add_u32_def link_backoff_eq)
  next
    case False
    then have n: "add_u32 (min (2 ^ 32 - 1) n) = 2 ^ 32 - 1" "6 \<le> n" by (simp_all add: add_u32_def)
    have "\<exists>m. (2::nat) ^ 32 - 1 = Suc m \<and> 6 \<le> m" by (intro exI [of _ "2 ^ 32 - 2"]) simp
    with n(1) obtain m where "add_u32 (min (2 ^ 32 - 1) n) = Suc m" "6 \<le> m" by metis
    then show ?thesis using cap [OF n(2)] cap [of m] by (simp add: link_backoff_eq)
  qed
  have mention: "link_failures (snd (link_mention t x)) = link_failures x \<and> retry_at (snd (link_mention t x)) = retry_at x" for t x
    by (simp add: link_mention_def Let_def split: option.split)
  show ?case
  proof (cases "\<exists>t. a = Failing Unreachable t")
    case True
    then obtain t where a: "a = Failing Unreachable t" by blast
    have len: "outage_len (as @ [a]) = Suc (outage_len as)" by (simp add: a outage_len_def)
    have "link_failures (snd (link_failed Unreachable t x)) = add_u32 (link_failures x) \<and>
        retry_at (snd (link_failed Unreachable t x)) = Some (t + int (link_backoff (add_u32 (link_failures x))))" for x
      by (simp add: link_failed_def link_count_def mention Let_def)
    then show ?thesis
      unfolding step len using a IH big [of "outage_len as"] by (simp add: add_u32_def)
  next
    case False
    then have "outage_len (as @ [a]) = 0" by (simp add: outage_len_def)
    moreover have "link_failures (snd (told_step link_failed link_succeeded a x)) = 0 \<and>
        retry_at (snd (told_step link_failed link_succeeded a x)) = None" for x
    proof (cases a)
      case (Worked t)
      then show ?thesis by (simp add: link_succeeded_def link_reached_def Let_def split: option.split)
    next
      case (Failing f t)
      with False have "f = Refused_Call" by (cases f) auto
      with Failing show ?thesis by (simp add: link_failed_def link_count_def link_reached_def mention)
    qed
    ultimately show ?thesis unfolding step by simp
  qed
qed

text \<open>C17: Whatever the history of a link's calls, another call is held back exactly while the last calls in a row
  failed to reach the server and the wait of the last of them, one second doubled for each one before
  it and at most a minute, has not passed; a refusal or a success holds nothing back.\<close>

theorem calls_are_held_back_only_while_down:
  "link_due now (snd (said_of link_failed link_succeeded as link_new)) \<longleftrightarrow>
     outage_len as = 0 \<or> att_time (last as) + int (min (secs 60) (secs (2 ^ (outage_len as - 1)))) \<le> now"
  using link_retry [OF refl, of as] by (simp add: link_due_def)

section \<open>A warning about a feed that is cut is never about an outage\<close>

datatype feed_event =
    Feed_Closed link_view int
  | Feed_Failed link_view
  | Feed_Opened bool link_view int

fun feed_step :: "feed_event \<Rightarrow> reopenings \<Rightarrow> reopenings" where
  "feed_step (Feed_Closed l t) r = feed_closed l t r"
| "feed_step (Feed_Failed l) r = feed_failed l r"
| "feed_step (Feed_Opened rec l t) r = snd (feed_opened rec l t r)"

text \<open>The closes of the feed while the link was up, during the stretch between two outages numbered \<open>n\<close>.\<close>

definition healthy_closes :: "nat \<Rightarrow> feed_event list \<Rightarrow> int list" where
  "healthy_closes n es =
     List.map_filter (\<lambda>e. case e of
        Feed_Closed l t \<Rightarrow> if \<not> lk_down l \<and> lk_outages l = n then Some t else None | _ \<Rightarrow> None) es"

definition held_closes :: "reopenings \<Rightarrow> int list" where
  "held_closes r = feed_closes r @ (case pending_close r of Some t \<Rightarrow> [t] | None \<Rightarrow> [])"

lemma healthy_closes_snoc:
  "healthy_closes n (es @ [e]) = healthy_closes n es @
     (case e of Feed_Closed l t \<Rightarrow> if \<not> lk_down l \<and> lk_outages l = n then [t] else [] | _ \<Rightarrow> [])"
  by (simp add: healthy_closes_def List.map_filter_def split: feed_event.split)

lemma held_closes_closed:
  "seen_outages (feed_closed l t r) = lk_outages l"
  "held_closes (feed_closed l t r) = (if lk_outages l \<noteq> seen_outages r \<or> lk_down l then [] else feed_closes r @ [t])"
  by (simp_all add: feed_closed_def feed_outage_def held_closes_def feed_forget_def)

lemma held_closes_failed:
  "seen_outages (feed_failed l r) = lk_outages l"
  "held_closes (feed_failed l r) = (if lk_outages l \<noteq> seen_outages r \<or> lk_down l then [] else held_closes r)"
  by (simp_all add: feed_failed_def feed_outage_def held_closes_def feed_forget_def)

lemma held_closes_opened:
  "seen_outages (snd (feed_opened rec l t r)) = lk_outages l"
  "held_closes (snd (feed_opened rec l t r)) =
     (if \<not> opened_once r \<or> rec \<or> lk_outages l \<noteq> seen_outages r then []
      else dropWhile (\<lambda>at. REMIND_EVERY < elapsed at t) (held_closes r))"
  by (auto simp: feed_opened_def feed_outage_def held_closes_def feed_forget_def feed_prune_def Let_def split: option.split)

lemma churning_opened:
  "fst (feed_opened rec l t r) = Churning n w \<Longrightarrow>
     \<not> rec \<and> lk_outages l = seen_outages r \<and> CHURN_CLOSES < n \<and> w = REMIND_EVERY \<and>
     n = length (dropWhile (\<lambda>at. REMIND_EVERY < elapsed at t) (held_closes r))"
  by (auto simp: feed_opened_def feed_outage_def held_closes_def feed_forget_def feed_prune_def Let_def split: option.splits if_splits)

lemma held_closes_healthy:
  "subseq (held_closes (fold feed_step es reopenings_new))
     (healthy_closes (seen_outages (fold feed_step es reopenings_new)) es)"
proof (induction es rule: rev_induct)
  case Nil
  then show ?case by (simp add: held_closes_def reopenings_new_def)
next
  case (snoc e es)
  let ?r = "fold feed_step es reopenings_new"
  have "subseq (feed_closes ?r) (held_closes ?r)" by (simp add: held_closes_def prefix_imp_subseq)
  with snoc have front: "subseq (feed_closes ?r) (healthy_closes (seen_outages ?r) es)"
    using subseq_order.trans by blast
  have later: "subseq (dropWhile P (held_closes ?r)) (healthy_closes (seen_outages ?r) es)" for P
    using snoc suffix_imp_subseq [OF suffix_dropWhile] subseq_order.trans by blast
  show ?case
    using snoc front later
    by (cases e) (auto simp: held_closes_closed held_closes_failed held_closes_opened healthy_closes_snoc
        split: if_splits intro: list_emb_append_mono)
qed

text \<open>The instants of a history, for one whose clock does not step back.\<close>

fun feed_times :: "feed_event \<Rightarrow> int list" where
  "feed_times (Feed_Closed l t) = [t]"
| "feed_times (Feed_Failed l) = []"
| "feed_times (Feed_Opened rec l t) = [t]"

lemma healthy_closes_times: "subseq (healthy_closes n es) (concat (map feed_times es))"
proof (induction es rule: rev_induct)
  case Nil
  then show ?case by (simp add: healthy_closes_def List.map_filter_def)
next
  case (snoc e es)
  then show ?case
    by (cases e) (auto simp: healthy_closes_snoc intro: list_emb_append_mono)
qed

lemma sorted_subseq: "subseq xs ys \<Longrightarrow> sorted ys \<Longrightarrow> sorted (xs :: int list)"
  by (induction rule: list_emb.induct) (auto dest: list_emb_set)

text \<open>A warning that something is cutting the feed counts only closes of a feed that was up: there were that
  many of them, more than five, each while the link was up and in the stretch since the last outage,
  and all within the last five minutes.\<close>

theorem churn_warning_is_not_an_outage:
  assumes "sorted (concat (map feed_times es) @ [now])"
    and "fst (feed_opened rec l now (fold feed_step es reopenings_new)) = Churning n within"
  shows "\<not> rec \<and> 5 < n \<and> within = secs 300 \<and>
    (\<exists>ts. subseq ts (healthy_closes (lk_outages l) es) \<and> length ts = n \<and> list_all (\<lambda>t. now - t \<le> int within) ts)"
proof -
  let ?r = "fold feed_step es reopenings_new"
  let ?ts = "dropWhile (\<lambda>at. REMIND_EVERY < elapsed at now) (held_closes ?r)"
  note C = churning_opened [OF assms(2)]
  have "subseq ?ts (held_closes ?r)" by (simp add: suffix_dropWhile suffix_imp_subseq)
  then have sub: "subseq ?ts (healthy_closes (lk_outages l) es)"
    using C held_closes_healthy [of es] subseq_order.trans by force
  then have "subseq ?ts (concat (map feed_times es))"
    using healthy_closes_times subseq_order.trans by blast
  then have "sorted ?ts" using assms(1) sorted_subseq by (auto simp: sorted_append)
  moreover have "\<not> REMIND_EVERY < elapsed (hd ?ts) now" if "?ts \<noteq> []" using that hd_dropWhile by blast
  ultimately have "list_all (\<lambda>t. now - t \<le> int REMIND_EVERY) ?ts"
  proof (cases ?ts)
    case Nil
    then show ?thesis unfolding Nil by simp
  next
    case (Cons a list)
    with \<open>sorted ?ts\<close> \<open>?ts \<noteq> [] \<Longrightarrow> \<not> REMIND_EVERY < elapsed (hd ?ts) now\<close>
    have "\<not> REMIND_EVERY < elapsed a now" "\<forall>t \<in> set list. a \<le> t" by simp_all
    then show ?thesis unfolding Cons list_all_iff by (auto simp: elapsed_def)
  qed
  with C sub show ?thesis by (auto simp: CHURN_CLOSES_def REMIND_EVERY_def)
qed

text \<open>A feed cut every ten seconds, six times.\<close>

definition demo_link :: link_view where
  "demo_link = \<lparr>lk_down = False, lk_outages = 1\<rparr>"

definition demo_cuts :: "feed_event list" where
  "demo_cuts = Feed_Opened False demo_link 0 #
     concat (map (\<lambda>k. [Feed_Closed demo_link (k * 10 ^ 10), Feed_Opened False demo_link (k * 10 ^ 10 + 1)]) [1..5]) @
     [Feed_Closed demo_link (6 * 10 ^ 10)]"

lemma churn_warning_is_not_an_outage_witness:
  "\<exists>n within. fst (feed_opened False demo_link (7 * 10 ^ 10) (fold feed_step demo_cuts reopenings_new)) = Churning n within \<and>
     within = secs 300 \<and> n = 6"
proof -
  have cuts: "demo_cuts = [Feed_Opened False demo_link 0,
      Feed_Closed demo_link (1 * 10 ^ 10), Feed_Opened False demo_link (1 * 10 ^ 10 + 1),
      Feed_Closed demo_link (2 * 10 ^ 10), Feed_Opened False demo_link (2 * 10 ^ 10 + 1),
      Feed_Closed demo_link (3 * 10 ^ 10), Feed_Opened False demo_link (3 * 10 ^ 10 + 1),
      Feed_Closed demo_link (4 * 10 ^ 10), Feed_Opened False demo_link (4 * 10 ^ 10 + 1),
      Feed_Closed demo_link (5 * 10 ^ 10), Feed_Opened False demo_link (5 * 10 ^ 10 + 1),
      Feed_Closed demo_link (6 * 10 ^ 10)]"
    by (simp add: demo_cuts_def upto.simps)
  have "fst (feed_opened False demo_link (7 * 10 ^ 10) (fold feed_step demo_cuts reopenings_new)) = Churning 6 (secs 300)"
    by (simp add: cuts feed_opened_def feed_closed_def feed_outage_def feed_forget_def feed_prune_def demo_link_def
        reopenings_new_def REMIND_EVERY_def CHURN_CLOSES_def secs_def elapsed_def Let_def)
  moreover have "sorted (concat (map feed_times demo_cuts) @ [7 * 10 ^ 10])" by (simp add: cuts)
  ultimately show ?thesis using churn_warning_is_not_an_outage by blast
qed

end
