(* ===== verification/Upstream.thy ===== *)
theory Upstream
  imports Announce
begin

text \<open>
  A polled upstream of a feed plugin: how often it is asked, how long it is left alone, and what is said
  about it (\<open>rustak-client/src/feed/upstream\<close>: \<open>notice.rs\<close>, \<open>rules.rs\<close>, \<open>state.rs\<close>, \<open>every.rs\<close>).  A
  plugin's \<open>Rules\<close> are a record of its constants; the words of its log lines are not modelled.
\<close>

section \<open>A thing that keeps happening (notice.rs)\<close>

datatype run_report =
    Run_Quiet
  | Run_First
  | Run_Reminder nat nat
  | Run_Recovered nat nat

record repeated =
  rp_settle :: nat
  rp_since :: "int option"
  rp_last :: "int option"
  rp_mentioned :: "int option"
  rp_count :: nat
  rp_unmentioned :: nat

definition repeated_new :: "nat \<Rightarrow> repeated" where
  "repeated_new settle = \<lparr>rp_settle = settle, rp_since = None, rp_last = None, rp_mentioned = None,
     rp_count = 0, rp_unmentioned = 0\<rparr>"

definition happened :: "int \<Rightarrow> repeated \<Rightarrow> run_report \<times> repeated" where
  "happened now s =
     (let s = s\<lparr>rp_count := sat_add_u64 (rp_count s) 1, rp_unmentioned := sat_add_u64 (rp_unmentioned s) 1, rp_last := Some now\<rparr>
      in if rp_since s = None then
           (Run_First, s\<lparr>rp_since := Some now, rp_mentioned := Some now, rp_unmentioned := 0\<rparr>)
         else
           let quiet_for = (case rp_mentioned s of None \<Rightarrow> REMIND_EVERY | Some at \<Rightarrow> elapsed at now)
           in if quiet_for < REMIND_EVERY then (Run_Quiet, s)
              else (Run_Reminder (rp_unmentioned s) quiet_for, s\<lparr>rp_mentioned := Some now, rp_unmentioned := 0\<rparr>))"

definition cleared :: "int \<Rightarrow> repeated \<Rightarrow> run_report \<times> repeated" where
  "cleared now s =
     (case (rp_since s, rp_last s) of
        (Some since, Some latest) \<Rightarrow>
          if elapsed latest now < rp_settle s then (Run_Quiet, s)
          else (Run_Recovered (rp_count s) (elapsed since now), repeated_new (rp_settle s))
      | _ \<Rightarrow> (Run_Quiet, s))"

definition standing :: "repeated \<Rightarrow> bool" where
  "standing s \<longleftrightarrow> rp_since s \<noteq> None"

section \<open>Once a period (every.rs)\<close>

record every =
  ev_period :: nat
  ev_last_due :: "int option"

definition every_due :: "int \<Rightarrow> every \<Rightarrow> bool \<times> every" where
  "every_due now e =
     (let due = (case ev_last_due e of None \<Rightarrow> True | Some latest \<Rightarrow> ev_period e \<le> elapsed latest now)
      in (due, if due then e\<lparr>ev_last_due := Some now\<rparr> else e))"

section \<open>The source (rules.rs, state.rs)\<close>

record rules =
  max_backoff :: nat
  max_retry_after :: nat
  refusal_is_an_answer :: bool
  refusals_settle_over_polls :: nat

definition MAX_DOUBLINGS :: nat where
  "MAX_DOUBLINGS = 6"

record source_state =
  ss_interval :: nat
  ss_connected :: bool
  ss_ever_connected :: bool
  ss_failures :: nat
  ss_since :: int
  ss_last_success :: "int option"
  ss_last_error :: "ustr option"
  ss_next_attempt :: int
  ss_rate_limited :: nat
  ss_outage :: repeated
  ss_limit :: repeated

definition source_new :: "rules \<Rightarrow> nat \<Rightarrow> int \<Rightarrow> source_state" where
  "source_new R interval now =
     (let settle = max REMIND_EVERY (dur_mul interval (refusals_settle_over_polls R))
      in \<lparr>ss_interval = interval, ss_connected = False, ss_ever_connected = False, ss_failures = 0, ss_since = now,
          ss_last_success = None, ss_last_error = None, ss_next_attempt = now, ss_rate_limited = 0,
          ss_outage = repeated_new 0, ss_limit = repeated_new settle\<rparr>)"

definition source_ready :: "int \<Rightarrow> source_state \<Rightarrow> bool" where
  "source_ready now s \<longleftrightarrow> ss_next_attempt s \<le> now"

definition source_backoff :: "rules \<Rightarrow> source_state \<Rightarrow> nat" where
  "source_backoff R s =
     (let doublings = min MAX_DOUBLINGS (ss_failures s - 1)
      in max (ss_interval s) (min (max_backoff R) (dur_mul (ss_interval s) (2 ^ doublings))))"

definition source_answered :: "int \<Rightarrow> source_state \<Rightarrow> run_report \<times> source_state" where
  "source_answered now s =
     (let (report, outage) = cleared now (ss_outage s);
          s = s\<lparr>ss_outage := outage\<rparr>;
          s = (case report of
                 Run_Recovered count over \<Rightarrow> s\<lparr>ss_since := now\<rparr>
               | _ \<Rightarrow> if \<not> ss_ever_connected s then s\<lparr>ss_since := now\<rparr> else s)
      in (report, s\<lparr>ss_connected := True, ss_ever_connected := True, ss_failures := 0, ss_last_error := None\<rparr>))"

definition source_succeeded :: "int \<Rightarrow> source_state \<Rightarrow> (run_report \<times> run_report) \<times> source_state" where
  "source_succeeded now s =
     (let (outage, s) = source_answered now s;
          (limit, l) = cleared now (ss_limit s)
      in ((outage, limit), s\<lparr>ss_limit := l, ss_last_success := Some now, ss_next_attempt := now + int (ss_interval s)\<rparr>))"

definition source_failed :: "rules \<Rightarrow> ustr \<Rightarrow> int \<Rightarrow> source_state \<Rightarrow> run_report \<times> source_state" where
  "source_failed R error now s =
     (let (report, outage) = happened now (ss_outage s);
          s = s\<lparr>ss_outage := outage\<rparr>;
          s = (if report = Run_First then s\<lparr>ss_since := now\<rparr> else s);
          s = s\<lparr>ss_connected := False, ss_failures := add_u32 (ss_failures s), ss_last_error := Some error\<rparr>
      in (report, s\<lparr>ss_next_attempt := now + int (source_backoff R s)\<rparr>))"

definition source_wait_for :: "rules \<Rightarrow> nat option \<Rightarrow> int \<Rightarrow> source_state \<Rightarrow> (nat \<times> run_report) \<times> source_state" where
  "source_wait_for R asked now s =
     (let every = ss_interval s;
          delay = max every (case asked of
              None \<Rightarrow> min (max_backoff R) (dur_mul every 2)
            | Some stated \<Rightarrow> min (max_retry_after R) stated);
          s = (if refusal_is_an_answer R then snd (source_answered now s) else s);
          s = s\<lparr>ss_rate_limited := sat_add_u64 (ss_rate_limited s) 1, ss_next_attempt := now + int delay\<rparr>;
          (report, l) = happened now (ss_limit s)
      in ((delay, report), s\<lparr>ss_limit := l\<rparr>))"

definition source_set_interval :: "nat \<Rightarrow> source_state \<Rightarrow> source_state" where
  "source_set_interval interval s = s\<lparr>ss_interval := interval\<rparr>"

definition source_due_at :: "int \<Rightarrow> source_state \<Rightarrow> source_state" where
  "source_due_at at s = s\<lparr>ss_next_attempt := at\<rparr>"

definition in_outage :: "source_state \<Rightarrow> bool" where
  "in_outage s = standing (ss_outage s)"

definition being_refused :: "source_state \<Rightarrow> bool" where
  "being_refused s = standing (ss_limit s)"

definition reconnecting_for :: "int \<Rightarrow> source_state \<Rightarrow> int option" where
  "reconnecting_for now s = (if ss_connected s then None else Some (now - ss_since s))"

section \<open>A run is told once\<close>

fun run_say :: "run_report \<Rightarrow> saying" where
  "run_say Run_Quiet = Hush"
| "run_say Run_First = Started"
| "run_say (Run_Reminder c d) = Still"
| "run_say (Run_Recovered c d) = Over d"

definition repeated_ok :: "repeated \<Rightarrow> bool" where
  "repeated_ok s \<longleftrightarrow> (rp_since s = None) = (rp_last s = None) \<and> (rp_since s = None) = (rp_mentioned s = None)"

definition repeated_runs :: "nat \<Rightarrow> repeated \<Rightarrow> spell option \<Rightarrow> bool" where
  "repeated_runs settle s r \<longleftrightarrow> rp_settle s = settle \<and> rp_since s = map_option (\<lambda>(b, l, m). b) r \<and>
     rp_last s = map_option (\<lambda>(b, l, m). l) r \<and> rp_mentioned s = map_option (\<lambda>(b, l, m). m) r"

interpretation run: announcer "\<lambda>(k :: unit) t. happened t" cleared "repeated_runs settle" run_say settle for settle
proof
  fix s r and k :: unit and t w r'
  assume r: "repeated_runs settle s r"
  show "run_say (fst (happened t s)) = w \<and> repeated_runs settle (snd (happened t s)) r'"
    if "tell settle r (Failing k t) = (w, r')"
    using that r by (cases r) (auto simp: happened_def repeated_runs_def Let_def split: if_splits)
  show "run_say (fst (cleared t s)) = w \<and> repeated_runs settle (snd (cleared t s)) r'"
    if "tell settle r (Worked t :: unit trial) = (w, r')"
    using that r by (cases r) (auto simp: cleared_def repeated_new_def repeated_runs_def split: if_splits)
qed

text \<open>
  What the counts must be: \<open>n\<close> occurrences in the run so far, \<open>u\<close> of them since it was last mentioned.
\<close>

fun counts_true :: "nat \<Rightarrow> nat \<Rightarrow> unit trial list \<Rightarrow> run_report list \<Rightarrow> bool" where
  "counts_true n u [] [] \<longleftrightarrow> True"
| "counts_true n u (a # as) (Run_Quiet # rs) \<longleftrightarrow>
     (case a of Failing k t \<Rightarrow> counts_true (n + 1) (u + 1) as rs | Worked t \<Rightarrow> counts_true n u as rs)"
| "counts_true n u (a # as) (Run_First # rs) \<longleftrightarrow> n = 0 \<and> counts_true 1 0 as rs"
| "counts_true n u (a # as) (Run_Reminder c d # rs) \<longleftrightarrow> c = sat_add_u64 u 1 \<and> counts_true (n + 1) 0 as rs"
| "counts_true n u (a # as) (Run_Recovered c d # rs) \<longleftrightarrow> c = sat_add_u64 n 0 \<and> counts_true 0 0 as rs"
| "counts_true n u _ _ \<longleftrightarrow> False"

lemma happened_said:
  assumes "repeated_ok s" and "rp_count s = min u64_max n" and "rp_unmentioned s = min u64_max u" and "rp_since s = None \<longleftrightarrow> n = 0"
    and "happened t s = (r, s')"
  shows "repeated_ok s' \<and> rp_count s' = min u64_max (n + 1) \<and> rp_since s' \<noteq> None \<and>
    (r = Run_Quiet \<and> rp_unmentioned s' = min u64_max (u + 1) \<or>
     r = Run_First \<and> n = 0 \<and> rp_unmentioned s' = 0 \<or>
     (\<exists>d. r = Run_Reminder (sat_add_u64 u 1) d \<and> rp_unmentioned s' = 0))"
  using assms by (auto simp: happened_def repeated_ok_def sat_add_u64_def u64_max_def Let_def split: if_splits)

lemma cleared_said:
  assumes "repeated_ok s" and "cleared t s = (r, s')"
  shows "repeated_ok s' \<and> (r = Run_Quiet \<and> s' = s \<or>
    (\<exists>d. r = Run_Recovered (rp_count s) d \<and> s' = repeated_new (rp_settle s)))"
  using assms by (auto simp: cleared_def repeated_ok_def repeated_new_def split: option.splits if_splits)

lemma counts_said:
  "repeated_ok s \<Longrightarrow> rp_count s = min u64_max n \<Longrightarrow> rp_unmentioned s = min u64_max u \<Longrightarrow> (rp_since s = None \<longleftrightarrow> n = 0) \<Longrightarrow>
   counts_true n u as (fst (said_of (\<lambda>(k :: unit) t. happened t) cleared as s))"
proof (induction as arbitrary: s n u)
  case (Cons a as)
  show ?case
  proof (cases a)
    case (Worked t)
    obtain r s' where s': "cleared t s = (r, s')" by force
    from cleared_said [OF Cons.prems(1) s'] show ?thesis
      using Cons.IH [of s n u] Cons.IH [of s' 0 0] Cons.prems Worked s'
      by (auto simp: repeated_new_def sat_add_u64_def)
  next
    case (Failing k t)
    obtain r s' where s': "happened t s = (r, s')" by force
    from happened_said [OF Cons.prems s'] show ?thesis
      using Cons.IH [of s' "n + 1" "u + 1"] Cons.IH [of s' "n + 1" 0] Failing s' by auto
  qed
qed simp

text \<open>C19: Over any history of a thing that happens or not, what is said of each is exactly what must be: the
  first time announces a run; the run is over exactly at the first clearing that comes the settle time
  or more after the latest occurrence, and its end names how long it lasted and how often it happened;
  an occurrence is told as a reminder when five minutes have passed since the last mention, naming how
  often it happened since, and otherwise nothing is said.  There is at most one reminder for every five
  minutes.\<close>

theorem run_is_told_and_counted:
  assumes "told_in_order t0 t1 as"
    and "said_of (\<lambda>(k :: unit) t. happened t) cleared as (repeated_new settle) = (rs, s)"
  shows "map run_say rs = telling settle None as \<and> counts_true 0 0 as rs \<and>
    (rp_since s = None \<longleftrightarrow> spell_after settle None as = None) \<and>
    int (count_list (map run_say rs) Still) * int REMIND_EVERY \<le> t1 - t0"
proof -
  have T: "map run_say rs = telling settle None as" "repeated_runs settle s (spell_after settle None as)"
    using run.tells [of settle "repeated_new settle" None as] assms(2) by (simp_all add: repeated_runs_def repeated_new_def)
  have "counts_true 0 0 as rs"
    using counts_said [of "repeated_new settle" 0 0 as] assms(2) by (simp add: repeated_ok_def repeated_new_def)
  with T show ?thesis
    using telling_reminds [OF assms(1), of None settle] by (auto simp: repeated_runs_def)
qed

lemma run_is_told_and_counted_witness:
  "\<exists>rs s. said_of (\<lambda>(k :: unit) t. happened t) cleared
       [Failing () 0, Failing () 5, Failing () (400 * 10 ^ 9), Worked (401 * 10 ^ 9), Worked (900 * 10 ^ 9)] (repeated_new (secs 300)) = (rs, s) \<and>
     rs = [Run_First, Run_Quiet, Run_Reminder 2 (400 * 10 ^ 9), Run_Quiet, Run_Recovered 3 (900 * 10 ^ 9)] \<and>
     counts_true 0 0 [Failing () 0, Failing () 5, Failing () (400 * 10 ^ 9), Worked (401 * 10 ^ 9), Worked (900 * 10 ^ 9)] rs"
proof -
  let ?as = "[Failing () 0, Failing () 5, Failing () (400 * 10 ^ 9), Worked (401 * 10 ^ 9), Worked (900 * 10 ^ 9)]"
  obtain rs s where s: "said_of (\<lambda>(k :: unit) t. happened t) cleared ?as (repeated_new (secs 300)) = (rs, s)" by force
  have "rs = [Run_First, Run_Quiet, Run_Reminder 2 (400 * 10 ^ 9), Run_Quiet, Run_Recovered 3 (900 * 10 ^ 9)]"
    using s by (auto simp: happened_def cleared_def repeated_new_def sat_add_u64_def u64_max_def REMIND_EVERY_def secs_def elapsed_def Let_def)
  moreover have "told_in_order 0 (900 * 10 ^ 9) ?as" by simp
  ultimately show ?thesis using run_is_told_and_counted [OF _ s] s by auto
qed

section \<open>How often a source is asked\<close>

datatype answer = Answered_Well | Errored ustr | Refused_For "nat option"

fun source_answer :: "rules \<Rightarrow> int \<times> answer \<Rightarrow> source_state \<Rightarrow> source_state" where
  "source_answer R (now, Answered_Well) s = snd (source_succeeded now s)"
| "source_answer R (now, Errored e) s = snd (source_failed R e now s)"
| "source_answer R (now, Refused_For d) s = snd (source_wait_for R d now s)"

text \<open>A history of requests, each sent when the source said it was time and answered there and then.\<close>

fun asked_in_turn :: "rules \<Rightarrow> (int \<times> answer) list \<Rightarrow> source_state \<Rightarrow> source_state option" where
  "asked_in_turn R [] s = Some s"
| "asked_in_turn R (q # qs) s = (if source_ready (fst q) s then asked_in_turn R qs (source_answer R q s) else None)"

definition longest_wait :: "rules \<Rightarrow> nat \<Rightarrow> nat" where
  "longest_wait R interval = max interval (max (max_backoff R) (max_retry_after R))"

lemma source_answered_keeps:
  "ss_interval (snd (source_answered now s)) = ss_interval s" "ss_limit (snd (source_answered now s)) = ss_limit s"
  by (simp_all add: source_answered_def Let_def split_beta split: run_report.split)

lemma source_failed_fields:
  "ss_interval (snd (source_failed R e now s)) = ss_interval s"
  "ss_outage (snd (source_failed R e now s)) = snd (happened now (ss_outage s))"
  "ss_failures (snd (source_failed R e now s)) = add_u32 (ss_failures s)"
  "ss_connected (snd (source_failed R e now s)) = False"
  "ss_ever_connected (snd (source_failed R e now s)) = ss_ever_connected s"
  "ss_last_error (snd (source_failed R e now s)) = Some e"
  "ss_since (snd (source_failed R e now s)) = (if fst (happened now (ss_outage s)) = Run_First then now else ss_since s)"
  by (simp_all add: source_failed_def Let_def split_beta)

lemma answer_keeps_interval [simp]: "ss_interval (source_answer R q s) = ss_interval s"
  by (cases "(R, q, s)" rule: source_answer.cases)
    (simp_all add: source_succeeded_def source_failed_def source_wait_for_def Let_def source_answered_keeps split_beta)

lemma answer_waits:
  "\<exists>w. ss_next_attempt (source_answer R q s) = fst q + int w \<and> ss_interval s \<le> w \<and> w \<le> longest_wait R (ss_interval s)"
proof (cases "(R, q, s)" rule: source_answer.cases)
  case (1 R' now s')
  then show ?thesis
    by (intro exI [of _ "ss_interval s"])
      (simp add: source_succeeded_def longest_wait_def source_answered_keeps split_beta Let_def)
next
  case (2 R' now e s')
  let ?s = "source_answer R q s"
  have "ss_next_attempt ?s = now + int (source_backoff R ?s)"
    using 2 by (simp add: source_failed_def source_backoff_def split_beta Let_def)
  with 2 show ?thesis
    by (intro exI [of _ "source_backoff R ?s"]) (simp add: source_backoff_def longest_wait_def source_failed_fields Let_def)
next
  case (3 R' now d s')
  then show ?thesis
    by (intro exI [of _ "fst (fst (source_wait_for R d now s))"])
      (auto simp: source_wait_for_def longest_wait_def split_beta Let_def split: option.split)
qed

lemma asked_in_turn_append:
  "asked_in_turn R (qs @ rs) s = (case asked_in_turn R qs s of None \<Rightarrow> None | Some s \<Rightarrow> asked_in_turn R rs s)"
  by (induction qs arbitrary: s) simp_all

text \<open>C18: However a feed's upstream answers, fails or refuses, two requests are never closer than the configured
  interval, and the next one is never put off longer than the interval or the plugin's ceilings, whatever
  delay the upstream asks for and however often it failed.\<close>

theorem polls_keep_the_interval:
  assumes "asked_in_turn R qs (source_new R interval t0) = Some s"
  shows "sorted_wrt (\<lambda>p q. fst p + int interval \<le> fst q) qs \<and>
    (qs = [] \<and> ss_next_attempt s = t0 \<or>
     qs \<noteq> [] \<and> fst (last qs) + int interval \<le> ss_next_attempt s \<and>
     ss_next_attempt s \<le> fst (last qs) + int (longest_wait R interval))"
proof -
  have "asked_in_turn R qs (source_new R interval t0) = Some s \<Longrightarrow>
    ss_interval s = interval \<and> sorted_wrt (\<lambda>p q. fst p + int interval \<le> fst q) qs \<and>
    (\<forall>q \<in> set qs. fst q + int interval \<le> ss_next_attempt s) \<and>
    (qs = [] \<and> ss_next_attempt s = t0 \<or>
     qs \<noteq> [] \<and> ss_next_attempt s \<le> fst (last qs) + int (longest_wait R interval))" for s
  proof (induction qs arbitrary: s rule: rev_induct)
    case Nil
    then show ?case by (auto simp: source_new_def Let_def)
  next
    case (snoc q qs)
    then obtain s0 where s0: "asked_in_turn R qs (source_new R interval t0) = Some s0"
      and q: "source_ready (fst q) s0" "s = source_answer R q s0"
      by (auto simp: asked_in_turn_append split: option.splits if_splits)
    note IH = snoc.IH [OF s0]
    obtain w where w: "ss_next_attempt s = fst q + int w" "interval \<le> w" "w \<le> longest_wait R interval"
      using answer_waits [of R q s0] IH q(2) by auto
    have "fst p + int interval \<le> fst q" if "p \<in> set qs" for p
      using IH that q(1) by (force simp: source_ready_def)
    then show ?case
      using IH q(2) w by (force simp: sorted_wrt_append)
  qed
  from this [OF assms] show ?thesis
    by (cases qs rule: rev_cases) auto
qed

definition demo_rules :: rules where
  "demo_rules = \<lparr>max_backoff = secs 900, max_retry_after = secs 3600, refusal_is_an_answer = True, refusals_settle_over_polls = 0\<rparr>"

lemma polls_keep_the_interval_witness:
  "\<exists>s. asked_in_turn demo_rules
       [(0, Errored []), (10 ^ 10, Errored []), (3 * 10 ^ 10, Refused_For (Some (secs 86400))), (3631 * 10 ^ 9, Answered_Well)]
       (source_new demo_rules (secs 10) 0) = Some s \<and>
     ss_next_attempt s = 3641 * 10 ^ 9"
proof -
  let ?qs = "[(0, Errored []), (10 ^ 10, Errored []), (3 * 10 ^ 10, Refused_For (Some (secs 86400))), (3631 * 10 ^ 9, Answered_Well)]"
  have "\<exists>s. asked_in_turn demo_rules ?qs (source_new demo_rules (secs 10) 0) = Some s \<and> ss_next_attempt s = 3641 * 10 ^ 9"
    by (simp add: source_new_def source_ready_def source_failed_def source_wait_for_def source_succeeded_def source_answered_def
        source_backoff_def happened_def cleared_def repeated_new_def demo_rules_def dur_mul_def duration_max_def secs_def
        add_u32_def MAX_DOUBLINGS_def REMIND_EVERY_def elapsed_def Let_def)
  then obtain s where s: "asked_in_turn demo_rules ?qs (source_new demo_rules (secs 10) 0) = Some s" "ss_next_attempt s = 3641 * 10 ^ 9"
    by blast
  with polls_keep_the_interval [OF s(1)] show ?thesis by blast
qed

section \<open>What is reported of a source\<close>

definition counts_as_answer :: "rules \<Rightarrow> answer \<Rightarrow> bool" where
  "counts_as_answer R a = (case a of Answered_Well \<Rightarrow> True | Errored e \<Rightarrow> False | Refused_For d \<Rightarrow> refusal_is_an_answer R)"

text \<open>The errors since the last answer, the latest first.\<close>

definition errors_in_a_row :: "rules \<Rightarrow> (int \<times> answer) list \<Rightarrow> (int \<times> answer) list" where
  "errors_in_a_row R qs =
     filter (\<lambda>q. \<exists>e. snd q = Errored e) (takeWhile (\<lambda>q. \<not> counts_as_answer R (snd q)) (rev qs))"

lemma answered_reports:
  assumes "repeated_ok (ss_outage s)" and "rp_settle (ss_outage s) = 0"
  shows "ss_outage (snd (source_answered now s)) = repeated_new 0 \<or>
      rp_since (ss_outage s) = None \<and> ss_outage (snd (source_answered now s)) = ss_outage s"
    and "ss_failures (snd (source_answered now s)) = 0" "ss_connected (snd (source_answered now s))"
    and "ss_ever_connected (snd (source_answered now s))" "ss_last_error (snd (source_answered now s)) = None"
  using assms by (auto simp: source_answered_def cleared_def repeated_ok_def Let_def split_beta split: option.splits run_report.splits)

lemma source_reports:
  "repeated_ok (ss_outage s) \<and> rp_settle (ss_outage s) = 0 \<and> (rp_since (ss_outage s) = None \<longleftrightarrow> errors_in_a_row R qs = []) \<and>
   ss_failures s = min (2 ^ 32 - 1) (length (errors_in_a_row R qs)) \<and>
   (ss_ever_connected s \<longleftrightarrow> list_ex (counts_as_answer R \<circ> snd) qs) \<and>
   (ss_connected s \<longleftrightarrow> ss_ever_connected s \<and> errors_in_a_row R qs = []) \<and>
   (ss_last_error s = None \<longleftrightarrow> errors_in_a_row R qs = []) \<and>
   (errors_in_a_row R qs \<noteq> [] \<longrightarrow> ss_since s = fst (last (errors_in_a_row R qs))) \<and>
   (errors_in_a_row R qs = [] \<longrightarrow> \<not> list_ex (counts_as_answer R \<circ> snd) qs \<longrightarrow> ss_since s = t0)"
  if "s = fold (source_answer R) qs (source_new R interval t0)"
  using that
proof (induction qs arbitrary: s rule: rev_induct)
  case Nil
  then show ?case by (simp add: source_new_def repeated_new_def repeated_ok_def errors_in_a_row_def Let_def)
next
  case (snoc q qs)
  let ?s = "fold (source_answer R) qs (source_new R interval t0)"
  note IH = snoc.IH [OF refl]
  have s: "s = source_answer R q ?s" using snoc.prems by simp
  note A = answered_reports [of ?s "fst q"]
  have fresh: "repeated_ok (repeated_new 0)" "rp_settle (repeated_new 0) = 0" "rp_since (repeated_new 0) = None"
    by (simp_all add: repeated_ok_def repeated_new_def)
  show ?case
  proof (cases "counts_as_answer R (snd q)")
    case True
    then have none: "errors_in_a_row R (qs @ [q]) = []" by (simp add: errors_in_a_row_def)
    from True have "ss_outage s = ss_outage (snd (source_answered (fst q) ?s)) \<and>
        ss_failures s = ss_failures (snd (source_answered (fst q) ?s)) \<and>
        ss_connected s = ss_connected (snd (source_answered (fst q) ?s)) \<and>
        ss_ever_connected s = ss_ever_connected (snd (source_answered (fst q) ?s)) \<and>
        ss_last_error s = ss_last_error (snd (source_answered (fst q) ?s))"
      unfolding s by (cases "(R, q, ?s)" rule: source_answer.cases)
        (auto simp: source_succeeded_def source_wait_for_def counts_as_answer_def Let_def split_beta)
    with IH A none True fresh show ?thesis by auto
  next
    case False
    show ?thesis
    proof (cases "\<exists>e. snd q = Errored e")
      case True
      then have row: "errors_in_a_row R (qs @ [q]) = q # errors_in_a_row R qs"
        using False by (simp add: errors_in_a_row_def)
      from True obtain now e where q: "q = (now, Errored e)" by (cases q) auto
      obtain r o' where h: "happened now (ss_outage ?s) = (r, o')" by force
      have "repeated_ok o' \<and> rp_settle o' = rp_settle (ss_outage ?s) \<and> rp_since o' \<noteq> None \<and> (r = Run_First \<longleftrightarrow> rp_since (ss_outage ?s) = None)"
        using h IH by (auto simp: happened_def repeated_ok_def Let_def split: if_splits)
      moreover have "add_u32 (min (2 ^ 32 - 1) n) = min (2 ^ 32 - 1) (Suc n)" for n
        by (simp add: add_u32_def min_def)
      ultimately show ?thesis
        using IH h unfolding s row by (simp add: q source_failed_fields counts_as_answer_def)
    next
      case other: False
      with False obtain now d where q: "q = (now, Refused_For d)" "\<not> refusal_is_an_answer R"
        by (cases q; cases "snd q") (auto simp: counts_as_answer_def)
      then have row: "errors_in_a_row R (qs @ [q]) = errors_in_a_row R qs"
        by (simp add: errors_in_a_row_def counts_as_answer_def)
      from IH q(2) show ?thesis
        unfolding s row by (auto simp: q source_wait_for_def counts_as_answer_def Let_def split_beta)
    qed
  qed
qed

text \<open>Whatever the history of a feed's upstream, what is reported of it is what happened: it is down exactly
  while its latest requests failed with no answer since, for as many attempts as that and since the first
  of them, and it is up exactly when it has answered and nothing failed since; whether being refused is an
  answer is the plugin's rule.\<close>

theorem source_tells_the_truth:
  "let s = fold (source_answer R) qs (source_new R interval t0); row = errors_in_a_row R qs
   in in_outage s = (row \<noteq> []) \<and> ss_failures s = min (2 ^ 32 - 1) (length row) \<and>
     reconnecting_for now s =
       (if row \<noteq> [] then Some (now - fst (last row))
        else if list_ex (counts_as_answer R \<circ> snd) qs then None else Some (now - t0))"
  using source_reports [OF refl, of R qs interval t0]
  by (auto simp: Let_def in_outage_def standing_def reconnecting_for_def)

end
