(* ===== verification/Keep_Alive.thy ===== *)
theory Keep_Alive
  imports Announce
begin

text \<open>
  When a client pings its server and when it gives the connection up
  (\<open>rustak-client/src/stream/keepalive.rs\<close>).  An \<open>Instant\<close> and a \<open>Duration\<close> are nanoseconds; a clock
  read is an argument; the timer is the instant it was last armed for.
\<close>

section \<open>Model\<close>

record keepalive =
  ka_idle :: nat
  ka_repeat :: nat
  ka_dead :: nat
  ka_outbound_idle :: nat

definition OUTBOUND_IDLE :: nat where
  "OUTBOUND_IDLE = secs 30"

definition KEEPALIVE_ATAK :: keepalive where
  "KEEPALIVE_ATAK = \<lparr>ka_idle = secs 15, ka_repeat = 4500 * 10 ^ 6, ka_dead = secs 25, ka_outbound_idle = 0\<rparr>"

definition KEEPALIVE_DEFAULT :: keepalive where
  "KEEPALIVE_DEFAULT = KEEPALIVE_ATAK\<lparr>ka_outbound_idle := OUTBOUND_IDLE\<rparr>"

definition KEEPALIVE_OFF :: keepalive where
  "KEEPALIVE_OFF = \<lparr>ka_idle = 0, ka_repeat = 0, ka_dead = 0, ka_outbound_idle = 0\<rparr>"

definition is_off :: "keepalive \<Rightarrow> bool" where
  "is_off k \<longleftrightarrow> ka_dead k = 0 \<and> ka_idle k = 0 \<and> ka_outbound_idle k = 0"

datatype tick = Tick_Quiet | Tick_Ping | Tick_Dead

record keepalive_state =
  ks_config :: keepalive
  ks_last_rx :: nat
  ks_next_ping :: nat
  ks_next_tx_ping :: "nat option"
  ks_timer :: nat

definition outbound_ping_at :: "nat \<Rightarrow> keepalive \<Rightarrow> nat option" where
  "outbound_ping_at now k = (if ka_outbound_idle k = 0 then None else Some (now + ka_outbound_idle k))"

definition keepalive_new :: "keepalive \<Rightarrow> nat \<Rightarrow> keepalive_state" where
  "keepalive_new k now =
     \<lparr>ks_config = k, ks_last_rx = now, ks_next_ping = now + ka_idle k, ks_next_tx_ping = outbound_ping_at now k,
      ks_timer = now + ka_idle k\<rparr>"

definition record_rx :: "nat \<Rightarrow> keepalive_state \<Rightarrow> keepalive_state" where
  "record_rx now s = s\<lparr>ks_last_rx := now, ks_next_ping := now + ka_idle (ks_config s)\<rparr>"

definition record_tx :: "nat \<Rightarrow> keepalive_state \<Rightarrow> keepalive_state" where
  "record_tx now s = s\<lparr>ks_next_tx_ping := outbound_ping_at now (ks_config s)\<rparr>"

definition rx_silence :: "nat \<Rightarrow> keepalive_state \<Rightarrow> nat" where
  "rx_silence now s = now - ks_last_rx s"

text \<open>The earliest of the deadlines there are.\<close>

definition earliest :: "nat option list \<Rightarrow> nat option" where
  "earliest ds = (case List.map_filter (\<lambda>d. d) ds of [] \<Rightarrow> None | t # ts \<Rightarrow> Some (Min (set (t # ts))))"

definition dead_at :: "keepalive_state \<Rightarrow> nat option" where
  "dead_at s = (if ka_dead (ks_config s) = 0 then None else Some (ks_last_rx s + ka_dead (ks_config s)))"

definition idle_ping_at :: "keepalive_state \<Rightarrow> nat option" where
  "idle_ping_at s = (if ka_idle (ks_config s) = 0 then None else Some (ks_next_ping s))"

definition passed :: "nat \<Rightarrow> nat option \<Rightarrow> bool" where
  "passed now deadline = (case deadline of Some at \<Rightarrow> at \<le> now | None \<Rightarrow> False)"

definition keepalive_poll :: "bool \<Rightarrow> nat \<Rightarrow> keepalive_state \<Rightarrow> tick \<times> keepalive_state" where
  "keepalive_poll muted now s =
     (let k = ks_config s
      in if is_off k then (Tick_Quiet, s)
         else if passed now (dead_at s) then (Tick_Dead, s)
         else if \<not> muted \<and> passed now (idle_ping_at s) then (Tick_Ping, s\<lparr>ks_next_ping := now + ka_repeat k\<rparr>)
         else if \<not> muted \<and> passed now (ks_next_tx_ping s) then
           (Tick_Ping, s\<lparr>ks_next_tx_ping := Some (now + ka_repeat k)\<rparr>)
         else
           let wake_at = (if muted then dead_at s else earliest [dead_at s, idle_ping_at s, ks_next_tx_ping s])
           in (Tick_Quiet, (case wake_at of Some at \<Rightarrow> s\<lparr>ks_timer := at\<rparr> | None \<Rightarrow> s)))"

section \<open>The timer\<close>

definition keepalive_ok :: "keepalive_state \<Rightarrow> bool" where
  "keepalive_ok s \<longleftrightarrow> (ka_outbound_idle (ks_config s) = 0 \<longleftrightarrow> ks_next_tx_ping s = None)"

definition timer_set :: "nat \<Rightarrow> keepalive_state \<Rightarrow> keepalive_state" where
  "timer_set t s = s\<lparr>ks_timer := t\<rparr>"

lemma timer_set_simps [simp]:
  "ks_config (timer_set t s) = ks_config s" "ks_last_rx (timer_set t s) = ks_last_rx s"
  "ks_next_ping (timer_set t s) = ks_next_ping s" "ks_next_tx_ping (timer_set t s) = ks_next_tx_ping s"
  "ks_timer (timer_set t s) = t" "dead_at (timer_set t s) = dead_at s" "idle_ping_at (timer_set t s) = idle_ping_at s"
  by (simp_all add: timer_set_def dead_at_def idle_ping_at_def)

lemma passed_simps [simp]: "\<not> passed t None" "passed t (Some at) \<longleftrightarrow> at \<le> t"
  by (simp_all add: passed_def)

lemma earliest_passed: "passed t (earliest [a, b, c]) \<longleftrightarrow> passed t a \<or> passed t b \<or> passed t c"
  by (cases a; cases b; cases c) (auto simp: earliest_def List.map_filter_def min_le_iff_disj)

lemma earliest_None: "earliest [a, b, c] = None \<longleftrightarrow> a = None \<and> b = None \<and> c = None"
  by (cases a; cases b; cases c) (auto simp: earliest_def List.map_filter_def)

text \<open>What a poll answers, and what is left of the state.\<close>

lemma poll_tick:
  "\<not> is_off (ks_config s) \<Longrightarrow> fst (keepalive_poll muted now s) =
     (if passed now (dead_at s) then Tick_Dead
      else if \<not> muted \<and> (passed now (idle_ping_at s) \<or> passed now (ks_next_tx_ping s)) then Tick_Ping else Tick_Quiet)"
  by (simp add: keepalive_poll_def Let_def)

lemma poll_keeps [simp]:
  "ks_config (snd (keepalive_poll muted now s)) = ks_config s"
  "ks_last_rx (snd (keepalive_poll muted now s)) = ks_last_rx s"
  by (simp_all add: keepalive_poll_def Let_def split: option.split)

lemma poll_quiet_state:
  "\<not> is_off (ks_config s) \<Longrightarrow> fst (keepalive_poll muted now s) = Tick_Quiet \<Longrightarrow>
   snd (keepalive_poll muted now s) =
     (case (if muted then dead_at s else earliest [dead_at s, idle_ping_at s, ks_next_tx_ping s]) of
        Some at \<Rightarrow> timer_set at s | None \<Rightarrow> s)"
  by (cases muted) (simp_all add: keepalive_poll_def timer_set_def Let_def split: if_splits option.split)

text \<open>C15: A poll that finds nothing to do arms the timer exactly: it fires at the first instant a ping is due or the
  connection counts as dead and not before, whichever rules are on; only a muted connection without a
  death clock is left to its socket.\<close>

theorem timer_is_armed_exactly:
  assumes "keepalive_ok s" and "\<not> is_off (ks_config s)" and "keepalive_poll muted now s = (Tick_Quiet, s')"
    and "\<not> muted \<or> ka_dead (ks_config s) \<noteq> 0"
  shows "now < ks_timer s' \<and> (\<forall>t. fst (keepalive_poll muted t s') \<noteq> Tick_Quiet \<longleftrightarrow> ks_timer s' \<le> t)"
proof -
  let ?wake = "if muted then dead_at s else earliest [dead_at s, idle_ping_at s, ks_next_tx_ping s]"
  have due: "fst (keepalive_poll muted t x) \<noteq> Tick_Quiet \<longleftrightarrow>
      passed t (if muted then dead_at x else earliest [dead_at x, idle_ping_at x, ks_next_tx_ping x])"
    if "\<not> is_off (ks_config x)" for t x
    using that by (simp add: poll_tick earliest_passed)
  have "dead_at s \<noteq> None \<or> idle_ping_at s \<noteq> None \<or> ks_next_tx_ping s \<noteq> None" "muted \<Longrightarrow> dead_at s \<noteq> None"
    using assms(1,2,4) by (auto simp: keepalive_ok_def is_off_def dead_at_def idle_ping_at_def)
  then have "?wake \<noteq> None" using earliest_None by metis
  then obtain at where at: "?wake = Some at" by blast
  with assms(2,3) poll_quiet_state [of s muted now] have s': "s' = timer_set at s" by simp
  from due [OF assms(2), of now] at assms(3) have "now < at" by simp
  moreover have "fst (keepalive_poll muted t s') \<noteq> Tick_Quiet \<longleftrightarrow> at \<le> t" for t
    using due [of s' t] assms(2) at unfolding s' timer_set_simps by simp
  ultimately show ?thesis by (simp add: s')
qed

lemma timer_is_armed_exactly_witness:
  "\<exists>s'. keepalive_poll False (secs 5) (keepalive_new KEEPALIVE_DEFAULT 0) = (Tick_Quiet, s') \<and> secs 5 < ks_timer s' \<and>
     ks_timer s' = secs 15"
proof -
  let ?s = "keepalive_new KEEPALIVE_DEFAULT 0"
  have ok: "keepalive_ok ?s" "\<not> is_off (ks_config ?s)"
    by (simp_all add: keepalive_ok_def keepalive_new_def outbound_ping_at_def KEEPALIVE_DEFAULT_def OUTBOUND_IDLE_def
        is_off_def KEEPALIVE_ATAK_def secs_def)
  have "\<exists>s'. keepalive_poll False (secs 5) ?s = (Tick_Quiet, s') \<and> ks_timer s' = secs 15"
    by (simp add: Let_def keepalive_poll_def keepalive_new_def outbound_ping_at_def KEEPALIVE_DEFAULT_def OUTBOUND_IDLE_def
        is_off_def KEEPALIVE_ATAK_def secs_def passed_def dead_at_def idle_ping_at_def earliest_def List.map_filter_def)
  then obtain s' where s': "keepalive_poll False (secs 5) ?s = (Tick_Quiet, s')" "ks_timer s' = secs 15" by blast
  with timer_is_armed_exactly [OF ok] show ?thesis by blast
qed

section \<open>A connection is given up for silence and nothing else\<close>

text \<open>What happens to the clocks: something received, something written, a poll.\<close>

datatype keep_event = Rx nat | Tx nat | Polled bool nat

fun keep_step :: "keep_event \<Rightarrow> keepalive_state \<Rightarrow> keepalive_state" where
  "keep_step (Rx t) s = record_rx t s"
| "keep_step (Tx t) s = record_tx t s"
| "keep_step (Polled muted t) s = snd (keepalive_poll muted t s)"

definition last_received :: "nat \<Rightarrow> keep_event list \<Rightarrow> nat" where
  "last_received t0 es = fold (\<lambda>e at. case e of Rx t \<Rightarrow> t | _ \<Rightarrow> at) es t0"

lemma keep_clock:
  "ks_config (fold keep_step es s) = ks_config s \<and> ks_last_rx (fold keep_step es s) = last_received (ks_last_rx s) es"
proof (induction es arbitrary: s)
  case (Cons e es)
  then show ?case by (cases e) (simp_all add: last_received_def record_rx_def record_tx_def)
qed (simp add: last_received_def)

lemma given_up_for_silence:
  "fst (keepalive_poll muted now (fold keep_step es (keepalive_new k t0))) = Tick_Dead \<longleftrightarrow>
     ka_dead k \<noteq> 0 \<and> last_received t0 es + ka_dead k \<le> now"
proof (cases "is_off k")
  case True
  then show ?thesis
    using keep_clock [of es "keepalive_new k t0"] by (simp add: keepalive_poll_def keepalive_new_def is_off_def)
next
  case False
  then show ?thesis
    using keep_clock [of es "keepalive_new k t0"]
    by (simp add: poll_tick dead_at_def passed_def keepalive_new_def)
qed

end
