(* ===== verification/Client_Stream.thy ===== *)
theory Client_Stream
  imports Connection Keep_Alive
begin

text \<open>
  A client's end of a stream (\<open>rustak-client/src/stream/connection.rs\<close>): the offer of protobuf, the
  keepalive, what is held back while the encoding is undecided, and the events in both directions.  What
  one turn of \<open>poll_event\<close> meets is an argument: the clocks, how each wait on the transport ended and how
  much it took, and what has arrived.  The reads of the clock within one turn are one instant.
\<close>

section \<open>Model\<close>

text \<open>How one wait on the transport ended, and the bytes it took meanwhile.\<close>

datatype ('x, 'd) io_poll = Io_Ready nat | Io_Pending nat | Io_Error nat "(any_error, 'x, 'd) codec_error"

datatype ('x, 'd) stream_error =
    Stream_Endpoint ustr
  | Stream_Identity ustr
  | Stream_Io any_error
  | Stream_Codec "(any_error, 'x, 'd) codec_error"
  | Rx_Timeout
  | Stream_Timeout ustr
  | Stream_Unexpected ustr

fun stream_error_of :: "(any_error, 'x, 'd) codec_error \<Rightarrow> ('x, 'd) stream_error" where
  "stream_error_of (Io io) = Stream_Io io"
| "stream_error_of other = Stream_Codec other"

record stream_config =
  sc_uid :: ustr
  sc_negotiate :: bool
  sc_keepalive :: keepalive
  sc_pass_control :: bool

text \<open>\<open>Framed\<close> is one codec between a read and a write buffer; what the transport still holds for us is
  \<open>ts_arriving\<close>.\<close>

record tak_stream =
  ts_sink :: sink
  ts_rbuf :: bytes
  ts_arriving :: "bytes list"
  ts_neg :: client_neg
  ts_neg_timer :: "nat option"
  ts_keepalive :: keepalive_state
  ts_pending :: "event list"
  ts_outbox :: "event list"
  ts_inbox :: "event list"
  ts_uid :: ustr
  ts_pass_control :: bool
  ts_dropped_parse :: nat
  ts_done :: bool

definition stream_new :: "stream_config \<Rightarrow> nat \<Rightarrow> tak_stream" where
  "stream_new cfg now =
     \<lparr>ts_sink = \<lparr>sk_codec = codec_new Mode_Xml, sk_buffer = [], sk_socket = []\<rparr>, ts_rbuf = [], ts_arriving = [],
      ts_neg = client_neg_new (sc_negotiate cfg), ts_neg_timer = None, ts_keepalive = keepalive_new (sc_keepalive cfg) now,
      ts_pending = [], ts_outbox = [], ts_inbox = [], ts_uid = sc_uid cfg, ts_pass_control = sc_pass_control cfg,
      ts_dropped_parse = 0, ts_done = False\<rparr>"

definition stream_mode :: "tak_stream \<Rightarrow> mode" where
  "stream_mode s = cx_mode (sk_codec (ts_sink s))"

definition stream_dropped :: "tak_stream \<Rightarrow> nat" where
  "stream_dropped s = sat_add_u64 (ts_dropped_parse s) (dropped (sk_codec (ts_sink s)))"

definition queued_events :: "tak_stream \<Rightarrow> nat" where
  "queued_events s = length (ts_pending s) + length (ts_outbox s)"

definition stream_emit :: "event \<Rightarrow> tak_stream \<Rightarrow> tak_stream" where
  "stream_emit e s = s\<lparr>ts_outbox := ts_outbox s @ [e]\<rparr>"

definition stream_release :: "tak_stream \<Rightarrow> tak_stream" where
  "stream_release s = s\<lparr>ts_outbox := ts_outbox s @ ts_pending s, ts_pending := []\<rparr>"

definition stream_took :: "nat \<Rightarrow> tak_stream \<Rightarrow> tak_stream" where
  "stream_took n s = s\<lparr>ts_sink := sink_take n (ts_sink s)\<rparr>"

text \<open>Writing what the transport will take: \<open>space k\<close> is how the wait before the \<open>k\<close>-th event ended.\<close>

datatype ('x, 'd) write_end = Wrote | Would_Wait | Write_Failed "(any_error, 'x, 'd) codec_error"

definition outbox_flush :: "('x, 'd) io_poll \<Rightarrow> tak_stream \<Rightarrow> ('x, 'd) write_end \<times> tak_stream" where
  "outbox_flush r s =
     (case r of
        Io_Ready _ \<Rightarrow> (Wrote, stream_took (length (sk_buffer (ts_sink s))) s)
      | Io_Pending n \<Rightarrow> (Would_Wait, stream_took n s)
      | Io_Error n er \<Rightarrow> (Write_Failed er, stream_took n s))"

fun outbox_loop :: "('x, 'd) wire_lib \<Rightarrow> nat \<Rightarrow> (nat \<Rightarrow> ('x, 'd) io_poll) \<Rightarrow> ('x, 'd) io_poll \<Rightarrow> nat \<Rightarrow> event list \<Rightarrow>
    tak_stream \<Rightarrow> ('x, 'd) write_end \<times> tak_stream" where
  "outbox_loop W now space fl k [] s = outbox_flush fl s"
| "outbox_loop W now space fl k (e # es) s =
     (case space k of
        Io_Ready n \<Rightarrow>
          (let s = stream_took n s;
               s = s\<lparr>ts_outbox := es, ts_sink := sink_encode W e (ts_sink s), ts_keepalive := record_tx now (ts_keepalive s)\<rparr>
           in outbox_loop W now space fl (k + 1) es s)
      | Io_Pending n \<Rightarrow> (Would_Wait, stream_took n s)
      | Io_Error n er \<Rightarrow> (Write_Failed er, stream_took n s))"

definition poll_outbox :: "('x, 'd) wire_lib \<Rightarrow> nat \<Rightarrow> (nat \<Rightarrow> ('x, 'd) io_poll) \<Rightarrow> ('x, 'd) io_poll \<Rightarrow>
    tak_stream \<Rightarrow> ('x, 'd) write_end \<times> tak_stream" where
  "poll_outbox W now space fl s = outbox_loop W now space fl 0 (ts_outbox s) s"

definition stream_adopt :: "client_state \<Rightarrow> tak_stream \<Rightarrow> tak_stream" where
  "stream_adopt st s =
     (let s = (if st = Client_Proto then s\<lparr>ts_sink := (ts_sink s)\<lparr>sk_codec := set_mode Mode_Proto (sk_codec (ts_sink s))\<rparr>\<rparr> else s)
      in stream_release (s\<lparr>ts_neg_timer := None\<rparr>))"

text \<open>The minute an offer is good for (\<open>negotiate::VALIDITY\<close>).\<close>

definition NEG_WAIT :: nat where
  "NEG_WAIT = secs 60"

definition stream_control :: "cot_time \<Rightarrow> nat \<Rightarrow> event \<Rightarrow> tak_stream \<Rightarrow> bool \<times> tak_stream" where
  "stream_control clock now e s =
     (if ev_type e = TAKP_V then
        (case on_announce clock e clock (ts_neg s) of
           (Some r, n) \<Rightarrow> (True, stream_emit r (s\<lparr>ts_neg := n, ts_neg_timer := Some (now + NEG_WAIT)\<rparr>))
         | (None, n) \<Rightarrow> (True, s\<lparr>ts_neg := n\<rparr>))
      else if ev_type e = TAKP_R then
        (case on_response e (ts_neg s) of
           (Some st, n) \<Rightarrow> (True, stream_adopt st (s\<lparr>ts_neg := n\<rparr>))
         | (None, n) \<Rightarrow> (True, s\<lparr>ts_neg := n\<rparr>))
      else if ev_type e = TAKP_Q then (True, s)
      else (is_pong e, s))"

fun client_parse :: "('x, 'd) wire_lib \<Rightarrow> frame \<Rightarrow> event option" where
  "client_parse W (FXml bs) =
     (case xml_parse (wl_xml W) (wl_f64 W) (wl_clock W) bs of Inr e \<Rightarrow> Some e | Inl _ \<Rightarrow> None)"
| "client_parse W (FProto payload) =
     (case wl_decode W payload of
        Inl _ \<Rightarrow> None
      | Inr message \<Rightarrow> (case message_to_event (wl_xml W) (wl_f64 W) message of Inr e \<Rightarrow> Some e | Inl _ \<Rightarrow> None))"

text \<open>What one turn of the read path meets, and what it comes to.\<close>

record ('x, 'd) client_turn =
  ct_now :: nat
  ct_clock :: cot_time
  ct_room :: "nat \<Rightarrow> ('x, 'd) io_poll"
  ct_flush :: "('x, 'd) io_poll"
  ct_arrived :: "bytes list"
  ct_ending :: "('x, 'd) ending"
  ct_room_after :: "nat \<Rightarrow> ('x, 'd) io_poll"
  ct_flush_after :: "('x, 'd) io_poll"

datatype ('x, 'd) polled = Again | Poll_Pending | Got event | Failed_With "('x, 'd) stream_error" | Finished

definition stream_failed :: "('x, 'd) stream_error \<Rightarrow> tak_stream \<Rightarrow> ('x, 'd) polled \<times> tak_stream" where
  "stream_failed er s = (Failed_With er, s\<lparr>ts_done := True\<rparr>)"

definition turn_frame :: "('x, 'd) wire_lib \<Rightarrow> ('x, 'd) client_turn \<Rightarrow> frame \<Rightarrow> tak_stream \<Rightarrow> ('x, 'd) polled \<times> tak_stream" where
  "turn_frame W t f s =
     (let s = s\<lparr>ts_keepalive := record_rx (ct_now t) (ts_keepalive s)\<rparr>
      in case client_parse W f of
           None \<Rightarrow> (Again, s\<lparr>ts_dropped_parse := sat_add_u64 (ts_dropped_parse s) 1\<rparr>)
         | Some e \<Rightarrow>
             (case stream_control (ct_clock t) (ct_now t) e s of
                (consumed, s) \<Rightarrow> (if consumed \<and> \<not> ts_pass_control s then Again else Got e, s)))"

definition turn_read :: "('x, 'd) wire_lib \<Rightarrow> search_lib \<Rightarrow> ('x, 'd) client_turn \<Rightarrow> tak_stream \<Rightarrow>
    (('x, 'd) polled \<times> tak_stream) option" where
  "turn_read W S t s =
     (case framed_next S (ct_ending t) (sk_codec (ts_sink s)) (ts_rbuf s) (ts_arriving s) of
        None \<Rightarrow> None
      | Some (woke, c, buf, chunks) \<Rightarrow>
          let s = s\<lparr>ts_sink := (ts_sink s)\<lparr>sk_codec := c\<rparr>, ts_rbuf := buf, ts_arriving := chunks\<rparr>
          in Some (case woke of
               None \<Rightarrow> (Poll_Pending, s)
             | Some (Woke_Frame f) \<Rightarrow> turn_frame W t f s
             | Some (Woke_Error er) \<Rightarrow> stream_failed (stream_error_of er) s
             | Some _ \<Rightarrow> (Finished, s\<lparr>ts_done := True\<rparr>)))"

text \<open>Everything a turn does up to the event it hands on.\<close>

definition turn_body :: "('x, 'd) wire_lib \<Rightarrow> search_lib \<Rightarrow> ('x, 'd) client_turn \<Rightarrow> tak_stream \<Rightarrow>
    (('x, 'd) polled \<times> tak_stream) option" where
  "turn_body W S t s =
     (case poll_outbox W (ct_now t) (ct_room t) (ct_flush t) (s\<lparr>ts_arriving := ts_arriving s @ ct_arrived t\<rparr>) of
        (Write_Failed er, s) \<Rightarrow> Some (stream_failed (stream_error_of er) s)
      | (_, s) \<Rightarrow>
          if passed (ct_now t) (ts_neg_timer s) then
            (let (st, n) = client_expire (ts_neg s) in Some (Again, stream_adopt st (s\<lparr>ts_neg := n\<rparr>)))
          else
            (case keepalive_poll (is_quiet (cn_state (ts_neg s))) (ct_now t) (ts_keepalive s) of
               (Tick_Dead, ka) \<Rightarrow> Some (stream_failed Rx_Timeout (s\<lparr>ts_keepalive := ka\<rparr>))
             | (Tick_Ping, ka) \<Rightarrow>
                 Some (Again, stream_emit (ping (ct_clock t) (ts_uid s) (ct_clock t)) (s\<lparr>ts_keepalive := ka\<rparr>))
             | (Tick_Quiet, ka) \<Rightarrow> turn_read W S t (s\<lparr>ts_keepalive := ka\<rparr>)))"

definition poll_turn :: "('x, 'd) wire_lib \<Rightarrow> search_lib \<Rightarrow> ('x, 'd) client_turn \<Rightarrow> tak_stream \<Rightarrow>
    (('x, 'd) polled \<times> tak_stream) option" where
  "poll_turn W S t s =
     (case turn_body W S t s of
        None \<Rightarrow> None
      | Some (Got e, s) \<Rightarrow>
          if ts_outbox s = [] then Some (Got e, s)
          else (case poll_outbox W (ct_now t) (ct_room_after t) (ct_flush_after t) s of
                  (Write_Failed er, s) \<Rightarrow> Some (stream_failed (stream_error_of er) s)
                | (_, s) \<Rightarrow> Some (Got e, s))
      | Some r \<Rightarrow> Some r)"

text \<open>The loop, over the turns it is given; None when they do not suffice.\<close>

fun poll_event :: "('x, 'd) wire_lib \<Rightarrow> search_lib \<Rightarrow> ('x, 'd) client_turn list \<Rightarrow> tak_stream \<Rightarrow>
    (('x, 'd) polled \<times> tak_stream) option" where
  "poll_event W S [] s = (if ts_done s then Some (Finished, s) else None)"
| "poll_event W S (t # ts) s =
     (if ts_done s then Some (Finished, s)
      else case poll_turn W S t s of
             None \<Rightarrow> None
           | Some (Again, s) \<Rightarrow> poll_event W S ts s
           | Some r \<Rightarrow> Some r)"

definition poll_next :: "('x, 'd) wire_lib \<Rightarrow> search_lib \<Rightarrow> ('x, 'd) client_turn list \<Rightarrow> tak_stream \<Rightarrow>
    (('x, 'd) polled \<times> tak_stream) option" where
  "poll_next W S ts s =
     (case ts_inbox s of
        e # es \<Rightarrow> Some (Got e, s\<lparr>ts_inbox := es\<rparr>)
      | [] \<Rightarrow> poll_event W S ts s)"

text \<open>The sink a caller sends through.\<close>

definition start_send :: "event \<Rightarrow> tak_stream \<Rightarrow> tak_stream" where
  "start_send e s =
     (if is_quiet (cn_state (ts_neg s)) then s\<lparr>ts_pending := ts_pending s @ [e]\<rparr>
      else s\<lparr>ts_outbox := ts_outbox s @ [e]\<rparr>)"

definition stream_close :: "('x, 'd) wire_lib \<Rightarrow> nat \<Rightarrow> (nat \<Rightarrow> ('x, 'd) io_poll) \<Rightarrow> ('x, 'd) io_poll \<Rightarrow> ('x, 'd) io_poll \<Rightarrow>
    tak_stream \<Rightarrow> ('x, 'd) write_end \<times> tak_stream" where
  "stream_close W now space fl last_flush s =
     (case poll_outbox W now space fl s of
        (Wrote, s) \<Rightarrow> outbox_flush last_flush (s\<lparr>ts_done := True\<rparr>)
      | r \<Rightarrow> r)"

text \<open>
  \<open>settle\<close>: as long as something is queued, wait for an event and stash it.  A wait is the polls it
  takes; one that ends without being ready has run out of its budget.
\<close>

fun settle_wait :: "('x, 'd) wire_lib \<Rightarrow> search_lib \<Rightarrow> ('x, 'd) client_turn list list \<Rightarrow> tak_stream \<Rightarrow>
    (('x, 'd) polled \<times> tak_stream) option" where
  "settle_wait W S [] s = Some (Poll_Pending, s)"
| "settle_wait W S (ts # polls) s =
     (case poll_event W S ts s of
        None \<Rightarrow> None
      | Some (Poll_Pending, s) \<Rightarrow> settle_wait W S polls s
      | Some r \<Rightarrow> Some r)"

fun settle :: "('x, 'd) wire_lib \<Rightarrow> search_lib \<Rightarrow> ('x, 'd) client_turn list list list \<Rightarrow> tak_stream \<Rightarrow>
    (('x, 'd) stream_error option \<times> tak_stream) option" where
  "settle W S [] s = (if queued_events s = 0 then Some (None, s) else None)"
| "settle W S (wait # waits) s =
     (if queued_events s = 0 then Some (None, s)
      else case settle_wait W S wait s of
             None \<Rightarrow> None
           | Some (Got e, s) \<Rightarrow> settle W S waits (s\<lparr>ts_inbox := ts_inbox s @ [e]\<rparr>)
           | Some (Failed_With er, s) \<Rightarrow> Some (Some er, s)
           | Some (_, s) \<Rightarrow> Some (None, s))"

end
