(* ===== verification/Client_Props.thy ===== *)
theory Client_Props
  imports Client_Stream
begin

text \<open>
  What a client's stream writes, over every order of sends, writes and reads: nothing lost, nothing out of
  order, and one encoding at a time.
\<close>

section \<open>Runs\<close>

text \<open>
  An acceptance that comes once the request is out: what is queued when it arrives is what it lets go.  The
  code takes an acceptance at any time while it waits for one, also before the request has left the
  queue; a server that answers what it has read sends none that early.
\<close>

definition answered_late :: "tak_stream \<Rightarrow> tak_stream \<Rightarrow> bool" where
  "answered_late s s' \<longleftrightarrow>
     (cn_state (ts_neg s) = Requested \<and> cn_state (ts_neg s') = Client_Proto \<longrightarrow> ts_outbox s' = ts_pending s)"

text \<open>The events a write gets as far as encoding.\<close>

fun outbox_taken :: "(nat \<Rightarrow> ('x, 'd) io_poll) \<Rightarrow> nat \<Rightarrow> event list \<Rightarrow> event list" where
  "outbox_taken space k [] = []"
| "outbox_taken space k (e # es) = (case space k of Io_Ready n \<Rightarrow> e # outbox_taken space (k + 1) es | _ \<Rightarrow> [])"

definition logged :: "(nat \<Rightarrow> ('x, 'd) io_poll) \<Rightarrow> tak_stream \<Rightarrow> (mode \<times> event) list" where
  "logged space s = map (Pair (stream_mode s)) (outbox_taken space 0 (ts_outbox s))"

text \<open>
  A run gives what the caller has handed over and the log of what was written, each event in the encoding
  it was written in; its flag says whether every acceptance came once the request was out.
\<close>

inductive client_run :: "('x, 'd) wire_lib \<Rightarrow> search_lib \<Rightarrow> stream_config \<Rightarrow> bool \<Rightarrow> event list \<Rightarrow> (mode \<times> event) list \<Rightarrow>
    tak_stream \<Rightarrow> bool"
  for W :: "('x, 'd) wire_lib" and S :: search_lib and cfg :: stream_config where
  started: "client_run W S cfg True [] [] (stream_new cfg t0)"
| sent: "client_run W S cfg late es lg s \<Longrightarrow> client_run W S cfg late (es @ [e]) lg (start_send e s)"
| written: "client_run W S cfg late es lg s \<Longrightarrow> poll_outbox W now space fl s = (r, s') \<Longrightarrow>
    client_run W S cfg late es (lg @ logged space s) s'"
| turned: "client_run W S cfg late es lg s \<Longrightarrow> \<not> ts_done s \<Longrightarrow> turn_body W S t s = Some (r, s') \<Longrightarrow>
    client_run W S cfg (late \<and> answered_late s s') es (lg @ logged (ct_room t) s) s'"
| closed: "client_run W S cfg late es lg s \<Longrightarrow> stream_close W now space fl fl' s = (r, s') \<Longrightarrow>
    client_run W S cfg late es (lg @ logged space s) s'"
| stashed: "client_run W S cfg late es lg s \<Longrightarrow> client_run W S cfg late es lg (s\<lparr>ts_inbox := q\<rparr>)"

section \<open>What a stream has written and owes\<close>

definition is_request :: "event \<Rightarrow> bool" where
  "is_request e \<longleftrightarrow> (\<exists>clock uid. e = request clock uid PROTO_VERSION clock)"

definition is_own :: "event \<Rightarrow> bool" where
  "is_own e \<longleftrightarrow> is_request e \<or> (\<exists>clock uid. e = ping clock uid clock)"

definition sent_bytes :: "('x, 'd) wire_lib \<Rightarrow> (mode \<times> event) list \<Rightarrow> bytes" where
  "sent_bytes W lg = concat (map (\<lambda>(m, e). frame_bytes W m e) lg)"

text \<open>
  An event is marked with whether the caller gave it or the stream made it.  \<open>xs\<close> went out as XML, \<open>ps\<close> as
  protobuf, \<open>ob\<close> is queued.
\<close>

definition from_caller :: "(bool \<times> event) list \<Rightarrow> event list" where
  "from_caller qs = map snd (filter fst qs)"

abbreviation client_at :: "tak_stream \<Rightarrow> client_state" where
  "client_at s \<equiv> cn_state (ts_neg s)"

abbreviation stream_total :: "tak_stream \<Rightarrow> bytes" where
  "stream_total s \<equiv> sk_socket (ts_sink s) @ sk_buffer (ts_sink s)"

definition ends_in_request :: "(bool \<times> event) list \<Rightarrow> bool" where
  "ends_in_request qs \<longleftrightarrow> (\<exists>rest q. qs = rest @ [(False, q)] \<and> is_request q)"

definition as_log :: "mode \<Rightarrow> (bool \<times> event) list \<Rightarrow> (mode \<times> event) list" where
  "as_log m qs = map (\<lambda>q. (m, snd q)) qs"

definition client_inv :: "('x, 'd) wire_lib \<Rightarrow> bool \<Rightarrow> event list \<Rightarrow> (mode \<times> event) list \<Rightarrow> tak_stream \<Rightarrow>
    (bool \<times> event) list \<Rightarrow> (bool \<times> event) list \<Rightarrow> (bool \<times> event) list \<Rightarrow> bool" where
  "client_inv W late es lg s xs ps ob \<longleftrightarrow>
     stream_total s = sent_bytes W lg \<and> lg = as_log Mode_Xml xs @ as_log Mode_Proto ps \<and>
     map snd ob = ts_outbox s \<and> from_caller (xs @ ps @ ob) @ ts_pending s = es \<and>
     (\<forall>q \<in> set (xs @ ps @ ob). fst q \<or> is_own (snd q)) \<and>
     (stream_mode s = Mode_Xml \<longrightarrow> ps = []) \<and>
     (stream_mode s = Mode_Proto \<longleftrightarrow> client_at s = Client_Proto) \<and>
     (late \<longrightarrow> stream_mode s = Mode_Proto \<longrightarrow> ends_in_request xs) \<and>
     (client_at s = Requested \<longrightarrow> ends_in_request (xs @ ob)) \<and>
     (client_at s = Requested \<longleftrightarrow> ts_neg_timer s \<noteq> None) \<and>
     (ts_pending s \<noteq> [] \<longrightarrow> client_at s = Requested)"

lemma from_caller_simps [simp]:
  "from_caller [] = []" "from_caller (a @ b) = from_caller a @ from_caller b"
  "from_caller ((True, e) # qs) = e # from_caller qs" "from_caller ((False, e) # qs) = from_caller qs"
  "from_caller (map (Pair True) es) = es"
  by (simp_all add: from_caller_def comp_def filter_map)

lemma sent_bytes_simps [simp]:
  "sent_bytes W [] = []" "sent_bytes W (a @ b) = sent_bytes W a @ sent_bytes W b"
  "sent_bytes W ((m, e) # lg) = frame_bytes W m e @ sent_bytes W lg"
  by (simp_all add: sent_bytes_def)

lemma as_log_simps [simp]:
  "as_log m [] = []" "as_log m (a @ b) = as_log m a @ as_log m b" "as_log m (q # qs) = (m, snd q) # as_log m qs"
  "as_log m qs = [] \<longleftrightarrow> qs = []"
  by (simp_all add: as_log_def)

lemma ends_in_request_simps [simp]:
  "\<not> ends_in_request []" "ends_in_request (qs @ [q]) \<longleftrightarrow> \<not> fst q \<and> is_request (snd q)"
  by (cases q; auto simp: ends_in_request_def)+

text \<open>Steps that touch nothing of this.\<close>

definition same_sent :: "tak_stream \<Rightarrow> tak_stream \<Rightarrow> bool" where
  "same_sent s s' \<longleftrightarrow> stream_total s' = stream_total s \<and> stream_mode s' = stream_mode s \<and> ts_outbox s' = ts_outbox s \<and>
     ts_pending s' = ts_pending s \<and> client_at s' = client_at s \<and> ts_neg_timer s' = ts_neg_timer s"

lemma same_sent_inv: "client_inv W late es lg s xs ps ob \<Longrightarrow> same_sent s s' \<Longrightarrow> client_inv W late es lg s' xs ps ob"
  by (simp add: client_inv_def same_sent_def)

lemma inv_weaken: "client_inv W late es lg s xs ps ob \<Longrightarrow> client_inv W (late \<and> b) es lg s xs ps ob"
  by (auto simp: client_inv_def)

lemma inv_xml: "client_inv W late es lg s xs ps ob \<Longrightarrow> client_at s \<noteq> Client_Proto \<Longrightarrow> stream_mode s = Mode_Xml \<and> ps = []"
  by (cases "stream_mode s") (auto simp: client_inv_def)

lemma same_sent_trans: "same_sent a b \<Longrightarrow> same_sent b c \<Longrightarrow> same_sent a c"
  by (simp add: same_sent_def)

lemma took_same [simp]: "same_sent s (stream_took n s)"
  by (simp add: same_sent_def stream_took_def stream_mode_def)

text \<open>Writing.\<close>

lemma outbox_flush_same: "outbox_flush fl s = (r, s') \<Longrightarrow> same_sent s s'"
  by (auto simp: outbox_flush_def split: io_poll.splits)

lemma outbox_loop_inv:
  "outbox_loop W now space fl k es s = (r, s') \<Longrightarrow> ts_outbox s = es \<Longrightarrow> client_inv W late gs lg s xs ps ob \<Longrightarrow>
   (\<exists>xs' ps' ob'. client_inv W late gs (lg @ map (Pair (stream_mode s)) (outbox_taken space k es)) s' xs' ps' ob') \<and>
   ts_pending s' = ts_pending s \<and> ts_neg s' = ts_neg s \<and>
   ts_neg_timer s' = ts_neg_timer s \<and> stream_mode s' = stream_mode s"
proof (induction es arbitrary: k s lg xs ps ob)
  case Nil
  from Nil(1) have "same_sent s s' \<and> ts_neg s' = ts_neg s"
    by (auto simp: outbox_flush_def stream_took_def split: io_poll.splits intro: took_same [unfolded stream_took_def])
  with same_sent_inv [OF Nil(3)] show ?case by (auto simp: same_sent_def)
next
  case (Cons e es)
  show ?case
  proof (cases "space k")
    case (Io_Ready n)
    define s1 where "s1 = (stream_took n s)\<lparr>ts_outbox := es, ts_sink := sink_encode W e (ts_sink (stream_took n s)),
      ts_keepalive := record_tx now (ts_keepalive (stream_took n s))\<rparr>"
    have run: "outbox_loop W now space fl (k + 1) es s1 = (r, s')" using Cons.prems(1) Io_Ready by (simp add: s1_def Let_def)
    obtain q qs where ob: "ob = q # qs" "snd q = e" "map snd qs = es"
      using Cons.prems(2,3) by (auto simp: client_inv_def)
    have s1: "stream_total s1 = stream_total s @ frame_bytes W (stream_mode s) e" "stream_mode s1 = stream_mode s"
      "ts_outbox s1 = es" "ts_pending s1 = ts_pending s" "ts_neg s1 = ts_neg s" "ts_neg_timer s1 = ts_neg_timer s"
      by (simp_all add: s1_def stream_took_def stream_mode_def append_assoc [symmetric] del: append_assoc)
    have "client_inv W late gs (lg @ [(stream_mode s, e)]) s1 (if stream_mode s = Mode_Xml then xs @ [q] else xs)
        (if stream_mode s = Mode_Xml then ps else ps @ [q]) qs"
      using Cons.prems(3) s1 ob by (cases "stream_mode s") (auto simp: client_inv_def)
    from Cons.IH [OF run s1(3) this] s1 Io_Ready show ?thesis by simp
  next
    case (Io_Pending n)
    with Cons.prems same_sent_inv [OF Cons.prems(3) took_same] show ?thesis
      by (auto simp: stream_took_def stream_mode_def)
  next
    case (Io_Error n er)
    with Cons.prems same_sent_inv [OF Cons.prems(3) took_same] show ?thesis
      by (auto simp: stream_took_def stream_mode_def)
  qed
qed

lemma poll_outbox_inv:
  assumes "poll_outbox W now space fl s = (r, s')" and "client_inv W late gs lg s xs ps ob"
  shows "(\<exists>xs' ps' ob'. client_inv W late gs (lg @ logged space s) s' xs' ps' ob') \<and> ts_pending s' = ts_pending s \<and> ts_neg s' = ts_neg s \<and>
    ts_neg_timer s' = ts_neg_timer s \<and> stream_mode s' = stream_mode s"
  using outbox_loop_inv [OF assms(1) [unfolded poll_outbox_def] refl assms(2)] unfolding logged_def .

text \<open>Reading leaves the encoding alone.\<close>

lemma split_active_mode: "split_active S c src = (r, c', src') \<Longrightarrow> cx_mode c' = cx_mode c"
  by (auto simp: split_active_def split: mode.splits prod.splits)

lemma decode_mode_raw: "decode S c src = Some x \<Longrightarrow> cx_mode (fst (snd x)) = cx_mode c"
proof (rule decode.raw_induct [where P = "\<lambda>S c src x. cx_mode (fst (snd x)) = cx_mode c"])
  fix dec L c src x
  assume IH: "\<And>L c src x. dec L c src = Some x \<Longrightarrow> cx_mode (fst (snd x)) = cx_mode c"
    and x: "(case split_active L c src of
      (Inl (Oversized seen), c', src') \<Rightarrow> dec L (count_drop seen c') src'
    | (Inl BadVarint, c', src') \<Rightarrow> Some (Inl (FrameFailed BadVarint), c', src')
    | (Inr f, c', src') \<Rightarrow> Some (Inr f, c', src')) = Some x"
  obtain r c1 src1 where s: "split_active L c src = (r, c1, src1)" by (metis prod_cases3)
  show "cx_mode (fst (snd x)) = cx_mode c"
  proof (cases r)
    case (Inl e)
    then show ?thesis
      using x s split_active_mode [OF s] IH [of L "count_drop _ c1" src1 x] by (cases e) (auto simp: count_drop_def)
  next
    case (Inr f)
    then show ?thesis using x s split_active_mode [OF s] by auto
  qed
qed

lemma decode_mode: "decode S c src = Some (r, c', src') \<Longrightarrow> cx_mode c' = cx_mode c"
  using decode_mode_raw by fastforce

lemma decode_eof_mode: "decode_eof S c src = Some (r, c', src') \<Longrightarrow> cx_mode c' = cx_mode c"
  by (auto simp: decode_eof_def split: option.splits sum.splits dest: decode_mode)

lemma framed_next_mode: "framed_next S fin c buf chunks = Some (w, c', buf', chunks') \<Longrightarrow> cx_mode c' = cx_mode c"
proof (induction S fin c buf chunks rule: framed_next.induct)
  case (1 S fin c buf)
  then show ?case
    by (auto split: option.splits sum.splits ending.splits dest!: decode_mode decode_eof_mode)
next
  case (2 S fin c buf chunk chunks)
  then show ?case
    by (auto split: option.splits sum.splits dest!: decode_mode)
qed

section \<open>Every step keeps it\<close>

lemma adopt_sel:
  "ts_outbox (stream_adopt st s) = ts_outbox s @ ts_pending s" "ts_pending (stream_adopt st s) = []"
  "ts_neg (stream_adopt st s) = ts_neg s" "ts_neg_timer (stream_adopt st s) = None"
  "stream_total (stream_adopt st s) = stream_total s"
  "stream_mode (stream_adopt st s) = (if st = Client_Proto then Mode_Proto else stream_mode s)"
  by (simp_all add: stream_adopt_def stream_release_def stream_mode_def set_mode_def Let_def)

lemma adopt_inv:
  assumes "client_inv W late es lg s xs ps ob" and "client_at s = Requested" and "cn_state n = st" and "st \<noteq> Requested"
    and "late \<Longrightarrow> st = Client_Proto \<Longrightarrow> ts_outbox s = []"
  shows "client_inv W late es lg (stream_adopt st (s\<lparr>ts_neg := n\<rparr>)) xs ps (ob @ map (Pair True) (ts_pending s))"
proof -
  have m: "stream_mode s = Mode_Xml" "ps = []"
    using inv_xml [OF assms(1)] assms(2) by simp_all
  have "stream_mode (s\<lparr>ts_neg := n\<rparr>) = Mode_Xml" using m by (simp add: stream_mode_def)
  moreover have "late \<Longrightarrow> st = Client_Proto \<Longrightarrow> ob = []" using assms(1,5) by (auto simp: client_inv_def)
  ultimately show ?thesis
    using assms(1-4) m by (auto simp: client_inv_def adopt_sel comp_def)
qed

lemma emit_inv:
  "client_inv W late es lg s xs ps ob \<Longrightarrow> client_at s \<noteq> Requested \<Longrightarrow> is_own e \<Longrightarrow>
   client_inv W late es lg (stream_emit e s) xs ps (ob @ [(False, e)])"
  by (auto simp: client_inv_def stream_emit_def stream_mode_def)

lemma control_inv:
  assumes "client_inv W late es lg s xs ps ob" and "stream_control clock now e s = (b, s')"
    and "late \<Longrightarrow> answered_late s s'"
  shows "\<exists>xs' ps' ob'. client_inv W late es lg s' xs' ps' ob'"
proof (cases "ev_type e = TAKP_V")
  case True
  obtain r n where a: "on_announce clock e clock (ts_neg s) = (r, n)" by force
  show ?thesis
  proof (cases r)
    case None
    have "client_at s = Waiting \<and> cn_state n = Client_Xml \<or> cn_state n = client_at s"
      using a None by (auto simp: on_announce_def Let_def split: option.splits if_splits)
    then have "client_inv W late es lg (s\<lparr>ts_neg := n\<rparr>) xs ps ob"
      using assms(1) inv_xml [OF assms(1)] by (auto simp: client_inv_def stream_mode_def)
    with assms(2) True a None show ?thesis by (auto simp: stream_control_def)
  next
    case (Some q)
    have q: "client_at s = Waiting" "cn_state n = Requested" "q = request clock (ev_uid e) PROTO_VERSION clock"
      using a Some by (auto simp: on_announce_def Let_def split: option.splits if_splits)
    have own: "is_request q" using q(3) by (auto simp: is_request_def)
    have "stream_mode s = Mode_Xml" "ps = []" "ts_pending s = []" using inv_xml [OF assms(1)] assms(1) q(1) by (simp_all add: client_inv_def)
    with assms(1) q(1,2) own
    have "client_inv W late es lg (stream_emit q (s\<lparr>ts_neg := n, ts_neg_timer := Some (now + NEG_WAIT)\<rparr>)) xs ps (ob @ [(False, q)])"
      by (simp add: client_inv_def stream_emit_def stream_mode_def is_own_def flip: append_assoc)
    with assms(2) True a Some show ?thesis by (auto simp: stream_control_def)
  qed
next
  case False
  show ?thesis
  proof (cases "ev_type e = TAKP_R")
    case True
    obtain r n where a: "on_response e (ts_neg s) = (r, n)" by force
    show ?thesis
    proof (cases r)
      case None
      have "n = ts_neg s" using a None by (auto simp: on_response_def Let_def split: option.splits if_splits)
      with assms False True a None show ?thesis by (auto simp: stream_control_def)
    next
      case (Some st)
      have st: "client_at s = Requested" "cn_state n = st" "st \<noteq> Requested"
        using a Some by (auto simp: on_response_def Let_def split: option.splits if_splits)
      have s': "s' = stream_adopt st (s\<lparr>ts_neg := n\<rparr>)" using assms(2) False True a Some by (simp add: stream_control_def)
      have "late \<Longrightarrow> st = Client_Proto \<Longrightarrow> ts_outbox s = []"
        using assms(3) st by (simp add: answered_late_def s' adopt_sel)
      from adopt_inv [OF assms(1) st(1,2,3) this] show ?thesis by (auto simp: s')
    qed
  next
    case other: False
    with False assms(1,2) show ?thesis by (auto simp: stream_control_def split: if_splits)
  qed
qed

lemma turn_frame_inv:
  assumes "client_inv W late es lg s xs ps ob" and "turn_frame W t f s = (r, s')" and "late \<Longrightarrow> answered_late s s'"
  shows "\<exists>xs' ps' ob'. client_inv W late es lg s' xs' ps' ob'"
proof -
  let ?s = "s\<lparr>ts_keepalive := record_rx (ct_now t) (ts_keepalive s)\<rparr>"
  have same: "same_sent s ?s" "same_sent s (?s\<lparr>ts_dropped_parse := d\<rparr>)" for d
    by (simp_all add: same_sent_def stream_mode_def)
  show ?thesis
  proof (cases "client_parse W f")
    case None
    then show ?thesis
      using assms(2) same_sent_inv [OF assms(1) same(2)] by (auto simp: turn_frame_def Let_def)
  next
    case (Some e)
    obtain b s1 where c: "stream_control (ct_clock t) (ct_now t) e ?s = (b, s1)" by force
    with assms(2) Some have "s' = s1" by (simp add: turn_frame_def Let_def)
    with assms(3) have "late \<Longrightarrow> answered_late ?s s1" by (simp add: answered_late_def)
    from control_inv [OF same_sent_inv [OF assms(1) same(1)] c this] \<open>s' = s1\<close> show ?thesis by simp
  qed
qed

lemma turn_read_inv:
  assumes "client_inv W late es lg s xs ps ob" and "turn_read W S t s = Some (r, s')" and "late \<Longrightarrow> answered_late s s'"
  shows "\<exists>xs' ps' ob'. client_inv W late es lg s' xs' ps' ob'"
proof -
  obtain woke c buf chunks where f: "framed_next S (ct_ending t) (sk_codec (ts_sink s)) (ts_rbuf s) (ts_arriving s) =
      Some (woke, c, buf, chunks)"
    using assms(2) by (auto simp: turn_read_def split: option.splits)
  let ?s = "s\<lparr>ts_sink := (ts_sink s)\<lparr>sk_codec := c\<rparr>, ts_rbuf := buf, ts_arriving := chunks\<rparr>"
  have same: "same_sent s ?s" "same_sent s (?s\<lparr>ts_done := True\<rparr>)"
    using framed_next_mode [OF f] by (simp_all add: same_sent_def stream_mode_def)
  note inv = same_sent_inv [OF assms(1) same(1)] same_sent_inv [OF assms(1) same(2)]
  show ?thesis
  proof (cases "\<exists>g. woke = Some (Woke_Frame g)")
    case True
    then obtain g where g: "woke = Some (Woke_Frame g)" by blast
    have "turn_frame W t g ?s = (r, s')" using assms(2) f g by (simp add: turn_read_def Let_def)
    moreover have "late \<Longrightarrow> answered_late ?s s'" using assms(3) by (simp add: answered_late_def)
    ultimately show ?thesis by (rule turn_frame_inv [OF inv(1)])
  next
    case False
    then have "s' = ?s \<or> s' = ?s\<lparr>ts_done := True\<rparr>"
      using assms(2) f by (auto simp: turn_read_def stream_failed_def Let_def split: option.splits wake.splits)
    with inv show ?thesis by blast
  qed
qed

lemma turn_body_inv:
  assumes "client_inv W late es lg s xs ps ob" and "turn_body W S t s = Some (r, s')" and "late \<Longrightarrow> answered_late s s'"
  shows "\<exists>xs' ps' ob'. client_inv W late es (lg @ logged (ct_room t) s) s' xs' ps' ob'"
proof -
  let ?s = "s\<lparr>ts_arriving := ts_arriving s @ ct_arrived t\<rparr>"
  have "same_sent s ?s" by (simp add: same_sent_def stream_mode_def)
  note i0 = same_sent_inv [OF assms(1) this]
  have lg: "logged (ct_room t) ?s = logged (ct_room t) s" by (simp add: logged_def stream_mode_def)
  obtain w s1 where p: "poll_outbox W (ct_now t) (ct_room t) (ct_flush t) ?s = (w, s1)" by force
  from poll_outbox_inv [OF p i0, unfolded lg] obtain xs1 ps1 ob1 where i1: "client_inv W late es (lg @ logged (ct_room t) s) s1 xs1 ps1 ob1"
    and k1: "ts_pending s1 = ts_pending s" "ts_neg s1 = ts_neg s" by auto
  obtain tk ka where k: "keepalive_poll (is_quiet (client_at s1)) (ct_now t) (ts_keepalive s1) = (tk, ka)" by force
  let ?s2 = "s1\<lparr>ts_keepalive := ka\<rparr>"
  have same: "same_sent s1 (s1\<lparr>ts_done := True\<rparr>)" "same_sent s1 ?s2" "same_sent s1 (?s2\<lparr>ts_done := True\<rparr>)"
    by (simp_all add: same_sent_def stream_mode_def)
  note inv = same [THEN same_sent_inv [OF i1]]
  show ?thesis
  proof (cases "\<exists>er. w = Write_Failed er")
    case True
    then have "s' = s1\<lparr>ts_done := True\<rparr>" using assms(2) p by (auto simp: turn_body_def stream_failed_def)
    with inv(1) show ?thesis by blast
  next
    case went: False
    show ?thesis
    proof (cases "passed (ct_now t) (ts_neg_timer s1)")
      case True
      then have q: "client_at s1 = Requested" using i1 by (cases "ts_neg_timer s1") (auto simp: client_inv_def)
      have "s' = stream_adopt Client_Xml (s1\<lparr>ts_neg := (ts_neg s1)\<lparr>cn_state := Client_Xml\<rparr>\<rparr>)"
        using assms(2) p went True q by (cases w) (auto simp: turn_body_def client_expire_def Let_def)
      with adopt_inv [OF i1 q, of "(ts_neg s1)\<lparr>cn_state := Client_Xml\<rparr>" Client_Xml] show ?thesis by auto
    next
      case waits: False
      show ?thesis
      proof (cases tk)
        case Tick_Dead
        then have "s' = ?s2\<lparr>ts_done := True\<rparr>"
          using assms(2) p went waits k by (cases w) (auto simp: turn_body_def stream_failed_def)
        with inv(3) show ?thesis by blast
      next
        case Tick_Ping
        let ?p = "ping (ct_clock t) (ts_uid ?s2) (ct_clock t)"
        have s': "s' = stream_emit ?p ?s2" using assms(2) p went waits k Tick_Ping by (cases w) (auto simp: turn_body_def)
        have "client_at s1 \<noteq> Requested"
        proof
          assume "client_at s1 = Requested"
          then have "fst (keepalive_poll True (ct_now t) (ts_keepalive s1)) = Tick_Ping"
            using k Tick_Ping by (simp add: is_quiet_def)
          then show False by (simp add: keepalive_poll_def Let_def split: if_splits)
        qed
        then have "client_inv W late es (lg @ logged (ct_room t) s) s' xs1 ps1 (ob1 @ [(False, ?p)])"
          unfolding s' by (intro emit_inv [OF inv(2)]) (auto simp: is_own_def)
        then show ?thesis by blast
      next
        case Tick_Quiet
        then have "turn_read W S t ?s2 = Some (r, s')"
          using assms(2) p went waits k by (cases w) (auto simp: turn_body_def)
        moreover have "late \<Longrightarrow> answered_late ?s2 s'" using assms(3) k1 by (simp add: answered_late_def)
        ultimately show ?thesis by (rule turn_read_inv [OF inv(2)])
      qed
    qed
  qed
qed

lemma client_run_inv: "client_run W S cfg late es lg s \<Longrightarrow> \<exists>xs ps ob. client_inv W late es lg s xs ps ob"
proof (induction rule: client_run.induct)
  case (started t0)
  have "client_inv W True [] [] (stream_new cfg t0) [] [] []"
    by (simp add: client_inv_def stream_new_def stream_mode_def codec_new_def with_limit_def client_neg_new_def)
  then show ?case by blast
next
  case (sent late es lg s e)
  then obtain xs ps ob where i: "client_inv W late es lg s xs ps ob" by blast
  show ?case
  proof (cases "client_at s = Requested")
    case True
    with i have "client_inv W late (es @ [e]) lg (start_send e s) xs ps ob"
      by (auto simp: client_inv_def start_send_def is_quiet_def stream_mode_def)
    then show ?thesis by blast
  next
    case False
    with i have "client_inv W late (es @ [e]) lg (start_send e s) xs ps (ob @ [(True, e)])"
      by (auto simp: client_inv_def start_send_def is_quiet_def stream_mode_def)
    then show ?thesis by blast
  qed
next
  case (written late es lg s now space fl r s')
  then show ?case using poll_outbox_inv by blast
next
  case (turned late es lg s t r s')
  then obtain xs ps ob where "client_inv W late es lg s xs ps ob" by blast
  from turn_body_inv [OF inv_weaken [OF this, of "answered_late s s'"] turned(3)] show ?case by blast
next
  case (closed late es lg s now space fl fl' r s')
  then obtain xs ps ob where i: "client_inv W late es lg s xs ps ob" by blast
  obtain w s1 where p: "poll_outbox W now space fl s = (w, s1)" by force
  from poll_outbox_inv [OF p i] obtain xs1 ps1 ob1 where i1: "client_inv W late es (lg @ logged space s) s1 xs1 ps1 ob1" by blast
  have "same_sent s1 s'"
  proof (cases w)
    case Wrote
    then have f: "outbox_flush fl' (s1\<lparr>ts_done := True\<rparr>) = (r, s')" using closed p by (simp add: stream_close_def)
    have "same_sent s1 (s1\<lparr>ts_done := True\<rparr>)" by (simp add: same_sent_def stream_mode_def)
    with outbox_flush_same [OF f] show ?thesis by (rule same_sent_trans [rotated])
  qed (use closed p in \<open>auto simp: stream_close_def same_sent_def\<close>)
  with same_sent_inv [OF i1] show ?case by blast
next
  case (stashed late es lg s q)
  then obtain xs ps ob where "client_inv W late es lg s xs ps ob" by blast
  then have "client_inv W late es lg (s\<lparr>ts_inbox := q\<rparr>) xs ps ob" by (simp add: client_inv_def stream_mode_def)
  then show ?case by blast
qed

end
