(* ===== verification/Client_Reads.thy ===== *)
theory Client_Reads
  imports Conn_Props Client_Props
begin

text \<open>
  What arrives at a client is handed to its caller, in whatever pieces it comes.
\<close>

lemma client_parse_decode: "conn_decode W f m = (Some e, m') \<Longrightarrow> client_parse W f = Some e"
  by (cases f) (auto simp: unreadable_def split: sum.splits convert_error.splits)

section \<open>What arrives is handed on\<close>

text \<open>Why a turn may end a stream: a write failed, or nothing has come for as long as the dead clock allows.\<close>

definition write_failed :: "('x, 'd) client_turn \<Rightarrow> (any_error, 'x, 'd) codec_error \<Rightarrow> bool" where
  "write_failed t er \<longleftrightarrow> (\<exists>n. ct_flush t = Io_Error n er \<or> ct_flush_after t = Io_Error n er \<or>
     (\<exists>k. ct_room t k = Io_Error n er \<or> ct_room_after t k = Io_Error n er))"

definition may_fail :: "nat \<Rightarrow> nat list \<Rightarrow> ('x, 'd) client_turn \<Rightarrow> ('x, 'd) stream_error \<Rightarrow> bool" where
  "may_fail dead heard t er \<longleftrightarrow> (\<exists>ce. write_failed t ce \<and> er = stream_error_of ce) \<or>
     er = Rx_Timeout \<and> dead \<noteq> 0 \<and> (\<forall>h \<in> set heard. h + dead \<le> ct_now t)"

text \<open>An acceptance changes the encoding; up to there a server writes XML.\<close>

definition accepts :: "event \<Rightarrow> bool" where
  "accepts e \<longleftrightarrow> ev_type e = TAKP_R \<and> parse_response e = Some True"

abbreviation rx_at :: "tak_stream \<Rightarrow> nat" where
  "rx_at s \<equiv> ks_last_rx (ts_keepalive s)"

abbreviation dead_after :: "tak_stream \<Rightarrow> nat" where
  "dead_after s \<equiv> ka_dead (ks_config (ts_keepalive s))"

text \<open>The control messages a stream keeps to itself.\<close>

definition kept_back :: "event \<Rightarrow> bool" where
  "kept_back e \<longleftrightarrow> ev_type e = TAKP_V \<or> ev_type e = TAKP_R \<or> ev_type e = TAKP_Q \<or> is_pong e"

definition reading :: "search_lib \<Rightarrow> ('x, 'd) wire_lib \<Rightarrow> mode \<Rightarrow> tak_stream \<Rightarrow> bytes \<Rightarrow> event list \<Rightarrow> bool" where
  "reading S W md s future es \<longleftrightarrow>
     ahead S W md MAX_MESSAGE [] (sk_codec (ts_sink s)) (ts_rbuf s) (concat (ts_arriving s) @ future) es"

text \<open>What reading leaves alone when it does not read.\<close>

definition same_read :: "tak_stream \<Rightarrow> tak_stream \<Rightarrow> bool" where
  "same_read s s' \<longleftrightarrow> sk_codec (ts_sink s') = sk_codec (ts_sink s) \<and> ts_rbuf s' = ts_rbuf s \<and>
     ts_arriving s' = ts_arriving s \<and> ts_pass_control s' = ts_pass_control s \<and> ts_dropped_parse s' = ts_dropped_parse s \<and>
     ts_done s' = ts_done s \<and> ks_config (ts_keepalive s') = ks_config (ts_keepalive s) \<and> rx_at s' = rx_at s"

lemma same_read_trans: "same_read a b \<Longrightarrow> same_read b c \<Longrightarrow> same_read a c"
  by (simp add: same_read_def)

lemma outbox_loop_read: "outbox_loop W now space fl k es s = (r, s') \<Longrightarrow> same_read s s'"
proof (induction es arbitrary: k s)
  case Nil
  then show ?case by (auto simp: outbox_flush_def stream_took_def same_read_def split: io_poll.splits)
next
  case (Cons e es)
  show ?case
  proof (cases "space k")
    case (Io_Ready n)
    with Cons.IH Cons.prems show ?thesis
      by (fastforce simp: stream_took_def Let_def same_read_def record_tx_def)
  qed (use Cons.prems in \<open>auto simp: stream_took_def same_read_def\<close>)
qed

lemma poll_outbox_read: "poll_outbox W now space fl s = (r, s') \<Longrightarrow> same_read s s'"
  unfolding poll_outbox_def by (rule outbox_loop_read)

text \<open>A write fails only where the transport does.\<close>

lemma outbox_loop_fails:
  "outbox_loop W now space fl k es s = (Write_Failed er, s') \<Longrightarrow>
   (\<exists>n. fl = Io_Error n er) \<or> (\<exists>j n. space j = Io_Error n er)"
proof (induction es arbitrary: k s)
  case Nil
  then show ?case by (auto simp: outbox_flush_def split: io_poll.splits)
next
  case (Cons e es)
  then show ?case by (cases "space k") (auto simp: Let_def)
qed

lemma poll_outbox_fails:
  "poll_outbox W now space fl s = (Write_Failed er, s') \<Longrightarrow> (\<exists>n. fl = Io_Error n er) \<or> (\<exists>j n. space j = Io_Error n er)"
  unfolding poll_outbox_def by (rule outbox_loop_fails)

text \<open>No deadline is left once protobuf is agreed.\<close>

definition neg_tidy :: "tak_stream \<Rightarrow> bool" where
  "neg_tidy s \<longleftrightarrow> (client_at s = Client_Proto \<longrightarrow> ts_neg_timer s = None)"

lemma outbox_loop_neg: "outbox_loop W now space fl k es s = (r, s') \<Longrightarrow> ts_neg s' = ts_neg s \<and> ts_neg_timer s' = ts_neg_timer s"
proof (induction es arbitrary: k s)
  case Nil
  then show ?case by (auto simp: outbox_flush_def stream_took_def split: io_poll.splits)
next
  case (Cons e es)
  show ?case
  proof (cases "space k")
    case (Io_Ready n)
    with Cons.IH Cons.prems show ?thesis by (fastforce simp: stream_took_def Let_def)
  qed (use Cons.prems in \<open>auto simp: stream_took_def\<close>)
qed

lemma poll_outbox_neg:
  "poll_outbox W now space fl s = (r, s') \<Longrightarrow> ts_neg s' = ts_neg s \<and> ts_neg_timer s' = ts_neg_timer s"
  unfolding poll_outbox_def by (rule outbox_loop_neg)

lemma adopt_read: "st \<noteq> Client_Proto \<Longrightarrow> same_read s (stream_adopt st (s\<lparr>ts_neg := n\<rparr>))"
  by (simp add: same_read_def stream_adopt_def stream_release_def Let_def)

lemma adopt_tidy: "neg_tidy (stream_adopt st s)"
  by (simp add: neg_tidy_def adopt_sel)

lemma control_read:
  assumes "stream_control clock now e s = (b, s')" and "\<not> accepts e"
  shows "same_read s s' \<and> b = kept_back e \<and> (neg_tidy s \<longrightarrow> neg_tidy s')"
proof (cases "ev_type e = TAKP_R")
  case True
  obtain r n where a: "on_response e (ts_neg s) = (r, n)" by force
  show ?thesis
  proof (cases r)
    case None
    with a have "n = ts_neg s" by (auto simp: on_response_def Let_def split: option.splits if_splits)
    with a None True assms(1) show ?thesis by (auto simp: stream_control_def same_read_def kept_back_def neg_tidy_def)
  next
    case (Some st)
    with a assms(2) True have st: "st \<noteq> Client_Proto"
      by (auto simp: on_response_def accepts_def Let_def split: option.splits if_splits)
    have "b = True" "s' = stream_adopt st (s\<lparr>ts_neg := n\<rparr>)" using a Some True assms(1) by (simp_all add: stream_control_def)
    with adopt_read [OF st] adopt_tidy True show ?thesis by (simp add: kept_back_def)
  qed
next
  case False
  with assms(1) show ?thesis
    by (auto simp: stream_control_def same_read_def stream_emit_def kept_back_def neg_tidy_def on_announce_def Let_def
      split: prod.splits option.splits if_splits)
qed

text \<open>What a turn that does not fail comes to: the next message, something of the stream's own, or a wait.\<close>

definition read_on :: "search_lib \<Rightarrow> ('x, 'd) wire_lib \<Rightarrow> mode \<Rightarrow> bytes \<Rightarrow> event list \<Rightarrow> nat \<Rightarrow> tak_stream \<Rightarrow> ('x, 'd) polled \<Rightarrow>
    tak_stream \<Rightarrow> bool" where
  "read_on S W md future es now s r s' \<longleftrightarrow>
     ts_done s' = ts_done s \<and> neg_tidy s' \<and> ts_pass_control s' = ts_pass_control s \<and> ts_dropped_parse s' = ts_dropped_parse s \<and>
     ks_config (ts_keepalive s') = ks_config (ts_keepalive s) \<and>
     ((\<exists>e es'. es = e # es' \<and> r = (if kept_back e \<and> \<not> ts_pass_control s then Again else Got e) \<and>
         reading S W md s' future es' \<and> rx_at s' = now) \<or>
      r = Again \<and> reading S W md s' future es \<and> rx_at s' = rx_at s \<or>
      r = Poll_Pending \<and> reading S W md s' future es \<and> rx_at s' = rx_at s \<and> (future = [] \<longrightarrow> es = []))"

lemma read_on_start:
  assumes "same_read s s1" and "read_on S W md future es now s1 r s'"
  shows "read_on S W md future es now s r s'"
  using assms by (auto simp: read_on_def same_read_def)

lemma read_on_end:
  assumes "same_read s1 s'" and "neg_tidy s'" and "read_on S W md future es now s r s1"
  shows "read_on S W md future es now s r s'"
  using assms unfolding read_on_def same_read_def reading_def by auto

lemma turn_read_ahead:
  fixes W :: "('x, 'd) wire_lib" and t :: "('x, 'd) client_turn"
  assumes "search_ok S" and "ct_ending t = Still_Open" and "reading S W md s future es"
    and "list_all (\<lambda>e. \<not> accepts e) es" and "neg_tidy s"
  shows "\<exists>r s'. turn_read W S t s = Some (r, s') \<and> read_on S W md future es (ct_now t) s r s'"
  using framed_next_ahead [OF assms(1) assms(3) [unfolded reading_def] disjI2 [OF refl]]
proof (elim disjE exE conjE)
  fix f e es' c1 buf1 chunks1
  assume es: "es = e # es'" and f: "\<forall>m. conn_decode W f m = (Some e, m)"
    and n: "framed_next S (Still_Open :: ('x, 'd) ending) (sk_codec (ts_sink s)) (ts_rbuf s) (ts_arriving s) = Some (Some (Woke_Frame f), c1, buf1, chunks1)"
    and a: "ahead S W md MAX_MESSAGE [] c1 buf1 (concat chunks1 @ future) es'"
  let ?s = "s\<lparr>ts_sink := (ts_sink s)\<lparr>sk_codec := c1\<rparr>, ts_rbuf := buf1, ts_arriving := chunks1,
    ts_keepalive := record_rx (ct_now t) (ts_keepalive s)\<rparr>"
  have tidy: "neg_tidy ?s" using assms(5) by (simp add: neg_tidy_def)
  obtain b s' where c: "stream_control (ct_clock t) (ct_now t) e ?s = (b, s')" by force
  have ty: "\<not> accepts e" using assms(4) es by simp
  note cr = control_read [OF c ty]
  have p: "client_parse W f = Some e" using f client_parse_decode by blast
  have "turn_read W S t s = Some (if b \<and> \<not> ts_pass_control s' then Again else Got e, s')"
    using n assms(2) p c by (simp add: turn_read_def turn_frame_def Let_def)
  moreover have "reading S W md s' future es'" using a cr by (simp add: reading_def same_read_def)
  ultimately show ?thesis using es cr tidy by (auto simp: read_on_def same_read_def record_rx_def)
next
  fix c1 buf1
  assume "framed_next S (Still_Open :: ('x, 'd) ending) (sk_codec (ts_sink s)) (ts_rbuf s) (ts_arriving s) = Some (None, c1, buf1, [])"
    and "ahead S W md MAX_MESSAGE [] c1 buf1 future es" and "future = [] \<longrightarrow> es = []"
  then show ?thesis using assms(2,5) by (simp add: turn_read_def read_on_def reading_def neg_tidy_def)
qed

text \<open>A turn as a whole fails for a cause, or reads on.\<close>

abbreviation turn_went :: "search_lib \<Rightarrow> ('x, 'd) wire_lib \<Rightarrow> mode \<Rightarrow> bytes \<Rightarrow> event list \<Rightarrow> ('x, 'd) client_turn \<Rightarrow>
    tak_stream \<Rightarrow> ('x, 'd) polled \<Rightarrow> tak_stream \<Rightarrow> bool" where
  "turn_went S W md future es t s r s' \<equiv>
     (\<exists>er. r = Failed_With er \<and> may_fail (dead_after s) [rx_at s] t er) \<and> ts_done s' \<or> read_on S W md future es (ct_now t) s r s'"

lemma turn_body_ahead:
  assumes "search_ok S" and "ct_ending t = Still_Open" and "reading S W md s (concat (ct_arrived t) @ future) es"
    and "list_all (\<lambda>e. \<not> accepts e) es" and "neg_tidy s"
  shows "\<exists>r s'. turn_body W S t s = Some (r, s') \<and> turn_went S W md future es t s r s'"
proof -
  let ?s = "s\<lparr>ts_arriving := ts_arriving s @ ct_arrived t\<rparr>"
  obtain w s1 where p: "poll_outbox W (ct_now t) (ct_room t) (ct_flush t) ?s = (w, s1)" by force
  have s1: "same_read ?s s1" by (rule poll_outbox_read [OF p])
  then have r1: "reading S W md s1 future es" using assms(3) by (simp add: reading_def same_read_def)
  obtain tk ka where k: "keepalive_poll (is_quiet (client_at s1)) (ct_now t) (ts_keepalive s1) = (tk, ka)" by force
  have ka: "ks_config ka = ks_config (ts_keepalive s1)" "ks_last_rx ka = rx_at s1"
    using poll_keeps [of "is_quiet (client_at s1)" "ct_now t" "ts_keepalive s1"] k by simp_all
  note same = s1 [unfolded same_read_def, simplified]
  have tidy: "neg_tidy s1" using assms(5) poll_outbox_neg [OF p] by (simp add: neg_tidy_def)
  show ?thesis
  proof (cases "\<exists>er. w = Write_Failed er")
    case True
    then obtain ce where ce: "w = Write_Failed ce" by blast
    with poll_outbox_fails [of W "ct_now t" "ct_room t" "ct_flush t" ?s ce s1] p have "write_failed t ce"
      by (auto simp: write_failed_def)
    then have "may_fail (dead_after s) [rx_at s] t (stream_error_of ce)" unfolding may_fail_def by blast
    with p ce show ?thesis by (simp add: turn_body_def stream_failed_def)
  next
    case went: False
    show ?thesis
    proof (cases "passed (ct_now t) (ts_neg_timer s1)")
      case True
      define n where "n = snd (client_expire (ts_neg s1))"
      have st: "fst (client_expire (ts_neg s1)) \<noteq> Client_Proto"
        using True tidy by (cases "ts_neg_timer s1") (auto simp: client_expire_def neg_tidy_def Let_def)
      have "turn_body W S t s = Some (Again, stream_adopt (fst (client_expire (ts_neg s1))) (s1\<lparr>ts_neg := n\<rparr>))"
        using p went True by (cases w) (auto simp: turn_body_def n_def split_beta Let_def)
      then show ?thesis
        using adopt_read [OF st, of s1 n] adopt_tidy r1 same by (auto simp: read_on_def reading_def same_read_def)
    next
      case waits: False
      show ?thesis
      proof (cases tk)
        case Tick_Dead
        then have "dead_after s \<noteq> 0 \<and> rx_at s + dead_after s \<le> ct_now t"
          using k same by (auto simp: keepalive_poll_def dead_at_def Let_def split: if_splits)
        then have "may_fail (dead_after s) [rx_at s] t Rx_Timeout" by (simp add: may_fail_def)
        with Tick_Dead p went waits k show ?thesis by (cases w) (auto simp: turn_body_def stream_failed_def)
      next
        case Tick_Ping
        with p went waits k ka r1 same tidy show ?thesis
          by (cases w) (auto simp: turn_body_def stream_emit_def read_on_def reading_def neg_tidy_def)
      next
        case Tick_Quiet
        then have body: "turn_body W S t s = turn_read W S t (s1\<lparr>ts_keepalive := ka\<rparr>)"
          using p went waits k by (cases w) (auto simp: turn_body_def)
        have "reading S W md (s1\<lparr>ts_keepalive := ka\<rparr>) future es" "neg_tidy (s1\<lparr>ts_keepalive := ka\<rparr>)"
          using r1 tidy by (simp_all add: reading_def neg_tidy_def)
        from turn_read_ahead [OF assms(1,2) this(1) assms(4) this(2)] obtain r s' where
          "turn_read W S t (s1\<lparr>ts_keepalive := ka\<rparr>) = Some (r, s')"
          "read_on S W md future es (ct_now t) (s1\<lparr>ts_keepalive := ka\<rparr>) r s'" by blast
        with body ka same show ?thesis by (auto simp: read_on_def)
      qed
    qed
  qed
qed

text \<open>One turn after the other, up to one that ends the stream.\<close>

fun client_turns :: "('x, 'd) wire_lib \<Rightarrow> search_lib \<Rightarrow> ('x, 'd) client_turn list \<Rightarrow> tak_stream \<Rightarrow>
    (('x, 'd) polled list \<times> tak_stream) option" where
  "client_turns W S [] s = Some ([], s)"
| "client_turns W S (t # ts) s =
     (case poll_turn W S t s of
        None \<Rightarrow> None
      | Some (r, s) \<Rightarrow>
          if ts_done s then Some ([r], s)
          else (case client_turns W S ts s of None \<Rightarrow> None | Some (rs, s) \<Rightarrow> Some (r # rs, s)))"

lemma client_turns_length: "client_turns W S ts s = Some (rs, s') \<Longrightarrow> length rs \<le> length ts"
  by (induction ts arbitrary: rs s) (fastforce split: option.splits prod.splits if_splits)+

definition handed_on :: "('x, 'd) polled list \<Rightarrow> event list" where
  "handed_on rs = List.map_filter (\<lambda>r. case r of Got e \<Rightarrow> Some e | _ \<Rightarrow> None) rs"

lemma handed_on_simps [simp]:
  "handed_on [] = []" "handed_on (Got e # rs) = e # handed_on rs" "handed_on (Again # rs) = handed_on rs"
  "handed_on (Poll_Pending # rs) = handed_on rs" "handed_on (Failed_With er # rs) = handed_on rs"
  by (simp_all add: handed_on_def List.map_filter_def)

definition to_hand_on :: "bool \<Rightarrow> event list \<Rightarrow> event list" where
  "to_hand_on pass es = filter (\<lambda>e. pass \<or> \<not> kept_back e) es"

text \<open>When a message was handed on.\<close>

fun heard_at :: "('x, 'd) client_turn list \<Rightarrow> ('x, 'd) polled list \<Rightarrow> nat list" where
  "heard_at (t # ts) (Got e # rs) = ct_now t # heard_at ts rs"
| "heard_at (t # ts) (r # rs) = heard_at ts rs"
| "heard_at ts rs = []"

lemma poll_turn_ahead:
  assumes "search_ok S" and "ct_ending t = Still_Open" and "reading S W md s (concat (ct_arrived t) @ future) es"
    and "list_all (\<lambda>e. \<not> accepts e) es" and "neg_tidy s"
  shows "\<exists>r s'. poll_turn W S t s = Some (r, s') \<and> turn_went S W md future es t s r s'"
proof -
  from turn_body_ahead [OF assms] obtain r s1 where b: "turn_body W S t s = Some (r, s1)"
    and d: "turn_went S W md future es t s r s1" by blast
  show ?thesis
  proof (cases "\<exists>e. r = Got e \<and> ts_outbox s1 \<noteq> []")
    case False
    then have "poll_turn W S t s = Some (r, s1)" using b by (cases r) (simp_all add: poll_turn_def)
    with d show ?thesis by blast
  next
    case True
    then obtain e where e: "r = Got e" "ts_outbox s1 \<noteq> []" by blast
    obtain w s2 where p: "poll_outbox W (ct_now t) (ct_room_after t) (ct_flush_after t) s1 = (w, s2)" by force
    have turn: "poll_turn W S t s = Some (case w of Write_Failed er \<Rightarrow> stream_failed (stream_error_of er) s2 | _ \<Rightarrow> (r, s2))"
      using b e p by (cases w) (simp_all add: poll_turn_def)
    show ?thesis
    proof (cases "\<exists>er. w = Write_Failed er")
      case True
      then obtain ce where ce: "w = Write_Failed ce" by blast
      with poll_outbox_fails [of W "ct_now t" "ct_room_after t" "ct_flush_after t" s1 ce s2] p have "write_failed t ce"
        by (auto simp: write_failed_def)
      then have "may_fail (dead_after s) [rx_at s] t (stream_error_of ce)" unfolding may_fail_def by blast
      with turn ce show ?thesis by (simp add: stream_failed_def)
    next
      case False
      with turn have t: "poll_turn W S t s = Some (r, s2)" by (cases w) simp_all
      have "read_on S W md future es (ct_now t) s r s1" using d e(1) by simp
      moreover have "neg_tidy s2" using poll_outbox_neg [OF p] calculation by (simp add: read_on_def neg_tidy_def)
      ultimately show ?thesis using t read_on_end [OF poll_outbox_read [OF p]] by blast
    qed
  qed
qed

lemma may_fail_earlier:
  "may_fail dead heard t er \<Longrightarrow> (\<And>h. h \<in> set heard' \<Longrightarrow> \<exists>g \<in> set heard. h \<le> g) \<Longrightarrow> may_fail dead heard' t er"
  unfolding may_fail_def by (meson add_le_mono1 order_trans)

text \<open>What a turn that read on leaves for the next.\<close>

lemma read_on_next:
  assumes "read_on S W md future es (ct_now t) s r s1" and "list_all (\<lambda>e. \<not> accepts e) es" and "rx_at s \<le> ct_now t"
  shows "\<exists>es1. reading S W md s1 future es1 \<and> list_all (\<lambda>e. \<not> accepts e) es1 \<and>
    to_hand_on (ts_pass_control s) es = handed_on [r] @ to_hand_on (ts_pass_control s) es1 \<and>
    (r = Poll_Pending \<and> future = [] \<longrightarrow> es1 = []) \<and> rx_at s \<le> rx_at s1 \<and> rx_at s1 \<le> ct_now t \<and>
    (\<forall>h \<in> set (heard_at [t] [r]). h \<le> rx_at s1)"
  using assms by (auto simp: read_on_def to_hand_on_def)

lemma heard_at_Cons: "heard_at (t # ts) (r # rs) = heard_at [t] [r] @ heard_at ts rs"
  by (cases r) simp_all

lemma client_turns_ahead:
  assumes "search_ok S"
  shows "list_all (\<lambda>t. ct_ending t = Still_Open) ts \<Longrightarrow> reading S W md s (concat (concat (map ct_arrived ts)) @ later) es \<Longrightarrow>
    list_all (\<lambda>e. \<not> accepts e) es \<Longrightarrow> neg_tidy s \<Longrightarrow> \<not> ts_done s \<Longrightarrow> sorted (rx_at s # map ct_now ts) \<Longrightarrow>
    \<exists>rs s'. client_turns W S ts s = Some (rs, s') \<and> prefix (handed_on rs) (to_hand_on (ts_pass_control s) es) \<and>
      (if ts_done s' then (\<exists>er. rs \<noteq> [] \<and> last rs = Failed_With er \<and>
         may_fail (dead_after s) (rx_at s # heard_at ts rs) (ts ! (length rs - 1)) er)
       else ts_dropped_parse s' = ts_dropped_parse s \<and>
         (later = [] \<and> rs \<noteq> [] \<and> last rs = Poll_Pending \<longrightarrow> handed_on rs = to_hand_on (ts_pass_control s) es))"
proof (induction ts arbitrary: s es)
  case Nil
  then show ?case by simp
next
  case (Cons t ts)
  have op: "ct_ending t = Still_Open" "list_all (\<lambda>t. ct_ending t = Still_Open) ts" using Cons.prems(1) by simp_all
  let ?future = "concat (concat (map ct_arrived ts)) @ later" and ?pass = "ts_pass_control s"
  have rd: "reading S W md s (concat (ct_arrived t) @ ?future) es" using Cons.prems(2) by simp
  from poll_turn_ahead [OF assms op(1) rd Cons.prems(3,4)] obtain r s1 where r: "poll_turn W S t s = Some (r, s1)"
    and d: "turn_went S W md ?future es t s r s1" by blast
  show ?case
  proof (cases "ts_done s1")
    case True
    with d Cons.prems(5) have "\<exists>er. r = Failed_With er \<and> may_fail (dead_after s) [rx_at s] t er" by (auto simp: read_on_def)
    with True r show ?thesis by auto
  next
    case False
    with d have on: "read_on S W md ?future es (ct_now t) s r s1" by blast
    then have k: "neg_tidy s1" "ts_pass_control s1 = ?pass" "ts_dropped_parse s1 = ts_dropped_parse s" "dead_after s1 = dead_after s"
      by (simp_all add: read_on_def)
    have "rx_at s \<le> ct_now t" using Cons.prems(6) by simp
    from read_on_next [OF on Cons.prems(3) this] obtain es1 where es1: "reading S W md s1 ?future es1"
      "list_all (\<lambda>e. \<not> accepts e) es1" "to_hand_on ?pass es = handed_on [r] @ to_hand_on ?pass es1"
      "r = Poll_Pending \<and> ?future = [] \<longrightarrow> es1 = []" "rx_at s \<le> rx_at s1" "rx_at s1 \<le> ct_now t"
      "\<forall>h \<in> set (heard_at [t] [r]). h \<le> rx_at s1" by blast
    have "sorted (rx_at s1 # map ct_now ts)" using Cons.prems(6) es1(6) by auto
    from Cons.IH [OF op(2) es1(1,2) k(1) False this, unfolded k(2,4)] obtain rs s' where h: "client_turns W S ts s1 = Some (rs, s')"
      "prefix (handed_on rs) (to_hand_on ?pass es1)"
      "if ts_done s' then (\<exists>er. rs \<noteq> [] \<and> last rs = Failed_With er \<and>
         may_fail (dead_after s) (rx_at s1 # heard_at ts rs) (ts ! (length rs - 1)) er)
       else ts_dropped_parse s' = ts_dropped_parse s1 \<and>
         (later = [] \<and> rs \<noteq> [] \<and> last rs = Poll_Pending \<longrightarrow> handed_on rs = to_hand_on ?pass es1)"
      by blast
    have run: "client_turns W S (t # ts) s = Some (r # rs, s')" using r False h(1) by simp
    have hand: "handed_on (r # rs) = handed_on [r] @ handed_on rs"
      by (simp add: handed_on_def List.map_filter_def)
    have ends: "\<exists>er. last (r # rs) = Failed_With er \<and>
        may_fail (dead_after s) (rx_at s # heard_at (t # ts) (r # rs)) ((t # ts) ! (length (r # rs) - 1)) er" if "ts_done s'"
    proof -
      from that h(3) obtain er where er: "rs \<noteq> []" "last rs = Failed_With er"
        "may_fail (dead_after s) (rx_at s1 # heard_at ts rs) (ts ! (length rs - 1)) er" by auto
      have "may_fail (dead_after s) (rx_at s # heard_at (t # ts) (r # rs)) (ts ! (length rs - 1)) er"
        unfolding heard_at_Cons [of t ts r rs]
        by (rule may_fail_earlier [OF er(3)]) (use es1(5,7) in \<open>auto simp del: heard_at.simps\<close>)
      with er(1,2) show ?thesis by (cases rs) auto
    qed
    have last: "handed_on (r # rs) = to_hand_on ?pass es" if "later = []" "last (r # rs) = Poll_Pending" "\<not> ts_done s'"
    proof (cases "rs = []")
      case True
      with h(1) have "ts = []" by (cases ts) (auto split: option.splits if_splits prod.splits)
      with that True es1(3,4) hand show ?thesis by (simp add: to_hand_on_def)
    next
      case False
      with that h(3) es1(3) hand show ?thesis by simp
    qed
    show ?thesis
      using run hand h(2,3) es1(3) k(3) last ends by (intro exI [of _ "r # rs"] exI [of _ s']) auto
  qed
qed

section \<open>Messages to try it on\<close>

definition demo_announce :: event where
  "demo_announce = announce 7 (lit ''u'') (lit ''1'') 1 7"

definition demo_accept :: event where
  "demo_accept = response 7 (lit ''u'') True 7"

lemma demo_offer_eq:
  "demo_announce = (event_default 7)\<lparr>ev_uid := lit ''u'', ev_type := TAKP_V, ev_how := Some (lit ''m-g''), ev_stale := 60007,
     ev_point := NEGOTIATE_POINT, ev_detail := \<lparr>nodes = [Elem (takcontrol_to (tc_announce PROTO_VERSION (lit ''1'') 1))]\<rparr>\<rparr>"
  "demo_accept = (event_default 7)\<lparr>ev_uid := lit ''u'', ev_type := TAKP_R, ev_how := Some (lit ''m-g''), ev_stale := 60007,
     ev_point := NEGOTIATE_POINT, ev_detail := \<lparr>nodes = [Elem (takcontrol_to (tc_response_of True))]\<rparr>\<rparr>"
  by (simp_all add: demo_announce_def demo_accept_def announce_def response_def set_control_def
     TAKCONTROL_def PROTO_VERSION_def d_set_def d_find_def d_elements_def d_push_def negotiate_envelope_def builder_defs
     event_builder_def event_default_def detail_new_def stale_after_def time_sub_def NEGOTIATE_VALIDITY_def HOW_M_G_def
     sat_i64_def i64_min_def i64_max_def millis_of_def)

lemma demo_offer_fits:
  "event_clean count_clock demo_announce" "framed_nodes (nodes (ev_detail demo_announce))"
  "event_clean count_clock demo_accept" "framed_nodes (nodes (ev_detail demo_accept))"
  by (simp_all add: demo_offer_eq takcontrol_to_eq tc_announce_def tc_response_of_def takcontrol_default_def PROTO_VERSION_def
      TAKCONTROL_def support_element_def bool_text_def event_clean_def event_default_def opt_clean_def attrs_clean_def clean_text_def TAKP_V_def TAKP_R_def
      dec_of_nat.simps forbidden_def is_scalar_def lit_def is_finite_def NEGOTIATE_POINT_def count_clock_def u64_max_def
      VERSION_def is_name_char_def is_name_start_def in_range_def MAX_DEPTH_def)

text \<open>The messages of the exchange fit a stream's cap.\<close>

lemma utf8_length: "length (utf8 s) \<le> 4 * length s"
proof (induction s)
  case (Cons c s)
  have "length (utf8_char c) \<le> 4" by (simp add: utf8_char_def)
  with Cons show ?case by (simp add: utf8_def)
qed (simp add: utf8_def)

lemma xml_fits:
  assumes "length (write_text (plain_xml :: unit quick_xml) bits_f64 count_clock e) \<le> 2000"
    and "event_clean count_clock e" and "framed_nodes (nodes (ev_detail e))"
  shows "xml_sendable served_wire MAX_MESSAGE e"
  using assms utf8_length [of "write_text (plain_xml :: unit quick_xml) bits_f64 count_clock e"]
  by (simp add: xml_sendable_def event_xml_def xml_write_def write_into_def served_wire_def demo_wire_def MAX_MESSAGE_def)

lemma demo_announce_fits: "xml_sendable served_wire MAX_MESSAGE demo_announce"
  by (rule xml_fits) (simp_all add: demo_offer_fits, simp add: write_text_def demo_offer_eq takcontrol_to_eq tc_announce_def
    takcontrol_default_def PROTO_VERSION_def TAKCONTROL_def support_element_def event_default_def xml_attr_def xml_attr_opt_def
    write_nodes_def DECLARATION_def lit_def TAKP_V_def dec_of_nat.simps d_is_empty_def strip_controls_def forbidden_def
    plain_xml_def VERSION_def NEGOTIATE_POINT_def count_clock_def time_string_def u64_max_def esc_char_def format_f64_def
    bits_f64_def)

lemma demo_accept_fits: "xml_sendable served_wire MAX_MESSAGE demo_accept"
  by (rule xml_fits) (simp_all add: demo_offer_fits, simp add: write_text_def demo_offer_eq takcontrol_to_eq tc_response_of_def
    takcontrol_default_def PROTO_VERSION_def TAKCONTROL_def bool_text_def event_default_def xml_attr_def xml_attr_opt_def
    write_nodes_def DECLARATION_def lit_def TAKP_R_def dec_of_nat.simps d_is_empty_def strip_controls_def forbidden_def
    plain_xml_def VERSION_def NEGOTIATE_POINT_def count_clock_def time_string_def u64_max_def esc_char_def format_f64_def
    bits_f64_def)

lemma demo_message_framed: "framed_nodes (nodes (ev_detail demo_message))"
  by (simp add: demo_message_def lit_def starts_with_def)

lemma demo_message_fits: "xml_sendable served_wire MAX_MESSAGE demo_message"
  by (rule xml_fits) (simp_all add: demo_message_clean demo_message_framed, simp add: write_text_def demo_message_def event_default_def
    starts_with_def xml_attr_def xml_attr_opt_def write_nodes_def DECLARATION_def lit_def dec_of_nat.simps d_is_empty_def
    strip_controls_def forbidden_def plain_xml_def VERSION_def point_zero_def UNKNOWN_def count_clock_def time_string_def
    u64_max_def esc_char_def format_f64_def bits_f64_def)

definition demo_config :: stream_config where
  "demo_config = \<lparr>sc_uid = lit ''c'', sc_negotiate = True, sc_keepalive = KEEPALIVE_OFF, sc_pass_control = False\<rparr>"

definition demo_arrival_of :: "bytes list \<Rightarrow> (unit, unit) client_turn" where
  "demo_arrival_of chunks = \<lparr>ct_now = 0, ct_clock = 7, ct_room = \<lambda>k. Io_Ready 0, ct_flush = Io_Ready 0,
     ct_arrived = chunks, ct_ending = Still_Open, ct_room_after = \<lambda>k. Io_Ready 0, ct_flush_after = Io_Ready 0\<rparr>"

abbreviation demo_arrival :: "event \<Rightarrow> (unit, unit) client_turn" where
  "demo_arrival e \<equiv> demo_arrival_of [event_xml served_wire e]"

lemma served_ok: "wire_ok served_wire"
  by (simp add: wire_ok_def served_wire_def demo_wire_def quick_xml_ok_plain instances_ok)

section \<open>Properties\<close>

text \<open>C13: In XML, from the first byte up to an acceptance of protobuf, the messages a server sends a client reach
  its caller each once, in order, whatever sizes they arrive in and whatever the stream does in between;
  none is dropped, and once everything has arrived and the stream waits for more, all have been handed on
  but the control messages it keeps to itself.  While the transport stays open only a write the transport
  refused ends this earlier, or a dead clock that has run its full time since the stream began and since
  every message handed on; never the deadline of the negotiation.\<close>

theorem client_hands_on_what_arrives:
  assumes "search_ok S" and "wire_ok W" and "list_all (\<lambda>e. xml_sendable W MAX_MESSAGE e \<and> \<not> accepts e) es"
    and "list_all (\<lambda>t. ct_ending t = Still_Open) ts" and "sorted (t0 # map ct_now ts)"
    and "concat (concat (map ct_arrived ts)) @ later = concat (map (event_xml W) es)"
  shows "\<exists>rs s. client_turns W S ts (stream_new cfg t0) = Some (rs, s) \<and>
    prefix (handed_on rs) (to_hand_on (sc_pass_control cfg) es) \<and>
    (if ts_done s then (\<exists>er. rs \<noteq> [] \<and> last rs = Failed_With er \<and>
       may_fail (ka_dead (sc_keepalive cfg)) (t0 # heard_at ts rs) (ts ! (length rs - 1)) er)
     else ts_dropped_parse s = 0 \<and>
       (later = [] \<and> rs \<noteq> [] \<and> last rs = Poll_Pending \<longrightarrow> handed_on rs = to_hand_on (sc_pass_control cfg) es))"
proof -
  let ?s = "stream_new cfg t0"
  have bs: "list_all2 (carries S W Mode_Xml MAX_MESSAGE) (map (event_xml W) es) es"
    using assms(3) xml_carries [OF assms(1,2)] by (auto simp: list_all2_map1 list_all_iff intro!: list.rel_refl_strong)
  have rd: "reading S W Mode_Xml ?s (concat (concat (map ct_arrived ts)) @ later) es"
    unfolding reading_def
    by (rule ahead_start [OF _ _ _ _ bs]) (use assms(6) in \<open>simp_all add: stream_new_def codec_new_def\<close>, simp_all add: with_limit_def)
  have up: "neg_tidy ?s" "\<not> ts_done ?s"
    and sel: "ts_pass_control ?s = sc_pass_control cfg" "ts_dropped_parse ?s = 0" "rx_at ?s = t0"
      "dead_after ?s = ka_dead (sc_keepalive cfg)"
    by (simp_all add: stream_new_def neg_tidy_def keepalive_new_def)
  have "list_all (\<lambda>e. \<not> accepts e) es" using assms(3) by (simp add: list_all_iff)
  from client_turns_ahead [OF assms(1,4) rd this up] assms(5) show ?thesis unfolding sel by simp
qed

text \<open>With the keepalive off and a transport that takes what it is given, nothing ends the stream.\<close>

theorem client_hands_on_what_arrives_witness:
  "\<exists>rs s. client_turns served_wire plain_search
      [demo_arrival_of [take 9 (event_xml served_wire demo_announce)],
       demo_arrival_of [drop 9 (event_xml served_wire demo_announce), event_xml served_wire demo_message]]
      (stream_new demo_config 0) = Some (rs, s) \<and>
    prefix (handed_on rs) [demo_message] \<and> \<not> ts_done s \<and> ts_dropped_parse s = 0"
proof -
  let ?ts = "[demo_arrival_of [take 9 (event_xml served_wire demo_announce)],
       demo_arrival_of [drop 9 (event_xml served_wire demo_announce), event_xml served_wire demo_message]]"
  have "prefix rs (to_hand_on False [demo_announce, demo_message]) \<longleftrightarrow> prefix rs [demo_message]" for rs
    by (simp add: to_hand_on_def kept_back_def demo_announce_def is_pong_def)
      (simp add: demo_message_def cot_type_defs lit_def)
  note hand = this
  have ty: "ev_type demo_announce = TAKP_V" "ev_type demo_message \<noteq> TAKP_R"
    by (simp_all add: demo_announce_def) (simp add: demo_message_def TAKP_R_def lit_def)
  have "list_all (\<lambda>e. xml_sendable served_wire MAX_MESSAGE e \<and> \<not> accepts e) [demo_announce, demo_message]"
    using demo_announce_fits demo_message_fits ty by (simp add: accepts_def)
  moreover have "list_all (\<lambda>t. ct_ending t = Still_Open) ?ts" "sorted (0 # map ct_now ?ts)" by (simp_all add: demo_arrival_of_def)
  moreover have "concat (concat (map ct_arrived ?ts)) @ [] = concat (map (event_xml served_wire) [demo_announce, demo_message])"
    by (simp add: demo_arrival_of_def append_assoc [symmetric] del: append_assoc)
  ultimately obtain rs s where r: "client_turns served_wire plain_search ?ts (stream_new demo_config 0) = Some (rs, s)"
    "prefix (handed_on rs) (to_hand_on (sc_pass_control demo_config) [demo_announce, demo_message])"
    "if ts_done s then (\<exists>er. rs \<noteq> [] \<and> last rs = Failed_With er \<and>
       may_fail (ka_dead (sc_keepalive demo_config)) (0 # heard_at ?ts rs) (?ts ! (length rs - 1)) er) else ts_dropped_parse s = 0"
    using client_hands_on_what_arrives [OF search_ok_plain served_ok, of "[demo_announce, demo_message]" ?ts 0 "[]" demo_config]
    by (auto split: if_splits)
  have "\<not> ts_done s"
  proof
    assume "ts_done s"
    with r(3) obtain er where er: "rs \<noteq> []"
      "may_fail (ka_dead (sc_keepalive demo_config)) (0 # heard_at ?ts rs) (?ts ! (length rs - 1)) er" by auto
    have "length rs - 1 < length ?ts" using client_turns_length [OF r(1)] er(1) by (cases rs) auto
    then have "?ts ! (length rs - 1) \<in> set ?ts" by (rule nth_mem)
    then obtain a where "?ts ! (length rs - 1) = demo_arrival_of a" by auto
    with er(2) show False
      by (simp add: may_fail_def write_failed_def demo_arrival_of_def demo_config_def KEEPALIVE_OFF_def)
  qed
  moreover have "prefix (handed_on rs) [demo_message]" using hand r(2) by (simp add: demo_config_def)
  ultimately show ?thesis using r(1,3) by auto
qed

end
