(* ===== verification/Client_Server.thy ===== *)
theory Client_Server
  imports Client_Reads
begin

text \<open>
  Both ends of a stream together: what a client's stream writes is what the server's connection task reads.
\<close>

section \<open>What a client writes is what the server reads\<close>

text \<open>An event the wire and the receiver's cap can take in an encoding, and that is no request of the caller's own.\<close>

definition can_go :: "('x, 'd) wire_lib \<Rightarrow> nat \<Rightarrow> mode \<Rightarrow> event \<Rightarrow> bool" where
  "can_go W limit m e = (case m of Mode_Xml \<Rightarrow> xml_sendable W limit e | Mode_Proto \<Rightarrow> proto_sendable W limit e)"

lemma is_request_reads: "is_request q \<Longrightarrow> ev_type q = TAKP_Q \<and> parse_request q = Some PROTO_VERSION"
  by (auto simp: is_request_def tc_request_sel(1))

lemma log_bytes:
  "sent_bytes W (as_log Mode_Xml xs @ as_log Mode_Proto ps) =
     concat (map (event_xml W) (map snd xs)) @ concat (map (\<lambda>e. proto_encode (event_proto W e) []) (map snd ps))"
  by (simp add: sent_bytes_def as_log_def frame_bytes_def comp_def)

section \<open>A whole exchange\<close>

lemma control_pass: "stream_control clock now e s = (b, s') \<Longrightarrow> ts_pass_control s' = ts_pass_control s"
  by (auto simp: stream_control_def stream_emit_def stream_adopt_def stream_release_def Let_def split: prod.splits option.splits if_splits)

text \<open>A turn of a stream that has nothing queued and nothing due, and finds a message.\<close>

lemma turn_takes:
  assumes "search_ok S" and "ct_ending t = Still_Open" and "ct_flush t = Io_Ready n" and "ct_arrived t = [event_xml W e]"
    and "wire_ok W" and "xml_sendable W MAX_MESSAGE e"
    and "reading S W Mode_Xml s [] []" and "is_off (ks_config (ts_keepalive s))" and "ts_outbox s = []"
    and "\<not> passed (ct_now t) (ts_neg_timer s)" and "\<not> ts_pass_control s"
  shows "\<exists>s1 b s'. turn_body W S t s = Some (if b then Again else Got e, s') \<and>
    stream_control (ct_clock t) (ct_now t) e s1 = (b, s') \<and> reading S W Mode_Xml s1 [] [] \<and> ts_outbox s1 = [] \<and>
    ts_pending s1 = ts_pending s \<and> ts_neg s1 = ts_neg s \<and> ts_neg_timer s1 = ts_neg_timer s \<and> ts_done s1 = ts_done s \<and>
    is_off (ks_config (ts_keepalive s1)) \<and> ts_pass_control s1 = ts_pass_control s"
proof -
  let ?s = "s\<lparr>ts_arriving := ts_arriving s @ ct_arrived t\<rparr>"
  let ?s0 = "stream_took (length (sk_buffer (ts_sink s))) ?s"
  have k: "keepalive_poll m (ct_now t) (ts_keepalive s) = (Tick_Quiet, ts_keepalive s)" for m
    using assms(8) by (simp add: keepalive_poll_def Let_def)
  have body: "turn_body W S t s = turn_read W S t ?s0"
    using assms(3,9,10) k by (simp add: turn_body_def poll_outbox_def outbox_flush_def stream_took_def)
  have c: "codec_ok (sk_codec (ts_sink s)) (ts_rbuf s)" "cx_mode (sk_codec (ts_sink s)) = Mode_Xml"
    "max_frame (sk_codec (ts_sink s)) = MAX_MESSAGE" "ts_rbuf s @ concat (ts_arriving s) = []"
    using assms(7) by (auto simp: reading_def ahead_def)
  have "ahead S W Mode_Xml MAX_MESSAGE [] (sk_codec (ts_sink ?s0)) (ts_rbuf ?s0) (concat (ts_arriving ?s0) @ []) [e]"
    by (rule ahead_start [where bs = "[event_xml W e]"])
      (use c assms(4) xml_carries [OF assms(1,5,6)] in \<open>simp_all add: stream_took_def\<close>)
  from framed_next_ahead [OF assms(1) this disjI2 [OF refl]] obtain f c1 buf1 chunks1 where f: "\<forall>m. conn_decode W f m = (Some e, m)"
    "framed_next S (Still_Open :: ('a, 'b) ending) (sk_codec (ts_sink ?s0)) (ts_rbuf ?s0) (ts_arriving ?s0) =
       Some (Some (Woke_Frame f), c1, buf1, chunks1)"
    "ahead S W Mode_Xml MAX_MESSAGE [] c1 buf1 (concat chunks1 @ []) []" by auto
  let ?s1 = "?s0\<lparr>ts_sink := (ts_sink ?s0)\<lparr>sk_codec := c1\<rparr>, ts_rbuf := buf1, ts_arriving := chunks1,
    ts_keepalive := record_rx (ct_now t) (ts_keepalive ?s0)\<rparr>"
  obtain b s' where ct: "stream_control (ct_clock t) (ct_now t) e ?s1 = (b, s')" by force
  have pass: "ts_pass_control s' = ts_pass_control s"
    using control_pass [OF ct] by (simp add: stream_took_def)
  have "turn_read W S t ?s0 = Some (if b then Again else Got e, s')"
    using f(1,2) client_parse_decode ct pass assms(2,11) by (fastforce simp: turn_read_def turn_frame_def Let_def)
  with body ct show ?thesis
    using f(3) assms(8,9) by (intro exI [of _ ?s1] exI [of _ b] exI [of _ s'])
      (simp add: reading_def stream_took_def record_rx_def)
qed

text \<open>
  The offer arrives, the caller's event is held, the request is written, the acceptance arrives, and the
  event goes out in protobuf.
\<close>

lemma writes_one:
  assumes "ts_outbox s = [e]"
  shows "\<exists>s'. poll_outbox W now (\<lambda>k. Io_Ready 0) (Io_Ready n) s = (Wrote, s') \<and> ts_outbox s' = [] \<and> ts_pending s' = ts_pending s \<and>
    ts_neg s' = ts_neg s \<and> ts_neg_timer s' = ts_neg_timer s \<and> stream_mode s' = stream_mode s \<and> same_read s s' \<and>
    ks_config (ts_keepalive s') = ks_config (ts_keepalive s) \<and> ts_done s' = ts_done s \<and>
    logged (\<lambda>k. Io_Ready 0 :: ('x, 'd) io_poll) s = [(stream_mode s, e)]"
  by (simp add: assms poll_outbox_def outbox_flush_def stream_took_def logged_def same_read_def stream_mode_def record_tx_def Let_def)

lemma demo_held:
  "\<exists>s. client_run served_wire plain_search demo_config True [demo_position] [] s \<and> ts_outbox s = [demo_request] \<and>
    ts_pending s = [demo_position] \<and> ts_neg_timer s = Some NEG_WAIT \<and> client_at s = Requested \<and>
    is_off (ks_config (ts_keepalive s)) \<and> \<not> ts_done s \<and> \<not> ts_pass_control s \<and> stream_mode s = Mode_Xml \<and>
    reading plain_search served_wire Mode_Xml s [] []"
proof -
  let ?W = served_wire and ?run = "client_run served_wire plain_search demo_config True"
  define s0 where "s0 = stream_new demo_config 0"
  have run0: "?run [] [] s0" unfolding s0_def by (rule started)
  have r0: "reading plain_search ?W Mode_Xml s0 [] []"
    unfolding reading_def s0_def
    by (rule ahead_start [where bs = "[]"]) (simp_all add: stream_new_def codec_new_def, simp_all add: with_limit_def)
  have s0: "is_off (ks_config (ts_keepalive s0))" "ts_outbox s0 = []" "\<not> passed t (ts_neg_timer s0)" "\<not> ts_pass_control s0"
    "\<not> ts_done s0" "ts_pending s0 = []" "ts_neg s0 = client_neg_new True" for t
    by (simp_all add: s0_def stream_new_def demo_config_def keepalive_new_def KEEPALIVE_OFF_def is_off_def passed_def)
  have t0: "ts_neg_timer s0 = None" by (simp add: s0_def stream_new_def)
  from turn_takes [OF search_ok_plain _ _ _ served_ok demo_announce_fits r0 s0(1,2,3,4), of "demo_arrival demo_announce" 0]
  obtain s1 b s2 where t1: "turn_body ?W plain_search (demo_arrival demo_announce) s0 = Some (if b then Again else Got demo_announce, s2)"
    "stream_control 7 0 demo_announce s1 = (b, s2)" "reading plain_search ?W Mode_Xml s1 [] []" "ts_outbox s1 = []"
    "ts_pending s1 = []" "ts_neg s1 = client_neg_new True" "ts_neg_timer s1 = None" "\<not> ts_done s1"
    "is_off (ks_config (ts_keepalive s1))" "\<not> ts_pass_control s1"
    using s0 t0 by (auto simp: demo_arrival_of_def)
  define n2 where "n2 = snd (on_announce 7 demo_announce 7 (client_neg_new True))"
  have an: "on_announce 7 demo_announce 7 (client_neg_new True) = (Some demo_request, n2)" "cn_state n2 = Requested"
    by (simp_all add: n2_def on_announce_def demo_announce_def demo_request_def client_neg_new_def announce_supports_def)
  have s2: "b" "s2 = stream_emit demo_request (s1\<lparr>ts_neg := n2, ts_neg_timer := Some NEG_WAIT\<rparr>)"
    using t1(2,6) an by (auto simp: stream_control_def demo_announce_def)
  have run2: "?run [] [] s2"
    using turned [OF run0 s0(5) t1(1)] s0 by (simp add: answered_late_def client_neg_new_def logged_def)
  define s3 where "s3 = s2\<lparr>ts_pending := [demo_position]\<rparr>"
  have "start_send demo_position s2 = s3"
    using an(2) t1(5) by (simp add: start_send_def s2 s3_def stream_emit_def is_quiet_def)
  with sent [OF run2, of demo_position] have run3: "?run [demo_position] [] s3" by simp
  have s3: "ts_outbox s3 = [demo_request]" "ts_pending s3 = [demo_position]" "ts_neg s3 = n2" "ts_neg_timer s3 = Some NEG_WAIT"
    "is_off (ks_config (ts_keepalive s3))" "\<not> ts_done s3" "\<not> ts_pass_control s3" "stream_mode s3 = Mode_Xml"
    "reading plain_search ?W Mode_Xml s3 [] []"
    using t1 by (simp_all add: s3_def s2(2) stream_emit_def stream_mode_def reading_def) (simp add: ahead_def)
  from run3 s3 an(2) show ?thesis by auto
qed

lemma demo_exchange:
  "\<exists>s. client_run served_wire plain_search demo_config True [demo_position]
    [(Mode_Xml, demo_request), (Mode_Proto, demo_position)] s \<and> client_at s = Client_Proto \<and> stream_mode s = Mode_Proto \<and>
    ts_pending s = [] \<and> ts_outbox s = []"
proof -
  let ?W = served_wire and ?run = "client_run served_wire plain_search demo_config True"
  let ?room = "\<lambda>k :: nat. Io_Ready 0 :: (unit, unit) io_poll"
  let ?go = "\<lambda>s. poll_outbox ?W 0 ?room (Io_Ready 0) s"
  from demo_held obtain s3 where run3: "?run [demo_position] [] s3"
    and s3: "ts_outbox s3 = [demo_request]" "ts_pending s3 = [demo_position]" "ts_neg_timer s3 = Some NEG_WAIT"
    "client_at s3 = Requested" "is_off (ks_config (ts_keepalive s3))" "\<not> ts_done s3" "\<not> ts_pass_control s3"
    "stream_mode s3 = Mode_Xml" "reading plain_search ?W Mode_Xml s3 [] []" by blast
  from writes_one [OF s3(1), of ?W 0 0] obtain s4 where s4: "?go s3 = (Wrote, s4)" "ts_outbox s4 = []" "ts_pending s4 = [demo_position]"
    "client_at s4 = Requested" "ts_neg_timer s4 = Some NEG_WAIT" "same_read s3 s4" "is_off (ks_config (ts_keepalive s4))" "\<not> ts_done s4"
    "logged ?room s3 = [(Mode_Xml, demo_request)]" using s3 by auto
  from written [OF run3 s4(1)] s4(9) have run4: "?run [demo_position] [(Mode_Xml, demo_request)] s4" by simp
  have r4: "reading plain_search ?W Mode_Xml s4 [] []" "\<not> ts_pass_control s4" "\<not> passed 0 (ts_neg_timer s4)"
    using s4 s3(7,9) by (simp_all add: reading_def same_read_def NEG_WAIT_def secs_def)
  from turn_takes [OF search_ok_plain _ _ _ served_ok demo_accept_fits r4(1) s4(7,2), of "demo_arrival demo_accept" 0]
  obtain s5 c s6 where t5: "turn_body ?W plain_search (demo_arrival demo_accept) s4 = Some (if c then Again else Got demo_accept, s6)"
    "stream_control 7 0 demo_accept s5 = (c, s6)" "ts_outbox s5 = []" "ts_pending s5 = [demo_position]" "client_at s5 = Requested"
    using r4 s4 by (auto simp: demo_arrival_of_def)
  define n6 where "n6 = snd (on_response demo_accept (ts_neg s5))"
  have re: "on_response demo_accept (ts_neg s5) = (Some Client_Proto, n6)" "cn_state n6 = Client_Proto"
    by (simp_all add: n6_def on_response_def demo_accept_def t5(5))
  have s6: "s6 = stream_adopt Client_Proto (s5\<lparr>ts_neg := n6\<rparr>)"
    using t5(2,5) re by (auto simp: stream_control_def demo_accept_def)
  have o6: "ts_outbox s6 = [demo_position]" "ts_pending s6 = []" "stream_mode s6 = Mode_Proto" "client_at s6 = Client_Proto"
    using t5(3,4) re(2) by (simp_all add: s6 adopt_sel)
  have "answered_late s4 s6" by (simp add: answered_late_def o6 s4)
  with turned [OF run4 s4(8) t5(1)]
  have "?run [demo_position] ([(Mode_Xml, demo_request)] @ logged (ct_room (demo_arrival demo_accept)) s4) s6" by simp
  then have run6: "?run [demo_position] [(Mode_Xml, demo_request)] s6" by (simp add: logged_def s4(2))
  from writes_one [OF o6(1), of ?W 0 0] obtain s7 where s7: "?go s6 = (Wrote, s7)" "ts_pending s7 = []" "ts_outbox s7 = []" "stream_mode s7 = Mode_Proto" "client_at s7 = Client_Proto"
    "logged ?room s6 = [(Mode_Proto, demo_position)]" using o6 by auto
  from written [OF run6 s7(1)] s7 show ?thesis by auto
qed
section \<open>Properties\<close>

text \<open>C12: Whatever a client sends, and however its sends, writes and reads fall, everything it was given is on the wire,
  queued or held, once and in order; only pings and the request come in between.  It writes protobuf
  exactly when an acceptance has come, and what went before stays XML; when the acceptance came once the
  request was out, as from a server that answers what it has read, the XML ends in the request.  While
  the answer is outstanding the request is the last thing written or queued, and only then is anything
  held.\<close>

theorem client_keeps_the_order:
  assumes "client_run W S cfg late es lg s"
  shows "stream_total s = sent_bytes W lg \<and>
    (stream_mode s = Mode_Proto \<longleftrightarrow> client_at s = Client_Proto) \<and>
    (\<exists>xs ps ob. lg = as_log Mode_Xml xs @ as_log Mode_Proto ps \<and> map snd ob = ts_outbox s \<and>
    from_caller (xs @ ps @ ob) @ ts_pending s = es \<and> list_all (\<lambda>q. fst q \<or> is_own (snd q)) (xs @ ps @ ob) \<and>
    (case stream_mode s of Mode_Xml \<Rightarrow> ps = [] | Mode_Proto \<Rightarrow> late \<longrightarrow> ends_in_request xs) \<and>
    (if client_at s = Requested then ends_in_request (xs @ ob) else ts_pending s = []))"
proof -
  from client_run_inv [OF assms] obtain xs ps ob where "client_inv W late es lg s xs ps ob" by blast
  then have i: "stream_total s = sent_bytes W lg" "lg = as_log Mode_Xml xs @ as_log Mode_Proto ps" "map snd ob = ts_outbox s"
    "from_caller (xs @ ps @ ob) @ ts_pending s = es" "list_all (\<lambda>q. fst q \<or> is_own (snd q)) (xs @ ps @ ob)"
    "stream_mode s = Mode_Proto \<longleftrightarrow> client_at s = Client_Proto"
    "case stream_mode s of Mode_Xml \<Rightarrow> ps = [] | Mode_Proto \<Rightarrow> late \<longrightarrow> ends_in_request xs"
    "if client_at s = Requested then ends_in_request (xs @ ob) else ts_pending s = []"
    unfolding client_inv_def by (simp_all add: list_all_iff split: mode.split) auto
  then show ?thesis by blast
qed

theorem client_keeps_the_order_witness:
  "\<exists>s. client_run served_wire plain_search demo_config True [demo_position]
      [(Mode_Xml, demo_request), (Mode_Proto, demo_position)] s \<and> client_at s = Client_Proto \<and> stream_mode s = Mode_Proto \<and>
    stream_total s = event_xml served_wire demo_request @ proto_encode (event_proto served_wire demo_position) []"
proof -
  from demo_exchange obtain s where s: "client_run served_wire plain_search demo_config True [demo_position]
      [(Mode_Xml, demo_request), (Mode_Proto, demo_position)] s" "client_at s = Client_Proto" by blast
  from client_keeps_the_order [OF s(1)] s show ?thesis by (auto simp: sent_bytes_def frame_bytes_def)
qed

text \<open>C14: Nothing is held for good: while events are held there is a deadline, and the first turn at or after it
  lets all of them go, in order and after what was queued, and settles on XML; it needs nothing from the
  server, and only a write the transport refused in that turn fails it.\<close>

theorem held_events_are_released:
  assumes "client_run W S cfg late es lg s" and "ts_pending s \<noteq> []"
  shows "\<exists>d. ts_neg_timer s = Some d \<and>
    (\<forall>t. ct_now t < d \<or> (\<exists>r s'. turn_body W S t s = Some (r, s') \<and>
       ((\<exists>n ce. (ct_flush t = Io_Error n ce \<or> (\<exists>k. ct_room t k = Io_Error n ce)) \<and> r = Failed_With (stream_error_of ce)) \<or>
        r = Again \<and> client_at s' = Client_Xml \<and> ts_neg_timer s' = None \<and> ts_pending s' = [] \<and>
        suffix (ts_pending s) (ts_outbox s'))))"
proof -
  from client_run_inv [OF assms(1)] obtain xs ps ob where i: "client_inv W late es lg s xs ps ob" by blast
  with assms(2) obtain d where d: "ts_neg_timer s = Some d" "client_at s = Requested" by (auto simp: client_inv_def)
  have "\<exists>r s'. turn_body W S t s = Some (r, s') \<and>
      ((\<exists>n ce. (ct_flush t = Io_Error n ce \<or> (\<exists>k. ct_room t k = Io_Error n ce)) \<and> r = Failed_With (stream_error_of ce)) \<or>
       r = Again \<and> client_at s' = Client_Xml \<and> ts_neg_timer s' = None \<and> ts_pending s' = [] \<and>
       suffix (ts_pending s) (ts_outbox s'))" if "d \<le> ct_now t" for t
  proof -
    let ?s = "s\<lparr>ts_arriving := ts_arriving s @ ct_arrived t\<rparr>"
    have "same_sent s ?s" by (simp add: same_sent_def stream_mode_def)
    note i0 = same_sent_inv [OF i this]
    obtain w s1 where p: "poll_outbox W (ct_now t) (ct_room t) (ct_flush t) ?s = (w, s1)" by force
    from poll_outbox_inv [OF p i0] have s1: "ts_pending s1 = ts_pending s" "ts_neg s1 = ts_neg s" "ts_neg_timer s1 = Some d"
      using d by simp_all
    then have due: "passed (ct_now t) (ts_neg_timer s1)" using that by simp
    show ?thesis
    proof (cases "\<exists>ce. w = Write_Failed ce")
      case True
      then obtain ce where ce: "w = Write_Failed ce" by blast
      with p have "turn_body W S t s = Some (Failed_With (stream_error_of ce), s1\<lparr>ts_done := True\<rparr>)"
        by (simp add: turn_body_def stream_failed_def)
      with poll_outbox_fails [OF p [unfolded ce]] show ?thesis by blast
    next
      case False
      with p s1 d(2) due show ?thesis
        by (cases w) (auto simp: turn_body_def client_expire_def adopt_sel suffix_def Let_def)
    qed
  qed
  then have "ct_now t < d \<or> (\<exists>r s'. turn_body W S t s = Some (r, s') \<and>
      ((\<exists>n ce. (ct_flush t = Io_Error n ce \<or> (\<exists>k. ct_room t k = Io_Error n ce)) \<and> r = Failed_With (stream_error_of ce)) \<or>
       r = Again \<and> client_at s' = Client_Xml \<and> ts_neg_timer s' = None \<and> ts_pending s' = [] \<and>
       suffix (ts_pending s) (ts_outbox s')))" for t
    by (cases "ct_now t < d") (blast dest: not_less [THEN iffD1])+
  with d(1) show ?thesis by blast
qed

theorem held_events_are_released_witness:
  "\<exists>s s'. client_run served_wire plain_search demo_config True [demo_position] [] s \<and> ts_pending s = [demo_position] \<and>
    turn_body served_wire plain_search ((demo_arrival_of [])\<lparr>ct_now := NEG_WAIT\<rparr>) s = Some (Again, s') \<and>
    client_at s' = Client_Xml \<and> ts_pending s' = [] \<and> suffix [demo_position] (ts_outbox s')"
proof -
  from demo_held obtain s where s: "client_run served_wire plain_search demo_config True [demo_position] [] s"
    "ts_pending s = [demo_position]" "ts_neg_timer s = Some NEG_WAIT" by blast
  let ?t = "(demo_arrival_of [])\<lparr>ct_now := NEG_WAIT\<rparr>"
  have "ct_flush ?t \<noteq> Io_Error n ce" "ct_room ?t k \<noteq> Io_Error n ce" "\<not> ct_now ?t < NEG_WAIT" for n ce k
    by (simp_all add: demo_arrival_of_def)
  with held_events_are_released [OF s(1)] s(2,3) have "\<exists>s'. turn_body served_wire plain_search ?t s = Some (Again, s') \<and>
      client_at s' = Client_Xml \<and> ts_pending s' = [] \<and> suffix (ts_pending s) (ts_outbox s')"
    by (metis list.distinct(1) option.inject)
  with s show ?thesis by auto
qed

text \<open>C11: Two ends together: when a client has been accepted for protobuf, by an answer that came once its request
  was out, it writes protobuf; and the bytes its stream wrote, whatever its caller sent when and however
  they are cut into reads, are what the server's connection task reads: every event in the order it was
  written, the request answered with the acceptance under the offer's uid, and the encoding switched at
  the same place.  The task reads to the end, or up to where, between two messages, it is told to close or
  found idle when its deadline was looked at.\<close>

theorem client_is_understood:
  assumes "client_run W S cfg True es lg s" and "client_at s = Client_Proto"
    and "search_ok S'" and "wire_ok (cd_wire D)" and "W = cd_wire D" and "turns_fair turns (h_id (ck_handle k))"
    and "ck_codec k = with_limit Mode_Xml limit"
    and "neg_state (ck_neg k) = Offered uid" and "neg_configured (ck_neg k) = Mode_Accept"
    and "list_all (\<lambda>(m, e). can_go W limit m e) lg"
    and "length (filter (\<lambda>(m, e). ev_type e = TAKP_Q) lg) = 1"
    and "concat chunks = stream_total s"
  shows "stream_mode s = Mode_Proto \<and>
    (\<exists>xs q fs fates why k' sv' buf' whole. lg = map (Pair Mode_Xml) (xs @ [q]) @ map (Pair Mode_Proto) fs \<and> is_request q \<and>
      read_loop D S' Still_Open turns 0 [] k sv [] chunks = Some (fates, why, k', sv', buf') \<and>
      served W uid xs fs whole \<and> prefix fates whole \<and>
      cx_mode (ck_codec k') = (if length fates \<le> length xs then Mode_Xml else Mode_Proto) \<and>
      (case why of
         None \<Rightarrow> fates = whole \<and> buf' = [] \<and> neg_mode (ck_neg k') = Mode_Proto
       | Some r \<Rightarrow> told_to_end D turns (h_id (ck_handle k)) sv' r))"
proof -
  from client_run_inv [OF assms(1)] obtain xs0 ps ob where "client_inv W True es lg s xs0 ps ob" by blast
  with assms(2) have i: "stream_mode s = Mode_Proto" "stream_total s = sent_bytes W lg" "lg = as_log Mode_Xml xs0 @ as_log Mode_Proto ps"
    "ends_in_request xs0" by (simp_all add: client_inv_def)
  then obtain xs1 q where q: "xs0 = xs1 @ [(False, q)]" "is_request q" by (auto simp: ends_in_request_def)
  define xs where "xs = map snd xs1"
  define fs where "fs = map snd ps"
  have lg: "lg = map (Pair Mode_Xml) (xs @ [q]) @ map (Pair Mode_Proto) fs"
    by (simp add: i(3) q(1) as_log_def xs_def fs_def comp_def)
  note r = is_request_reads [OF q(2)]
  from assms(11) r have "filter (\<lambda>e. ev_type e = TAKP_Q) xs = []" "filter (\<lambda>e. ev_type e = TAKP_Q) fs = []"
    by (simp_all add: lg filter_map comp_def)
  then have ty: "\<forall>e \<in> set xs. ev_type e \<noteq> TAKP_Q" "\<forall>e \<in> set fs. ev_type e \<noteq> TAKP_Q" by (simp_all add: filter_empty_conv)
  have go: "\<forall>e \<in> set xs. xml_sendable W limit e" "xml_sendable W limit q" "\<forall>e \<in> set fs. proto_sendable W limit e"
    using assms(10) by (simp_all add: lg list.pred_map comp_def can_go_def) (simp_all add: list_all_iff)
  have "concat chunks = concat (map (event_xml W) xs) @ event_xml W q @
      concat (map (\<lambda>e. proto_encode (event_proto W e) []) fs)"
    using i(2) [unfolded i(3) log_bytes] assms(12) by (simp add: q(1) xs_def fs_def)
  with go ty r have "\<exists>fates why k' sv' buf' whole. read_loop D S' Still_Open turns 0 [] k sv [] chunks = Some (fates, why, k', sv', buf') \<and>
      served (cd_wire D) uid xs fs whole \<and> prefix fates whole \<and>
      cx_mode (ck_codec k') = (if length fates \<le> length xs then Mode_Xml else Mode_Proto) \<and>
      (case why of None \<Rightarrow> fates = whole \<and> buf' = [] \<and> neg_mode (ck_neg k') = Mode_Proto
       | Some r \<Rightarrow> told_to_end D turns (h_id (ck_handle k)) sv' r)"
    by (intro stream_is_served [OF assms(3,4,6,7,8,9)]) (auto simp: assms(5))
  with i(1) lg q(2) assms(5) show ?thesis by blast
qed

theorem client_is_understood_witness:
  "\<exists>s limit fates why k' sv' buf' whole. client_run served_wire plain_search demo_config True [demo_position]
      [(Mode_Xml, demo_request), (Mode_Proto, demo_position)] s \<and> client_at s = Client_Proto \<and> stream_mode s = Mode_Proto \<and>
    read_loop demo_deps plain_search Still_Open (\<lambda>n. demo_turn) 0 [] (demo_task limit) demo_server []
      [take 9 (stream_total s), drop 9 (stream_total s)] = Some (fates, why, k', sv', buf') \<and>
    served served_wire (lit ''u'') [] [demo_position] whole \<and> prefix fates whole \<and>
    (case why of None \<Rightarrow> fates = whole \<and> buf' = [] | Some r \<Rightarrow> told_to_end demo_deps (\<lambda>n. demo_turn) (ConnId 1) sv' r)"
proof -
  let ?lg = "[(Mode_Xml, demo_request), (Mode_Proto, demo_position)]"
  from demo_exchange obtain s where s: "client_run served_wire plain_search demo_config True [demo_position] ?lg s"
    "client_at s = Client_Proto" by blast
  define limit where "limit = length (event_xml served_wire demo_request) + 3"
  have enc: "event_proto served_wire demo_position = [1, 2, 3]" by (simp add: event_proto_def served_wire_def demo_wire_def)
  have x: "xml_sendable served_wire limit demo_request"
    using demo_request_fits by (simp add: xml_sendable_def limit_def) (simp add: served_wire_def demo_wire_def)
  have p: "proto_sendable served_wire limit demo_position"
    using demo_position_carried by (simp add: proto_sendable_def enc limit_def) (simp add: served_wire_def demo_wire_def)
  have ty: "ev_type demo_position \<noteq> TAKP_Q" by (simp add: demo_position_def TAKP_Q_def lit_def)
  have wire: "served_wire = cd_wire demo_deps" by (simp add: demo_deps_def)
  have ok: "wire_ok (cd_wire demo_deps)" using served_ok by (simp add: demo_deps_def)
  have k: "ck_codec (demo_task limit) = with_limit Mode_Xml limit" "neg_state (ck_neg (demo_task limit)) = Offered (lit ''u'')"
    "neg_configured (ck_neg (demo_task limit)) = Mode_Accept" "h_id (ck_handle (demo_task limit)) = ConnId 1"
    by (simp_all add: demo_task_def neg_with_mode_def)
  have go: "list_all (\<lambda>(m, e). can_go served_wire limit m e) ?lg" using x p by (simp add: can_go_def)
  have one: "length (filter (\<lambda>(m, e). ev_type e = TAKP_Q) ?lg) = 1" using ty demo_request_fits(3) by simp
  define halves where "halves = [take 9 (stream_total s), drop 9 (stream_total s)]"
  have "concat halves = stream_total s" unfolding halves_def concat.simps append_Nil2 by (rule append_take_drop_id)
  from client_is_understood [OF s search_ok_plain ok wire demo_turns_fair k(1-3) go one this, of demo_server]
  obtain xs q fs fates why k' sv' buf' whole where r: "stream_mode s = Mode_Proto"
    "?lg = map (Pair Mode_Xml) (xs @ [q]) @ map (Pair Mode_Proto) fs"
    "read_loop demo_deps plain_search Still_Open (\<lambda>n. demo_turn) 0 [] (demo_task limit) demo_server [] halves =
      Some (fates, why, k', sv', buf')"
    "served served_wire (lit ''u'') xs fs whole" "prefix fates whole"
    "case why of None \<Rightarrow> fates = whole \<and> buf' = [] \<and> neg_mode (ck_neg k') = Mode_Proto
     | Some r \<Rightarrow> told_to_end demo_deps (\<lambda>n. demo_turn) (h_id (ck_handle (demo_task limit))) sv' r" by blast
  from r(2) have "xs = []" "fs = [demo_position]" by (auto simp: Cons_eq_append_conv append_eq_Cons_conv map_eq_Cons_conv)
  with r(3-6) s r(1) k(4) show ?thesis unfolding halves_def
    by (intro exI [of _ s] exI [of _ limit] exI [of _ fates] exI [of _ why] exI [of _ k'] exI [of _ sv'] exI [of _ buf'] exI [of _ whole])
      (auto simp del: take_append drop_append split: option.splits)
qed

end
