(* ===== verification/Spec2Isabelle.thy ===== *)
theory Spec2Isabelle
  imports Typed_Messages Mission_Detail Conn_Props Log_Examples Limit_Examples Link_Health Upstream Client_Server
begin

text \<open>
  \<^bold>\<open>rustak\<close> is a TAK server: clients keep a TLS stream open and exchange Cursor-on-Target events, and
  the server relays each event to the connections its sender's channels reach.  This development
  models the path of a message: from bytes, through the codec and the event's typed details, through
  routing, to the queues of the receivers; and the registry of connections that routing asks.

  \<^bold>\<open>Parts and how they meet.\<close>

  \<^item> Bytes to messages (\<open>rustak-cot/src/codec\<close>).  \<open>Varint\<close> is \<open>varint.rs\<close>; \<open>Proto_Frame\<close> is
    \<open>proto_frame.rs\<close>; \<open>Xml_Frame\<close> is \<open>xml_frame.rs\<close>; \<open>Codec\<close> is \<open>mod.rs\<close> (the per-connection
    decoder with its mode switch, size caps and counters) and \<open>encoded.rs\<close> (an event serialised at
    most once per encoding).  \<open>Framing\<close> states the contract both framers offer the codec as a
    locale, interpreted on the two scanners, and \<open>Byte_Search\<close> the contract of the \<open>memchr\<close> crate.
    \<open>Errors\<close> is \<open>error.rs\<close>.
  \<^item> Messages (\<open>rustak-cot/src\<close>).  \<open>Detail_Tree\<close> is \<open>detail/mod.rs\<close>; \<open>Typed_Details\<close>,
    \<open>Typed_Messages\<close> and \<open>Mission_Detail\<close> the typed views of \<open>detail/*.rs\<close>, each a record with its
    reader and writer and an interpretation of the views' contract; \<open>Marti\<close> and \<open>Flow_Tags\<close> the
    address list and the loop guard; \<open>Cot_Types\<close> is \<open>types.rs\<close> and \<open>time.rs\<close>; \<open>Cot_Event\<close> is
    \<open>event.rs\<close>; \<open>Msgs\<close> is \<open>msgs.rs\<close> and \<open>negotiate.rs\<close>.
  \<^item> XML (\<open>rustak-cot/src/xml\<close>).  \<open>Xml_Write\<close> is \<open>write.rs\<close>, \<open>Xml_Parse\<close> is \<open>parse.rs\<close> and
    \<open>entity.rs\<close>, \<open>Xml_Tokens\<close> the \<open>quick-xml\<close> crate they read and escape through, \<open>Utf8\<close> the encoding
    of text as bytes, \<open>Xml_Props\<close> that what is written is read back, and \<open>Xml_Wire\<close> that it also
    survives the framer.
  \<^item> Protobuf (\<open>rustak-cot/src/proto\<close>).  \<open>Proto_Convert\<close> is \<open>to_proto.rs\<close> and \<open>from_proto.rs\<close> over the
    messages of \<open>tak_protocol_v1.proto\<close>, \<open>Proto_Props\<close> what a conversion there and back keeps.
  \<^item> Rights (\<open>rustak-core/src/identity\<close>, \<open>rustak-api/src/identity/group.rs\<close>).  \<open>Group_Set\<close> has
    channel names, the two 256-bit vectors of a principal's rights, \<open>can_reach\<close> and principals.
  \<^item> Connections (\<open>rustak-server/src/stream\<close>).  \<open>Liveness\<close>, \<open>Metrics\<close> and \<open>Subscription\<close> are the
    files of the same names: why and when a connection ended, the counters, one connection's record
    and its delivery handle.  \<open>Registry\<close> is \<open>registry.rs\<close>, \<open>Hub\<close> is \<open>hub.rs\<close> (with the changes of
    \<open>live.rs\<close>), \<open>Hub_Inv\<close> its invariant, \<open>Hub_Props\<close> its reachable states.
  \<^item> Routing (\<open>rustak-server/src/stream\<close>).  \<open>Group_Cache\<close> is \<open>groups.rs\<close>; \<open>Dest_Select\<close> is
    \<open>dest.rs\<close>, with \<open>Dest_Props\<close> its guarantees; \<open>Cot_Store\<close> is the handle of \<open>cot_store/mod.rs\<close>;
    \<open>Routing\<close> is \<open>router.rs\<close>, \<open>control.rs\<close>, \<open>tap.rs\<close> and \<open>inject.rs\<close>, with \<open>Routing_Props\<close> its
    guarantees.  \<open>Notify\<close> is \<open>notify.rs\<close> and \<open>replay.rs\<close>: what the server says on its own account.
  \<^item> Negotiation (\<open>rustak-server/src/stream/negotiation.rs\<close>, \<open>rustak-client/src/stream/negotiation.rs\<close>).
    \<open>Negotiation\<close> has both ends of the agreement to switch from XML to protobuf.
  \<^item> Writing (\<open>rustak-server/src/stream\<close>).  \<open>Writer\<close> is \<open>writer.rs\<close> and \<open>peer_probe.rs\<close>: a connection's
    queue becomes bytes on its socket.
  \<^item> The connection (\<open>rustak-server/src/stream/connection.rs\<close>).  \<open>Connection\<close> puts the parts together:
    register, replay and offer, the read loop over codec, parsers, negotiation and router, and the
    end; \<open>Conn_Props\<close> what a whole stream and the end of one come to.
  \<^item> The append log (\<open>rustak-server/src/store\<close>, \<open>rustak-server/src/db/repos/stream_segments\<close>).
    \<open>Rec_Frame\<close> is \<open>frame.rs\<close>; \<open>Seg_Index\<close> the index of segments, each SQL statement a function on a
    list of rows; \<open>Append_Log\<close> is \<open>segment.rs\<close>, \<open>append_log.rs\<close> and \<open>prune.rs\<close> over a volume of files
    and rows.  \<open>Log_Run\<close> has recovery, \<open>Log_Append\<close> appending and reading, \<open>Log_Props\<close> retention,
    \<open>Log_Examples\<close> concrete runs.
  \<^item> Sign-in limits (\<open>rustak-server/src/auth/ratelimit\<close>).  \<open>Limit_Sketch\<close> is the lock-free table and
    its clock, a cell a 64-bit word, down to each atomic access; \<open>Limit_Keys\<close> the keys that are
    counted and the classes of addresses; \<open>Rate_Limit\<close> the limiter with its events and views.  \<open>Sketch_Props\<close> takes the
    threads in every interleaving (a schedule is a list of thread numbers), \<open>Sketch_Alone\<close> one by itself,
    \<open>Limit_Props\<close> the limiter, \<open>Limit_Examples\<close> concrete runs.
  \<^item> The client's stream (\<open>rustak-client/src/stream\<close>).  \<open>Keep_Alive\<close> is \<open>keepalive.rs\<close>, \<open>Client_Stream\<close>
    is \<open>connection.rs\<close> with the errors and configuration it names; \<open>Client_Props\<close> the invariant of what it writes,
    \<open>Client_Reads\<close> what it reads, \<open>Client_Server\<close> both ends together.
  \<^item> What a client reports (\<open>rustak-client/src/sidecar/link_health.rs\<close>, \<open>rustak-client/src/feed/upstream\<close>).
    \<open>Announce\<close> is the contract of a record that tells of a run once, \<open>Link_Health\<close> and \<open>Upstream\<close> its two
    providers with their backoffs.

  \<^bold>\<open>Representation.\<close>  A Rust struct is a record, an enum a datatype, a \<open>Result\<close> a sum with the error
  on the left.  A \<open>String\<close> is a list of Unicode scalar values, a byte buffer a list of 8-bit words.
  \<open>u64\<close> lengths of the wire format are 64-bit words; counters are naturals with their saturation or
  wrap-around written out.  An \<open>f64\<close> is its bit pattern: the program stores and prints coordinates
  and never computes with them.  A \<open>HashMap\<close> that is iterated is an association list with distinct
  keys, standing for one iteration order; nothing proved depends on which.  What connections share
  by reference (queue, counters, closing flag) is a map from the connection's id to a cell.

  \<^bold>\<open>Steps.\<close>  Every registry operation holds its lock for its whole body and is one step; the
  interleavings of the server are the sequences of these steps (\<open>hub_step\<close>, \<open>hub_reach\<close>).  Routing
  one message is one step of the state that the router shares (\<open>server\<close>): between the single lock
  acquisitions of one message, the source may interleave another connection's step, which the model
  does not.  The channel cache is the exception: what its two reads saw and when they ran are
  arguments.

  \<^bold>\<open>Parameters.\<close>  Code that is not in the repository is an argument of what uses it, with its
  documented behaviour as a named hypothesis and a concrete instance for the witnesses: \<open>memchr\<close>
  (\<open>search_lib\<close>, \<open>search_ok\<close>), \<open>bitvec\<close>'s byte packing (\<open>bit_lib\<close>, \<open>bits_ok\<close>), \<open>chrono\<close>'s parsers
  and formatter (\<open>clock_ok\<close>, which asks something of four-digit years only), \<open>tokio\<close>'s bounded queue
  (\<open>chan_lib\<close>), \<open>quick-xml\<close>'s reader and escaping (\<open>quick_xml\<close>, \<open>quick_xml_ok\<close>), \<open>prost\<close>'s bytes of a message and SHA-256 (\<open>wire_lib\<close>), the
  text of an \<open>f64\<close> (\<open>f64_ok\<close>).  The
  database and the mission store behind a trait object are arguments of the same kind.  A clock read
  is an argument; instants and durations are nanoseconds, and an addition to an instant does not
  overflow.  So are SipHash, lower-casing and the text of an address in the limiter.  Which system
  calls of the log fail is a list of outcomes in the volume (\<open>vl_luck\<close>), and how far each wait of a
  client's turn got is part of the turn.  A connection's read loop is given one \<open>turn\<close> for each poll of its
  \<open>select!\<close>: what the server's other tasks did before it and until its outcome is acted on, whether the
  idle deadline had passed, and how many reads were ready; the closing flag is the one in the state.

  \<^bold>\<open>What the lemmas show.\<close>  The framers' lemmas show that a stream is delivered whole and in order
  however it is cut into reads, that junk is skipped and counted, and that an oversized message is
  refused with bounded memory.  The detail lemmas show that each typed view reads back what it wrote
  and loses nothing it does not understand.  The registry's invariant says that an index entry lists
  exactly the connections that now carry its name; from it each question routing asks has the answer
  its documentation promises.  \<open>routing_provider\<close> is the interface between the registry and the
  choice of recipients; over it, whatever a message names, only permitted connections are chosen.
  The routing lemmas then say what one message can change: whose queue, once, in which form.
  The log's lemmas show that opening it after a crash keeps exactly the whole records and that
  retention takes what it says and stops where it says; the limiter's, that no interleaving loses a
  completed failure and that locks last as long as they say.  What is told of a run of failures is
  compared with a specification over its history (\<open>telling\<close>).  The client's invariant
  (\<open>client_inv\<close>) says where every event given to a stream is and in which encoding it was written; from
  it what one end writes is what the other reads.

  \<^bold>\<open>Bounds.\<close>  The codec's loop and a connection's read loop are partial functions: the first is shown
  to return always, the second to serve a client's stream, by the reads that are left and the turns up
  to one without a deadline, to its end or to where it is told to stop; the scanners terminate on the
  length of the buffer.  No fuel is used; a client's read loop recurses over the turns it is given.

  \<^bold>\<open>Not modelled.\<close>  Spawning and joining of tasks, the sockets and the listeners, TLS and
  certificates, connecting and reconnecting, the rest of the database, the HTTP interfaces,
  configuration, background jobs, plugins and the rest of the client library: they are input and
  output through third-party libraries.  Logging is left out throughout.
\<close>

end
